(* ===== verification/Prelude.thy ===== *)
theory Prelude
  imports Main "HOL-Library.Word" "HOL-Library.Code_Target_Numeral"
begin

text \<open>
  What every component of the development shares: the machine integers of the Go source, the
  collections of facts (\<^theory_text>\<open>named_theorems\<close>) the component theories fill and the component
  proofs use, and generic lemmas on lists and options.
\<close>

text \<open>Go's \<open>int64\<close>, \<open>uint64\<close> and (on the 64-bit targets) \<open>int\<close> are 64-bit words: \<^term>\<open>sint\<close> reads one as
  signed and \<^term>\<open>unat\<close> as unsigned, and a conversion between them keeps the bits.\<close>

type_synonym u64 = "64 word"

named_theorems rune_simps \<open>how encoded text splits into runes\<close>
named_theorems valid_intros \<open>which text is valid UTF-8\<close>
named_theorems eat_simps \<open>how the parser's cursor moves\<close>
named_theorems frame_simps \<open>how the statement scanner moves over encoded text\<close>

lemma takeWhile_append_delim:
  assumes "\<forall>x\<in>set xs. P x" and "ys = [] \<or> \<not> P (hd ys)"
  shows "takeWhile P (xs @ ys) = xs"
  using assms by (cases ys) (auto simp: takeWhile_append)

lemma length_takeWhile_pos:
  assumes "xs \<noteq> []" and "P (hd xs)"
  shows "0 < length (takeWhile P xs)"
  using assms by (cases xs) auto

lemma hd_append_nonempty: "xs \<noteq> [] \<Longrightarrow> hd (xs @ ys) = hd xs"
  by (cases xs) auto

lemma map_of_map_eq_find:
  "map_of (map (\<lambda>x. (f x, g x)) xs) k = map_option g (find (\<lambda>x. f x = k) xs)"
  by (induction xs) auto

lemma foldl_shift_append: "foldl f a (xs @ ys) = foldl f (foldl f a xs) ys"
  by simp

end
