(* ===== verification/GoText.thy ===== *)
theory GoText
  imports Prelude
begin

text \<open>
  The text layer of Go as the source uses it. A Go string is a sequence of bytes, here a
  \<^typ>\<open>string\<close> (a HOL character is a byte); a rune is a code point, here a \<^typ>\<open>nat\<close>. Ranging
  over a string, \<open>[]rune(s)\<close> and \<open>strings.Builder.WriteRune\<close> go through UTF-8, which is written
  out: a byte that starts no valid sequence is U+FFFD and one byte wide. Then the number formatting
  of \<open>strconv\<close> and the few functions of \<open>strings\<close> the wire package calls.
\<close>

type_synonym rune = nat

subsection \<open>UTF-8\<close>

definition runeError :: rune where
  "runeError = 0xFFFD"

definition valid_rune :: "rune \<Rightarrow> bool" where
  "valid_rune r \<longleftrightarrow> r < 0xD800 \<or> (0xDFFF < r \<and> r \<le> 0x10FFFF)"

definition in_range :: "nat \<Rightarrow> nat \<Rightarrow> nat \<Rightarrow> bool" where
  "in_range lo hi b \<longleftrightarrow> lo \<le> b \<and> b \<le> hi"

text \<open>Which second bytes a leading byte accepts (Go's \<open>acceptRanges\<close>).\<close>

definition second_ok :: "nat \<Rightarrow> nat \<Rightarrow> bool" where
  "second_ok b0 b1 \<longleftrightarrow>
     (if b0 = 0xE0 then in_range 0xA0 0xBF b1
      else if b0 = 0xED then in_range 0x80 0x9F b1
      else if b0 = 0xF0 then in_range 0x90 0xBF b1
      else if b0 = 0xF4 then in_range 0x80 0x8F b1
      else in_range 0x80 0xBF b1)"

definition byteAt :: "string \<Rightarrow> nat \<Rightarrow> nat" where
  "byteAt cs i = (if i < length cs then of_char (cs ! i) else 0)"

text \<open>\<open>utf8.DecodeRune\<close>: the rune at the head of a non-empty byte string, and its width.\<close>

definition decodeRune :: "char \<Rightarrow> string \<Rightarrow> rune \<times> nat" where
  "decodeRune c cs =
     (let b0 = of_char c :: nat; b1 = byteAt cs 0; b2 = byteAt cs 1; b3 = byteAt cs 2 in
      if b0 < 0x80 then (b0, 1)
      else if in_range 0xC2 0xDF b0 \<and> 1 \<le> length cs \<and> second_ok b0 b1 then
        ((b0 - 0xC0) * 64 + (b1 - 0x80), 2)
      else if in_range 0xE0 0xEF b0 \<and> 2 \<le> length cs \<and> second_ok b0 b1 \<and> in_range 0x80 0xBF b2 then
        ((b0 - 0xE0) * 4096 + (b1 - 0x80) * 64 + (b2 - 0x80), 3)
      else if in_range 0xF0 0xF4 b0 \<and> 3 \<le> length cs \<and> second_ok b0 b1
              \<and> in_range 0x80 0xBF b2 \<and> in_range 0x80 0xBF b3 then
        ((b0 - 0xF0) * 262144 + (b1 - 0x80) * 4096 + (b2 - 0x80) * 64 + (b3 - 0x80), 4)
      else (runeError, 1))"

fun utf8_chunks :: "string \<Rightarrow> (rune \<times> string) list" where
  "utf8_chunks [] = []"
| "utf8_chunks (c # cs) =
     (let n = snd (decodeRune c cs) - 1
      in (fst (decodeRune c cs), c # take n cs) # utf8_chunks (drop n cs))"

text \<open>\<open>[]rune(s)\<close>.\<close>

definition runes :: "string \<Rightarrow> rune list" where
  "runes s = map fst (utf8_chunks s)"

text \<open>\<open>utf8.AppendRune\<close>, which \<open>WriteRune\<close> uses: an invalid rune is written as U+FFFD.\<close>

definition encodeRune :: "rune \<Rightarrow> string" where
  "encodeRune r0 =
     (let r = (if valid_rune r0 then r0 else runeError) in
      if r < 0x80 then [char_of r]
      else if r < 0x800 then [char_of (0xC0 + r div 64), char_of (0x80 + r mod 64)]
      else if r < 0x10000 then
        [char_of (0xE0 + r div 4096), char_of (0x80 + r div 64 mod 64), char_of (0x80 + r mod 64)]
      else
        [char_of (0xF0 + r div 262144), char_of (0x80 + r div 4096 mod 64),
         char_of (0x80 + r div 64 mod 64), char_of (0x80 + r mod 64)])"

definition utf8 :: "rune list \<Rightarrow> string" where
  "utf8 rs = concat (map encodeRune rs)"

definition valid_utf8 :: "string \<Rightarrow> bool" where
  "valid_utf8 s \<longleftrightarrow> utf8 (runes s) = s"

definition ascii :: "string \<Rightarrow> bool" where
  "ascii s \<longleftrightarrow> list_all (\<lambda>c. of_char c < (0x80::nat)) s"

lemma of_char_of_nat [simp]: "b < 256 \<Longrightarrow> of_char (char_of b :: char) = (b::nat)"
  by (simp add: of_char_mod_256 char_of_mod_256)

lemma runes_Nil [simp]: "runes [] = []"
  by (simp add: runes_def)

lemma utf8_Nil [simp]: "utf8 [] = []"
  by (simp add: utf8_def)

lemma utf8_Cons [simp]: "utf8 (r # rs) = encodeRune r @ utf8 rs"
  by (simp add: utf8_def)

lemma utf8_append [simp]: "utf8 (a @ b) = utf8 a @ utf8 b"
  by (simp add: utf8_def)

lemma decodeRune_1: "b < 0x80 \<Longrightarrow> decodeRune (char_of b) s = (b, 1)"
  by (simp add: decodeRune_def)

lemma decodeRune_2:
  assumes "in_range 0xC2 0xDF b0" "in_range 0x80 0xBF b1"
  shows "decodeRune (char_of b0) (char_of b1 # s) = ((b0 - 0xC0) * 64 + (b1 - 0x80), 2)"
proof -
  have "\<not> b0 < 0x80" "b0 < 256" "b1 < 256" "second_ok b0 b1" using assms by (auto simp: in_range_def second_ok_def)
  then show ?thesis using assms by (simp add: decodeRune_def byteAt_def)
qed

lemma decodeRune_3:
  assumes "in_range 0xE0 0xEF b0" "second_ok b0 b1" "in_range 0x80 0xBF b2"
  shows "decodeRune (char_of b0) (char_of b1 # char_of b2 # s) =
    ((b0 - 0xE0) * 4096 + (b1 - 0x80) * 64 + (b2 - 0x80), 3)"
proof -
  have "\<not> b0 < 0x80" "b0 < 256" "\<not> in_range 0xC2 0xDF b0" "b1 < 256" "b2 < 256"
    using assms by (auto simp: in_range_def second_ok_def split: if_splits)
  then show ?thesis using assms by (simp add: decodeRune_def byteAt_def)
qed

lemma decodeRune_4:
  assumes "in_range 0xF0 0xF4 b0" "second_ok b0 b1" "in_range 0x80 0xBF b2" "in_range 0x80 0xBF b3"
  shows "decodeRune (char_of b0) (char_of b1 # char_of b2 # char_of b3 # s) =
    ((b0 - 0xF0) * 262144 + (b1 - 0x80) * 4096 + (b2 - 0x80) * 64 + (b3 - 0x80), 4)"
proof -
  have "\<not> b0 < 0x80" "b0 < 256" "\<not> in_range 0xC2 0xDF b0" "\<not> in_range 0xE0 0xEF b0"
    "b1 < 256" "b2 < 256" "b3 < 256"
    using assms by (auto simp: in_range_def second_ok_def split: if_splits)
  then show ?thesis using assms by (simp add: decodeRune_def byteAt_def)
qed

lemma encodeRune_Cons: "encodeRune r = hd (encodeRune r) # tl (encodeRune r)"
  by (simp add: encodeRune_def Let_def)

lemma split_64: "(r::nat) div 4096 * 4096 + r div 64 mod 64 * 64 + r mod 64 = r"
proof -
  have "r div 64 div 64 * 64 + r div 64 mod 64 = r div 64" by (rule div_mult_mod_eq)
  moreover have "r div 64 * 64 + r mod 64 = r" by (rule div_mult_mod_eq)
  moreover have "r div 64 div 64 = r div 4096" by (simp add: div_mult2_eq[symmetric])
  ultimately show ?thesis by linarith
qed

lemma split_64_4: "(r::nat) div 262144 * 262144 + r div 4096 mod 64 * 4096 + r div 64 mod 64 * 64 + r mod 64 = r"
proof -
  have "r div 4096 div 64 * 64 + r div 4096 mod 64 = r div 4096" by (rule div_mult_mod_eq)
  moreover have "r div 4096 div 64 = r div 262144" by (simp add: div_mult2_eq[symmetric])
  ultimately show ?thesis using split_64[of r] by linarith
qed

lemma decodeRune_encodeRune:
  assumes v: "valid_rune r"
  shows "decodeRune (hd (encodeRune r)) (tl (encodeRune r) @ s) = (r, length (encodeRune r))"
proof -
  have r: "r < 0x110000" using v by (auto simp: valid_rune_def)
  have m: "r mod 64 < 64" "r div 64 mod 64 < 64" "r div 4096 mod 64 < 64" by simp_all
  consider (a) "r < 0x80" | (b) "0x80 \<le> r" "r < 0x800" | (c) "0x800 \<le> r" "r < 0x10000" | (d) "0x10000 \<le> r"
    by linarith
  then show ?thesis
  proof cases
    case a
    then show ?thesis using v by (simp add: encodeRune_def decodeRune_1)
  next
    case b
    have "r div 64 * 64 + r mod 64 = r" by (rule div_mult_mod_eq)
    then have "2 \<le> r div 64" "r div 64 < 32" using b m by linarith+
    then have "decodeRune (char_of (0xC0 + r div 64)) (char_of (0x80 + r mod 64) # s) = (r, 2)"
      using m by (subst decodeRune_2) (auto simp: in_range_def)
    then show ?thesis using b v by (simp add: encodeRune_def)
  next
    case c
    note e = split_64[of r]
    have "r div 4096 < 16" "r div 4096 = 0 \<Longrightarrow> 32 \<le> r div 64 mod 64" using c e m by linarith+
    moreover have "r div 4096 = 13 \<Longrightarrow> r div 64 mod 64 \<le> 31" using v e m unfolding valid_rune_def by linarith
    ultimately have "second_ok (0xE0 + r div 4096) (0x80 + r div 64 mod 64)" "in_range 0xE0 0xEF (0xE0 + r div 4096)"
      using m by (auto simp: in_range_def second_ok_def)
    then have "decodeRune (char_of (0xE0 + r div 4096))
        (char_of (0x80 + r div 64 mod 64) # char_of (0x80 + r mod 64) # s) = (r, 3)"
      using m e by (subst decodeRune_3) (auto simp: in_range_def)
    then show ?thesis using c v by (simp add: encodeRune_def)
  next
    case d
    note e = split_64_4[of r]
    have "r div 262144 < 5" "r div 262144 = 0 \<Longrightarrow> 16 \<le> r div 4096 mod 64" using d r e m by linarith+
    moreover have "r div 262144 = 4 \<Longrightarrow> r div 4096 mod 64 \<le> 15" using r e m by linarith
    ultimately have "second_ok (0xF0 + r div 262144) (0x80 + r div 4096 mod 64)"
      "in_range 0xF0 0xF4 (0xF0 + r div 262144)"
      using m by (auto simp: in_range_def second_ok_def)
    then have "decodeRune (char_of (0xF0 + r div 262144)) (char_of (0x80 + r div 4096 mod 64) #
        char_of (0x80 + r div 64 mod 64) # char_of (0x80 + r mod 64) # s) = (r, 4)"
      using m e by (subst decodeRune_4) (auto simp: in_range_def)
    then show ?thesis using d v by (simp add: encodeRune_def)
  qed
qed

lemma utf8_chunks_encodeRune:
  assumes "valid_rune r"
  shows "utf8_chunks (encodeRune r @ s) = (r, encodeRune r) # utf8_chunks s"
proof -
  obtain c bs where e: "encodeRune r = c # bs"
    using encodeRune_Cons by blast
  have "decodeRune c (bs @ s) = (r, Suc (length bs))"
    using decodeRune_encodeRune[OF assms, of s] e by simp
  then show ?thesis using e by simp
qed

lemma runes_encodeRune [rune_simps]:
  "valid_rune r \<Longrightarrow> runes (encodeRune r @ s) = r # runes s"
  by (simp add: runes_def utf8_chunks_encodeRune)

lemma runes_utf8_append [rune_simps]:
  "list_all valid_rune rs \<Longrightarrow> runes (utf8 rs @ s) = rs @ runes s"
  by (induction rs) (auto simp: runes_encodeRune)

lemma runes_utf8 [rune_simps]: "list_all valid_rune rs \<Longrightarrow> runes (utf8 rs) = rs"
  using runes_utf8_append[of rs "[]"] by simp

lemma valid_runeError [simp]: "valid_rune runeError"
  by (simp add: valid_rune_def runeError_def)

lemma of_char_less_256: "of_char (c::char) < (256::nat)"
  using of_char_mod_256[of c, where ?'a = nat] by (metis mod_less_divisor zero_less_numeral)

lemma valid_rune_2:
  "in_range 0xC2 0xDF b0 \<Longrightarrow> second_ok b0 b1 \<Longrightarrow> valid_rune ((b0 - 0xC0) * 64 + (b1 - 0x80))"
  by (auto simp: in_range_def second_ok_def valid_rune_def split: if_splits)

lemma valid_rune_3:
  "in_range 0xE0 0xEF b0 \<Longrightarrow> second_ok b0 b1 \<Longrightarrow> in_range 0x80 0xBF b2
   \<Longrightarrow> valid_rune ((b0 - 0xE0) * 4096 + (b1 - 0x80) * 64 + (b2 - 0x80))"
  unfolding in_range_def second_ok_def valid_rune_def by (simp split: if_splits; linarith)

lemma valid_rune_4:
  "in_range 0xF0 0xF4 b0 \<Longrightarrow> second_ok b0 b1 \<Longrightarrow> in_range 0x80 0xBF b2 \<Longrightarrow> in_range 0x80 0xBF b3
   \<Longrightarrow> valid_rune ((b0 - 0xF0) * 262144 + (b1 - 0x80) * 4096 + (b2 - 0x80) * 64 + (b3 - 0x80))"
  unfolding in_range_def second_ok_def valid_rune_def by (simp split: if_splits; linarith)

lemma decodeRune_valid: "valid_rune (fst (decodeRune c cs))"
  unfolding decodeRune_def Let_def
  by (simp add: valid_rune_2 valid_rune_3 valid_rune_4) (simp add: valid_rune_def)

lemma runes_Cons: "runes (c # cs) = fst (decodeRune c cs) # runes (drop (snd (decodeRune c cs) - 1) cs)"
  by (simp add: runes_def Let_def)

lemma runes_valid: "list_all valid_rune (runes s)"
  by (induction s rule: utf8_chunks.induct) (auto simp: runes_Cons decodeRune_valid)

lemma runes_ascii_Cons [rune_simps]:
  "of_char c < (0x80::nat) \<Longrightarrow> runes (c # s) = of_char c # runes s"
  by (simp add: runes_Cons decodeRune_def)

lemma runes_ascii_append: "ascii a \<Longrightarrow> runes (a @ s) = map of_char a @ runes s"
  by (induction a) (auto simp: ascii_def runes_ascii_Cons)

lemma runes_append: "valid_utf8 a \<Longrightarrow> runes (a @ b) = runes a @ runes b"
  using runes_utf8_append[OF runes_valid, of a b] by (simp add: valid_utf8_def)

lemma valid_utf8_Nil [simp]: "valid_utf8 []"
  by (simp add: valid_utf8_def)

lemma valid_utf8_append [valid_intros]: "valid_utf8 a \<Longrightarrow> valid_utf8 b \<Longrightarrow> valid_utf8 (a @ b)"
  by (simp add: valid_utf8_def runes_append)

lemma ascii_valid_utf8 [valid_intros]: "ascii a \<Longrightarrow> valid_utf8 a"
proof (induction a)
  case (Cons c a)
  then have "of_char c < (0x80::nat)" "valid_utf8 a" by (auto simp: ascii_def)
  then show ?case by (simp add: valid_utf8_def runes_ascii_Cons encodeRune_def valid_rune_def Let_def)
qed simp

lemma valid_utf8_utf8 [valid_intros]: "list_all valid_rune rs \<Longrightarrow> valid_utf8 (utf8 rs)"
  by (simp add: valid_utf8_def runes_utf8)

subsection \<open>Decimal and hexadecimal digits\<close>

definition digit :: "nat \<Rightarrow> char" where
  "digit d = char_of (48 + d)"

definition isDigit :: "char \<Rightarrow> bool" where
  "isDigit c \<longleftrightarrow> in_range 48 57 (of_char c)"

fun showNat :: "nat \<Rightarrow> string" where
  "showNat n = (if n < 10 then [digit n] else showNat (n div 10) @ [digit (n mod 10)])"

declare showNat.simps [simp del]

definition readNat :: "string \<Rightarrow> nat" where
  "readNat s = foldl (\<lambda>a c. a * 10 + (of_char c - 48)) 0 s"

text \<open>\<open>strconv.FormatInt(v, 10)\<close> and \<open>strconv.FormatUint(v, 10)\<close>.\<close>

definition showInt :: "int \<Rightarrow> string" where
  "showInt i = (if i < 0 then CHR ''-'' # showNat (nat (- i)) else showNat (nat i))"

definition formatInt :: "u64 \<Rightarrow> string" where
  "formatInt w = showInt (sint w)"

definition formatUint :: "u64 \<Rightarrow> string" where
  "formatUint w = showNat (unat w)"

text \<open>\<open>strconv.ParseInt(s, 10, 64)\<close>: an optional sign and digits, refused (\<open>ErrSyntax\<close>,
  \<open>ErrRange\<close>) where it is neither or does not fit.\<close>

definition parseInt :: "string \<Rightarrow> u64 option" where
  "parseInt s =
     (let neg = (s \<noteq> [] \<and> hd s = CHR ''-'');
          ds = (if s \<noteq> [] \<and> (hd s = CHR ''-'' \<or> hd s = CHR ''+'') then tl s else s);
          i = (if neg then - int (readNat ds) else int (readNat ds))
      in if ds \<noteq> [] \<and> list_all isDigit ds \<and> - (2 ^ 63) \<le> i \<and> i < 2 ^ 63
         then Some (word_of_int i) else None)"

definition hexDigit :: "nat \<Rightarrow> char" where
  "hexDigit d = (if d < 10 then char_of (48 + d) else char_of (87 + d))"

text \<open>The verb \<open>%02x\<close> of \<open>fmt\<close>, for a byte.\<close>

definition hex2 :: "nat \<Rightarrow> string" where
  "hex2 b = [hexDigit (b div 16), hexDigit (b mod 16)]"

subsection \<open>The functions of \<open>strings\<close> the source uses\<close>

fun join :: "string \<Rightarrow> string list \<Rightarrow> string" where
  "join sep [] = []"
| "join sep [x] = x"
| "join sep (x # y # zs) = x @ sep @ join sep (y # zs)"

text \<open>\<open>strings.Split\<close> with a separator of one byte.\<close>

fun splitOn :: "char \<Rightarrow> string \<Rightarrow> string list" where
  "splitOn sep [] = [[]]"
| "splitOn sep (c # cs) =
     (if c = sep then [] # splitOn sep cs
      else case splitOn sep cs of [] \<Rightarrow> [[c]] | p # ps \<Rightarrow> (c # p) # ps)"

text \<open>\<open>unicode.IsSpace\<close>, and \<open>strings.TrimSpace\<close> over it: whole runes are cut, so the bytes
  left are the bytes that were there.\<close>

definition isSpace :: "rune \<Rightarrow> bool" where
  "isSpace r \<longleftrightarrow>
     r \<in> {9, 10, 11, 12, 13, 32, 0x85, 0xA0, 0x1680, 0x2028, 0x2029, 0x202F, 0x205F, 0x3000}
     \<or> in_range 0x2000 0x200A r"

definition trimSpace :: "string \<Rightarrow> string" where
  "trimSpace s =
     concat (map snd
       (rev (dropWhile (isSpace \<circ> fst) (rev (dropWhile (isSpace \<circ> fst) (utf8_chunks s))))))"

definition containsAny :: "string \<Rightarrow> string \<Rightarrow> bool" where
  "containsAny s chars \<longleftrightarrow> list_ex (\<lambda>c. c \<in> set chars) s"

subsection \<open>Facts about numbers as text\<close>

lemma of_char_digit [simp]: "d < 10 \<Longrightarrow> of_char (digit d) = 48 + d"
  by (simp add: digit_def)

lemma isDigit_digit [simp]: "d < 10 \<Longrightarrow> isDigit (digit d)"
  by (simp add: isDigit_def in_range_def)

lemma showNat_digits: "list_all isDigit (showNat n)"
proof (induction n rule: showNat.induct)
  case (1 n)
  then show ?case by (subst showNat.simps) auto
qed

lemma showNat_nonempty [simp]: "showNat n \<noteq> []"
  by (subst showNat.simps) auto

lemma readNat_append: "readNat (s @ [c]) = readNat s * 10 + (of_char c - 48)"
  by (simp add: readNat_def)

lemma readNat_showNat [simp]: "readNat (showNat n) = n"
proof (induction n rule: showNat.induct)
  case (1 n)
  show ?case
  proof (cases "n < 10")
    case True
    then show ?thesis by (subst showNat.simps) (simp add: readNat_def)
  next
    case False
    then show ?thesis using 1 by (subst showNat.simps) (simp add: readNat_append)
  qed
qed

lemma isDigit_ascii: "isDigit c \<Longrightarrow> of_char c < (0x80::nat)"
  by (simp add: isDigit_def in_range_def)

lemma digits_ascii: "list_all isDigit s \<Longrightarrow> ascii s"
  by (auto simp: ascii_def list_all_iff isDigit_ascii)

lemma ascii_append [simp]: "ascii (a @ b) \<longleftrightarrow> ascii a \<and> ascii b"
  by (simp add: ascii_def)

lemma ascii_Cons [simp]: "ascii (c # s) \<longleftrightarrow> of_char c < (0x80::nat) \<and> ascii s"
  by (simp add: ascii_def)

lemma ascii_Nil [simp]: "ascii []"
  by (simp add: ascii_def)

lemma showNat_ascii [simp]: "ascii (showNat n)"
  by (rule digits_ascii[OF showNat_digits])

lemma showInt_ascii [simp]: "ascii (showInt i)"
  by (simp add: showInt_def)

lemma formatInt_ascii [simp]: "ascii (formatInt w)" "ascii (formatUint w)"
  by (simp_all add: formatInt_def formatUint_def)

lemma hd_showNat_digit: "isDigit (hd (showNat n))"
  using showNat_digits[of n] by (cases "showNat n") auto

lemma parseInt_formatInt [simp]: "parseInt (formatInt w) = Some w"
proof -
  have r: "- (2 ^ 63) \<le> sint w" "sint w < 2 ^ 63"
    using sint_range_size[of w] by (auto simp: word_size)
  have h: "hd (showNat n) \<noteq> CHR ''-''" "hd (showNat n) \<noteq> CHR ''+''" for n
    using hd_showNat_digit[of n] by (auto simp: isDigit_def in_range_def)
  show ?thesis
  proof (cases "sint w < 0")
    case True
    then show ?thesis using r showNat_digits by (simp add: parseInt_def formatInt_def showInt_def Let_def)
  next
    case False
    then show ?thesis using r h showNat_digits by (simp add: parseInt_def formatInt_def showInt_def Let_def)
  qed
qed

lemma parseInt_formatUint:
  assumes "unat w < 2 ^ 63"
  shows "parseInt (formatUint w) = Some w"
proof -
  have h: "hd (showNat n) \<noteq> CHR ''-''" "hd (showNat n) \<noteq> CHR ''+''" for n
    using hd_showNat_digit[of n] by (auto simp: isDigit_def in_range_def)
  have "int (unat w) < 2 ^ 63" using assms by (metis of_nat_less_iff of_nat_numeral of_nat_power)
  moreover have "- 9223372036854775808 \<le> uint w" by (rule order_trans[of _ 0]) simp_all
  ultimately show ?thesis using h showNat_digits by (simp add: parseInt_def formatUint_def Let_def)
qed

lemma parseInt_formatUint_big:
  assumes "2 ^ 63 \<le> unat w"
  shows "parseInt (formatUint w) = None"
proof -
  have h: "hd (showNat n) \<noteq> CHR ''-''" "hd (showNat n) \<noteq> CHR ''+''" for n
    using hd_showNat_digit[of n] by (auto simp: isDigit_def in_range_def)
  have "(2::int) ^ 63 \<le> int (unat w)" using assms by (metis of_nat_le_iff of_nat_numeral of_nat_power)
  then show ?thesis using h by (simp add: parseInt_def formatUint_def Let_def)
qed

lemma join_map_append: "xs \<noteq> [] \<Longrightarrow> join sep (x # xs) = x @ sep @ join sep xs"
  by (cases xs) auto

lemma valid_utf8_join: "valid_utf8 sep \<Longrightarrow> list_all valid_utf8 xs \<Longrightarrow> valid_utf8 (join sep xs)"
  by (induction sep xs rule: join.induct) (auto intro: valid_intros)

end
