(* ===== verification/GoFloat.thy ===== *)
theory GoFloat
  imports GoText
begin

text \<open>
  Go's \<open>float64\<close> as far as the wire package uses it: \<open>strconv.ParseFloat\<close> on a decimal text
  (correctly rounded, half to even) and \<open>strconv.FormatFloat(v, 'g', -1, 64)\<close> (the fewest digits
  that read back as the same number). A finite number is a sign, a mantissa \<open>m\<close> and an exponent
  \<open>e\<close> and stands for \<open>m * 2 ^ e\<close>; \<open>canonical\<close> says which pairs are numbers of the format.
\<close>

datatype float64 =
    FNaN
  | FInf bool
  | FNum (fneg: bool) (fmant: nat) (fexp: int)

definition canonical :: "nat \<Rightarrow> int \<Rightarrow> bool" where
  "canonical m e \<longleftrightarrow> m < 2 ^ 53 \<and> - 1074 \<le> e \<and> e \<le> 971 \<and> (2 ^ 52 \<le> m \<or> e = - 1074)"

subsection \<open>Rounding a ratio of whole numbers\<close>

fun bitlen :: "nat \<Rightarrow> nat" where
  "bitlen n = (if n = 0 then 0 else Suc (bitlen (n div 2)))"

declare bitlen.simps [simp del]

text \<open>\<open>scaledGe a b k\<close> is \<open>b * 2 ^ k \<le> a\<close>, and \<open>floorLog2 a b\<close> the \<open>k\<close> with
  \<open>2 ^ k \<le> a / b < 2 ^ (k + 1)\<close>.\<close>

definition scaledGe :: "nat \<Rightarrow> nat \<Rightarrow> int \<Rightarrow> bool" where
  "scaledGe a b k \<longleftrightarrow> (if 0 \<le> k then b * 2 ^ nat k \<le> a else b \<le> a * 2 ^ nat (- k))"

definition floorLog2 :: "nat \<Rightarrow> nat \<Rightarrow> int" where
  "floorLog2 a b =
     (let k = int (bitlen a) - int (bitlen b) in if scaledGe a b k then k else k - 1)"

definition roundHalfEven :: "nat \<Rightarrow> nat \<Rightarrow> nat" where
  "roundHalfEven a b =
     (let q = a div b; r = a mod b in if b < 2 * r \<or> (2 * r = b \<and> odd q) then q + 1 else q)"

text \<open>The nearest number of the format to \<open>a / b\<close>, or \<open>None\<close> where that is past its range.\<close>

definition roundRatio :: "nat \<Rightarrow> nat \<Rightarrow> (nat \<times> int) option" where
  "roundRatio a b =
     (let e = max (- 1074) (floorLog2 a b - 52);
          q = (if 0 \<le> e then roundHalfEven a (b * 2 ^ nat e) else roundHalfEven (a * 2 ^ nat (- e)) b);
          m = (if q = 2 ^ 53 then 2 ^ 52 else q);
          e' = (if q = 2 ^ 53 then e + 1 else e)
      in if e' \<le> 971 then Some (m, e') else None)"

text \<open>The number nearest to \<open>n * 10 ^ x\<close>.\<close>

definition roundDecimal :: "bool \<Rightarrow> nat \<Rightarrow> int \<Rightarrow> float64 option" where
  "roundDecimal neg n x =
     (if n = 0 then Some (FNum neg 0 (- 1074))
      else (let a = (if 0 \<le> x then n * 10 ^ nat x else n);
                b = (if 0 \<le> x then 1 else 10 ^ nat (- x));
                g = gcd a b
            in map_option (\<lambda>(m, e). FNum neg m e) (roundRatio (a div g) (b div g))))"

subsection \<open>\<open>strconv.ParseFloat\<close>\<close>

text \<open>The digits of an exponent; \<open>readFloat\<close> stops counting past ten thousand.\<close>

definition readExponent :: "string \<Rightarrow> nat" where
  "readExponent s = foldl (\<lambda>a c. if a < 10000 then a * 10 + (of_char c - 48) else a) 0 s"

text \<open>On a text of the form \<open>[+-]? digits ( '.' digits )? ( [eE] [+-]? digits )?\<close>, the only
  texts the source hands it; \<open>None\<close> is \<open>ErrRange\<close>.\<close>

definition parseFloat :: "string \<Rightarrow> float64 option" where
  "parseFloat s =
     (let neg = (s \<noteq> [] \<and> hd s = CHR ''-'');
          s1 = (if s \<noteq> [] \<and> (hd s = CHR ''-'' \<or> hd s = CHR ''+'') then tl s else s);
          ip = takeWhile isDigit s1; s2 = dropWhile isDigit s1;
          point = (s2 \<noteq> [] \<and> hd s2 = CHR ''.'');
          fp = (if point then takeWhile isDigit (tl s2) else []);
          s3 = (if point then dropWhile isDigit (tl s2) else s2);
          s4 = tl s3;
          eneg = (s4 \<noteq> [] \<and> hd s4 = CHR ''-'');
          s5 = (if s4 \<noteq> [] \<and> (hd s4 = CHR ''-'' \<or> hd s4 = CHR ''+'') then tl s4 else s4);
          x = (if s3 = [] then 0 else if eneg then - int (readExponent s5) else int (readExponent s5))
      in roundDecimal neg (readNat (ip @ fp)) (x - int (length fp)))"

subsection \<open>\<open>strconv.FormatFloat(v, 'g', -1, 64)\<close>\<close>

text \<open>A finite number is a whole number times a power of ten, exactly.\<close>

definition exactDecimal :: "nat \<Rightarrow> int \<Rightarrow> nat \<times> int" where
  "exactDecimal m e = (if 0 \<le> e then (m * 2 ^ nat e, 0) else (m * 5 ^ nat (- e), e))"

text \<open>\<open>n\<close> without its last \<open>k\<close> digits, rounded down and up, the nearer one first.\<close>

definition candidates :: "nat \<Rightarrow> nat \<Rightarrow> nat list" where
  "candidates n k =
     (let p = 10 ^ k; lo = n div p; r = n mod p in
      if 2 * r < p \<or> (2 * r = p \<and> even lo) then [lo, lo + 1] else [lo + 1, lo])"

text \<open>The shortest digits that read back as \<open>m * 2 ^ e\<close>: cut the exact decimal to one digit, then
  to two, and so on until a candidate reads back. Nothing cut is the exact decimal itself.\<close>

fun shortest :: "nat \<Rightarrow> int \<Rightarrow> nat \<Rightarrow> int \<Rightarrow> nat \<Rightarrow> nat \<times> int" where
  "shortest m e n x 0 = (n, x)"
| "shortest m e n x (Suc k) =
     (case find (\<lambda>c. roundDecimal False c (x + int (Suc k)) = Some (FNum False m e))
             (candidates n (Suc k)) of
        Some c \<Rightarrow> (c, x + int (Suc k))
      | None \<Rightarrow> shortest m e n x k)"

definition stripZeros :: "string \<Rightarrow> string" where
  "stripZeros ds = rev (dropWhile (\<lambda>c. c = CHR ''0'') (rev ds))"

text \<open>The digits, and where the decimal point stands among them: \<open>0.d1d2... * 10 ^ dp\<close>.\<close>

definition floatDigits :: "nat \<Rightarrow> int \<Rightarrow> string \<times> int" where
  "floatDigits m e =
     (if m = 0 then ([], 0)
      else (let (n, x) = exactDecimal m e;
                (c, y) = shortest m e n x (length (showNat n) - 1);
                ds = showNat c
            in (stripZeros ds, int (length ds) + y)))"

definition pad0 :: "nat \<Rightarrow> string" where
  "pad0 n = replicate n CHR ''0''"

text \<open>\<open>fmtE\<close> and \<open>fmtF\<close> of \<open>strconv\<close> with the shortest precision.\<close>

definition fmtE :: "string \<Rightarrow> int \<Rightarrow> string" where
  "fmtE ds dp =
     (let x = dp - 1; d = showNat (nat \<bar>x\<bar>) in
      take 1 ds @ (if length ds \<le> 1 then [] else CHR ''.'' # drop 1 ds)
      @ ''e'' @ (if x < 0 then ''-'' else ''+'') @ pad0 (2 - length d) @ d)"

definition fmtF :: "string \<Rightarrow> int \<Rightarrow> string" where
  "fmtF ds dp =
     (if 0 < dp then take (nat dp) ds @ pad0 (nat dp - length ds) else ''0'')
     @ (if int (length ds) \<le> dp \<or> ds = [] then []
        else CHR ''.'' # pad0 (nat (- dp)) @ drop (nat dp) ds)"

definition formatFloat :: "float64 \<Rightarrow> string" where
  "formatFloat f =
     (case f of
        FNaN \<Rightarrow> ''NaN''
      | FInf neg \<Rightarrow> (if neg then ''-Inf'' else ''+Inf'')
      | FNum neg m e \<Rightarrow>
          (let (ds, dp) = floatDigits m e; x = dp - 1 in
           (if neg then ''-'' else []) @ (if x < - 4 \<or> 6 \<le> x then fmtE ds dp else fmtF ds dp)))"

text \<open>The float nearest to an integer, \<open>float64(v)\<close>.\<close>

definition floatOfInt :: "int \<Rightarrow> float64" where
  "floatOfInt i =
     (case roundDecimal (i < 0) (nat \<bar>i\<bar>) 0 of Some f \<Rightarrow> f | None \<Rightarrow> FInf (i < 0))"

end
