(* ===== verification/WireTypes.thy ===== *)
theory WireTypes
  imports GoFloat
begin

text \<open>
  The parse nodes of the display protocol (\<open>wire/parser.go\<close>), the data values they stand for
  (\<open>serval.Value\<close> as \<open>wire/values.go\<close> reads and writes it), and the constructors of
  \<open>wire/encode.go\<close>. A \<open>*Value\<close> that may be nil is an option. The two number cases of \<open>Value\<close>
  are two constructors: \<open>IntValue\<close> is \<open>IsInt\<close> with its exact \<open>Int\<close>, and its \<open>Number\<close> field is
  always \<open>float64(Int)\<close>, so it is not stored.
\<close>

subsection \<open>Parse nodes\<close>

datatype flagState = FlagNone | FlagTrue | FlagFalse | FlagIndeterminate

datatype wvalue =
    WordValue (v_word: string)
  | IntValue (v_int: u64)
  | FloatValue (v_float: float64)
  | StringValue (v_str: string) (v_blob: bool)
  | BlockValue (v_block: script)
and arg = Arg (a_name: string) (a_flag: flagState) (a_value: "wvalue option")
and statement =
  Statement (st_key: string) (st_verb: string) (st_ref: string) (st_refid: u64) (st_args: "arg list")
and script = Script (statements: "statement list")

fun isBlock :: "wvalue \<Rightarrow> bool" where
  "isBlock (BlockValue b) = True"
| "isBlock v = False"

subsection \<open>Data values\<close>

datatype data =
    DNil
  | DBool bool
  | DInt u64
  | DFloat float64
  | DSymbol string
  | DText string
  | DBytes string
  | DList "field list"
and field = Field (f_name: string) (f_value: "data option")

type_synonym record' = "field list"

subsection \<open>Value constructors\<close>

definition WordUndefined :: string where "WordUndefined = ''undefined''"
definition WordNil :: string where "WordNil = ''nil''"
definition WordTrue :: string where "WordTrue = ''true''"
definition WordFalse :: string where "WordFalse = ''false''"

definition NewString :: "string \<Rightarrow> wvalue" where
  "NewString s = StringValue s False"

definition NewBlob :: "string \<Rightarrow> wvalue" where
  "NewBlob b = StringValue b True"

definition NewWord :: "string \<Rightarrow> wvalue" where
  "NewWord w = WordValue w"

definition NewInt :: "u64 \<Rightarrow> wvalue" where
  "NewInt i = IntValue i"

definition NewFloat :: "float64 \<Rightarrow> wvalue" where
  "NewFloat f = FloatValue f"

definition NewBlock :: "statement list \<Rightarrow> wvalue" where
  "NewBlock stmts = BlockValue (Script stmts)"

text \<open>The dynamic types \<open>Val\<close> tells apart. \<open>GoInt\<close> stands for \<open>int\<close>, \<open>int64\<close> and \<open>uint64\<close>, all
  64 bits wide, \<open>GoFloat64\<close> for both float types, and \<open>GoOther\<close> carries the \<open>%v\<close> rendering of
  anything else.\<close>

datatype goAny =
    GoNil
  | GoValue wvalue
  | GoString string
  | GoBytes string
  | GoBool bool
  | GoInt u64
  | GoFloat64 float64
  | GoOther string

fun Val :: "goAny \<Rightarrow> wvalue" where
  "Val GoNil = NewWord WordNil"
| "Val (GoValue v) = v"
| "Val (GoString s) = NewString s"
| "Val (GoBytes b) = NewBlob b"
| "Val (GoBool b) = (if b then NewWord WordTrue else NewWord WordFalse)"
| "Val (GoInt i) = NewInt i"
| "Val (GoFloat64 f) = NewFloat f"
| "Val (GoOther s) = NewString s"

definition Named :: "string \<Rightarrow> goAny \<Rightarrow> arg" where
  "Named name v = Arg name FlagNone (Some (Val v))"

definition Blob :: "string \<Rightarrow> string \<Rightarrow> arg" where
  "Blob name b = Arg name FlagNone (Some (StringValue b True))"

subsection \<open>Between parse nodes and data (\<open>wire/values.go\<close>)\<close>

text \<open>\<open>asData\<close> and \<open>asRecord\<close>. A field's value is the statement's first operand.\<close>

fun asData :: "wvalue \<Rightarrow> data option"
  and asRecord :: "script \<Rightarrow> field list"
  and asFields :: "statement list \<Rightarrow> field list"
  and asField :: "statement \<Rightarrow> field"
  and firstOperand :: "arg list \<Rightarrow> data option"
where
  "asData (WordValue w) =
     (if w = WordUndefined then None
      else if w = WordNil then Some DNil
      else if w = WordTrue then Some (DBool True)
      else if w = WordFalse then Some (DBool False)
      else Some (DSymbol w))"
| "asData (IntValue i) = Some (DInt i)"
| "asData (FloatValue f) = Some (DFloat f)"
| "asData (StringValue s blob) = Some (if blob then DBytes s else DText s)"
| "asData (BlockValue b) = Some (DList (asRecord b))"
| "asRecord (Script sts) = asFields sts"
| "asFields [] = []"
| "asFields (st # sts) = asField st # asFields sts"
| "asField (Statement key verb ref refid args) = Field verb (firstOperand args)"
| "firstOperand [] = None"
| "firstOperand (Arg name flag v # as) =
     (case v of Some v' \<Rightarrow> (if name = [] then asData v' else firstOperand as) | None \<Rightarrow> firstOperand as)"

text \<open>A nil pointer is no value on the way in.\<close>

definition asDataPtr :: "wvalue option \<Rightarrow> data option" where
  "asDataPtr v = Option.bind v asData"

text \<open>\<open>asWire\<close> and \<open>asScript\<close>; \<open>asWirePtr\<close> is \<open>asWire\<close> on a pointer, nil being \<open>undefined\<close>.\<close>

fun asWire :: "data \<Rightarrow> wvalue"
  and asStatement :: "field \<Rightarrow> statement"
where
  "asWire DNil = NewWord WordNil"
| "asWire (DBool b) = (if b then NewWord WordTrue else NewWord WordFalse)"
| "asWire (DInt i) = NewInt i"
| "asWire (DFloat f) = NewFloat f"
| "asWire (DSymbol s) = NewWord s"
| "asWire (DText s) = NewString s"
| "asWire (DBytes b) = NewBlob b"
| "asWire (DList fs) = BlockValue (Script (map asStatement fs))"
| "asStatement (Field name v) =
     Statement [] name [] 0
       (case v of None \<Rightarrow> [] | Some d \<Rightarrow> [Arg [] FlagNone (Some (asWire d))])"

definition asWirePtr :: "data option \<Rightarrow> wvalue" where
  "asWirePtr v = (case v of None \<Rightarrow> NewWord WordUndefined | Some d \<Rightarrow> asWire d)"

definition asScript :: "field list \<Rightarrow> script" where
  "asScript r = Script (map asStatement r)"

text \<open>Data whose symbols are names: a symbol spelled like one of the four value words is read as
  that value.\<close>

definition valueWords :: "string set" where
  "valueWords = {WordUndefined, WordNil, WordTrue, WordFalse}"

fun namesOnly :: "data \<Rightarrow> bool"
  and namesOnlyField :: "field \<Rightarrow> bool"
where
  "namesOnly (DSymbol s) = (s \<notin> valueWords)"
| "namesOnly (DList fs) = list_all namesOnlyField fs"
| "namesOnly d = True"
| "namesOnlyField (Field name v) = (case v of None \<Rightarrow> True | Some d \<Rightarrow> namesOnly d)"

lemma asFields_map: "asFields sts = map asField sts"
  by (induction sts) auto

lemma asData_asWire:
  "namesOnly d \<Longrightarrow> asData (asWire d) = Some d"
  "namesOnlyField f \<Longrightarrow> asField (asStatement f) = f"
proof (induction d and f rule: asWire_asStatement.induct)
  case (8 fs)
  have "map (asField \<circ> asStatement) fs = fs"
    using 8 by (intro map_idI) (auto simp: list_all_iff)
  then show ?case by (simp add: asFields_map)
next
  case (9 name v)
  then show ?case by (cases v) auto
qed (auto simp: NewWord_def NewInt_def NewFloat_def NewString_def NewBlob_def valueWords_def
      WordUndefined_def WordNil_def WordTrue_def WordFalse_def)

end
