(* ===== verification/WireParser.thy ===== *)
theory WireParser
  imports WireTypes
begin

text \<open>
  The parser of \<open>wire/parser.go\<close>. A \<open>parser\<close> holds the runes not read yet (\<open>src[pos:]\<close>) and
  the position of the next one. Every method of the source is a function from a parser to a result
  and the parser it leaves. Recursion between values and blocks takes fuel; \<open>WireParserFacts\<close> shows
  that the fuel \<open>Parse\<close> starts with is always enough.
\<close>

subsection \<open>State, errors and results\<close>

record parser =
  rest :: "rune list"
  p_line :: nat
  p_col :: nat

datatype parseMsg =
    ExpectedName
  | UnterminatedSymbol
  | EmptySymbol
  | ExpectedString
  | UnterminatedString
  | UnterminatedEscape
  | UnterminatedHex
  | MalformedHex
  | UnknownEscape rune
  | NewlineInString
  | MalformedNumber string
  | ExpectedValue
  | UnterminatedBlock
  | UnexpectedCharacter rune
  | ExpectedFlagName rune
  | ExpectedObjectId string
  | NothingAfterId string u64
  | ExpectedCommand string
  | UnexpectedBrace
  | ExpectedStatement rune

record parseError =
  e_line :: nat
  e_col :: nat
  e_msg :: parseMsg

datatype 'a pres = POk 'a parser | PErr parseError | PFuel

fun pbind :: "'a pres \<Rightarrow> ('a \<Rightarrow> parser \<Rightarrow> 'b pres) \<Rightarrow> 'b pres" where
  "pbind (POk x p) f = f x p"
| "pbind (PErr e) f = PErr e"
| "pbind PFuel f = PFuel"

definition errf :: "parser \<Rightarrow> parseMsg \<Rightarrow> 'a pres" where
  "errf p m = PErr \<lparr>e_line = p_line p, e_col = p_col p, e_msg = m\<rparr>"

subsection \<open>The cursor\<close>

text \<open>The runes the grammar names.\<close>

abbreviation rTAB :: rune where "rTAB \<equiv> 9"
abbreviation rNL :: rune where "rNL \<equiv> 10"
abbreviation rCR :: rune where "rCR \<equiv> 13"
abbreviation rESC :: rune where "rESC \<equiv> 27"
abbreviation rSP :: rune where "rSP \<equiv> 32"
abbreviation rBANG :: rune where "rBANG \<equiv> 33"
abbreviation rQUOTE :: rune where "rQUOTE \<equiv> 34"
abbreviation rHASH :: rune where "rHASH \<equiv> 35"
abbreviation rLPAR :: rune where "rLPAR \<equiv> 40"
abbreviation rRPAR :: rune where "rRPAR \<equiv> 41"
abbreviation rPLUS :: rune where "rPLUS \<equiv> 43"
abbreviation rMINUS :: rune where "rMINUS \<equiv> 45"
abbreviation rDOT :: rune where "rDOT \<equiv> 46"
abbreviation rSEMI :: rune where "rSEMI \<equiv> 59"
abbreviation rEQ :: rune where "rEQ \<equiv> 61"
abbreviation rQMARK :: rune where "rQMARK \<equiv> 63"
abbreviation rBSLASH :: rune where "rBSLASH \<equiv> 92"
abbreviation rUSCORE :: rune where "rUSCORE \<equiv> 95"
abbreviation rLBRACE :: rune where "rLBRACE \<equiv> 123"
abbreviation rRBRACE :: rune where "rRBRACE \<equiv> 125"

definition eof :: "parser \<Rightarrow> bool" where
  "eof p \<longleftrightarrow> rest p = []"

definition peek :: "parser \<Rightarrow> rune" where
  "peek p = (case rest p of [] \<Rightarrow> 0 | ch # _ \<Rightarrow> ch)"

text \<open>\<open>advance\<close> moves past one rune; the source only calls it where one is left, and the rune it
  returns is the one \<open>peek\<close> shows.\<close>

definition advance :: "parser \<Rightarrow> parser" where
  "advance p =
     (case rest p of
        [] \<Rightarrow> p
      | ch # cs \<Rightarrow>
          (if ch = rNL then \<lparr>rest = cs, p_line = p_line p + 1, p_col = 1\<rparr>
           else \<lparr>rest = cs, p_line = p_line p, p_col = p_col p + 1\<rparr>))"

definition eat :: "nat \<Rightarrow> parser \<Rightarrow> parser" where
  "eat n = advance ^^ n"

text \<open>The loop \<open>for !p.eof() \<and> pred(p.peek()) { ... p.advance() }\<close>: the runes it passes and the
  parser it leaves.\<close>

definition advanceWhile :: "(rune \<Rightarrow> bool) \<Rightarrow> parser \<Rightarrow> rune list \<times> parser" where
  "advanceWhile P p = (let t = takeWhile P (rest p) in (t, eat (length t) p))"

lemma rest_advance [eat_simps]: "rest (advance p) = tl (rest p)"
  by (simp add: advance_def split: list.splits)

lemma rest_eat [eat_simps]: "rest (eat n p) = drop n (rest p)"
  by (induction n) (auto simp: eat_def rest_advance drop_Suc tl_drop)

lemma length_advanceWhile: "length (rest (snd (advanceWhile P p))) \<le> length (rest p)"
  by (simp add: advanceWhile_def Let_def rest_eat)

text \<open>\<open>skipInline\<close> and \<open>skipSeparators\<close> differ in what they pass: \<open>spaces\<close> is the set.\<close>

function skipBlank :: "rune set \<Rightarrow> parser \<Rightarrow> parser" where
  "skipBlank spaces p =
     (if eof p then p
      else if peek p \<in> spaces then skipBlank spaces (advance p)
      else if peek p = rHASH then skipBlank spaces (snd (advanceWhile (\<lambda>c. c \<noteq> rNL) p))
      else p)"
  by pat_completeness auto
termination
proof (relation "measure (\<lambda>(spaces, p). length (rest p))")
  fix spaces :: "rune set" and p
  assume "\<not> eof p" "peek p = rHASH"
  then show "((spaces, snd (advanceWhile (\<lambda>c. c \<noteq> rNL) p)), spaces, p) \<in> measure (\<lambda>(spaces, p). length (rest p))"
    by (cases "rest p") (auto simp: eof_def peek_def advanceWhile_def Let_def rest_eat)
qed (auto simp: eof_def rest_advance)

declare skipBlank.simps [simp del]

definition skipInline :: "parser \<Rightarrow> parser" where
  "skipInline p = skipBlank {rSP, rTAB, rCR} p"

definition skipSeparators :: "parser \<Rightarrow> parser" where
  "skipSeparators p = skipBlank {rSP, rTAB, rCR, rNL, rSEMI} p"

subsection \<open>Rune classes\<close>

definition hexVal :: "rune \<Rightarrow> nat option" where
  "hexVal ch =
     (if in_range 48 57 ch then Some (ch - 48)
      else if in_range 97 102 ch then Some (ch - 97 + 10)
      else if in_range 65 70 ch then Some (ch - 65 + 10)
      else None)"

definition isWordStart :: "rune \<Rightarrow> bool" where
  "isWordStart ch \<longleftrightarrow> ch = rUSCORE \<or> ch = rDOT \<or> in_range 97 122 ch \<or> in_range 65 90 ch"

definition isWordRune :: "rune \<Rightarrow> bool" where
  "isWordRune ch \<longleftrightarrow> isWordStart ch \<or> ch = rMINUS \<or> in_range 48 57 ch"

definition isTokenRune :: "rune \<Rightarrow> bool" where
  "isTokenRune ch \<longleftrightarrow> isWordRune ch \<or> ch = rPLUS"

definition isNumberStart :: "rune \<Rightarrow> bool" where
  "isNumberStart ch \<longleftrightarrow> ch = rMINUS \<or> in_range 48 57 ch"

text \<open>\<open>atStatementEnd\<close>: the answer, and the parser after the blanks it skips.\<close>

definition atStatementEnd :: "bool \<Rightarrow> parser \<Rightarrow> bool \<times> parser" where
  "atStatementEnd inBlock p0 =
     (let p = skipInline p0 in
      (eof p \<or> peek p = rNL \<or> peek p = rSEMI \<or> (peek p = rRBRACE \<and> inBlock), p))"

subsection \<open>Tokens\<close>

definition parseHead :: "parser \<Rightarrow> string pres" where
  "parseHead p =
     (if eof p \<or> \<not> isWordRune (peek p) then errf p ExpectedName
      else (let (t, p') = advanceWhile isWordRune p in POk (utf8 t) p'))"

definition parseWord :: "parser \<Rightarrow> string pres" where
  "parseWord p =
     (if eof p \<or> \<not> isWordStart (peek p) then errf p ExpectedName
      else (let (t, p') = advanceWhile isWordRune p in POk (utf8 t) p'))"

definition parseProtectedSymbol :: "parser \<Rightarrow> string pres" where
  "parseProtectedSymbol p0 =
     (let (t, p) = advanceWhile (\<lambda>c. c \<noteq> rNL \<and> c \<noteq> rRPAR) (advance p0) in
      if eof p \<or> peek p = rNL then errf p UnterminatedSymbol
      else if t = [] then errf (advance p) EmptySymbol
      else POk (utf8 t) (advance p))"

text \<open>The two digits after \<open>\\x\<close>.\<close>

fun parseHexDigits :: "nat \<Rightarrow> nat \<Rightarrow> parser \<Rightarrow> nat pres" where
  "parseHexDigits 0 v p = POk v p"
| "parseHexDigits (Suc i) v p =
     (if eof p then errf p UnterminatedHex
      else case hexVal (peek p) of
             None \<Rightarrow> errf (advance p) MalformedHex
           | Some d \<Rightarrow> parseHexDigits i ((v * 16 + d) mod 256) (advance p))"

lemma parseHexDigits_length:
  "parseHexDigits i v p = POk w p' \<Longrightarrow> length (rest p') \<le> length (rest p)"
  by (induction i v p rule: parseHexDigits.induct)
     (auto simp: errf_def rest_advance split: if_splits option.splits)

function parseStringBody :: "string \<Rightarrow> parser \<Rightarrow> string pres" where
  "parseStringBody acc p =
     (if eof p then errf p UnterminatedString
      else (let ch = peek p; p1 = advance p in
        if ch = rQUOTE then POk acc p1
        else if ch = rBSLASH then
          (if eof p1 then errf p1 UnterminatedEscape
           else (let esc = peek p1; p2 = advance p1 in
             if esc = rBSLASH then parseStringBody (acc @ encodeRune rBSLASH) p2
             else if esc = rQUOTE then parseStringBody (acc @ encodeRune rQUOTE) p2
             else if esc = 110 then parseStringBody (acc @ encodeRune rNL) p2
             else if esc = 116 then parseStringBody (acc @ encodeRune rTAB) p2
             else if esc = 114 then parseStringBody (acc @ encodeRune rCR) p2
             else if esc = 101 then parseStringBody (acc @ [char_of rESC]) p2
             else if esc = 120 then
               (case parseHexDigits 2 0 p2 of
                  POk v p3 \<Rightarrow> parseStringBody (acc @ [char_of v]) p3
                | PErr e \<Rightarrow> PErr e
                | PFuel \<Rightarrow> PFuel)
             else errf p2 (UnknownEscape esc)))
        else if ch = rNL then errf p1 NewlineInString
        else parseStringBody (acc @ encodeRune ch) p1))"
  by pat_completeness auto
termination
proof (relation "measure (\<lambda>(acc, p). length (rest p))", goal_cases)
  case (8 acc p ch p1 esc p2 v p3)
  then have "length (rest p3) \<le> length (rest p2)" by (auto dest: parseHexDigits_length)
  then show ?case using 8 by (cases "rest p") (auto simp: eof_def rest_advance)
qed (auto simp: eof_def rest_advance)

declare parseStringBody.simps [simp del]

definition parseString :: "parser \<Rightarrow> string pres" where
  "parseString p =
     (if peek p \<noteq> rQUOTE then errf p ExpectedString else parseStringBody [] (advance p))"

text \<open>\<open>scanToken\<close>: one whole bare token, which is ASCII.\<close>

definition scanToken :: "parser \<Rightarrow> string \<times> parser" where
  "scanToken p = (let (t, p') = advanceWhile isTokenRune p in (utf8 t, p'))"

definition isSign :: "char \<Rightarrow> bool" where
  "isSign c \<longleftrightarrow> c = CHR ''+'' \<or> c = CHR ''-''"

definition dropSign :: "string \<Rightarrow> string" where
  "dropSign s = (if s \<noteq> [] \<and> isSign (hd s) then tl s else s)"

text \<open>\<open>numberValue\<close>. The closure \<open>digits\<close> takes a run of digits and fails on an empty one;
  \<open>Some dot\<close> says the text has the numeric form and whether it has a point or an exponent.\<close>

definition numberForm :: "string \<Rightarrow> bool option" where
  "numberForm text =
     (let t1 = dropSign text; t2 = dropWhile isDigit t1 in
      if takeWhile isDigit t1 = [] then None
      else
        (let dot = (t2 \<noteq> [] \<and> hd t2 = CHR ''.'');
             t3 = (if dot then dropWhile isDigit (tl t2) else t2) in
         if dot \<and> takeWhile isDigit (tl t2) = [] then None
         else
           (let ex = (t3 \<noteq> [] \<and> (hd t3 = CHR ''e'' \<or> hd t3 = CHR ''E''));
                t4 = (if ex then dropSign (tl t3) else t3);
                t5 = (if ex then dropWhile isDigit t4 else t4) in
            if ex \<and> takeWhile isDigit t4 = [] then None
            else if t5 \<noteq> [] then None
            else Some (dot \<or> ex))))"

definition numberValue :: "string \<Rightarrow> wvalue option" where
  "numberValue text =
     (case numberForm text of
        None \<Rightarrow> None
      | Some fractional \<Rightarrow>
          (case (if fractional then None else parseInt text) of
             Some v \<Rightarrow> Some (IntValue v)
           | None \<Rightarrow> map_option FloatValue (parseFloat text)))"

definition parseNumber :: "parser \<Rightarrow> wvalue pres" where
  "parseNumber p =
     (let (text, p') = scanToken p in
      case numberValue text of
        None \<Rightarrow> errf p' (MalformedNumber text)
      | Some v \<Rightarrow> POk v p')"

definition parseNumberOrWord :: "parser \<Rightarrow> wvalue pres" where
  "parseNumberOrWord p =
     (let (text, p') = scanToken p in
      case numberValue text of
        Some v \<Rightarrow> POk v p'
      | None \<Rightarrow> (if isSign (hd text) then errf p' (MalformedNumber text) else POk (WordValue text) p'))"

subsection \<open>Values, arguments, statements, scripts\<close>

text \<open>The body of the loop of \<open>parseArgs\<close>, over the function that reads a value.\<close>

definition parseArg :: "(parser \<Rightarrow> wvalue pres) \<Rightarrow> parser \<Rightarrow> arg pres" where
  "parseArg readValue p =
     (let ch = peek p in
      if ch = rBANG \<or> ch = rQMARK then
        (case parseWord (advance p) of
           POk name p' \<Rightarrow>
             POk (Arg name (if ch = rQMARK then FlagIndeterminate else FlagFalse) None) p'
         | _ \<Rightarrow> errf (advance p) (ExpectedFlagName ch))
      else if isWordStart ch then
        pbind (parseWord p) (\<lambda>name p1.
          let p2 = skipInline p1 in
          if \<not> eof p2 \<and> peek p2 = rEQ then
            pbind (readValue (advance p2)) (\<lambda>v. POk (Arg name FlagNone (Some v)))
          else POk (Arg name FlagTrue None) p2)
      else pbind (readValue p) (\<lambda>v. POk (Arg [] FlagNone (Some v))))"

text \<open>What \<open>parseStatement\<close> does where an equals sign follows the head, over the function that
  reads arguments.\<close>

definition parseKeyed :: "(parser \<Rightarrow> (arg list) pres) \<Rightarrow> bool \<Rightarrow> string \<Rightarrow> parser \<Rightarrow> statement pres" where
  "parseKeyed readArgs inBlock first p =
     (let p3 = skipInline (advance p) in
      if \<not> eof p3 \<and> isNumberStart (peek p3) then
        pbind (parseNumber p3) (\<lambda>v p4.
          case v of
            IntValue i \<Rightarrow>
              (if sint i < 0 then errf p4 (ExpectedObjectId first)
               else (let (end, p5) = atStatementEnd inBlock p4 in
                     if \<not> end then errf p5 (NothingAfterId first i)
                     else POk (Statement first [] [] i []) p5))
          | _ \<Rightarrow> errf p4 (ExpectedObjectId first))
      else if eof p3 \<or> \<not> isWordStart (peek p3) then errf p3 (ExpectedCommand first)
      else pbind (parseWord p3) (\<lambda>second p4.
        let (end, p5) = atStatementEnd inBlock p4 in
        if end then POk (Statement first [] second 0 []) p5
        else pbind (readArgs p5) (\<lambda>as. POk (Statement first second [] 0 as))))"

text \<open>\<open>parseValue\<close>, \<open>parseArgs\<close>, \<open>parseStatement\<close> and \<open>parseScript\<close>; each call spends fuel.\<close>

fun parseValue :: "nat \<Rightarrow> bool \<Rightarrow> parser \<Rightarrow> wvalue pres"
  and parseArgs :: "nat \<Rightarrow> bool \<Rightarrow> parser \<Rightarrow> (arg list) pres"
  and parseStatement :: "nat \<Rightarrow> bool \<Rightarrow> parser \<Rightarrow> statement pres"
  and parseScript :: "nat \<Rightarrow> bool \<Rightarrow> parser \<Rightarrow> (statement list) pres"
where
  "parseValue 0 inBlock p0 = PFuel"
| "parseValue (Suc fuel) inBlock p0 =
     (let p = skipInline p0 in
      if eof p then errf p ExpectedValue
      else if peek p = rQUOTE then pbind (parseString p) (\<lambda>s. POk (StringValue s False))
      else if peek p = rLPAR then pbind (parseProtectedSymbol p) (\<lambda>w. POk (WordValue w))
      else if peek p = rLBRACE then
        pbind (parseScript fuel False (advance p)) (\<lambda>block p'.
          if eof p' \<or> peek p' \<noteq> rRBRACE then errf p' UnterminatedBlock
          else POk (BlockValue (Script block)) (advance p'))
      else if isTokenRune (peek p) then parseNumberOrWord p
      else errf p (UnexpectedCharacter (peek p)))"
| "parseArgs 0 inBlock p0 = PFuel"
| "parseArgs (Suc fuel) inBlock p0 =
     (let (end, p) = atStatementEnd inBlock p0 in
      if end then POk [] p
      else pbind (parseArg (\<lambda>q. parseValue fuel inBlock q) p) (\<lambda>a p'.
        pbind (parseArgs fuel inBlock p') (\<lambda>as. POk (a # as))))"
| "parseStatement 0 inBlock p0 = PFuel"
| "parseStatement (Suc fuel) inBlock p0 =
     pbind (parseHead p0) (\<lambda>first p1.
       let p2 = skipInline p1 in
       if \<not> eof p2 \<and> peek p2 = rEQ then parseKeyed (\<lambda>q. parseArgs fuel inBlock q) inBlock first p2
       else pbind (parseArgs fuel inBlock p2) (\<lambda>as. POk (Statement [] first [] 0 as)))"
| "parseScript 0 topLevel p0 = PFuel"
| "parseScript (Suc fuel) topLevel p0 =
     (let p = skipSeparators p0 in
      if eof p then (if \<not> topLevel then errf p UnterminatedBlock else POk [] p)
      else if peek p = rRBRACE then (if topLevel then errf p UnexpectedBrace else POk [] p)
      else if \<not> isWordRune (peek p) then errf p (ExpectedStatement (peek p))
      else pbind (parseStatement fuel (\<not> topLevel) p) (\<lambda>st p'.
        pbind (parseScript fuel topLevel p') (\<lambda>sts. POk (st # sts))))"

text \<open>\<open>Parse\<close>. \<open>None\<close> would be a parse that ran out of fuel.\<close>

definition newParser :: "string \<Rightarrow> parser" where
  "newParser src = \<lparr>rest = runes src, p_line = 1, p_col = 1\<rparr>"

definition parseFuel :: "string \<Rightarrow> nat" where
  "parseFuel src = 4 * length (runes src) + 4"

definition Parse :: "string \<Rightarrow> (parseError + script) option" where
  "Parse src =
     (case parseScript (parseFuel src) True (newParser src) of
        POk sts _ \<Rightarrow> Some (Inr (Script sts))
      | PErr e \<Rightarrow> Some (Inl e)
      | PFuel \<Rightarrow> None)"

end
