(* ===== verification/WireEncode.thy ===== *)
theory WireEncode
  imports WireParser
begin

text \<open>
  Writing the wire language: \<open>wire/encode.go\<close> and the string literals of \<open>wire/event.go\<close>. Then
  what of a parse tree has a spelling the grammar reads back (\<open>wf_value\<close> and its companions) and
  what it is read back as (\<open>readBack\<close>).
\<close>

subsection \<open>String literals\<close>

definition quoteRune :: "rune \<Rightarrow> string" where
  "quoteRune r =
     (if r = rQUOTE then [char_of rBSLASH, char_of rQUOTE]
      else if r = rBSLASH then [char_of rBSLASH, char_of rBSLASH]
      else if r = rNL then [char_of rBSLASH, CHR ''n'']
      else if r = rTAB then [char_of rBSLASH, CHR ''t'']
      else if r = rCR then [char_of rBSLASH, CHR ''r'']
      else if r = rESC then [char_of rBSLASH, CHR ''e'']
      else if r < 32 \<or> r = 127 then [char_of rBSLASH, CHR ''x''] @ hex2 r
      else encodeRune r)"

definition quoteString :: "string \<Rightarrow> string" where
  "quoteString s = char_of rQUOTE # concat (map quoteRune (runes s)) @ [char_of rQUOTE]"

definition Quote :: "string \<Rightarrow> string" where
  "Quote s = quoteString s"

definition quoteByte :: "char \<Rightarrow> string" where
  "quoteByte c =
     (if c = char_of rQUOTE then [char_of rBSLASH, char_of rQUOTE]
      else if c = char_of rBSLASH then [char_of rBSLASH, char_of rBSLASH]
      else if in_range 32 126 (of_char c) then [c]
      else [char_of rBSLASH, CHR ''x''] @ hex2 (of_char c))"

definition QuoteBlob :: "string \<Rightarrow> string" where
  "QuoteBlob b = char_of rQUOTE # concat (map quoteByte b) @ [char_of rQUOTE]"

subsection \<open>Values, arguments, statements, scripts\<close>

definition IsWord :: "string \<Rightarrow> bool" where
  "IsWord s \<longleftrightarrow>
     \<not> (s = [] \<or> isSign (hd s)) \<and> list_all isTokenRune (runes s) \<and> numberValue s = None"

definition encodeFloat :: "float64 \<Rightarrow> string" where
  "encodeFloat f =
     (let s = formatFloat f in if \<not> containsAny s ''.eEnN'' then s @ ''.0'' else s)"

fun EncodeValue :: "wvalue \<Rightarrow> string"
  and EncodeScript :: "script \<Rightarrow> string"
  and EncodeStatement :: "statement \<Rightarrow> string"
  and EncodeArg :: "arg \<Rightarrow> string"
where
  "EncodeValue (WordValue w) = (if IsWord w then w else ''('' @ w @ '')'')"
| "EncodeValue (IntValue i) = formatInt i"
| "EncodeValue (FloatValue f) = encodeFloat f"
| "EncodeValue (StringValue s blob) = (if blob then QuoteBlob s else quoteString s)"
| "EncodeValue (BlockValue b) =
     (let body = EncodeScript b in if body = [] then ''{}'' else ''{ '' @ body @ '' }'')"
| "EncodeScript (Script sts) = join ''; '' (map EncodeStatement sts)"
| "EncodeStatement (Statement key verb ref refid args) =
     (if key \<noteq> [] then key @ ''='' else [])
     @ (if verb \<noteq> [] then verb else if ref \<noteq> [] then ref else formatUint refid)
     @ concat (map (\<lambda>a. CHR '' '' # EncodeArg a) args)"
| "EncodeArg (Arg name flag v) =
     (case v of
        None \<Rightarrow> (case flag of FlagFalse \<Rightarrow> ''!'' @ name | FlagIndeterminate \<Rightarrow> ''?'' @ name | _ \<Rightarrow> name)
      | Some v' \<Rightarrow> (if name = [] then EncodeValue v' else name @ ''='' @ EncodeValue v'))"

text \<open>\<open>EncodeValue\<close> on a pointer, nil being \<open>undefined\<close>.\<close>

definition EncodeValuePtr :: "wvalue option \<Rightarrow> string" where
  "EncodeValuePtr v = (case v of None \<Rightarrow> WordUndefined | Some v' \<Rightarrow> EncodeValue v')"

text \<open>The arguments of a statement, each after a space (the loop every \<open>Encode\<close> ends with).\<close>

definition encodeArgs :: "arg list \<Rightarrow> string" where
  "encodeArgs args = concat (map (\<lambda>a. CHR '' '' # EncodeArg a) args)"

subsection \<open>What has a spelling\<close>

text \<open>A head is a run of word runes, a word one that starts like a word; both are ASCII.\<close>

definition isHead :: "string \<Rightarrow> bool" where
  "isHead s \<longleftrightarrow> s \<noteq> [] \<and> list_all isWordRune (runes s)"

definition isName :: "string \<Rightarrow> bool" where
  "isName s \<longleftrightarrow> s \<noteq> [] \<and> list_all isWordRune (runes s) \<and> isWordStart (hd (runes s))"

text \<open>A symbol with a protected spelling.\<close>

definition protectable :: "string \<Rightarrow> bool" where
  "protectable s \<longleftrightarrow> s \<noteq> [] \<and> valid_utf8 s \<and> list_all (\<lambda>r. r \<noteq> rNL \<and> r \<noteq> rRPAR) (runes s)"

text \<open>A float whose digits read back as the same float.\<close>

definition floatReadsBack :: "float64 \<Rightarrow> bool" where
  "floatReadsBack f \<longleftrightarrow>
     list_all isTokenRune (runes (encodeFloat f)) \<and> ascii (encodeFloat f)
     \<and> isNumberStart (hd (runes (encodeFloat f))) \<and> numberValue (encodeFloat f) = Some (FloatValue f)"

text \<open>An operand that is a bare word is read as a flag, up to the first rune that is no word rune:
  a word like \<open>a+b\<close> is torn there, so as an operand it has no spelling.\<close>

definition torn :: "wvalue \<Rightarrow> bool" where
  "torn v = (case v of WordValue w \<Rightarrow> IsWord w \<and> isWordStart (hd (runes w)) \<and> \<not> isName w | _ \<Rightarrow> False)"

fun wf_value :: "wvalue \<Rightarrow> bool"
  and wf_script :: "script \<Rightarrow> bool"
  and wf_statement :: "statement \<Rightarrow> bool"
  and wf_arg :: "arg \<Rightarrow> bool"
where
  "wf_value (WordValue w) = (IsWord w \<or> protectable w)"
| "wf_value (IntValue i) = True"
| "wf_value (FloatValue f) = floatReadsBack f"
| "wf_value (StringValue s blob) = (blob \<or> valid_utf8 s)"
| "wf_value (BlockValue b) = wf_script b"
| "wf_script (Script sts) = list_all wf_statement sts"
| "wf_statement (Statement key verb ref refid args) =
     (if verb = [] then
        isHead key \<and> args = []
        \<and> (if ref = [] then unat refid < 2 ^ 63 else isName ref \<and> refid = 0)
      else
        ref = [] \<and> refid = 0 \<and> list_all wf_arg args
        \<and> (if key = [] then isHead verb else isHead key \<and> isName verb \<and> args \<noteq> []))"
| "wf_arg (Arg name flag v) =
     (case v of
        None \<Rightarrow> isName name \<and> flag \<noteq> FlagNone
      | Some v' \<Rightarrow> flag = FlagNone \<and> wf_value v' \<and> (if name = [] then \<not> torn v' else isName name))"

text \<open>What comes back: an operand that is a name as a flag, bytes as the text that carries them.\<close>

definition bareName :: "wvalue \<Rightarrow> bool" where
  "bareName v = (case v of WordValue w \<Rightarrow> IsWord w \<and> isName w | _ \<Rightarrow> False)"

fun readBack :: "wvalue \<Rightarrow> wvalue"
  and readBackScript :: "script \<Rightarrow> script"
  and readBackStatement :: "statement \<Rightarrow> statement"
  and readBackArg :: "arg \<Rightarrow> arg"
where
  "readBack (WordValue w) = WordValue w"
| "readBack (IntValue i) = IntValue i"
| "readBack (FloatValue f) = FloatValue f"
| "readBack (StringValue s blob) = StringValue s False"
| "readBack (BlockValue b) = BlockValue (readBackScript b)"
| "readBackScript (Script sts) = Script (map readBackStatement sts)"
| "readBackStatement (Statement key verb ref refid args) =
     Statement key verb ref refid (map readBackArg args)"
| "readBackArg (Arg name flag v) =
     (case v of
        None \<Rightarrow> Arg name flag None
      | Some v' \<Rightarrow>
          (if name = [] \<and> bareName v' then Arg (v_word v') FlagTrue None
           else Arg name flag (Some (readBack v'))))"

end
