(* ===== verification/WireParserFacts.thy ===== *)
theory WireParserFacts
  imports WireEncode
begin

text \<open>
  Facts about the parser on any input: where it stands after each function (\<open>consumes\<close>), that the
  fuel of \<open>Parse\<close> is enough, and where it reports its errors.
\<close>

subsection \<open>How far a parser has moved\<close>

definition ahead :: "nat \<Rightarrow> parser \<Rightarrow> parser \<Rightarrow> bool" where
  "ahead k p q \<longleftrightarrow> (\<exists>n. k \<le> n \<and> n \<le> length (rest p) \<and> q = eat n p)"

lemma eat_0 [simp]: "eat 0 p = p"
  by (simp add: eat_def)

lemma eat_Suc: "eat (Suc n) p = eat n (advance p)"
  by (simp add: eat_def funpow_swap1)

lemma eat_eat [eat_simps]: "eat m (eat n p) = eat (n + m) p"
  by (simp add: eat_def funpow_add add.commute)

lemma advance_eat: "advance p = eat 1 p"
  by (simp add: eat_def)

lemma ahead_refl [simp]: "ahead 0 p p"
  unfolding ahead_def by (rule exI[of _ 0]) simp

lemma ahead_length: "ahead k p q \<Longrightarrow> length (rest q) + k \<le> length (rest p)"
  by (auto simp: ahead_def rest_eat)

lemma ahead_trans: "ahead j p q \<Longrightarrow> ahead k q r \<Longrightarrow> ahead (j + k) p r"
  unfolding ahead_def
proof (elim exE conjE)
  fix n m
  assume n: "j \<le> n" "n \<le> length (rest p)" "q = eat n p"
    and m: "k \<le> m" "m \<le> length (rest q)" "r = eat m q"
  show "\<exists>i\<ge>j + k. i \<le> length (rest p) \<and> r = eat i p"
    by (rule exI[of _ "n + m"]) (use n m in \<open>auto simp: eat_eat rest_eat\<close>)
qed

lemma ahead_weaken: "ahead j p q \<Longrightarrow> k \<le> j \<Longrightarrow> ahead k p q"
  unfolding ahead_def by (elim exE, rename_tac n, rule_tac x = n in exI) simp

lemma ahead_advance: "\<not> eof p \<Longrightarrow> ahead 1 p (advance p)"
  unfolding ahead_def eof_def advance_eat
  by (rule exI[of _ 1]) (cases "rest p"; simp)

lemma ahead_advanceWhile:
  "advanceWhile P p = (t, q) \<Longrightarrow> ahead (length t) p q"
  unfolding ahead_def advanceWhile_def Let_def
  by (rule exI[of _ "length t"]) (auto simp: length_takeWhile_le)

lemma ahead_skipBlank: "ahead 0 p (skipBlank spaces p)"
proof (induction spaces p rule: skipBlank.induct)
  case (1 spaces p)
  consider "eof p" | "\<not> eof p" "peek p \<in> spaces" | "\<not> eof p" "peek p \<notin> spaces" "peek p = rHASH"
    | "peek p \<notin> spaces" "peek p \<noteq> rHASH" by blast
  then show ?case
  proof cases
    case 1
    then show ?thesis by (simp add: skipBlank.simps)
  next
    case 2
    then have "ahead (1 + 0) p (skipBlank spaces (advance p))"
      using "1.IH"(1) ahead_advance ahead_trans by blast
    then show ?thesis using 2 by (auto simp: skipBlank.simps[of spaces p] intro: ahead_weaken)
  next
    case 3
    obtain t q where t: "advanceWhile (\<lambda>c. c \<noteq> rNL) p = (t, q)" by fastforce
    then have "ahead (length t + 0) p (skipBlank spaces q)"
      using "1.IH"(2) 3 ahead_advanceWhile ahead_trans by fastforce
    then show ?thesis using 3 t by (auto simp: skipBlank.simps[of spaces p] intro: ahead_weaken)
  next
    case 4
    then show ?thesis by (simp add: skipBlank.simps)
  qed
qed

lemma ahead_skipInline: "ahead 0 p (skipInline p)"
  by (simp add: skipInline_def ahead_skipBlank)

lemma ahead_skipSeparators: "ahead 0 p (skipSeparators p)"
  by (simp add: skipSeparators_def ahead_skipBlank)

lemma ahead_atStatementEnd: "atStatementEnd b p = (e, q) \<Longrightarrow> ahead 0 p q"
  using ahead_skipInline by (auto simp: atStatementEnd_def Let_def)

subsection \<open>What a result consumes\<close>

text \<open>A result that starts at \<open>p\<close> consumes at least \<open>k\<close> runes; an error is at a position reached
  from \<open>p\<close>.\<close>

fun consumes :: "nat \<Rightarrow> parser \<Rightarrow> 'a pres \<Rightarrow> bool" where
  "consumes k p (POk x q) = ahead k p q"
| "consumes k p (PErr e) = (\<exists>q. ahead 0 p q \<and> e_line e = p_line q \<and> e_col e = p_col q)"
| "consumes k p PFuel = True"

lemma consumes_errf: "ahead 0 p q \<Longrightarrow> consumes k p (errf q m)"
  by (auto simp: errf_def)

lemma consumes_errf_here [simp]: "consumes k p (errf p m)"
  by (rule consumes_errf) simp

lemma consumes_from: "ahead j p q \<Longrightarrow> consumes k q r \<Longrightarrow> consumes (j + k) p r"
proof (cases r)
  case (PErr e)
  assume a: "ahead j p q" "consumes k q r"
  then obtain s where s: "ahead 0 q s" "e_line e = p_line s" "e_col e = p_col s" using PErr by auto
  have "ahead 0 p s" using ahead_trans[OF a(1) s(1)] by (rule ahead_weaken) simp
  then show ?thesis using s PErr by auto
qed (auto intro: ahead_trans)

lemma consumes_weaken: "consumes j p r \<Longrightarrow> k \<le> j \<Longrightarrow> consumes k p r"
  by (cases r) (auto intro: ahead_weaken)

lemma consumes_from0: "ahead 0 p q \<Longrightarrow> consumes k q r \<Longrightarrow> consumes k p r"
  using consumes_from[of 0] by simp

lemma consumes_bind:
  assumes "consumes j p m" and "\<And>x q. m = POk x q \<Longrightarrow> consumes k q (f x q)"
  shows "consumes (j + k) p (pbind m f)"
  using assms by (cases m) (auto intro: consumes_from)

lemma consumes_bind1:
  assumes "consumes 1 p m" and "\<And>x q. m = POk x q \<Longrightarrow> consumes 0 q (f x q)"
  shows "consumes 1 p (pbind m f)"
  using consumes_bind[OF assms] by simp

lemma consumes_advance: "\<not> eof p \<Longrightarrow> consumes 0 (advance p) r \<Longrightarrow> consumes 1 p r"
  using consumes_from[OF ahead_advance, of p 0 r] by simp

lemma consumes_POk [simp]: "consumes 0 p (POk x p)"
  by simp

lemma consumes_ifI:
  "(c \<Longrightarrow> consumes k p a) \<Longrightarrow> (\<not> c \<Longrightarrow> consumes k p b) \<Longrightarrow> consumes k p (if c then a else b)"
  by simp

lemma takeWhile_word_pos:
  assumes "\<not> eof p" "P (peek p)" "advanceWhile P p = (t, q)"
  shows "ahead (Suc 0) p q"
proof -
  have "Suc 0 \<le> length t" using assms by (cases "rest p") (auto simp: advanceWhile_def eof_def peek_def Let_def)
  then show ?thesis using ahead_advanceWhile[OF assms(3)] ahead_weaken by blast
qed

lemma consumes_parseHead: "consumes 1 p (parseHead p)"
  by (auto simp: parseHead_def split: prod.splits intro: takeWhile_word_pos[where P = isWordRune])

lemma isWordStart_isWordRune: "isWordStart r \<Longrightarrow> isWordRune r"
  by (simp add: isWordRune_def)

lemma consumes_parseWord: "consumes 1 p (parseWord p)"
  by (auto simp: parseWord_def split: prod.splits
      intro: takeWhile_word_pos[where P = isWordRune] isWordStart_isWordRune)

lemma consumes_parseProtectedSymbol:
  assumes "\<not> eof p" shows "consumes 1 p (parseProtectedSymbol p)"
proof -
  obtain t q where t: "advanceWhile (\<lambda>c. c \<noteq> rNL \<and> c \<noteq> rRPAR) (advance p) = (t, q)" by fastforce
  have q: "ahead 0 (advance p) q" using ahead_advanceWhile[OF t] ahead_weaken by blast
  have "\<not> eof q \<Longrightarrow> ahead 0 q (advance q)" using ahead_advance ahead_weaken by fastforce
  then have "\<not> eof q \<Longrightarrow> ahead 0 (advance p) (advance q)" using ahead_trans[OF q] by fastforce
  then have "consumes 0 (advance p) (parseProtectedSymbol p)"
    using q by (auto simp: parseProtectedSymbol_def t intro: consumes_errf)
  then show ?thesis using assms by (rule consumes_advance[rotated])
qed

lemma consumes_parseHexDigits: "consumes 0 p (parseHexDigits i v p)"
proof (induction i v p rule: parseHexDigits.induct)
  case (2 i v p)
  have "\<not> eof p \<Longrightarrow> ahead 0 p (advance p)" using ahead_advance ahead_weaken by fastforce
  then show ?case using 2 by (auto split: option.splits intro: consumes_errf consumes_from0)
qed simp


lemma consumes_parseStringBody: "consumes 0 p (parseStringBody acc p)"
proof (induction acc p rule: parseStringBody.induct)
  case (1 acc p)
  show ?case
  proof (cases "eof p")
    case False
    note IH = "1.IH"(1-7)[OF False refl refl _ _ _ refl refl] "1.IH"(8)[OF False refl refl]
    have p1: "ahead 0 p (advance p)" using ahead_advance[OF False] ahead_weaken by fastforce
    have p2: "\<not> eof (advance p) \<Longrightarrow> ahead 0 p (advance (advance p))"
      using ahead_trans[OF p1, of 0] ahead_advance ahead_weaken by fastforce
    have h: "consumes 0 (advance (advance p)) (parseHexDigits 2 0 (advance (advance p)))"
      by (rule consumes_parseHexDigits)
    show ?thesis
      unfolding parseStringBody.simps[of acc p] Let_def
      apply (intro consumes_ifI)
      subgoal using False by simp
      subgoal using p1 by simp
      subgoal using p1 by (intro consumes_errf)
      subgoal using IH(1) p2 consumes_from0 by blast
      subgoal using IH(2) p2 consumes_from0 by blast
      subgoal using IH(3) p2 consumes_from0 by simp
      subgoal using IH(4) p2 consumes_from0 by simp
      subgoal using IH(5) p2 consumes_from0 by simp
      subgoal using IH(6) p2 consumes_from0 by simp
      subgoal using IH(7) consumes_from0[OF p2 h] p2
        by (cases "parseHexDigits 2 0 (advance (advance p))") (auto intro: consumes_from0 ahead_trans[of 0 _ _ 0, simplified])
      subgoal using p2 by (intro consumes_errf)
      subgoal using p1 by (intro consumes_errf)
      subgoal using IH(8) p1 consumes_from0 by simp
      done
  qed (simp add: parseStringBody.simps)
qed

lemma consumes_parseString:
  assumes "\<not> eof p" shows "consumes 1 p (parseString p)"
  using consumes_advance[OF assms consumes_parseStringBody] by (simp add: parseString_def)

lemma scanToken_ahead:
  assumes "scanToken p = (t, q)" "\<not> eof p" "isTokenRune (peek p)"
  shows "ahead 1 p q"
  using assms takeWhile_word_pos[where P = isTokenRune] by (auto simp: scanToken_def split: prod.splits)

lemma consumes_parseNumberOrWord:
  assumes "\<not> eof p" "isTokenRune (peek p)"
  shows "consumes 1 p (parseNumberOrWord p)"
  using scanToken_ahead[OF _ assms] ahead_weaken
  by (fastforce simp: parseNumberOrWord_def split: prod.splits option.splits intro: consumes_errf)

lemma consumes_parseNumber:
  assumes "\<not> eof p" "isNumberStart (peek p)"
  shows "consumes 1 p (parseNumber p)"
proof -
  have "isTokenRune (peek p)" using assms(2) by (auto simp: isNumberStart_def isTokenRune_def isWordRune_def)
  then show ?thesis using scanToken_ahead[OF _ assms(1)] ahead_weaken
    by (fastforce simp: parseNumber_def split: prod.splits option.splits intro: consumes_errf)
qed

lemma consumes_errf_ahead: "ahead k p q \<Longrightarrow> consumes j p (errf q m)"
  by (rule consumes_errf) (erule ahead_weaken, simp)

lemma consumes_map: "consumes k p m \<Longrightarrow> consumes k p (pbind m (\<lambda>x. POk (f x)))"
  by (cases m) auto

lemma consumes_parseArg:
  assumes ne: "\<not> eof p" and v: "\<And>q. consumes 1 q (readValue q)"
  shows "consumes 1 p (parseArg readValue p)"
proof -
  have adv: "ahead 1 p (advance p)" by (rule ahead_advance[OF ne])
  have flag: "consumes 1 p (case parseWord (advance p) of
      POk name p' \<Rightarrow> POk (Arg name fl None) p' | _ \<Rightarrow> errf (advance p) (ExpectedFlagName (peek p)))" for fl
    using consumes_parseWord[of "advance p"] consumes_errf_ahead[OF adv] ahead_trans[OF adv, of 1]
    by (cases "parseWord (advance p)") (auto intro: ahead_weaken[of "Suc (Suc 0)"])
  have named: "consumes 0 p1 (let p2 = skipInline p1 in
           if \<not> eof p2 \<and> peek p2 = rEQ then
             pbind (readValue (advance p2)) (\<lambda>v. POk (Arg name FlagNone (Some v)))
           else POk (Arg name FlagTrue None) p2)" for name p1
    unfolding Let_def
  proof (rule consumes_from0[OF ahead_skipInline], intro consumes_ifI)
    let ?q = "skipInline p1"
    assume "\<not> eof ?q \<and> peek ?q = rEQ"
    then have "consumes (1 + 1) ?q (pbind (readValue (advance ?q)) (\<lambda>v. POk (Arg name FlagNone (Some v))))"
      by (intro consumes_from[OF ahead_advance] consumes_map v) simp
    then show "consumes 0 ?q (pbind (readValue (advance ?q)) (\<lambda>v. POk (Arg name FlagNone (Some v))))"
      by (rule consumes_weaken) simp
  qed simp
  show ?thesis
    unfolding parseArg_def Let_def[of "peek p"]
    by (intro consumes_ifI) (simp_all add: flag[unfolded One_nat_def] consumes_map[OF v, simplified]
        consumes_bind1[OF consumes_parseWord named, simplified])
qed

lemma consumes_parseKeyed:
  assumes ne: "\<not> eof p" and a: "\<And>q. consumes 0 q (readArgs q)"
  shows "consumes 1 p (parseKeyed readArgs inBlock first p)"
proof -
  let ?p3 = "skipInline (advance p)"
  have p3: "ahead (1 + 0) p ?p3" by (rule ahead_trans[OF ahead_advance[OF ne] ahead_skipInline])
  have id: "consumes 0 q (case v of
          IntValue i \<Rightarrow>
            (if sint i < 0 then errf q (ExpectedObjectId first)
             else (let (end, p5) = atStatementEnd inBlock q in
                   if \<not> end then errf p5 (NothingAfterId first i)
                   else POk (Statement first [] [] i []) p5))
        | _ \<Rightarrow> errf q (ExpectedObjectId first))" for v q
    using ahead_atStatementEnd[of inBlock q] by (auto split: wvalue.splits prod.splits intro: consumes_errf)
  have verb: "consumes 0 q (let (end, p5) = atStatementEnd inBlock q in
        if end then POk (Statement first [] second 0 []) p5
        else pbind (readArgs p5) (\<lambda>as. POk (Statement first second [] 0 as)))" for second q
    using ahead_atStatementEnd[of inBlock q]
    by (auto split: prod.splits intro: consumes_from0[OF _ consumes_map[OF a]])
  have "consumes 0 ?p3 (parseKeyed readArgs inBlock first p)"
    unfolding parseKeyed_def Let_def[of ?p3]
  proof (intro consumes_ifI)
    assume "\<not> eof ?p3 \<and> isNumberStart (peek ?p3)"
    then have "consumes 1 ?p3 (parseNumber ?p3)" using consumes_parseNumber by blast
    from consumes_weaken[OF consumes_bind1[OF this id]]
    show "consumes 0 ?p3 (pbind (parseNumber ?p3) (\<lambda>v q. case v of
          IntValue i \<Rightarrow>
            (if sint i < 0 then errf q (ExpectedObjectId first)
             else (let (end, p5) = atStatementEnd inBlock q in
                   if \<not> end then errf p5 (NothingAfterId first i)
                   else POk (Statement first [] [] i []) p5))
        | _ \<Rightarrow> errf q (ExpectedObjectId first)))" by simp
  next
    from consumes_weaken[OF consumes_bind1[OF consumes_parseWord verb]]
    show "consumes 0 ?p3 (pbind (parseWord ?p3) (\<lambda>second q. let (end, p5) = atStatementEnd inBlock q in
        if end then POk (Statement first [] second 0 []) p5
        else pbind (readArgs p5) (\<lambda>as. POk (Statement first second [] 0 as))))" by simp
  qed simp
  from consumes_from[OF p3 this] show ?thesis by simp
qed

lemma consumes_parse:
  "(\<forall>b p. consumes 1 p (parseValue fuel b p)) \<and> (\<forall>b p. consumes 0 p (parseArgs fuel b p)) \<and>
   (\<forall>b p. consumes 1 p (parseStatement fuel b p)) \<and> (\<forall>b p. consumes 0 p (parseScript fuel b p))"
proof (induction fuel)
  case (Suc fuel)
  then have IH: "\<And>b p. consumes 1 p (parseValue fuel b p)" "\<And>b p. consumes 0 p (parseArgs fuel b p)"
    "\<And>b p. consumes 1 p (parseStatement fuel b p)" "\<And>b p. consumes 0 p (parseScript fuel b p)" by blast+
  have block: "consumes 1 p (pbind (parseScript fuel False (advance p)) (\<lambda>block p'.
        if eof p' \<or> peek p' \<noteq> rRBRACE then errf p' UnterminatedBlock
        else POk (BlockValue (Script block)) (advance p')))" if "\<not> eof p" for p
  proof (rule consumes_advance[OF that], rule consumes_bind[where j = 0 and k = 0, simplified])
    show "consumes 0 q (if eof q \<or> peek q \<noteq> rRBRACE then errf q UnterminatedBlock
        else POk (BlockValue (Script x)) (advance q))" for x q
      using ahead_advance[of q] ahead_weaken by fastforce
  qed (rule IH)
  have val: "consumes 1 p (parseValue (Suc fuel) b p)" for b p
    unfolding parseValue.simps Let_def
  proof (rule consumes_from0[OF ahead_skipInline], intro consumes_ifI)
  qed (simp_all add: block[simplified] consumes_map[OF consumes_parseString, simplified]
      consumes_map[OF consumes_parseProtectedSymbol, simplified] consumes_parseNumberOrWord[simplified])
  have args: "consumes 0 p (parseArgs (Suc fuel) b p)" for b p
  proof -
    obtain e q where q: "atStatementEnd b p = (e, q)" by fastforce
    have "\<not> e \<Longrightarrow> \<not> eof q" using q by (auto simp: atStatementEnd_def Let_def)
    then have "\<not> e \<Longrightarrow> consumes 1 q (pbind (parseArg (\<lambda>q. parseValue fuel b q) q) (\<lambda>a p'.
        pbind (parseArgs fuel b p') (\<lambda>as. POk (a # as))))"
      by (intro consumes_bind1 consumes_parseArg consumes_map IH) auto
    then have "\<not> e \<Longrightarrow> consumes 0 q (pbind (parseArg (\<lambda>q. parseValue fuel b q) q) (\<lambda>a p'.
        pbind (parseArgs fuel b p') (\<lambda>as. POk (a # as))))" by (rule consumes_weaken) simp_all
    then show ?thesis
      unfolding parseArgs.simps q Let_def prod.case
      by (intro consumes_from0[OF ahead_atStatementEnd[OF q]] consumes_ifI) simp_all
  qed
  have statement: "consumes 1 p (parseStatement (Suc fuel) b p)" for b p
    unfolding parseStatement.simps Let_def
  proof (rule consumes_bind1[OF consumes_parseHead], rule consumes_from0[OF ahead_skipInline], intro consumes_ifI)
    fix x q assume "\<not> eof (skipInline q) \<and> peek (skipInline q) = rEQ"
    then have "\<not> eof (skipInline q)" by simp
    from consumes_parseKeyed[OF this IH(2)]
    show "consumes 0 (skipInline q) (parseKeyed (\<lambda>q. parseArgs fuel b q) b x (skipInline q))"
      by (rule consumes_weaken) simp
  qed (rule consumes_map, rule IH)
  have script: "consumes 0 p (parseScript (Suc fuel) b p)" for b p
    unfolding parseScript.simps Let_def
  proof (rule consumes_from0[OF ahead_skipSeparators], intro consumes_ifI)
    have "consumes 1 q (pbind (parseStatement fuel (\<not> b) q) (\<lambda>st p'.
        pbind (parseScript fuel b p') (\<lambda>sts. POk (st # sts))))" for q
      by (intro consumes_bind1 consumes_map IH)
    then show "consumes 0 (skipSeparators p) (pbind (parseStatement fuel (\<not> b) (skipSeparators p)) (\<lambda>st p'.
        pbind (parseScript fuel b p') (\<lambda>sts. POk (st # sts))))"
      by (rule consumes_weaken) simp
  qed simp_all
  show ?case using val args statement script by blast
qed simp


lemmas consumes_functions =
  consumes_parse[THEN conjunct1, rule_format]
  consumes_parse[THEN conjunct2, THEN conjunct1, rule_format]
  consumes_parse[THEN conjunct2, THEN conjunct2, THEN conjunct1, rule_format]
  consumes_parse[THEN conjunct2, THEN conjunct2, THEN conjunct2, rule_format]

subsection \<open>The fuel is enough\<close>

text \<open>A result that is not for want of fuel.\<close>

definition returns :: "'a pres \<Rightarrow> bool" where
  "returns r \<longleftrightarrow> r \<noteq> PFuel"

lemma returns_simps [simp]: "returns (POk x p)" "returns (PErr e)" "\<not> returns PFuel"
  by (simp_all add: returns_def)

lemma returns_case:
  "(\<And>x q. m = POk x q \<Longrightarrow> returns (f x q)) \<Longrightarrow> (\<And>e. returns (g e)) \<Longrightarrow> m \<noteq> PFuel \<or> returns h \<Longrightarrow>
   returns (case m of POk x q \<Rightarrow> f x q | PErr e \<Rightarrow> g e | PFuel \<Rightarrow> h)"
  by (cases m) auto

lemma returns_bind:
  "returns m \<Longrightarrow> (\<And>x q. m = POk x q \<Longrightarrow> returns (f x q)) \<Longrightarrow> returns (pbind m f)"
  by (cases m) auto

lemma returns_errf [simp]: "returns (errf p m)"
  by (simp add: errf_def)

lemma returns_tokens [simp]:
  "returns (parseHead p)" "returns (parseWord p)" "returns (parseProtectedSymbol p)"
  "returns (parseNumber p)" "returns (parseNumberOrWord p)"
  by (auto simp: parseHead_def parseWord_def parseProtectedSymbol_def parseNumber_def
      parseNumberOrWord_def Let_def split: prod.splits option.splits)

lemma returns_hex [simp]: "returns (parseHexDigits i v p)"
  by (induction i v p rule: parseHexDigits.induct) (auto split: option.splits)

lemma returns_ifI: "(c \<Longrightarrow> returns a) \<Longrightarrow> (\<not> c \<Longrightarrow> returns b) \<Longrightarrow> returns (if c then a else b)"
  by simp

lemma returns_stringBody [simp]: "returns (parseStringBody acc p)"
proof (induction acc p rule: parseStringBody.induct)
  case (1 acc p)
  show ?case
  proof (cases "eof p")
    case False
    note IH = "1.IH"(1-7)[OF False refl refl _ _ _ refl refl] "1.IH"(8)[OF False refl refl]
    show ?thesis
      unfolding parseStringBody.simps[of acc p] Let_def
      by (intro returns_ifI returns_case IH) (simp_all add: returns_hex[unfolded returns_def])
  qed (simp add: parseStringBody.simps)
qed

lemma returns_string [simp]: "returns (parseString p)"
  by (simp add: parseString_def)

lemma returns_parseArg:
  assumes v: "\<And>q. length (rest q) \<le> length (rest p) \<Longrightarrow> returns (readValue q)"
  shows "returns (parseArg readValue p)"
proof -
  have "length (rest (advance (skipInline p1))) \<le> length (rest p)" if "parseWord p = POk name p1" for name p1
  proof -
    have "ahead 1 p p1" using consumes_parseWord[of p] that by simp
    then show ?thesis using ahead_length[of 1 p p1] ahead_length[OF ahead_skipInline[of p1]]
      by (simp add: rest_advance)
  qed
  then show ?thesis using v unfolding parseArg_def Let_def
    by (auto intro!: returns_bind split: pres.splits)
qed

lemma returns_parseKeyed:
  assumes a: "\<And>q. length (rest q) < length (rest p) \<Longrightarrow> returns (readArgs q)" and ne: "\<not> eof p"
  shows "returns (parseKeyed readArgs inBlock first p)"
proof -
  let ?p3 = "skipInline (advance p)"
  have l: "length (rest ?p3) < length (rest p)"
    using ahead_length[OF ahead_skipInline[of "advance p"]] ne by (cases "rest p") (auto simp: rest_advance eof_def)
  have "length (rest p5) < length (rest p)"
    if "parseWord ?p3 = POk second p4" "atStatementEnd inBlock p4 = (e, p5)" for second p4 e p5
    using consumes_parseWord[of ?p3] that ahead_length[of 1 ?p3 p4] ahead_length[OF ahead_atStatementEnd[OF that(2)]] l
    by simp
  then show ?thesis using a unfolding parseKeyed_def Let_def[of ?p3]
    by (auto intro!: returns_bind split: prod.splits wvalue.splits)
qed

lemma returns_parse:
  "(\<forall>b p. 4 * length (rest p) + 1 \<le> fuel \<longrightarrow> returns (parseValue fuel b p)) \<and>
   (\<forall>b p. 4 * length (rest p) + 2 \<le> fuel \<longrightarrow> returns (parseArgs fuel b p)) \<and>
   (\<forall>b p. 4 * length (rest p) + 3 \<le> fuel \<longrightarrow> returns (parseStatement fuel b p)) \<and>
   (\<forall>b p. 4 * length (rest p) + 4 \<le> fuel \<longrightarrow> returns (parseScript fuel b p))"
proof (induction fuel)
  case (Suc fuel)
  then have IHv: "\<And>b p. 4 * length (rest p) + 1 \<le> fuel \<Longrightarrow> returns (parseValue fuel b p)"
    and IHa: "\<And>b p. 4 * length (rest p) + 2 \<le> fuel \<Longrightarrow> returns (parseArgs fuel b p)"
    and IHst: "\<And>b p. 4 * length (rest p) + 3 \<le> fuel \<Longrightarrow> returns (parseStatement fuel b p)"
    and IHsc: "\<And>b p. 4 * length (rest p) + 4 \<le> fuel \<Longrightarrow> returns (parseScript fuel b p)" by blast+
  have skip: "length (rest (skipInline p)) \<le> length (rest p)" "length (rest (skipSeparators p)) \<le> length (rest p)" for p
    using ahead_length[OF ahead_skipInline[of p]] ahead_length[OF ahead_skipSeparators[of p]] by simp_all
  have val: "returns (parseValue (Suc fuel) b p)" if "4 * length (rest p) + 1 \<le> Suc fuel" for b p
  proof -
    let ?q = "skipInline p"
    have "\<not> eof ?q \<Longrightarrow> 4 * length (rest (advance ?q)) + 4 \<le> fuel"
      using skip(1)[of p] that by (cases "rest ?q") (auto simp: eof_def rest_advance)
    then show ?thesis unfolding parseValue.simps Let_def
      by (intro returns_ifI returns_bind IHsc) auto
  qed
  have args: "returns (parseArgs (Suc fuel) b p)" if "4 * length (rest p) + 2 \<le> Suc fuel" for b p
  proof -
    obtain e q where q: "atStatementEnd b p = (e, q)" by fastforce
    have l: "length (rest q) \<le> length (rest p)" using ahead_length[OF ahead_atStatementEnd[OF q]] by simp
    have ne: "\<not> e \<Longrightarrow> \<not> eof q" using q by (auto simp: atStatementEnd_def Let_def)
    have "4 * length (rest r) + 2 \<le> fuel" if "parseArg (\<lambda>q. parseValue fuel b q) q = POk a r" "\<not> e" for a r
    proof -
      have "consumes 1 q (POk a r)"
        using consumes_parseArg[of q "\<lambda>q. parseValue fuel b q"] ne that consumes_functions(1) by metis
      then show ?thesis using ahead_length[of 1 q r] l \<open>4 * length (rest p) + 2 \<le> Suc fuel\<close> by simp
    qed
    then show ?thesis unfolding parseArgs.simps q Let_def prod.case
      using l that by (intro returns_ifI returns_bind returns_parseArg IHa IHv) auto
  qed
  have statement: "returns (parseStatement (Suc fuel) b p)" if "4 * length (rest p) + 3 \<le> Suc fuel" for b p
  proof -
    have l: "length (rest (skipInline q)) < length (rest p)" if "parseHead p = POk x q" for x q
      using consumes_parseHead[of p] that ahead_length[of 1 p q] skip(1)[of q] by simp
    have "4 * length (rest r) + 2 \<le> fuel" if "length (rest r) < length (rest p)" for r
      using that \<open>4 * length (rest p) + 3 \<le> Suc fuel\<close> by simp
    then show ?thesis unfolding parseStatement.simps Let_def
      by (intro returns_ifI returns_bind returns_parseKeyed IHa) (auto dest: l)
  qed
  have script: "returns (parseScript (Suc fuel) b p)" if "4 * length (rest p) + 4 \<le> Suc fuel" for b p
  proof -
    let ?q = "skipSeparators p"
    have "4 * length (rest r) + 4 \<le> fuel" if "parseStatement fuel (\<not> b) ?q = POk x r" for x r
      using consumes_functions(3)[of ?q fuel "\<not> b"] that ahead_length[of 1 ?q r] skip(2)[of p]
        \<open>4 * length (rest p) + 4 \<le> Suc fuel\<close> by simp
    then show ?thesis unfolding parseScript.simps Let_def
      using skip(2)[of p] that by (intro returns_ifI returns_bind IHst IHsc) auto
  qed
  show ?case using val args statement script by blast
qed simp

subsection \<open>Every parse returns, and where errors are reported\<close>

lemma Parse_returns: "\<exists>r. Parse src = Some r"
proof -
  have "returns (parseScript (parseFuel src) True (newParser src))"
    using returns_parse[of "parseFuel src"] by (simp add: parseFuel_def newParser_def)
  then show ?thesis by (auto simp: Parse_def returns_def split: pres.splits)
qed

text \<open>The line and column of the rune after a text, counted from one.\<close>

definition lineAfter :: "rune list \<Rightarrow> nat" where
  "lineAfter rs = 1 + count_list rs rNL"

definition colAfter :: "rune list \<Rightarrow> nat" where
  "colAfter rs = 1 + length (takeWhile (\<lambda>r. r \<noteq> rNL) (rev rs))"

lemma eat_position:
  assumes "n \<le> length rs"
  shows "p_line (eat n \<lparr>rest = rs, p_line = 1, p_col = 1\<rparr>) = lineAfter (take n rs)
    \<and> p_col (eat n \<lparr>rest = rs, p_line = 1, p_col = 1\<rparr>) = colAfter (take n rs)"
  using assms
proof (induction n)
  case 0
  then show ?case by (simp add: lineAfter_def colAfter_def)
next
  case (Suc n)
  define q where "q = eat n \<lparr>rest = rs, p_line = 1, p_col = 1\<rparr>"
  have e: "eat (Suc n) \<lparr>rest = rs, p_line = 1, p_col = 1\<rparr> = advance q" by (simp add: eat_def q_def)
  have r: "rest q = rs ! n # drop (Suc n) rs"
    using Suc.prems by (simp add: rest_eat Cons_nth_drop_Suc q_def)
  have t: "take (Suc n) rs = take n rs @ [rs ! n]"
    using Suc.prems by (simp add: take_Suc_conv_app_nth)
  have "p_line q = lineAfter (take n rs)" "p_col q = colAfter (take n rs)"
    using Suc by (simp_all add: q_def)
  then show ?case unfolding e by (simp add: advance_def r t lineAfter_def colAfter_def)
qed

text \<open>C37. \<open>Parse\<close> returns on every text: the fuel the model starts with, four units a rune and four
  more, never runs out, however the text nests.\<close>

theorem Parse_total: "\<exists>r. Parse src = Some r"
  by (rule Parse_returns)

text \<open>C40. A syntax error is reported at a place of the text: its line and column are those of the
  rune after some prefix of the source, counted from one.\<close>

theorem Parse_error_position:
  assumes "Parse src = Some (Inl e)"
  shows "\<exists>n \<le> length (runes src).
    e_line e = lineAfter (take n (runes src)) \<and> e_col e = colAfter (take n (runes src))"
proof -
  have "consumes 0 (newParser src) (parseScript (parseFuel src) True (newParser src))"
    by (rule consumes_functions)
  moreover have "parseScript (parseFuel src) True (newParser src) = PErr e"
    using assms by (auto simp: Parse_def split: pres.splits)
  ultimately obtain q where q: "ahead 0 (newParser src) q" "e_line e = p_line q" "e_col e = p_col q"
    by auto
  then obtain n where "n \<le> length (runes src)" "q = eat n (newParser src)"
    by (auto simp: ahead_def newParser_def)
  then show ?thesis using q(2,3) eat_position[of n "runes src"] by (auto simp: newParser_def)
qed

theorem Parse_error_position_witness:
  "\<exists>n \<le> length (runes ''a }''). 1 = lineAfter (take n (runes ''a }'')) \<and> 3 = colAfter (take n (runes ''a }''))"
proof -
  have "Parse ''a }'' = Some (Inl \<lparr>e_line = 1, e_col = 3, e_msg = UnexpectedCharacter rRBRACE\<rparr>)"
    by code_simp
  from Parse_error_position[OF this] show ?thesis by simp
qed

end
