(* ===== verification/WireRoundtrip.thy ===== *)
theory WireRoundtrip
  imports WireParserFacts
begin

text \<open>
  Everything that has a spelling is read back: the round trip of \<open>wire/encode.go\<close> and
  \<open>wire/parser.go\<close>. First the cursor over text that is known, then each token, then the mutual
  induction over values, arguments, statements and scripts.
\<close>


subsection \<open>ASCII text\<close>

lemma decodeRune_ascii: "fst (decodeRune c cs) < 0x80 \<Longrightarrow> of_char c < (0x80::nat) \<and> snd (decodeRune c cs) = 1"
  unfolding decodeRune_def Let_def
  by (auto simp: runeError_def in_range_def second_ok_def split: if_splits)

lemma runes_ascii_valid: "list_all (\<lambda>r. r < 0x80) (runes s) \<Longrightarrow> ascii s"
proof (induction s rule: utf8_chunks.induct)
  case (2 c cs)
  then show ?case using decodeRune_ascii[of c cs] by (simp add: runes_Cons)
qed simp

lemma runes_of_ascii: "ascii s \<Longrightarrow> runes s = map of_char s"
  using runes_ascii_append[of s "[]"] by simp

lemma wordRune_ascii: "isWordRune r \<Longrightarrow> r < 0x80"
  by (auto simp: isWordRune_def isWordStart_def in_range_def)

lemma tokenRune_ascii: "isTokenRune r \<Longrightarrow> r < 0x80"
  using wordRune_ascii by (auto simp: isTokenRune_def)

lemma token_ascii: "list_all isTokenRune (runes s) \<Longrightarrow> ascii s"
  by (rule runes_ascii_valid) (auto simp: list_all_iff intro: tokenRune_ascii)

lemma word_token: "list_all isWordRune rs \<Longrightarrow> list_all isTokenRune rs"
  by (auto simp: list_all_iff isTokenRune_def)

lemma utf8_runes: "valid_utf8 s \<Longrightarrow> utf8 (runes s) = s"
  by (simp add: valid_utf8_def)

lemma runes_eq_Nil [simp]: "runes s = [] \<longleftrightarrow> s = []"
  by (cases s) (auto simp: runes_Cons)

lemma isHead_valid: "isHead s \<Longrightarrow> valid_utf8 s"
  by (auto simp: isHead_def intro: ascii_valid_utf8 token_ascii word_token)

lemma isName_isHead: "isName s \<Longrightarrow> isHead s"
  by (simp add: isName_def isHead_def)

subsection \<open>The cursor over known text\<close>

lemma advanceWhile_eq:
  assumes "rest p = a @ r" "list_all P a" "r = [] \<or> \<not> P (hd r)"
  shows "advanceWhile P p = (a, eat (length a) p)"
  using assms takeWhile_append_delim[of a P r] by (simp add: advanceWhile_def Let_def list_all_iff)

lemma eof_rest [simp]: "rest p = x # xs \<Longrightarrow> \<not> eof p" "rest p = [] \<Longrightarrow> eof p"
  by (simp_all add: eof_def)

lemma peek_rest [simp]: "rest p = x # xs \<Longrightarrow> peek p = x"
  by (simp add: peek_def)

definition blanks :: "rune set" where
  "blanks = {rSP, rTAB, rCR, rHASH}"

definition settled :: "parser \<Rightarrow> bool" where
  "settled p \<longleftrightarrow> rest p = [] \<or> hd (rest p) \<notin> blanks"

lemma skipInline_settled: "settled p \<Longrightarrow> skipInline p = p"
  by (cases "rest p") (auto simp: settled_def blanks_def skipInline_def skipBlank.simps[of _ p])

lemma skipBlank_stops:
  "eof (skipBlank spaces p) \<or> (peek (skipBlank spaces p) \<notin> spaces \<and> peek (skipBlank spaces p) \<noteq> rHASH)"
proof (induction spaces p rule: skipBlank.induct)
  case (1 spaces p)
  then show ?case by (cases "eof p \<or> (peek p \<notin> spaces \<and> peek p \<noteq> rHASH)")
    (auto simp: skipBlank.simps[of spaces p])
qed

lemma settled_skipInline [simp]: "settled (skipInline p)"
  using skipBlank_stops[of "{rSP, rTAB, rCR}" p]
  by (cases "rest (skipInline p)") (auto simp: settled_def blanks_def skipInline_def eof_def)

lemma skipInline_idem [simp]: "skipInline (skipInline p) = skipInline p"
  by (rule skipInline_settled) simp

lemma skipInline_space:
  assumes "rest p = rSP # r" shows "skipInline p = skipInline (advance p)"
  using assms by (simp add: skipInline_def skipBlank.simps[of _ p])

lemma skipSeparators_skipInline: "skipSeparators (skipInline p) = skipSeparators p"
proof -
  have "skipBlank {rSP, rTAB, rCR, rNL, rSEMI} (skipBlank {rSP, rTAB, rCR} p)
      = skipBlank {rSP, rTAB, rCR, rNL, rSEMI} p"
  proof (induction "{rSP, rTAB, rCR}" p rule: skipBlank.induct)
    case (1 p)
    consider "eof p" | "\<not> eof p" "peek p \<in> {rSP, rTAB, rCR}"
      | "\<not> eof p" "peek p \<notin> {rSP, rTAB, rCR}" "peek p = rHASH"
      | "\<not> eof p" "peek p \<notin> {rSP, rTAB, rCR}" "peek p \<noteq> rHASH" by blast
    then show ?case
    proof cases
      case 2
      then show ?thesis using "1.hyps"(1)
        by (auto simp: skipBlank.simps[of "{rSP, rTAB, rCR}" p] skipBlank.simps[of "{rSP, rTAB, rCR, rNL, rSEMI}" p])
    next
      case 3
      then show ?thesis using "1.hyps"(2)
        by (auto simp: skipBlank.simps[of "{rSP, rTAB, rCR}" p] skipBlank.simps[of "{rSP, rTAB, rCR, rNL, rSEMI}" p])
    qed (auto simp: skipBlank.simps[of "{rSP, rTAB, rCR}" p])
  qed
  then show ?thesis by (simp add: skipSeparators_def skipInline_def)
qed

lemma skipSeparators_sep:
  assumes "rest p = c # r" "c \<in> {rSP, rTAB, rCR, rNL, rSEMI}"
  shows "skipSeparators p = skipSeparators (advance p)"
  using assms by (simp add: skipSeparators_def skipBlank.simps[of _ p])

lemma skipSeparators_stop:
  assumes "rest p = [] \<or> (hd (rest p) \<notin> {rSP, rTAB, rCR, rNL, rSEMI, rHASH})"
  shows "skipSeparators p = p"
  using assms by (cases "rest p") (auto simp: skipSeparators_def skipBlank.simps[of _ p])

subsection \<open>Tokens\<close>

lemma parseHead_eq:
  assumes "rest p = runes w @ r" "isHead w" "r = [] \<or> \<not> isWordRune (hd r)"
  shows "parseHead p = POk w (eat (length (runes w)) p)"
proof -
  have w: "list_all isWordRune (runes w)" "runes w \<noteq> []" using assms(2) by (auto simp: isHead_def)
  then have "\<not> eof p" "isWordRune (peek p)" using assms(1) by (cases "runes w"; auto)+
  then show ?thesis using advanceWhile_eq[OF assms(1) w(1) assms(3)] utf8_runes[OF isHead_valid[OF assms(2)]]
    by (simp add: parseHead_def)
qed

lemma parseWord_eq:
  assumes "rest p = runes w @ r" "isName w" "r = [] \<or> \<not> isWordRune (hd r)"
  shows "parseWord p = POk w (eat (length (runes w)) p)"
proof -
  have w: "list_all isWordRune (runes w)" "runes w \<noteq> []" "isWordStart (hd (runes w))"
    using assms(2) by (auto simp: isName_def)
  then have "\<not> eof p" "isWordStart (peek p)" using assms(1) by (cases "runes w"; auto)+
  then show ?thesis
    using advanceWhile_eq[OF assms(1) w(1) assms(3)] utf8_runes[OF isHead_valid[OF isName_isHead[OF assms(2)]]]
    by (simp add: parseWord_def)
qed

lemma scanToken_eq:
  assumes "rest p = runes w @ r" "list_all isTokenRune (runes w)" "r = [] \<or> \<not> isTokenRune (hd r)"
  shows "scanToken p = (w, eat (length (runes w)) p)"
  using advanceWhile_eq[OF assms] utf8_runes[OF ascii_valid_utf8[OF token_ascii[OF assms(2)]]]
  by (simp add: scanToken_def)

lemma parseProtectedSymbol_eq:
  assumes "rest p = rLPAR # runes w @ rRPAR # r" "protectable w"
  shows "parseProtectedSymbol p = POk w (eat (length (runes w) + 2) p)"
proof -
  have w: "list_all (\<lambda>c. c \<noteq> rNL \<and> c \<noteq> rRPAR) (runes w)" "runes w \<noteq> []" "valid_utf8 w"
    using assms(2) by (auto simp: protectable_def)
  have r: "rest (advance p) = runes w @ rRPAR # r" using assms(1) by (simp add: rest_advance)
  have "advanceWhile (\<lambda>c. c \<noteq> rNL \<and> c \<noteq> rRPAR) (advance p) = (runes w, eat (length (runes w)) (advance p))"
    by (rule advanceWhile_eq[OF r w(1)]) simp
  moreover have "rest (eat (length (runes w)) (advance p)) = rRPAR # r" by (simp add: rest_eat r)
  ultimately show ?thesis using w
    by (simp add: parseProtectedSymbol_def utf8_runes advance_eat eat_eat)
qed

subsection \<open>String literals\<close>

lemma hexVal_hexDigit: "d < 16 \<Longrightarrow> hexVal (of_char (hexDigit d)) = Some d"
  by (auto simp: hexVal_def hexDigit_def in_range_def)

lemma parseHex_eq:
  assumes "b < 256" "rest p = map of_char (hex2 b) @ r"
  shows "parseHexDigits 2 0 p = POk b (eat 2 p)"
proof -
  have "b div 16 < 16" "b mod 16 < 16" using assms(1) by auto
  moreover have "b div 16 * 16 + b mod 16 = b" by simp
  ultimately show ?thesis using assms hexVal_hexDigit
    by (simp add: hex2_def numeral_2_eq_2 rest_eat advance_eat eat_eat)
qed

lemma parseStringBody_end:
  "rest p = rQUOTE # r \<Longrightarrow> parseStringBody acc p = POk acc (advance p)"
  by (simp add: parseStringBody.simps[of acc p])

lemma parseStringBody_plain:
  assumes "rest p = ch # r" "ch \<noteq> rQUOTE" "ch \<noteq> rBSLASH" "ch \<noteq> rNL"
  shows "parseStringBody acc p = parseStringBody (acc @ encodeRune ch) (eat 1 p)"
  using assms by (simp add: parseStringBody.simps[of acc p] eat_def)

lemma parseStringBody_escape:
  assumes "rest p = rBSLASH # esc # r"
    "(esc, ch) \<in> {(rBSLASH, rBSLASH), (rQUOTE, rQUOTE), (110, rNL), (116, rTAB), (114, rCR), (101, rESC)}"
  shows "parseStringBody acc p = parseStringBody (acc @ encodeRune ch) (eat 2 p)"
proof -
  have "encodeRune rESC = [char_of rESC]" by code_simp
  moreover have "eof p = False" "peek p = rBSLASH" "eof (advance p) = False" "peek (advance p) = esc"
    "eat 2 p = advance (advance p)"
    using assms(1) by (simp_all add: eof_def peek_def rest_advance eat_def numeral_2_eq_2)
  ultimately show ?thesis using assms(2)
    unfolding parseStringBody.simps[of acc p] Let_def by (elim insertE emptyE; simp only: prod.inject; simp)
qed

lemma parseStringBody_hex:
  assumes "rest p = rBSLASH # 120 # map of_char (hex2 b) @ r" "b < 256"
  shows "parseStringBody acc p = parseStringBody (acc @ [char_of b]) (eat 4 p)"
proof -
  have "rest (advance (advance p)) = map of_char (hex2 b) @ r" using assms(1) by (simp add: rest_advance)
  note hex = parseHex_eq[OF assms(2) this]
  moreover have "eat 2 (advance (advance p)) = eat 4 p" by (simp add: eat_def eval_nat_numeral)
  moreover have "eof p = False" "peek p = rBSLASH" "eof (advance p) = False" "peek (advance p) = 120"
    using assms(1) by (simp_all add: eof_def peek_def rest_advance)
  ultimately show ?thesis unfolding parseStringBody.simps[of acc p] Let_def by simp
qed

lemma hex2_ascii: "b < 256 \<Longrightarrow> ascii (hex2 b)"
proof -
  assume "b < 256"
  then have "b div 16 < 16" "b mod 16 < 16" by auto
  then show ?thesis by (auto simp: hex2_def hexDigit_def)
qed

lemma length_hex2 [simp]: "length (hex2 b) = 2"
  by (simp add: hex2_def)

text \<open>The spelling of a rune or a byte inside a literal, and what it stands for.\<close>

definition escapes :: "string \<Rightarrow> string \<Rightarrow> bool" where
  "escapes text meaning \<longleftrightarrow> (\<forall>(p :: parser) r acc. rest p = runes text @ r \<longrightarrow>
     parseStringBody acc p = parseStringBody (acc @ meaning) (eat (length (runes text)) p))"

lemma escapes_pair:
  assumes "(esc, ch) \<in> {(rBSLASH, rBSLASH), (rQUOTE, rQUOTE), (110, rNL), (116, rTAB), (114, rCR), (101, rESC)}"
  shows "escapes [char_of rBSLASH, char_of esc] (encodeRune ch)"
proof -
  have "runes [char_of rBSLASH, char_of esc] = [rBSLASH, esc]"
    using assms by (auto simp: runes_of_ascii)
  then show ?thesis using parseStringBody_escape[OF _ assms] unfolding escapes_def by (simp add: numeral_2_eq_2)
qed

lemma escapes_hex: "b < 256 \<Longrightarrow> escapes ([char_of rBSLASH, CHR ''x''] @ hex2 b) [char_of b]"
  unfolding escapes_def using parseStringBody_hex hex2_ascii
  by (auto simp: runes_of_ascii)

lemma escapes_plain:
  assumes "runes t = [ch]" "encodeRune ch = t" "ch \<noteq> rQUOTE" "ch \<noteq> rBSLASH" "ch \<noteq> rNL"
  shows "escapes t t"
  using assms parseStringBody_plain unfolding escapes_def by simp

lemma encodeRune_ascii: "c < 0x80 \<Longrightarrow> encodeRune c = [char_of c]"
  by (simp add: encodeRune_def valid_rune_def)

lemma escape_letters:
  "char_of (110::nat) = CHR ''n''" "char_of (116::nat) = CHR ''t''" "char_of (114::nat) = CHR ''r''"
  "char_of (101::nat) = CHR ''e''"
  by code_simp+

lemma escapes_quoteRune:
  assumes "valid_rune ch"
  shows "escapes (quoteRune ch) (encodeRune ch)"
proof -
  have r: "runes (encodeRune ch) = [ch]" using runes_encodeRune[OF assms, of "[]"] by simp
  consider "ch = rQUOTE" | "ch = rBSLASH" | "ch = rNL" | "ch = rTAB" | "ch = rCR" | "ch = rESC"
    | (control) "ch \<notin> {rQUOTE, rBSLASH, rNL, rTAB, rCR, rESC}" "ch < 32 \<or> ch = 127"
    | (plain) "ch \<notin> {rQUOTE, rBSLASH, rNL, rTAB, rCR, rESC}" "\<not> (ch < 32 \<or> ch = 127)" by blast
  then show ?thesis
  proof cases
    case control
    then have "ch < 128" "ch < 256" by auto
    then show ?thesis using control escapes_hex[of ch] by (simp add: quoteRune_def encodeRune_ascii)
  next
    case plain
    then show ?thesis using escapes_plain[OF r refl] by (simp add: quoteRune_def)
  qed (use escapes_pair[of rQUOTE rQUOTE] escapes_pair[of rBSLASH rBSLASH] escapes_pair[of 110 rNL]
      escapes_pair[of 116 rTAB] escapes_pair[of 114 rCR] escapes_pair[of 101 rESC] in
      \<open>simp_all add: quoteRune_def escape_letters\<close>)
qed

lemma escapes_quoteByte: "escapes (quoteByte c) [c]"
proof -
  have c: "of_char c < (256::nat)" "char_of (of_char c) = c" by simp_all
  have eq: "c = char_of n \<longleftrightarrow> of_char c = n" if "n < 256" for n :: nat using that by auto
  consider "c = char_of rQUOTE" | "c = char_of rBSLASH"
    | "c \<noteq> char_of rQUOTE" "c \<noteq> char_of rBSLASH" "in_range 32 126 (of_char c)"
    | "c \<noteq> char_of rQUOTE" "c \<noteq> char_of rBSLASH" "\<not> in_range 32 126 (of_char c)" by blast
  then show ?thesis
  proof cases
    case 3
    then have "of_char c < (0x80::nat)" "of_char c \<noteq> rQUOTE" "of_char c \<noteq> rBSLASH" "of_char c \<noteq> rNL"
      by (auto simp: in_range_def eq)
    then have "escapes [c] [c]" using encodeRune_ascii[of "of_char c"]
      by (intro escapes_plain[where ch = "of_char c"]) (auto simp: runes_of_ascii)
    then show ?thesis using 3 by (simp add: quoteByte_def)
  next
    case 4
    then show ?thesis using escapes_hex[OF c(1)] by (simp add: quoteByte_def)
  qed (use escapes_pair[of rQUOTE rQUOTE] escapes_pair[of rBSLASH rBSLASH] in
      \<open>auto simp: quoteByte_def encodeRune_ascii\<close>)
qed

lemma escapes_append:
  assumes "escapes a m" "escapes b n" "valid_utf8 a" shows "escapes (a @ b) (m @ n)"
  unfolding escapes_def
proof (intro allI impI)
  fix p :: parser and r acc assume "rest p = runes (a @ b) @ r"
  then have r: "rest p = runes a @ runes b @ r" by (simp add: runes_append[OF assms(3)])
  then have "rest (eat (length (runes a)) p) = runes b @ r" by (simp add: rest_eat)
  then show "parseStringBody acc p = parseStringBody (acc @ m @ n) (eat (length (runes (a @ b))) p)"
    using r assms(1,2) unfolding escapes_def by (simp add: runes_append[OF assms(3)] eat_eat add.commute)
qed

lemma escapes_concat:
  assumes "\<And>x. x \<in> set xs \<Longrightarrow> escapes (f x) (g x) \<and> valid_utf8 (f x)"
  shows "escapes (concat (map f xs)) (concat (map g xs)) \<and> valid_utf8 (concat (map f xs))"
  using assms
proof (induction xs)
  case Nil
  then show ?case by (simp add: escapes_def eat_def)
next
  case (Cons x xs)
  then have "escapes (f x) (g x)" "valid_utf8 (f x)"
    "escapes (concat (map f xs)) (concat (map g xs))" "valid_utf8 (concat (map f xs))" by auto
  then show ?case by (simp add: escapes_append valid_utf8_append)
qed

lemma quoteByte_ascii: "ascii (quoteByte c)"
  using hex2_ascii[of "of_char c"] by (auto simp: quoteByte_def in_range_def)

lemma quoteRune_valid:
  assumes "valid_rune r" shows "valid_utf8 (quoteRune r)"
proof -
  have "valid_utf8 (encodeRune r)" using assms valid_utf8_utf8[of "[r]"] by simp
  moreover have "r < 256 \<Longrightarrow> ascii (hex2 r)" by (rule hex2_ascii)
  ultimately show ?thesis by (auto simp: quoteRune_def intro!: ascii_valid_utf8)
qed

lemma literal_text:
  assumes "valid_utf8 t"
  shows "valid_utf8 (char_of rQUOTE # t @ [char_of rQUOTE])"
    and "runes (char_of rQUOTE # t @ [char_of rQUOTE]) = rQUOTE # runes t @ [rQUOTE]"
proof -
  have "valid_utf8 [char_of rQUOTE]" by (rule ascii_valid_utf8) simp
  then show "valid_utf8 (char_of rQUOTE # t @ [char_of rQUOTE])"
    using assms valid_utf8_append[of "[char_of rQUOTE]" "t @ [char_of rQUOTE]"] by (simp add: valid_utf8_append)
  show "runes (char_of rQUOTE # t @ [char_of rQUOTE]) = rQUOTE # runes t @ [rQUOTE]"
    using runes_ascii_append[of "[char_of rQUOTE]" "t @ [char_of rQUOTE]"]
    by (simp add: runes_append[OF assms] runes_of_ascii)
qed

lemma parseString_literal:
  assumes "escapes t m" "rest p = rQUOTE # runes t @ rQUOTE # r"
  shows "parseString p = POk m (eat (length (runes t) + 2) p)"
proof -
  have r: "rest (advance p) = runes t @ rQUOTE # r" using assms(2) by (simp add: rest_advance)
  then have "parseStringBody [] (advance p) = parseStringBody m (eat (length (runes t)) (advance p))"
    using assms(1) unfolding escapes_def by fastforce
  also have "\<dots> = POk m (advance (eat (length (runes t)) (advance p)))"
    by (rule parseStringBody_end[of _ r]) (simp add: rest_eat r)
  finally show ?thesis using assms(2) by (simp add: parseString_def advance_eat eat_eat)
qed

text \<open>A string literal of either kind: valid text that \<open>parseString\<close> reads back.\<close>

lemma quoteString_literal:
  assumes "valid_utf8 s"
  obtains t where "quoteString s = char_of rQUOTE # t @ [char_of rQUOTE]" "escapes t s" "valid_utf8 t"
proof -
  have "escapes (quoteRune r) (encodeRune r) \<and> valid_utf8 (quoteRune r)" if "r \<in> set (runes s)" for r
    using runes_valid[of s] that by (auto simp: list_all_iff escapes_quoteRune quoteRune_valid)
  from escapes_concat[of "runes s" quoteRune encodeRune, OF this]
  show ?thesis using that assms by (simp add: quoteString_def valid_utf8_def utf8_def)
qed

lemma QuoteBlob_literal:
  obtains t where "QuoteBlob b = char_of rQUOTE # t @ [char_of rQUOTE]" "escapes t b" "valid_utf8 t"
proof -
  from escapes_concat[of b quoteByte "\<lambda>c. [c]"]
  show ?thesis using that by (auto simp: QuoteBlob_def escapes_quoteByte quoteByte_ascii ascii_valid_utf8)
qed

lemma string_spelling:
  assumes "blob \<or> valid_utf8 s"
  obtains t where "EncodeValue (StringValue s blob) = char_of rQUOTE # t @ [char_of rQUOTE]" "escapes t s" "valid_utf8 t"
  using assms quoteString_literal[of s] QuoteBlob_literal[of s] by (cases blob) auto

subsection \<open>Numbers\<close>

lemma digit_runes: "list_all isDigit s \<Longrightarrow> list_all (\<lambda>r. in_range 48 57 r) (map of_char s)"
  by (auto simp: list_all_iff isDigit_def)

lemma digits_token: "list_all isDigit s \<Longrightarrow> list_all isTokenRune (runes s)"
  using digit_runes[of s] by (auto simp: runes_of_ascii digits_ascii list_all_iff isTokenRune_def isWordRune_def)

lemma numberForm_digits:
  assumes "list_all isDigit s" "s \<noteq> []"
  shows "numberForm s = Some False" "numberForm (CHR ''-'' # s) = Some False"
proof -
  have t: "takeWhile isDigit s = s" "dropWhile isDigit s = []"
    using assms(1) by (auto simp: takeWhile_eq_all_conv dropWhile_eq_Nil_conv list_all_iff)
  have form: "numberForm u = Some False" if "dropSign u = s" for u
    unfolding numberForm_def that t Let_def using assms(2) by simp
  have "\<not> isSign (hd s)" using assms by (cases s) (auto simp: isSign_def isDigit_def in_range_def)
  then have "dropSign s = s" "dropSign (CHR ''-'' # s) = s" by (simp_all add: dropSign_def isSign_def)
  then show "numberForm s = Some False" "numberForm (CHR ''-'' # s) = Some False" by (simp_all only: form)
qed

lemma numberValue_formatInt: "numberValue (formatInt i) = Some (IntValue i)"
proof -
  have "numberForm (formatInt i) = Some False"
    by (simp add: formatInt_def showInt_def numberForm_digits showNat_digits)
  then show ?thesis by (simp add: numberValue_def)
qed

lemma numberValue_formatUint:
  "unat i < 2 ^ 63 \<Longrightarrow> numberValue (formatUint i) = Some (IntValue i)"
  using parseInt_formatUint[of i] by (simp add: numberValue_def numberForm_digits showNat_digits formatUint_def)

lemma token_formatUint:
  "list_all isTokenRune (runes (formatUint i))" "isNumberStart (hd (runes (formatUint i)))" "formatUint i \<noteq> []"
proof -
  show "list_all isTokenRune (runes (formatUint i))" by (simp add: formatUint_def digits_token showNat_digits)
  show "formatUint i \<noteq> []" by (simp add: formatUint_def)
  then show "isNumberStart (hd (runes (formatUint i)))"
    using hd_showNat_digit[of "unat i"]
    by (simp add: formatUint_def runes_of_ascii hd_map isDigit_def isNumberStart_def)
qed

lemma token_formatInt:
  "list_all isTokenRune (runes (formatInt i))" "isNumberStart (hd (runes (formatInt i)))" "formatInt i \<noteq> []"
proof -
  have m: "runes (CHR ''-'' # showNat n) = rMINUS # runes (showNat n)" for n
    using runes_ascii_append[of "''-''" "showNat n"] by simp
  show "list_all isTokenRune (runes (formatInt i))"
    by (simp add: formatInt_def showInt_def m digits_token showNat_digits) (simp add: isTokenRune_def isWordRune_def)
  show "formatInt i \<noteq> []" by (simp add: formatInt_def showInt_def)
  show "isNumberStart (hd (runes (formatInt i)))"
    using hd_showNat_digit[of "nat (sint i)"]
    by (simp add: formatInt_def showInt_def m) (simp add: runes_of_ascii hd_map isDigit_def isNumberStart_def)
qed

subsection \<open>The shape of encoded text\<close>

lemma IsWord_token: "IsWord w \<Longrightarrow> list_all isTokenRune (runes w) \<and> w \<noteq> [] \<and> ascii w"
  by (auto simp: IsWord_def intro: token_ascii)

lemma isName_IsWord_start: "isName w \<Longrightarrow> isWordStart (hd (runes w)) \<and> w \<noteq> []"
  by (simp add: isName_def)

text \<open>The runes an argument or a value can open with.\<close>

definition opens :: "rune \<Rightarrow> bool" where
  "opens c \<longleftrightarrow> isTokenRune c \<or> c \<in> {rBANG, rQMARK, rLPAR, rQUOTE, rLBRACE}"

lemma opens_apart: "opens c \<Longrightarrow> c \<notin> {rSP, rTAB, rCR, rNL, rSEMI, rHASH, rEQ, rRBRACE, rRPAR}"
  by (auto simp: opens_def isTokenRune_def isWordRune_def isWordStart_def in_range_def)

lemma token_hd: "list_all P xs \<Longrightarrow> xs \<noteq> [] \<Longrightarrow> P (hd xs)"
  by (cases xs) auto

lemma valid_cons_ascii: "of_char c < (0x80::nat) \<Longrightarrow> valid_utf8 (c # b) \<longleftrightarrow> valid_utf8 b"
proof -
  assume c: "of_char c < (0x80::nat)"
  then have "runes (c # b) = of_char c # runes b" using runes_ascii_append[of "[c]" b] by simp
  then show ?thesis using c by (simp add: valid_utf8_def encodeRune_ascii)
qed

lemma protected_text:
  assumes "valid_utf8 w"
  shows "runes (''('' @ w @ '')'') = rLPAR # runes w @ [rRPAR]" "valid_utf8 (''('' @ w @ '')'')"
proof -
  show "valid_utf8 (''('' @ w @ '')'')" using assms by (auto simp: valid_cons_ascii intro!: valid_utf8_append intro: ascii_valid_utf8)
  show "runes (''('' @ w @ '')'') = rLPAR # runes w @ [rRPAR]"
    using runes_ascii_append[of "''(''" "w @ '')''"] by (simp add: runes_append[OF assms] runes_of_ascii)
qed

lemma block_text:
  assumes "valid_utf8 t"
  shows "runes (''{ '' @ t @ '' }'') = rLBRACE # rSP # runes t @ [rSP, rRBRACE]" "valid_utf8 (''{ '' @ t @ '' }'')"
proof -
  show "valid_utf8 (''{ '' @ t @ '' }'')" using assms by (auto simp: valid_cons_ascii intro!: valid_utf8_append intro: ascii_valid_utf8)
  show "runes (''{ '' @ t @ '' }'') = rLBRACE # rSP # runes t @ [rSP, rRBRACE]"
    using runes_ascii_append[of "''{ ''" "t @ '' }''"] by (simp add: runes_append[OF assms] runes_of_ascii)
qed

lemma flag_text:
  assumes "valid_utf8 n"
  shows "runes (''!'' @ n) = rBANG # runes n" "runes (''?'' @ n) = rQMARK # runes n"
  using runes_ascii_append[of "''!''" n] runes_ascii_append[of "''?''" n] by simp_all

lemma named_text:
  assumes "isHead n"
  shows "runes (n @ CHR ''='' # t) = runes n @ rEQ # runes t"
  using runes_append[OF isHead_valid[OF assms], of "CHR ''='' # t"] runes_ascii_append[of "''=''" t] by simp

lemma spaced_text: "runes (CHR '' '' # t) = rSP # runes t"
  using runes_ascii_append[of "'' ''" t] by simp

lemma valid_args:
  assumes "\<And>a. a \<in> set args \<Longrightarrow> valid_utf8 (EncodeArg a)"
  shows "valid_utf8 (encodeArgs args)"
  using assms by (induction args) (auto simp: encodeArgs_def valid_cons_ascii intro: valid_utf8_append)

lemma EncodeStatement_alt:
  "EncodeStatement (Statement key verb ref refid args) =
     (if key \<noteq> [] then key @ ''='' else [])
     @ (if verb \<noteq> [] then verb else if ref \<noteq> [] then ref else formatUint refid) @ encodeArgs args"
  by (simp add: encodeArgs_def)

lemma encoding_valid:
  "(wf_value v \<longrightarrow> valid_utf8 (EncodeValue v))"
  "(wf_script s \<longrightarrow> valid_utf8 (EncodeScript s))"
  "(wf_statement st \<longrightarrow> valid_utf8 (EncodeStatement st))"
  "(wf_arg a \<longrightarrow> valid_utf8 (EncodeArg a))"
proof (induction v and s and st and a rule: EncodeValue_EncodeScript_EncodeStatement_EncodeArg.induct)
  case (1 w)
  then show ?case using IsWord_token[of w] protected_text(2)[of w] by (auto simp: protectable_def intro: ascii_valid_utf8)
next
  case (3 f)
  then show ?case by (auto simp: floatReadsBack_def intro: ascii_valid_utf8)
next
  case (4 s blob)
  show ?case
  proof
    assume "wf_value (StringValue s blob)"
    then have "blob \<or> valid_utf8 s" by simp
    then obtain t where t: "EncodeValue (StringValue s blob) = char_of rQUOTE # t @ [char_of rQUOTE]" "valid_utf8 t"
      by (rule string_spelling)
    show "valid_utf8 (EncodeValue (StringValue s blob))" unfolding t(1) by (rule literal_text[OF t(2)])
  qed
next
  case (5 b)
  have "ascii ''{}''" by code_simp
  then show ?case using 5 block_text(2)[of "EncodeScript b"] by (auto simp: Let_def intro: ascii_valid_utf8)
next
  case (6 sts)
  have "ascii ''; ''" by code_simp
  then show ?case using 6 by (auto intro!: valid_utf8_join intro: ascii_valid_utf8 simp: list_all_iff)
next
  case (7 key verb ref refid args)
  show ?case
  proof
    assume wf: "wf_statement (Statement key verb ref refid args)"
    then have "valid_utf8 (encodeArgs args)" using 7 by (intro valid_args) (auto simp: list_all_iff split: if_splits)
    then show "valid_utf8 (EncodeStatement (Statement key verb ref refid args))" using wf
      unfolding EncodeStatement_alt
      by (auto simp: valid_cons_ascii isHead_valid isName_isHead ascii_valid_utf8
          intro!: valid_utf8_append split: if_splits)
  qed
next
  case (8 name flag v)
  then show ?case
    by (auto simp: valid_cons_ascii split: option.splits flagState.splits if_splits
        intro!: valid_utf8_append intro: isHead_valid isName_isHead)
qed (simp add: ascii_valid_utf8)

lemmas encoding_valids = encoding_valid[rule_format]

lemma value_opens:
  assumes "wf_value v"
  obtains c cs where "runes (EncodeValue v) = c # cs" "opens c" "c \<notin> {rBANG, rQMARK}"
    "isWordStart c \<Longrightarrow> \<exists>w. v = WordValue w \<and> IsWord w"
proof (cases v)
  case (WordValue w)
  show ?thesis
  proof (cases "IsWord w")
    case True
    then have "list_all isTokenRune (runes w)" "runes w \<noteq> []" using IsWord_token[of w] by auto
    then show ?thesis using that[of "hd (runes w)" "tl (runes w)"] WordValue True
      by (cases "runes w") (auto simp: opens_def isTokenRune_def isWordRune_def isWordStart_def in_range_def)
  next
    case False
    then show ?thesis using that[of rLPAR] WordValue assms protected_text(1)[of w]
      by (auto simp: protectable_def opens_def isWordStart_def in_range_def)
  qed
next
  case (IntValue i)
  then show ?thesis using that[of "hd (runes (formatInt i))" "tl (runes (formatInt i))"] token_formatInt[of i]
    by (auto simp: opens_def isNumberStart_def isTokenRune_def isWordRune_def isWordStart_def in_range_def)
next
  case (FloatValue f)
  then have "isNumberStart (hd (runes (encodeFloat f)))" "list_all isTokenRune (runes (encodeFloat f))"
    "encodeFloat f \<noteq> []"
    using assms by (auto simp: floatReadsBack_def numberValue_def numberForm_def dropSign_def)
  then show ?thesis using that[of "hd (runes (encodeFloat f))" "tl (runes (encodeFloat f))"] FloatValue
    by (auto simp: opens_def isNumberStart_def isTokenRune_def isWordRune_def isWordStart_def in_range_def)
next
  case (StringValue s blob)
  then have "blob \<or> valid_utf8 s" using assms by simp
  then obtain t where t: "EncodeValue v = char_of rQUOTE # t @ [char_of rQUOTE]" "valid_utf8 t"
    using StringValue string_spelling by metis
  then show ?thesis using that[of rQUOTE] StringValue literal_text(2)[OF t(2)]
    by (auto simp: opens_def isWordStart_def in_range_def)
next
  case (BlockValue b)
  then have "valid_utf8 (EncodeScript b)" using assms encoding_valids(2) by simp
  moreover have "runes ''{}'' = [rLBRACE, rRBRACE]" by code_simp
  ultimately show ?thesis using that[of rLBRACE] BlockValue block_text(1)[of "EncodeScript b"]
    by (cases "EncodeScript b = []") (auto simp: opens_def isWordStart_def in_range_def Let_def)
qed

subsection \<open>What may follow an argument or a statement\<close>

definition argEnd :: "rune list \<Rightarrow> bool" where
  "argEnd r \<longleftrightarrow> (r = [] \<or> \<not> isTokenRune (hd r))
     \<and> (\<forall>p :: parser. rest p = r \<longrightarrow> eof (skipInline p) \<or> peek (skipInline p) \<noteq> rEQ)"

definition stmtEnd :: "bool \<Rightarrow> rune list \<Rightarrow> bool" where
  "stmtEnd inBlock r \<longleftrightarrow> r = [] \<or> hd r \<in> {rNL, rSEMI}
     \<or> (inBlock \<and> (\<exists>s. r = rRBRACE # s \<or> r = rSP # rRBRACE # s))"

lemma skipInline_at:
  "rest p = c # s \<Longrightarrow> c \<notin> blanks \<Longrightarrow> skipInline p = p"
  by (rule skipInline_settled) (simp add: settled_def)

lemma skipInline_space_at:
  "rest p = rSP # c # s \<Longrightarrow> c \<notin> blanks \<Longrightarrow> skipInline p = advance p"
  using skipInline_space[of p "c # s"] skipInline_at[of "advance p" c s] by (simp add: rest_advance)

lemma opens_blanks: "opens c \<Longrightarrow> c \<notin> blanks"
  using opens_apart[of c] by (auto simp: blanks_def)

lemma skipInline_stmtEnd:
  assumes "stmtEnd b (rest p)"
  shows "rest (skipInline p) = [] \<or> hd (rest (skipInline p)) \<in> {rNL, rSEMI} \<or> (b \<and> hd (rest (skipInline p)) = rRBRACE)"
proof -
  consider "rest p = []" | c s where "rest p = c # s" "c \<in> {rNL, rSEMI}"
    | s where "b" "rest p = rRBRACE # s" | s where "b" "rest p = rSP # rRBRACE # s"
    using assms by (cases "rest p") (auto simp: stmtEnd_def)
  then show ?thesis
  proof cases
    case 4
    then show ?thesis using skipInline_space_at[of p rRBRACE s] by (simp add: blanks_def rest_advance)
  qed (auto simp: skipInline_at blanks_def skipInline_settled settled_def)
qed

lemma atStatementEnd_stmtEnd:
  assumes "stmtEnd b (rest p)" shows "atStatementEnd b p = (True, skipInline p)"
  using skipInline_stmtEnd[OF assms]
  by (cases "rest (skipInline p)") (auto simp: atStatementEnd_def Let_def)

lemma argEnd_stmtEnd:
  assumes "stmtEnd b r" shows "argEnd r"
proof -
  have "r = [] \<or> \<not> isTokenRune (hd r)"
    using assms by (auto simp: stmtEnd_def isTokenRune_def isWordRune_def isWordStart_def in_range_def)
  moreover have "eof (skipInline p) \<or> peek (skipInline p) \<noteq> rEQ" if "rest p = r" for p :: parser
    using skipInline_stmtEnd[of b p] assms that by (cases "rest (skipInline p)") auto
  ultimately show ?thesis by (simp add: argEnd_def)
qed

lemma argEnd_space:
  assumes "opens c" shows "argEnd (rSP # c # s)"
proof -
  have "peek (skipInline p) \<noteq> rEQ" if "rest p = rSP # c # s" for p :: parser
    using skipInline_space_at[OF that opens_blanks[OF assms]] opens_apart[OF assms] that by (simp add: peek_def rest_advance)
  then show ?thesis by (auto simp: argEnd_def isTokenRune_def isWordRune_def isWordStart_def in_range_def)
qed

lemma argEnd_token: "argEnd r \<Longrightarrow> r = [] \<or> \<not> isTokenRune (hd r)"
  by (simp add: argEnd_def)

lemma not_word_rune: "r = [] \<or> \<not> isTokenRune (hd r) \<Longrightarrow> r = [] \<or> \<not> isWordRune (hd r)"
  by (auto simp: isTokenRune_def)

lemma argEnd_rest:
  "argEnd (rest p) \<Longrightarrow> \<not> (\<not> eof (skipInline p) \<and> peek (skipInline p) = rEQ)"
  by (auto simp: argEnd_def)

subsection \<open>What reads back: values\<close>

definition readsValue :: "wvalue \<Rightarrow> bool" where
  "readsValue v \<longleftrightarrow> (\<forall>fuel b p r. 4 * length (rest p) + 1 \<le> fuel \<longrightarrow> rest p = runes (EncodeValue v) @ r \<longrightarrow>
     (r = [] \<or> \<not> isTokenRune (hd r)) \<longrightarrow>
     parseValue fuel b p = POk (readBack v) (eat (length (runes (EncodeValue v))) p))"

definition readsArg :: "arg \<Rightarrow> bool" where
  "readsArg a \<longleftrightarrow> (\<forall>fuel b p r. 4 * length (rest p) + 1 \<le> fuel \<longrightarrow> rest p = runes (EncodeArg a) @ r \<longrightarrow> argEnd r \<longrightarrow>
     (\<exists>q. parseArg (\<lambda>q. parseValue fuel b q) p = POk (readBackArg a) q
        \<and> skipInline q = skipInline (eat (length (runes (EncodeArg a))) p)))"

definition readsStatement :: "statement \<Rightarrow> bool" where
  "readsStatement st \<longleftrightarrow> (\<forall>fuel b p r. 4 * length (rest p) + 3 \<le> fuel \<longrightarrow> rest p = runes (EncodeStatement st) @ r \<longrightarrow>
     stmtEnd b r \<longrightarrow>
     parseStatement fuel b p = POk (readBackStatement st) (skipInline (eat (length (runes (EncodeStatement st))) p)))"

definition scriptEnd :: "bool \<Rightarrow> rune list \<Rightarrow> bool" where
  "scriptEnd topLevel r \<longleftrightarrow>
     (if topLevel then r = [] else \<exists>s. r = rRBRACE # s \<or> r = rSP # rRBRACE # s)"

definition readsScript :: "script \<Rightarrow> bool" where
  "readsScript s \<longleftrightarrow> (\<forall>fuel top p r. 4 * length (rest p) + 4 \<le> fuel \<longrightarrow> rest p = runes (EncodeScript s) @ r \<longrightarrow>
     scriptEnd top r \<longrightarrow>
     parseScript fuel top p =
       POk (map readBackStatement (statements s)) (skipSeparators (eat (length (runes (EncodeScript s))) p)))"

lemma parseNumberOrWord_token:
  assumes "rest p = runes t @ r" "list_all isTokenRune (runes t)" "r = [] \<or> \<not> isTokenRune (hd r)"
    "numberValue t = Some v \<or> (numberValue t = None \<and> \<not> isSign (hd t) \<and> v = WordValue t)"
  shows "parseNumberOrWord p = POk v (eat (length (runes t)) p)"
  using assms(4) by (auto simp: parseNumberOrWord_def scanToken_eq[OF assms(1-3)])

text \<open>A token in value position is read by \<open>parseNumberOrWord\<close>.\<close>

lemma parseValue_token:
  assumes "rest p = c # s" "isTokenRune c" "0 < fuel"
  shows "parseValue fuel b p = parseNumberOrWord p"
proof -
  obtain f where f: "fuel = Suc f" using assms(3) gr0_implies_Suc by blast
  have "c \<notin> {rQUOTE, rLPAR, rLBRACE}" "c \<notin> blanks"
    using assms(2) by (auto simp: isTokenRune_def isWordRune_def isWordStart_def in_range_def blanks_def)
  then show ?thesis using assms(1,2) by (simp add: f skipInline_at[OF assms(1)] eof_def peek_def)
qed

lemma parseValue_tokenText:
  assumes p: "rest p = runes t @ r" and r: "r = [] \<or> \<not> isTokenRune (hd r)" and fuel: "0 < fuel"
    and t: "list_all isTokenRune (runes t)" "t \<noteq> []"
    and v: "numberValue t = Some v \<or> (numberValue t = None \<and> \<not> isSign (hd t) \<and> v = WordValue t)"
  shows "parseValue fuel b p = POk v (eat (length (runes t)) p)"
proof -
  obtain c s where cs: "runes t = c # s" using t(2) by (cases "runes t") auto
  then have "rest p = c # s @ r" "isTokenRune c" using p t(1) by auto
  then show ?thesis using parseNumberOrWord_token[OF p t(1) r v] parseValue_token[OF _ _ fuel] by metis
qed

lemma readsValue_word:
  assumes "wf_value (WordValue w)" shows "readsValue (WordValue w)"
  unfolding readsValue_def
proof (intro allI impI)
  fix fuel b and p :: parser and r
  assume fuel: "4 * length (rest p) + 1 \<le> fuel" and p: "rest p = runes (EncodeValue (WordValue w)) @ r"
    and r: "r = [] \<or> \<not> isTokenRune (hd r)"
  show "parseValue fuel b p = POk (readBack (WordValue w)) (eat (length (runes (EncodeValue (WordValue w)))) p)"
  proof (cases "IsWord w")
    case True
    then have "numberValue w = None" "\<not> isSign (hd w)" by (auto simp: IsWord_def)
    then show ?thesis using parseValue_tokenText[OF _ r, of p w fuel "WordValue w" b] True IsWord_token[OF True] p fuel by simp
  next
    case False
    then have w: "protectable w" "runes (EncodeValue (WordValue w)) = rLPAR # runes w @ [rRPAR]"
      using assms protected_text(1)[of w] by (auto simp: protectable_def)
    then have q: "rest p = rLPAR # runes w @ rRPAR # r" using p by simp
    obtain f where f: "fuel = Suc f" using fuel by (cases fuel) auto
    have "skipInline p = p" using skipInline_at[OF q] by (simp add: blanks_def)
    then show ?thesis unfolding w(2) using parseProtectedSymbol_eq[OF q w(1)] q by (simp add: f eof_def peek_def)
  qed
qed

lemma readsValue_int: "readsValue (IntValue i)"
  unfolding readsValue_def
  using parseValue_tokenText[where t = "formatInt i" and v = "IntValue i"] token_formatInt[of i] numberValue_formatInt[of i]
  by simp

lemma readsValue_float:
  assumes "wf_value (FloatValue f)" shows "readsValue (FloatValue f)"
proof -
  have "list_all isTokenRune (runes (encodeFloat f))" "numberValue (encodeFloat f) = Some (FloatValue f)"
    "encodeFloat f \<noteq> []"
    using assms by (auto simp: floatReadsBack_def numberValue_def numberForm_def dropSign_def)
  then show ?thesis unfolding readsValue_def
    using parseValue_tokenText[where t = "encodeFloat f" and v = "FloatValue f"] by simp
qed

lemma readsValue_string:
  assumes "wf_value (StringValue s blob)" shows "readsValue (StringValue s blob)"
  unfolding readsValue_def
proof (intro allI impI)
  fix fuel b and p :: parser and r
  assume fuel: "4 * length (rest p) + 1 \<le> fuel" and p: "rest p = runes (EncodeValue (StringValue s blob)) @ r"
  obtain f where f: "fuel = Suc f" using fuel by (cases fuel) auto
  have "blob \<or> valid_utf8 s" using assms by simp
  then obtain t where t: "EncodeValue (StringValue s blob) = char_of rQUOTE # t @ [char_of rQUOTE]"
    "escapes t s" "valid_utf8 t" by (rule string_spelling)
  then have whole: "runes (EncodeValue (StringValue s blob)) = rQUOTE # runes t @ [rQUOTE]"
    using literal_text(2)[OF t(3)] by simp
  then have q: "rest p = rQUOTE # runes t @ rQUOTE # r" using p by simp
  have "skipInline p = p" using skipInline_at[OF q] by (simp add: blanks_def)
  then show "parseValue fuel b p = POk (readBack (StringValue s blob)) (eat (length (runes (EncodeValue (StringValue s blob)))) p)"
    unfolding whole using parseString_literal[OF t(2) q] q by (simp add: f eof_def peek_def)
qed

lemma skipSeparators_pad:
  assumes "rest p = pad @ r" "set pad \<subseteq> {rSP, rTAB, rCR, rNL, rSEMI}"
  shows "skipSeparators (eat (length pad) p) = skipSeparators p"
  using assms
proof (induction pad arbitrary: p)
  case (Cons c pad)
  then have "skipSeparators (eat (length pad) (advance p)) = skipSeparators (advance p)"
    by (simp add: rest_advance)
  also have "\<dots> = skipSeparators p" using skipSeparators_sep[of p c] Cons.prems by simp
  finally show ?case by (simp add: advance_eat eat_eat)
qed (simp add: eat_def)

lemma readsValue_block:
  assumes "readsScript s" "wf_script s" shows "readsValue (BlockValue s)"
  unfolding readsValue_def
proof (intro allI impI)
  fix fuel b and p :: parser and r
  assume fuel: "4 * length (rest p) + 1 \<le> fuel" and p: "rest p = runes (EncodeValue (BlockValue s)) @ r"
  define body where "body = runes (EncodeScript s)"
  define pad where "pad = (if EncodeScript s = [] then [] else [rSP])"
  have pads: "set pad \<subseteq> {rSP, rTAB, rCR, rNL, rSEMI}" by (simp add: pad_def)
  have whole: "runes (EncodeValue (BlockValue s)) = rLBRACE # pad @ body @ pad @ [rRBRACE]"
  proof (cases "EncodeScript s = []")
    case True
    moreover have "runes ''{}'' = [rLBRACE, rRBRACE]" by code_simp
    ultimately show ?thesis by (simp add: body_def pad_def)
  next
    case False
    then show ?thesis using block_text(1)[OF encoding_valids(2)[OF assms(2)]] by (simp add: body_def pad_def Let_def)
  qed
  then have q: "rest p = rLBRACE # pad @ body @ pad @ rRBRACE # r" using p by simp
  obtain f where f: "fuel = Suc f" using fuel by (cases fuel) auto
  define p1 where "p1 = eat (1 + length pad) p"
  have r1: "rest p1 = body @ pad @ rRBRACE # r" by (simp add: p1_def rest_eat q)
  have "4 * length (rest p1) + 4 \<le> f" using fuel f by (simp add: p1_def rest_eat q)
  moreover have "scriptEnd False (pad @ rRBRACE # r)" by (simp add: scriptEnd_def pad_def)
  ultimately have inner: "parseScript f False p1 =
      POk (map readBackStatement (statements s)) (skipSeparators (eat (length body) p1))"
    using assms(1) r1 unfolding readsScript_def body_def by blast
  have "skipSeparators (advance p) = skipSeparators p1"
    using skipSeparators_pad[of "advance p" pad "body @ pad @ rRBRACE # r"] q
    by (simp add: p1_def rest_eat advance_eat eat_eat pads)
  moreover have "0 < f" using \<open>4 * length (rest p1) + 4 \<le> f\<close> by simp
  ultimately have start: "parseScript f False (advance p) = parseScript f False p1"
    by (cases f) simp_all
  define p2 where "p2 = eat (length body + length pad) p1"
  have r2: "rest p2 = rRBRACE # r" by (simp add: p2_def rest_eat r1)
  have "skipSeparators (eat (length body) p1) = skipSeparators p2"
    using skipSeparators_pad[of "eat (length body) p1" pad "rRBRACE # r"] r1
    by (simp add: p2_def rest_eat eat_eat pads)
  moreover have "skipSeparators p2 = p2" by (rule skipSeparators_stop) (simp add: r2)
  ultimately have halt: "skipSeparators (eat (length body) p1) = p2" by simp
  have "skipInline p = p" using skipInline_at[OF q] by (simp add: blanks_def)
  then have "parseValue fuel b p = POk (BlockValue (Script (map readBackStatement (statements s)))) (advance p2)"
    using q r2 by (simp add: f eof_def peek_def start inner halt)
  moreover have "advance p2 = eat (length (runes (EncodeValue (BlockValue s)))) p"
    unfolding whole by (simp add: p2_def p1_def advance_eat eat_eat)
  moreover have "Script (map readBackStatement (statements s)) = readBackScript s" by (cases s) simp
  ultimately show "parseValue fuel b p = POk (readBack (BlockValue s)) (eat (length (runes (EncodeValue (BlockValue s)))) p)"
    by simp
qed

subsection \<open>What reads back: arguments\<close>

lemma word_hd:
  assumes "rest p = runes w @ r" "isName w"
  shows "isWordStart (peek p)" "\<not> eof p" "peek p \<notin> {rBANG, rQMARK}"
proof -
  have "runes w \<noteq> []" "isWordStart (hd (runes w))" using assms(2) by (auto simp: isName_def)
  then show "isWordStart (peek p)" "\<not> eof p" using assms(1) by (cases "runes w"; auto simp: peek_def eof_def)+
  then show "peek p \<notin> {rBANG, rQMARK}" by (auto simp: isWordStart_def in_range_def)
qed

lemma readsArg_flag:
  assumes "isName w" "rest p = runes w @ r" "argEnd r"
  shows "\<exists>q. parseArg f p = POk (Arg w FlagTrue None) q
     \<and> skipInline q = skipInline (eat (length (runes w)) p)"
proof -
  have r: "r = [] \<or> \<not> isWordRune (hd r)" using assms(3) by (auto simp: argEnd_def isTokenRune_def)
  let ?p1 = "eat (length (runes w)) p"
  have "rest ?p1 = r" by (simp add: rest_eat assms(2))
  then have "\<not> (\<not> eof (skipInline ?p1) \<and> peek (skipInline ?p1) = rEQ)" using argEnd_rest assms(3) by blast
  then show ?thesis using word_hd[OF assms(2,1)] parseWord_eq[OF assms(2,1) r]
    by (auto simp: parseArg_def Let_def)
qed

lemma readsArg_marked:
  assumes "isName w" "rest p = c # runes w @ r" "argEnd r" "c \<in> {rBANG, rQMARK}"
  shows "parseArg f p = POk (Arg w (if c = rQMARK then FlagIndeterminate else FlagFalse) None) (eat (length (runes w) + 1) p)"
proof -
  have r: "r = [] \<or> \<not> isWordRune (hd r)" using assms(3) by (auto simp: argEnd_def isTokenRune_def)
  have q: "rest (advance p) = runes w @ r" by (simp add: rest_advance assms(2))
  then show ?thesis using parseWord_eq[OF q assms(1) r] assms(2,4)
    by (auto simp: parseArg_def Let_def peek_def advance_eat eat_eat)
qed

lemma readsArg_bare:
  assumes "readsValue v" "wf_value v" "\<not> torn v" "\<not> bareName v"
    "rest p = runes (EncodeValue v) @ r" "argEnd r" "4 * length (rest p) + 1 \<le> fuel"
  shows "parseArg (\<lambda>q. parseValue fuel b q) p = POk (Arg [] FlagNone (Some (readBack v))) (eat (length (runes (EncodeValue v))) p)"
proof -
  obtain c cs where c: "runes (EncodeValue v) = c # cs" "c \<notin> {rBANG, rQMARK}"
    "isWordStart c \<Longrightarrow> \<exists>w. v = WordValue w \<and> IsWord w"
    using value_opens[OF assms(2)] by metis
  have "\<not> isWordStart c"
  proof
    assume s: "isWordStart c"
    from c(3)[OF this] obtain w where w: "v = WordValue w" "IsWord w" by blast
    then have "runes w = c # cs" using c(1) by simp
    then show False using assms(3,4) w s by (simp add: torn_def bareName_def)
  qed
  moreover have "peek p = c" using assms(5) c(1) by (simp add: peek_def)
  moreover have "parseValue fuel b p = POk (readBack v) (eat (length (runes (EncodeValue v))) p)"
    using assms(1,5,7) argEnd_token[OF assms(6)] unfolding readsValue_def by blast
  ultimately show ?thesis using c(2) by (simp add: parseArg_def Let_def)
qed

lemma readsArg_named:
  assumes "readsValue v" "isName n"
    "rest p = runes n @ rEQ # runes (EncodeValue v) @ r" "argEnd r" "4 * length (rest p) + 1 \<le> fuel"
  shows "parseArg (\<lambda>q. parseValue fuel b q) p =
     POk (Arg n FlagNone (Some (readBack v))) (eat (length (runes n) + 1 + length (runes (EncodeValue v))) p)"
proof -
  let ?p1 = "eat (length (runes n)) p"
  have w: "parseWord p = POk n ?p1"
    by (rule parseWord_eq[OF assms(3,2)]) (simp add: isWordRune_def isWordStart_def in_range_def)
  have r1: "rest ?p1 = rEQ # runes (EncodeValue v) @ r" by (simp add: rest_eat assms(3))
  then have s: "skipInline ?p1 = ?p1" using skipInline_at[OF r1] by (simp add: blanks_def)
  have r2: "rest (advance ?p1) = runes (EncodeValue v) @ r" by (simp add: rest_advance r1)
  have "4 * length (rest (advance ?p1)) + 1 \<le> fuel" using assms(5) by (simp add: r2 assms(3))
  then have "parseValue fuel b (advance ?p1) = POk (readBack v) (eat (length (runes (EncodeValue v))) (advance ?p1))"
    using assms(1) r2 argEnd_token[OF assms(4)] unfolding readsValue_def by blast
  moreover have "eat (length (runes (EncodeValue v))) (advance ?p1) =
      eat (length (runes n) + 1 + length (runes (EncodeValue v))) p" by (simp add: advance_eat eat_eat add.commute)
  ultimately show ?thesis using word_hd[OF assms(3,2)] r1
    by (simp add: parseArg_def Let_def w s)
qed

lemma readsArg_intro:
  assumes "wf_arg (Arg n flag v)" "\<And>v'. v = Some v' \<Longrightarrow> readsValue v'"
  shows "readsArg (Arg n flag v)"
  unfolding readsArg_def
proof (intro allI impI)
  fix fuel b and p :: parser and r
  assume fuel: "4 * length (rest p) + 1 \<le> fuel" and p: "rest p = runes (EncodeArg (Arg n flag v)) @ r" and r: "argEnd r"
  show "\<exists>q. parseArg (\<lambda>q. parseValue fuel b q) p = POk (readBackArg (Arg n flag v)) q
        \<and> skipInline q = skipInline (eat (length (runes (EncodeArg (Arg n flag v)))) p)"
  proof (cases v)
    case None
    then have n: "isName n" "flag \<noteq> FlagNone" using assms(1) by auto
    note spell = flag_text[OF isHead_valid[OF isName_isHead[OF n(1)]]]
    show ?thesis using readsArg_flag[OF n(1) _ r] readsArg_marked[OF n(1) _ r, of p rBANG]
        readsArg_marked[OF n(1) _ r, of p rQMARK] p n(2) spell None
      by (cases flag) auto
  next
    case (Some v')
    then have v': "readsValue v'" "wf_value v'" using assms by auto
    consider (named) "n \<noteq> []" | (name) "n = []" "bareName v'" | (bare) "n = []" "\<not> bareName v'" by blast
    then show ?thesis
    proof cases
      case named
      then have n: "isName n" using assms(1) Some by auto
      have whole: "runes (EncodeArg (Arg n flag v)) = runes n @ rEQ # runes (EncodeValue v')"
        using named Some named_text[OF isName_isHead[OF n]] by simp
      show ?thesis using readsArg_named[OF v'(1) n _ r fuel] p assms(1) named Some unfolding whole
        by (auto simp: add.commute)
    next
      case name
      then obtain w where w: "v' = WordValue w" "IsWord w" "isName w" by (auto simp: bareName_def split: wvalue.splits)
      then show ?thesis using readsArg_flag[OF w(3) _ r] p name Some by simp
    next
      case bare
      then show ?thesis using readsArg_bare[OF v' _ bare(2) _ r fuel] p assms(1) Some by simp
    qed
  qed
qed

lemma arg_opens:
  assumes "wf_arg a" obtains c cs where "runes (EncodeArg a) = c # cs" "opens c"
proof -
  obtain n flag v where a: "a = Arg n flag v" by (cases a)
  have hd_name: "\<exists>c cs. runes n = c # cs \<and> opens c" if "isName n" for n
    using that by (cases "runes n") (auto simp: isName_def opens_def isTokenRune_def)
  show ?thesis
  proof (cases v)
    case None
    then have n: "isName n" "flag \<noteq> FlagNone" using assms a by auto
    from hd_name[OF n(1)] flag_text[OF isHead_valid[OF isName_isHead[OF n(1)]]] that n(2)
    show ?thesis unfolding a None by (cases flag) (auto simp: opens_def)
  next
    case (Some v')
    then have v': "wf_value v'" "n = [] \<or> isName n" using assms a by (auto split: if_splits)
    obtain c cs where c: "runes (EncodeValue v') = c # cs" "opens c" using value_opens[OF v'(1)] by metis
    show ?thesis
    proof (cases "n = []")
      case True
      then show ?thesis using that[of c cs] c a Some by simp
    next
      case False
      then obtain d ds where d: "runes n = d # ds" "opens d" using hd_name v'(2) by blast
      then show ?thesis using that[of d] named_text[OF isName_isHead, of n "EncodeValue v'"] False v'(2) a Some by simp
    qed
  qed
qed

lemma parseArgs_skip: "0 < fuel \<Longrightarrow> parseArgs fuel b (skipInline p) = parseArgs fuel b p"
  by (cases fuel) (simp_all add: atStatementEnd_def)

lemma encodeArgs_Cons: "encodeArgs (a # as) = CHR '' '' # EncodeArg a @ encodeArgs as"
  by (simp add: encodeArgs_def)

lemma encodeArgs_text:
  assumes "wf_arg a"
  shows "runes (encodeArgs (a # as)) = rSP # runes (EncodeArg a) @ runes (encodeArgs as)"
  using runes_append[OF encoding_valids(4)[OF assms]] by (simp add: encodeArgs_Cons spaced_text)

lemma argEnd_args:
  assumes "\<forall>a \<in> set as. wf_arg a" "stmtEnd b r" shows "argEnd (runes (encodeArgs as) @ r)"
proof (cases as)
  case Nil
  then show ?thesis using argEnd_stmtEnd[OF assms(2)] by (simp add: encodeArgs_def)
next
  case (Cons a as')
  then have wf: "wf_arg a" using assms(1) by simp
  then obtain c cs where "runes (EncodeArg a) = c # cs" "opens c" by (rule arg_opens)
  then show ?thesis using encodeArgs_text[OF wf] argEnd_space Cons by simp
qed

lemma args_atStatementEnd:
  assumes "wf_arg a" "rest p = runes (encodeArgs (a # as)) @ r"
  shows "atStatementEnd b p = (False, advance p)"
proof -
  obtain c cs where c: "runes (EncodeArg a) = c # cs" "opens c" using assms(1) by (rule arg_opens)
  then have p: "rest p = rSP # c # cs @ runes (encodeArgs as) @ r" using assms encodeArgs_text by simp
  then show ?thesis using skipInline_space_at[OF p opens_blanks[OF c(2)]] opens_apart[OF c(2)]
    by (simp add: atStatementEnd_def eof_def peek_def rest_advance)
qed

lemma readsArgs:
  assumes "\<forall>a \<in> set as. readsArg a \<and> wf_arg a" "4 * length (rest p) + 2 \<le> fuel"
    "rest p = runes (encodeArgs as) @ r" "stmtEnd b r"
  shows "parseArgs fuel b p = POk (map readBackArg as) (skipInline (eat (length (runes (encodeArgs as))) p))"
  using assms
proof (induction as arbitrary: p fuel)
  case Nil
  then show ?case by (cases fuel) (simp_all add: encodeArgs_def atStatementEnd_stmtEnd eat_def)
next
  case (Cons a as)
  then have a: "readsArg a" "wf_arg a" and as: "\<forall>a \<in> set as. wf_arg a" by auto
  note spell = encodeArgs_text[OF a(2), of as]
  obtain f where f: "fuel = Suc f" using Cons.prems(2) by (cases fuel) auto
  have r1: "rest (advance p) = runes (EncodeArg a) @ runes (encodeArgs as) @ r"
    using Cons.prems(3) spell by (simp add: rest_advance)
  let ?n = "length (runes (EncodeArg a))"
  let ?p2 = "eat ?n (advance p)"
  have len: "length (rest p) = 1 + length (rest (advance p))" using Cons.prems(3) spell by (simp add: rest_advance)
  then have "4 * length (rest (advance p)) + 1 \<le> f" using Cons.prems(2) f by simp
  then obtain q where q: "parseArg (\<lambda>q. parseValue f b q) (advance p) = POk (readBackArg a) q"
    "skipInline q = skipInline ?p2"
    using a(1) r1 argEnd_args[OF as Cons.prems(4)] unfolding readsArg_def by blast
  have r2: "rest ?p2 = runes (encodeArgs as) @ r" by (simp add: rest_eat r1)
  have fuel2: "4 * length (rest ?p2) + 2 \<le> f" using len Cons.prems(2) f r1 r2 by simp
  have "parseArgs f b q = parseArgs f b ?p2"
    using parseArgs_skip[of f b q] parseArgs_skip[of f b ?p2] q(2) fuel2 by simp
  also have "\<dots> = POk (map readBackArg as) (skipInline (eat (length (runes (encodeArgs as))) ?p2))"
    by (rule Cons.IH) (use Cons.prems fuel2 r2 in simp_all)
  also have "eat (length (runes (encodeArgs as))) ?p2 = eat (length (runes (encodeArgs (a # as)))) p"
    by (simp add: spell advance_eat eat_eat)
  finally show ?case
    by (simp add: f args_atStatementEnd[OF a(2) Cons.prems(3)] q(1))
qed

subsection \<open>What reads back: statements and scripts\<close>

lemma stmtEnd_word:
  "stmtEnd b r \<Longrightarrow> r = [] \<or> \<not> isWordRune (hd r)"
  "stmtEnd b r \<Longrightarrow> r = [] \<or> \<not> isTokenRune (hd r)"
  by (auto simp: stmtEnd_def isTokenRune_def isWordRune_def isWordStart_def in_range_def)

lemma sint_unat:
  fixes i :: u64
  assumes "unat i < 2 ^ 63" shows "sint i = int (unat i)"
proof -
  have "uint i < 2 ^ 63" using assms by (metis of_nat_less_iff of_nat_numeral of_nat_power uint_nat)
  moreover have "- (2 ^ 63) \<le> uint i" by (rule order_trans[of _ 0]) simp_all
  ultimately show ?thesis by (simp add: sint_uint signed_take_bit_int_eq_self)
qed

lemma parseKeyed_id:
  assumes p: "rest p = rEQ # runes (formatUint i) @ r" and i: "unat i < 2 ^ 63" and r: "stmtEnd b r"
  shows "parseKeyed f b k p = POk (Statement k [] [] i []) (skipInline (eat (length (runes (formatUint i)) + 1) p))"
proof -
  obtain c cs where c: "runes (formatUint i) = c # cs" "isNumberStart c"
    using token_formatUint[of i] by (cases "runes (formatUint i)") auto
  let ?p3 = "advance p" and ?n = "length (runes (formatUint i))"
  have r3: "rest ?p3 = runes (formatUint i) @ r" by (simp add: rest_advance p)
  have s: "skipInline ?p3 = ?p3" "peek ?p3 = c" "\<not> eof ?p3"
    using r3 c skipInline_at[of ?p3 c "cs @ r"]
    by (auto simp: peek_def eof_def blanks_def isNumberStart_def in_range_def)
  have n: "parseNumber ?p3 = POk (IntValue i) (eat ?n ?p3)"
    using scanToken_eq[OF r3 token_formatUint(1) stmtEnd_word(2)[OF r]] numberValue_formatUint[OF i]
    by (simp add: parseNumber_def)
  have "rest (eat ?n ?p3) = r" by (simp add: rest_eat r3)
  then have "atStatementEnd b (eat ?n ?p3) = (True, skipInline (eat ?n ?p3))" using atStatementEnd_stmtEnd r by metis
  moreover have "\<not> sint i < 0"
    using sint_unat[OF i] by simp
  ultimately show ?thesis using s n c(2)
    by (simp add: parseKeyed_def Let_def advance_eat eat_eat)
qed

lemma parseKeyed_ref:
  assumes p: "rest p = rEQ # runes w @ r" and w: "isName w" and r: "stmtEnd b r"
  shows "parseKeyed f b k p = POk (Statement k [] w 0 []) (skipInline (eat (length (runes w) + 1) p))"
proof -
  let ?p3 = "advance p" and ?n = "length (runes w)"
  have r3: "rest ?p3 = runes w @ r" by (simp add: rest_advance p)
  have h: "isWordStart (peek ?p3)" "\<not> eof ?p3" using word_hd[OF r3 w] by auto
  then have s: "skipInline ?p3 = ?p3"
    by (cases "rest ?p3") (auto intro!: skipInline_settled simp: settled_def blanks_def isWordStart_def in_range_def peek_def eof_def)
  have ns: "\<not> isNumberStart (peek ?p3)" using h(1) by (auto simp: isWordStart_def isNumberStart_def in_range_def)
  have "rest (eat ?n ?p3) = r" by (simp add: rest_eat r3)
  then have "atStatementEnd b (eat ?n ?p3) = (True, skipInline (eat ?n ?p3))" using atStatementEnd_stmtEnd r by metis
  then show ?thesis using s h ns parseWord_eq[OF r3 w stmtEnd_word(1)[OF r]]
    by (simp add: parseKeyed_def Let_def advance_eat eat_eat)
qed

lemma parseKeyed_command:
  assumes p: "rest p = rEQ # runes w @ runes (encodeArgs args) @ r" and w: "isName w" and r: "stmtEnd b r"
    and a: "\<forall>a \<in> set args. readsArg a \<and> wf_arg a" "args \<noteq> []" and fuel: "4 * length (rest p) + 2 \<le> fuel"
  shows "parseKeyed (\<lambda>q. parseArgs fuel b q) b k p = POk (Statement k w [] 0 (map readBackArg args))
     (skipInline (eat (length (runes w) + 1 + length (runes (encodeArgs args))) p))"
proof -
  let ?p3 = "advance p" and ?n = "length (runes w)"
  have r3: "rest ?p3 = runes w @ runes (encodeArgs args) @ r" by (simp add: rest_advance p)
  have h: "isWordStart (peek ?p3)" "\<not> eof ?p3" using word_hd[OF r3 w] by auto
  then have s: "skipInline ?p3 = ?p3"
    by (cases "rest ?p3") (auto intro!: skipInline_settled simp: settled_def blanks_def isWordStart_def in_range_def peek_def eof_def)
  have ns: "\<not> isNumberStart (peek ?p3)" using h(1) by (auto simp: isWordStart_def isNumberStart_def in_range_def)
  have "argEnd (runes (encodeArgs args) @ r)" using argEnd_args a(1) r by blast
  then have word: "parseWord ?p3 = POk w (eat ?n ?p3)"
    by (intro parseWord_eq[OF r3 w] not_word_rune argEnd_token)
  let ?p4 = "eat ?n ?p3"
  have r4: "rest ?p4 = runes (encodeArgs args) @ r" by (simp add: rest_eat r3)
  obtain a1 as where args: "args = a1 # as" using a(2) by (cases args) auto
  have stop: "atStatementEnd b ?p4 = (False, advance ?p4)"
    using args_atStatementEnd[of a1 ?p4 as r] r4 args a(1) by simp
  then have adv: "advance ?p4 = skipInline ?p4" by (auto simp: atStatementEnd_def Let_def)
  have "4 * length (rest ?p4) + 2 \<le> fuel" using fuel by (simp add: r4 p)
  from readsArgs[OF a(1) this r4 r]
  have "parseArgs fuel b (advance ?p4) = POk (map readBackArg args) (skipInline (eat (length (runes (encodeArgs args))) ?p4))"
    using parseArgs_skip[of fuel b ?p4] fuel by (simp add: adv)
  moreover have "eat (length (runes (encodeArgs args))) ?p4 = eat (length (runes w) + 1 + length (runes (encodeArgs args))) p"
    by (simp add: advance_eat eat_eat add.commute add.left_commute)
  ultimately show ?thesis using s h ns word stop
    by (simp add: parseKeyed_def Let_def)
qed

text \<open>A head that the arguments of a statement follow.\<close>

lemma parseStatement_plain:
  assumes p: "rest p = runes w @ runes (encodeArgs args) @ r" and w: "isHead w" and r: "stmtEnd b r"
    and a: "\<forall>a \<in> set args. readsArg a \<and> wf_arg a" and fuel: "4 * length (rest p) + 2 \<le> fuel"
  shows "parseStatement (Suc fuel) b p = POk (Statement [] w [] 0 (map readBackArg args))
     (skipInline (eat (length (runes w) + length (runes (encodeArgs args))) p))"
proof -
  let ?p1 = "eat (length (runes w)) p"
  have e: "argEnd (runes (encodeArgs args) @ r)" using argEnd_args a r by blast
  then have head: "parseHead p = POk w ?p1" by (intro parseHead_eq[OF p w] not_word_rune argEnd_token)
  have r1: "rest ?p1 = runes (encodeArgs args) @ r" by (simp add: rest_eat p)
  have ne: "\<not> (\<not> eof (skipInline ?p1) \<and> peek (skipInline ?p1) = rEQ)" by (rule argEnd_rest) (simp add: r1 e)
  have "4 * length (rest ?p1) + 2 \<le> fuel" using fuel by (simp add: r1 p)
  from readsArgs[OF a this r1 r]
  have "parseArgs fuel b (skipInline ?p1) = POk (map readBackArg args) (skipInline (eat (length (runes (encodeArgs args))) ?p1))"
    using parseArgs_skip[of fuel b ?p1] fuel by simp
  then show ?thesis using head ne by (auto simp: Let_def eat_eat)
qed

lemma parseStatement_keyed:
  assumes p: "rest p = runes k @ rEQ # s" and k: "isHead k"
  shows "parseStatement (Suc fuel) b p =
    parseKeyed (\<lambda>q. parseArgs fuel b q) b k (eat (length (runes k)) p)"
proof -
  let ?p1 = "eat (length (runes k)) p"
  have head: "parseHead p = POk k ?p1"
    by (rule parseHead_eq[OF p k]) (simp add: isWordRune_def isWordStart_def in_range_def)
  have r1: "rest ?p1 = rEQ # s" by (simp add: rest_eat p)
  have "skipInline ?p1 = ?p1" using skipInline_at[OF r1] by (simp add: blanks_def)
  then show ?thesis using head r1 by simp
qed


lemma formatUint_runes: "runes (formatUint i @ t) = runes (formatUint i) @ runes t"
  by (rule runes_append) (simp add: ascii_valid_utf8)

lemma name_runes: "isName w \<Longrightarrow> runes (w @ t) = runes w @ runes t" "isHead w \<Longrightarrow> runes (w @ t) = runes w @ runes t"
  by (simp_all add: runes_append isHead_valid isName_isHead)

lemma readsStatement_intro:
  assumes wf: "wf_statement (Statement k verb ref i args)" and a: "\<And>a. a \<in> set args \<Longrightarrow> readsArg a"
  shows "readsStatement (Statement k verb ref i args)"
  unfolding readsStatement_def
proof (intro allI impI)
  fix fuel b and p :: parser and r
  assume fuel: "4 * length (rest p) + 3 \<le> fuel" and r: "stmtEnd b r"
    and p: "rest p = runes (EncodeStatement (Statement k verb ref i args)) @ r"
  obtain f where f: "fuel = Suc f" using fuel by (cases fuel) auto
  have args: "\<forall>a \<in> set args. readsArg a \<and> wf_arg a" using wf a by (auto simp: list_all_iff split: if_splits)
  consider (id) "verb = []" "ref = []" "isHead k" "args = []" "unat i < 2 ^ 63"
    | (ref) "verb = []" "ref \<noteq> []" "isHead k" "args = []" "isName ref" "i = 0"
    | (plain) "verb \<noteq> []" "k = []" "isHead verb" "ref = []" "i = 0"
    | (keyed) "verb \<noteq> []" "k \<noteq> []" "isHead k" "isName verb" "args \<noteq> []" "ref = []" "i = 0"
    using wf by (auto split: if_splits)
  then show "parseStatement fuel b p = POk (readBackStatement (Statement k verb ref i args))
      (skipInline (eat (length (runes (EncodeStatement (Statement k verb ref i args)))) p))"
  proof cases
    case id
    then have k: "k \<noteq> []" by (simp add: isHead_def)
    have whole: "runes (EncodeStatement (Statement k verb ref i args)) = runes k @ rEQ # runes (formatUint i)"
      using id k named_text[OF id(3), of "formatUint i"] by simp
    have q: "rest p = runes k @ rEQ # runes (formatUint i) @ r" using p whole by simp
    have r1: "rest (eat (length (runes k)) p) = rEQ # runes (formatUint i) @ r" by (simp add: rest_eat q)
    show ?thesis unfolding f parseStatement_keyed[OF q id(3)] parseKeyed_id[OF r1 id(5) r] whole
      using id by (simp add: eat_eat)
  next
    case ref
    then have k: "k \<noteq> []" by (simp add: isHead_def)
    have whole: "runes (EncodeStatement (Statement k verb ref i args)) = runes k @ rEQ # runes ref"
      using ref k named_text[OF ref(3), of ref] by simp
    have q: "rest p = runes k @ rEQ # runes ref @ r" using p whole by simp
    have r1: "rest (eat (length (runes k)) p) = rEQ # runes ref @ r" by (simp add: rest_eat q)
    show ?thesis unfolding f parseStatement_keyed[OF q ref(3)] parseKeyed_ref[OF r1 ref(5) r] whole
      using ref by (simp add: eat_eat)
  next
    case plain
    have whole: "runes (EncodeStatement (Statement k verb ref i args)) = runes verb @ runes (encodeArgs args)"
      unfolding EncodeStatement_alt using plain by (simp add: name_runes)
    have q: "rest p = runes verb @ runes (encodeArgs args) @ r" using p whole by simp
    have "4 * length (rest p) + 2 \<le> f" using fuel f by simp
    from parseStatement_plain[OF q plain(3) r args this] show ?thesis
      unfolding f whole using plain by simp
  next
    case keyed
    have whole: "runes (EncodeStatement (Statement k verb ref i args)) = runes k @ rEQ # runes verb @ runes (encodeArgs args)"
      unfolding EncodeStatement_alt using keyed named_text[OF keyed(3), of "verb @ encodeArgs args"] by (simp add: name_runes)
    have q: "rest p = runes k @ rEQ # runes verb @ runes (encodeArgs args) @ r" using p whole by simp
    have r1: "rest (eat (length (runes k)) p) = rEQ # runes verb @ runes (encodeArgs args) @ r" by (simp add: rest_eat q)
    then have fuel1: "4 * length (rest (eat (length (runes k)) p)) + 2 \<le> f" using fuel f by (simp add: q)
    show ?thesis unfolding f parseStatement_keyed[OF q keyed(3)]
        parseKeyed_command[OF r1 keyed(4) r args keyed(5) fuel1] whole
      using keyed by (simp add: eat_eat)
  qed
qed

lemma statement_opens:
  assumes "wf_statement st" obtains c cs where "runes (EncodeStatement st) = c # cs" "isWordRune c"
proof -
  obtain k verb ref i args where st: "st = Statement k verb ref i args" by (cases st)
  define h where "h = (if k = [] then verb else k)"
  have h: "isHead h" using assms by (auto simp: st h_def isHead_def split: if_splits)
  then obtain c cs where c: "runes h = c # cs" "isWordRune c" by (cases "runes h") (auto simp: isHead_def)
  have "\<exists>t. EncodeStatement st = h @ t" using assms by (auto simp: st h_def isHead_def split: if_splits)
  then show ?thesis using that c name_runes(2)[OF h] by (metis append_Cons)
qed

lemma parseScript_skip: "0 < fuel \<Longrightarrow> skipSeparators p = skipSeparators q \<Longrightarrow> parseScript fuel outer p = parseScript fuel outer q"
  by (cases fuel) simp_all

lemma scriptEnd_stmtEnd: "scriptEnd outer r \<Longrightarrow> stmtEnd (\<not> outer) r"
  by (auto simp: scriptEnd_def stmtEnd_def split: if_splits)

lemma skipSeparators_scriptEnd:
  assumes "scriptEnd outer (rest p)"
  shows "rest (skipSeparators p) = [] \<and> outer \<or> (\<exists>s. rest (skipSeparators p) = rRBRACE # s) \<and> \<not> outer"
proof -
  consider "outer" "rest p = []" | s where "\<not> outer" "rest p = rRBRACE # s" | s where "\<not> outer" "rest p = rSP # rRBRACE # s"
    using assms by (auto simp: scriptEnd_def split: if_splits)
  then show ?thesis
  proof cases
    case 3
    then have "skipSeparators p = skipSeparators (advance p)" by (intro skipSeparators_sep) auto
    also have "\<dots> = advance p" using 3 by (intro skipSeparators_stop) (simp add: rest_advance)
    finally show ?thesis using 3 by (simp add: rest_advance)
  qed (simp_all add: skipSeparators_stop)
qed

lemma readsScript_end:
  assumes "scriptEnd outer (rest p)" "0 < fuel" shows "parseScript fuel outer p = POk [] (skipSeparators p)"
proof -
  obtain f where "fuel = Suc f" using assms(2) gr0_implies_Suc by blast
  then show ?thesis using skipSeparators_scriptEnd[OF assms(1)] by auto
qed

lemma readsScript_intro:
  assumes "\<forall>st \<in> set sts. readsStatement st \<and> wf_statement st"
  shows "readsScript (Script sts)"
  unfolding readsScript_def script.sel
proof (intro allI impI)
  fix fuel outer and p :: parser and r
  assume "4 * length (rest p) + 4 \<le> fuel" "rest p = runes (EncodeScript (Script sts)) @ r" "scriptEnd outer r"
  then show "parseScript fuel outer p =
      POk (map readBackStatement sts) (skipSeparators (eat (length (runes (EncodeScript (Script sts)))) p))"
    using assms
  proof (induction sts arbitrary: p fuel)
    case Nil
    then show ?case using readsScript_end[of outer p fuel] by (simp add: eat_def)
  next
    case (Cons st sts)
    then have st: "readsStatement st" "wf_statement st" by auto
    define tail where "tail = (if sts = [] then [] else rSEMI # rSP # runes (EncodeScript (Script sts)))"
    have valid: "valid_utf8 (EncodeStatement st)" by (rule encoding_valids(3)[OF st(2)])
    have sep: "runes (CHR '';'' # CHR '' '' # t) = rSEMI # rSP # runes t" for t
      using runes_ascii_append[of "''; ''" t] by simp
    have whole: "runes (EncodeScript (Script (st # sts))) = runes (EncodeStatement st) @ tail"
      by (cases sts) (simp_all add: tail_def runes_append[OF valid] sep)
    obtain f where f: "fuel = Suc f" using Cons.prems(1) by (cases fuel) auto
    obtain c cs where c: "runes (EncodeStatement st) = c # cs" "isWordRune c" using st(2) by (rule statement_opens)
    have p: "rest p = runes (EncodeStatement st) @ tail @ r" using Cons.prems(2) whole by simp
    have c': "c \<notin> {rSP, rTAB, rCR, rNL, rSEMI, rHASH, rRBRACE}"
      using c(2) by (auto simp: isWordRune_def isWordStart_def in_range_def)
    have still: "skipSeparators p = p" by (rule skipSeparators_stop) (use p c c' in auto)
    let ?p1 = "eat (length (runes (EncodeStatement st))) p"
    have "stmtEnd (\<not> outer) (tail @ r)"
      using scriptEnd_stmtEnd[OF Cons.prems(3)] by (simp add: tail_def stmtEnd_def)
    moreover have "4 * length (rest p) + 3 \<le> f" using Cons.prems(1) f by simp
    ultimately have one: "parseStatement f (\<not> outer) p = POk (readBackStatement st) (skipInline ?p1)"
      using st(1) p unfolding readsStatement_def by blast
    have r1: "rest ?p1 = tail @ r" by (simp add: rest_eat p)
    have fuel1: "4 * length (rest ?p1) + 4 \<le> f" using Cons.prems(1) f c(1) unfolding r1 p by simp
    have rest: "parseScript f outer (skipInline ?p1) =
        POk (map readBackStatement sts) (skipSeparators (eat (length tail) ?p1))"
    proof (cases "sts = []")
      case True
      then have "scriptEnd outer (rest ?p1)" using Cons.prems(3) r1 by (simp add: tail_def)
      then have "parseScript f outer ?p1 = POk [] (skipSeparators ?p1)" using fuel1 by (intro readsScript_end) auto
      moreover have "parseScript f outer (skipInline ?p1) = parseScript f outer ?p1"
        using fuel1 by (intro parseScript_skip skipSeparators_skipInline) auto
      ultimately show ?thesis using True by (simp add: tail_def eat_def)
    next
      case False
      let ?p2 = "eat 2 ?p1"
      have r1': "rest ?p1 = [rSEMI, rSP] @ runes (EncodeScript (Script sts)) @ r"
        using r1 False by (simp add: tail_def)
      then have r2: "rest ?p2 = runes (EncodeScript (Script sts)) @ r" by (simp add: rest_eat)
      have "skipSeparators ?p2 = skipSeparators ?p1"
        using skipSeparators_pad[OF r1'] by (simp add: numeral_2_eq_2)
      then have "parseScript f outer (skipInline ?p1) = parseScript f outer ?p2"
        using fuel1 by (intro parseScript_skip) (auto simp: skipSeparators_skipInline)
      also have "\<dots> = POk (map readBackStatement sts) (skipSeparators (eat (length (runes (EncodeScript (Script sts)))) ?p2))"
        by (rule Cons.IH) (use Cons.prems(3,4) fuel1 r1' r2 in simp_all)
      finally show ?thesis using False by (simp add: tail_def eat_eat numeral_2_eq_2)
    qed
    have "eat (length tail) ?p1 = eat (length (runes (EncodeScript (Script (st # sts))))) p"
      by (simp only: whole eat_eat length_append)
    then show ?case using one rest p c c' by (simp add: f still eof_def)
  qed
qed


text \<open>The round trip, by mutual induction over the four kinds.\<close>

lemma reads_back:
  "(wf_value v \<longrightarrow> readsValue v)" "(wf_script s \<longrightarrow> readsScript s)"
  "(wf_statement st \<longrightarrow> readsStatement st)" "(wf_arg a \<longrightarrow> readsArg a)"
proof (induction v and s and st and a rule: EncodeValue_EncodeScript_EncodeStatement_EncodeArg.induct)
  case (5 b)
  then show ?case using readsValue_block[of b] by simp
next
  case (6 sts)
  then show ?case using readsScript_intro[of sts] by (auto simp: list_all_iff)
next
  case (7 key verb ref refid args)
  show ?case
  proof
    assume wf: "wf_statement (Statement key verb ref refid args)"
    then have "\<And>a. a \<in> set args \<Longrightarrow> wf_arg a" by (auto simp: list_all_iff split: if_splits)
    then show "readsStatement (Statement key verb ref refid args)" using 7 by (intro readsStatement_intro[OF wf]) auto
  qed
next
  case (8 name flag v)
  show ?case
  proof
    assume wf: "wf_arg (Arg name flag v)"
    then have "\<And>v'. v = Some v' \<Longrightarrow> wf_value v'" by auto
    then show "readsArg (Arg name flag v)" using 8 by (intro readsArg_intro[OF wf]) auto
  qed
qed (use readsValue_word readsValue_int readsValue_float readsValue_string in blast)+

lemma Parse_EncodeScript_eq:
  assumes "wf_script s"
  shows "Parse (EncodeScript s) = Some (Inr (readBackScript s))"
proof -
  let ?t = "EncodeScript s"
  have "readsScript s" using reads_back(2) assms by blast
  moreover have "rest (newParser ?t) = runes ?t @ []" by (simp add: newParser_def)
  moreover have "4 * length (rest (newParser ?t)) + 4 \<le> parseFuel ?t" by (simp add: newParser_def parseFuel_def)
  moreover have "scriptEnd True []" by (simp add: scriptEnd_def)
  ultimately have "parseScript (parseFuel ?t) True (newParser ?t) =
      POk (map readBackStatement (statements s)) (skipSeparators (eat (length (runes ?t)) (newParser ?t)))"
    unfolding readsScript_def by blast
  then show ?thesis by (cases s) (simp add: Parse_def)
qed

text \<open>C23. What is encoded is read back: for every script with a spelling (\<open>wf_script\<close>: names that are
  names, text that is UTF-8, finite floats that read back, no operand torn at a plus sign), parsing
  \<open>EncodeScript\<close> of it gives the script again, up to what the notation cannot tell apart: bytes come
  back as the text that carries them and an operand that is a bare name as a flag.\<close>

theorem Parse_EncodeScript:
  assumes "wf_script s"
  shows "Parse (EncodeScript s) = Some (Inr (readBackScript s))"
  using assms by (rule Parse_EncodeScript_eq)

theorem Parse_EncodeScript_witness:
  "Parse ''ok=button text=\"a b\" !on { w=3; close } (x y) -7 ref'' =
   Some (Inr (Script [Statement ''ok'' ''button'' [] 0
     [Arg ''text'' FlagNone (Some (StringValue ''a b'' False)), Arg ''on'' FlagFalse None,
      Arg [] FlagNone (Some (BlockValue (Script [Statement ''w'' [] [] 3 [], Statement [] ''close'' [] 0 []]))),
      Arg [] FlagNone (Some (WordValue ''x y'')), Arg [] FlagNone (Some (IntValue (-7))), Arg ''ref'' FlagTrue None]]))"
proof -
  let ?s = "Script [Statement ''ok'' ''button'' [] 0
     [Arg ''text'' FlagNone (Some (StringValue ''a b'' True)), Arg ''on'' FlagFalse None,
      Arg [] FlagNone (Some (BlockValue (Script [Statement ''w'' [] [] 3 [], Statement [] ''close'' [] 0 []]))),
      Arg [] FlagNone (Some (WordValue ''x y'')), Arg [] FlagNone (Some (IntValue (-7))), Arg [] FlagNone (Some (WordValue ''ref''))]]"
  have "wf_script ?s" by code_simp
  from Parse_EncodeScript[OF this]
  have "Parse (EncodeScript ?s) = Some (Inr (readBackScript ?s))" .
  moreover have "EncodeScript ?s = ''ok=button text=\"a b\" !on { w=3; close } (x y) -7 ref''" by code_simp
  moreover have "bareName (WordValue ''ref'')" "\<not> bareName (WordValue ''x y'')" by code_simp+
  moreover have "\<not> bareName (IntValue j)" "\<not> bareName (BlockValue b)" for j b by (simp_all add: bareName_def)
  ultimately show ?thesis by simp
qed

end
