(* ===== verification/WireScanner.thy ===== *)
theory WireScanner
  imports WireRoundtrip "HOL-Library.Sublist"
begin

text \<open>
  The scanner of \<open>wire/wire.go\<close>, which frames statements out of a byte stream, and what it does with
  the statements this language encodes: each comes out of the stream as it went in, and parses.
\<close>

subsection \<open>The reader and the scanner\<close>

text \<open>A stream is the bytes it still has and what reading past them reports; \<open>bufio.Reader\<close> keeps
  reporting it.\<close>

datatype readEnd = EndOfFile | ReadFailure

record Scanner =
  unread :: string
  stream_end :: readEnd

definition NewScanner :: "string \<Rightarrow> readEnd \<Rightarrow> Scanner" where
  "NewScanner bytes e = \<lparr>unread = bytes, stream_end = e\<rparr>"

text \<open>The variables of \<open>Next\<close>: the text so far, the brace depth and the three flags.\<close>

record scan =
  sb :: string
  depth :: int
  inString :: bool
  escaped :: bool
  sawContent :: bool

datatype scanned = ScanText string | ScanEnd | ScanFailed | ScanNewlineInString

text \<open>One turn of the loop of \<open>Next\<close> on the byte \<open>ch\<close> and the bytes after it: \<open>Next\<close> returns, or
  the loop goes on. The inner loop passes a comment together with its newline.\<close>

datatype turn = Return scanned string | Continue scan string

definition scanByte :: "scan \<Rightarrow> char \<Rightarrow> string \<Rightarrow> turn" where
  "scanByte s ch cs =
     (let write = (\<lambda>s'. Continue (s'\<lparr>sb := sb s @ [ch]\<rparr>) cs) in
      if escaped s then write (s\<lparr>escaped := False\<rparr>)
      else if inString s then
        (if ch = char_of rBSLASH then write (s\<lparr>escaped := True\<rparr>)
         else if ch = char_of rQUOTE then write (s\<lparr>inString := False\<rparr>)
         else if ch = char_of rNL then Return ScanNewlineInString cs
         else write s)
      else if ch = char_of rQUOTE then write (s\<lparr>inString := True, sawContent := True\<rparr>)
      else if ch = char_of rLBRACE then write (s\<lparr>depth := depth s + 1, sawContent := True\<rparr>)
      else if ch = char_of rRBRACE then write (s\<lparr>depth := depth s - 1, sawContent := True\<rparr>)
      else if ch = char_of rHASH then
        (let cs' = tl (dropWhile (\<lambda>c. c \<noteq> char_of rNL) cs) in
         if sawContent s \<and> depth s = 0 then Return (ScanText (sb s @ [char_of rNL])) cs'
         else Continue s cs')
      else if ch = char_of rNL then
        (if depth s = 0 then
           (if sawContent s then Return (ScanText (sb s @ [char_of rNL])) cs else Continue s cs)
         else write s)
      else if ch \<noteq> char_of rSP \<and> ch \<noteq> char_of rTAB \<and> ch \<noteq> char_of rCR \<and> ch \<noteq> char_of rSEMI then
        write (s\<lparr>sawContent := True\<rparr>)
      else write s)"

text \<open>What \<open>Next\<close> returns where no byte is left.\<close>

definition atEnd :: "readEnd \<Rightarrow> scan \<Rightarrow> scanned" where
  "atEnd e s =
     (if e = EndOfFile \<and> sawContent s \<and> depth s = 0 \<and> \<not> inString s then ScanText (sb s)
      else if e = EndOfFile \<and> \<not> sawContent s then ScanEnd
      else (case e of EndOfFile \<Rightarrow> ScanEnd | ReadFailure \<Rightarrow> ScanFailed))"

lemma length_skipLine: "length (tl (dropWhile P cs)) \<le> length cs"
  by (rule order_trans[OF _ length_dropWhile_le[of P cs]]) simp

lemma scanByte_length:
  "scanByte s ch cs = Continue s' cs' \<Longrightarrow> length cs' \<le> length cs"
  "scanByte s ch cs = Return r cs' \<Longrightarrow> length cs' \<le> length cs"
  using length_skipLine[of "\<lambda>c. c \<noteq> char_of rNL" cs]
  by (auto simp: scanByte_def Let_def split: if_splits)

function scanLoop :: "readEnd \<Rightarrow> scan \<Rightarrow> string \<Rightarrow> scanned \<times> string" where
  "scanLoop e s [] = (atEnd e s, [])"
| "scanLoop e s (ch # cs) =
     (case scanByte s ch cs of
        Return r cs' \<Rightarrow> (r, cs')
      | Continue s' cs' \<Rightarrow> scanLoop e s' cs')"
  by pat_completeness auto
termination
  by (relation "measure (\<lambda>(e, s, cs). length cs)") (auto dest: scanByte_length)

definition freshScan :: scan where
  "freshScan = \<lparr>sb = [], depth = 0, inString = False, escaped = False, sawContent = False\<rparr>"

definition Next :: "Scanner \<Rightarrow> scanned \<times> Scanner" where
  "Next s = (let (r, cs) = scanLoop (stream_end s) freshScan (unread s) in (r, s\<lparr>unread := cs\<rparr>))"


lemma scanLoop_length: "length (snd (scanLoop e s cs)) \<le> length cs"
proof (induction e s cs rule: scanLoop.induct)
  case (2 e s ch cs)
  then show ?case using scanByte_length[of s ch cs] by (fastforce split: turn.split)
qed simp

lemma scanLoop_text_shorter:
  "scanLoop e s cs = (ScanText t, cs') \<Longrightarrow> sawContent s \<or> length cs' < length cs"
  using scanLoop_length[of e] scanByte_length[of s]
  by (cases cs; simp add: atEnd_def split: if_splits turn.splits readEnd.splits)
     (metis le_imp_less_Suc le_trans snd_conv)+

text \<open>What the callers do with a scanner: call \<open>Next\<close> until it gives no text. The texts, and what
  ended them.\<close>

function frames :: "Scanner \<Rightarrow> string list \<times> scanned" where
  "frames s =
     (case Next s of
        (ScanText t, s') \<Rightarrow> (let (ts, r) = frames s' in (t # ts, r))
      | (r, s') \<Rightarrow> ([], r))"
  by pat_completeness auto
termination
proof (relation "measure (\<lambda>s. length (unread s))")
  fix s r s' t assume "(r, s') = Next s" "r = ScanText t"
  then show "(s', s) \<in> measure (\<lambda>s. length (unread s))"
    using scanLoop_text_shorter[of "stream_end s" freshScan "unread s" t]
    by (auto simp: Next_def freshScan_def split: prod.splits)
qed simp

declare frames.simps [simp del]

subsection \<open>Text the scanner passes\<close>

definition scanOver :: "scan \<Rightarrow> string \<Rightarrow> scan \<Rightarrow> bool" where
  "scanOver s t s' \<longleftrightarrow> (\<forall>e r. scanLoop e s (t @ r) = scanLoop e s' r)"

definition scanning :: "scan \<Rightarrow> bool" where
  "scanning s \<longleftrightarrow> \<not> escaped s \<and> \<not> inString s \<and> sawContent s"

text \<open>Text that leaves the scanner between strings and at the depth it was, and text that leaves it
  inside a string.\<close>

definition transparent :: "string \<Rightarrow> bool" where
  "transparent t \<longleftrightarrow> (\<forall>s. scanning s \<longrightarrow> scanOver s t (s\<lparr>sb := sb s @ t\<rparr>))"

definition insideString :: "string \<Rightarrow> bool" where
  "insideString t \<longleftrightarrow> (\<forall>s. \<not> escaped s \<and> inString s \<longrightarrow> scanOver s t (s\<lparr>sb := sb s @ t\<rparr>))"

lemma scanOver_Nil: "scanOver s [] (s\<lparr>sb := sb s @ []\<rparr>)"
  by (simp add: scanOver_def)

lemma scanOver_append: "scanOver s a s1 \<Longrightarrow> scanOver s1 b s2 \<Longrightarrow> scanOver s (a @ b) s2"
  by (simp add: scanOver_def)

lemma scanOver_byte: "(\<And>cs. scanByte s c cs = Continue s' cs) \<Longrightarrow> scanOver s [c] s'"
  by (simp add: scanOver_def scanLoop.simps(2))

lemma transparent_append: "transparent a \<Longrightarrow> transparent b \<Longrightarrow> transparent (a @ b)"
  unfolding transparent_def
proof (intro allI impI)
  fix s assume a: "\<forall>s. scanning s \<longrightarrow> scanOver s a (s\<lparr>sb := sb s @ a\<rparr>)"
    and b: "\<forall>s. scanning s \<longrightarrow> scanOver s b (s\<lparr>sb := sb s @ b\<rparr>)" and s: "scanning s"
  have "scanning (s\<lparr>sb := sb s @ a\<rparr>)" using s by (simp add: scanning_def)
  then have "scanOver (s\<lparr>sb := sb s @ a\<rparr>) b (s\<lparr>sb := sb s @ a @ b\<rparr>)" using b by force
  then show "scanOver s (a @ b) (s\<lparr>sb := sb s @ a @ b\<rparr>)" using a s scanOver_append by blast
qed

lemma insideString_append: "insideString a \<Longrightarrow> insideString b \<Longrightarrow> insideString (a @ b)"
  unfolding insideString_def
proof (intro allI impI)
  fix s :: scan
  assume a: "\<forall>s. \<not> escaped s \<and> inString s \<longrightarrow> scanOver s a (s\<lparr>sb := sb s @ a\<rparr>)"
    and b: "\<forall>s. \<not> escaped s \<and> inString s \<longrightarrow> scanOver s b (s\<lparr>sb := sb s @ b\<rparr>)" and s: "\<not> escaped s \<and> inString s"
  then have "scanOver (s\<lparr>sb := sb s @ a\<rparr>) b (s\<lparr>sb := sb s @ a @ b\<rparr>)"
    using b[rule_format, of "s\<lparr>sb := sb s @ a\<rparr>"] by simp
  then show "scanOver s (a @ b) (s\<lparr>sb := sb s @ a @ b\<rparr>)" using a s scanOver_append by blast
qed

lemma transparent_Nil [simp]: "transparent []" "insideString []"
  by (simp_all add: transparent_def insideString_def scanOver_def)

definition plainByte :: "char \<Rightarrow> bool" where
  "plainByte c \<longleftrightarrow> c \<notin> {char_of rQUOTE, char_of rLBRACE, char_of rRBRACE, char_of rHASH, char_of rNL}"

lemma transparent_byte: "plainByte c \<Longrightarrow> transparent [c]"
  unfolding transparent_def
  by (auto intro!: scanOver_byte simp: scanByte_def plainByte_def scanning_def)

lemma transparent_plain: "list_all plainByte t \<Longrightarrow> transparent t"
proof (induction t)
  case (Cons c t)
  then show ?case using transparent_append[OF transparent_byte, of c t] by simp
qed simp

lemma insideString_byte: "c \<notin> {char_of rQUOTE, char_of rBSLASH, char_of rNL} \<Longrightarrow> insideString [c]"
  unfolding insideString_def
  by (auto intro!: scanOver_byte simp: scanByte_def)

lemma insideString_bytes: "set t \<inter> {char_of rQUOTE, char_of rBSLASH, char_of rNL} = {} \<Longrightarrow> insideString t"
proof (induction t)
  case (Cons c t)
  then show ?case using insideString_append[OF insideString_byte, of c t] by auto
qed simp

lemma insideString_escape: "insideString [char_of rBSLASH, c]"
  unfolding insideString_def
proof (intro allI impI)
  fix s :: scan assume "\<not> escaped s \<and> inString s"
  then have "scanOver s [char_of rBSLASH] (s\<lparr>escaped := True, sb := sb s @ [char_of rBSLASH]\<rparr>)"
    "scanOver (s\<lparr>escaped := True, sb := sb s @ [char_of rBSLASH]\<rparr>) [c] (s\<lparr>sb := sb s @ [char_of rBSLASH, c]\<rparr>)"
    by (auto intro!: scanOver_byte simp: scanByte_def)
  then show "scanOver s [char_of rBSLASH, c] (s\<lparr>sb := sb s @ [char_of rBSLASH, c]\<rparr>)"
    using scanOver_append by fastforce
qed

lemma insideString_hex:
  assumes "b < 256" shows "insideString ([char_of rBSLASH, CHR ''x''] @ hex2 b)"
proof -
  have "set (hex2 b) \<inter> {char_of rQUOTE, char_of rBSLASH, char_of rNL} = {}"
  proof -
    have d: "d < 16 \<Longrightarrow> of_char (hexDigit d) \<in> {48..102::nat} - {92}" for d by (auto simp: hexDigit_def)
    have "b div 16 < 16" "b mod 16 < 16" using assms by auto
    then have "\<forall>c \<in> set (hex2 b). of_char c \<in> {48..102::nat} - {92}" using d by (simp add: hex2_def)
    then show ?thesis by auto
  qed
  then show ?thesis by (intro insideString_append insideString_escape insideString_bytes)
qed

lemma encodeRune_bytes: "\<not> r < 0x80 \<Longrightarrow> valid_rune r \<Longrightarrow> c \<in> set (encodeRune r) \<Longrightarrow> \<not> of_char c < (0x80::nat)"
  by (auto simp: encodeRune_def valid_rune_def split: if_splits)

lemma encodeRune_byte:
  assumes "valid_rune r" "n < 0x80" "r \<noteq> n" shows "char_of n \<notin> set (encodeRune r)"
proof
  assume c: "char_of n \<in> set (encodeRune r)"
  then have "r < 0x80" using encodeRune_bytes[OF _ assms(1) c] assms(2) by auto
  then show False using c assms by (auto simp: encodeRune_ascii)
qed

lemma insideString_quoteRune:
  assumes "valid_rune r" shows "insideString (quoteRune r)"
proof (cases "r \<in> {rQUOTE, rBSLASH, rNL, rTAB, rCR, rESC} \<or> r < 32 \<or> r = 127")
  case True
  then show ?thesis using insideString_escape insideString_hex[of r] by (auto simp: quoteRune_def)
next
  case False
  then have "insideString (encodeRune r)"
    using encodeRune_byte[OF assms, of rQUOTE] encodeRune_byte[OF assms, of rBSLASH] encodeRune_byte[OF assms, of rNL]
    by (intro insideString_bytes) auto
  then show ?thesis using False by (simp add: quoteRune_def)
qed

lemma insideString_quoteByte: "insideString (quoteByte c)"
proof -
  have "c \<notin> {char_of rQUOTE, char_of rBSLASH, char_of rNL}"
    if "c \<noteq> char_of rQUOTE" "c \<noteq> char_of rBSLASH" "in_range 32 126 (of_char c)"
    using that by (auto simp: in_range_def)
  then show ?thesis using insideString_escape insideString_hex[of "of_char c"] insideString_byte[of c]
    by (auto simp: quoteByte_def)
qed

lemma insideString_concat: "(\<And>x. x \<in> set xs \<Longrightarrow> insideString (f x)) \<Longrightarrow> insideString (concat (map f xs))"
  by (induction xs) (auto intro: insideString_append)

lemma scanOver_enclosed:
  assumes "scanOver s [a] s1" "scanOver s1 t s2" "scanOver s2 [b] s3"
  shows "scanOver s (a # t @ [b]) s3"
  using assms scanOver_append[OF assms(1) scanOver_append[OF assms(2,3)]] by simp

lemma transparent_literal:
  assumes "insideString t" shows "transparent (char_of rQUOTE # t @ [char_of rQUOTE])"
  unfolding transparent_def
proof (intro allI impI, rule scanOver_enclosed)
  fix s assume s: "scanning s"
  let ?q = "char_of rQUOTE"
  let ?s1 = "s\<lparr>inString := True, sb := sb s @ [?q]\<rparr>"
  let ?s2 = "s\<lparr>inString := True, sb := sb s @ ?q # t\<rparr>"
  show "scanOver s [?q] ?s1" using s by (auto intro!: scanOver_byte simp: scanByte_def scanning_def)
  show "scanOver ?s1 t ?s2"
    using assms[unfolded insideString_def, rule_format, of ?s1] s by (simp add: scanning_def)
  show "scanOver ?s2 [?q] (s\<lparr>sb := sb s @ ?q # t @ [?q]\<rparr>)"
    using s by (auto intro!: scanOver_byte simp: scanByte_def scanning_def)
qed

lemma transparent_braces:
  assumes "transparent t" shows "transparent (char_of rLBRACE # t @ [char_of rRBRACE])"
  unfolding transparent_def
proof (intro allI impI, rule scanOver_enclosed)
  fix s assume s: "scanning s"
  let ?l = "char_of rLBRACE" and ?r = "char_of rRBRACE"
  let ?s1 = "s\<lparr>depth := depth s + 1, sb := sb s @ [?l]\<rparr>"
  let ?s2 = "s\<lparr>depth := depth s + 1, sb := sb s @ ?l # t\<rparr>"
  show "scanOver s [?l] ?s1" using s by (auto intro!: scanOver_byte simp: scanByte_def scanning_def)
  show "scanOver ?s1 t ?s2"
    using assms[unfolded transparent_def, rule_format, of ?s1] s by (simp add: scanning_def)
  show "scanOver ?s2 [?r] (s\<lparr>sb := sb s @ ?l # t @ [?r]\<rparr>)"
    using s by (auto intro!: scanOver_byte simp: scanByte_def scanning_def)
qed

subsection \<open>What is encoded is passed\<close>

text \<open>The scanner does not know protected symbols: one is passed where none of its bytes means
  something to the scanner.\<close>

definition framedWord :: "string \<Rightarrow> bool" where
  "framedWord w \<longleftrightarrow> IsWord w \<or> list_all plainByte w"

fun framed_value :: "wvalue \<Rightarrow> bool"
  and framed_script :: "script \<Rightarrow> bool"
  and framed_statement :: "statement \<Rightarrow> bool"
  and framed_arg :: "arg \<Rightarrow> bool"
where
  "framed_value (WordValue w) = framedWord w"
| "framed_value (IntValue i) = True"
| "framed_value (FloatValue f) = True"
| "framed_value (StringValue s blob) = True"
| "framed_value (BlockValue b) = framed_script b"
| "framed_script (Script sts) = list_all framed_statement sts"
| "framed_statement (Statement key verb ref refid args) = list_all framed_arg args"
| "framed_arg (Arg name flag v) = (case v of None \<Rightarrow> True | Some v' \<Rightarrow> framed_value v')"

lemma token_plain: "isTokenRune (of_char c) \<Longrightarrow> plainByte c"
  by (auto simp: plainByte_def isTokenRune_def isWordRune_def isWordStart_def in_range_def)

lemma tokens_transparent: "list_all isTokenRune (runes t) \<Longrightarrow> transparent t"
  using runes_of_ascii[OF token_ascii, of t]
  by (intro transparent_plain) (simp add: list_all_iff token_plain)

lemma head_transparent: "isHead t \<Longrightarrow> transparent t"
  by (rule tokens_transparent) (auto simp: isHead_def intro: word_token)

lemma transparent_Cons: "plainByte c \<Longrightarrow> transparent t \<Longrightarrow> transparent (c # t)"
  using transparent_append[OF transparent_byte, of c t] by simp

lemma plainBytes [simp]:
  "plainByte CHR '' ''" "plainByte CHR '';''" "plainByte CHR ''=''" "plainByte CHR ''!''" "plainByte CHR ''?''"
  "plainByte CHR ''(''" "plainByte CHR '')''" "plainByte CHR ''.''" "plainByte CHR ''0''"
  by code_simp+

lemma transparent_join: "transparent sep \<Longrightarrow> list_all transparent ts \<Longrightarrow> transparent (join sep ts)"
  by (induction sep ts rule: join.induct) (auto intro: transparent_append)

lemma transparent_args:
  assumes "\<And>a. a \<in> set args \<Longrightarrow> transparent (EncodeArg a)"
  shows "transparent (encodeArgs args)"
  using assms by (induction args) (auto simp: encodeArgs_def intro!: transparent_Cons transparent_append)

lemma encoding_transparent:
  "(wf_value v \<and> framed_value v \<longrightarrow> transparent (EncodeValue v))"
  "(wf_script s \<and> framed_script s \<longrightarrow> transparent (EncodeScript s))"
  "(wf_statement st \<and> framed_statement st \<longrightarrow> transparent (EncodeStatement st))"
  "(wf_arg a \<and> framed_arg a \<longrightarrow> transparent (EncodeArg a))"
proof (induction v and s and st and a rule: EncodeValue_EncodeScript_EncodeStatement_EncodeArg.induct)
  case (1 w)
  have "transparent w" if "framed_value (WordValue w)"
    using that IsWord_token[of w] by (auto simp: framedWord_def intro: tokens_transparent transparent_plain)
  then show ?case by (auto intro!: transparent_Cons transparent_append)
next
  case (2 i)
  then show ?case using tokens_transparent token_formatInt(1) by simp
next
  case (3 f)
  then show ?case by (auto simp: floatReadsBack_def intro: tokens_transparent)
next
  case (4 s blob)
  have "insideString (concat (map quoteByte s))" by (intro insideString_concat insideString_quoteByte)
  moreover have "insideString (concat (map quoteRune (runes s)))"
    using runes_valid[of s] by (intro insideString_concat insideString_quoteRune) (auto simp: list_all_iff)
  ultimately show ?case using transparent_literal by (simp add: quoteString_def QuoteBlob_def)
next
  case (5 b)
  have braces: "CHR ''{'' = char_of rLBRACE" "CHR ''}'' = char_of rRBRACE" by code_simp+
  have "transparent ''{}''" using transparent_braces[of "[]"] by (simp add: braces)
  moreover have "transparent (''{ '' @ t @ '' }'')" if "transparent t" for t
    using that transparent_braces[of "'' '' @ t @ '' ''"]
    by (simp add: braces transparent_Cons transparent_append)
  ultimately show ?case using 5 by (simp add: Let_def)
next
  case (6 sts)
  then show ?case by (auto simp: list_all_iff intro!: transparent_join transparent_Cons)
next
  case (7 key verb ref refid args)
  show ?case
  proof
    assume wf: "wf_statement (Statement key verb ref refid args) \<and> framed_statement (Statement key verb ref refid args)"
    then have "transparent (encodeArgs args)"
      using 7 by (intro transparent_args) (auto simp: list_all_iff split: if_splits)
    then show "transparent (EncodeStatement (Statement key verb ref refid args))" using wf
      unfolding EncodeStatement_alt
      by (auto simp: head_transparent isName_isHead tokens_transparent token_formatUint(1)
          intro!: transparent_append transparent_Cons split: if_splits)
  qed
next
  case (8 name flag v)
  then show ?case
    by (auto simp: head_transparent isName_isHead split: option.splits flagState.splits if_splits
        intro!: transparent_append transparent_Cons)
qed

subsection \<open>Lines of encoded statements\<close>

definition sendLine :: "string \<Rightarrow> string" where
  "sendLine t = t @ [char_of rNL]"

definition encodedLine :: "statement \<Rightarrow> string" where
  "encodedLine st = sendLine (EncodeStatement st)"

lemma word_first:
  assumes "isWordRune (of_char c)"
  shows "scanLoop e (freshScan\<lparr>sawContent := True\<rparr>) (c # cs) = scanLoop e freshScan (c # cs)"
proof -
  have "plainByte c" "c \<notin> {char_of rSP, char_of rTAB, char_of rCR, char_of rSEMI}"
    using assms by (auto simp: plainByte_def isWordRune_def isWordStart_def in_range_def)
  then show ?thesis by (simp add: scanLoop.simps(2) scanByte_def freshScan_def plainByte_def)
qed

lemma encoded_first:
  assumes "wf_statement st"
  obtains c cs where "EncodeStatement st = c # cs" "isWordRune (of_char c)"
proof -
  obtain r rs where r: "runes (EncodeStatement st) = r # rs" "isWordRune r" using assms by (rule statement_opens)
  then obtain c cs where c: "EncodeStatement st = c # cs" by (cases "EncodeStatement st") auto
  then have "fst (decodeRune c cs) = r" using r by (simp add: runes_Cons)
  moreover from this have "of_char c < (0x80::nat)"
    using decodeRune_ascii[of c cs] wordRune_ascii[OF r(2)] by simp
  ultimately have "of_char c = r" by (simp add: decodeRune_def)
  then show ?thesis using that c r(2) by simp
qed

lemma Next_line:
  assumes "wf_statement st" "framed_statement st" "unread s = sendLine (EncodeStatement st) @ tail"
  shows "Next s = (ScanText (sendLine (EncodeStatement st)), s\<lparr>unread := tail\<rparr>)"
proof -
  let ?t = "EncodeStatement st" and ?s0 = "freshScan\<lparr>sawContent := True\<rparr>"
  obtain c cs where c: "?t = c # cs" "isWordRune (of_char c)" using assms(1) by (rule encoded_first)
  have "transparent ?t" using encoding_transparent(3) assms(1,2) by blast
  moreover have "scanning ?s0" by (simp add: scanning_def freshScan_def)
  ultimately have over: "scanOver ?s0 ?t (?s0\<lparr>sb := sb ?s0 @ ?t\<rparr>)" unfolding transparent_def by blast
  define e where "e = stream_end s"
  have "scanLoop e freshScan (?t @ char_of rNL # tail) = scanLoop e ?s0 (?t @ char_of rNL # tail)"
    using word_first[OF c(2)] by (simp add: c(1))
  also have "\<dots> = scanLoop e (?s0\<lparr>sb := sb ?s0 @ ?t\<rparr>) (char_of rNL # tail)"
    using over unfolding scanOver_def by blast
  also have "\<dots> = (ScanText (?t @ [char_of rNL]), tail)"
    by (simp add: scanLoop.simps(2) scanByte_def freshScan_def)
  finally show ?thesis by (simp add: Next_def assms(3) sendLine_def e_def)
qed

lemma frames_lines:
  assumes "\<forall>st \<in> set sts. wf_statement st \<and> framed_statement st"
  shows "frames (NewScanner (concat (map encodedLine sts)) EndOfFile) =
    (map encodedLine sts, ScanEnd)"
  using assms
proof (induction sts)
  case Nil
  then show ?case by (subst frames.simps) (simp add: Next_def NewScanner_def atEnd_def freshScan_def)
next
  case (Cons st sts)
  let ?tail = "concat (map encodedLine sts)"
  have "Next (NewScanner (encodedLine st @ ?tail) EndOfFile) =
      (ScanText (encodedLine st), NewScanner ?tail EndOfFile)"
    using Next_line[of st "NewScanner (encodedLine st @ ?tail) EndOfFile" ?tail] Cons.prems
    by (simp add: NewScanner_def encodedLine_def)
  then show ?case using Cons by (subst frames.simps) simp
qed

lemma Parse_line:
  assumes "wf_statement st"
  shows "Parse (sendLine (EncodeStatement st)) = Some (Inr (Script [readBackStatement st]))"
proof -
  let ?t = "sendLine (EncodeStatement st)" and ?n = "length (runes (EncodeStatement st))"
  have whole: "runes ?t = runes (EncodeStatement st) @ [rNL]"
    using runes_append[OF encoding_valids(3)[OF assms]] by (simp add: sendLine_def runes_of_ascii)
  have p: "rest (newParser ?t) = runes (EncodeStatement st) @ [rNL]" by (simp add: newParser_def whole)
  have st: "readsStatement st" using reads_back(3) assms by blast
  obtain f where f: "parseFuel ?t = Suc f" by (simp add: parseFuel_def)
  have "4 * length (rest (newParser ?t)) + 3 \<le> f" using f by (simp add: parseFuel_def newParser_def)
  then have one: "parseStatement f False (newParser ?t) =
      POk (readBackStatement st) (skipInline (eat ?n (newParser ?t)))"
    using st p unfolding readsStatement_def by (fastforce simp: stmtEnd_def)
  obtain c cs where c: "runes (EncodeStatement st) = c # cs" "isWordRune c" using assms by (rule statement_opens)
  then have c': "c \<notin> {rSP, rTAB, rCR, rNL, rSEMI, rHASH, rRBRACE}"
    by (auto simp: isWordRune_def isWordStart_def in_range_def)
  have still: "skipSeparators (newParser ?t) = newParser ?t" by (rule skipSeparators_stop) (use p c c' in auto)
  have r1: "rest (eat ?n (newParser ?t)) = [rNL]" by (simp add: rest_eat p)
  have "skipInline (eat ?n (newParser ?t)) = eat ?n (newParser ?t)"
    using skipInline_at[OF r1] by (simp add: blanks_def)
  moreover have "parseScript f True (eat ?n (newParser ?t)) = parseScript f True (eat (Suc ?n) (newParser ?t))"
    using f p skipSeparators_sep[of "eat ?n (newParser ?t)" rNL "[]"] r1
    by (intro parseScript_skip) (auto simp: parseFuel_def newParser_def whole advance_eat eat_eat)
  moreover have "0 < f" using f by (simp add: parseFuel_def whole)
  moreover have "scriptEnd True (rest (eat (Suc ?n) (newParser ?t)))" by (simp add: scriptEnd_def rest_eat p)
  ultimately have "parseScript f True (skipInline (eat ?n (newParser ?t))) =
      POk [] (skipSeparators (eat (Suc ?n) (newParser ?t)))"
    using readsScript_end[of True "eat (Suc ?n) (newParser ?t)" f] by simp
  then show ?thesis using p c c' one by (simp add: Parse_def f still eof_def)
qed

text \<open>What a reader of the stream makes of it: every text that parses, taken apart.\<close>

definition received :: "Scanner \<Rightarrow> (parseError + script) option list" where
  "received s = map Parse (fst (frames s))"



subsection \<open>What a text that is returned looks like\<close>

text \<open>The reading of braces and strings a text is balanced by: depth, inside a string, after a
  backslash.\<close>

definition lexStep :: "int \<times> bool \<times> bool \<Rightarrow> char \<Rightarrow> int \<times> bool \<times> bool" where
  "lexStep st c =
     (case st of (d, quoted, esc) \<Rightarrow>
        if esc then (d, quoted, False)
        else if quoted then
          (if c = char_of rBSLASH then (d, True, True)
           else if c = char_of rQUOTE then (d, False, False) else (d, True, False))
        else if c = char_of rQUOTE then (d, True, False)
        else if c = char_of rLBRACE then (d + 1, False, False)
        else if c = char_of rRBRACE then (d - 1, False, False)
        else (d, False, False))"

definition lexAfter :: "string \<Rightarrow> int \<times> bool \<times> bool" where
  "lexAfter t = foldl lexStep (0, False, False) t"

definition tracks :: "scan \<Rightarrow> bool" where
  "tracks s \<longleftrightarrow> lexAfter (sb s) = (depth s, inString s, escaped s) \<and> (escaped s \<longrightarrow> inString s)"

lemma lexAfter_snoc: "lexAfter (t @ [c]) = lexStep (lexAfter t) c"
  by (simp add: lexAfter_def)

lemma scanByte_tracks:
  assumes "tracks s"
  shows "scanByte s ch cs = Continue s' cs' \<Longrightarrow> tracks s'"
    and "scanByte s ch cs = Return (ScanText t) cs' \<Longrightarrow> lexAfter t = (0, False, False)"
  using assms
  by (auto simp: scanByte_def Let_def tracks_def lexAfter_snoc lexStep_def split: if_splits)

lemma scanLoop_tracks:
  "scanLoop e s cs = (ScanText t, cs') \<Longrightarrow> tracks s \<Longrightarrow> lexAfter t = (0, False, False)"
proof (induction e s cs rule: scanLoop.induct)
  case (1 e s)
  then show ?case by (auto simp: atEnd_def tracks_def split: if_splits readEnd.splits)
next
  case (2 e s ch cs)
  then show ?case using scanByte_tracks[OF 2(3), of ch cs] by (cases "scanByte s ch cs") auto
qed

lemma scanByte_used:
  "scanByte s ch cs = Continue s' cs' \<Longrightarrow> \<exists>u. cs = u @ cs' \<and> subseq (sb s') (sb s @ ch # u)"
  "scanByte s ch cs = Return (ScanText t) cs' \<Longrightarrow> \<exists>u. cs = u @ cs' \<and> subseq t (sb s @ ch # u @ [char_of rNL])"
proof -
  let ?skip = "tl (dropWhile (\<lambda>c. c \<noteq> char_of rNL) cs)"
  have "\<exists>u. cs = u @ ?skip"
  proof (cases "dropWhile (\<lambda>c. c \<noteq> char_of rNL) cs")
    case Nil
    show ?thesis unfolding Nil by simp
  next
    case (Cons c ds)
    then have "cs = (takeWhile (\<lambda>c. c \<noteq> char_of rNL) cs @ [c]) @ ds"
      using takeWhile_dropWhile_id[of "\<lambda>c. c \<noteq> char_of rNL" cs] by simp
    then show ?thesis using Cons by (metis list.sel(3))
  qed
  moreover have "subseq (sb s) (sb s @ v)" for v by (rule list_emb_prefix) simp
  moreover have "subseq (sb s @ [c]) (sb s @ c # v)" "subseq (sb s @ [d]) (sb s @ v @ [d])" for c d v
    by (simp_all add: subseq_append' subseq_singleton_left)
  ultimately show "scanByte s ch cs = Continue s' cs' \<Longrightarrow> \<exists>u. cs = u @ cs' \<and> subseq (sb s') (sb s @ ch # u)"
    "scanByte s ch cs = Return (ScanText t) cs' \<Longrightarrow> \<exists>u. cs = u @ cs' \<and> subseq t (sb s @ ch # u @ [char_of rNL])"
    by (auto simp: scanByte_def Let_def subseq_append' subseq_singleton_left split: if_splits)
qed

lemma scanLoop_used:
  "scanLoop e s cs = (ScanText t, cs') \<Longrightarrow>
   \<exists>u. cs = u @ cs' \<and> subseq t (sb s @ u @ [char_of rNL])"
proof (induction e s cs rule: scanLoop.induct)
  case (1 e s)
  then show ?case by (auto simp: atEnd_def split: if_splits readEnd.splits)
next
  case (2 e s ch cs)
  show ?case
  proof (cases "scanByte s ch cs")
    case (Return r ds)
    then show ?thesis using 2(2) scanByte_used(2)[of s ch cs t cs'] by auto
  next
    case (Continue s1 ds)
    obtain v where v: "cs = v @ ds" "subseq (sb s1) (sb s @ ch # v)" using scanByte_used(1)[OF Continue] by blast
    obtain u where u: "ds = u @ cs'" "subseq t (sb s1 @ u @ [char_of rNL])"
      using 2(1)[OF Continue] 2(2) Continue by auto
    have "subseq (sb s1 @ u @ [char_of rNL]) ((sb s @ ch # v) @ u @ [char_of rNL])"
      by (rule list_emb_append_mono[OF v(2)]) simp
    then show ?thesis using v(1) u subseq_order.trans by fastforce
  qed
qed

text \<open>A text that \<open>Next\<close> returns is complete: read by itself, its braces are balanced outside its
  string literals and no literal is open at its end.\<close>

theorem Next_complete:
  assumes "Next s = (ScanText t, s')"
  shows "lexAfter t = (0, False, False)"
proof -
  obtain cs where "scanLoop (stream_end s) freshScan (unread s) = (ScanText t, cs)"
    using assms by (auto simp: Next_def split: prod.splits)
  moreover have "tracks freshScan" by (simp add: tracks_def freshScan_def lexAfter_def)
  ultimately show ?thesis by (rule scanLoop_tracks)
qed

theorem Next_complete_witness:
  "lexAfter (''a { b \"}\" '' @ [char_of rNL] @ ''}'' @ [char_of rNL]) = (0, False, False)"
proof -
  let ?s = "NewScanner ([char_of rNL] @ ''# c'' @ [char_of rNL] @ ''a { b \"}\" '' @ [char_of rNL] @ ''}'' @ [char_of rNL] @ ''d'') EndOfFile"
  have "Next ?s = (ScanText (''a { b \"}\" '' @ [char_of rNL] @ ''}'' @ [char_of rNL]), NewScanner ''d'' EndOfFile)"
    by code_simp
  from Next_complete[OF this] show ?thesis .
qed

text \<open>\<open>Next\<close> invents nothing and loses no later byte: what it leaves is the end of what it had, and
  the text it returns is what it used, in order, less comments and blank lines (and with a newline where
  a comment ran to the end of the stream).\<close>

theorem Next_used:
  assumes "Next s = (ScanText t, s')"
  shows "\<exists>used. unread s = used @ unread s' \<and> used \<noteq> [] \<and> stream_end s' = stream_end s
    \<and> subseq t (used @ [char_of rNL])"
proof -
  obtain cs where cs: "scanLoop (stream_end s) freshScan (unread s) = (ScanText t, cs)" "s' = s\<lparr>unread := cs\<rparr>"
    using assms by (auto simp: Next_def split: prod.splits)
  obtain u where u: "unread s = u @ cs" "subseq t (sb freshScan @ u @ [char_of rNL])"
    using scanLoop_used[OF cs(1)] by blast
  have "u \<noteq> []" using scanLoop_text_shorter[OF cs(1)] u(1) by (auto simp: freshScan_def)
  then show ?thesis using u cs(2) by (auto simp: freshScan_def)
qed

theorem Next_used_witness:
  "\<exists>used. ''a # note'' @ [char_of rNL] @ ''b'' = used @ ''b'' \<and> used \<noteq> [] \<and> EndOfFile = EndOfFile
    \<and> subseq (''a '' @ [char_of rNL]) (used @ [char_of rNL])"
proof -
  have "Next (NewScanner (''a # note'' @ [char_of rNL] @ ''b'') EndOfFile) =
      (ScanText (''a '' @ [char_of rNL]), NewScanner ''b'' EndOfFile)" by code_simp
  from Next_used[OF this] show ?thesis by (simp add: NewScanner_def)
qed

subsection \<open>Where the scanner and the grammar part\<close>

text \<open>A comment inside a block takes its newline with it, so the statements on both sides of it become
  one: the scanner hands on one statement where the parser, given the same bytes, reads two.\<close>

lemma comment_in_block_joins:
  "fst (Next (NewScanner (''a { b # c'' @ [char_of rNL] @ ''d }'' @ [char_of rNL]) EndOfFile)) =
     ScanText (''a { b d }'' @ [char_of rNL])"
  "Parse (''a { b # c'' @ [char_of rNL] @ ''d }'' @ [char_of rNL]) \<noteq> Parse (''a { b d }'' @ [char_of rNL])"
  by code_simp+

text \<open>The scanner cuts a protected symbol at a hash sign.\<close>

lemma protected_symbol_cut:
  "EncodeStatement (Statement [] ''a'' [] 0 [Arg [] FlagNone (Some (WordValue ''b#c''))]) = ''a (b#c)''"
  "fst (Next (NewScanner (''a (b#c)'' @ [char_of rNL]) EndOfFile)) = ScanText (''a (b'' @ [char_of rNL])"
  by code_simp+

end
