(* ===== verification/WireMessages.thy ===== *)
theory WireMessages
  imports WireScanner "HOL-Library.Mapping" "HOL-Library.AList_Mapping" "HOL-Library.List_Lexorder" "HOL-Library.Char_ord"
begin

text \<open>
  The statements that only the wire has (\<open>wire/wire.go\<close>): replies, complaints, refusals and farewells.
  What a message kind owes its reader is one contract, \<open>codec\<close>: it is encoded as a statement that has
  a spelling, and what is read back decodes to what was meant. Every kind of message is an
  interpretation of it, here and in the theories that follow.
\<close>

subsection \<open>What a kind of message promises\<close>

locale codec =
  fixes shape :: "'a \<Rightarrow> statement"
    and encode :: "'a \<Rightarrow> string"
    and decode :: "statement \<Rightarrow> 'e + 'b"
    and sound :: "'a \<Rightarrow> bool"
    and meaning :: "'a \<Rightarrow> 'b"
  assumes encode_shape: "sound x \<Longrightarrow> encode x = EncodeStatement (shape x)"
    and shape_wf: "sound x \<Longrightarrow> wf_statement (shape x)"
    and decode_back: "sound x \<Longrightarrow> decode (readBackStatement (shape x)) = Inr (meaning x)"
begin

lemma parse_encode: "sound x \<Longrightarrow> Parse (encode x) = Some (Inr (Script [readBackStatement (shape x)]))"
  using Parse_EncodeScript_eq[of "Script [shape x]"] by (simp add: encode_shape shape_wf)

lemma round_trip: "sound x \<Longrightarrow> \<exists>st. Parse (encode x) = Some (Inr (Script [st])) \<and> decode st = Inr (meaning x)"
  using parse_encode decode_back by blast

lemma line_round_trip:
  "sound x \<Longrightarrow> \<exists>st. Parse (sendLine (encode x)) = Some (Inr (Script [st])) \<and> decode st = Inr (meaning x)"
  using Parse_line[OF shape_wf] decode_back encode_shape by metis

end

text \<open>A kind of message the scanner frames as well.\<close>

locale framed_codec = codec +
  assumes shape_framed: "sound x \<Longrightarrow> framed_statement (shape x)"
begin

lemma next_frame:
  assumes "sound x" "unread s = sendLine (encode x) @ tail"
  shows "Next s = (ScanText (sendLine (encode x)), s\<lparr>unread := tail\<rparr>)"
  using Next_line[OF shape_wf shape_framed] assms by (simp add: encode_shape)

text \<open>A peer that writes the line is understood by one that scans, parses and decodes.\<close>

lemma delivered:
  assumes "sound x" "unread s = sendLine (encode x) @ tail"
  shows "\<exists>t st. Next s = (ScanText t, s\<lparr>unread := tail\<rparr>) \<and> Parse t = Some (Inr (Script [st])) \<and> decode st = Inr (meaning x)"
  using next_frame[OF assms] line_round_trip[OF assms(1)] by blast

end

subsection \<open>Errors and farewells\<close>

datatype wireError =
    NotA string string
  | ExpectedIntegerId string
  | ExpectedAString string
  | NoText

definition EncodeError :: "string \<Rightarrow> string" where
  "EncodeError msg = ''error text='' @ Quote msg"

text \<open>The \<open>Str\<close> of a value that is no string is empty.\<close>

definition valueStr :: "wvalue \<Rightarrow> string" where
  "valueStr v = (case v of StringValue s blob \<Rightarrow> s | _ \<Rightarrow> [])"

definition noReason :: string where
  "noReason = ''a refusal with no reason on it''"

fun errorText :: "arg list \<Rightarrow> string" where
  "errorText [] = noReason"
| "errorText (Arg name flag v # as) =
     (if name \<noteq> ''text'' then errorText as
      else (case v of None \<Rightarrow> noReason | Some v' \<Rightarrow> valueStr v'))"

definition DecodeError :: "statement \<Rightarrow> wireError + string" where
  "DecodeError st =
     (if st_verb st \<noteq> ''error'' then Inl (NotA ''error'' (st_verb st)) else Inr (errorText (st_args st)))"

definition ReasonField :: string where "ReasonField = ''reason''"

text \<open>\<open>GoodbyeReason\<close>: the word, where the farewell says one.\<close>

fun goodbyeArgs :: "arg list \<Rightarrow> string option" where
  "goodbyeArgs [] = None"
| "goodbyeArgs (Arg name flag v # as) =
     (if name \<noteq> ReasonField then goodbyeArgs as
      else (case v of
              Some (WordValue w) \<Rightarrow> Some w
            | Some (StringValue s blob) \<Rightarrow> Some s
            | _ \<Rightarrow> goodbyeArgs as))"

definition GoodbyeReason :: "statement option \<Rightarrow> string option" where
  "GoodbyeReason st = Option.bind st (\<lambda>st. goodbyeArgs (st_args st))"

subsection \<open>Complaints\<close>

record Trouble =
  About :: string
  Text :: string

definition TroubleVerb :: string where "TroubleVerb = ''trouble''"

definition EncodeTrouble :: "Trouble \<Rightarrow> string" where
  "EncodeTrouble t =
     TroubleVerb @ (if About t \<noteq> [] then '' about='' @ Quote (About t) else []) @ '' text='' @ Quote (Text t)"

fun troubleArgs :: "Trouble \<Rightarrow> bool \<Rightarrow> arg list \<Rightarrow> wireError + Trouble" where
  "troubleArgs t said [] = (if \<not> said then Inl NoText else Inr t)"
| "troubleArgs t said (Arg name flag v # as) =
     (if name \<noteq> ''about'' \<and> name \<noteq> ''text'' then troubleArgs t said as
      else (case v of
              Some (StringValue s blob) \<Rightarrow>
                (if name = ''about'' then troubleArgs (t\<lparr>About := s\<rparr>) said as
                 else troubleArgs (t\<lparr>Text := s\<rparr>) True as)
            | _ \<Rightarrow> Inl (ExpectedAString name)))"

definition DecodeTrouble :: "statement \<Rightarrow> wireError + Trouble" where
  "DecodeTrouble st =
     (if st_verb st \<noteq> TroubleVerb then Inl (NotA TroubleVerb (st_verb st))
      else troubleArgs \<lparr>About = [], Text = []\<rparr> False (st_args st))"

subsection \<open>Replies\<close>

record Reply =
  IDs :: "(string, u64) mapping"
  Extra :: "string list"
  Troubles :: "Trouble list"

definition EncodeReply :: "Reply \<Rightarrow> string" where
  "EncodeReply r =
     ''reply'' @ concat (map (\<lambda>n. '' '' @ n @ ''='' @ formatUint (Mapping.lookup_default 0 (IDs r) n))
                           (Mapping.ordered_keys (IDs r)))"

fun replyArgs :: "(string, u64) mapping \<Rightarrow> arg list \<Rightarrow> wireError + (string, u64) mapping" where
  "replyArgs m [] = Inr m"
| "replyArgs m (Arg name flag v # as) =
     (case v of
        Some (IntValue i) \<Rightarrow> replyArgs (Mapping.update name i m) as
      | _ \<Rightarrow> Inl (ExpectedIntegerId name))"

definition DecodeReply :: "statement \<Rightarrow> wireError + Reply" where
  "DecodeReply st =
     (if st_verb st \<noteq> ''reply'' then Inl (NotA ''reply'' (st_verb st))
      else map_sum id (\<lambda>m. \<lparr>IDs = m, Extra = [], Troubles = []\<rparr>) (replyArgs Mapping.empty (st_args st)))"

subsection \<open>Each is a codec\<close>

text \<open>The statements they write.\<close>

definition textArg :: "string \<Rightarrow> string \<Rightarrow> arg" where
  "textArg name s = Arg name FlagNone (Some (StringValue s False))"

definition errorShape :: "string \<Rightarrow> statement" where
  "errorShape msg = Statement [] ''error'' [] 0 [textArg ''text'' msg]"

definition troubleShape :: "Trouble \<Rightarrow> statement" where
  "troubleShape t =
     Statement [] TroubleVerb [] 0 ((if About t \<noteq> [] then [textArg ''about'' (About t)] else []) @ [textArg ''text'' (Text t)])"

definition troubleSound :: "Trouble \<Rightarrow> bool" where
  "troubleSound t \<longleftrightarrow> valid_utf8 (About t) \<and> valid_utf8 (Text t)"

definition replyShape :: "Reply \<Rightarrow> statement" where
  "replyShape r =
     Statement [] ''reply'' [] 0
       (map (\<lambda>n. Arg n FlagNone (Some (IntValue (Mapping.lookup_default 0 (IDs r) n)))) (Mapping.ordered_keys (IDs r)))"

definition replySound :: "Reply \<Rightarrow> bool" where
  "replySound r \<longleftrightarrow> finite (Mapping.keys (IDs r))
     \<and> (\<forall>n \<in> Mapping.keys (IDs r). isName n \<and> unat (Mapping.lookup_default 0 (IDs r) n) < 2 ^ 63)"

definition replyMeaning :: "Reply \<Rightarrow> Reply" where
  "replyMeaning r = r\<lparr>Extra := [], Troubles := []\<rparr>"

lemma bareName_simps [simp]:
  "\<not> bareName (IntValue i)" "\<not> bareName (FloatValue f)" "\<not> bareName (StringValue s blob)" "\<not> bareName (BlockValue b)"
  by (simp_all add: bareName_def)

lemma message_names [simp]: "isName ''text''" "isName ''about''" "isHead ''error''" "isHead ''trouble''" "isHead ''reply''"
  by code_simp+

interpretation refusal: framed_codec errorShape EncodeError DecodeError valid_utf8 "\<lambda>msg. msg"
  by unfold_locales
    (simp_all add: EncodeError_def errorShape_def textArg_def Quote_def DecodeError_def valueStr_def)

interpretation complaint: framed_codec troubleShape EncodeTrouble DecodeTrouble troubleSound "\<lambda>t. t"
  by unfold_locales
    (auto simp: EncodeTrouble_def troubleShape_def textArg_def Quote_def DecodeTrouble_def TroubleVerb_def troubleSound_def)

lemma formatUint_formatInt:
  assumes "unat i < 2 ^ 63" shows "formatUint i = formatInt i"
  using sint_unat[OF assms] by (simp add: formatUint_def formatInt_def showInt_def)

lemma replyArgs_written:
  "replyArgs m (map (\<lambda>n. Arg n FlagNone (Some (IntValue (f n)))) ns) = Inr (fold (\<lambda>n. Mapping.update n (f n)) ns m)"
  by (induction ns arbitrary: m) auto

lemma lookup_fold_update:
  "Mapping.lookup (fold (\<lambda>n. Mapping.update n (f n)) ns m) k =
     (if k \<in> set ns then Some (f k) else Mapping.lookup m k)"
  by (induction ns arbitrary: m) (auto simp: Mapping.lookup_update')

lemma fold_update_keys:
  assumes "finite (Mapping.keys m)"
  shows "fold (\<lambda>n. Mapping.update n (Mapping.lookup_default 0 m n)) (Mapping.ordered_keys m) Mapping.empty = m"
proof (rule mapping_eqI)
  fix k
  have "Mapping.lookup m k = (if k \<in> Mapping.keys m then Some (Mapping.lookup_default 0 m k) else None)"
    by (auto simp: Mapping.lookup_default_def keys_dom_lookup split: option.splits)
  moreover have "set (Mapping.ordered_keys m) = Mapping.keys m" using assms by (simp add: Mapping.ordered_keys_def)
  ultimately show "Mapping.lookup (fold (\<lambda>n. Mapping.update n (Mapping.lookup_default 0 m n)) (Mapping.ordered_keys m) Mapping.empty) k
      = Mapping.lookup m k"
    by (simp add: lookup_fold_update)
qed

lemma replyMeaning_eq: "replyMeaning r = \<lparr>IDs = IDs r, Extra = [], Troubles = []\<rparr>"
  by (simp add: replyMeaning_def)

interpretation reply: framed_codec replyShape EncodeReply DecodeReply replySound replyMeaning
proof unfold_locales
  fix r assume s: "replySound r"
  then have keys: "set (Mapping.ordered_keys (IDs r)) = Mapping.keys (IDs r)"
    by (simp add: replySound_def Mapping.ordered_keys_def)
  have names: "isName n" "n \<noteq> []" "formatUint (Mapping.lookup_default 0 (IDs r) n) = formatInt (Mapping.lookup_default 0 (IDs r) n)"
    if "n \<in> set (Mapping.ordered_keys (IDs r))" for n
    using s that keys by (auto simp: replySound_def isName_def intro!: formatUint_formatInt)
  show "EncodeReply r = EncodeStatement (replyShape r)"
    by (simp add: EncodeReply_def replyShape_def names comp_def cong: map_cong)
  show "wf_statement (replyShape r)" using names by (auto simp: replyShape_def list_all_iff)
  show "framed_statement (replyShape r)" by (auto simp: replyShape_def list_all_iff)
  have "readBackStatement (replyShape r) = replyShape r" by (simp add: replyShape_def)
  moreover have "DecodeReply (replyShape r) = Inr (replyMeaning r)"
    using fold_update_keys[of "IDs r"] s
    by (simp add: DecodeReply_def replyShape_def replyArgs_written replySound_def replyMeaning_eq)
  ultimately show "DecodeReply (readBackStatement (replyShape r)) = Inr (replyMeaning r)" by simp
qed

subsection \<open>What crosses\<close>

text \<open>A reply crosses the wire: where every name is a name and every id fits an \<open>int64\<close>, the line
  a reply is written as is framed by the scanner wherever it stands in the stream, and what is decoded
  from it carries the same ids under the same names. (Its \<open>Extra\<close> and \<open>Trouble\<close> travel as statements
  of their own.)\<close>

theorem reply_delivered:
  assumes "replySound r" "unread s = sendLine (EncodeReply r) @ tail"
  shows "\<exists>t st. Next s = (ScanText t, s\<lparr>unread := tail\<rparr>) \<and> Parse t = Some (Inr (Script [st]))
    \<and> DecodeReply st = Inr (r\<lparr>Extra := [], Troubles := []\<rparr>)"
  using reply.delivered[OF assms] by (simp add: replyMeaning_def)

theorem reply_delivered_witness:
  "\<exists>t st. Next (NewScanner (''reply a=7 w1=9'' @ [char_of rNL]) EndOfFile) = (ScanText t, NewScanner [] EndOfFile)
     \<and> Parse t = Some (Inr (Script [st]))
     \<and> DecodeReply st = Inr \<lparr>IDs = Mapping.update ''w1'' 9 (Mapping.update ''a'' 7 Mapping.empty), Extra = [], Troubles = []\<rparr>"
proof -
  let ?m = "Mapping.update ''w1'' 9 (Mapping.update ''a'' 7 Mapping.empty) :: (string, u64) mapping"
  let ?r = "\<lparr>IDs = ?m, Extra = [''prop''], Troubles = []\<rparr>"
  have m: "Mapping.keys ?m = {''w1'', ''a''}" by simp
  have "isName ''w1''" "isName ''a''" by code_simp+
  then have "replySound ?r" using m by (simp add: replySound_def Mapping.lookup_default_def Mapping.lookup_update')
  moreover have "formatUint 7 = ''7''" "formatUint 9 = ''9''" by code_simp+
  then have "EncodeReply ?r = ''reply a=7 w1=9''"
    by (simp add: EncodeReply_def Mapping.ordered_keys_def m Mapping.lookup_default_def Mapping.lookup_update')
  ultimately show ?thesis
    using reply_delivered[of ?r "NewScanner (''reply a=7 w1=9'' @ [char_of rNL]) EndOfFile" "[]"]
    by (simp add: NewScanner_def sendLine_def)
qed

text \<open>An id that does not fit an \<open>int64\<close> is written by \<open>EncodeReply\<close> as digits that are read back as
  something else than an integer, so \<open>DecodeReply\<close> refuses the reply.\<close>

lemma big_id_no_integer:
  "2 ^ 63 \<le> unat i \<Longrightarrow> numberValue (formatUint i) \<noteq> Some (IntValue j)"
  using parseInt_formatUint_big[of i] by (auto simp: numberValue_def split: option.splits)

text \<open>A complaint and a refusal cross with the words they were given, whatever bytes of text those
  are.\<close>

theorem trouble_error_delivered:
  assumes "valid_utf8 about" "valid_utf8 words"
  shows "(\<exists>st. Parse (EncodeTrouble \<lparr>About = about, Text = words\<rparr>) = Some (Inr (Script [st]))
      \<and> DecodeTrouble st = Inr \<lparr>About = about, Text = words\<rparr>)
    \<and> (\<exists>st. Parse (EncodeError words) = Some (Inr (Script [st])) \<and> DecodeError st = Inr words)"
  using complaint.round_trip[of "\<lparr>About = about, Text = words\<rparr>"] refusal.round_trip[of words] assms
  by (simp_all add: troubleSound_def)


theorem trouble_error_delivered_witness:
  "(\<exists>st. Parse ''trouble about=\"a\" text=\"b c\"'' = Some (Inr (Script [st]))
      \<and> DecodeTrouble st = Inr \<lparr>About = ''a'', Text = ''b c''\<rparr>)
   \<and> (\<exists>st. Parse ''error text=\"b c\"'' = Some (Inr (Script [st])) \<and> DecodeError st = Inr ''b c'')"
proof -
  have "EncodeTrouble \<lparr>About = ''a'', Text = ''b c''\<rparr> = ''trouble about=\"a\" text=\"b c\"''"
    "EncodeError ''b c'' = ''error text=\"b c\"''" "valid_utf8 ''a''" "valid_utf8 ''b c''" by code_simp+
  then show ?thesis using trouble_error_delivered[of "''a''" "''b c''"] by simp
qed

end
