(* ===== verification/WireEvent.thy ===== *)
theory WireEvent
  imports WireMessages
begin

text \<open>
  Events (\<open>wire/event.go\<close>): building one, reading its fields, its text, and the dispatcher that routes
  one to the handlers of an application.
\<close>

subsection \<open>Building and reading\<close>

record Event =
  Type :: string
  Fields :: "arg list"

definition NewEvent :: "string \<Rightarrow> Event" where
  "NewEvent eventType = \<lparr>Type = eventType, Fields = []\<rparr>"

definition withField :: "Event \<Rightarrow> arg \<Rightarrow> Event" where
  "withField e a = e\<lparr>Fields := Fields e @ [a]\<rparr>"

text \<open>\<open>int64(v)\<close> keeps the bits of a \<open>uint64\<close> or an \<open>int\<close>.\<close>

definition WithUint :: "string \<Rightarrow> u64 \<Rightarrow> Event \<Rightarrow> Event" where
  "WithUint name v e = withField e (Arg name FlagNone (Some (IntValue v)))"

definition WithInt :: "string \<Rightarrow> u64 \<Rightarrow> Event \<Rightarrow> Event" where
  "WithInt name v e = withField e (Arg name FlagNone (Some (IntValue v)))"

definition WithString :: "string \<Rightarrow> string \<Rightarrow> Event \<Rightarrow> Event" where
  "WithString name s e = withField e (Arg name FlagNone (Some (StringValue s False)))"

definition WithWord :: "string \<Rightarrow> string \<Rightarrow> Event \<Rightarrow> Event" where
  "WithWord name w e = withField e (Arg name FlagNone (Some (WordValue w)))"

definition WithFlag :: "string \<Rightarrow> flagState \<Rightarrow> Event \<Rightarrow> Event" where
  "WithFlag name state e = withField e (Arg name state None)"

definition WithBlob :: "string \<Rightarrow> string \<Rightarrow> Event \<Rightarrow> Event" where
  "WithBlob name b e = withField e (Arg name FlagNone (Some (StringValue b True)))"

text \<open>The argument of a name, and how one is read: these readers serve events and answers alike, the
  source writing the same body twice.\<close>

definition argNamed :: "string \<Rightarrow> arg list \<Rightarrow> arg option" where
  "argNamed name as = List.find (\<lambda>a. a_name a = name) as"

definition readUint :: "arg option \<Rightarrow> u64 option" where
  "readUint a =
     (case a of
        Some (Arg n fl (Some (IntValue i))) \<Rightarrow> (if sint i < 0 then None else Some i)
      | _ \<Rightarrow> None)"

definition readInt :: "arg option \<Rightarrow> u64 option" where
  "readInt a = (case a of Some (Arg n fl (Some (IntValue i))) \<Rightarrow> Some i | _ \<Rightarrow> None)"

definition readText :: "arg option \<Rightarrow> string option" where
  "readText a = (case a of Some (Arg n fl (Some (StringValue s blob))) \<Rightarrow> Some s | _ \<Rightarrow> None)"

definition readWord :: "arg option \<Rightarrow> string option" where
  "readWord a = (case a of Some (Arg n fl (Some (WordValue w))) \<Rightarrow> Some w | _ \<Rightarrow> None)"

definition readFlag :: "arg option \<Rightarrow> flagState" where
  "readFlag a = (case a of Some (Arg n fl None) \<Rightarrow> fl | _ \<Rightarrow> FlagNone)"

definition field :: "Event \<Rightarrow> string \<Rightarrow> arg option" where
  "field e name = argNamed name (Fields e)"

definition Uint :: "Event \<Rightarrow> string \<Rightarrow> u64 option" where "Uint e name = readUint (field e name)"
definition IntOf :: "Event \<Rightarrow> string \<Rightarrow> u64 option" where "IntOf e name = readInt (field e name)"
definition TextOf :: "Event \<Rightarrow> string \<Rightarrow> string option" where "TextOf e name = readText (field e name)"
definition Word :: "Event \<Rightarrow> string \<Rightarrow> string option" where "Word e name = readWord (field e name)"
definition Flag :: "Event \<Rightarrow> string \<Rightarrow> flagState" where "Flag e name = readFlag (field e name)"
definition BlobOf :: "Event \<Rightarrow> string \<Rightarrow> string option" where "BlobOf e name = TextOf e name"

definition Trinket :: "Event \<Rightarrow> u64 option" where
  "Trinket e =
     (case Uint e ''trinket'' of Some i \<Rightarrow> Some i | None \<Rightarrow>
      (case Uint e ''window'' of Some i \<Rightarrow> Some i | None \<Rightarrow>
       (case Uint e ''store'' of Some i \<Rightarrow> Some i | None \<Rightarrow> Uint e ''host'')))"

subsection \<open>Its text\<close>

definition EncodeEvent :: "Event \<Rightarrow> string" where
  "EncodeEvent e = ''event '' @ Type e @ encodeArgs (Fields e)"

datatype eventError =
    EventSyntax parseError
  | NotOneStatement nat
  | NotAnEvent
  | MissingType

definition eventOf :: "statement \<Rightarrow> eventError + Event" where
  "eventOf st =
     (if st_verb st \<noteq> ''event'' \<or> st_key st \<noteq> [] then Inl NotAnEvent
      else case st_args st of
             Arg name FlagTrue None # as \<Rightarrow> Inr \<lparr>Type = name, Fields = as\<rparr>
           | _ \<Rightarrow> Inl MissingType)"

text \<open>\<open>ParseEvent\<close>; \<open>None\<close> would be a parse that ran out of fuel.\<close>

definition ParseEvent :: "string \<Rightarrow> (eventError + Event) option" where
  "ParseEvent src =
     (case Parse src of
        None \<Rightarrow> None
      | Some (Inl e) \<Rightarrow> Some (Inl (EventSyntax e))
      | Some (Inr (Script [st])) \<Rightarrow> Some (eventOf st)
      | Some (Inr (Script sts)) \<Rightarrow> Some (Inl (NotOneStatement (length sts))))"

subsection \<open>An event is a codec\<close>

definition eventShape :: "Event \<Rightarrow> statement" where
  "eventShape e = Statement [] ''event'' [] 0 (Arg (Type e) FlagTrue None # Fields e)"

definition eventSound :: "Event \<Rightarrow> bool" where
  "eventSound e \<longleftrightarrow> isName (Type e)
     \<and> list_all (\<lambda>a. wf_arg a \<and> framed_arg a \<and> a_name a \<noteq> []) (Fields e)"

definition eventMeaning :: "Event \<Rightarrow> Event" where
  "eventMeaning e = e\<lparr>Fields := map readBackArg (Fields e)\<rparr>"

interpretation event: framed_codec eventShape EncodeEvent eventOf eventSound eventMeaning
proof unfold_locales
  fix e assume s: "eventSound e"
  have "isHead ''event''" by code_simp
  then show "wf_statement (eventShape e)" using s by (auto simp: eventShape_def eventSound_def list_all_iff)
  show "framed_statement (eventShape e)" using s by (auto simp: eventShape_def eventSound_def list_all_iff)
qed (simp_all add: EncodeEvent_def eventShape_def encodeArgs_def eventOf_def eventMeaning_def)

lemma readBackArg_named:
  "a_name a \<noteq> [] \<Longrightarrow> readBackArg a = Arg (a_name a) (a_flag a) (map_option readBack (a_value a))"
  by (cases a) (auto split: option.splits)

lemma argNamed_readBack:
  assumes "list_all (\<lambda>a. a_name a \<noteq> []) as"
  shows "argNamed n (map readBackArg as) = map_option readBackArg (argNamed n as)"
  using assms by (induction as) (auto simp: argNamed_def readBackArg_named)

lemma argNamed_name: "argNamed n as = Some a \<Longrightarrow> list_all (\<lambda>a. a_name a \<noteq> []) as \<Longrightarrow> a_name a \<noteq> []"
  by (induction as) (auto simp: argNamed_def split: if_splits)

lemma readers_readBack:
  assumes "\<And>a'. a = Some a' \<Longrightarrow> a_name a' \<noteq> []"
  shows "readUint (map_option readBackArg a) = readUint a" "readInt (map_option readBackArg a) = readInt a"
    "readText (map_option readBackArg a) = readText a" "readWord (map_option readBackArg a) = readWord a"
    "readFlag (map_option readBackArg a) = readFlag a"
proof -
  have c: "readBack v = v \<or> (\<exists>b. v = BlockValue b) \<or> (\<exists>s blob. v = StringValue s blob)" for v by (cases v) auto
  show "readUint (map_option readBackArg a) = readUint a" "readInt (map_option readBackArg a) = readInt a"
    "readText (map_option readBackArg a) = readText a" "readWord (map_option readBackArg a) = readWord a"
    "readFlag (map_option readBackArg a) = readFlag a"
    using assms c
    by (cases a; auto simp: readBackArg_named readUint_def readInt_def readText_def readWord_def readFlag_def
        split: option.splits wvalue.splits arg.splits; metis)+
qed


text \<open>Two events no reader can tell apart.\<close>

definition readsAlike :: "Event \<Rightarrow> Event \<Rightarrow> bool" where
  "readsAlike e e' \<longleftrightarrow> Type e = Type e' \<and> Trinket e = Trinket e' \<and>
     (\<forall>n. Uint e n = Uint e' n \<and> IntOf e n = IntOf e' n \<and> TextOf e n = TextOf e' n \<and> Word e n = Word e' n
        \<and> Flag e n = Flag e' n \<and> BlobOf e n = BlobOf e' n)"

lemma readsAlike_meaning:
  assumes "eventSound e" shows "readsAlike (eventMeaning e) e"
proof -
  have names: "list_all (\<lambda>a. a_name a \<noteq> []) (Fields e)" using assms by (auto simp: eventSound_def list_all_iff)
  have f: "field (eventMeaning e) n = map_option readBackArg (field e n)" for n
    using argNamed_readBack[OF names] by (simp add: field_def eventMeaning_def)
  have ne: "\<And>a. field e n = Some a \<Longrightarrow> a_name a \<noteq> []" for n using argNamed_name names by (auto simp: field_def)
  have readers: "Uint (eventMeaning e) n = Uint e n" "IntOf (eventMeaning e) n = IntOf e n"
    "TextOf (eventMeaning e) n = TextOf e n" "Word (eventMeaning e) n = Word e n" "Flag (eventMeaning e) n = Flag e n" for n
    using readers_readBack[of "field e n"] ne
    by (simp_all add: Uint_def IntOf_def TextOf_def Word_def Flag_def f)
  then show ?thesis by (simp add: readsAlike_def Trinket_def BlobOf_def readers cong: option.case_cong) (simp add: eventMeaning_def)
qed

text \<open>An event crosses the wire: its line is framed by the scanner, parses as an event, and every
  reader (\<open>Uint\<close>, \<open>Int\<close>, \<open>Text\<close>, \<open>Word\<close>, \<open>Flag\<close>, \<open>Blob\<close>, \<open>Trinket\<close>) answers for every name as it did on
  the event that was sent.\<close>

theorem event_delivered:
  assumes "eventSound e" "unread s = sendLine (EncodeEvent e) @ tail"
  shows "Next s = (ScanText (sendLine (EncodeEvent e)), s\<lparr>unread := tail\<rparr>)
    \<and> (\<exists>e'. ParseEvent (EncodeEvent e) = Some (Inr e') \<and> readsAlike e' e)"
  using event.next_frame[OF assms] event.parse_encode[OF assms(1)] event.decode_back[OF assms(1)]
    readsAlike_meaning[OF assms(1)] by (simp add: ParseEvent_def)

theorem event_delivered_witness:
  "\<exists>e'. ParseEvent ''event click window=17 at=\"(x) y\" !on'' = Some (Inr e') \<and> Trinket e' = Some 17
     \<and> TextOf e' ''at'' = Some ''(x) y'' \<and> Flag e' ''on'' = FlagFalse"
proof -
  let ?e = "WithFlag ''on'' FlagFalse (WithString ''at'' ''(x) y'' (WithUint ''window'' 17 (NewEvent ''click'')))"
  have e: "EncodeEvent ?e = ''event click window=17 at=\"(x) y\" !on''" "eventSound ?e" by code_simp+
  have r: "Trinket ?e = Some 17" "TextOf ?e ''at'' = Some ''(x) y''" "Flag ?e ''on'' = FlagFalse" by code_simp+
  have "unread (NewScanner (sendLine (EncodeEvent ?e)) EndOfFile) = sendLine (EncodeEvent ?e) @ []"
    by (simp add: NewScanner_def)
  from event_delivered[OF e(2) this] obtain e' where
    "ParseEvent (EncodeEvent ?e) = Some (Inr e')" "readsAlike e' ?e" by blast
  then show ?thesis using r unfolding e(1) readsAlike_def by auto
qed

subsection \<open>The dispatcher\<close>

text \<open>A handler is what an application passes to \<open>On\<close> or \<open>OnType\<close>; running one may change the
  dispatcher and whatever else it reaches, so \<open>run\<close> is a parameter.\<close>

record 'h EventDispatcher =
  byTrinket :: "u64 \<Rightarrow> (string \<Rightarrow> 'h list) option"
  byType :: "string \<Rightarrow> 'h list"

definition NewEventDispatcher :: "'h EventDispatcher" where
  "NewEventDispatcher = \<lparr>byTrinket = (\<lambda>i. None), byType = (\<lambda>t. [])\<rparr>"

definition On :: "u64 \<Rightarrow> string \<Rightarrow> 'h \<Rightarrow> 'h EventDispatcher \<Rightarrow> 'h EventDispatcher" where
  "On trinketID eventType fn d =
     (let m = (case byTrinket d trinketID of None \<Rightarrow> (\<lambda>t. []) | Some m \<Rightarrow> m) in
      d\<lparr>byTrinket := (byTrinket d)(trinketID \<mapsto> m(eventType := m eventType @ [fn]))\<rparr>)"

definition OnType :: "string \<Rightarrow> 'h \<Rightarrow> 'h EventDispatcher \<Rightarrow> 'h EventDispatcher" where
  "OnType eventType fn d = d\<lparr>byType := (byType d)(eventType := byType d eventType @ [fn])\<rparr>"

definition trinketHandlers :: "'h EventDispatcher \<Rightarrow> Event \<Rightarrow> 'h list" where
  "trinketHandlers d ev =
     (case Trinket ev of
        None \<Rightarrow> []
      | Some i \<Rightarrow> (case byTrinket d i of None \<Rightarrow> [] | Some m \<Rightarrow> m (Type ev)))"

text \<open>\<open>Dispatch\<close>: the handlers of the first loop are those subscribed when it starts, those of the
  second the ones subscribed when the first is over.\<close>

definition Dispatch ::
  "('h \<Rightarrow> Event \<Rightarrow> 'h EventDispatcher \<times> 's \<Rightarrow> 'h EventDispatcher \<times> 's) \<Rightarrow> Event
   \<Rightarrow> 'h EventDispatcher \<times> 's \<Rightarrow> bool \<times> 'h EventDispatcher \<times> 's" where
  "Dispatch run ev ds =
     (let first = trinketHandlers (fst ds) ev;
          ds1 = fold (\<lambda>fn. run fn ev) first ds;
          second = byType (fst ds1) (Type ev);
          ds2 = fold (\<lambda>fn. run fn ev) second ds1
      in (first \<noteq> [] \<or> second \<noteq> [], ds2))"

text \<open>The subscriptions an application made, in order, and the dispatcher they leave.\<close>

datatype 'h subscription = ToTrinket u64 string 'h | ToType string 'h

fun subscribeAll :: "'h subscription list \<Rightarrow> 'h EventDispatcher" where
  "subscribeAll subs = fold (\<lambda>s. case s of ToTrinket i t h \<Rightarrow> On i t h | ToType t h \<Rightarrow> OnType t h) subs NewEventDispatcher"

definition handlersFor :: "'h subscription list \<Rightarrow> Event \<Rightarrow> 'h list" where
  "handlersFor subs ev =
     concat (map (\<lambda>s. case s of ToTrinket i t h \<Rightarrow> (if Trinket ev = Some i \<and> t = Type ev then [h] else []) | ToType t h \<Rightarrow> []) subs)
     @ concat (map (\<lambda>s. case s of ToTrinket i t h \<Rightarrow> [] | ToType t h \<Rightarrow> (if t = Type ev then [h] else [])) subs)"

lemma trinketHandlers_On:
  "trinketHandlers (On i t h d) ev = trinketHandlers d ev @ (if Trinket ev = Some i \<and> t = Type ev then [h] else [])"
  by (auto simp: trinketHandlers_def On_def Let_def split: option.splits)

lemma trinketHandlers_OnType: "trinketHandlers (OnType t h d) ev = trinketHandlers d ev"
  by (simp add: trinketHandlers_def OnType_def split: option.splits)

lemma byType_On:
  "byType (On i t h d) = byType d"
  "byType (OnType t h d) u = byType d u @ (if t = u then [h] else [])"
  by (simp_all add: On_def OnType_def Let_def)

lemma subscribeAll_handlers:
  "trinketHandlers (subscribeAll subs) ev @ byType (subscribeAll subs) (Type ev) = handlersFor subs ev
   \<and> trinketHandlers (subscribeAll subs) ev =
     concat (map (\<lambda>s. case s of ToTrinket i t h \<Rightarrow> (if Trinket ev = Some i \<and> t = Type ev then [h] else []) | ToType t h \<Rightarrow> []) subs)"
proof (induction subs rule: rev_induct)
  case Nil
  then show ?case by (simp add: handlersFor_def trinketHandlers_def NewEventDispatcher_def split: option.splits)
next
  case (snoc s subs)
  then show ?case by (cases s) (auto simp: handlersFor_def trinketHandlers_On trinketHandlers_OnType byType_On)
qed

lemma fold_outer: "fold (\<lambda>fn (d, s). (d, act fn s)) hs (d, s) = (d, fold act hs s)"
  by (induction hs arbitrary: s) auto

text \<open>\<open>Dispatch\<close> runs exactly the handlers an event is for: those subscribed to its trinket and type,
  then those subscribed to its type, each group in the order it subscribed, each once, and it reports
  whether there was one (for handlers that leave the subscriptions alone).\<close>

theorem Dispatch_routes:
  assumes "\<And>fn d s. run fn ev (d, s) = (d, act fn s)"
  shows "Dispatch run ev (subscribeAll subs, s) =
    (handlersFor subs ev \<noteq> [], subscribeAll subs, fold act (handlersFor subs ev) s)"
proof -
  have run: "(\<lambda>fn. run fn ev) = (\<lambda>fn (d, s). (d, act fn s))" using assms by (auto simp: fun_eq_iff)
  have h: "handlersFor subs ev = trinketHandlers (subscribeAll subs) ev @ byType (subscribeAll subs) (Type ev)"
    using subscribeAll_handlers by metis
  show ?thesis by (simp only: Dispatch_def Let_def run fold_outer fst_conv h fold_append o_apply append_is_Nil_conv) simp
qed

theorem Dispatch_routes_witness:
  "Dispatch (\<lambda>fn ev (d, s). (d, s @ [fn])) (WithUint ''trinket'' 5 (NewEvent ''click''))
     (subscribeAll [ToType ''click'' (1::nat), ToTrinket 5 ''click'' 2, ToTrinket 6 ''click'' 3, ToTrinket 5 ''key'' 4], []) =
   (True, subscribeAll [ToType ''click'' 1, ToTrinket 5 ''click'' 2, ToTrinket 6 ''click'' 3, ToTrinket 5 ''key'' 4], [2, 1])"
proof -
  let ?ev = "WithUint ''trinket'' 5 (NewEvent ''click'')"
  let ?subs = "[ToType ''click'' (1::nat), ToTrinket 5 ''click'' 2, ToTrinket 6 ''click'' 3, ToTrinket 5 ''key'' 4]"
  have "handlersFor ?subs ?ev = [2, 1]" by code_simp
  then show ?thesis
    using Dispatch_routes[of "\<lambda>fn ev (d, s). (d, s @ [fn])" ?ev "\<lambda>fn s. s @ [fn]" ?subs "[]"] by simp
qed

end
