(* ===== verification/Serval.thy ===== *)
theory Serval
  imports WireEvent
begin

text \<open>
  What the query language of \<open>wire/query.go\<close> takes from the module \<open>serval\<close>, which is not part of this
  repository: the shapes it fills in, and the words and three methods it calls, which are the
  parameter \<open>lib\<close> of the definitions that use them. \<open>servalDocumented\<close> says what the documentation
  says of them.
\<close>

subsection \<open>Shapes\<close>

text \<open>A count that may be a floor (\<open>serval.Count\<close>), and the two totals of a record.\<close>

record count =
  cN :: u64
  cExact :: bool

record totals =
  Named' :: u64
  Ordered' :: u64

record Complete =
  Watermark :: "data option"
  Stop :: string
  First :: count
  Total :: count
  c_Error :: string

datatype filter = Filter (f_op: string) (f_field: string) (f_values: "data option list") (f_collate: string) (f_children: "filter list")

record SortLevel =
  l_field :: string
  Collation :: string
  Descending :: bool

record DataSetDescriptor =
  Source :: string
  d_fields :: "field list"
  Exclude :: "field list"
  d_filter :: "filter option"
  Sort :: "SortLevel list"

record Scope =
  Count :: u64
  From :: u64
  After :: "data option"
  Until :: "data option"
  Reversed :: bool

subsection \<open>Words and methods\<close>

datatype filterOp =
    OpAnd | OpOr | OpNot | OpID | OpEq | OpNe | OpLt | OpLe | OpGt | OpGe | OpIn | OpContains | OpStarts | OpEnds
  | OpHas | OpLacks

datatype stop = StopFilled | StopJoined | StopExhausted

datatype collation = CollateExact | CollateFold | CollateNatural

datatype change = Added | Removed | Replaced | Altered

record servalLib =
  opWord :: "filterOp \<Rightarrow> string"
  stopWord :: "stop \<Rightarrow> string"
  collateWord :: "collation \<Rightarrow> string"
  changeWord :: "change \<Rightarrow> string"
  totalNothing :: "count \<Rightarrow> bool"
  exactly :: "u64 \<Rightarrow> count"

definition filterOps :: "filterOp list" where
  "filterOps = [OpAnd, OpOr, OpNot, OpID, OpEq, OpNe, OpLt, OpLe, OpGt, OpGe, OpIn, OpContains, OpStarts, OpEnds, OpHas, OpLacks]"

definition stops :: "stop list" where
  "stops = [StopFilled, StopJoined, StopExhausted]"

definition collations :: "collation list" where
  "collations = [CollateExact, CollateFold, CollateNatural]"

definition changes :: "change list" where
  "changes = [Added, Removed, Replaced, Altered]"

text \<open>A \<open>switch\<close> on a word over the constants of the library.\<close>

definition constNamed :: "('k \<Rightarrow> string) \<Rightarrow> 'k list \<Rightarrow> string \<Rightarrow> 'k option" where
  "constNamed wordOf ks w = List.find (\<lambda>k. wordOf k = w) ks"

lemma constNamed_word:
  "distinct (map wordOf ks) \<Longrightarrow> k \<in> set ks \<Longrightarrow> constNamed wordOf ks (wordOf k) = Some k"
  by (induction ks) (auto simp: constNamed_def)

lemma constNamed_None: "w \<notin> set (map wordOf ks) \<Longrightarrow> constNamed wordOf ks w = None"
  by (induction ks) (auto simp: constNamed_def)

text \<open>The names a result and a sort level reserve beside the words of the library; a Go \<open>switch\<close> over
  constants that were not distinct would not compile.\<close>

definition resultArgs :: "string list" where
  "resultArgs = [''ordered'', ''id'', ''record'', ''fields'', ''map'', ''len'', ''complete'', ''watermark'', ''total'', ''first'',
     ''exact'', ''error'']"

definition servalDocumented :: "servalLib \<Rightarrow> bool" where
  "servalDocumented lib \<longleftrightarrow>
     distinct (map (opWord lib) filterOps) \<and> list_all isName (map (opWord lib) filterOps)
     \<and> distinct (resultArgs @ map (stopWord lib) stops) \<and> list_all isName (map (stopWord lib) stops)
     \<and> distinct ([''asc'', ''desc'', ''collate''] @ map (collateWord lib) collations) \<and> list_all isName (map (collateWord lib) collations)
     \<and> distinct (map (changeWord lib) changes) \<and> list_all (\<lambda>w. isName w \<and> IsWord w) (map (changeWord lib) changes)
     \<and> (\<forall>c. totalNothing lib c \<longleftrightarrow> cN c = 0 \<and> \<not> cExact c)
     \<and> (\<forall>n. exactly lib n = \<lparr>cN = n, cExact = True\<rparr>)"

text \<open>The words as the other implementations of the language in this repository spell them
  (\<open>python/kittytk/query.py\<close>, \<open>testdata/query.wire\<close>): the instance the examples run on.\<close>

definition spelled :: servalLib where
  "spelled = \<lparr>
     opWord = (\<lambda>k. case k of OpAnd \<Rightarrow> ''and'' | OpOr \<Rightarrow> ''or'' | OpNot \<Rightarrow> ''not'' | OpID \<Rightarrow> ''id'' | OpEq \<Rightarrow> ''eq''
        | OpNe \<Rightarrow> ''ne'' | OpLt \<Rightarrow> ''lt'' | OpLe \<Rightarrow> ''le'' | OpGt \<Rightarrow> ''gt'' | OpGe \<Rightarrow> ''ge'' | OpIn \<Rightarrow> ''in''
        | OpContains \<Rightarrow> ''contains'' | OpStarts \<Rightarrow> ''starts'' | OpEnds \<Rightarrow> ''ends'' | OpHas \<Rightarrow> ''has'' | OpLacks \<Rightarrow> ''lacks''),
     stopWord = (\<lambda>k. case k of StopFilled \<Rightarrow> ''filled'' | StopJoined \<Rightarrow> ''joined'' | StopExhausted \<Rightarrow> ''exhausted''),
     collateWord = (\<lambda>k. case k of CollateExact \<Rightarrow> ''exact'' | CollateFold \<Rightarrow> ''fold'' | CollateNatural \<Rightarrow> ''natural''),
     changeWord = (\<lambda>k. case k of Added \<Rightarrow> ''added'' | Removed \<Rightarrow> ''removed'' | Replaced \<Rightarrow> ''replaced'' | Altered \<Rightarrow> ''altered''),
     totalNothing = (\<lambda>c. cN c = 0 \<and> \<not> cExact c),
     exactly = (\<lambda>n. \<lparr>cN = n, cExact = True\<rparr>)\<rparr>"

lemma servalDocumented_spelled: "servalDocumented spelled"
proof -
  have "distinct (map (opWord spelled) filterOps)" "list_all isName (map (opWord spelled) filterOps)"
    "distinct (resultArgs @ map (stopWord spelled) stops)" "list_all isName (map (stopWord spelled) stops)"
    "distinct ([''asc'', ''desc'', ''collate''] @ map (collateWord spelled) collations)"
    "list_all isName (map (collateWord spelled) collations)"
    "distinct (map (changeWord spelled) changes)"
    "list_all (\<lambda>w. isName w \<and> IsWord w) (map (changeWord spelled) changes)" by code_simp+
  moreover have "totalNothing spelled c \<longleftrightarrow> cN c = 0 \<and> \<not> cExact c" "exactly spelled n = \<lparr>cN = n, cExact = True\<rparr>" for c n
    by (simp_all add: spelled_def)
  ultimately show ?thesis unfolding servalDocumented_def by blast
qed

end
