(* ===== verification/WireFields.thy ===== *)
theory WireFields
  imports Serval
begin

text \<open>
  Field bags and operands (\<open>wire/query.go\<close>, first part): a bag of fields in both its forms, an
  operand read as a value, and the name of the field a predicate tests.
\<close>

subsection \<open>Errors\<close>

text \<open>What \<open>fmt.Errorf\<close> makes: a format with the texts it quotes, or (\<open>In\<close>) an error wrapped in the
  name of what it is about (\<open>"%s: %w"\<close>).\<close>

datatype goError = Errorf string "string list" | In string goError

fun ebind :: "goError + 'a \<Rightarrow> ('a \<Rightarrow> goError + 'b) \<Rightarrow> goError + 'b" where
  "ebind (Inl e) f = Inl e"
| "ebind (Inr x) f = f x"

text \<open>A loop that reads one item after another and stops at the first error.\<close>

fun traverse :: "('a \<Rightarrow> goError + 'b) \<Rightarrow> 'a list \<Rightarrow> goError + 'b list" where
  "traverse f [] = Inr []"
| "traverse f (x # xs) = ebind (f x) (\<lambda>y. ebind (traverse f xs) (\<lambda>ys. Inr (y # ys)))"

lemma traverse_map: "(\<And>x. x \<in> set xs \<Longrightarrow> f (g x) = Inr (h x)) \<Longrightarrow> traverse f (map g xs) = Inr (map h xs)"
  by (induction xs) auto

lemma traverse_cong [fundef_cong]:
  "xs = ys \<Longrightarrow> (\<And>x. x \<in> set ys \<Longrightarrow> f x = g x) \<Longrightarrow> traverse f xs = traverse g ys"
  by (induction xs arbitrary: ys) auto

subsection \<open>Operands\<close>

definition operandValue :: "string \<Rightarrow> arg \<Rightarrow> goError + wvalue" where
  "operandValue what a =
     (case a_value a of
        Some v \<Rightarrow> (if a_name a \<noteq> [] then Inl (Errorf ''%s: no argument called %q'' [what, a_name a]) else Inr v)
      | None \<Rightarrow>
          (if a_flag a \<noteq> FlagTrue then Inl (Errorf ''%s: %q is asserted, not valued'' [what, a_name a]) else Inr (NewWord (a_name a))))"

definition operandField :: "string \<Rightarrow> arg \<Rightarrow> goError + string" where
  "operandField what a =
     (case a_value a of
        None \<Rightarrow> (if a_flag a \<noteq> FlagTrue then Inl (Errorf ''%s: %q is asserted, and a field is named'' [what, a_name a]) else Inr (a_name a))
      | Some v \<Rightarrow>
          (if a_name a \<noteq> [] then Inl (Errorf ''%s: names its field first, not %s='' [what, a_name a])
           else case v of
                  WordValue w \<Rightarrow> Inr w
                | IntValue i \<Rightarrow> Inr (formatInt i)
                | StringValue s False \<Rightarrow> Inr s
                | _ \<Rightarrow> Inl (Errorf ''%s: %s is not a field name'' [what, EncodeValue v])))"

text \<open>\<open>encodeFieldName\<close>, by way of the operand it writes.\<close>

definition fieldOperand :: "string \<Rightarrow> wvalue" where
  "fieldOperand name =
     (if name = [] \<or> containsAny name [char_of rRPAR, char_of rNL] then StringValue name False
      else NewWord name)"

definition encodeFieldName :: "string \<Rightarrow> string" where
  "encodeFieldName name =
     (if name = [] \<or> containsAny name [char_of rRPAR, char_of rNL] then quoteString name
      else EncodeValue (NewWord name))"

lemma encodeFieldName_operand: "encodeFieldName name = EncodeValue (fieldOperand name)"
  by (simp add: encodeFieldName_def fieldOperand_def)

subsection \<open>Bags of fields\<close>

definition parseField :: "statement \<Rightarrow> goError + field" where
  "parseField st =
     (if st_verb st = [] then Inl (Errorf ''a field is a name, and %q is not one'' [EncodeStatement st])
      else case st_args st of
             [] \<Rightarrow> Inr (Field (st_verb st) None)
           | [a] \<Rightarrow> ebind (operandValue (st_verb st) a) (\<lambda>v. Inr (Field (st_verb st) (asData v)))
           | as \<Rightarrow> Inl (Errorf ''%s: a field carries one value, not %d'' [st_verb st, showNat (length as)]))"

definition parseFieldList :: "string \<Rightarrow> goError + field list" where
  "parseFieldList txt =
     (if trimSpace txt = [] then Inr []
      else traverse (\<lambda>piece. let name = trimSpace piece in
             if name = [] then Inl (Errorf ''%q: a field list holds names, and one of these is empty'' [txt]) else Inr (Field name None)) (splitOn CHR '','' txt))"

text \<open>\<open>ParseFields\<close>; a nil record and an empty one are the same here, the source making no record that
  is empty and not nil.\<close>

definition ParseFields :: "wvalue option \<Rightarrow> goError + field list" where
  "ParseFields v =
     (case v of
        Some (StringValue s blob) \<Rightarrow> parseFieldList s
      | Some (BlockValue (Script sts)) \<Rightarrow> traverse parseField sts
      | _ \<Rightarrow> Inl (Errorf ''expected a block of fields or a list of names'' []))"

definition EncodeRecord :: "field list \<Rightarrow> string" where
  "EncodeRecord r = EncodeValue (BlockValue (asScript r))"

subsection \<open>Data that crosses\<close>

text \<open>Data an operand carries to the other side: it has a spelling that is not torn, and its symbols
  are not the four value words. Bytes arrive as text and are left out. In a list inside a list a bare
  word would be lost: the field statement there is read by \<open>asRecord\<close>, which looks for operands
  that carry a value (\<open>sturdy True\<close>).\<close>

fun sturdy :: "bool \<Rightarrow> data \<Rightarrow> bool"
  and sturdyField :: "field \<Rightarrow> bool"
where
  "sturdy inner DNil = (\<not> inner)"
| "sturdy inner (DBool b) = (\<not> inner)"
| "sturdy inner (DInt i) = True"
| "sturdy inner (DFloat f) = floatReadsBack f"
| "sturdy inner (DSymbol w) =
     (w \<notin> valueWords \<and> (if IsWord w then isName w \<and> \<not> inner else protectable w \<and> list_all plainByte w))"
| "sturdy inner (DText s) = valid_utf8 s"
| "sturdy inner (DBytes b) = False"
| "sturdy inner (DList fs) = list_all sturdyField fs"
| "sturdyField (Field name v) = (isHead name \<and> (case v of None \<Rightarrow> True | Some d \<Rightarrow> sturdy True d))"

definition carried :: "data option \<Rightarrow> bool" where
  "carried v = (case v of None \<Rightarrow> True | Some d \<Rightarrow> sturdy False d)"

lemma value_words:
  "IsWord WordUndefined" "IsWord WordNil" "IsWord WordTrue" "IsWord WordFalse"
  "isName WordUndefined" "isName WordNil" "isName WordTrue" "isName WordFalse"
  by code_simp+

lemma isName_not_torn: "isName w \<Longrightarrow> \<not> torn (WordValue w)"
  by (simp add: torn_def)

lemma torn_simps [simp]:
  "\<not> torn (IntValue i)" "\<not> torn (FloatValue f)" "\<not> torn (StringValue s blob)" "\<not> torn (BlockValue b)"
  by (simp_all add: torn_def)

lemma sturdy_spelled:
  "sturdy inner d \<Longrightarrow> wf_value (asWire d) \<and> framed_value (asWire d) \<and> \<not> torn (asWire d) \<and> (inner \<longrightarrow> \<not> bareName (asWire d))"
  "sturdyField f \<Longrightarrow> wf_statement (asStatement f) \<and> framed_statement (asStatement f)"
proof (induction inner d and f rule: sturdy_sturdyField.induct)
  case (5 inner w)
  then show ?case
    by (auto simp: NewWord_def framedWord_def bareName_def torn_def split: if_splits)
next
  case (8 inner fs)
  then show ?case by (auto simp: list_all_iff)
next
  case (9 name v)
  then show ?case by (cases v) (auto simp: isHead_def)
qed (auto simp: NewWord_def NewInt_def NewFloat_def NewString_def value_words framedWord_def isName_not_torn)

lemma sturdy_namesOnly: "sturdy inner d \<Longrightarrow> namesOnly d" "sturdyField f \<Longrightarrow> namesOnlyField f"
proof (induction inner d and f rule: sturdy_sturdyField.induct)
  case (9 name v)
  then show ?case by (cases v) auto
qed (auto simp: list_all_iff)

text \<open>Inside a list nothing changes on the way.\<close>

lemma sturdy_unchanged:
  "sturdy inner d \<Longrightarrow> readBack (asWire d) = asWire d"
  "sturdyField f \<Longrightarrow> readBackStatement (asStatement f) = asStatement f"
proof (induction inner d and f rule: sturdy_sturdyField.induct)
  case (8 inner fs)
  then show ?case by (auto simp: list_all_iff)
next
  case (9 name v)
  show ?case
  proof (cases v)
    case (Some d)
    then show ?thesis using 9 sturdy_spelled(1)[of True d] by auto
  qed (use 9 in simp)
qed (auto simp: NewWord_def NewInt_def NewFloat_def NewString_def)

lemma operand_reads:
  assumes "carried v"
  shows "ebind (operandValue what (readBackArg (Arg [] FlagNone (Some (asWirePtr v))))) (\<lambda>w. Inr (asData w)) = Inr v"
proof (cases v)
  case None
  then show ?thesis by (simp add: asWirePtr_def operandValue_def bareName_def NewWord_def value_words)
next
  case (Some d)
  then have d: "sturdy False d" using assms by (simp add: carried_def)
  note r = sturdy_unchanged(1)[OF d] asData_asWire(1)[OF sturdy_namesOnly(1)[OF d]]
  show ?thesis
  proof (cases "bareName (asWire d)")
    case True
    then obtain w where w: "asWire d = WordValue w" by (auto simp: bareName_def split: wvalue.splits)
    then show ?thesis using True Some r by (simp add: asWirePtr_def operandValue_def NewWord_def)
  next
    case False
    then show ?thesis using Some r by (simp add: asWirePtr_def operandValue_def)
  qed
qed

lemma carried_spelled: "carried v \<Longrightarrow> wf_value (asWirePtr v) \<and> framed_value (asWirePtr v) \<and> \<not> torn (asWirePtr v)"
  using sturdy_spelled(1)[of False]
  by (auto simp: carried_def asWirePtr_def NewWord_def value_words framedWord_def isName_not_torn split: option.splits)


subsection \<open>A bag is read as it was written\<close>

definition bagSound :: "field list \<Rightarrow> bool" where
  "bagSound r \<longleftrightarrow> list_all (\<lambda>f. isHead (f_name f) \<and> carried (f_value f)) r"

lemma bag_spelled:
  assumes "bagSound r" shows "wf_value (BlockValue (asScript r)) \<and> framed_value (BlockValue (asScript r))"
proof -
  have "wf_statement (asStatement f) \<and> framed_statement (asStatement f)" if "f \<in> set r" for f
  proof -
    obtain n v where f: "f = Field n v" by (cases f)
    then have "isHead n" "carried v" using assms that by (auto simp: bagSound_def list_all_iff carried_def)
    then show ?thesis unfolding f using carried_spelled[of v]
      by (cases v) (auto simp: asWirePtr_def isHead_def)
  qed
  then show ?thesis by (simp add: asScript_def list_all_iff)
qed

lemma parseField_written:
  assumes "isHead (f_name f)" "carried (f_value f)"
  shows "parseField (readBackStatement (asStatement f)) = Inr f"
proof -
  obtain n v where f: "f = Field n v" by (cases f)
  then have n: "n \<noteq> []" using assms(1) by (simp add: isHead_def)
  show ?thesis
  proof (cases v)
    case None
    then show ?thesis by (simp add: f parseField_def n)
  next
    case (Some d)
    have "ebind (operandValue n (readBackArg (Arg [] FlagNone (Some (asWire d))))) (\<lambda>w. Inr (asData w)) = Inr (Some d)"
      using operand_reads[of v n] assms(2) Some f by (simp add: asWirePtr_def)
    moreover have "ebind (ebind m (\<lambda>w. Inr (asData w))) (\<lambda>x. Inr (Field n x)) = ebind m (\<lambda>w. Inr (Field n (asData w)))" for m
      by (cases m) auto
    ultimately have "ebind (operandValue n (readBackArg (Arg [] FlagNone (Some (asWire d))))) (\<lambda>w. Inr (Field n (asData w))) = Inr (Field n (Some d))"
      by (metis ebind.simps(2))
    then show ?thesis using n by (simp add: f Some parseField_def)
  qed
qed

lemma ParseFields_written:
  assumes "bagSound r"
  shows "ParseFields (Some (readBack (BlockValue (asScript r)))) = Inr r"
proof -
  have "traverse parseField (map (\<lambda>f. readBackStatement (asStatement f)) r) = Inr (map (\<lambda>f. f) r)"
    using assms by (intro traverse_map parseField_written) (auto simp: bagSound_def list_all_iff carried_def)
  then show ?thesis by (simp add: ParseFields_def asScript_def comp_def)
qed

text \<open>The short form: names separated by commas.\<close>

lemma splitOn_join:
  assumes "names \<noteq> []" "\<forall>n \<in> set names. CHR '','' \<notin> set n"
  shows "splitOn CHR '','' (join '','' names) = names"
proof -
  have one: "CHR '','' \<notin> set n \<Longrightarrow> splitOn CHR '','' n = [n]" for n by (induction n) auto
  have step: "CHR '','' \<notin> set n \<Longrightarrow> splitOn CHR '','' (n @ CHR '','' # t) = n # splitOn CHR '','' t" for n t
    by (induction n) auto
  from assms show ?thesis by (induction "'',''" names rule: join.induct) (auto simp: one step)
qed

end
