(* ===== verification/WireQuery.thy ===== *)
theory WireQuery
  imports WireFields
begin

text \<open>
  A query in structured form (\<open>wire/query.go\<close>): filters, sort levels, the descriptor they belong to and
  the scope of one question, each with its reader and its writer.
\<close>

subsection \<open>Sort levels\<close>

text \<open>The switch on one argument of a level, in the order of its cases.\<close>

definition sortArg :: "servalLib \<Rightarrow> string \<Rightarrow> arg \<Rightarrow> SortLevel \<Rightarrow> goError + SortLevel" where
  "sortArg lib verb a level =
     (case a_value a of
        Some v \<Rightarrow>
          (case v of
             WordValue w \<Rightarrow>
               (if a_name a = ''collate'' then Inr (level\<lparr>Collation := w\<rparr>)
                else Inl (Errorf ''%s: no argument called %q'' [verb, a_name a]))
           | _ \<Rightarrow> Inl (Errorf ''%s: no argument called %q'' [verb, a_name a]))
      | None \<Rightarrow>
          (if a_name a = ''desc'' then Inr (level\<lparr>Descending := (a_flag a = FlagTrue)\<rparr>)
           else if a_name a = ''asc'' then Inr (level\<lparr>Descending := (a_flag a \<noteq> FlagTrue)\<rparr>)
           else if constNamed (collateWord lib) collations (a_name a) \<noteq> None then Inr (level\<lparr>Collation := a_name a\<rparr>)
           else Inl (Errorf ''%s: %q says nothing about a sort level'' [verb, a_name a])))"

fun sortArgs :: "servalLib \<Rightarrow> string \<Rightarrow> arg list \<Rightarrow> SortLevel \<Rightarrow> goError + SortLevel" where
  "sortArgs lib verb [] level = Inr level"
| "sortArgs lib verb (a # as) level = ebind (sortArg lib verb a level) (sortArgs lib verb as)"

definition parseLevel :: "servalLib \<Rightarrow> statement \<Rightarrow> goError + SortLevel" where
  "parseLevel lib st =
     (if st_verb st = [] then Inl (Errorf ''a level names a field'' [])
      else sortArgs lib (st_verb st) (st_args st) \<lparr>l_field = st_verb st, Collation = [], Descending = False\<rparr>)"

definition ParseSort :: "servalLib \<Rightarrow> wvalue option \<Rightarrow> goError + SortLevel list" where
  "ParseSort lib v =
     (case v of
        Some (BlockValue (Script sts)) \<Rightarrow> traverse (parseLevel lib) sts
      | _ \<Rightarrow> Inl (Errorf ''expected a block'' []))"

text \<open>The block the encoders end with.\<close>

definition braced :: "string list \<Rightarrow> string" where
  "braced parts = (if parts = [] then ''{}'' else ''{ '' @ join ''; '' parts @ '' }'')"

definition encodeLevel :: "SortLevel \<Rightarrow> string" where
  "encodeLevel l =
     l_field l @ (if Collation l \<noteq> [] then '' '' @ Collation l else []) @ (if Descending l then '' desc'' else [])"

definition EncodeSort :: "SortLevel list \<Rightarrow> string" where
  "EncodeSort levels = braced (map encodeLevel levels)"

definition levelShape :: "SortLevel \<Rightarrow> statement" where
  "levelShape l = Statement [] (l_field l) [] 0
     ((if Collation l \<noteq> [] then [Arg (Collation l) FlagTrue None] else [])
      @ (if Descending l then [Arg ''desc'' FlagTrue None] else []))"

definition sortShape :: "SortLevel list \<Rightarrow> wvalue" where
  "sortShape levels = BlockValue (Script (map levelShape levels))"

definition levelSound :: "servalLib \<Rightarrow> SortLevel \<Rightarrow> bool" where
  "levelSound lib l \<longleftrightarrow> isHead (l_field l) \<and> (Collation l = [] \<or> Collation l \<in> set (map (collateWord lib) collations))"

lemma braced_block:
  "(\<And>x. x \<in> set xs \<Longrightarrow> enc x = EncodeStatement (shape x)) \<Longrightarrow> (\<And>x. x \<in> set xs \<Longrightarrow> enc x \<noteq> []) \<Longrightarrow>
   braced (map enc xs) = EncodeValue (BlockValue (Script (map shape xs)))"
proof -
  assume e: "\<And>x. x \<in> set xs \<Longrightarrow> enc x = EncodeStatement (shape x)" and ne: "\<And>x. x \<in> set xs \<Longrightarrow> enc x \<noteq> []"
  have m: "EncodeScript (Script (map shape xs)) = join ''; '' (map enc xs)"
    using e by (simp add: comp_def cong: map_cong)
  have "join ''; '' (map enc xs) \<noteq> []" if "xs \<noteq> []"
    using that ne by (cases xs; cases "tl xs") auto
  then show ?thesis unfolding EncodeValue.simps m by (cases "xs = []") (simp_all add: braced_def Let_def)
qed

lemma isHead_ne: "isHead w \<Longrightarrow> w \<noteq> []"
  by (simp add: isHead_def)

lemma isName_ne: "isName w \<Longrightarrow> w \<noteq> []"
  by (simp add: isName_def)

lemma isName_desc [simp]: "isName ''desc''"
  by code_simp

lemma EncodeSort_shape:
  assumes "\<forall>l \<in> set levels. levelSound lib l"
  shows "EncodeSort levels = EncodeValue (sortShape levels)"
  unfolding EncodeSort_def sortShape_def using assms
  by (intro braced_block) (auto simp: encodeLevel_def levelShape_def levelSound_def dest: isHead_ne)

lemma collate_names:
  assumes "servalDocumented lib" "w \<in> set (map (collateWord lib) collations)"
  shows "isName w" "w \<noteq> ''desc''" "w \<noteq> ''asc''" "constNamed (collateWord lib) collations w \<noteq> None"
  using assms constNamed_word[of "collateWord lib" collations]
  by (auto simp: servalDocumented_def list_all_iff collations_def)

lemma sortShape_spelled:
  assumes "servalDocumented lib" "\<forall>l \<in> set levels. levelSound lib l"
  shows "wf_value (sortShape levels) \<and> framed_value (sortShape levels) \<and> readBack (sortShape levels) = sortShape levels"
proof -
  have "wf_statement (levelShape l) \<and> framed_statement (levelShape l) \<and> readBackStatement (levelShape l) = levelShape l"
    if "l \<in> set levels" for l
    using assms that collate_names(1)[OF assms(1), of "Collation l"] isHead_ne[of "l_field l"]
    by (auto simp: levelShape_def levelSound_def)
  then show ?thesis by (auto simp: sortShape_def list_all_iff)
qed

lemma ParseSort_written:
  assumes "servalDocumented lib" "\<forall>l \<in> set levels. levelSound lib l"
  shows "ParseSort lib (Some (sortShape levels)) = Inr levels"
proof -
  have "parseLevel lib (levelShape l) = Inr l" if "l \<in> set levels" for l
  proof -
    have "levelSound lib l" using assms that by blast
    then show ?thesis using collate_names[OF assms(1), of "Collation l"] isHead_ne[of "l_field l"]
      by (cases "Collation l = []") (auto simp: parseLevel_def levelShape_def sortArg_def levelSound_def)
  qed
  then have "traverse (parseLevel lib) (map levelShape levels) = Inr (map (\<lambda>l. l) levels)" by (intro traverse_map) auto
  then show ?thesis by (simp add: ParseSort_def sortShape_def)
qed


text \<open>A collation that is not one of the three is read with \<open>collate=\<close> and written as a bare flag, which
  is refused.\<close>

lemma collation_lost:
  "ParseSort spelled (Some (BlockValue (Script [Statement [] ''name'' [] 0 [Arg ''collate'' FlagNone (Some (WordValue ''swedish''))]])))
     = Inr [\<lparr>l_field = ''name'', Collation = ''swedish'', Descending = False\<rparr>]"
  "EncodeSort [\<lparr>l_field = ''name'', Collation = ''swedish'', Descending = False\<rparr>] = ''{ name swedish }''"
  "ParseSort spelled (Some (BlockValue (Script [Statement [] ''name'' [] 0 [Arg ''swedish'' FlagTrue None]])))
     = Inl (Errorf ''%s: %q says nothing about a sort level'' [''name'', ''swedish''])"
  by code_simp+

subsection \<open>Filters\<close>

text \<open>\<open>parseID\<close>.\<close>

definition idArg :: "arg \<Rightarrow> goError + data option" where
  "idArg a =
     (case a_value a of
        None \<Rightarrow> Inl (Errorf ''id: %q names no identity; write the identities as values'' [a_name a])
      | Some v \<Rightarrow>
          (if a_name a \<noteq> [] then Inl (Errorf ''id: takes identities, not %s='' [a_name a])
           else if isBlock v then Inl (Errorf ''id: an identity is a value, not a block'' [])
           else Inr (asData v)))"

definition parseID :: "string \<Rightarrow> arg list \<Rightarrow> goError + filter" where
  "parseID op args =
     ebind (traverse idArg args) (\<lambda>vs.
       if vs = [] then Inl (Errorf ''id: takes at least one identity'' [])
       else Inr (Filter op [] vs [] []))"

text \<open>The loop of \<open>parsePredicate\<close> over the operands of a comparison, and what it checks after.\<close>

record predicate =
  p_field :: string
  p_values :: "data option list"
  p_collate :: string
  p_named :: bool

definition setItem :: "statement \<Rightarrow> goError + data option" where
  "setItem item =
     (if st_verb item = [] \<or> st_args item \<noteq> []
      then Inl (Errorf ''in: a set holds bare names; write other values after the field'' [])
      else Inr (Some (DSymbol (st_verb item))))"

definition predicateArg :: "filterOp \<Rightarrow> string \<Rightarrow> arg \<Rightarrow> predicate \<Rightarrow> goError + predicate" where
  "predicateArg op verb a f =
     (if a_name a = ''collate'' \<and> a_value a \<noteq> None then
        (case a_value a of
           Some (WordValue w) \<Rightarrow> Inr (f\<lparr>p_collate := w\<rparr>)
         | _ \<Rightarrow> Inl (Errorf ''%s: collate= expects a word'' [verb]))
      else if \<not> p_named f then
        ebind (operandField verb a) (\<lambda>name. Inr (f\<lparr>p_field := name, p_named := True\<rparr>))
      else case a_value a of
        Some (BlockValue (Script items)) \<Rightarrow>
          (if op \<noteq> OpIn then Inl (Errorf ''%s %s: compares against a value, not a block'' [verb, p_field f])
           else ebind (traverse setItem items) (\<lambda>vs. Inr (f\<lparr>p_values := p_values f @ vs\<rparr>)))
      | _ \<Rightarrow> ebind (operandValue verb a) (\<lambda>v. Inr (f\<lparr>p_values := p_values f @ [asData v]\<rparr>)))"

fun predicateArgs :: "filterOp \<Rightarrow> string \<Rightarrow> arg list \<Rightarrow> predicate \<Rightarrow> goError + predicate" where
  "predicateArgs op verb [] f = Inr f"
| "predicateArgs op verb (a # as) f = ebind (predicateArg op verb a f) (predicateArgs op verb as)"

definition comparison :: "filterOp \<Rightarrow> string \<Rightarrow> arg list \<Rightarrow> goError + filter" where
  "comparison op verb args =
     ebind (predicateArgs op verb args \<lparr>p_field = [], p_values = [], p_collate = [], p_named = False\<rparr>) (\<lambda>f.
       let node = Filter verb (p_field f) (p_values f) (p_collate f) [] in
       if p_field f = [] then Inl (Errorf ''%s: names no field'' [verb])
       else if op = OpHas \<or> op = OpLacks then
         (if p_values f \<noteq> [] then
            Inl (Errorf ''%s %s: asks whether the field is there, and takes no value'' [verb, p_field f])
          else Inr node)
       else if p_values f = [] then Inl (Errorf ''%s %s: nothing to compare against'' [verb, p_field f])
       else if op \<noteq> OpIn \<and> 1 < length (p_values f) then
         Inl (Errorf ''%s %s: compares against one value, not %d'' [verb, p_field f, showNat (length (p_values f))])
       else Inr node)"

fun parseFilterBlock :: "servalLib \<Rightarrow> script \<Rightarrow> string \<Rightarrow> goError + filter"
  and parsePredicate :: "servalLib \<Rightarrow> statement \<Rightarrow> goError + filter"
where
  "parseFilterBlock lib (Script sts) op =
     ebind (traverse (parsePredicate lib) sts) (\<lambda>cs. Inr (Filter op [] [] [] cs))"
| "parsePredicate lib (Statement key verb ref refid args) =
     (case constNamed (opWord lib) filterOps verb of
        None \<Rightarrow> Inl (Errorf ''no filter operator called %q'' [verb])
      | Some op \<Rightarrow>
          (if op = OpAnd \<or> op = OpOr \<or> op = OpNot then
             (case args of
                [Arg name flag (Some (BlockValue b))] \<Rightarrow>
                  ebind (parseFilterBlock lib b verb) (\<lambda>inner.
                    if op = OpNot \<and> f_children inner = [] then Inl (Errorf ''not: takes something to negate'' [])
                    else Inr inner)
              | _ \<Rightarrow> Inl (Errorf ''%s: takes one block'' [verb]))
           else if op = OpID then parseID verb args
           else comparison op verb args))"

definition ParseFilter :: "servalLib \<Rightarrow> wvalue option \<Rightarrow> goError + filter" where
  "ParseFilter lib v =
     (case v of
        Some (BlockValue b) \<Rightarrow> parseFilterBlock lib b (opWord lib OpAnd)
      | _ \<Rightarrow> Inl (Errorf ''expected a block'' []))"

fun encodeFilterStatement :: "servalLib \<Rightarrow> filter \<Rightarrow> string" where
  "encodeFilterStatement lib (Filter op fld vals collate children) =
     (if op = opWord lib OpAnd \<or> op = opWord lib OpOr \<or> op = opWord lib OpNot
      then op @ '' '' @ braced (map (encodeFilterStatement lib) children)
      else op
        @ (if op \<noteq> opWord lib OpID then '' '' @ encodeFieldName fld else [])
        @ concat (map (\<lambda>v. '' '' @ EncodeValue (asWirePtr v)) vals)
        @ (if collate \<noteq> [] then '' collate='' @ collate else []))"

definition EncodeFilter :: "servalLib \<Rightarrow> filter option \<Rightarrow> string" where
  "EncodeFilter lib f =
     (case f of
        None \<Rightarrow> ''{}''
      | Some f \<Rightarrow>
          (if f_op f = opWord lib OpAnd then braced (map (encodeFilterStatement lib) (f_children f))
           else if (f_op f = opWord lib OpOr \<or> f_op f = opWord lib OpNot) \<and> f_children f = [] then ''{}''
           else ''{ '' @ encodeFilterStatement lib f @ '' }''))"

subsection \<open>A filter is read as it was written\<close>

text \<open>The statement a node is written as.\<close>

fun filterShape :: "servalLib \<Rightarrow> filter \<Rightarrow> statement" where
  "filterShape lib (Filter op fld vals collate children) =
     (if op = opWord lib OpAnd \<or> op = opWord lib OpOr \<or> op = opWord lib OpNot
      then Statement [] op [] 0 [Arg [] FlagNone (Some (BlockValue (Script (map (filterShape lib) children))))]
      else Statement [] op [] 0
        ((if op \<noteq> opWord lib OpID then [Arg [] FlagNone (Some (fieldOperand fld))] else [])
         @ map (\<lambda>v. Arg [] FlagNone (Some (asWirePtr v))) vals
         @ (if collate \<noteq> [] then [Arg ''collate'' FlagNone (Some (WordValue collate))] else [])))"

definition topShape :: "servalLib \<Rightarrow> filter \<Rightarrow> wvalue" where
  "topShape lib f =
     BlockValue (Script
       (if f_op f = opWord lib OpAnd then map (filterShape lib) (f_children f)
        else if (f_op f = opWord lib OpOr \<or> f_op f = opWord lib OpNot) \<and> f_children f = [] then []
        else [filterShape lib f]))"

text \<open>The filters that have a spelling: operators of the language, fields that can be named, operands
  that are carried and of the number the operator takes. An identity must be written as a value, so a
  symbol with a bare spelling is none.\<close>

definition fieldSound :: "string \<Rightarrow> bool" where
  "fieldSound name \<longleftrightarrow> name \<noteq> [] \<and> valid_utf8 name
     \<and> (containsAny name [char_of rRPAR, char_of rNL] \<or> isName name \<and> IsWord name \<or> \<not> IsWord name \<and> list_all plainByte name)"

definition notList :: "data option \<Rightarrow> bool" where
  "notList v = (case v of Some (DList fs) \<Rightarrow> False | _ \<Rightarrow> True)"

definition operandsSound :: "filterOp \<Rightarrow> data option list \<Rightarrow> bool" where
  "operandsSound op vs \<longleftrightarrow> list_all (\<lambda>v. carried v \<and> notList v) vs
     \<and> (if op = OpHas \<or> op = OpLacks then vs = [] else if op = OpIn then vs \<noteq> [] else length vs = 1)"

definition identitySound :: "data option \<Rightarrow> bool" where
  "identitySound v = (case v of None \<Rightarrow> False | Some d \<Rightarrow> sturdy True d \<and> notList v)"

fun filterSound :: "servalLib \<Rightarrow> filter \<Rightarrow> bool" where
  "filterSound lib (Filter op fld vals collate children) =
     (case constNamed (opWord lib) filterOps op of
        None \<Rightarrow> False
      | Some k \<Rightarrow>
          (if k = OpAnd \<or> k = OpOr \<or> k = OpNot then
             fld = [] \<and> vals = [] \<and> collate = [] \<and> list_all (filterSound lib) children \<and> (k = OpNot \<longrightarrow> children \<noteq> [])
           else if k = OpID then
             fld = [] \<and> collate = [] \<and> children = [] \<and> vals \<noteq> [] \<and> list_all identitySound vals
           else fieldSound fld \<and> children = [] \<and> operandsSound k vals \<and> (collate = [] \<or> IsWord collate)))"

lemma rune_char:
  assumes "r \<in> set (runes s)" "valid_utf8 s" "r < 0x80" shows "char_of r \<in> set s"
proof -
  have "char_of r \<in> set (encodeRune r)" using encodeRune_ascii[OF assms(3)] by simp
  then have "char_of r \<in> set (utf8 (runes s))" using assms(1) by (auto simp: utf8_def)
  then show ?thesis using utf8_runes[OF assms(2)] by simp
qed

lemma fieldOperand_spelled:
  assumes "fieldSound name"
  shows "wf_value (fieldOperand name) \<and> framed_value (fieldOperand name) \<and> \<not> torn (fieldOperand name)"
proof (cases "name = [] \<or> containsAny name [char_of rRPAR, char_of rNL]")
  case True
  then show ?thesis using assms by (simp add: fieldOperand_def fieldSound_def)
next
  case False
  then have n: "name \<noteq> []" "valid_utf8 name" "isName name \<and> IsWord name \<or> \<not> IsWord name \<and> list_all plainByte name"
    using assms by (auto simp: fieldSound_def)
  have "char_of rRPAR \<notin> set name" "char_of rNL \<notin> set name" using False by (auto simp: containsAny_def list_ex_iff)
  then have "rRPAR \<notin> set (runes name)" "rNL \<notin> set (runes name)"
    using rune_char[OF _ n(2), of rRPAR] rune_char[OF _ n(2), of rNL] by auto
  then have "protectable name" using n by (auto simp: protectable_def list_all_iff)
  then show ?thesis using False n by (auto simp: fieldOperand_def NewWord_def framedWord_def torn_def)
qed

lemma fieldOperand_reads:
  assumes "name \<noteq> []"
  shows "operandField what (readBackArg (Arg [] FlagNone (Some (fieldOperand name)))) = Inr name"
    and "a_value (readBackArg (Arg [] FlagNone (Some (fieldOperand name)))) \<noteq> None \<Longrightarrow>
      a_name (readBackArg (Arg [] FlagNone (Some (fieldOperand name)))) = []"
  by (auto simp: fieldOperand_def operandField_def NewWord_def)

text \<open>One operand, as it comes back.\<close>

abbreviation backArg :: "wvalue \<Rightarrow> arg" where
  "backArg v \<equiv> readBackArg (Arg [] FlagNone (Some v))"

lemma backArg_value:
  "a_value (backArg v) = (if bareName v then None else Some (readBack v))"
  "a_name (backArg v) = (if bareName v then v_word v else [])"
  by (simp_all)

lemma notList_block: "notList v \<Longrightarrow> \<not> isBlock (readBack (asWirePtr v))"
  by (cases "asWirePtr v") (auto simp: notList_def asWirePtr_def NewWord_def NewInt_def NewFloat_def NewString_def NewBlob_def
      split: option.splits data.splits if_splits)

lemma predicateArg_value:
  assumes "carried v" "notList v" "p_named f"
  shows "predicateArg op verb (backArg (asWirePtr v)) f = Inr (f\<lparr>p_values := p_values f @ [v]\<rparr>)"
proof -
  have "ebind (operandValue verb (backArg (asWirePtr v))) (\<lambda>w. Inr (f\<lparr>p_values := p_values f @ [asData w]\<rparr>)) = Inr (f\<lparr>p_values := p_values f @ [v]\<rparr>)"
    using operand_reads[OF assms(1), of verb] by (cases "operandValue verb (backArg (asWirePtr v))") auto
  moreover have "\<not> (a_name (backArg (asWirePtr v)) = ''collate'' \<and> a_value (backArg (asWirePtr v)) \<noteq> None)"
    by (simp only: backArg_value) simp
  moreover have "a_value (backArg (asWirePtr v)) \<noteq> Some (BlockValue b)" for b
    using notList_block[OF assms(2)] by (auto simp: backArg_value simp del: readBackArg.simps)
  ultimately show ?thesis using assms(3) unfolding predicateArg_def
    by (simp del: readBackArg.simps split: option.split wvalue.split)
qed

lemma predicateArgs_values:
  assumes "list_all (\<lambda>v. carried v \<and> notList v) vs" "p_named f"
  shows "predicateArgs op verb (map (\<lambda>v. backArg (asWirePtr v)) vs @ as) f = predicateArgs op verb as (f\<lparr>p_values := p_values f @ vs\<rparr>)"
  using assms
proof (induction vs arbitrary: f)
  case (Cons v vs)
  then show ?case using predicateArg_value[of v f op verb] by (simp del: readBackArg.simps)
qed simp

lemma constNamed_op:
  assumes "servalDocumented lib"
  shows "constNamed (opWord lib) filterOps (opWord lib k) = Some k"
  using assms by (intro constNamed_word) (auto simp: servalDocumented_def filterOps_def intro: filterOp.exhaust[of k])

lemma constNamed_opD: "constNamed (opWord lib) filterOps w = Some k \<Longrightarrow> w = opWord lib k"
  by (auto simp: constNamed_def find_Some_iff)

lemma opWord_inj: "servalDocumented lib \<Longrightarrow> opWord lib k = opWord lib j \<longleftrightarrow> k = j"
  using constNamed_op by (metis option.inject)

lemma opWord_name: "servalDocumented lib \<Longrightarrow> isName (opWord lib k)"
  by (cases k) (auto simp: servalDocumented_def filterOps_def)

definition collateArgs :: "string \<Rightarrow> arg list" where
  "collateArgs collate = (if collate \<noteq> [] then [Arg ''collate'' FlagNone (Some (WordValue collate))] else [])"

lemma comparison_reads:
  assumes "fieldSound fld" "operandsSound k vs"
  shows "comparison k w (backArg (fieldOperand fld) # map (\<lambda>v. backArg (asWirePtr v)) vs @ collateArgs c) = Inr (Filter w fld vs c [])"
proof -
  have n: "fld \<noteq> []" using assms(1) by (simp add: fieldSound_def)
  let ?f0 = "\<lparr>p_field = [], p_values = [], p_collate = [], p_named = False\<rparr>"
  let ?f1 = "\<lparr>p_field = fld, p_values = [], p_collate = [], p_named = True\<rparr>"
  have "predicateArg k w (backArg (fieldOperand fld)) ?f0 = Inr ?f1"
    using fieldOperand_reads(1)[OF n, of w] fieldOperand_reads(2)[OF n] unfolding predicateArg_def by (auto simp del: readBackArg.simps)
  moreover have "predicateArgs k w (map (\<lambda>v. backArg (asWirePtr v)) vs @ collateArgs c) ?f1 = Inr (?f1\<lparr>p_values := vs, p_collate := c\<rparr>)"
    using predicateArgs_values[of vs ?f1 k w "collateArgs c"] assms(2)
    by (simp add: operandsSound_def collateArgs_def predicateArg_def del: readBackArg.simps)
  ultimately show ?thesis using n assms(2)
    by (auto simp: comparison_def Let_def operandsSound_def simp del: readBackArg.simps split: if_splits)
qed

lemma parseID_reads:
  assumes "list_all identitySound vs" "vs \<noteq> []"
  shows "parseID w (map (\<lambda>v. backArg (asWirePtr v)) vs) = Inr (Filter w [] vs [] [])"
proof -
  have "idArg (backArg (asWirePtr v)) = Inr v" if "v \<in> set vs" for v
  proof -
    have i: "identitySound v" using assms(1) that by (simp add: list_all_iff)
    then obtain d where d: "v = Some d" "sturdy True d" "notList v" by (auto simp: identitySound_def split: option.splits)
    then have "\<not> bareName (asWirePtr v)" using sturdy_spelled(1)[OF d(2)] by (simp add: asWirePtr_def)
    moreover have "readBack (asWirePtr v) = asWirePtr v" "asData (asWirePtr v) = v"
      using d sturdy_unchanged(1)[OF d(2)] asData_asWire(1)[OF sturdy_namesOnly(1)[OF d(2)]] by (simp_all add: asWirePtr_def)
    ultimately show ?thesis using notList_block[OF d(3)] by (simp add: idArg_def)
  qed
  then have "traverse idArg (map (\<lambda>v. backArg (asWirePtr v)) vs) = Inr (map (\<lambda>v. v) vs)" by (intro traverse_map)
  then show ?thesis using assms(2) by (simp add: parseID_def)
qed


lemma filterShape_op:
  assumes "servalDocumented lib" "constNamed (opWord lib) filterOps w = Some k"
  shows "filterShape lib (Filter w fld vs c children) =
     (if k = OpAnd \<or> k = OpOr \<or> k = OpNot
      then Statement [] w [] 0 [Arg [] FlagNone (Some (BlockValue (Script (map (filterShape lib) children))))]
      else Statement [] w [] 0
        ((if k \<noteq> OpID then [Arg [] FlagNone (Some (fieldOperand fld))] else [])
         @ map (\<lambda>v. Arg [] FlagNone (Some (asWirePtr v))) vs @ collateArgs c))"
  using constNamed_opD[OF assms(2)] opWord_inj[OF assms(1)] by (simp add: collateArgs_def)

lemma filterShape_spelled:
  assumes "servalDocumented lib"
  shows "filterSound lib f \<Longrightarrow> wf_statement (filterShape lib f) \<and> framed_statement (filterShape lib f)"
proof (induction f)
  case (Filter w fld vs c children)
  then obtain k where k: "constNamed (opWord lib) filterOps w = Some k" by (auto split: option.splits)
  have head: "isHead w" "w \<noteq> []"
    using opWord_name[OF assms] constNamed_opD[OF k] isName_isHead isName_ne by auto
  show ?case
  proof (cases "k = OpAnd \<or> k = OpOr \<or> k = OpNot")
    case True
    then have "list_all (filterSound lib) children" using Filter.prems k by auto
    then show ?thesis using Filter.IH head True unfolding filterShape_op[OF assms k] by (auto simp: list_all_iff)
  next
    case False
    have "isName ''collate''" by code_simp
    then have coll: "list_all wf_arg (collateArgs c) \<and> list_all framed_arg (collateArgs c)" if "c = [] \<or> IsWord c"
      using that by (auto simp: collateArgs_def framedWord_def)
    have vals: "list_all wf_arg (map (\<lambda>v. Arg [] FlagNone (Some (asWirePtr v))) vs)
        \<and> list_all framed_arg (map (\<lambda>v. Arg [] FlagNone (Some (asWirePtr v))) vs)" if "list_all carried vs"
      using that carried_spelled by (auto simp: list_all_iff)
    show ?thesis
    proof (cases "k = OpID")
      case True
      then have i: "list_all identitySound vs" "c = []" using Filter.prems k by auto
      have "wf_value (asWirePtr v) \<and> framed_value (asWirePtr v) \<and> \<not> torn (asWirePtr v)" if "v \<in> set vs" for v
        using i(1) that sturdy_spelled(1)[of True] by (auto simp: list_all_iff identitySound_def asWirePtr_def split: option.splits)
      then show ?thesis using head True i(2) unfolding filterShape_op[OF assms k]
        by (auto simp: list_all_iff collateArgs_def)
    next
      case ne: False
      then have i: "fieldSound fld" "operandsSound k vs" "c = [] \<or> IsWord c" using Filter.prems k False by auto
      then have "list_all carried vs" by (auto simp: operandsSound_def list_all_iff)
      then show ?thesis using head ne False vals coll[OF i(3)] fieldOperand_spelled[OF i(1)]
        unfolding filterShape_op[OF assms k] by simp
    qed
  qed
qed

lemma collateArgs_back: "map readBackArg (collateArgs c) = collateArgs c"
  by (simp add: collateArgs_def)

lemma parsePredicate_written:
  assumes "servalDocumented lib"
  shows "filterSound lib f \<Longrightarrow> parsePredicate lib (readBackStatement (filterShape lib f)) = Inr f"
proof (induction f)
  case (Filter w fld vs c children)
  then obtain k where k: "constNamed (opWord lib) filterOps w = Some k" by (auto split: option.splits)
  show ?case
  proof (cases "k = OpAnd \<or> k = OpOr \<or> k = OpNot")
    case True
    then have s: "list_all (filterSound lib) children" "fld = []" "vs = []" "c = []" "k = OpNot \<longrightarrow> children \<noteq> []"
      using Filter.prems k by auto
    have "traverse (parsePredicate lib) (map (\<lambda>f. readBackStatement (filterShape lib f)) children) = Inr (map (\<lambda>f. f) children)"
      using Filter.IH s(1) by (intro traverse_map) (auto simp: list_all_iff)
    then show ?thesis using True s k unfolding filterShape_op[OF assms k] by (auto simp: comp_def)
  next
    case False
    show ?thesis
    proof (cases "k = OpID")
      case True
      then have i: "list_all identitySound vs" "vs \<noteq> []" "c = []" "fld = []" "children = []" using Filter.prems k by auto
      show ?thesis using parseID_reads[OF i(1,2), of w] i True k unfolding filterShape_op[OF assms k]
        by (simp add: collateArgs_def comp_def del: readBackArg.simps)
    next
      case ne: False
      then have i: "fieldSound fld" "operandsSound k vs" "children = []" using Filter.prems k False by auto
      show ?thesis using comparison_reads[OF i(1,2), of w c] i(3) ne False k unfolding filterShape_op[OF assms k]
        by (simp add: comp_def collateArgs_back del: readBackArg.simps)
    qed
  qed
qed

lemma encodeFilterStatement_shape:
  assumes "servalDocumented lib"
  shows "filterSound lib f \<Longrightarrow> encodeFilterStatement lib f = EncodeStatement (filterShape lib f) \<and> encodeFilterStatement lib f \<noteq> []"
proof (induction f)
  case (Filter w fld vs c children)
  then obtain k where k: "constNamed (opWord lib) filterOps w = Some k" by (auto split: option.splits)
  have w: "w \<noteq> []" "w = opWord lib j \<longleftrightarrow> k = j" for j
    using opWord_name[OF assms] constNamed_opD[OF k] isName_ne opWord_inj[OF assms] by auto
  show ?case
  proof (cases "k = OpAnd \<or> k = OpOr \<or> k = OpNot")
    case True
    then have "list_all (filterSound lib) children" using Filter.prems k by auto
    then have "braced (map (encodeFilterStatement lib) children) =
        EncodeValue (BlockValue (Script (map (filterShape lib) children)))"
      using Filter.IH unfolding list_all_iff by (intro braced_block) blast+
    then show ?thesis using True w unfolding filterShape_op[OF assms k] encodeFilterStatement.simps by simp
  next
    case False
    then have c: "c = [] \<or> IsWord c" using Filter.prems k by (auto split: if_splits)
    have "EncodeStatement (filterShape lib (Filter w fld vs c children)) =
        w @ (if k \<noteq> OpID then '' '' @ encodeFieldName fld else [])
          @ concat (map (\<lambda>v. '' '' @ EncodeValue (asWirePtr v)) vs) @ (if c \<noteq> [] then '' collate='' @ c else [])"
      using c w(1) False unfolding filterShape_op[OF assms k]
      by (cases "k = OpID") (auto simp: encodeFieldName_operand comp_def collateArgs_def)
    then show ?thesis using w False unfolding encodeFilterStatement.simps by simp
  qed
qed

text \<open>What the top of a filter is read back as: a conjunction, of one where it was no conjunction.\<close>

definition filterMeaning :: "servalLib \<Rightarrow> filter \<Rightarrow> filter" where
  "filterMeaning lib f =
     (if f_op f = opWord lib OpAnd then f
      else Filter (opWord lib OpAnd) [] [] []
        (if (f_op f = opWord lib OpOr \<or> f_op f = opWord lib OpNot) \<and> f_children f = [] then [] else [f]))"

lemma filterSound_children:
  assumes "servalDocumented lib" "filterSound lib f" "f_op f = opWord lib OpAnd"
  shows "list_all (filterSound lib) (f_children f) \<and> f = Filter (opWord lib OpAnd) [] [] [] (f_children f)"
  using assms constNamed_op[OF assms(1), of OpAnd] by (cases f) auto

lemma EncodeFilter_shape:
  assumes "servalDocumented lib" "filterSound lib f"
  shows "EncodeFilter lib (Some f) = EncodeValue (topShape lib f)"
proof (cases "f_op f = opWord lib OpAnd")
  case True
  then have "list_all (filterSound lib) (f_children f)" using filterSound_children[OF assms] by blast
  then have "braced (map (encodeFilterStatement lib) (f_children f)) =
      EncodeValue (BlockValue (Script (map (filterShape lib) (f_children f))))"
    using encodeFilterStatement_shape[OF assms(1)] unfolding list_all_iff by (intro braced_block) blast+
  then show ?thesis using True by (simp add: EncodeFilter_def topShape_def)
next
  case False
  moreover have "EncodeStatement (filterShape lib f) = encodeFilterStatement lib f" "encodeFilterStatement lib f \<noteq> []"
    using encodeFilterStatement_shape[OF assms] by (metis, metis)
  ultimately show ?thesis by (simp add: EncodeFilter_def topShape_def Let_def)
qed

lemma topShape_spelled:
  assumes "servalDocumented lib" "filterSound lib f"
  shows "wf_value (topShape lib f) \<and> framed_value (topShape lib f)"
  using filterShape_spelled[OF assms(1)] assms(2) filterSound_children[OF assms]
  by (auto simp: topShape_def list_all_iff)

lemma ParseFilter_written:
  assumes "servalDocumented lib" "filterSound lib f"
  shows "ParseFilter lib (Some (readBack (topShape lib f))) = Inr (filterMeaning lib f)"
proof (cases "f_op f = opWord lib OpAnd")
  case True
  note c = filterSound_children[OF assms True]
  have "traverse (parsePredicate lib) (map (\<lambda>f. readBackStatement (filterShape lib f)) (f_children f)) = Inr (map (\<lambda>f. f) (f_children f))"
    using parsePredicate_written[OF assms(1)] c by (intro traverse_map) (auto simp: list_all_iff)
  then show ?thesis using True c by (auto simp: ParseFilter_def topShape_def filterMeaning_def comp_def)
next
  case False
  then show ?thesis using parsePredicate_written[OF assms]
    by (auto simp: ParseFilter_def topShape_def filterMeaning_def)
qed

subsection \<open>The descriptor\<close>

definition wrapIn :: "string \<Rightarrow> goError + 'a \<Rightarrow> goError + 'a" where
  "wrapIn what r = (case r of Inl e \<Rightarrow> Inl (In what e) | Inr x \<Rightarrow> Inr x)"

definition descriptorArg :: "servalLib \<Rightarrow> arg \<Rightarrow> DataSetDescriptor \<Rightarrow> goError + DataSetDescriptor" where
  "descriptorArg lib a s =
     (if a_name a = ''source'' then
        (case a_value a of
           Some (StringValue t blob) \<Rightarrow> Inr (s\<lparr>Source := t\<rparr>)
         | Some (WordValue w) \<Rightarrow> Inr (s\<lparr>Source := w\<rparr>)
         | _ \<Rightarrow> Inl (Errorf ''source: expected a name'' []))
      else if a_name a = ''fields'' \<or> a_name a = ''exclude'' then
        ebind (wrapIn (a_name a) (ParseFields (a_value a))) (\<lambda>f.
          Inr (if a_name a = ''fields'' then s\<lparr>d_fields := f\<rparr> else s\<lparr>Exclude := f\<rparr>))
      else if a_name a = ''filter'' then
        ebind (wrapIn ''filter'' (ParseFilter lib (a_value a))) (\<lambda>f. Inr (s\<lparr>d_filter := Some f\<rparr>))
      else if a_name a = ''sort'' then
        ebind (wrapIn ''sort'' (ParseSort lib (a_value a))) (\<lambda>levels. Inr (s\<lparr>Sort := levels\<rparr>))
      else Inr s)"

fun descriptorArgs :: "servalLib \<Rightarrow> arg list \<Rightarrow> DataSetDescriptor \<Rightarrow> goError + DataSetDescriptor" where
  "descriptorArgs lib [] s = Inr s"
| "descriptorArgs lib (a # as) s = ebind (descriptorArg lib a s) (descriptorArgs lib as)"

definition emptyDescriptor :: DataSetDescriptor where
  "emptyDescriptor = \<lparr>Source = [], d_fields = [], Exclude = [], d_filter = None, Sort = []\<rparr>"

definition ParseDescriptor :: "servalLib \<Rightarrow> arg list \<Rightarrow> goError + DataSetDescriptor" where
  "ParseDescriptor lib args = descriptorArgs lib args emptyDescriptor"

definition EncodeDescriptor :: "servalLib \<Rightarrow> DataSetDescriptor \<Rightarrow> string" where
  "EncodeDescriptor lib s = join '' ''
     ((if Source s \<noteq> [] then [''source='' @ quoteString (Source s)] else [])
      @ (if d_fields s \<noteq> [] then [''fields='' @ EncodeRecord (d_fields s)] else [])
      @ (if Exclude s \<noteq> [] then [''exclude='' @ EncodeRecord (Exclude s)] else [])
      @ (if d_filter s \<noteq> None then [''filter='' @ EncodeFilter lib (d_filter s)] else [])
      @ (if Sort s \<noteq> [] then [''sort='' @ EncodeSort (Sort s)] else []))"

subsection \<open>The scope\<close>

definition wholeNumber :: "string \<Rightarrow> string \<Rightarrow> arg \<Rightarrow> goError + u64" where
  "wholeNumber what complaint a =
     (case a_value a of
        Some (IntValue i) \<Rightarrow> (if sint i < 0 then Inl (Errorf complaint [formatInt i]) else Inr i)
      | _ \<Rightarrow> Inl (Errorf (what @ '': expected a whole number'') []))"

definition scopeArg :: "arg \<Rightarrow> Scope \<Rightarrow> goError + Scope" where
  "scopeArg a s =
     (if a_name a = ''count'' then
        ebind (wholeNumber ''count'' ''count: %d records is not a number of records'' a) (\<lambda>i. Inr (s\<lparr>Count := i\<rparr>))
      else if a_name a = ''from'' then
        ebind (wholeNumber ''from'' ''from: %d is not a position'' a) (\<lambda>i. Inr (s\<lparr>From := i\<rparr>))
      else if a_name a = ''after'' \<or> a_name a = ''until'' then
        (case a_value a of
           None \<Rightarrow> Inl (Errorf ''%s: expected an identity'' [a_name a])
         | Some v \<Rightarrow>
             (if isBlock v then Inl (Errorf ''%s: an identity is a value, not a block'' [a_name a])
              else Inr (if a_name a = ''after'' then s\<lparr>After := asData v\<rparr> else s\<lparr>Until := asData v\<rparr>)))
      else if a_name a = ''reversed'' then
        (if a_value a \<noteq> None then Inl (Errorf ''reversed: it takes no value'' [])
         else Inr (s\<lparr>Reversed := (a_flag a = FlagTrue)\<rparr>))
      else Inr s)"

fun scopeArgs :: "arg list \<Rightarrow> Scope \<Rightarrow> goError + Scope" where
  "scopeArgs [] s = Inr s"
| "scopeArgs (a # as) s = ebind (scopeArg a s) (scopeArgs as)"

definition emptyScope :: Scope where
  "emptyScope = \<lparr>Count = 0, From = 0, After = None, Until = None, Reversed = False\<rparr>"

definition ParseScope :: "arg list \<Rightarrow> goError + Scope" where
  "ParseScope args =
     ebind (scopeArgs args emptyScope) (\<lambda>s.
       if After s \<noteq> None \<and> From s \<noteq> 0
       then Inl (Errorf ''from: a scope says where to start with after or with from, not both'' [])
       else Inr s)"

definition EncodeScope :: "Scope \<Rightarrow> string" where
  "EncodeScope s = join '' ''
     ((if After s \<noteq> None then [''after='' @ EncodeValue (asWirePtr (After s))] else [])
      @ (if Until s \<noteq> None then [''until='' @ EncodeValue (asWirePtr (Until s))] else [])
      @ (if From s \<noteq> 0 then [''from='' @ formatInt (From s)] else [])
      @ [''count='' @ formatInt (Count s)]
      @ (if Reversed s then [''reversed''] else []))"

definition ParseExtend :: "arg list \<Rightarrow> goError + bool" where
  "ParseExtend args =
     (case argNamed ''extend'' args of
        None \<Rightarrow> Inr False
      | Some a \<Rightarrow> (if a_value a \<noteq> None then Inl (Errorf ''extend: it takes no value'' []) else Inr (a_flag a = FlagTrue)))"

subsection \<open>A question is read as it was asked\<close>

definition valueArg :: "string \<Rightarrow> wvalue \<Rightarrow> arg" where
  "valueArg name v = Arg name FlagNone (Some v)"

definition descriptorShape :: "servalLib \<Rightarrow> DataSetDescriptor \<Rightarrow> arg list" where
  "descriptorShape lib s =
     (if Source s \<noteq> [] then [valueArg ''source'' (StringValue (Source s) False)] else [])
     @ (if d_fields s \<noteq> [] then [valueArg ''fields'' (BlockValue (asScript (d_fields s)))] else [])
     @ (if Exclude s \<noteq> [] then [valueArg ''exclude'' (BlockValue (asScript (Exclude s)))] else [])
     @ (case d_filter s of None \<Rightarrow> [] | Some f \<Rightarrow> [valueArg ''filter'' (topShape lib f)])
     @ (if Sort s \<noteq> [] then [valueArg ''sort'' (sortShape (Sort s))] else [])"

definition scopeShape :: "Scope \<Rightarrow> arg list" where
  "scopeShape s =
     (if After s \<noteq> None then [valueArg ''after'' (asWirePtr (After s))] else [])
     @ (if Until s \<noteq> None then [valueArg ''until'' (asWirePtr (Until s))] else [])
     @ (if From s \<noteq> 0 then [valueArg ''from'' (IntValue (From s))] else [])
     @ [valueArg ''count'' (IntValue (Count s))]
     @ (if Reversed s then [Arg ''reversed'' FlagTrue None] else [])"

definition descriptorSound :: "servalLib \<Rightarrow> DataSetDescriptor \<Rightarrow> bool" where
  "descriptorSound lib s \<longleftrightarrow> valid_utf8 (Source s) \<and> bagSound (d_fields s) \<and> bagSound (Exclude s)
     \<and> (\<forall>f. d_filter s = Some f \<longrightarrow> filterSound lib f) \<and> list_all (levelSound lib) (Sort s)"

definition descriptorMeaning :: "servalLib \<Rightarrow> DataSetDescriptor \<Rightarrow> DataSetDescriptor" where
  "descriptorMeaning lib s = s\<lparr>d_filter := map_option (filterMeaning lib) (d_filter s)\<rparr>"

definition scopeSound :: "Scope \<Rightarrow> bool" where
  "scopeSound s \<longleftrightarrow> carried (After s) \<and> notList (After s) \<and> carried (Until s) \<and> notList (Until s)
     \<and> 0 \<le> sint (From s) \<and> 0 \<le> sint (Count s) \<and> (After s = None \<or> From s = 0)"

lemma query_names [simp]:
  "isName ''source''" "isName ''fields''" "isName ''exclude''" "isName ''filter''" "isName ''sort''" "isName ''after''"
  "isName ''until''" "isName ''from''" "isName ''count''" "isName ''reversed''" "isName ''query''" "isName ''new''"
  by code_simp+

lemma readBackArg_value [simp]: "name \<noteq> [] \<Longrightarrow> readBackArg (valueArg name v) = valueArg name (readBack v)"
  by (simp add: valueArg_def)

lemma valueArg_sel [simp]: "a_name (valueArg name v) = name" "a_value (valueArg name v) = Some v"
  by (simp_all add: valueArg_def)

lemma descriptorArgs_append: "descriptorArgs lib (as @ bs) s = ebind (descriptorArgs lib as s) (descriptorArgs lib bs)"
proof (induction as arbitrary: s)
  case (Cons a as)
  then show ?case by (cases "descriptorArg lib a s") auto
qed simp

lemma scopeArgs_append: "scopeArgs (as @ bs) s = ebind (scopeArgs as s) (scopeArgs bs)"
proof (induction as arbitrary: s)
  case (Cons a as)
  then show ?case by (cases "scopeArg a s") auto
qed simp

lemma carried_reads:
  assumes "carried v" shows "asData (readBack (asWirePtr v)) = v"
proof (cases v)
  case None
  then show ?thesis by (simp add: asWirePtr_def NewWord_def)
next
  case (Some d)
  then have "sturdy False d" using assms by (simp add: carried_def)
  then show ?thesis using sturdy_unchanged(1) asData_asWire(1) sturdy_namesOnly(1) Some by (simp add: asWirePtr_def)
qed

lemma descriptorArgs_written:
  assumes "servalDocumented lib" "descriptorSound lib s"
  shows "descriptorArgs lib (map readBackArg (descriptorShape lib s)) emptyDescriptor = Inr (descriptorMeaning lib s)"
proof -
  obtain src fs ex flt srt where s: "s = \<lparr>Source = src, d_fields = fs, Exclude = ex, d_filter = flt, Sort = srt\<rparr>" by (cases s) auto
  have bags: "ParseFields (Some (readBack (BlockValue (asScript fs)))) = Inr fs" "ParseFields (Some (readBack (BlockValue (asScript ex)))) = Inr ex"
    using assms(2) ParseFields_written by (auto simp: descriptorSound_def s)
  have levels: "\<forall>l \<in> set srt. levelSound lib l" using assms(2) by (auto simp: descriptorSound_def s list_all_iff)
  have sort: "ParseSort lib (Some (readBack (sortShape srt))) = Inr srt"
    using ParseSort_written[OF assms(1) levels] sortShape_spelled[OF assms(1) levels] by simp
  have filt: "ParseFilter lib (Some (readBack (topShape lib f))) = Inr (filterMeaning lib f)" if "flt = Some f" for f
    using ParseFilter_written[OF assms(1)] assms(2) that by (simp add: descriptorSound_def s)
  have "readBack (StringValue src False) = StringValue src False" by simp
  then show ?thesis
    using bags sort filt
    by (cases flt) (auto simp: s descriptorShape_def emptyDescriptor_def descriptorMeaning_def descriptorArg_def wrapIn_def
        simp del: readBack.simps)
qed

lemma scopeArgs_written:
  assumes "scopeSound s"
  shows "scopeArgs (map readBackArg (scopeShape s)) emptyScope = Inr s"
proof -
  obtain c f a u r where s: "s = \<lparr>Count = c, From = f, After = a, Until = u, Reversed = r\<rparr>" by (cases s) auto
  have "\<not> isBlock (readBack (asWirePtr a))" "\<not> isBlock (readBack (asWirePtr u))"
    "asData (readBack (asWirePtr a)) = a" "asData (readBack (asWirePtr u)) = u" "\<not> sint f < 0" "\<not> sint c < 0"
    using assms notList_block carried_reads by (auto simp: scopeSound_def s)
  then show ?thesis
    by (auto simp: s scopeShape_def emptyScope_def scopeArg_def wholeNumber_def)
qed


text \<open>Neither reader minds the other's arguments.\<close>

lemma scopeArgs_descriptor: "scopeArgs (map readBackArg (descriptorShape lib d)) s = Inr s"
  by (cases "d_filter d") (auto simp: descriptorShape_def scopeArg_def simp del: readBack.simps)

lemma descriptorArgs_scope: "descriptorArgs lib (map readBackArg (scopeShape sc)) s = Inr s"
  by (auto simp: scopeShape_def descriptorArg_def simp del: readBack.simps)

lemma queryArgs_read:
  assumes "servalDocumented lib" "descriptorSound lib d" "scopeSound sc"
  shows "ParseDescriptor lib (Arg ''query'' FlagTrue None # map readBackArg (descriptorShape lib d @ scopeShape sc)) = Inr (descriptorMeaning lib d)"
    and "ParseScope (Arg ''query'' FlagTrue None # map readBackArg (descriptorShape lib d @ scopeShape sc)) = Inr sc"
  using descriptorArgs_written[OF assms(1,2)] scopeArgs_written[OF assms(3)] assms(3)
  by (auto simp: ParseDescriptor_def ParseScope_def descriptorArgs_append scopeArgs_append descriptorArg_def scopeArg_def
      descriptorArgs_scope scopeArgs_descriptor scopeSound_def simp del: readBackArg.simps)

lemma wf_valueArg: "isName name \<Longrightarrow> wf_arg (valueArg name v) = wf_value v" "framed_arg (valueArg name v) = framed_value v"
  by (auto simp: valueArg_def isName_def)

lemma carried_asWire_spelled:
  assumes "carried v" shows "wf_value (asWirePtr v)" "framed_value (asWirePtr v)"
  using carried_spelled[OF assms] by auto

lemma list_all_if: "list_all P (if c then [a] else []) \<longleftrightarrow> (c \<longrightarrow> P a)"
  by simp

lemma wf_arg_reversed: "wf_arg (Arg ''reversed'' FlagTrue None)" "framed_arg (Arg ''reversed'' FlagTrue None)"
  by simp_all

lemma descriptorShape_spelled:
  assumes "servalDocumented lib" "descriptorSound lib d"
  shows "list_all (\<lambda>a. wf_arg a \<and> framed_arg a) (descriptorShape lib d)"
proof -
  have levels: "\<forall>l \<in> set (Sort d). levelSound lib l" using assms(2) by (auto simp: descriptorSound_def list_all_iff)
  have bags: "bagSound (d_fields d)" "bagSound (Exclude d)" "valid_utf8 (Source d)" using assms(2) by (auto simp: descriptorSound_def)
  have "list_all (\<lambda>a. wf_arg a \<and> framed_arg a) (case d_filter d of None \<Rightarrow> [] | Some f \<Rightarrow> [valueArg ''filter'' (topShape lib f)])"
    using assms(2) topShape_spelled[OF assms(1)]
    by (cases "d_filter d") (simp_all add: descriptorSound_def wf_valueArg del: wf_arg.simps framed_arg.simps)
  moreover have "wf_value (StringValue (Source d) False) \<and> framed_value (StringValue (Source d) False)" using bags(3) by simp
  ultimately show ?thesis
    using bag_spelled[OF bags(1)] bag_spelled[OF bags(2)] sortShape_spelled[OF assms(1) levels]
    unfolding descriptorShape_def list_all_append list_all_if
    by (simp add: wf_valueArg del: wf_arg.simps framed_arg.simps wf_value.simps framed_value.simps)
qed

lemma scopeShape_spelled:
  assumes "scopeSound sc"
  shows "list_all (\<lambda>a. wf_arg a \<and> framed_arg a) (scopeShape sc)"
  using assms carried_asWire_spelled wf_arg_reversed unfolding scopeShape_def list_all_append list_all_if scopeSound_def
  by (simp add: wf_valueArg del: wf_arg.simps framed_arg.simps)

lemma queryArgs_spelled:
  assumes "servalDocumented lib" "descriptorSound lib d" "scopeSound sc"
  shows "list_all wf_arg (descriptorShape lib d @ scopeShape sc)" "list_all framed_arg (descriptorShape lib d @ scopeShape sc)"
  using descriptorShape_spelled[OF assms(1,2)] scopeShape_spelled[OF assms(3)] by (auto simp: list_all_iff)

lemma encodeArgs_join:
  "as \<noteq> [] \<Longrightarrow> encodeArgs as = '' '' @ join '' '' (map EncodeArg as)"
proof (induction as rule: list_nonempty_induct)
  case (cons a as)
  then show ?case by (cases as) (auto simp: encodeArgs_def)
qed (simp add: encodeArgs_def)

lemma EncodeArg_valueArg: "name \<noteq> [] \<Longrightarrow> EncodeArg (valueArg name v) = name @ ''='' @ EncodeValue v"
  by (simp add: valueArg_def)

lemma EncodeDescriptor_shape:
  assumes "servalDocumented lib" "descriptorSound lib d"
  shows "EncodeDescriptor lib d = join '' '' (map EncodeArg (descriptorShape lib d))"
proof -
  have levels: "\<forall>l \<in> set (Sort d). levelSound lib l" using assms(2) by (auto simp: descriptorSound_def list_all_iff)
  have filt: "EncodeFilter lib (d_filter d) = EncodeValue (topShape lib f)" if "d_filter d = Some f" for f
    using EncodeFilter_shape[OF assms(1)] assms(2) that by (simp add: descriptorSound_def)
  have parts: "EncodeRecord r = EncodeValue (BlockValue (asScript r))" "quoteString t = EncodeValue (StringValue t False)" for r t
    by (simp_all add: EncodeRecord_def)
  show ?thesis
    unfolding EncodeDescriptor_def descriptorShape_def parts EncodeSort_shape[OF levels] using filt
    by (cases "d_filter d") (auto simp: EncodeArg_valueArg simp del: EncodeArg.simps EncodeValue.simps)
qed

lemma EncodeScope_shape: "EncodeScope s = join '' '' (map EncodeArg (scopeShape s))"
proof -
  have "EncodeArg (Arg ''reversed'' FlagTrue None) = ''reversed''" by simp
  moreover have "formatInt i = EncodeValue (IntValue i)" for i by simp
  ultimately show ?thesis unfolding EncodeScope_def scopeShape_def
    by (auto simp: EncodeArg_valueArg simp del: EncodeArg.simps EncodeValue.simps)
qed

lemma join_two: "as \<noteq> [] \<Longrightarrow> bs \<noteq> [] \<Longrightarrow> join '' '' as @ '' '' @ join '' '' bs = join '' '' (as @ bs)"
proof (induction as rule: list_nonempty_induct)
  case (single x)
  then show ?case using join_map_append[of bs "'' ''" x] by simp
next
  case (cons x xs)
  then have "join '' '' (x # xs @ bs) = x @ '' '' @ join '' '' (xs @ bs)" "join '' '' (x # xs) = x @ '' '' @ join '' '' xs"
    using join_map_append[of "xs @ bs" "'' ''" x] join_map_append[of xs "'' ''" x] by auto
  then show ?case using cons by simp
qed

text \<open>The statement a source of the display opens a query with (\<open>source/application.go\<close>): the
  descriptor and the scope of its first question, both read off one statement.\<close>

definition newQuery :: "servalLib \<Rightarrow> DataSetDescriptor \<Rightarrow> Scope \<Rightarrow> string" where
  "newQuery lib d sc = ''q=new query '' @ EncodeDescriptor lib d @ '' '' @ EncodeScope sc"

definition queryShape :: "servalLib \<Rightarrow> DataSetDescriptor \<Rightarrow> Scope \<Rightarrow> statement" where
  "queryShape lib d sc = Statement ''q'' ''new'' [] 0 (Arg ''query'' FlagTrue None # descriptorShape lib d @ scopeShape sc)"

definition readQuery :: "servalLib \<Rightarrow> statement \<Rightarrow> goError + (DataSetDescriptor \<times> Scope)" where
  "readQuery lib st =
     ebind (ParseDescriptor lib (st_args st)) (\<lambda>d. ebind (ParseScope (st_args st)) (\<lambda>sc. Inr (d, sc)))"

definition querySound :: "servalLib \<Rightarrow> DataSetDescriptor \<times> Scope \<Rightarrow> bool" where
  "querySound lib q \<longleftrightarrow> servalDocumented lib \<and> descriptorSound lib (fst q) \<and> scopeSound (snd q) \<and> Source (fst q) \<noteq> []"

interpretation query: framed_codec "\<lambda>(d, sc). queryShape lib d sc" "\<lambda>(d, sc). newQuery lib d sc" "readQuery lib"
  "querySound lib" "\<lambda>(d, sc). (descriptorMeaning lib d, sc)" for lib
proof unfold_locales
  fix q assume s: "querySound lib q"
  obtain d sc where q: "q = (d, sc)" by (cases q)
  have a: "servalDocumented lib" "descriptorSound lib d" "scopeSound sc" "Source d \<noteq> []" using s by (auto simp: querySound_def q)
  have ne: "descriptorShape lib d \<noteq> []" "scopeShape sc \<noteq> []" using a(4) by (auto simp: descriptorShape_def scopeShape_def)
  have key: "isHead ''q''" by code_simp
  have "encodeArgs (descriptorShape lib d @ scopeShape sc) = '' '' @ EncodeDescriptor lib d @ '' '' @ EncodeScope sc"
    using encodeArgs_join[of "descriptorShape lib d @ scopeShape sc"] ne
      join_two[of "map EncodeArg (descriptorShape lib d)" "map EncodeArg (scopeShape sc)"]
    by (simp add: EncodeDescriptor_shape[OF a(1,2)] EncodeScope_shape)
  then show "(case q of (d, sc) \<Rightarrow> newQuery lib d sc) = EncodeStatement (case q of (d, sc) \<Rightarrow> queryShape lib d sc)"
    by (simp add: q newQuery_def queryShape_def encodeArgs_def)
  show "wf_statement (case q of (d, sc) \<Rightarrow> queryShape lib d sc)" "framed_statement (case q of (d, sc) \<Rightarrow> queryShape lib d sc)"
    using queryArgs_spelled[OF a(1-3)] key by (auto simp: q queryShape_def isHead_ne)
  show "readQuery lib (readBackStatement (case q of (d, sc) \<Rightarrow> queryShape lib d sc)) = Inr (case q of (d, sc) \<Rightarrow> (descriptorMeaning lib d, sc))"
    using queryArgs_read[OF a(1-3)] by (simp add: q queryShape_def readQuery_def)
qed




text \<open>An identity that is a symbol with a bare spelling is written by \<open>EncodeFilter\<close> as a word, which
  \<open>ParseFilter\<close> takes for a flag and refuses; a field whose name is a word with a plus sign in it is
  torn by the parser.\<close>

lemma symbol_identity_refused:
  "EncodeFilter spelled (Some (Filter ''id'' [] [Some (DSymbol ''alpha'')] [] [])) = ''{ id alpha }''"
  "map_option (map_sum id (\<lambda>s. map (\<lambda>st. map (\<lambda>a. ParseFilter spelled (a_value a)) (st_args st)) (statements s)))
     (Parse ''set filter={ id alpha }'') =
   Some (Inr [[Inl (Errorf ''id: %q names no identity; write the identities as values'' [''alpha''])]])"
  by code_simp+

lemma plus_in_field_torn:
  "EncodeFilter spelled (Some (Filter ''has'' ''c++'' [] [] [])) = ''{ has c++ }''"
  "Parse ''set filter={ has c++ }'' = Some (Inl \<lparr>e_line = 1, e_col = 21, e_msg = MalformedNumber ''++''\<rparr>)"
  by code_simp+

end
