(* ===== verification/WireResult.thy ===== *)
theory WireResult
  imports WireQuery
begin

text \<open>
  What a query is answered with (the last part of \<open>wire/query.go\<close>): results and places, each read off
  the arguments of a statement and rendered as them.
\<close>

subsection \<open>Reading\<close>

record Result =
  Ordered :: bool
  ID :: "wvalue option"
  r_Fields :: "field list"
  Whole :: bool
  Has :: totals
  Place :: bool
  r_Complete :: "Complete option"

definition countArg :: "arg \<Rightarrow> goError + u64" where
  "countArg a =
     (case a_value a of
        Some (IntValue i) \<Rightarrow>
          (if sint i < 0 then Inl (Errorf ''%s: expected a count of members'' [a_name a]) else Inr i)
      | _ \<Rightarrow> Inl (Errorf ''%s: expected a count of members'' [a_name a]))"

text \<open>The variables of \<open>parseResult\<close>.\<close>

record reading =
  res :: Result
  ending :: Complete
  ended :: bool
  counted :: bool
  exact :: bool
  totalled :: bool

definition identityArg :: "string \<Rightarrow> arg \<Rightarrow> goError + wvalue" where
  "identityArg complaint a =
     (case a_value a of
        None \<Rightarrow> Inl (Errorf complaint [])
      | Some v \<Rightarrow> (if isBlock v then Inl (Errorf complaint []) else Inr v))"

definition resultArg :: "servalLib \<Rightarrow> arg \<Rightarrow> reading \<Rightarrow> goError + reading" where
  "resultArg lib a s =
     (let name = a_name a; r = res s; done = ending s in
      if name = ''ordered'' then Inr (s\<lparr>res := r\<lparr>Ordered := True\<rparr>\<rparr>)
      else if name = ''id'' then
        ebind (identityArg ''id: expected an identity'' a) (\<lambda>v. Inr (s\<lparr>res := r\<lparr>ID := Some v\<rparr>\<rparr>))
      else if name = ''record'' \<or> name = ''fields'' then
        ebind (wrapIn name (ParseFields (a_value a))) (\<lambda>bag.
          Inr (s\<lparr>res := r\<lparr>r_Fields := bag, Whole := (name = ''record'')\<rparr>\<rparr>))
      else if name = ''map'' \<or> name = ''len'' then
        ebind (countArg a) (\<lambda>n.
          Inr (s\<lparr>res := r\<lparr>Has := (if name = ''map'' then (Has r)\<lparr>Named' := n\<rparr> else (Has r)\<lparr>Ordered' := n\<rparr>)\<rparr>, counted := True\<rparr>))
      else if name = ''complete'' then Inr (s\<lparr>ended := True\<rparr>)
      else if name = ''watermark'' then
        ebind (identityArg ''watermark: expected an identity'' a) (\<lambda>v.
          Inr (s\<lparr>ending := done\<lparr>Watermark := asData v\<rparr>, ended := True\<rparr>))
      else if name = ''total'' then
        ebind (countArg a) (\<lambda>n. Inr (s\<lparr>ending := done\<lparr>Total := (Total done)\<lparr>cN := n\<rparr>\<rparr>, ended := True, totalled := True\<rparr>))
      else if name = ''first'' then
        ebind (countArg a) (\<lambda>n. Inr (s\<lparr>ending := done\<lparr>First := exactly lib n\<rparr>, ended := True\<rparr>))
      else if name = ''exact'' then Inr (s\<lparr>exact := True\<rparr>)
      else if name = ''error'' then
        (case a_value a of
           Some (StringValue t blob) \<Rightarrow> Inr (s\<lparr>ending := done\<lparr>c_Error := t\<rparr>, ended := True\<rparr>)
         | _ \<Rightarrow> Inl (Errorf ''error: expected a message'' []))
      else if constNamed (stopWord lib) stops name \<noteq> None then Inr (s\<lparr>ending := done\<lparr>Stop := name\<rparr>, ended := True\<rparr>)
      else Inr s)"

fun resultArgsLoop :: "servalLib \<Rightarrow> arg list \<Rightarrow> reading \<Rightarrow> goError + reading" where
  "resultArgsLoop lib [] s = Inr s"
| "resultArgsLoop lib (a # as) s = ebind (resultArg lib a s) (resultArgsLoop lib as)"

definition emptyResult :: "bool \<Rightarrow> Result" where
  "emptyResult place = \<lparr>Ordered = False, ID = None, r_Fields = [], Whole = False, Has = \<lparr>Named' = 0, Ordered' = 0\<rparr>,
     Place = place, r_Complete = None\<rparr>"

definition emptyComplete :: Complete where
  "emptyComplete = \<lparr>Watermark = None, Stop = [], First = \<lparr>cN = 0, cExact = False\<rparr>, Total = \<lparr>cN = 0, cExact = False\<rparr>, c_Error = []\<rparr>"

definition parseResult :: "servalLib \<Rightarrow> arg list \<Rightarrow> bool \<Rightarrow> goError + Result" where
  "parseResult lib args place =
     ebind (resultArgsLoop lib args
       \<lparr>res = emptyResult place, ending = emptyComplete, ended = False, counted = False, exact = False, totalled = False\<rparr>) (\<lambda>s.
       let r = res s; done = ending s in
       if r_Fields r \<noteq> [] \<and> ID r = None then Inl (Errorf ''a record carries an identity; this one has none'' [])
       else if counted s \<and> Whole r then Inl (Errorf ''record=: a whole record is its own totals'' [])
       else if Place r \<and> (counted s \<or> Whole r) then
         Inl (Errorf ''place: a place says nothing about how much of the record there is'' [])
       else if exact s \<and> \<not> totalled s then Inl (Errorf ''exact: nothing here states a total'' [])
       else Inr (r\<lparr>r_Complete := (if ended s then Some (done\<lparr>Total := (Total done)\<lparr>cExact := exact s\<rparr>\<rparr>) else None)\<rparr>))"

definition ParseResult :: "servalLib \<Rightarrow> arg list \<Rightarrow> goError + Result" where
  "ParseResult lib args = parseResult lib args False"

definition ParsePlace :: "servalLib \<Rightarrow> arg list \<Rightarrow> goError + Result" where
  "ParsePlace lib args = parseResult lib args True"

subsection \<open>Rendering\<close>

definition flagArg :: "string \<Rightarrow> arg" where
  "flagArg name = Arg name FlagTrue None"

definition completeArgs :: "servalLib \<Rightarrow> Complete \<Rightarrow> arg list" where
  "completeArgs lib c =
     [flagArg ''complete'']
     @ (case Watermark c of None \<Rightarrow> [] | Some w \<Rightarrow> [valueArg ''watermark'' (asWire w)])
     @ (if Stop c \<noteq> [] then [flagArg (Stop c)] else [])
     @ (if cExact (First c) then [valueArg ''first'' (NewInt (cN (First c)))] else [])
     @ (if \<not> totalNothing lib (Total c) then
          valueArg ''total'' (NewInt (cN (Total c))) # (if cExact (Total c) then [flagArg ''exact''] else [])
        else [])
     @ (if c_Error c \<noteq> [] then [Named ''error'' (GoString (c_Error c))] else [])"

definition ResultArgs :: "servalLib \<Rightarrow> Result \<Rightarrow> arg list" where
  "ResultArgs lib r =
     (if Ordered r then [flagArg ''ordered''] else [])
     @ (case ID r of
          None \<Rightarrow> []
        | Some v \<Rightarrow>
            [valueArg ''id'' v, valueArg (if Whole r then ''record'' else ''fields'') (BlockValue (asScript (r_Fields r)))]
            @ (if \<not> Whole r then
                 (if Named' (Has r) \<noteq> 0 then [valueArg ''map'' (NewInt (Named' (Has r)))] else [])
                 @ (if Ordered' (Has r) \<noteq> 0 then [valueArg ''len'' (NewInt (Ordered' (Has r)))] else [])
               else []))
     @ (case r_Complete r of None \<Rightarrow> [] | Some c \<Rightarrow> completeArgs lib c)"

text \<open>The statement a client sends one as, after the id of its query (\<open>Fill.result\<close> and \<open>Fill.place\<close> of
  \<open>client/query.go\<close>).\<close>

definition resultLine :: "servalLib \<Rightarrow> u64 \<Rightarrow> Result \<Rightarrow> string" where
  "resultLine lib qid r =
     EncodeStatement (Statement [] (if Place r then ''place'' else ''result'') [] 0
       (Arg [] FlagNone (Some (NewInt qid)) # ResultArgs lib r))"

subsection \<open>What is read is what was sent\<close>

definition completeSound :: "servalLib \<Rightarrow> Complete \<Rightarrow> bool" where
  "completeSound lib c \<longleftrightarrow> carried (Watermark c) \<and> notList (Watermark c)
     \<and> (Stop c = [] \<or> Stop c \<in> set (map (stopWord lib) stops))
     \<and> 0 \<le> sint (cN (First c)) \<and> (\<not> cExact (First c) \<longrightarrow> cN (First c) = 0) \<and> 0 \<le> sint (cN (Total c)) \<and> valid_utf8 (c_Error c)"

definition resultSound :: "servalLib \<Rightarrow> Result \<Rightarrow> bool" where
  "resultSound lib r \<longleftrightarrow>
     (case ID r of
        None \<Rightarrow> r_Fields r = [] \<and> \<not> Whole r \<and> Named' (Has r) = 0 \<and> Ordered' (Has r) = 0
      | Some v \<Rightarrow> wf_value v \<and> framed_value v \<and> \<not> isBlock v \<and> bagSound (r_Fields r)
          \<and> 0 \<le> sint (Named' (Has r)) \<and> 0 \<le> sint (Ordered' (Has r))
          \<and> (Whole r \<or> Place r \<longrightarrow> Named' (Has r) = 0 \<and> Ordered' (Has r) = 0) \<and> \<not> (Whole r \<and> Place r))
     \<and> (\<forall>c. r_Complete r = Some c \<longrightarrow> completeSound lib c)"

definition resultMeaning :: "Result \<Rightarrow> Result" where
  "resultMeaning r = r\<lparr>ID := map_option readBack (ID r)\<rparr>"

lemma result_names [simp]:
  "isName ''ordered''" "isName ''id''" "isName ''record''" "isName ''map''" "isName ''len''" "isName ''complete''"
  "isName ''watermark''" "isName ''total''" "isName ''first''" "isName ''exact''" "isName ''error''" "isName ''place''" "isName ''result''"
  by code_simp+

lemma resultArgsLoop_append: "resultArgsLoop lib (as @ bs) s = ebind (resultArgsLoop lib as s) (resultArgsLoop lib bs)"
proof (induction as arbitrary: s)
  case (Cons a as)
  then show ?case by (cases "resultArg lib a s") auto
qed simp

lemma flagArg_back [simp]: "readBackArg (flagArg n) = flagArg n" "a_name (flagArg n) = n" "a_value (flagArg n) = None" "a_flag (flagArg n) = FlagTrue"
  by (simp_all add: flagArg_def)

lemma isBlock_readBack [simp]: "isBlock (readBack v) = isBlock v"
  by (cases v) auto

lemma stop_names:
  assumes "servalDocumented lib" "w \<in> set (map (stopWord lib) stops)"
  shows "isName w" "w \<notin> set resultArgs" "constNamed (stopWord lib) stops w \<noteq> None"
  using assms constNamed_word[of "stopWord lib" stops]
  by (auto simp: servalDocumented_def list_all_iff stops_def)

text \<open>One argument of each kind.\<close>

lemma resultArg_flags:
  "resultArg lib (flagArg ''ordered'') s = Inr (s\<lparr>res := (res s)\<lparr>Ordered := True\<rparr>\<rparr>)"
  "resultArg lib (flagArg ''complete'') s = Inr (s\<lparr>ended := True\<rparr>)"
  "resultArg lib (flagArg ''exact'') s = Inr (s\<lparr>exact := True\<rparr>)"
  by (simp_all add: resultArg_def)

lemma resultArg_stop:
  assumes "servalDocumented lib" "w \<in> set (map (stopWord lib) stops)"
  shows "resultArg lib (flagArg w) s = Inr (s\<lparr>ending := (ending s)\<lparr>Stop := w\<rparr>, ended := True\<rparr>)"
  using stop_names[OF assms] by (simp add: resultArg_def resultArgs_def Let_def)

lemma resultArg_counts:
  assumes "0 \<le> sint n"
  shows "resultArg lib (valueArg ''map'' (NewInt n)) s = Inr (s\<lparr>res := (res s)\<lparr>Has := (Has (res s))\<lparr>Named' := n\<rparr>\<rparr>, counted := True\<rparr>)"
    "resultArg lib (valueArg ''len'' (NewInt n)) s = Inr (s\<lparr>res := (res s)\<lparr>Has := (Has (res s))\<lparr>Ordered' := n\<rparr>\<rparr>, counted := True\<rparr>)"
    "resultArg lib (valueArg ''total'' (NewInt n)) s =
       Inr (s\<lparr>ending := (ending s)\<lparr>Total := (Total (ending s))\<lparr>cN := n\<rparr>\<rparr>, ended := True, totalled := True\<rparr>)"
    "resultArg lib (valueArg ''first'' (NewInt n)) s = Inr (s\<lparr>ending := (ending s)\<lparr>First := exactly lib n\<rparr>, ended := True\<rparr>)"
  using assms by (simp_all add: resultArg_def countArg_def NewInt_def Let_def)

lemma resultArg_values:
  "\<not> isBlock v \<Longrightarrow> resultArg lib (valueArg ''id'' v) s = Inr (s\<lparr>res := (res s)\<lparr>ID := Some v\<rparr>\<rparr>)"
  "\<not> isBlock v \<Longrightarrow> resultArg lib (valueArg ''watermark'' v) s = Inr (s\<lparr>ending := (ending s)\<lparr>Watermark := asData v\<rparr>, ended := True\<rparr>)"
  "resultArg lib (valueArg ''error'' (StringValue t blob)) s = Inr (s\<lparr>ending := (ending s)\<lparr>c_Error := t\<rparr>, ended := True\<rparr>)"
  "ParseFields (Some v) = Inr bag \<Longrightarrow> resultArg lib (valueArg ''record'' v) s = Inr (s\<lparr>res := (res s)\<lparr>r_Fields := bag, Whole := True\<rparr>\<rparr>)"
  "ParseFields (Some v) = Inr bag \<Longrightarrow> resultArg lib (valueArg ''fields'' v) s = Inr (s\<lparr>res := (res s)\<lparr>r_Fields := bag, Whole := False\<rparr>\<rparr>)"
  by (simp_all add: resultArg_def identityArg_def wrapIn_def Let_def)

lemma readBack_int [simp]: "readBack (NewInt n) = NewInt n"
  by (simp add: NewInt_def)

lemma Named_error: "readBackArg (Named ''error'' (GoString t)) = valueArg ''error'' (StringValue t False)"
  by (simp add: Named_def NewString_def valueArg_def)

text \<open>The ending of a result, read after whatever came before.\<close>

lemma completeArgs_read:
  assumes "servalDocumented lib" "completeSound lib c" "ending s = emptyComplete"
  shows "resultArgsLoop lib (map readBackArg (completeArgs lib c)) s =
    Inr (s\<lparr>ending := c\<lparr>Total := \<lparr>cN = cN (Total c), cExact = False\<rparr>\<rparr>, ended := True,
       exact := exact s \<or> cExact (Total c), totalled := totalled s \<or> \<not> totalNothing lib (Total c)\<rparr>)"
proof -
  obtain w st fn fe tn te er where c: "c = \<lparr>Watermark = w, Stop = st, First = \<lparr>cN = fn, cExact = fe\<rparr>,
      Total = \<lparr>cN = tn, cExact = te\<rparr>, c_Error = er\<rparr>"
    by (cases c; cases "First c"; cases "Complete.Total c") auto
  have snd: "st = [] \<or> st \<in> set (map (stopWord lib) stops)" "0 \<le> sint fn" "\<not> fe \<longrightarrow> fn = 0" "0 \<le> sint tn"
    using assms(2) by (auto simp: completeSound_def c)
  have lib: "totalNothing lib \<lparr>cN = tn, cExact = te\<rparr> \<longleftrightarrow> tn = 0 \<and> \<not> te" "exactly lib n = \<lparr>cN = n, cExact = True\<rparr>" for n
    using assms(1) by (auto simp: servalDocumented_def)
  have mark: "\<not> isBlock (asWire d) \<and> asData (readBack (asWire d)) = Some d" if "w = Some d" for d
    using assms(2) that notList_block[of w] carried_reads[of w] by (auto simp: completeSound_def c asWirePtr_def)
  note stop = resultArg_stop[OF assms(1)]
  obtain s' where s: "s = s'\<lparr>ending := emptyComplete\<rparr>" using assms(3) by (metis reading.surjective reading.update_convs(2))
  have w: "resultArgsLoop lib (map readBackArg (case w of None \<Rightarrow> [] | Some w \<Rightarrow> [valueArg ''watermark'' (asWire w)])) t =
      Inr (if w = None then t else t\<lparr>ending := (ending t)\<lparr>Watermark := w\<rparr>, ended := True\<rparr>)" for t
    using mark by (cases w) (simp_all add: resultArg_values)
  have st: "resultArgsLoop lib (map readBackArg (if st \<noteq> [] then [flagArg st] else [])) t =
      Inr (if st = [] then t else t\<lparr>ending := (ending t)\<lparr>Stop := st\<rparr>, ended := True\<rparr>)" for t
    using snd(1) stop by auto
  have fst: "resultArgsLoop lib (map readBackArg (if fe then [valueArg ''first'' (NewInt fn)] else [])) t =
      Inr (if fe then t\<lparr>ending := (ending t)\<lparr>First := \<lparr>cN = fn, cExact = True\<rparr>\<rparr>, ended := True\<rparr> else t)" for t
    using resultArg_counts(4)[OF snd(2)] by (simp add: lib)
  have er: "resultArgsLoop lib (map readBackArg (if er \<noteq> [] then [Named ''error'' (GoString er)] else [])) t =
      Inr (if er = [] then t else t\<lparr>ending := (ending t)\<lparr>c_Error := er\<rparr>, ended := True\<rparr>)" for t
    by (simp add: Named_error resultArg_values)
  show ?thesis
    unfolding completeArgs_def c Complete.simps count.simps map_append resultArgsLoop_append lib
    using w st fst er snd(3) resultArg_counts(3)[OF snd(4)]
    by (cases w; cases "st = []"; cases "er = []"; cases fe)
      (auto simp: s emptyComplete_def resultArg_flags)
qed


text \<open>The record a result carries.\<close>

definition recordArgs :: "Result \<Rightarrow> arg list" where
  "recordArgs r =
     (case ID r of
        None \<Rightarrow> []
      | Some v \<Rightarrow>
          [valueArg ''id'' v, valueArg (if Whole r then ''record'' else ''fields'') (BlockValue (asScript (r_Fields r)))]
          @ (if \<not> Whole r then
               (if Named' (Has r) \<noteq> 0 then [valueArg ''map'' (NewInt (Named' (Has r)))] else [])
               @ (if Ordered' (Has r) \<noteq> 0 then [valueArg ''len'' (NewInt (Ordered' (Has r)))] else [])
             else []))"

lemma ResultArgs_parts:
  "ResultArgs lib r = (if Ordered r then [flagArg ''ordered''] else []) @ recordArgs r
     @ (case r_Complete r of None \<Rightarrow> [] | Some c \<Rightarrow> completeArgs lib c)"
  by (simp add: ResultArgs_def recordArgs_def)

lemma recordArgs_read:
  assumes "resultSound lib r" "res s = (emptyResult (Place r))\<lparr>Ordered := Ordered r\<rparr>"
  shows "resultArgsLoop lib (map readBackArg (recordArgs r)) s =
    Inr (s\<lparr>res := (resultMeaning r)\<lparr>r_Complete := None\<rparr>,
        counted := counted s \<or> Named' (Has r) \<noteq> 0 \<or> Ordered' (Has r) \<noteq> 0\<rparr>)"
proof -
  obtain ord i fs wh nm od pl cm where r: "r = \<lparr>Ordered = ord, ID = i, r_Fields = fs, Whole = wh,
      Has = \<lparr>Named' = nm, Ordered' = od\<rparr>, Place = pl, r_Complete = cm\<rparr>"
    by (cases r; cases "Has r") auto
  obtain en e1 e2 e3 e4 where s: "s = \<lparr>res = (emptyResult pl)\<lparr>Ordered := ord\<rparr>, ending = en, ended = e1, counted = e2,
      exact = e3, totalled = e4\<rparr>"
    using assms(2) by (cases s) (auto simp: r)
  show ?thesis
  proof (cases i)
    case None
    then show ?thesis using assms(1) by (simp add: r recordArgs_def resultSound_def s resultMeaning_def emptyResult_def)
  next
    case (Some v)
    then have a: "\<not> isBlock v" "bagSound fs" "0 \<le> sint nm" "0 \<le> sint od" "wh \<longrightarrow> nm = 0 \<and> od = 0"
      using assms(1) by (auto simp: resultSound_def r)
    show ?thesis
      using Some a resultArg_counts(1)[OF a(3)] resultArg_counts(2)[OF a(4)] ParseFields_written[OF a(2)]
      by (cases wh; cases "nm = 0"; cases "od = 0")
        (simp_all add: r recordArgs_def s resultMeaning_def emptyResult_def resultArg_values del: readBack.simps)
  qed
qed

lemma parseResult_written:
  assumes "servalDocumented lib" "resultSound lib r"
  shows "parseResult lib (map readBackArg (ResultArgs lib r)) (Place r) = Inr (resultMeaning r)"
proof -
  let ?s0 = "\<lparr>res = emptyResult (Place r), ending = emptyComplete, ended = False, counted = False, exact = False, totalled = False\<rparr>"
  let ?s1 = "?s0\<lparr>res := (emptyResult (Place r))\<lparr>Ordered := Ordered r\<rparr>\<rparr>"
  let ?s2 = "?s1\<lparr>res := (resultMeaning r)\<lparr>r_Complete := None\<rparr>, counted := Named' (Has r) \<noteq> 0 \<or> Ordered' (Has r) \<noteq> 0\<rparr>"
  have "resultArgsLoop lib (map readBackArg (if Ordered r then [flagArg ''ordered''] else [])) ?s0 = Inr ?s1"
    by (simp add: resultArg_flags emptyResult_def)
  moreover have "resultArgsLoop lib (map readBackArg (recordArgs r)) ?s1 = Inr ?s2"
    using recordArgs_read[OF assms(2), of ?s1] by simp
  moreover have "resultArgsLoop lib (map readBackArg (case r_Complete r of None \<Rightarrow> [] | Some c \<Rightarrow> completeArgs lib c)) ?s2 =
      Inr (case r_Complete r of None \<Rightarrow> ?s2
         | Some c \<Rightarrow> ?s2\<lparr>ending := c\<lparr>Total := \<lparr>cN = cN (Complete.Total c), cExact = False\<rparr>\<rparr>, ended := True,
             exact := cExact (Complete.Total c), totalled := \<not> totalNothing lib (Complete.Total c)\<rparr>)"
    using completeArgs_read[OF assms(1), of _ ?s2] assms(2) by (auto simp: resultSound_def split: option.splits)
  ultimately have loop: "resultArgsLoop lib (map readBackArg (ResultArgs lib r)) ?s0 =
      Inr (case r_Complete r of None \<Rightarrow> ?s2
         | Some c \<Rightarrow> ?s2\<lparr>ending := c\<lparr>Total := \<lparr>cN = cN (Complete.Total c), cExact = False\<rparr>\<rparr>, ended := True,
             exact := cExact (Complete.Total c), totalled := \<not> totalNothing lib (Complete.Total c)\<rparr>)"
    unfolding ResultArgs_parts map_append resultArgsLoop_append by simp
  have m: "r_Fields (resultMeaning r) = r_Fields r" "Whole (resultMeaning r) = Whole r" "Place (resultMeaning r) = Place r"
    "ID (resultMeaning r) = None \<longleftrightarrow> ID r = None" "r_Complete (resultMeaning r) = r_Complete r"
    by (simp_all add: resultMeaning_def)
  have same: "(resultMeaning r)\<lparr>r_Complete := r_Complete r\<rparr> = resultMeaning r" by (simp add: resultMeaning_def)
  have ok: "\<not> (r_Fields r \<noteq> [] \<and> ID r = None)" "\<not> ((Named' (Has r) \<noteq> 0 \<or> Ordered' (Has r) \<noteq> 0) \<and> Whole r)"
    "\<not> (Place r \<and> ((Named' (Has r) \<noteq> 0 \<or> Ordered' (Has r) \<noteq> 0) \<or> Whole r))"
    using assms(2) by (auto simp: resultSound_def split: option.splits)
  have tot: "cExact (Complete.Total c) \<Longrightarrow> \<not> totalNothing lib (Complete.Total c)" for c
    using assms(1) by (simp add: servalDocumented_def)
  show ?thesis
  proof (cases "r_Complete r")
    case None
    then show ?thesis using ok same unfolding parseResult_def loop by (auto simp: Let_def m)
  next
    case (Some c)
    then show ?thesis using ok same tot[of c] unfolding parseResult_def loop by (auto simp: Let_def m)
  qed
qed

lemma completeArgs_spelled:
  assumes "servalDocumented lib" "completeSound lib c"
  shows "list_all (\<lambda>a. wf_arg a \<and> framed_arg a) (completeArgs lib c)"
proof -
  have flags: "isName n \<Longrightarrow> wf_arg (flagArg n) \<and> framed_arg (flagArg n)" for n by (simp add: flagArg_def)
  have w: "list_all (\<lambda>a. wf_arg a \<and> framed_arg a) (case Watermark c of None \<Rightarrow> [] | Some w \<Rightarrow> [valueArg ''watermark'' (asWire w)])"
    using assms(2) carried_asWire_spelled[of "Watermark c"]
    by (cases "Watermark c") (auto simp: completeSound_def asWirePtr_def wf_valueArg simp del: wf_arg.simps framed_arg.simps)
  have e: "wf_arg (Named ''error'' (GoString t)) \<and> framed_arg (Named ''error'' (GoString t))" if "valid_utf8 t" for t
    using that by (simp add: Named_def NewString_def)
  have n: "wf_arg (valueArg ''first'' (NewInt i)) \<and> framed_arg (valueArg ''first'' (NewInt i))"
    "wf_arg (valueArg ''total'' (NewInt i)) \<and> framed_arg (valueArg ''total'' (NewInt i))" for i
    by (simp_all add: wf_valueArg NewInt_def del: wf_arg.simps framed_arg.simps)
  have st: "Stop c \<noteq> [] \<longrightarrow> isName (Stop c)" using stop_names(1)[OF assms(1)] assms(2) by (auto simp: completeSound_def)
  show ?thesis using w st e[of "c_Error c"] n flags assms(2)
    unfolding completeArgs_def list_all_append list_all_if by (auto simp: completeSound_def)
qed

lemma recordArgs_spelled:
  assumes "resultSound lib r" shows "list_all (\<lambda>a. wf_arg a \<and> framed_arg a) (recordArgs r)"
proof (cases "ID r")
  case (Some v)
  then have v: "wf_value v" "framed_value v" "bagSound (r_Fields r)" using assms by (auto simp: resultSound_def)
  have n: "wf_arg (valueArg ''map'' (NewInt i)) \<and> framed_arg (valueArg ''map'' (NewInt i))"
    "wf_arg (valueArg ''len'' (NewInt i)) \<and> framed_arg (valueArg ''len'' (NewInt i))" for i
    by (simp_all add: wf_valueArg NewInt_def del: wf_arg.simps framed_arg.simps)
  have i: "wf_arg (valueArg ''id'' v) \<and> framed_arg (valueArg ''id'' v)"
    using v by (simp add: wf_valueArg del: wf_arg.simps framed_arg.simps)
  have b: "wf_arg (valueArg n (BlockValue (asScript (r_Fields r)))) \<and> framed_arg (valueArg n (BlockValue (asScript (r_Fields r))))"
    if "isName n" for n
    using bag_spelled[OF v(3)] that by (simp add: wf_valueArg del: wf_arg.simps framed_arg.simps wf_value.simps framed_value.simps)
  show ?thesis using i b n Some unfolding recordArgs_def by (simp del: wf_arg.simps framed_arg.simps)
qed (simp add: recordArgs_def)

lemma ResultArgs_spelled:
  assumes "servalDocumented lib" "resultSound lib r"
  shows "list_all (\<lambda>a. wf_arg a \<and> framed_arg a) (ResultArgs lib r)"
  using recordArgs_spelled[OF assms(2)] completeArgs_spelled[OF assms(1)] assms(2)
  unfolding ResultArgs_parts list_all_append list_all_if
  by (auto simp: resultSound_def flagArg_def split: option.splits)


subsection \<open>A result is a codec\<close>

definition resultShape :: "servalLib \<Rightarrow> u64 \<times> Result \<Rightarrow> statement" where
  "resultShape lib q =
     Statement [] (if Place (snd q) then ''place'' else ''result'') [] 0
       (Arg [] FlagNone (Some (NewInt (fst q))) # ResultArgs lib (snd q))"

text \<open>What the display reads off the statement: the id of the query, then the result under its verb.\<close>

definition readResult :: "servalLib \<Rightarrow> statement \<Rightarrow> goError + u64 \<times> Result" where
  "readResult lib st =
     (case st_args st of
        Arg [] FlagNone (Some (IntValue qid)) # as \<Rightarrow>
          ebind (if st_verb st = ''place'' then ParsePlace lib as else ParseResult lib as) (\<lambda>r. Inr (qid, r))
      | _ \<Rightarrow> Inl (Errorf ''no query'' []))"

interpretation result: framed_codec "resultShape lib" "\<lambda>(qid, r). resultLine lib qid r" "readResult lib"
  "\<lambda>(qid, r). servalDocumented lib \<and> resultSound lib r" "\<lambda>(qid, r). (qid, resultMeaning r)" for lib
proof unfold_locales
  fix q :: "u64 \<times> Result" assume s: "case q of (qid, r) \<Rightarrow> servalDocumented lib \<and> resultSound lib r"
  obtain qid r where q: "q = (qid, r)" by (cases q)
  have a: "servalDocumented lib" "resultSound lib r" using s by (auto simp: q)
  have args: "list_all wf_arg (ResultArgs lib r)" "list_all framed_arg (ResultArgs lib r)"
    using ResultArgs_spelled[OF a] by (auto simp: list_all_iff)
  have h: "isHead ''place''" "isHead ''result''" by code_simp+
  show "(case q of (qid, r) \<Rightarrow> resultLine lib qid r) = EncodeStatement (resultShape lib q)"
    by (simp add: q resultLine_def resultShape_def)
  show "wf_statement (resultShape lib q)" "framed_statement (resultShape lib q)"
    using args h by (auto simp: q resultShape_def NewInt_def)
  show "readResult lib (readBackStatement (resultShape lib q)) = Inr (case q of (qid, r) \<Rightarrow> (qid, resultMeaning r))"
    using parseResult_written[OF a] by (cases "Place r") (simp_all add: q resultShape_def readResult_def NewInt_def ParsePlace_def ParseResult_def)
qed

text \<open>An answer to a query crosses: the statement a client sends a result or a place as is framed by
  the scanner, addressed to the query it was for, and is read as the same record under the same
  identity, whole or in part, with the same totals and the same ending (watermark, reason to stop,
  position, total and whether it is exact, refusal).\<close>

theorem result_delivered:
  assumes "servalDocumented lib" "resultSound lib r" "unread s = sendLine (resultLine lib qid r) @ tail"
  shows "\<exists>t st. Next s = (ScanText t, s\<lparr>unread := tail\<rparr>) \<and> Parse t = Some (Inr (Script [st]))
    \<and> readResult lib st = Inr (qid, r\<lparr>ID := map_option readBack (ID r)\<rparr>)"
  using result.delivered[of lib "(qid, r)" s tail] assms by (simp add: resultMeaning_def)

theorem result_delivered_witness:
  "\<exists>t st. Next (NewScanner (''result 9 ordered id=42 fields={ name \"a;b\"; kind folder; done true } map=5 complete exhausted total=0 exact'' @ [char_of rNL]) EndOfFile)
      = (ScanText t, NewScanner [] EndOfFile) \<and> Parse t = Some (Inr (Script [st]))
    \<and> readResult spelled st = Inr (9, \<lparr>Ordered = True, ID = Some (IntValue 42),
        r_Fields = [Field ''name'' (Some (DText ''a;b'')), Field ''kind'' (Some (DSymbol ''folder'')), Field ''done'' (Some (DBool True))],
        Whole = False, Has = \<lparr>Named' = 5, Ordered' = 0\<rparr>, Place = False,
        r_Complete = Some \<lparr>Watermark = None, Stop = ''exhausted'', First = \<lparr>cN = 0, cExact = False\<rparr>,
          Total = \<lparr>cN = 0, cExact = True\<rparr>, c_Error = []\<rparr>\<rparr>)"
proof -
  let ?c = "\<lparr>Watermark = None, Stop = ''exhausted'', First = \<lparr>cN = 0, cExact = False\<rparr>,
          Total = \<lparr>cN = 0, cExact = True\<rparr>, c_Error = []\<rparr>"
  let ?fs = "[Field ''name'' (Some (DText ''a;b'')), Field ''kind'' (Some (DSymbol ''folder'')), Field ''done'' (Some (DBool True))]"
  let ?r = "\<lparr>Ordered = True, ID = Some (IntValue 42), r_Fields = ?fs,
        Whole = False, Has = \<lparr>Named' = 5, Ordered' = 0\<rparr>, Place = False, r_Complete = Some ?c\<rparr>"
  let ?t = "''result 9 ordered id=42 fields={ name \"a;b\"; kind folder; done true } map=5 complete exhausted total=0 exact''"
  have "completeSound spelled ?c" "bagSound ?fs" "0 \<le> sint (5::u64)" by code_simp+
  then have "resultSound spelled ?r" by (simp add: resultSound_def)
  moreover have "resultLine spelled 9 ?r = ?t" by code_simp
  ultimately show ?thesis
    using result_delivered[OF servalDocumented_spelled, of ?r "NewScanner (?t @ [char_of rNL]) EndOfFile" 9 "[]"]
    by (simp add: NewScanner_def sendLine_def)
qed

text \<open>What a result may not say is refused whatever else it says: a record with no identity, a
  count beside a whole record, a place that says how much of the record there is, \<open>exact\<close> with no
  total. Everything \<open>parseResult\<close> accepts keeps to these rules.\<close>

theorem parseResult_accepts:
  assumes "parseResult lib args place = Inr r"
  shows "Place r = place \<and> (r_Fields r \<noteq> [] \<longrightarrow> ID r \<noteq> None)
    \<and> (Whole r \<longrightarrow> Named' (Has r) = 0 \<and> Ordered' (Has r) = 0)
    \<and> (place \<longrightarrow> \<not> Whole r \<and> Named' (Has r) = 0 \<and> Ordered' (Has r) = 0)
    \<and> (\<forall>c. r_Complete r = Some c \<longrightarrow> 0 \<le> sint (cN (Complete.Total c)))"
proof -
  define inv where "inv s \<longleftrightarrow> Place (res s) = place \<and> (\<not> counted s \<longrightarrow> Named' (Has (res s)) = 0 \<and> Ordered' (Has (res s)) = 0)
      \<and> 0 \<le> sint (cN (Complete.Total (ending s)))" for s :: reading
  have count: "countArg a = Inr n \<Longrightarrow> 0 \<le> sint n" for a n
    by (auto simp: countArg_def split: option.splits wvalue.splits if_splits)
  have ebindI: "ebind m f = Inr y \<Longrightarrow> \<exists>x. m = Inr x \<and> f x = Inr y" for m :: "goError + 'x" and f and y :: 'y
    by (cases m) auto
  define Q where "Q m \<longleftrightarrow> (\<forall>s'. m = Inr s' \<longrightarrow> inv s')" for m :: "goError + reading"
  have Q: "Q a \<Longrightarrow> Q b \<Longrightarrow> Q (if c then a else b)" "inv s \<Longrightarrow> Q (Inr s)" "Q (Inl e)" for a b c s e
    by (simp_all add: Q_def)
  have Qbind: "(\<And>x. m = Inr x \<Longrightarrow> Q (f x)) \<Longrightarrow> Q (ebind m f)" for m :: "goError + 'x" and f
    by (cases m) (auto simp: Q_def)
  have Qerr: "(\<And>t. Q (f t)) \<Longrightarrow> Q (case v of Some (StringValue t blob) \<Rightarrow> f t | _ \<Rightarrow> Inl e)" for v f e
    by (auto simp: Q_def split: option.splits wvalue.splits)
  have step: "inv s'" if "inv s" "resultArg lib a s = Inr s'" for a and s s' :: reading
  proof -
    have "Q (resultArg lib a s)" unfolding resultArg_def Let_def
      by (intro Q Qbind Qerr) (use \<open>inv s\<close> in \<open>simp_all add: inv_def count\<close>)
    then show ?thesis using that(2) by (simp add: Q_def)
  qed
  have loop: "inv s'" if "inv s" "resultArgsLoop lib args s = Inr s'" for args and s s' :: reading
    using that by (induction args arbitrary: s) (auto dest!: ebindI intro: step)
  let ?s0 = "\<lparr>res = emptyResult place, ending = emptyComplete, ended = False, counted = False, exact = False, totalled = False\<rparr>"
  have "inv ?s0" by (simp add: inv_def emptyResult_def emptyComplete_def)
  moreover obtain s where s: "resultArgsLoop lib args ?s0 = Inr s"
    using assms unfolding parseResult_def by (auto dest!: ebindI)
  ultimately have "inv s" using loop by blast
  then show ?thesis using assms s unfolding parseResult_def inv_def by (auto simp: Let_def split: if_splits)
qed

theorem parseResult_accepts_witness:
  "parseResult spelled [valueArg ''id'' (IntValue 4), valueArg ''map'' (IntValue 2)] False = Inr \<lparr>Ordered = False,
     ID = Some (IntValue 4), r_Fields = [], Whole = False, Has = \<lparr>Named' = 2, Ordered' = 0\<rparr>, Place = False, r_Complete = None\<rparr>
   \<and> \<not> Place \<lparr>Ordered = False,
     ID = Some (IntValue 4), r_Fields = [], Whole = False, Has = \<lparr>Named' = 2, Ordered' = 0\<rparr>, Place = False, r_Complete = None\<rparr>"
proof -
  have p: "parseResult spelled [valueArg ''id'' (IntValue 4), valueArg ''map'' (IntValue 2)] False = Inr \<lparr>Ordered = False,
     ID = Some (IntValue 4), r_Fields = [], Whole = False, Has = \<lparr>Named' = 2, Ordered' = 0\<rparr>, Place = False, r_Complete = None\<rparr>"
    by code_simp
  from parseResult_accepts[OF p] p show ?thesis by simp
qed

end
