(* ===== verification/WireAnswer.thy ===== *)
theory WireAnswer
  imports WireResult
begin

text \<open>
  The two other things an application says without being part of a result: what an \<open>ask\<close> is answered
  with (\<open>wire/answer.go\<close>) and what has stopped being true (\<open>wire/stale.go\<close>).
\<close>

subsection \<open>Answers\<close>

record Answer =
  To :: string
  Carries :: "arg list"
  Complete :: bool
  Error :: string

definition answerArg :: "arg \<Rightarrow> Answer \<Rightarrow> goError + Answer" where
  "answerArg a s =
     (if a_name a = ''to'' then
        (case a_value a of
           Some (WordValue w) \<Rightarrow> Inr (s\<lparr>To := w\<rparr>)
         | _ \<Rightarrow> Inl (Errorf ''to: expected the key the ask was given'' []))
      else if a_name a = ''complete'' then
        (if a_value a \<noteq> None \<or> a_flag a \<noteq> FlagTrue then Inl (Errorf ''complete: takes no value'' [])
         else Inr (s\<lparr>Complete := True\<rparr>))
      else if a_name a = ''error'' then
        (case a_value a of
           Some (StringValue t blob) \<Rightarrow> Inr (s\<lparr>Error := t\<rparr>)
         | _ \<Rightarrow> Inl (Errorf ''error: expected a reason'' []))
      else Inr (s\<lparr>Carries := Carries s @ [a]\<rparr>))"

fun answerArgs :: "arg list \<Rightarrow> Answer \<Rightarrow> goError + Answer" where
  "answerArgs [] s = Inr s"
| "answerArgs (a # as) s = ebind (answerArg a s) (answerArgs as)"

definition ParseAnswer :: "arg list \<Rightarrow> goError + Answer" where
  "ParseAnswer args = answerArgs args \<lparr>To = [], Carries = [], Complete = False, Error = []\<rparr>"

definition AnswerArgs :: "Answer \<Rightarrow> arg list" where
  "AnswerArgs a =
     (if To a \<noteq> [] then [valueArg ''to'' (WordValue (To a))] else [])
     @ Carries a
     @ (if Complete a then [flagArg ''complete''] else [])
     @ (if Error a \<noteq> [] then [Named ''error'' (GoString (Error a))] else [])"

definition EncodeAnswer :: "Answer \<Rightarrow> string" where
  "EncodeAnswer a = ''answer'' @ encodeArgs (AnswerArgs a)"

text \<open>\<open>Record\<close>: the identity, the fields, whether they are all of them, and whether a record is there. The
  loop stops at the first bag it cannot read.\<close>

fun recordLoop :: "arg list \<Rightarrow> wvalue option \<times> field list \<times> bool \<times> bool \<Rightarrow> wvalue option \<times> field list \<times> bool \<times> bool" where
  "recordLoop [] st = st"
| "recordLoop (a # as) (i, fs, whole, ok) =
     (if a_name a = ''id'' then recordLoop as (a_value a, fs, whole, ok)
      else if a_name a = ''record'' then
        (case ParseFields (a_value a) of
           Inl e \<Rightarrow> (None, [], False, False)
         | Inr f \<Rightarrow> recordLoop as (i, f, True, True))
      else if a_name a = ''fields'' then
        (case ParseFields (a_value a) of
           Inl e \<Rightarrow> (None, [], False, False)
         | Inr f \<Rightarrow> recordLoop as (i, f, whole, True))
      else recordLoop as (i, fs, whole, ok))"

definition RecordOf :: "Answer \<Rightarrow> wvalue option \<times> field list \<times> bool \<times> bool" where
  "RecordOf a = recordLoop (Carries a) (None, [], False, False)"

definition ArgOf :: "Answer \<Rightarrow> string \<Rightarrow> arg option" where
  "ArgOf a name = argNamed name (Carries a)"

text \<open>The readers, with the bodies they share with those of an event.\<close>

definition answerUint :: "Answer \<Rightarrow> string \<Rightarrow> u64 option" where "answerUint a name = readUint (ArgOf a name)"
definition answerInt :: "Answer \<Rightarrow> string \<Rightarrow> u64 option" where "answerInt a name = readInt (ArgOf a name)"
definition answerText :: "Answer \<Rightarrow> string \<Rightarrow> string option" where "answerText a name = readText (ArgOf a name)"
definition answerWord :: "Answer \<Rightarrow> string \<Rightarrow> string option" where "answerWord a name = readWord (ArgOf a name)"
definition answerFlag :: "Answer \<Rightarrow> string \<Rightarrow> flagState" where "answerFlag a name = readFlag (ArgOf a name)"
definition answerBlob :: "Answer \<Rightarrow> string \<Rightarrow> string option" where "answerBlob a name = answerText a name"

subsection \<open>An answer is a codec\<close>

definition answerSound :: "Answer \<Rightarrow> bool" where
  "answerSound a \<longleftrightarrow>
     (To a = [] \<or> IsWord (To a) \<or> protectable (To a) \<and> list_all plainByte (To a)) \<and> valid_utf8 (Error a)
     \<and> list_all (\<lambda>b. wf_arg b \<and> framed_arg b \<and> a_name b \<noteq> [] \<and> a_name b \<notin> {''to'', ''complete'', ''error''}) (Carries a)"

definition answerMeaning :: "Answer \<Rightarrow> Answer" where
  "answerMeaning a = a\<lparr>Carries := map readBackArg (Carries a)\<rparr>"

definition answerShape :: "Answer \<Rightarrow> statement" where
  "answerShape a = Statement [] ''answer'' [] 0 (AnswerArgs a)"

definition decodeAnswer :: "statement \<Rightarrow> goError + Answer" where
  "decodeAnswer st = ParseAnswer (st_args st)"

lemma answerArgs_append: "answerArgs (as @ bs) s = ebind (answerArgs as s) (answerArgs bs)"
proof (induction as arbitrary: s)
  case (Cons a as)
  then show ?case by (cases "answerArg a s") auto
qed simp

lemma readBackArg_name: "a_name b \<noteq> [] \<Longrightarrow> a_name (readBackArg b) = a_name b"
  by (simp add: readBackArg_named)

lemma answerArgs_carried:
  assumes "list_all (\<lambda>b. a_name b \<noteq> [] \<and> a_name b \<notin> {''to'', ''complete'', ''error''}) bs"
  shows "answerArgs (map readBackArg bs) s = Inr (s\<lparr>Carries := Carries s @ map readBackArg bs\<rparr>)"
  using assms by (induction bs arbitrary: s) (auto simp: answerArg_def readBackArg_name)

interpretation answer: framed_codec answerShape EncodeAnswer decodeAnswer answerSound answerMeaning
proof unfold_locales
  fix a :: Answer assume s: "answerSound a"
  have n: "isHead ''answer''" "isName ''to''" by code_simp+
  have c: "list_all wf_arg (Carries a)" "list_all framed_arg (Carries a)"
    "list_all (\<lambda>b. a_name b \<noteq> [] \<and> a_name b \<notin> {''to'', ''complete'', ''error''}) (Carries a)"
    using s by (auto simp: answerSound_def list_all_iff)
  show "EncodeAnswer a = EncodeStatement (answerShape a)"
    by (simp add: EncodeAnswer_def answerShape_def encodeArgs_def)
  have to: "wf_value (WordValue (To a)) \<and> framed_value (WordValue (To a))" if "To a \<noteq> []"
    using s that by (auto simp: answerSound_def framedWord_def)
  have e: "wf_arg (Named ''error'' (GoString (Error a))) \<and> framed_arg (Named ''error'' (GoString (Error a)))"
    using s by (simp add: Named_def NewString_def answerSound_def)
  show "wf_statement (answerShape a)" "framed_statement (answerShape a)"
    using c n to e unfolding answerShape_def AnswerArgs_def
    by (auto simp: wf_valueArg flagArg_def simp del: wf_value.simps framed_value.simps)
  have "readBack (WordValue w) = WordValue w" for w by simp
  then show "decodeAnswer (readBackStatement (answerShape a)) = Inr (answerMeaning a)"
    by (simp add: decodeAnswer_def answerShape_def AnswerArgs_def ParseAnswer_def answerMeaning_def answerArgs_append
        answerArgs_carried[OF c(3)] answerArg_def Named_error)
qed


text \<open>An answer crosses the wire: its line is framed and parses, it is read with the same correlation
  key, terminator and refusal, and every reader answers for what it carries as it did on the answer
  that was sent, whatever vocabulary the question has.\<close>

theorem answer_delivered:
  assumes "answerSound a" "unread s = sendLine (EncodeAnswer a) @ tail"
  shows "\<exists>t st a'. Next s = (ScanText t, s\<lparr>unread := tail\<rparr>) \<and> Parse t = Some (Inr (Script [st]))
    \<and> ParseAnswer (st_args st) = Inr a' \<and> To a' = To a \<and> Complete a' = Complete a \<and> Error a' = Error a
    \<and> (\<forall>n. answerUint a' n = answerUint a n \<and> answerInt a' n = answerInt a n \<and> answerText a' n = answerText a n
         \<and> answerWord a' n = answerWord a n \<and> answerFlag a' n = answerFlag a n \<and> answerBlob a' n = answerBlob a n)"
proof -
  have names: "list_all (\<lambda>b. a_name b \<noteq> []) (Carries a)" using assms(1) by (auto simp: answerSound_def list_all_iff)
  have f: "ArgOf (answerMeaning a) n = map_option readBackArg (ArgOf a n)" for n
    using argNamed_readBack[OF names] by (simp add: ArgOf_def answerMeaning_def)
  have ne: "\<And>b. ArgOf a n = Some b \<Longrightarrow> a_name b \<noteq> []" for n using argNamed_name names by (auto simp: ArgOf_def)
  have readers: "answerUint (answerMeaning a) n = answerUint a n" "answerInt (answerMeaning a) n = answerInt a n"
    "answerText (answerMeaning a) n = answerText a n" "answerWord (answerMeaning a) n = answerWord a n"
    "answerFlag (answerMeaning a) n = answerFlag a n" "answerBlob (answerMeaning a) n = answerBlob a n" for n
    using readers_readBack[of "ArgOf a n"] ne
    by (simp_all add: answerUint_def answerInt_def answerText_def answerWord_def answerFlag_def answerBlob_def f)
  have env: "To (answerMeaning a) = To a" "Complete (answerMeaning a) = Complete a" "Error (answerMeaning a) = Error a"
    by (simp_all add: answerMeaning_def)
  show ?thesis using answer.delivered[OF assms] readers env unfolding decodeAnswer_def by blast
qed

theorem answer_delivered_witness:
  "\<exists>t st a'. Next (NewScanner (''answer to=a1 size=3 kind=tree complete'' @ [char_of rNL]) EndOfFile) = (ScanText t, NewScanner [] EndOfFile)
    \<and> Parse t = Some (Inr (Script [st])) \<and> ParseAnswer (st_args st) = Inr a' \<and> To a' = ''a1'' \<and> Complete a'
    \<and> answerUint a' ''size'' = Some 3 \<and> answerWord a' ''kind'' = Some ''tree''"
proof -
  let ?a = "\<lparr>To = ''a1'', Carries = [Arg ''size'' FlagNone (Some (IntValue 3)), Arg ''kind'' FlagNone (Some (WordValue ''tree''))],
    Complete = True, Error = []\<rparr>"
  let ?t = "''answer to=a1 size=3 kind=tree complete''"
  have a: "answerSound ?a" "EncodeAnswer ?a = ?t" "answerUint ?a ''size'' = Some 3" "answerWord ?a ''kind'' = Some ''tree''" by code_simp+
  have u: "unread (NewScanner (?t @ [char_of rNL]) EndOfFile) = sendLine (EncodeAnswer ?a) @ []"
    by (simp add: NewScanner_def sendLine_def a(2))
  have f: "(NewScanner (?t @ [char_of rNL]) EndOfFile)\<lparr>unread := []\<rparr> = NewScanner [] EndOfFile" by (simp add: NewScanner_def)
  show ?thesis using answer_delivered[OF a(1) u] unfolding f a(3,4) by (metis (no_types, lifting) a(3) a(4) Answer.select_convs(1,3))
qed

subsection \<open>What has stopped being true\<close>

record Stale =
  StaleSource :: string
  StaleID :: "wvalue option"
  How :: change
  StaleFields :: "string list"

definition staleArg :: "servalLib \<Rightarrow> arg \<Rightarrow> Stale \<times> bool \<times> arg option \<Rightarrow> goError + Stale \<times> bool \<times> arg option" where
  "staleArg lib a st =
     (case st of (s, said, flds) \<Rightarrow>
        if a_name a = ''source'' then
          (case a_value a of
             Some (StringValue t blob) \<Rightarrow> Inr (s\<lparr>StaleSource := t\<rparr>, said, flds)
           | _ \<Rightarrow> Inl (Errorf ''source: expected the name the application serves them under'' []))
        else if a_name a = ''id'' then
          (case a_value a of
             None \<Rightarrow> Inl (Errorf ''id: expected a record's identity'' [])
           | Some v \<Rightarrow> Inr (s\<lparr>StaleID := Some v\<rparr>, said, flds))
        else if a_name a = ''how'' then
          (case a_value a of
             Some (WordValue w) \<Rightarrow>
               (case constNamed (changeWord lib) changes w of
                  None \<Rightarrow> Inl (Errorf ''how: %q is not one of added, removed, replaced, altered'' [w])
                | Some c \<Rightarrow> Inr (s\<lparr>How := c\<rparr>, True, flds))
           | _ \<Rightarrow> Inl (Errorf ''how: expected one of added, removed, replaced, altered'' []))
        else if a_name a = ''fields'' then Inr (s, said, Some a)
        else Inl (Errorf ''stale: %s= is not one of its arguments'' [a_name a]))"

fun staleArgs :: "servalLib \<Rightarrow> arg list \<Rightarrow> Stale \<times> bool \<times> arg option \<Rightarrow> goError + Stale \<times> bool \<times> arg option" where
  "staleArgs lib [] st = Inr st"
| "staleArgs lib (a # as) st = ebind (staleArg lib a st) (staleArgs lib as)"

definition staleField :: "field \<Rightarrow> goError + string" where
  "staleField f =
     (if f_name f = [] then Inl (Errorf ''fields: a field is named, and fields carries one that is not'' [])
      else if f_value f \<noteq> None then Inl (Errorf ''fields: stale names fields and not their values; %s carries one'' [f_name f])
      else Inr (f_name f))"

definition ParseStale :: "servalLib \<Rightarrow> arg list \<Rightarrow> goError + Stale" where
  "ParseStale lib args =
     ebind (staleArgs lib args (\<lparr>StaleSource = [], StaleID = None, How = Replaced, StaleFields = []\<rparr>, False, None))
       (\<lambda>(s, said, flds).
          if StaleSource s = [] then Inl (Errorf ''stale: expected source='' [])
          else case flds of
                 None \<Rightarrow> Inr s
               | Some a \<Rightarrow>
                   (if \<not> said \<or> How s \<noteq> Altered then
                      Inl (Errorf ''stale: fields= names what an alteration touched, and this is %s'' [changeWord lib (How s)])
                    else ebind (wrapIn ''fields'' (ParseFields (a_value a))) (\<lambda>bag.
                      ebind (traverse staleField bag) (\<lambda>names. Inr (s\<lparr>StaleFields := names\<rparr>)))))"

definition StaleArgs :: "servalLib \<Rightarrow> Stale \<Rightarrow> arg list" where
  "StaleArgs lib s =
     [Named ''source'' (GoString (StaleSource s))]
     @ (case StaleID s of None \<Rightarrow> [] | Some v \<Rightarrow> [valueArg ''id'' v])
     @ [valueArg ''how'' (WordValue (changeWord lib (How s)))]
     @ (if StaleFields s \<noteq> [] then [valueArg ''fields'' (BlockValue (asScript (map (\<lambda>f. Field f None) (StaleFields s))))] else [])"

definition EncodeStale :: "servalLib \<Rightarrow> Stale \<Rightarrow> string" where
  "EncodeStale lib s = ''stale'' @ encodeArgs (StaleArgs lib s)"

text \<open>\<open>Notice\<close>: the notice as serval states it.\<close>

record Notice =
  n_Change :: change
  n_Fields :: "string list"
  n_First :: "data option"

definition NoticeOf :: "Stale \<Rightarrow> Notice" where
  "NoticeOf s = \<lparr>n_Change = How s, n_Fields = StaleFields s, n_First = asDataPtr (StaleID s)\<rparr>"

definition staleSound :: "servalLib \<Rightarrow> Stale \<Rightarrow> bool" where
  "staleSound lib s \<longleftrightarrow> servalDocumented lib \<and> StaleSource s \<noteq> [] \<and> valid_utf8 (StaleSource s)
     \<and> (\<forall>v. StaleID s = Some v \<longrightarrow> wf_value v \<and> framed_value v)
     \<and> list_all isHead (StaleFields s) \<and> (How s \<noteq> Altered \<longrightarrow> StaleFields s = [])"

definition staleMeaning :: "Stale \<Rightarrow> Stale" where
  "staleMeaning s = s\<lparr>StaleID := map_option readBack (StaleID s)\<rparr>"

definition staleShape :: "servalLib \<Rightarrow> Stale \<Rightarrow> statement" where
  "staleShape lib s = Statement [] ''stale'' [] 0 (StaleArgs lib s)"

lemma change_word:
  assumes "servalDocumented lib"
  shows "constNamed (changeWord lib) changes (changeWord lib c) = Some c" "IsWord (changeWord lib c)"
  using assms constNamed_word[of "changeWord lib" changes c]
  by (cases c; auto simp: servalDocumented_def changes_def)+

interpretation stale: framed_codec "staleShape lib" "EncodeStale lib" "\<lambda>st. ParseStale lib (st_args st)" "staleSound lib" staleMeaning for lib
proof unfold_locales
  fix s assume s: "staleSound lib s"
  obtain src i how fs where r: "s = \<lparr>StaleSource = src, StaleID = i, How = how, StaleFields = fs\<rparr>" by (cases s)
  have a: "servalDocumented lib" "src \<noteq> []" "valid_utf8 src" "list_all isHead fs" "how \<noteq> Altered \<longrightarrow> fs = []"
    "\<And>v. i = Some v \<Longrightarrow> wf_value v \<and> framed_value v"
    using s by (auto simp: staleSound_def r)
  note w = change_word[OF a(1), of how]
  have n: "isHead ''stale''" "isName ''how''" by code_simp+
  have bag: "bagSound (map (\<lambda>f. Field f None) fs)" using a(4) by (auto simp: bagSound_def list_all_iff carried_def)
  show "EncodeStale lib s = EncodeStatement (staleShape lib s)"
    by (simp add: EncodeStale_def staleShape_def encodeArgs_def)
  have src: "wf_arg (Named ''source'' (GoString src)) \<and> framed_arg (Named ''source'' (GoString src))"
    using a(3) by (simp add: Named_def NewString_def)
  have word: "wf_value (WordValue (changeWord lib how)) \<and> framed_value (WordValue (changeWord lib how))"
    using w(2) by (simp add: framedWord_def)
  have "list_all wf_arg (StaleArgs lib s)" "list_all framed_arg (StaleArgs lib s)"
    using src word bag_spelled[OF bag] a(6) n
    by (cases i; auto simp: r StaleArgs_def wf_valueArg simp del: wf_value.simps framed_value.simps wf_arg.simps framed_arg.simps)+
  then show "wf_statement (staleShape lib s)" "framed_statement (staleShape lib s)"
    using n by (auto simp: staleShape_def)
  have src': "readBackArg (Named ''source'' (GoString src)) = valueArg ''source'' (StringValue src False)"
    by (simp add: Named_def NewString_def valueArg_def)
  have word': "readBack (WordValue (changeWord lib how)) = WordValue (changeWord lib how)" by simp
  have "traverse staleField (map (\<lambda>f. Field f None) fs) = Inr (map (\<lambda>f. f) fs)"
    using a(4) by (intro traverse_map) (auto simp: staleField_def list_all_iff isHead_def)
  then show "ParseStale lib (st_args (readBackStatement (staleShape lib s))) = Inr (staleMeaning s)"
    using w(1) ParseFields_written[OF bag] a(2,5) word'
    by (cases i; cases "fs = []"; auto simp: r staleShape_def StaleArgs_def ParseStale_def staleMeaning_def src' staleArg_def wrapIn_def
        simp del: readBack.simps)
qed


text \<open>A notice that records changed crosses with its source, record, reason and fields, and comes out
  as the same notice for whoever holds them, the identity being the datum the sender's was.\<close>

theorem stale_delivered:
  assumes "staleSound lib s" "unread sc = sendLine (EncodeStale lib s) @ tail"
  shows "\<exists>t st s'. Next sc = (ScanText t, sc\<lparr>unread := tail\<rparr>) \<and> Parse t = Some (Inr (Script [st]))
    \<and> ParseStale lib (st_args st) = Inr s' \<and> StaleSource s' = StaleSource s
    \<and> NoticeOf s' = (NoticeOf s)\<lparr>n_First := asDataPtr (map_option readBack (StaleID s))\<rparr>"
  using stale.delivered[OF assms] by (fastforce simp: staleMeaning_def NoticeOf_def)

theorem stale_delivered_witness:
  "\<exists>t st s'. Next (NewScanner (''stale source=\"papers\" id=42 how=altered fields={ size }'' @ [char_of rNL]) EndOfFile) = (ScanText t, NewScanner [] EndOfFile)
    \<and> Parse t = Some (Inr (Script [st])) \<and> ParseStale spelled (st_args st) = Inr s' \<and> StaleSource s' = ''papers''
    \<and> NoticeOf s' = \<lparr>n_Change = Altered, n_Fields = [''size''], n_First = Some (DInt 42)\<rparr>"
proof -
  let ?s = "\<lparr>StaleSource = ''papers'', StaleID = Some (IntValue 42), How = Altered, StaleFields = [''size'']\<rparr>"
  let ?t = "''stale source=\"papers\" id=42 how=altered fields={ size }''"
  have "isHead ''size''" "valid_utf8 ''papers''" by code_simp+
  then have s: "staleSound spelled ?s" using servalDocumented_spelled by (simp add: staleSound_def)
  have t: "EncodeStale spelled ?s = ?t" by code_simp
  have u: "unread (NewScanner (?t @ [char_of rNL]) EndOfFile) = sendLine (EncodeStale spelled ?s) @ []"
    by (simp add: NewScanner_def sendLine_def t)
  from stale_delivered[OF s u] show ?thesis by (simp add: NewScanner_def NoticeOf_def asDataPtr_def)
qed

text \<open>A notice may not contradict itself: what \<open>ParseStale\<close> accepts names its source, names fields
  only on an alteration, and an absent reason is read as the widest, \<open>replaced\<close>.\<close>

theorem ParseStale_accepts:
  assumes "ParseStale lib args = Inr s"
  shows "StaleSource s \<noteq> [] \<and> (StaleFields s \<noteq> [] \<longrightarrow> How s = Altered) \<and> [] \<notin> set (StaleFields s)
    \<and> ((\<forall>a \<in> set args. a_name a \<noteq> ''how'') \<longrightarrow> How s = Replaced)"
proof -
  define s0 where "s0 = \<lparr>StaleSource = [], StaleID = None, How = Replaced, StaleFields = []\<rparr>"
  have step: "StaleFields t' = StaleFields t \<and> (a_name a \<noteq> ''how'' \<longrightarrow> How t' = How t)"
    if "staleArg lib a (t, said, fl) = Inr (t', said', fl')" for a :: arg and t t' :: Stale and said fl said' fl'
    using that by (auto simp: staleArg_def split: if_splits option.splits wvalue.splits)
  have loop: "StaleFields t' = StaleFields t \<and> ((\<forall>a \<in> set args. a_name a \<noteq> ''how'') \<longrightarrow> How t' = How t)"
    if "staleArgs lib args (t, said, fl) = Inr (t', said', fl')" for args :: "arg list" and t t' :: Stale and said fl said' fl'
    using that
  proof (induction args arbitrary: t said fl)
    case (Cons a as)
    then obtain t1 said1 fl1 where "staleArg lib a (t, said, fl) = Inr (t1, said1, fl1)"
      "staleArgs lib as (t1, said1, fl1) = Inr (t', said', fl')"
      by (cases "staleArg lib a (t, said, fl)") auto
    then show ?case using step Cons.IH by fastforce
  qed simp
  obtain t said fl where t: "staleArgs lib args (s0, False, None) = Inr (t, said, fl)"
    using assms unfolding ParseStale_def s0_def[symmetric] by (cases "staleArgs lib args (s0, False, None)") auto
  have one: "staleField f = Inr n \<Longrightarrow> n \<noteq> []" for f n by (auto simp: staleField_def split: if_splits)
  have names: "[] \<notin> set ns" if "traverse staleField bag = Inr ns" for bag ns
    using that
  proof (induction bag arbitrary: ns)
    case (Cons f bag)
    then show ?case
      by (cases "staleField f"; cases "traverse staleField bag") (auto dest: one)
  qed simp
  have "StaleFields t = [] \<and> ((\<forall>a \<in> set args. a_name a \<noteq> ''how'') \<longrightarrow> How t = Replaced)"
    using loop[OF t] by (simp add: s0_def)
  then show ?thesis
  proof (cases fl)
    case None
    then show ?thesis using assms t \<open>StaleFields t = [] \<and> _\<close> unfolding ParseStale_def s0_def[symmetric]
      by (auto split: if_splits)
  next
    case (Some a)
    then obtain bag ns where "How t = Altered" "StaleSource t \<noteq> []" "traverse staleField bag = Inr ns" "s = t\<lparr>StaleFields := ns\<rparr>"
      using assms t unfolding ParseStale_def s0_def[symmetric]
      by (cases "wrapIn ''fields'' (ParseFields (a_value a))"; cases "traverse staleField (projr (wrapIn ''fields'' (ParseFields (a_value a))))")
         (auto split: if_splits)
    then show ?thesis using names \<open>StaleFields t = [] \<and> _\<close> by simp
  qed
qed

theorem ParseStale_accepts_witness:
  "ParseStale spelled [valueArg ''source'' (StringValue ''p'' False)] =
     Inr \<lparr>StaleSource = ''p'', StaleID = None, How = Replaced, StaleFields = []\<rparr>
   \<and> StaleSource \<lparr>StaleSource = ''p'', StaleID = None, How = Replaced, StaleFields = []\<rparr> \<noteq> []"
proof -
  have p: "ParseStale spelled [valueArg ''source'' (StringValue ''p'' False)] =
     Inr \<lparr>StaleSource = ''p'', StaleID = None, How = Replaced, StaleFields = []\<rparr>" by code_simp
  from ParseStale_accepts[OF p] p show ?thesis by blast
qed

end
