(* ===== verification/WireVocabulary.thy ===== *)
theory WireVocabulary
  imports WireAnswer
begin

text \<open>
  The vocabulary a display describes itself with: its shapes and the decoder of the describe stream
  (\<open>wire/vocabulary.go\<close>), the encoder (\<open>protocol/describe.go\<close>) and the split of its text into the lines
  a reply carries (\<open>protocol/session.go\<close>). What is decoded is what was described.
\<close>

subsection \<open>Shapes\<close>

record PropInfo =
  pi_Name :: string
  pi_Kind :: string
  pi_Default :: string
  pi_Doc :: string
  pi_Enum :: "string list"
  pi_Members :: "string list"

record EventFieldDesc =
  fd_Name :: string
  fd_Kind :: string
  fd_Doc :: string

record EventInfo =
  ei_Name :: string
  ei_Doc :: string
  ei_Fields :: "EventFieldDesc list"

record CallInfo =
  ci_Name :: string
  ci_Doc :: string
  ci_Args :: "EventFieldDesc list"

record TypeInfo =
  ti_Name :: string
  ti_Virtual :: bool
  ti_Hosted :: bool
  ti_Props :: "PropInfo list"
  ti_Asks :: "CallInfo list"
  ti_Does :: "CallInfo list"
  ti_Events :: "EventInfo list"

record Vocabulary =
  v_Common :: "PropInfo list"
  v_Types :: "TypeInfo list"

subsection \<open>Reading the stream\<close>

definition stmtStr :: "statement \<Rightarrow> string \<Rightarrow> string" where
  "stmtStr st name =
     (case find (\<lambda>a. a_name a = name \<and> (case a_value a of Some (StringValue s b) \<Rightarrow> True | _ \<Rightarrow> False)) (st_args st) of
        Some a \<Rightarrow> v_str (the (a_value a))
      | None \<Rightarrow> [])"

definition stmtFlag :: "statement \<Rightarrow> string \<Rightarrow> bool" where
  "stmtFlag st name =
     (case find (\<lambda>a. a_name a = name \<and> a_value a = None) (st_args st) of
        Some a \<Rightarrow> a_flag a = FlagTrue
      | None \<Rightarrow> False)"

definition splitList :: "string \<Rightarrow> string list" where
  "splitList s = (if s = [] then [] else splitOn CHR '','' s)"

definition stmtToPropInfo :: "statement \<Rightarrow> PropInfo" where
  "stmtToPropInfo st =
     \<lparr>pi_Name = stmtStr st ''name'', pi_Kind = stmtStr st ''kind'', pi_Default = stmtStr st ''default'',
      pi_Doc = stmtStr st ''doc'', pi_Enum = splitList (stmtStr st ''enum''),
      pi_Members = splitList (stmtStr st ''members'')\<rparr>"

definition stmtToField :: "statement \<Rightarrow> EventFieldDesc" where
  "stmtToField st = \<lparr>fd_Name = stmtStr st ''name'', fd_Kind = stmtStr st ''kind'', fd_Doc = stmtStr st ''doc''\<rparr>"

text \<open>The loops that add to the first entry of a name and stop.\<close>

fun updateFirst :: "('a \<Rightarrow> bool) \<Rightarrow> ('a \<Rightarrow> 'a) \<Rightarrow> 'a list \<Rightarrow> 'a list" where
  "updateFirst P f [] = []"
| "updateFirst P f (x # xs) = (if P x then f x # xs else x # updateFirst P f xs)"

definition addArg :: "string \<Rightarrow> EventFieldDesc \<Rightarrow> CallInfo list \<Rightarrow> CallInfo list" where
  "addArg name fd = updateFirst (\<lambda>c. ci_Name c = name) (\<lambda>c. c\<lparr>ci_Args := ci_Args c @ [fd]\<rparr>)"

definition addField :: "string \<Rightarrow> EventFieldDesc \<Rightarrow> EventInfo list \<Rightarrow> EventInfo list" where
  "addField name fd = updateFirst (\<lambda>e. ei_Name e = name) (\<lambda>e. e\<lparr>ei_Fields := ei_Fields e @ [fd]\<rparr>)"

text \<open>What a statement of a type adds to that type: the cases of the switch but the first two.\<close>

definition describeType :: "statement \<Rightarrow> TypeInfo \<Rightarrow> TypeInfo" where
  "describeType st t =
     (let verb = st_verb st;
          call = \<lparr>ci_Name = stmtStr st ''name'', ci_Doc = stmtStr st ''doc'', ci_Args = []\<rparr> in
      if verb = ''prop'' then t\<lparr>ti_Props := ti_Props t @ [stmtToPropInfo st]\<rparr>
      else if verb = ''ask'' then t\<lparr>ti_Asks := ti_Asks t @ [call]\<rparr>
      else if verb = ''do'' then t\<lparr>ti_Does := ti_Does t @ [call]\<rparr>
      else if verb = ''askarg'' then t\<lparr>ti_Asks := addArg (stmtStr st ''ask'') (stmtToField st) (ti_Asks t)\<rparr>
      else if verb = ''doarg'' then t\<lparr>ti_Does := addArg (stmtStr st ''do'') (stmtToField st) (ti_Does t)\<rparr>
      else if verb = ''event'' then
        t\<lparr>ti_Events := ti_Events t @ [\<lparr>ei_Name = stmtStr st ''name'', ei_Doc = stmtStr st ''doc'', ei_Fields = []\<rparr>]\<rparr>
      else if verb = ''eventfield'' then t\<lparr>ti_Events := addField (stmtStr st ''event'') (stmtToField st) (ti_Events t)\<rparr>
      else t)"

definition describeVerbs :: "string list" where
  "describeVerbs = [''prop'', ''ask'', ''do'', ''askarg'', ''doarg'', ''event'', ''eventfield'']"

text \<open>The vocabulary so far and the index of each type in it. An index that \<open>byType\<close> gives is in range:
  it is only written where a type is appended.\<close>

type_synonym described = "Vocabulary \<times> (string \<Rightarrow> nat option)"

definition describeStatement :: "statement \<Rightarrow> described \<Rightarrow> described" where
  "describeStatement st vb =
     (let v = fst vb; byType = snd vb in
      if st_verb st = ''proptype'' then
        (v\<lparr>v_Types := v_Types v @ [\<lparr>ti_Name = stmtStr st ''name'', ti_Virtual = stmtFlag st ''virtual'',
             ti_Hosted = stmtFlag st ''hosted'', ti_Props = [], ti_Asks = [], ti_Does = [], ti_Events = []\<rparr>]\<rparr>,
         byType(stmtStr st ''name'' \<mapsto> length (v_Types v)))
      else if st_verb st = ''propcommon'' then (v\<lparr>v_Common := v_Common v @ [stmtToPropInfo st]\<rparr>, byType)
      else if st_verb st \<in> set describeVerbs then
        (case byType (stmtStr st ''of'') of
           None \<Rightarrow> (v, byType)
         | Some i \<Rightarrow> (v\<lparr>v_Types := (v_Types v)[i := describeType st (v_Types v ! i)]\<rparr>, byType))
      else (v, byType))"

fun describeLines :: "string list \<Rightarrow> described \<Rightarrow> (parseError + described) option" where
  "describeLines [] vb = Some (Inr vb)"
| "describeLines (line # lines) vb =
     (if trimSpace line = [] then describeLines lines vb
      else case Parse line of
        None \<Rightarrow> None
      | Some (Inl e) \<Rightarrow> Some (Inl e)
      | Some (Inr script) \<Rightarrow> describeLines lines (fold describeStatement (statements script) vb))"

definition DecodeVocabulary :: "string list \<Rightarrow> (parseError + Vocabulary) option" where
  "DecodeVocabulary lines =
     map_option (map_sum id fst) (describeLines lines (\<lparr>v_Common = [], v_Types = []\<rparr>, Map.empty))"

subsection \<open>Writing it\<close>

definition named :: "string \<Rightarrow> string \<Rightarrow> string" where
  "named name s = '' '' @ name @ ''='' @ Quote s"

definition writePropStmt :: "string \<Rightarrow> string \<Rightarrow> PropInfo \<Rightarrow> string" where
  "writePropStmt verb owner p =
     verb @ (if owner \<noteq> [] then named ''of'' owner else []) @ named ''name'' (pi_Name p) @ named ''kind'' (pi_Kind p)
     @ named ''default'' (pi_Default p) @ named ''doc'' (pi_Doc p) @ named ''enum'' (join '','' (pi_Enum p))
     @ named ''members'' (join '','' (pi_Members p)) @ [char_of rNL]"

definition writeCallStmts :: "string \<Rightarrow> string \<Rightarrow> CallInfo list \<Rightarrow> string" where
  "writeCallStmts verb typeName calls =
     concat (map (\<lambda>c.
       verb @ named ''of'' typeName @ named ''name'' (ci_Name c) @ named ''doc'' (ci_Doc c) @ [char_of rNL]
       @ concat (map (\<lambda>f.
           verb @ ''arg'' @ named ''of'' typeName @ named verb (ci_Name c) @ named ''name'' (fd_Name f)
           @ named ''kind'' (fd_Kind f) @ named ''doc'' (fd_Doc f) @ [char_of rNL]) (ci_Args c))) calls)"

definition writeEventStmts :: "string \<Rightarrow> EventInfo list \<Rightarrow> string" where
  "writeEventStmts typeName events =
     concat (map (\<lambda>e.
       ''event'' @ named ''of'' typeName @ named ''name'' (ei_Name e) @ named ''doc'' (ei_Doc e) @ [char_of rNL]
       @ concat (map (\<lambda>f.
           ''eventfield'' @ named ''of'' typeName @ named ''event'' (ei_Name e) @ named ''name'' (fd_Name f)
           @ named ''kind'' (fd_Kind f) @ named ''doc'' (fd_Doc f) @ [char_of rNL]) (ei_Fields e))) events)"

definition writeType :: "TypeInfo \<Rightarrow> string" where
  "writeType t =
     ''proptype'' @ named ''name'' (ti_Name t) @ (if ti_Virtual t then '' virtual'' else '' !virtual'')
     @ (if ti_Hosted t then '' hosted'' else '' !hosted'') @ [char_of rNL]
     @ concat (map (writePropStmt ''prop'' (ti_Name t)) (ti_Props t))
     @ writeCallStmts ''ask'' (ti_Name t) (ti_Asks t) @ writeCallStmts ''do'' (ti_Name t) (ti_Does t)
     @ writeEventStmts (ti_Name t) (ti_Events t)"

definition EncodeVocabulary :: "Vocabulary \<Rightarrow> string" where
  "EncodeVocabulary v = concat (map (writePropStmt ''propcommon'' []) (v_Common v)) @ concat (map writeType (v_Types v))"

text \<open>The lines the \<open>describe\<close> verb puts in its reply: the text less its trailing newlines, split at the
  others, empty pieces left out.\<close>

definition vocabularyLines :: "Vocabulary \<Rightarrow> string list" where
  "vocabularyLines v =
     filter (\<lambda>line. line \<noteq> [])
       (splitOn (char_of rNL) (rev (dropWhile (\<lambda>c. c = char_of rNL) (rev (EncodeVocabulary v)))))"


subsection \<open>The statements the stream is made of\<close>

definition describeShape :: "string \<Rightarrow> arg list \<Rightarrow> statement" where
  "describeShape verb args = Statement [] verb [] 0 args"

definition propShape :: "string \<Rightarrow> string \<Rightarrow> PropInfo \<Rightarrow> statement" where
  "propShape verb owner p =
     describeShape verb ((if owner \<noteq> [] then [textArg ''of'' owner] else [])
       @ [textArg ''name'' (pi_Name p), textArg ''kind'' (pi_Kind p), textArg ''default'' (pi_Default p), textArg ''doc'' (pi_Doc p),
          textArg ''enum'' (join '','' (pi_Enum p)), textArg ''members'' (join '','' (pi_Members p))])"

definition callShapes :: "string \<Rightarrow> string \<Rightarrow> CallInfo \<Rightarrow> statement list" where
  "callShapes verb owner c =
     describeShape verb [textArg ''of'' owner, textArg ''name'' (ci_Name c), textArg ''doc'' (ci_Doc c)]
     # map (\<lambda>f. describeShape (verb @ ''arg'') [textArg ''of'' owner, textArg verb (ci_Name c), textArg ''name'' (fd_Name f),
              textArg ''kind'' (fd_Kind f), textArg ''doc'' (fd_Doc f)]) (ci_Args c)"

definition eventShapes :: "string \<Rightarrow> EventInfo \<Rightarrow> statement list" where
  "eventShapes owner e =
     describeShape ''event'' [textArg ''of'' owner, textArg ''name'' (ei_Name e), textArg ''doc'' (ei_Doc e)]
     # map (\<lambda>f. describeShape ''eventfield'' [textArg ''of'' owner, textArg ''event'' (ei_Name e), textArg ''name'' (fd_Name f),
              textArg ''kind'' (fd_Kind f), textArg ''doc'' (fd_Doc f)]) (ei_Fields e)"

definition typeHead :: "TypeInfo \<Rightarrow> statement" where
  "typeHead t =
     describeShape ''proptype'' [textArg ''name'' (ti_Name t),
       Arg ''virtual'' (if ti_Virtual t then FlagTrue else FlagFalse) None,
       Arg ''hosted'' (if ti_Hosted t then FlagTrue else FlagFalse) None]"

definition typeBody :: "TypeInfo \<Rightarrow> statement list" where
  "typeBody t =
     map (propShape ''prop'' (ti_Name t)) (ti_Props t) @ concat (map (callShapes ''ask'' (ti_Name t)) (ti_Asks t))
     @ concat (map (callShapes ''do'' (ti_Name t)) (ti_Does t)) @ concat (map (eventShapes (ti_Name t)) (ti_Events t))"

definition vocabularyShapes :: "Vocabulary \<Rightarrow> statement list" where
  "vocabularyShapes v =
     map (propShape ''propcommon'' []) (v_Common v) @ concat (map (\<lambda>t. typeHead t # typeBody t) (v_Types v))"

text \<open>What a description needs to come through: text is UTF-8, a word of a list holds no comma (and is
  not one empty word alone), and the questions, actions and events of a type have different names.\<close>

definition listSound :: "string list \<Rightarrow> bool" where
  "listSound ws \<longleftrightarrow> ws \<noteq> [[]] \<and> list_all (\<lambda>w. valid_utf8 w \<and> CHR '','' \<notin> set w) ws"

definition propSound :: "PropInfo \<Rightarrow> bool" where
  "propSound p \<longleftrightarrow> valid_utf8 (pi_Name p) \<and> valid_utf8 (pi_Kind p) \<and> valid_utf8 (pi_Default p) \<and> valid_utf8 (pi_Doc p)
     \<and> listSound (pi_Enum p) \<and> listSound (pi_Members p)"

definition fieldDescSound :: "EventFieldDesc \<Rightarrow> bool" where
  "fieldDescSound f \<longleftrightarrow> valid_utf8 (fd_Name f) \<and> valid_utf8 (fd_Kind f) \<and> valid_utf8 (fd_Doc f)"

definition callSound :: "CallInfo \<Rightarrow> bool" where
  "callSound c \<longleftrightarrow> valid_utf8 (ci_Name c) \<and> valid_utf8 (ci_Doc c) \<and> list_all fieldDescSound (ci_Args c)"

definition eventInfoSound :: "EventInfo \<Rightarrow> bool" where
  "eventInfoSound e \<longleftrightarrow> valid_utf8 (ei_Name e) \<and> valid_utf8 (ei_Doc e) \<and> list_all fieldDescSound (ei_Fields e)"

definition typeSound :: "TypeInfo \<Rightarrow> bool" where
  "typeSound t \<longleftrightarrow> ti_Name t \<noteq> [] \<and> valid_utf8 (ti_Name t)
     \<and> list_all propSound (ti_Props t) \<and> list_all callSound (ti_Asks t) \<and> list_all callSound (ti_Does t)
     \<and> list_all eventInfoSound (ti_Events t)
     \<and> distinct (map ci_Name (ti_Asks t)) \<and> distinct (map ci_Name (ti_Does t)) \<and> distinct (map ei_Name (ti_Events t))"

definition vocabularySound :: "Vocabulary \<Rightarrow> bool" where
  "vocabularySound v \<longleftrightarrow> list_all propSound (v_Common v) \<and> list_all typeSound (v_Types v)"

subsection \<open>Every line is one statement\<close>

lemma EncodeStatement_describe: "verb \<noteq> [] \<Longrightarrow> EncodeStatement (describeShape verb args) = verb @ encodeArgs args"
  by (simp add: describeShape_def encodeArgs_def)

lemma encodeArgs_named: "name \<noteq> [] \<Longrightarrow> encodeArgs (textArg name s # as) = named name s @ encodeArgs as"
  by (simp add: encodeArgs_def textArg_def named_def Quote_def)

lemma encodeArgs_flag:
  "encodeArgs (Arg name FlagTrue None # as) = CHR '' '' # name @ encodeArgs as"
  "encodeArgs (Arg name FlagFalse None # as) = '' !'' @ name @ encodeArgs as"
  by (simp_all add: encodeArgs_def)

lemma encodeArgs_Nil: "encodeArgs [] = []"
  by (simp add: encodeArgs_def)

lemmas describe_encode = EncodeStatement_describe encodeArgs_named encodeArgs_flag encodeArgs_Nil

lemma concat_map_concat: "concat (map f (concat xss)) = concat (map (\<lambda>xs. concat (map f xs)) xss)"
  by (induction xss) auto

lemma concat_concat_map: "concat (map f (concat (map g xs))) = concat (map (\<lambda>x. concat (map f (g x))) xs)"
  by (induction xs) auto

lemma writePropStmt_shape: "verb \<noteq> [] \<Longrightarrow> writePropStmt verb owner p = encodedLine (propShape verb owner p)"
  by (simp add: writePropStmt_def propShape_def encodedLine_def sendLine_def describe_encode)

lemma writeCallStmts_shape:
  assumes "verb \<noteq> []"
  shows "writeCallStmts verb owner calls = concat (map encodedLine (concat (map (callShapes verb owner) calls)))"
  using assms by (simp add: writeCallStmts_def callShapes_def concat_concat_map encodedLine_def sendLine_def describe_encode comp_def)

lemma writeEventStmts_shape:
  "writeEventStmts owner events = concat (map encodedLine (concat (map (eventShapes owner) events)))"
  by (simp add: writeEventStmts_def eventShapes_def concat_concat_map encodedLine_def sendLine_def describe_encode comp_def)

lemma writeType_shape: "writeType t = concat (map encodedLine (typeHead t # typeBody t))"
proof -
  have "concat (map (writePropStmt ''prop'' (ti_Name t)) (ti_Props t)) =
      concat (map encodedLine (map (propShape ''prop'' (ti_Name t)) (ti_Props t)))"
    by (simp add: writePropStmt_shape comp_def cong: map_cong)
  moreover have "encodedLine (typeHead t) =
      ''proptype'' @ named ''name'' (ti_Name t) @ (if ti_Virtual t then '' virtual'' else '' !virtual'')
       @ (if ti_Hosted t then '' hosted'' else '' !hosted'') @ [char_of rNL]"
    by (simp add: typeHead_def encodedLine_def sendLine_def describe_encode)
  ultimately show ?thesis
    by (simp add: writeType_def typeBody_def writeCallStmts_shape writeEventStmts_shape)
qed

lemma EncodeVocabulary_shape: "EncodeVocabulary v = concat (map encodedLine (vocabularyShapes v))"
  by (simp add: EncodeVocabulary_def vocabularyShapes_def writePropStmt_shape writeType_shape concat_concat_map comp_def cong: map_cong)


subsection \<open>The stream is cut into its lines\<close>


lemma quoteRune_no_NL:
  assumes "valid_rune r" shows "char_of rNL \<notin> set (quoteRune r)"
proof (cases "r < 128")
  case True
  have "list_all (\<lambda>r. char_of rNL \<notin> set (quoteRune r)) [0..<128]" by code_simp
  then show ?thesis using True by (simp add: list_all_iff)
next
  case False
  then show ?thesis using encodeRune_byte[OF assms, of rNL] by (simp add: quoteRune_def)
qed

lemma quoteString_no_NL: "char_of rNL \<notin> set (quoteString s)"
proof -
  have "char_of rNL \<noteq> (char_of rQUOTE :: char)" by code_simp
  then show ?thesis using quoteRune_no_NL runes_valid[of s] by (auto simp: quoteString_def list_all_iff)
qed

text \<open>The statements of a description, and why their lines hold no newline of their own.\<close>

definition plainName :: "string \<Rightarrow> bool" where
  "plainName n \<longleftrightarrow> isName n \<and> char_of rNL \<notin> set n"

definition plainArg :: "arg \<Rightarrow> bool" where
  "plainArg a \<longleftrightarrow> plainName (a_name a)
     \<and> (case a_value a of
          None \<Rightarrow> a_flag a = FlagTrue \<or> a_flag a = FlagFalse
        | Some v \<Rightarrow> a_flag a = FlagNone \<and> (case v of StringValue s b \<Rightarrow> \<not> b \<and> valid_utf8 s | _ \<Rightarrow> False))"

definition plainVerb :: "string \<Rightarrow> bool" where
  "plainVerb verb \<longleftrightarrow> isHead verb \<and> ascii verb \<and> isWordStart (hd (runes verb)) \<and> char_of rNL \<notin> set verb"

definition plainShape :: "statement \<Rightarrow> bool" where
  "plainShape st \<longleftrightarrow>
     st = describeShape (st_verb st) (st_args st) \<and> plainVerb (st_verb st) \<and> list_all plainArg (st_args st)"

lemma plainShape_describe: "plainShape (describeShape verb args) \<longleftrightarrow> plainVerb verb \<and> list_all plainArg args"
  by (simp add: plainShape_def describeShape_def)

lemma plainArg_simps:
  "plainArg (textArg n s) \<longleftrightarrow> plainName n \<and> valid_utf8 s"
  "plainArg (Arg n (if b then FlagTrue else FlagFalse) None) \<longleftrightarrow> plainName n"
  by (auto simp: plainArg_def textArg_def)

lemma plainArg_no_NL: "plainArg a \<Longrightarrow> char_of rNL \<notin> set (EncodeArg a)"
proof -
  assume a: "plainArg a"
  have "char_of rNL \<noteq> CHR '' ''" "char_of rNL \<noteq> CHR ''=''" "char_of rNL \<noteq> CHR ''!''" by code_simp+
  with a show ?thesis using quoteString_no_NL
    by (cases a) (auto simp: plainArg_def plainName_def isName_def split: option.splits wvalue.splits)
qed

lemma encodeArgs_no_NL:
  assumes "list_all plainArg args" shows "char_of rNL \<notin> set (encodeArgs args)"
proof -
  have "char_of rNL \<noteq> CHR '' ''" by code_simp
  then show ?thesis using assms plainArg_no_NL by (auto simp: encodeArgs_def list_all_iff)
qed

lemma plainArg_spelled: "plainArg a \<Longrightarrow> wf_arg a \<and> readBackArg a = a"
  by (cases a) (auto simp: plainArg_def plainName_def isName_def split: option.splits wvalue.splits)

lemma plainShape_spelled:
  assumes "plainShape st"
  shows "wf_statement st" "readBackStatement st = st" "char_of rNL \<notin> set (EncodeStatement st)"
    "\<exists>c cs. EncodeStatement st = c # cs \<and> of_char c < (0x80::nat) \<and> isWordStart (of_char c)"
proof -
  obtain verb args where st: "st = describeShape verb args" and verb: "plainVerb verb" and args: "list_all plainArg args"
    using assms unfolding plainShape_def by blast
  have ne: "verb \<noteq> []" using verb by (simp add: plainVerb_def isHead_def)
  show "wf_statement st" "readBackStatement st = st"
    using verb ne args plainArg_spelled by (auto simp: st describeShape_def plainVerb_def list_all_iff intro!: map_idI)
  have e: "EncodeStatement st = verb @ encodeArgs args" using ne by (simp add: st EncodeStatement_describe)
  show "char_of rNL \<notin> set (EncodeStatement st)" using e verb encodeArgs_no_NL[OF args] by (simp add: plainVerb_def)
  obtain c cs where v: "verb = c # cs" using ne by (cases verb) auto
  have "hd (runes verb) = of_char c" using verb v runes_ascii_append[of verb "[]"] by (simp add: plainVerb_def)
  then show "\<exists>c cs. EncodeStatement st = c # cs \<and> of_char c < (0x80::nat) \<and> isWordStart (of_char c)"
    using e v verb by (auto simp: plainVerb_def)
qed

lemma trimSpace_word:
  assumes "of_char c < (0x80::nat)" "\<not> isSpace (of_char c)" shows "trimSpace (c # cs) \<noteq> []"
proof -
  have u: "utf8_chunks (c # cs) = (of_char c, [c]) # utf8_chunks cs"
    using assms(1) decodeRune_1[of "of_char c" cs] by simp
  have "dropWhile P (rev ((r, x) # xs)) \<noteq> [] \<and> last (dropWhile P (rev ((r, x) # xs))) = (r, x)" if "\<not> P (r, x)"
    for P and r :: rune and x :: string and xs
    using that by (simp add: dropWhile_append last_append)
  from this[of "isSpace \<circ> fst" "of_char c" "[c]" "utf8_chunks cs"] assms(2)
  obtain ys where "dropWhile (isSpace \<circ> fst) (rev ((of_char c, [c]) # utf8_chunks cs)) = ys @ [(of_char c, [c])]"
    by (metis append_butlast_last_id comp_apply fst_conv)
  then show ?thesis using u assms(2) by (simp add: trimSpace_def)
qed


lemma describeLines_shapes:
  assumes "list_all plainShape sts"
  shows "describeLines (map EncodeStatement sts) vb = Some (Inr (fold describeStatement sts vb))"
  using assms
proof (induction sts arbitrary: vb)
  case (Cons st sts)
  then have st: "plainShape st" by simp
  obtain c cs where c: "EncodeStatement st = c # cs" "of_char c < (0x80::nat)" "isWordStart (of_char c)"
    using plainShape_spelled(4)[OF st] by blast
  have "\<not> isSpace (of_char c)" using c(2,3) by (auto simp: isSpace_def isWordStart_def in_range_def)
  then have "trimSpace (EncodeStatement st) \<noteq> []" using trimSpace_word c by simp
  moreover have "Parse (EncodeStatement st) = Some (Inr (Script [st]))"
    using Parse_EncodeScript_eq[of "Script [st]"] plainShape_spelled(1,2)[OF st] by simp
  ultimately show ?case using Cons by simp
qed simp

lemma splitOn_lines:
  assumes "\<forall>l \<in> set ls. sep \<notin> set l"
  shows "splitOn sep (concat (map (\<lambda>l. l @ [sep]) ls)) = ls @ [[]]"
proof -
  have "sep \<notin> set l \<Longrightarrow> splitOn sep (l @ sep # t) = l # splitOn sep t" for l t
    by (induction l) auto
  then show ?thesis using assms by (induction ls) auto
qed

lemma splitOn_last:
  "sep \<notin> set l \<Longrightarrow> splitOn sep l = [l]"
  by (induction l) auto

lemma vocabularyLines_shapes:
  assumes "list_all plainShape (vocabularyShapes v)"
  shows "vocabularyLines v = map EncodeStatement (vocabularyShapes v)"
proof -
  let ?ls = "map EncodeStatement (vocabularyShapes v)"
  have ls: "\<forall>l \<in> set ?ls. char_of rNL \<notin> set l \<and> l \<noteq> []"
    using assms plainShape_spelled(3,4) by (fastforce simp: list_all_iff)
  have e: "EncodeVocabulary v = concat (map (\<lambda>l. l @ [char_of rNL]) ?ls)"
    by (simp add: EncodeVocabulary_shape encodedLine_def sendLine_def comp_def cong: map_cong)
  show ?thesis
  proof (cases ?ls rule: rev_cases)
    case Nil
    then show ?thesis using e by (simp add: vocabularyLines_def)
  next
    case (snoc ms l)
    have l: "l \<noteq> []" "char_of rNL \<notin> set l" and ms: "\<forall>m \<in> set ms. char_of rNL \<notin> set m \<and> m \<noteq> []"
      using ls snoc by auto
    obtain l' c where lc: "l = l' @ [c]" using l(1) by (cases l rule: rev_cases) auto
    let ?body = "concat (map (\<lambda>l. l @ [char_of rNL]) ms)"
    have "rev (dropWhile (\<lambda>c. c = char_of rNL) (rev (EncodeVocabulary v))) = ?body @ l"
      using l lc by (auto simp: e snoc)
    moreover have "splitOn (char_of rNL) (?body @ l) = ms @ [l]"
    proof -
      have "char_of rNL \<notin> set m \<Longrightarrow> splitOn (char_of rNL) (m @ char_of rNL # t) = m # splitOn (char_of rNL) t" for m t
        by (induction m) auto
      then show ?thesis using ms splitOn_last[OF l(2)] by (induction ms) auto
    qed
    ultimately show ?thesis using ms l(1) snoc by (simp add: vocabularyLines_def filter_id_conv)
  qed
qed

subsection \<open>What a description is read as\<close>

lemma stmtStr_shape:
  "stmtStr (describeShape verb (textArg n s # as)) m = (if n = m then s else stmtStr (describeShape verb as) m)"
  "stmtStr (describeShape verb (Arg n f None # as)) m = stmtStr (describeShape verb as) m"
  "stmtStr (describeShape verb []) m = []"
  by (simp_all add: stmtStr_def describeShape_def textArg_def)

lemma stmtFlag_shape:
  "stmtFlag (describeShape verb (textArg n s # as)) m = stmtFlag (describeShape verb as) m"
  "stmtFlag (describeShape verb (Arg n f None # as)) m = (if n = m then f = FlagTrue else stmtFlag (describeShape verb as) m)"
  by (simp_all add: stmtFlag_def describeShape_def textArg_def)

lemma verb_shape [simp]: "st_verb (describeShape verb as) = verb"
  by (simp add: describeShape_def)

lemmas describe_read = stmtStr_shape stmtFlag_shape

lemma splitList_join: "listSound ws \<Longrightarrow> splitList (join '','' ws) = ws"
  using splitOn_join[of ws]
  by (cases ws rule: remdups_adj.cases) (auto simp: splitList_def listSound_def list_all_iff join_map_append)

lemma prop_read: "propSound p \<Longrightarrow> stmtToPropInfo (propShape verb owner p) = p"
  by (simp add: stmtToPropInfo_def propShape_def propSound_def describe_read splitList_join)


lemma field_read:
  "verb \<noteq> ''name'' \<Longrightarrow> verb \<noteq> ''kind'' \<Longrightarrow> verb \<noteq> ''doc'' \<Longrightarrow>
   stmtToField (describeShape v [textArg ''of'' owner, textArg verb n, textArg ''name'' (fd_Name f),
     textArg ''kind'' (fd_Kind f), textArg ''doc'' (fd_Doc f)]) = f"
  by (simp add: stmtToField_def describe_read)

lemma updateFirst_append:
  "\<forall>x \<in> set xs. \<not> P x \<Longrightarrow> updateFirst P f (xs @ y # ys) = xs @ updateFirst P f (y # ys)"
  by (induction xs) auto

lemma fold_addArg:
  assumes "n \<notin> ci_Name ` set cs" "ci_Name c = n"
  shows "fold (addArg n) fds (cs @ [c]) = cs @ [c\<lparr>ci_Args := ci_Args c @ fds\<rparr>]"
  using assms(2)
proof (induction fds arbitrary: c)
  case (Cons fd fds)
  have "addArg n fd (cs @ [c]) = cs @ [c\<lparr>ci_Args := ci_Args c @ [fd]\<rparr>]"
    unfolding addArg_def using assms(1) Cons.prems by (subst updateFirst_append) (auto simp: image_iff)
  then show ?case using Cons.IH[of "c\<lparr>ci_Args := ci_Args c @ [fd]\<rparr>"] Cons.prems by simp
qed simp

lemma fold_addField:
  assumes "n \<notin> ei_Name ` set es" "ei_Name e = n"
  shows "fold (addField n) fds (es @ [e]) = es @ [e\<lparr>ei_Fields := ei_Fields e @ fds\<rparr>]"
  using assms(2)
proof (induction fds arbitrary: e)
  case (Cons fd fds)
  have "addField n fd (es @ [e]) = es @ [e\<lparr>ei_Fields := ei_Fields e @ [fd]\<rparr>]"
    unfolding addField_def using assms(1) Cons.prems by (subst updateFirst_append) (auto simp: image_iff)
  then show ?case using Cons.IH[of "e\<lparr>ei_Fields := ei_Fields e @ [fd]\<rparr>"] Cons.prems by simp
qed simp

text \<open>The statements of a question, an action or an event add it whole.\<close>

lemma fold_args:
  "fold describeType (map (\<lambda>f. describeShape ''askarg'' [textArg ''of'' owner, textArg ''ask'' n, textArg ''name'' (fd_Name f),
       textArg ''kind'' (fd_Kind f), textArg ''doc'' (fd_Doc f)]) fds) t = t\<lparr>ti_Asks := fold (addArg n) fds (ti_Asks t)\<rparr>"
  "fold describeType (map (\<lambda>f. describeShape ''doarg'' [textArg ''of'' owner, textArg ''do'' n, textArg ''name'' (fd_Name f),
       textArg ''kind'' (fd_Kind f), textArg ''doc'' (fd_Doc f)]) fds) t = t\<lparr>ti_Does := fold (addArg n) fds (ti_Does t)\<rparr>"
  "fold describeType (map (\<lambda>f. describeShape ''eventfield'' [textArg ''of'' owner, textArg ''event'' n, textArg ''name'' (fd_Name f),
       textArg ''kind'' (fd_Kind f), textArg ''doc'' (fd_Doc f)]) fds) t = t\<lparr>ti_Events := fold (addField n) fds (ti_Events t)\<rparr>"
  by (induction fds arbitrary: t) (simp_all add: describeType_def Let_def field_read describe_read)

lemma call_read:
  assumes "ci_Name c \<notin> ci_Name ` set (ti_Asks t)"
  shows "fold describeType (callShapes ''ask'' owner c) t = t\<lparr>ti_Asks := ti_Asks t @ [c]\<rparr>"
  using assms fold_addArg[of "ci_Name c" "ti_Asks t" "\<lparr>ci_Name = ci_Name c, ci_Doc = ci_Doc c, ci_Args = []\<rparr>" "ci_Args c"]
  by (simp add: callShapes_def fold_args describeType_def Let_def describe_read)

lemma action_read:
  assumes "ci_Name c \<notin> ci_Name ` set (ti_Does t)"
  shows "fold describeType (callShapes ''do'' owner c) t = t\<lparr>ti_Does := ti_Does t @ [c]\<rparr>"
  using assms fold_addArg[of "ci_Name c" "ti_Does t" "\<lparr>ci_Name = ci_Name c, ci_Doc = ci_Doc c, ci_Args = []\<rparr>" "ci_Args c"]
  by (simp add: callShapes_def fold_args describeType_def Let_def describe_read)

lemma event_read:
  assumes "ei_Name e \<notin> ei_Name ` set (ti_Events t)"
  shows "fold describeType (eventShapes owner e) t = t\<lparr>ti_Events := ti_Events t @ [e]\<rparr>"
  using assms fold_addField[of "ei_Name e" "ti_Events t" "\<lparr>ei_Name = ei_Name e, ei_Doc = ei_Doc e, ei_Fields = []\<rparr>" "ei_Fields e"]
  by (simp add: eventShapes_def fold_args describeType_def Let_def describe_read)

lemma fold_adding:
  assumes "\<And>x t. x \<in> set xs \<Longrightarrow> name x \<notin> name ` set (get t) \<Longrightarrow> fold step (shapes x) t = put (get t @ [x]) t"
    and "\<And>ys t. get (put ys t) = ys" "\<And>ys zs t. put ys (put zs t) = put ys t" "\<And>t. put (get t) t = t"
    and "distinct (map name xs)" "name ` set xs \<inter> name ` set (get t) = {}"
  shows "fold step (concat (map shapes xs)) t = put (get t @ xs) t"
  using assms(1,5,6)
proof (induction xs arbitrary: t)
  case (Cons x xs)
  have "fold step (shapes x) t = put (get t @ [x]) t" using Cons.prems by auto
  moreover have "fold step (concat (map shapes xs)) (put (get t @ [x]) t) = put (get (put (get t @ [x]) t) @ xs) (put (get t @ [x]) t)"
    using Cons.prems assms(2) by (intro Cons.IH) auto
  ultimately show ?case by (simp add: assms(2,3))
qed (simp add: assms(4))

lemma props_read:
  "list_all propSound ps \<Longrightarrow> fold describeType (map (propShape ''prop'' owner) ps) t = t\<lparr>ti_Props := ti_Props t @ ps\<rparr>"
proof (induction ps arbitrary: t)
  case (Cons p ps)
  have "describeType (propShape ''prop'' owner p) t = t\<lparr>ti_Props := ti_Props t @ [p]\<rparr>"
    using Cons.prems prop_read[of p "''prop''" owner] by (simp add: describeType_def Let_def) (simp add: propShape_def)
  then show ?case using Cons by simp
qed simp

definition emptyType :: "TypeInfo \<Rightarrow> TypeInfo" where
  "emptyType t = t\<lparr>ti_Props := [], ti_Asks := [], ti_Does := [], ti_Events := []\<rparr>"

lemma typeBody_read:
  assumes "typeSound t" shows "fold describeType (typeBody t) (emptyType t) = t"
proof -
  have a: "fold describeType (concat (map (callShapes ''ask'' o') cs)) u = u\<lparr>ti_Asks := ti_Asks u @ cs\<rparr>"
    if "distinct (map ci_Name cs)" "ti_Asks u = []" for o' cs u
    using that by (intro fold_adding[where name=ci_Name and get=ti_Asks and put="\<lambda>ys u. u\<lparr>ti_Asks := ys\<rparr>"]) (auto simp: call_read)
  have d: "fold describeType (concat (map (callShapes ''do'' o') cs)) u = u\<lparr>ti_Does := ti_Does u @ cs\<rparr>"
    if "distinct (map ci_Name cs)" "ti_Does u = []" for o' cs u
    using that by (intro fold_adding[where name=ci_Name and get=ti_Does and put="\<lambda>ys u. u\<lparr>ti_Does := ys\<rparr>"]) (auto simp: action_read)
  have e: "fold describeType (concat (map (eventShapes o') es)) u = u\<lparr>ti_Events := ti_Events u @ es\<rparr>"
    if "distinct (map ei_Name es)" "ti_Events u = []" for o' es u
    using that by (intro fold_adding[where name=ei_Name and get=ti_Events and put="\<lambda>ys u. u\<lparr>ti_Events := ys\<rparr>"]) (auto simp: event_read)
  show ?thesis using assms by (simp add: typeBody_def props_read a d e typeSound_def emptyType_def)
qed

lemma body_of_type:
  assumes "st \<in> set (typeBody t)" "ti_Name t \<noteq> []"
  shows "st_verb st \<in> set describeVerbs" "stmtStr st ''of'' = ti_Name t"
  using assms by (auto simp: typeBody_def propShape_def callShapes_def eventShapes_def describeVerbs_def describe_read)

lemma body_lands:
  assumes "bt n = Some (length before)" "\<forall>st \<in> set sts. st_verb st \<in> set describeVerbs \<and> stmtStr st ''of'' = n"
  shows "fold describeStatement sts (v\<lparr>v_Types := before @ [t]\<rparr>, bt) = (v\<lparr>v_Types := before @ [fold describeType sts t]\<rparr>, bt)"
  using assms(2)
proof (induction sts arbitrary: t)
  case (Cons st sts)
  have "st_verb st \<noteq> ''proptype'' \<and> st_verb st \<noteq> ''propcommon''" using Cons.prems by (auto simp: describeVerbs_def)
  then have "describeStatement st (v\<lparr>v_Types := before @ [t]\<rparr>, bt) = (v\<lparr>v_Types := before @ [describeType st t]\<rparr>, bt)"
    using Cons.prems assms(1) by (simp add: describeStatement_def Let_def)
  then show ?case using Cons by simp
qed simp

lemma type_read:
  assumes "typeSound t"
  shows "fold describeStatement (typeHead t # typeBody t) (v, bt) = (v\<lparr>v_Types := v_Types v @ [t]\<rparr>, bt(ti_Name t \<mapsto> length (v_Types v)))"
proof -
  have "describeStatement (typeHead t) (v, bt) = (v\<lparr>v_Types := v_Types v @ [emptyType t]\<rparr>, bt(ti_Name t \<mapsto> length (v_Types v)))"
    by (cases t) (simp add: describeStatement_def Let_def typeHead_def describe_read emptyType_def)
  then show ?thesis
    using body_lands[where bt="bt(ti_Name t \<mapsto> length (v_Types v))" and n="ti_Name t" and before="v_Types v" and sts="typeBody t" and v=v and t="emptyType t"]
      body_of_type[of _ t] assms typeBody_read[OF assms] by (simp add: typeSound_def)
qed

lemma types_read:
  assumes "list_all typeSound ts"
  shows "fst (fold describeStatement (concat (map (\<lambda>t. typeHead t # typeBody t) ts)) (v, bt)) = v\<lparr>v_Types := v_Types v @ ts\<rparr>"
  using assms
proof (induction ts arbitrary: v bt)
  case (Cons t ts)
  then show ?case using type_read[of t v bt] by simp
qed simp

lemma common_read:
  assumes "list_all propSound ps"
  shows "fold describeStatement (map (propShape ''propcommon'' []) ps) (v, bt) = (v\<lparr>v_Common := v_Common v @ ps\<rparr>, bt)"
  using assms
proof (induction ps arbitrary: v)
  case (Cons p ps)
  have "describeStatement (propShape ''propcommon'' [] p) (v, bt) = (v\<lparr>v_Common := v_Common v @ [p]\<rparr>, bt)"
    using Cons.prems prop_read[of p "''propcommon''" "[]"] by (simp add: describeStatement_def Let_def) (simp add: propShape_def)
  then show ?case using Cons by simp
qed simp


lemma plain_names [simp]:
  "plainName ''of''" "plainName ''name''" "plainName ''kind''" "plainName ''default''" "plainName ''doc''" "plainName ''enum''" "plainName ''members''"
  "plainName ''ask''" "plainName ''do''" "plainName ''event''" "plainName ''virtual''" "plainName ''hosted''"
  by code_simp+

lemma plain_verbs:
  "list_all plainVerb [''propcommon'', ''proptype'', ''prop'', ''ask'', ''do'', ''askarg'', ''doarg'', ''event'', ''eventfield'']"
  by code_simp

lemma listSound_valid: "listSound ws \<Longrightarrow> valid_utf8 (join '','' ws)"
  by (intro valid_utf8_join) (auto simp: listSound_def list_all_iff intro: valid_intros)

lemmas plain_simps = plainShape_describe plainArg_simps plain_verbs[simplified]

lemma propShape_plain:
  assumes "propSound p" "verb = ''prop'' \<or> verb = ''propcommon''" "valid_utf8 owner"
  shows "plainShape (propShape verb owner p)"
  using assms by (auto simp: propShape_def propSound_def listSound_valid plain_simps)

lemma callShapes_plain:
  assumes "callSound c" "verb = ''ask'' \<or> verb = ''do''" "valid_utf8 owner"
  shows "list_all plainShape (callShapes verb owner c)"
  using assms by (auto simp: callShapes_def callSound_def fieldDescSound_def plain_simps list_all_iff)

lemma eventShapes_plain:
  assumes "eventInfoSound e" "valid_utf8 owner" shows "list_all plainShape (eventShapes owner e)"
  using assms by (auto simp: eventShapes_def eventInfoSound_def fieldDescSound_def plain_simps list_all_iff)

lemma typeHead_plain: "valid_utf8 (ti_Name t) \<Longrightarrow> plainShape (typeHead t)"
  by (simp add: typeHead_def plain_simps)

lemma list_all_concat_map: "list_all P (concat (map f xs)) \<longleftrightarrow> list_all (\<lambda>x. list_all P (f x)) xs"
  by (induction xs) auto

lemma typeBody_plain:
  assumes "typeSound t" shows "list_all plainShape (typeBody t)"
  using assms unfolding typeBody_def list_all_append list_all_concat_map typeSound_def list.pred_map
  by (elim conjE) (intro conjI; erule list.pred_mono_strong; simp add: propShape_plain callShapes_plain eventShapes_plain)

lemma shapes_plain:
  assumes "vocabularySound v" shows "list_all plainShape (vocabularyShapes v)"
  using assms propShape_plain[of _ "''propcommon''" "[]"] typeHead_plain typeBody_plain
  by (auto simp: vocabularyShapes_def vocabularySound_def list_all_iff typeSound_def)

lemma vocabulary_round_trip:
  assumes "vocabularySound v"
  shows "DecodeVocabulary (vocabularyLines v) = Some (Inr v)"
proof -
  note plain = shapes_plain[OF assms]
  have "fst (fold describeStatement (vocabularyShapes v) (\<lparr>v_Common = [], v_Types = []\<rparr>, Map.empty)) = v"
    using assms by (simp add: vocabularyShapes_def vocabularySound_def common_read types_read)
  then show ?thesis
    by (simp add: DecodeVocabulary_def vocabularyLines_shapes[OF plain] describeLines_shapes[OF plain])
qed

text \<open>What a display describes is what a client reads: the lines the \<open>describe\<close> verb answers with decode
  to the vocabulary they were written from, with every type, property, question, action and event, in
  order, each with its fields. The text of it must be UTF-8, the words of a list free of commas, and the
  questions, actions and events of one type differently named, which the registry's tables are.\<close>

theorem vocabulary_described:
  assumes "vocabularySound v"
  shows "DecodeVocabulary (vocabularyLines v) = Some (Inr v)"
  using assms by (rule vocabulary_round_trip)

theorem vocabulary_described_witness:
  "let v = \<lparr>v_Common = [\<lparr>pi_Name = ''font'', pi_Kind = ''enum'', pi_Default = [], pi_Doc = ''the \"face\"'', pi_Enum = [''monday'', ''tuesday''], pi_Members = []\<rparr>],
       v_Types = [\<lparr>ti_Name = ''blob'', ti_Virtual = True, ti_Hosted = True, ti_Props = [], ti_Asks = [\<lparr>ci_Name = ''bytes'', ci_Doc = ''a; b'',
          ci_Args = [\<lparr>fd_Name = ''offset'', fd_Kind = ''int'', fd_Doc = []\<rparr>]\<rparr>], ti_Does = [], ti_Events = [\<lparr>ei_Name = ''gone'', ei_Doc = [], ei_Fields = []\<rparr>]\<rparr>]\<rparr>
   in DecodeVocabulary (vocabularyLines v) = Some (Inr v) \<and> length (vocabularyLines v) = 5"
proof -
  let ?v = "\<lparr>v_Common = [\<lparr>pi_Name = ''font'', pi_Kind = ''enum'', pi_Default = [], pi_Doc = ''the \"face\"'', pi_Enum = [''monday'', ''tuesday''], pi_Members = []\<rparr>],
       v_Types = [\<lparr>ti_Name = ''blob'', ti_Virtual = True, ti_Hosted = True, ti_Props = [], ti_Asks = [\<lparr>ci_Name = ''bytes'', ci_Doc = ''a; b'',
          ci_Args = [\<lparr>fd_Name = ''offset'', fd_Kind = ''int'', fd_Doc = []\<rparr>]\<rparr>], ti_Does = [], ti_Events = [\<lparr>ei_Name = ''gone'', ei_Doc = [], ei_Fields = []\<rparr>]\<rparr>]\<rparr>"
  have "vocabularySound ?v" by code_simp
  moreover have "length (vocabularyLines ?v) = 5" by code_simp
  ultimately show ?thesis using vocabulary_described[of ?v] by (simp add: Let_def)
qed

end
