(* ===== verification/BindContexts.thy ===== *)
theory BindContexts
  imports WireVocabulary
begin

text \<open>
  The services of one connection (\<open>BindContext\<close> of \<open>protocol/registry.go\<close>): what the display may say
  to the application and when. Events pass a subscription table and are silent while the display
  carries out what the application asked for; answers pass neither gate.
\<close>

subsection \<open>The context\<close>

text \<open>The fields that change, in a record the rest of a connection's state extends. A table that is nil
  and one that is empty answer alike. An \<open>'h\<close> is a hook an object left for a late subscriber, an \<open>'a\<close> a
  value of the stash or an object a property may point to.\<close>

record ('h, 'a) BindContext =
  actions :: "u64 \<Rightarrow> string option"
  subs :: "u64 \<Rightarrow> string set option"
  onSub :: "u64 \<Rightarrow> string \<Rightarrow> 'h list"
  suppress :: int
  stash :: "string \<Rightarrow> 'a option"
  refs :: "u64 \<Rightarrow> 'a option"

text \<open>The fields that are functions: what the host made of the connection, fixed when it was opened, each
  acting on the state \<open>'c\<close> it closes over. One that is nil is \<open>None\<close>.
  \<open>svc_Post\<close> only says whether there is a thread to post to.\<close>

record 'c services =
  svc_Dispatch :: "(string \<Rightarrow> 'c \<Rightarrow> 'c) option"
  svc_Emit :: "(Event \<Rightarrow> 'c \<Rightarrow> 'c) option"
  svc_Answer :: "(Answer \<Rightarrow> 'c \<Rightarrow> 'c) option"
  svc_Adopt :: "(u64 \<Rightarrow> 'c \<Rightarrow> 'c) option"
  svc_Drop :: "(u64 \<Rightarrow> 'c \<Rightarrow> 'c) option"
  svc_Post :: bool

definition freshContext :: "('h, 'a) BindContext" where
  "freshContext = \<lparr>actions = Map.empty, subs = Map.empty, onSub = (\<lambda>i t. []), suppress = 0, stash = Map.empty, refs = Map.empty\<rparr>"

definition RegisterRef :: "u64 \<Rightarrow> 'a \<Rightarrow> ('h, 'a, 'm) BindContext_scheme \<Rightarrow> ('h, 'a, 'm) BindContext_scheme" where
  "RegisterRef i target c = c\<lparr>refs := (refs c)(i \<mapsto> target)\<rparr>"

definition LookupRef :: "u64 \<Rightarrow> ('h, 'a, 'm) BindContext_scheme \<Rightarrow> 'a option" where
  "LookupRef i c = refs c i"

text \<open>\<open>create\<close> runs only on first use.\<close>

definition Stash ::
  "string \<Rightarrow> (('h, 'a, 'm) BindContext_scheme \<Rightarrow> 'a \<times> ('h, 'a, 'm) BindContext_scheme) \<Rightarrow> ('h, 'a, 'm) BindContext_scheme
   \<Rightarrow> 'a \<times> ('h, 'a, 'm) BindContext_scheme" where
  "Stash key create c =
     (case stash c key of
        Some v \<Rightarrow> (v, c)
      | None \<Rightarrow> (let (v, c') = create c in (v, c'\<lparr>stash := (stash c')(key \<mapsto> v)\<rparr>)))"

subsection \<open>Subscriptions\<close>

text \<open>\<open>subscribedLocked\<close>: the rows of the event's object and of object 0, which stands for every object.\<close>

definition openFor :: "('h, 'a, 'm) BindContext_scheme \<Rightarrow> u64 \<Rightarrow> string \<Rightarrow> bool" where
  "openFor c i t = (case subs c i of None \<Rightarrow> False | Some types \<Rightarrow> [] \<in> types \<or> t \<in> types)"

definition subscribed :: "('h, 'a, 'm) BindContext_scheme \<Rightarrow> Event \<Rightarrow> bool" where
  "subscribed c ev =
     (let i = (case Trinket ev of None \<Rightarrow> 0 | Some i \<Rightarrow> i) in
      openFor c i (Type ev) \<or> (i \<noteq> 0 \<and> openFor c 0 (Type ev)))"

definition OnSubscribe :: "u64 \<Rightarrow> string \<Rightarrow> 'h \<Rightarrow> ('h, 'a, 'm) BindContext_scheme \<Rightarrow> ('h, 'a, 'm) BindContext_scheme" where
  "OnSubscribe i t fn c = c\<lparr>onSub := (onSub c)(i := (onSub c i)(t := onSub c i t @ [fn]))\<rparr>"

definition addSub :: "u64 \<Rightarrow> string \<Rightarrow> ('h, 'a, 'm) BindContext_scheme \<Rightarrow> ('h, 'a, 'm) BindContext_scheme" where
  "addSub i t c = c\<lparr>subs := (subs c)(i \<mapsto> insert t (case subs c i of None \<Rightarrow> {} | Some types \<Rightarrow> types))\<rparr>"

text \<open>\<open>Subscribe\<close>: the hooks are those there when the row has been written; \<open>run\<close> runs one.\<close>

definition Subscribe ::
  "('h \<Rightarrow> ('h, 'a, 'm) BindContext_scheme \<Rightarrow> ('h, 'a, 'm) BindContext_scheme) \<Rightarrow> u64 \<Rightarrow> string
   \<Rightarrow> ('h, 'a, 'm) BindContext_scheme \<Rightarrow> ('h, 'a, 'm) BindContext_scheme" where
  "Subscribe run i t c =
     fold run (onSub c i t @ (if t \<noteq> [] then onSub c i [] else [])) (addSub i t c)"

definition Unsubscribe :: "u64 \<Rightarrow> string \<Rightarrow> ('h, 'a, 'm) BindContext_scheme \<Rightarrow> ('h, 'a, 'm) BindContext_scheme" where
  "Unsubscribe i t c =
     (if i = 0 \<and> t = [] then c\<lparr>subs := Map.empty\<rparr>
      else if t = [] then c\<lparr>subs := (subs c)(i := None)\<rparr>
      else case subs c i of
        None \<Rightarrow> c
      | Some types \<Rightarrow>
          (let types' = types - {t} in c\<lparr>subs := (subs c)(i := (if types' = {} then None else Some types'))\<rparr>))"

subsection \<open>What goes out\<close>

definition EmitEvent :: "('h, 'a, 'm) BindContext_scheme services \<Rightarrow> Event \<Rightarrow> ('h, 'a, 'm) BindContext_scheme \<Rightarrow> ('h, 'a, 'm) BindContext_scheme" where
  "EmitEvent sv ev c =
     (case svc_Emit sv of
        None \<Rightarrow> c
      | Some emit \<Rightarrow>
          (let suppressed = suppress c > 0; pass = (Type ev = ''command'' \<or> subscribed c ev) in
           if suppressed \<or> \<not> pass then c else emit ev c))"

definition EmitAnswer :: "('h, 'a, 'm) BindContext_scheme services \<Rightarrow> Answer \<Rightarrow> ('h, 'a, 'm) BindContext_scheme \<Rightarrow> ('h, 'a, 'm) BindContext_scheme" where
  "EmitAnswer sv a c = (case svc_Answer sv of None \<Rightarrow> c | Some answer \<Rightarrow> answer a c)"

text \<open>\<open>Suppressed\<close> on a function that also returns a result (its error, for the session).\<close>

definition Suppressed ::
  "(('h, 'a, 'm) BindContext_scheme \<Rightarrow> 'r \<times> ('h, 'a, 'm) BindContext_scheme) \<Rightarrow> ('h, 'a, 'm) BindContext_scheme
   \<Rightarrow> 'r \<times> ('h, 'a, 'm) BindContext_scheme" where
  "Suppressed f c =
     (let (r, c') = f (c\<lparr>suppress := suppress c + 1\<rparr>) in (r, c'\<lparr>suppress := suppress c' - 1\<rparr>))"

definition SetAction :: "u64 \<Rightarrow> string \<Rightarrow> ('h, 'a, 'm) BindContext_scheme \<Rightarrow> ('h, 'a, 'm) BindContext_scheme" where
  "SetAction i command c = c\<lparr>actions := (actions c)(i \<mapsto> command)\<rparr>"

definition Action :: "u64 \<Rightarrow> ('h, 'a, 'm) BindContext_scheme \<Rightarrow> string" where
  "Action i c = (case actions c i of None \<Rightarrow> [] | Some command \<Rightarrow> command)"

definition FireAction :: "('h, 'a, 'm) BindContext_scheme services \<Rightarrow> u64 \<Rightarrow> ('h, 'a, 'm) BindContext_scheme \<Rightarrow> ('h, 'a, 'm) BindContext_scheme" where
  "FireAction sv i c =
     (if suppress c > 0 \<or> Action i c = [] then c
      else
        (let command = Action i c;
             c1 = (case svc_Dispatch sv of None \<Rightarrow> c | Some dispatch \<Rightarrow> dispatch command c)
         in EmitEvent sv (WithWord ''action'' command (NewEvent ''command'')) c1))"

subsection \<open>One question's answer (\<open>protocol/answers.go\<close>)\<close>

text \<open>The handle an object writes an answer through. A nil handle is \<open>None\<close>.\<close>

record Answers =
  as_to :: string
  as_done :: bool

definition newAnswers :: "string \<Rightarrow> Answers" where
  "newAnswers key = \<lparr>as_to = key, as_done = False\<rparr>"

definition writeAnswer ::
  "('h, 'a, 'm) BindContext_scheme services \<Rightarrow> Answer \<Rightarrow> Answers option \<times> ('h, 'a, 'm) BindContext_scheme
   \<Rightarrow> Answers option \<times> ('h, 'a, 'm) BindContext_scheme" where
  "writeAnswer sv out hc =
     (case fst hc of
        None \<Rightarrow> hc
      | Some a \<Rightarrow>
          (if as_done a then hc
           else (let out' = out\<lparr>To := as_to a\<rparr> in
                 (Some (a\<lparr>as_done := Answer.Complete out'\<rparr>), EmitAnswer sv out' (snd hc)))))"

definition Send where
  "Send sv carries = writeAnswer sv \<lparr>To = [], Carries = carries, Complete = False, Error = []\<rparr>"

definition Done where
  "Done sv carries = writeAnswer sv \<lparr>To = [], Carries = carries, Complete = True, Error = []\<rparr>"

text \<open>The reason is the formatted text.\<close>

definition Fail where
  "Fail sv reason = writeAnswer sv \<lparr>To = [], Carries = [], Complete = True, Error = reason\<rparr>"

definition answered :: "Answers option \<Rightarrow> bool" where
  "answered h = (case h of None \<Rightarrow> True | Some a \<Rightarrow> as_done a)"


subsection \<open>The table is a set of pairs\<close>

text \<open>What subscriptions mean: a set of pairs of an object (0 for all) and a type (the empty one for all),
  which a subscription adds to and its opposite takes from.\<close>

definition flow :: "('h, 'a, 'm) BindContext_scheme \<Rightarrow> (u64 \<times> string) set" where
  "flow c = {(i, t). \<exists>types. subs c i = Some types \<and> t \<in> types}"

datatype subCommand = Sub u64 string | Unsub u64 string

fun applySub :: "('h \<Rightarrow> ('h, 'a, 'm) BindContext_scheme \<Rightarrow> ('h, 'a, 'm) BindContext_scheme) \<Rightarrow> subCommand
    \<Rightarrow> ('h, 'a, 'm) BindContext_scheme \<Rightarrow> ('h, 'a, 'm) BindContext_scheme" where
  "applySub run (Sub i t) c = Subscribe run i t c"
| "applySub run (Unsub i t) c = Unsubscribe i t c"

fun flowStep :: "subCommand \<Rightarrow> (u64 \<times> string) set \<Rightarrow> (u64 \<times> string) set" where
  "flowStep (Sub i t) F = insert (i, t) F"
| "flowStep (Unsub i t) F =
     (if t = [] then (if i = 0 then {} else {p \<in> F. fst p \<noteq> i}) else F - {(i, t)})"

definition passes :: "(u64 \<times> string) set \<Rightarrow> Event \<Rightarrow> bool" where
  "passes F ev \<longleftrightarrow>
     (\<exists>i \<in> {0, case Trinket ev of None \<Rightarrow> 0 | Some i \<Rightarrow> i}. (i, []) \<in> F \<or> (i, Type ev) \<in> F)"

lemma openFor_flow: "openFor c i t \<longleftrightarrow> (i, []) \<in> flow c \<or> (i, t) \<in> flow c"
  by (auto simp: openFor_def flow_def split: option.splits)

lemma subscribed_flow: "subscribed c ev \<longleftrightarrow> passes (flow c) ev"
  by (auto simp: subscribed_def passes_def openFor_flow Let_def)

lemma flow_addSub: "flow (addSub i t c) = insert (i, t) (flow c)"
  by (auto simp: flow_def addSub_def split: option.splits if_splits)

lemma flow_Unsubscribe: "flow (Unsubscribe i t c) = flowStep (Unsub i t) (flow c)"
  by (auto simp: flow_def Unsubscribe_def Let_def split: option.splits if_splits)

lemma fold_keeps: "(\<And>x c. f (g x c) = f c) \<Longrightarrow> f (fold g xs c) = f c"
  by (induction xs arbitrary: c) auto

lemma flow_cong: "subs c = subs d \<Longrightarrow> flow c = flow d"
  by (simp add: flow_def)

lemma flow_Subscribe:
  assumes "\<And>h c. subs (run h c) = subs c"
  shows "flow (Subscribe run i t c) = insert (i, t) (flow c)"
proof -
  have "subs (fold run hs d) = subs d" for hs d by (rule fold_keeps) (rule assms)
  then show ?thesis using flow_cong[of "Subscribe run i t c" "addSub i t c"] by (simp add: Subscribe_def flow_addSub)
qed

text \<open>C19. The subscription table implements a set: whatever a client subscribes to and gives up, in
  whatever order, an event passes just where the set of what is still asked for holds its object or
  every object, under its type or every type. (The hooks of late subscribers leave the table alone.)\<close>

theorem subscriptions_refine:
  assumes "\<And>h c. subs (run h c) = subs c"
  shows "flow (fold (applySub run) cmds c) = fold flowStep cmds (flow c)
    \<and> subscribed (fold (applySub run) cmds c) ev = passes (fold flowStep cmds (flow c)) ev"
proof -
  have "flow (applySub run cmd c) = flowStep cmd (flow c)" for cmd c
    by (cases cmd) (simp_all add: flow_Subscribe[OF assms] flow_Unsubscribe del: flowStep.simps(2))
  then have "flow (fold (applySub run) cmds c) = fold flowStep cmds (flow c)"
    by (induction cmds arbitrary: c) simp_all
  then show ?thesis by (simp add: subscribed_flow)
qed

theorem subscriptions_refine_witness:
  "let c = fold (applySub (\<lambda>h c. c)) [Sub 7 ''click'', Sub 7 [], Unsub 7 ''click'', Sub 9 [], Unsub 9 []] (freshContext :: (nat, nat) BindContext);
       at = (\<lambda>i. WithUint ''trinket'' i (NewEvent ''click''))
   in subscribed c (at 7) \<and> \<not> subscribed c (at 9)"
proof -
  let ?cmds = "[Sub 7 ''click'', Sub 7 [], Unsub 7 ''click'', Sub 9 [], Unsub 9 []]"
  let ?c = "freshContext :: (nat, nat) BindContext"
  have e: "flow ?c = {}" by (simp add: flow_def freshContext_def)
  have f: "fold flowStep ?cmds {} = {(7, [])}" by auto
  have t: "Trinket (WithUint ''trinket'' 7 (NewEvent ''click'')) = Some 7" "Trinket (WithUint ''trinket'' 9 (NewEvent ''click'')) = Some 9"
    "Type (WithUint ''trinket'' 7 (NewEvent ''click'')) = ''click''" "Type (WithUint ''trinket'' 9 (NewEvent ''click'')) = ''click''" by code_simp+
  have "subscribed (fold (applySub (\<lambda>h c. c)) ?cmds ?c) ev = passes (fold flowStep ?cmds (flow ?c)) ev" for ev
    by (rule subscriptions_refine[THEN conjunct2]) simp
  then have "subscribed (fold (applySub (\<lambda>h c. c)) ?cmds ?c) ev = passes {(7, [])} ev" for ev unfolding e f .
  moreover have "passes {(7, [])} (WithUint ''trinket'' 7 (NewEvent ''click''))" "\<not> passes {(7, [])} (WithUint ''trinket'' 9 (NewEvent ''click''))"
    by (simp_all add: passes_def t)
  ultimately show ?thesis unfolding Let_def by blast
qed

subsection \<open>No echo\<close>

text \<open>What an object does to its connection while a statement is carried out on it.\<close>

datatype ctxCall =
    CEmit Event
  | CAnswer Answer
  | CFire u64
  | CSetAction u64 string
  | CSuppressed "ctxCall list"

fun runCall :: "('h, 'a, 'm) BindContext_scheme services \<Rightarrow> ctxCall \<Rightarrow> ('h, 'a, 'm) BindContext_scheme \<Rightarrow> ('h, 'a, 'm) BindContext_scheme" where
  "runCall sv (CEmit ev) = EmitEvent sv ev"
| "runCall sv (CAnswer a) = EmitAnswer sv a"
| "runCall sv (CFire i) = FireAction sv i"
| "runCall sv (CSetAction i command) = SetAction i command"
| "runCall sv (CSuppressed calls) = (\<lambda>c. snd (Suppressed (\<lambda>c. ((), fold (runCall sv) calls c)) c))"

definition mute :: "'c services \<Rightarrow> 'c services" where
  "mute sv = sv\<lparr>svc_Dispatch := None, svc_Emit := None\<rparr>"

lemma fold_pair: "fst (fold (\<lambda>x (u, c). (u, f x c)) xs (u, c)) = u"
  by (induction xs arbitrary: c) auto

lemma mute_Answer [simp]: "svc_Answer (mute sv) = svc_Answer sv" "svc_Emit (mute sv) = None" "svc_Dispatch (mute sv) = None"
  by (simp_all add: mute_def)

text \<open>Sending an answer does not touch the suppression.\<close>

definition answersApart :: "('h, 'a, 'm) BindContext_scheme services \<Rightarrow> bool" where
  "answersApart sv \<longleftrightarrow> (\<forall>answer a c. svc_Answer sv = Some answer \<longrightarrow> suppress (answer a c) = suppress c)"

lemma kept_call:
  assumes "answersApart sv" shows "0 < suppress c \<Longrightarrow> suppress (runCall sv call c) = suppress c"
  using assms
proof (induction sv call arbitrary: c rule: runCall.induct)
  case (5 sv calls)
  have "suppress (fold (runCall sv) calls d) = suppress d" if "0 < suppress d" for d
    using "5.IH" "5.prems"(2) that by (induction calls arbitrary: d) simp_all
  from this[of "c\<lparr>suppress := suppress c + 1\<rparr>"] show ?case using "5.prems"(1) by (simp add: Suppressed_def)
qed (simp_all add: EmitEvent_def EmitAnswer_def FireAction_def SetAction_def answersApart_def split: option.splits)

lemma kept_calls:
  assumes "answersApart sv" shows "0 < suppress c \<Longrightarrow> suppress (fold (runCall sv) calls c) = suppress c"
  by (induction calls arbitrary: c) (simp_all add: kept_call[OF assms])

lemma muted_call:
  assumes "answersApart sv" shows "0 < suppress c \<Longrightarrow> runCall (mute sv) call c = runCall sv call c"
  using assms
proof (induction sv call arbitrary: c rule: runCall.induct)
  case (5 sv calls)
  have "fold (runCall (mute sv)) calls d = fold (runCall sv) calls d" if "0 < suppress d" for d
    using "5.IH" that by (induction calls arbitrary: d) (simp_all add: kept_call[OF "5.prems"(2)] "5.prems"(2))
  from this[of "c\<lparr>suppress := suppress c + 1\<rparr>"] show ?case using "5.prems"(1) by (simp add: Suppressed_def)
qed (simp_all add: EmitEvent_def EmitAnswer_def FireAction_def SetAction_def split: option.splits)

lemma muted_calls:
  assumes "answersApart sv" shows "0 < suppress c \<Longrightarrow> fold (runCall (mute sv)) calls c = fold (runCall sv) calls c"
  by (induction calls arbitrary: c) (simp_all add: kept_call[OF assms] muted_call[OF assms])

text \<open>What a client asked for does not come back at it: carried out under \<open>Suppressed\<close>, whatever an
  object calls on its connection leaves it as it would be if there were no event sink and no command
  sink at all. Answers are the exception, and go out.\<close>

theorem no_echo:
  assumes "0 \<le> suppress c" "answersApart sv"
  shows "runCall sv (CSuppressed calls) c = runCall (mute sv) (CSuppressed calls) c
    \<and> suppress (runCall sv (CSuppressed calls) c) = suppress c"
  using muted_calls[OF assms(2), of "c\<lparr>suppress := suppress c + 1\<rparr>" calls]
    kept_calls[OF assms(2), of "c\<lparr>suppress := suppress c + 1\<rparr>" calls] assms(1) by (simp add: Suppressed_def)

text \<open>A connection that writes down what it is given.\<close>

record ('h, 'a) logged = "('h, 'a) BindContext" +
  log :: "(Event + Answer) list"

definition logServices :: "('h, 'a) logged services" where
  "logServices = \<lparr>svc_Dispatch = None, svc_Emit = Some (\<lambda>ev c. c\<lparr>log := log c @ [Inl ev]\<rparr>),
     svc_Answer = Some (\<lambda>a c. c\<lparr>log := log c @ [Inr a]\<rparr>), svc_Adopt = None, svc_Drop = None, svc_Post = False\<rparr>"

definition freshLog :: "('h, 'a) logged" where
  "freshLog = BindContext.extend freshContext \<lparr>log = []\<rparr>"

theorem no_echo_witness:
  "let a = \<lparr>To = ''q'', Carries = [], Complete = True, Error = []\<rparr>;
       calls = [CSetAction 3 ''go'', CFire 3, CEmit (NewEvent ''command''), CAnswer a]
   in log (runCall logServices (CSuppressed calls) (freshLog :: (nat, nat) logged)) = [Inr a]
     \<and> log (fold (runCall logServices) calls (freshLog :: (nat, nat) logged)) \<noteq> [Inr a]"
proof -
  let ?a = "\<lparr>To = ''q'', Carries = [], Complete = True, Error = []\<rparr>"
  let ?calls = "[CSetAction 3 ''go'', CFire 3, CEmit (NewEvent ''command''), CAnswer ?a]"
  let ?c = "freshLog :: (nat, nat) logged"
  have "0 \<le> suppress ?c" "answersApart (logServices :: (nat, nat) logged services)"
    by (auto simp: freshLog_def freshContext_def BindContext.defs logServices_def answersApart_def)
  then have quiet: "runCall logServices (CSuppressed ?calls) ?c = runCall (mute logServices) (CSuppressed ?calls) ?c"
    by (rule no_echo[THEN conjunct1])
  have "log (runCall (mute logServices) (CSuppressed ?calls) ?c) = [Inr ?a]"
    by (simp add: Suppressed_def FireAction_def SetAction_def EmitEvent_def EmitAnswer_def logServices_def freshLog_def
        freshContext_def BindContext.defs mute_def)
  then have "log (runCall logServices (CSuppressed ?calls) ?c) = [Inr ?a]" by (simp only: quiet)
  moreover have "log (fold (runCall logServices) ?calls ?c) \<noteq> [Inr ?a]"
    by (simp add: FireAction_def Action_def SetAction_def EmitEvent_def EmitAnswer_def logServices_def freshLog_def
        freshContext_def BindContext.defs NewEvent_def WithWord_def withField_def)
  ultimately show ?thesis by simp
qed

subsection \<open>A question is answered once\<close>

datatype answerCall = ASend "arg list" | ADone "arg list" | AFail string

fun runAnswer :: "('h, 'a, 'm) BindContext_scheme services \<Rightarrow> answerCall \<Rightarrow> Answers option \<times> ('h, 'a, 'm) BindContext_scheme
    \<Rightarrow> Answers option \<times> ('h, 'a, 'm) BindContext_scheme" where
  "runAnswer sv (ASend carries) = Send sv carries"
| "runAnswer sv (ADone carries) = Done sv carries"
| "runAnswer sv (AFail reason) = Fail sv reason"

text \<open>The statements a question is answered with: every piece, each quoting the key, up to the first that
  ends it.\<close>

fun pieces :: "string \<Rightarrow> answerCall list \<Rightarrow> Answer list" where
  "pieces key [] = []"
| "pieces key (ASend carries # calls) = \<lparr>To = key, Carries = carries, Complete = False, Error = []\<rparr> # pieces key calls"
| "pieces key (ADone carries # calls) = [\<lparr>To = key, Carries = carries, Complete = True, Error = []\<rparr>]"
| "pieces key (AFail reason # calls) = [\<lparr>To = key, Carries = [], Complete = True, Error = reason\<rparr>]"

lemma answered_stays: "as_done a \<Longrightarrow> fold (runAnswer sv) calls (Some a, c) = (Some a, c)"
proof (induction calls)
  case (Cons call calls)
  then show ?case by (cases call) (simp_all add: Send_def Done_def Fail_def writeAnswer_def)
qed simp

text \<open>A question is answered once: whatever an object writes through its handle, what goes out is its
  pieces up to the first that ends the answer, each quoting the key the question carried, and nothing
  after; and the handle says it is answered just where one of them ended it.\<close>

theorem answered_once:
  "snd (fold (runAnswer sv) calls (Some (newAnswers key), c)) = fold (EmitAnswer sv) (pieces key calls) c
   \<and> answered (fst (fold (runAnswer sv) calls (Some (newAnswers key), c))) = list_ex Answer.Complete (pieces key calls)"
proof (induction calls arbitrary: c)
  case Nil
  then show ?case by (simp add: answered_def newAnswers_def)
next
  case (Cons call calls)
  show ?case
  proof (cases call)
    case (ASend carries)
    then show ?thesis using Cons by (simp add: Send_def writeAnswer_def newAnswers_def)
  qed (simp_all add: Done_def Fail_def writeAnswer_def newAnswers_def answered_stays answered_def)
qed

end
