(* ===== verification/Decisions.thy ===== *)
theory Decisions
  imports BindContexts
begin

text \<open>
  Questions the display holds open (\<open>protocol/decisions.go\<close>). A decision is minted for an event that
  asks whether something may be done, is addressable while it is open, and is gone the moment it is
  allowed, denied, out of time, or its application has left. Timers belong to the runtime: those that
  have not fired are in \<open>ticking\<close>, and the runs of those that have wait in \<open>posted\<close> for the connection's
  thread. The steps form a machine whose invariants are proved by rule induction.
\<close>

subsection \<open>State\<close>

record Verdict =
  Allowed :: bool
  Said :: bool

definition unsaid :: Verdict where
  "unsaid = \<lparr>Allowed = False, Said = False\<rparr>"

text \<open>A \<open>'k\<close> is what the asker wants done with the verdict. Durations are in nanoseconds. The count of
  waits is a natural number: to wrap the source's 64 bits it would take 2^64 keep-alives.\<close>

record 'k Decision =
  dc_then :: "'k option"
  within :: int
  timer :: bool
  armed :: nat

text \<open>Every decision ever minted is in the \<open>heap\<close> under its id, since timers and callers keep pointers to
  those the table has dropped.\<close>

record ('h, 'a, 'k) questions = "('h, 'a) BindContext" +
  heap :: "u64 \<Rightarrow> 'k Decision option"
  decisions :: "u64 set"
  gone :: bool
  ticking :: "(u64 \<times> nat) set"
  posted :: "(u64 \<times> nat) list"

definition Whenever :: int where "Whenever = 0"

definition Gone :: "('h, 'a, 'k, 'm) questions_scheme \<Rightarrow> bool" where
  "Gone c = gone c"

subsection \<open>Waiting\<close>

definition arm :: "u64 \<Rightarrow> ('h, 'a, 'k, 'm) questions_scheme \<Rightarrow> ('h, 'a, 'k, 'm) questions_scheme" where
  "arm i c =
     (case heap c i of
        None \<Rightarrow> c
      | Some d \<Rightarrow>
          (let wait = armed d + 1 in
           c\<lparr>heap := (heap c)(i \<mapsto> d\<lparr>armed := wait, timer := True\<rparr>),
             ticking := insert (i, wait) (if timer d then ticking c - {(i, armed d)} else ticking c)\<rparr>))"

definition extend :: "u64 \<Rightarrow> ('h, 'a, 'k, 'm) questions_scheme \<Rightarrow> ('h, 'a, 'k, 'm) questions_scheme" where
  "extend i c =
     (case heap c i of
        None \<Rightarrow> c
      | Some d \<Rightarrow> (if dc_then d = None \<or> within d \<le> Whenever then c else arm i c))"

subsection \<open>Deciding\<close>

definition forget :: "('h, 'a, 'k, 'm) questions_scheme services \<Rightarrow> u64 \<Rightarrow> ('h, 'a, 'k, 'm) questions_scheme \<Rightarrow> ('h, 'a, 'k, 'm) questions_scheme" where
  "forget sv i c =
     (let c1 = c\<lparr>decisions := decisions c - {i}\<rparr> in
      case svc_Drop sv of None \<Rightarrow> c1 | Some dropID \<Rightarrow> dropID i c1)"

definition announcing :: "(('h, 'a, 'k, 'm) questions_scheme \<Rightarrow> ('h, 'a, 'k, 'm) questions_scheme) \<Rightarrow> ('h, 'a, 'k, 'm) questions_scheme
    \<Rightarrow> ('h, 'a, 'k, 'm) questions_scheme" where
  "announcing fn c = (let held = suppress c in (fn (c\<lparr>suppress := 0\<rparr>))\<lparr>suppress := held\<rparr>)"

text \<open>\<open>settle\<close>: \<open>react k v\<close> is the asker's function \<open>then\<close>, called on \<open>v\<close>.\<close>

definition settle ::
  "('h, 'a, 'k, 'm) questions_scheme services \<Rightarrow> ('k \<Rightarrow> Verdict \<Rightarrow> ('h, 'a, 'k, 'm) questions_scheme \<Rightarrow> ('h, 'a, 'k, 'm) questions_scheme)
   \<Rightarrow> Verdict \<Rightarrow> u64 \<Rightarrow> ('h, 'a, 'k, 'm) questions_scheme \<Rightarrow> ('h, 'a, 'k, 'm) questions_scheme" where
  "settle sv react v i c =
     (case heap c i of
        None \<Rightarrow> c
      | Some d \<Rightarrow>
          (let c1 = c\<lparr>heap := (heap c)(i \<mapsto> d\<lparr>dc_then := None, timer := False\<rparr>),
                      ticking := (if timer d then ticking c - {(i, armed d)} else ticking c)\<rparr> in
           case dc_then d of
             None \<Rightarrow> c1
           | Some k \<Rightarrow> announcing (react k v) (forget sv i c1)))"

definition ranOut where
  "ranOut sv react i wait c =
     (case heap c i of
        None \<Rightarrow> c
      | Some d \<Rightarrow> (if wait \<noteq> armed d then c else settle sv react unsaid i c))"

definition DecideDo ::
  "('h, 'a, 'k, 'm) questions_scheme services \<Rightarrow> ('k \<Rightarrow> Verdict \<Rightarrow> ('h, 'a, 'k, 'm) questions_scheme \<Rightarrow> ('h, 'a, 'k, 'm) questions_scheme)
   \<Rightarrow> u64 \<Rightarrow> string \<Rightarrow> ('h, 'a, 'k, 'm) questions_scheme \<Rightarrow> goError option \<times> ('h, 'a, 'k, 'm) questions_scheme" where
  "DecideDo sv react i action c =
     (if action = ''allow'' then (None, settle sv react \<lparr>Allowed = True, Said = True\<rparr> i c)
      else if action = ''deny'' then (None, settle sv react \<lparr>Allowed = False, Said = True\<rparr> i c)
      else if action = ''waiting'' then (None, extend i c)
      else (Some (Errorf ''do: a decision is %s, %s or %s, not %q'' [''allow'', ''deny'', ''waiting'', action]), c))"

definition DecisionSet :: "string \<Rightarrow> goError" where
  "DecisionSet name = Errorf ''%s: a decision holds no properties; decide it with do ... %s or %s'' [name, ''allow'', ''deny'']"

definition DecisionAppend :: "string \<Rightarrow> goError" where
  "DecisionAppend slot = Errorf ''%s: nothing goes inside a decision'' [slot]"

subsection \<open>Asking\<close>

definition listening :: "('h, 'a, 'k, 'm) questions_scheme \<Rightarrow> Event \<Rightarrow> bool" where
  "listening c ev \<longleftrightarrow> \<not> gone c \<and> suppress c = 0 \<and> (Type ev = ''command'' \<or> subscribed c ev)"

text \<open>\<open>Duration.Milliseconds\<close> drops the fraction towards zero.\<close>

definition Milliseconds :: "int \<Rightarrow> int" where
  "Milliseconds d = (if d < 0 then - ((- d) div 1000000) else d div 1000000)"

text \<open>\<open>Deciding\<close>: \<open>i\<close> is the id \<open>virtualIDSource\<close> hands out for it.\<close>

definition Deciding ::
  "('h, 'a, 'k, 'm) questions_scheme services \<Rightarrow> u64 \<Rightarrow> Event \<Rightarrow> int \<Rightarrow> 'k \<Rightarrow> ('h, 'a, 'k, 'm) questions_scheme
   \<Rightarrow> u64 option \<times> ('h, 'a, 'k, 'm) questions_scheme" where
  "Deciding sv i ev patience k c =
     (case svc_Adopt sv of
        None \<Rightarrow> (None, EmitEvent sv ev c)
      | Some adopt \<Rightarrow>
          (if \<not> listening c ev then (None, c)
           else
             (let d = \<lparr>dc_then = Some k, within = patience, timer = False, armed = 0\<rparr>;
                  c1 = adopt i (c\<lparr>heap := (heap c)(i \<mapsto> d), decisions := insert i (decisions c)\<rparr>);
                  c2 = (if patience > Whenever then arm i c1 else c1)
              in (Some i, EmitEvent sv (WithInt ''within'' (word_of_int (Milliseconds patience)) (WithUint ''decision'' i ev)) c2))))"

text \<open>\<open>Undecided\<close> ranges over the table, which Go does in any order: \<open>order\<close> is the one it took.\<close>

definition Undecided where
  "Undecided sv react order c = fold (settle sv react unsaid) order (c\<lparr>decisions := {}, gone := True\<rparr>)"

subsection \<open>Timers and the connection's thread\<close>

text \<open>A timer fires, and \<open>onThread\<close> posts its run or, with no thread to post to, runs it there.\<close>

definition fireTimer where
  "fireTimer sv react i wait c =
     (let c1 = c\<lparr>ticking := ticking c - {(i, wait)}\<rparr> in
      if svc_Post sv then c1\<lparr>posted := posted c1 @ [(i, wait)]\<rparr> else ranOut sv react i wait c1)"

definition runPosted where
  "runPosted sv react c =
     (case posted c of [] \<Rightarrow> c | (i, wait) # later \<Rightarrow> ranOut sv react i wait (c\<lparr>posted := later\<rparr>))"

text \<open>The parts of the state that belong to decisions.\<close>

definition held :: "('h, 'a, 'k, 'm) questions_scheme \<Rightarrow> (u64 \<Rightarrow> 'k Decision option) \<times> u64 set \<times> bool \<times> (u64 \<times> nat) set \<times> (u64 \<times> nat) list" where
  "held c = (heap c, decisions c, gone c, ticking c, posted c)"

text \<open>What can happen to a connection: something asks, a statement decides or extends, a timer fires, the
  thread runs what was posted, the application goes, or something that is no decision's business.\<close>

inductive qstep ::
  "('h, 'a, 'k, 'm) questions_scheme services \<Rightarrow> ('k \<Rightarrow> Verdict \<Rightarrow> ('h, 'a, 'k, 'm) questions_scheme \<Rightarrow> ('h, 'a, 'k, 'm) questions_scheme)
   \<Rightarrow> ('h, 'a, 'k, 'm) questions_scheme \<Rightarrow> ('h, 'a, 'k, 'm) questions_scheme \<Rightarrow> bool"
  for sv react where
  asks: "heap c i = None \<Longrightarrow> qstep sv react c (snd (Deciding sv i ev patience k c))"
| does: "qstep sv react c (snd (DecideDo sv react i action c))"
| fires: "(i, wait) \<in> ticking c \<Longrightarrow> qstep sv react c (fireTimer sv react i wait c)"
| runs: "posted c \<noteq> [] \<Longrightarrow> qstep sv react c (runPosted sv react c)"
| leaves: "set order = decisions c \<Longrightarrow> distinct order \<Longrightarrow> qstep sv react c (Undecided sv react order c)"
| other: "held c' = held c \<Longrightarrow> qstep sv react c c'"

inductive_cases qstepE: "qstep sv react c c'"

subsection \<open>Invariants\<close>

definition isOpen :: "('h, 'a, 'k, 'm) questions_scheme \<Rightarrow> u64 \<Rightarrow> bool" where
  "isOpen c i \<longleftrightarrow> (\<exists>d. heap c i = Some d \<and> dc_then d \<noteq> None)"

text \<open>The table holds open questions, all of them while the application is there; a timer that runs is the
  open question's current wait; every run that was posted is of a wait that was; a question with a
  deadline has its current wait ticking or posted, so it cannot be forgotten; a decided one has no timer.\<close>

definition sound :: "('h, 'a, 'k, 'm) questions_scheme \<Rightarrow> bool" where
  "sound c \<longleftrightarrow>
     (\<forall>i \<in> decisions c. isOpen c i)
     \<and> (\<not> gone c \<longrightarrow> (\<forall>i. isOpen c i \<longrightarrow> i \<in> decisions c))
     \<and> (\<forall>(i, wait) \<in> ticking c. \<exists>d. heap c i = Some d \<and> dc_then d \<noteq> None \<and> timer d \<and> wait = armed d)
     \<and> (\<forall>(i, wait) \<in> set (posted c). \<exists>d. heap c i = Some d \<and> wait \<le> armed d)
     \<and> (\<forall>i d. heap c i = Some d \<longrightarrow> dc_then d \<noteq> None \<longrightarrow> within d > Whenever \<longrightarrow>
          timer d \<and> (i, armed d) \<in> ticking c \<union> set (posted c))
     \<and> (\<forall>i d. heap c i = Some d \<longrightarrow> dc_then d = None \<longrightarrow> \<not> timer d)"

text \<open>What becomes of one question: it keeps its deadline, counts its waits up, and once decided stays so.\<close>

definition grows :: "'k Decision \<Rightarrow> 'k Decision \<Rightarrow> bool" where
  "grows d d' \<longleftrightarrow> within d' = within d \<and> armed d \<le> armed d' \<and> (dc_then d' = dc_then d \<or> dc_then d' = None)"

text \<open>What may become of a connection: it is sound, its questions grow, and one that has gone is asked
  nothing new.\<close>

definition onwards :: "('h, 'a, 'k, 'm) questions_scheme \<Rightarrow> ('h, 'a, 'k, 'm) questions_scheme \<Rightarrow> bool" where
  "onwards c c' \<longleftrightarrow>
     sound c' \<and> (gone c \<longrightarrow> gone c' \<and> (\<forall>i. isOpen c' i \<longrightarrow> isOpen c i))
     \<and> (\<forall>i d. heap c i = Some d \<longrightarrow> (\<exists>d'. heap c' i = Some d' \<and> grows d d'))"

lemma grows_refl [simp]: "grows d d"
  by (simp add: grows_def)

lemma grows_trans: "grows a b \<Longrightarrow> grows b c \<Longrightarrow> grows a c"
  by (auto simp: grows_def)

lemma isOpen_held: "held c' = held c \<Longrightarrow> isOpen c' i = isOpen c i"
  by (simp add: held_def isOpen_def)

lemma sound_held: "held c' = held c \<Longrightarrow> sound c' = sound c"
  by (simp add: held_def sound_def isOpen_def)

lemma onwards_held:
  assumes "held c' = held c" "sound c" shows "onwards c c'"
proof -
  have "heap c' = heap c" "gone c' = gone c" using assms(1) by (simp_all add: held_def)
  then show ?thesis using assms isOpen_held[OF assms(1)] sound_held[OF assms(1)] by (auto simp: onwards_def)
qed

lemma onwards_refl: "sound c \<Longrightarrow> onwards c c"
  by (simp add: onwards_held)

lemma onwards_sound: "onwards c c' \<Longrightarrow> sound c'"
  by (simp add: onwards_def)

lemma onwards_trans:
  assumes "onwards a b" "onwards b c" shows "onwards a c"
proof -
  have "\<exists>d''. heap c i = Some d'' \<and> grows d d''" if d: "heap a i = Some d" for i d
  proof -
    obtain d' where d': "heap b i = Some d'" "grows d d'" using assms(1) d unfolding onwards_def by blast
    then obtain d'' where "heap c i = Some d''" "grows d' d''" using assms(2) unfolding onwards_def by blast
    then show ?thesis using grows_trans d'(2) by blast
  qed
  moreover have "sound c" "gone a \<longrightarrow> gone c \<and> (\<forall>i. isOpen c i \<longrightarrow> isOpen a i)"
    using assms unfolding onwards_def by auto
  ultimately show ?thesis unfolding onwards_def by blast
qed

lemma onwards_via:
  assumes "onwards a b" "held b' = held b" shows "onwards a b'"
proof -
  have "heap b' = heap b" "gone b' = gone b" using assms(2) by (simp_all add: held_def)
  then show ?thesis using assms isOpen_held[OF assms(2)] sound_held[OF assms(2)] by (auto simp: onwards_def)
qed

lemma held_suppress [simp]: "held (c\<lparr>suppress := n\<rparr>) = held c"
  by (simp add: held_def)

lemma closed_stays: "onwards c c' \<Longrightarrow> heap c i = Some d \<Longrightarrow> dc_then d = None \<Longrightarrow> \<not> isOpen c' i"
  unfolding onwards_def isOpen_def grows_def by fastforce

lemma sound_ticking: "sound c \<Longrightarrow> (i, w) \<in> ticking c \<Longrightarrow> heap c i = Some d \<Longrightarrow> dc_then d \<noteq> None \<and> timer d \<and> w = armed d"
  unfolding sound_def by fastforce

lemma sound_ticking_heap: "sound c \<Longrightarrow> (i, w) \<in> ticking c \<Longrightarrow> \<exists>d. heap c i = Some d \<and> dc_then d \<noteq> None \<and> timer d \<and> w = armed d"
  unfolding sound_def by fastforce

lemma sound_posted: "sound c \<Longrightarrow> (i, w) \<in> set (posted c) \<Longrightarrow> \<exists>d. heap c i = Some d \<and> w \<le> armed d"
  unfolding sound_def by fastforce

lemma sound_closed: "sound c \<Longrightarrow> heap c i = Some d \<Longrightarrow> dc_then d = None \<Longrightarrow> \<not> timer d"
  unfolding sound_def by blast

lemma sound_timed:
  "sound c \<Longrightarrow> heap c i = Some d \<Longrightarrow> dc_then d \<noteq> None \<Longrightarrow> within d > Whenever \<Longrightarrow> timer d \<and> (i, armed d) \<in> ticking c \<union> set (posted c)"
  unfolding sound_def by blast

text \<open>The ticking timers without those of one question.\<close>

lemma ticking_others:
  assumes "sound c" "heap c i = Some d"
  shows "(if timer d then ticking c - {(i, armed d)} else ticking c) = {p \<in> ticking c. fst p \<noteq> i}"
proof -
  have t: "(i, w) \<in> ticking c \<Longrightarrow> timer d \<and> w = armed d" for w using sound_ticking[OF assms(1) _ assms(2)] by blast
  show ?thesis by (auto dest: t)
qed

lemma onwards_timers:
  assumes "sound c" and same: "heap c' = heap c" "decisions c' = decisions c" "gone c' = gone c"
    and fewer: "ticking c' \<subseteq> ticking c" "set (posted c') \<subseteq> set (posted c) \<union> ticking c"
    and kept: "\<And>i d. heap c i = Some d \<Longrightarrow> dc_then d \<noteq> None \<Longrightarrow> (i, armed d) \<in> ticking c \<union> set (posted c)
      \<Longrightarrow> (i, armed d) \<in> ticking c' \<union> set (posted c')"
  shows "onwards c c'"
proof -
  have o: "isOpen c' i = isOpen c i" for i by (simp add: isOpen_def same)
  have "sound c'"
    unfolding sound_def
  proof (intro conjI ballI allI impI)
    fix i assume "i \<in> decisions c'" then show "isOpen c' i" using assms(1) o same by (auto simp: sound_def)
  next
    fix i assume "\<not> gone c'" "isOpen c' i" then show "i \<in> decisions c'" using assms(1) o same by (auto simp: sound_def)
  next
    fix p assume "p \<in> ticking c'"
    then have "p \<in> ticking c" using fewer by blast
    then show "case p of (i, w) \<Rightarrow> \<exists>d. heap c' i = Some d \<and> dc_then d \<noteq> None \<and> timer d \<and> w = armed d"
      using sound_ticking_heap[OF assms(1), of "fst p" "snd p"] same by (cases p) auto
  next
    fix p assume "p \<in> set (posted c')"
    then have "p \<in> set (posted c) \<union> ticking c" using fewer by blast
    then show "case p of (i, w) \<Rightarrow> \<exists>d. heap c' i = Some d \<and> w \<le> armed d"
      using sound_posted[OF assms(1), of "fst p" "snd p"] sound_ticking_heap[OF assms(1), of "fst p" "snd p"] same
      by (cases p) auto
  next
    fix i d assume d: "heap c' i = Some d" "dc_then d \<noteq> None" "within d > Whenever"
    then show "timer d" "(i, armed d) \<in> ticking c' \<union> set (posted c')"
      using sound_timed[OF assms(1), of i d] kept[of i d] same by simp_all
  next
    fix i d assume "heap c' i = Some d" "dc_then d = None"
    then show "\<not> timer d" using sound_closed[OF assms(1)] same by simp
  qed
  then show ?thesis using o same by (simp add: onwards_def)
qed

text \<open>Closing one question; runs posted for it may go with it.\<close>

lemma onwards_closing:
  assumes "sound c" "heap c i = Some d"
    and q: "set q \<subseteq> set (posted c)" "\<And>j w. (j, w) \<in> set (posted c) \<Longrightarrow> j \<noteq> i \<Longrightarrow> (j, w) \<in> set q"
  shows "onwards c (c\<lparr>heap := (heap c)(i \<mapsto> d\<lparr>dc_then := None, timer := False\<rparr>),
      ticking := (if timer d then ticking c - {(i, armed d)} else ticking c), posted := q, decisions := decisions c - {i}\<rparr>)"
    (is "onwards c ?c'")
proof -
  have o: "isOpen ?c' j \<longleftrightarrow> j \<noteq> i \<and> isOpen c j" for j by (auto simp: isOpen_def)
  have t: "(j, w) \<in> ticking ?c' \<Longrightarrow> (j, w) \<in> ticking c \<and> j \<noteq> i" for j w
    by (simp add: ticking_others[OF assms(1,2)])
  have "sound ?c'"
    unfolding sound_def
  proof (intro conjI ballI allI impI)
    fix j assume "j \<in> decisions ?c'" then show "isOpen ?c' j" using assms(1) o by (auto simp: sound_def)
  next
    fix j assume "\<not> gone ?c'" "isOpen ?c' j" then show "j \<in> decisions ?c'" using assms(1) o by (auto simp: sound_def)
  next
    fix p assume "p \<in> ticking ?c'"
    then show "case p of (j, w) \<Rightarrow> \<exists>d. heap ?c' j = Some d \<and> dc_then d \<noteq> None \<and> timer d \<and> w = armed d"
      using t[of "fst p" "snd p"] sound_ticking_heap[OF assms(1), of "fst p" "snd p"] by (cases p) auto
  next
    fix p assume "p \<in> set (posted ?c')"
    then have "p \<in> set (posted c)" using q(1) by auto
    then show "case p of (j, w) \<Rightarrow> \<exists>d. heap ?c' j = Some d \<and> w \<le> armed d"
      using sound_posted[OF assms(1), of "fst p" "snd p"] assms(2) by (cases p) (auto intro: le_SucI)
  next
    fix j d' assume h: "heap ?c' j = Some d'" "dc_then d' \<noteq> None" "within d' > Whenever"
    then have "j \<noteq> i" "heap c j = Some d'" by (auto split: if_splits)
    then show "timer d'" "(j, armed d') \<in> ticking ?c' \<union> set (posted ?c')"
      using h sound_timed[OF assms(1), of j d'] q(2)[of j "armed d'"] by (auto split: if_splits)
  next
    fix j d' assume "heap ?c' j = Some d'" "dc_then d' = None"
    then show "\<not> timer d'" using sound_closed[OF assms(1), of j d'] by (auto split: if_splits)
  qed
  then show ?thesis using assms(2) o by (auto simp: onwards_def grows_def)
qed

lemma onwards_arm:
  assumes "sound c" "heap c i = Some d" "dc_then d \<noteq> None"
  shows "onwards c (arm i c)"
proof -
  let ?d = "d\<lparr>armed := armed d + 1, timer := True\<rparr>"
  let ?c' = "c\<lparr>heap := (heap c)(i \<mapsto> ?d),
      ticking := insert (i, armed d + 1) (if timer d then ticking c - {(i, armed d)} else ticking c)\<rparr>"
  have e: "arm i c = ?c'" using assms(2) by (simp add: arm_def Let_def)
  have o: "isOpen ?c' j = isOpen c j" for j using assms(2,3) by (auto simp: isOpen_def)
  have t: "(j, w) \<in> ticking ?c' \<Longrightarrow> (j, w) \<in> ticking c \<and> j \<noteq> i \<or> j = i \<and> w = armed d + 1" for j w
    by (auto simp: ticking_others[OF assms(1,2)])
  have "sound ?c'"
    unfolding sound_def
  proof (intro conjI ballI allI impI)
    fix j assume "j \<in> decisions ?c'" then show "isOpen ?c' j" using assms(1) o by (auto simp: sound_def)
  next
    fix j assume "\<not> gone ?c'" "isOpen ?c' j" then show "j \<in> decisions ?c'" using assms(1) o by (auto simp: sound_def)
  next
    fix p assume "p \<in> ticking ?c'"
    then show "case p of (j, w) \<Rightarrow> \<exists>d. heap ?c' j = Some d \<and> dc_then d \<noteq> None \<and> timer d \<and> w = armed d"
      using t[of "fst p" "snd p"] sound_ticking_heap[OF assms(1), of "fst p" "snd p"] assms(3) by (cases p) auto
  next
    fix p assume "p \<in> set (posted ?c')"
    then show "case p of (j, w) \<Rightarrow> \<exists>d. heap ?c' j = Some d \<and> w \<le> armed d"
      using sound_posted[OF assms(1), of "fst p" "snd p"] assms(2) by (cases p) (auto intro: le_SucI)
  next
    fix j d' assume h: "heap ?c' j = Some d'" "dc_then d' \<noteq> None" "within d' > Whenever"
    have "timer d' \<and> (j, armed d') \<in> ticking ?c' \<union> set (posted ?c')"
    proof (cases "j = i")
      case False
      then have "heap c j = Some d'" using h by simp
      then have "timer d' \<and> (j, armed d') \<in> ticking c \<union> set (posted c)" using h sound_timed[OF assms(1)] by blast
      then show ?thesis using False by auto
    next
      case True
      then show ?thesis using h by auto
    qed
    then show "timer d'" "(j, armed d') \<in> ticking ?c' \<union> set (posted ?c')" by simp_all
  next
    fix j d' assume "heap ?c' j = Some d'" "dc_then d' = None"
    then show "\<not> timer d'" using sound_closed[OF assms(1), of j d'] assms(3) by (auto split: if_splits)
  qed
  then show ?thesis using assms(2) o e by (auto simp: onwards_def grows_def)
qed


text \<open>A connection asked nothing yet is sound.\<close>

definition nothingAsked :: "('h, 'a, 'k, 'm) questions_scheme \<Rightarrow> bool" where
  "nothingAsked c \<longleftrightarrow> held c = (Map.empty, {}, False, {}, [])"

lemma nothingAsked_sound: "nothingAsked c \<Longrightarrow> sound c"
  by (simp add: nothingAsked_def held_def sound_def isOpen_def)

subsection \<open>Whoever asks\<close>

text \<open>The contract of a connection that asks: what it sends and whom it lets address a question touches no
  question, and what an asker does with a verdict is itself a matter of steps like these.\<close>

locale asking =
  fixes sv :: "('h, 'a, 'k, 'm) questions_scheme services"
    and react :: "'k \<Rightarrow> Verdict \<Rightarrow> ('h, 'a, 'k, 'm) questions_scheme \<Rightarrow> ('h, 'a, 'k, 'm) questions_scheme"
  assumes emit_quiet: "svc_Emit sv = Some emit \<Longrightarrow> held (emit ev c) = held c"
    and adopt_quiet: "svc_Adopt sv = Some adopt \<Longrightarrow> held (adopt i c) = held c"
    and drop_quiet: "svc_Drop sv = Some dropID \<Longrightarrow> held (dropID i c) = held c"
    and react_onwards: "sound c \<Longrightarrow> onwards c (react k v c)"
begin

lemma held_EmitEvent: "held (EmitEvent sv ev c) = held c"
  by (simp add: EmitEvent_def Let_def emit_quiet split: option.splits)

lemma held_forget: "held (forget sv i c) = held (c\<lparr>decisions := decisions c - {i}\<rparr>)"
  by (simp add: forget_def Let_def drop_quiet split: option.splits)

lemma onwards_announcing: "sound c \<Longrightarrow> onwards c (announcing (react k v) c)"
proof -
  assume s: "sound c"
  have "onwards c (c\<lparr>suppress := 0\<rparr>)" using onwards_held s held_suppress by blast
  moreover have "onwards (c\<lparr>suppress := 0\<rparr>) (react k v (c\<lparr>suppress := 0\<rparr>))"
    using s sound_held[OF held_suppress] react_onwards by blast
  ultimately have "onwards c (react k v (c\<lparr>suppress := 0\<rparr>))" by (rule onwards_trans)
  then show ?thesis unfolding announcing_def Let_def by (rule onwards_via) simp
qed

lemma onwards_settle_run:
  assumes "sound c" "heap c i = Some d"
    and q: "set q \<subseteq> set (posted c)" "\<And>j w. (j, w) \<in> set (posted c) \<Longrightarrow> j \<noteq> i \<Longrightarrow> (j, w) \<in> set q"
  shows "onwards c (settle sv react v i (c\<lparr>posted := q\<rparr>))"
proof -
  let ?ticking = "if timer d then ticking c - {(i, armed d)} else ticking c"
  let ?c1 = "c\<lparr>heap := (heap c)(i \<mapsto> d\<lparr>dc_then := None, timer := False\<rparr>), ticking := ?ticking, posted := q\<rparr>"
  have on: "onwards c (?c1\<lparr>decisions := decisions c - {i}\<rparr>)" using onwards_closing[OF assms] by simp
  show ?thesis
  proof (cases "dc_then d")
    case None
    have "i \<notin> decisions c" using assms(1,2) None by (auto simp: sound_def isOpen_def)
    then have "held (settle sv react v i (c\<lparr>posted := q\<rparr>)) = held (?c1\<lparr>decisions := decisions c - {i}\<rparr>)"
      using assms(2) None by (simp add: settle_def Let_def held_def)
    then show ?thesis by (rule onwards_via[OF on])
  next
    case (Some k)
    let ?c2 = "c\<lparr>posted := q, heap := (heap c)(i \<mapsto> d\<lparr>dc_then := None, timer := False\<rparr>), ticking := ?ticking\<rparr>"
    have "onwards c (forget sv i ?c2)" by (rule onwards_via[OF on]) (simp add: held_forget, simp add: held_def)
    then have "onwards c (announcing (react k v) (forget sv i ?c2))"
      using onwards_announcing onwards_sound onwards_trans by blast
    then show ?thesis using Some assms(2) by (cases "timer d") (simp_all add: settle_def Let_def)
  qed
qed

lemma onwards_settle:
  assumes "sound c" shows "onwards c (settle sv react v i c)"
proof (cases "heap c i")
  case None
  then show ?thesis using assms by (simp add: settle_def onwards_refl)
next
  case (Some d)
  then show ?thesis using onwards_settle_run[OF assms Some, of "posted c" v] by simp
qed

lemma settle_closes:
  assumes "sound c" "heap c i = Some d" shows "\<not> isOpen (settle sv react v i c) i"
proof (cases "dc_then d")
  case None
  then show ?thesis using assms onwards_settle closed_stays by blast
next
  case (Some k)
  let ?c1 = "c\<lparr>heap := (heap c)(i \<mapsto> d\<lparr>dc_then := None, timer := False\<rparr>),
      ticking := if timer d then ticking c - {(i, armed d)} else ticking c\<rparr>"
  have "onwards c (?c1\<lparr>decisions := decisions c - {i}\<rparr>)" using onwards_closing[OF assms, of "posted c"] by simp
  then have f: "sound (forget sv i ?c1)" using onwards_sound sound_held[OF held_forget] by fastforce
  have "heap (forget sv i ?c1) i = Some (d\<lparr>dc_then := None, timer := False\<rparr>)"
    using held_forget[of i ?c1] by (simp add: held_def)
  then have "\<not> isOpen (announcing (react k v) (forget sv i ?c1)) i"
    using closed_stays[OF onwards_announcing[OF f]] by simp
  then show ?thesis using Some assms(2) by (simp add: settle_def Let_def)
qed

lemma onwards_extend:
  assumes "sound c" shows "onwards c (extend i c)"
  using assms onwards_arm[of c i] by (auto simp: extend_def onwards_refl split: option.splits)

lemma onwards_ranOut:
  assumes "sound c" shows "onwards c (ranOut sv react i w c)"
  using assms onwards_settle by (auto simp: ranOut_def onwards_refl split: option.splits)

lemma onwards_DecideDo:
  assumes "sound c" shows "onwards c (snd (DecideDo sv react i action c))"
  using assms onwards_settle onwards_extend by (auto simp: DecideDo_def onwards_refl)

lemma onwards_settles: "sound c \<Longrightarrow> onwards c (fold (settle sv react v) order c)"
proof (induction order arbitrary: c)
  case (Cons i order)
  have one: "onwards c (settle sv react v i c)" by (rule onwards_settle[OF Cons.prems])
  show ?case using onwards_trans[OF one Cons.IH[OF onwards_sound[OF one]]] by simp
qed (simp add: onwards_refl)

lemma settles_close:
  assumes "sound c" "i \<in> set order" "heap c i = Some d"
  shows "\<not> isOpen (fold (settle sv react v) order c) i"
  using assms
proof (induction order arbitrary: c d)
  case (Cons j order)
  let ?c' = "settle sv react v j c"
  have s: "onwards c ?c'" using Cons.prems(1) by (rule onwards_settle)
  obtain d' where d': "heap ?c' i = Some d'" using s Cons.prems(3) unfolding onwards_def by blast
  show ?case
  proof (cases "i \<in> set order")
    case True
    then show ?thesis using Cons.IH[OF onwards_sound[OF s] True d'] by simp
  next
    case False
    then have "i = j" using Cons.prems(2) by simp
    then have "\<not> isOpen ?c' i" using settle_closes[OF Cons.prems(1,3)] by simp
    then have "dc_then d' = None" using d' by (auto simp: isOpen_def)
    then show ?thesis using closed_stays[OF onwards_settles[OF onwards_sound[OF s]] d'] by simp
  qed
qed simp

text \<open>A question minted for an event.\<close>

lemma onwards_mint:
  assumes "sound c" "heap c i = None" "\<not> gone c" "Whenever < patience \<longrightarrow> t"
    and c': "held c' = held (c\<lparr>heap := (heap c)(i \<mapsto> \<lparr>dc_then = Some k, within = patience, timer = t, armed = n\<rparr>),
      decisions := insert i (decisions c), ticking := (if t then insert (i, n) (ticking c) else ticking c)\<rparr>)"
  shows "onwards c c'"
proof -
  let ?d = "\<lparr>dc_then = Some k, within = patience, timer = t, armed = n\<rparr>"
  have h: "heap c' = (heap c)(i \<mapsto> ?d)" "decisions c' = insert i (decisions c)" "gone c' = gone c"
    "ticking c' = (if t then insert (i, n) (ticking c) else ticking c)" "posted c' = posted c"
    using c' by (auto simp: held_def)
  have o: "isOpen c' j \<longleftrightarrow> j = i \<or> isOpen c j" for j using assms(2) by (auto simp: isOpen_def h)
  have f: "(j, w) \<in> ticking c \<Longrightarrow> j \<noteq> i" "(j, w) \<in> set (posted c) \<Longrightarrow> j \<noteq> i" for j w
    using sound_ticking_heap[OF assms(1), of j w] sound_posted[OF assms(1), of j w] assms(2) by auto
  have "sound c'"
    unfolding sound_def
  proof (intro conjI ballI allI impI)
    fix j assume "j \<in> decisions c'" then show "isOpen c' j" using assms(1) o h(2) by (auto simp: sound_def)
  next
    fix j assume "\<not> gone c'" "isOpen c' j" then show "j \<in> decisions c'" using assms(1) o h(2,3) by (auto simp: sound_def)
  next
    fix p assume "p \<in> ticking c'"
    then show "case p of (j, w) \<Rightarrow> \<exists>d. heap c' j = Some d \<and> dc_then d \<noteq> None \<and> timer d \<and> w = armed d"
      using f(1)[of "fst p" "snd p"] sound_ticking_heap[OF assms(1), of "fst p" "snd p"]
      by (cases p) (auto simp: h split: if_splits)
  next
    fix p assume "p \<in> set (posted c')"
    then show "case p of (j, w) \<Rightarrow> \<exists>d. heap c' j = Some d \<and> w \<le> armed d"
      using f(2)[of "fst p" "snd p"] sound_posted[OF assms(1), of "fst p" "snd p"] by (cases p) (auto simp: h)
  next
    fix j d' assume d': "heap c' j = Some d'" "dc_then d' \<noteq> None" "within d' > Whenever"
    have "timer d' \<and> (j, armed d') \<in> ticking c' \<union> set (posted c')"
    proof (cases "j = i")
      case True
      then show ?thesis using d' assms(4) by (auto simp: h)
    next
      case False
      then show ?thesis using sound_timed[OF assms(1), of j d'] d' by (auto simp: h)
    qed
    then show "timer d'" "(j, armed d') \<in> ticking c' \<union> set (posted c')" by simp_all
  next
    fix j d' assume "heap c' j = Some d'" "dc_then d' = None"
    then show "\<not> timer d'" using sound_closed[OF assms(1), of j d'] by (auto simp: h split: if_splits)
  qed
  then show ?thesis using assms(2,3) o by (auto simp: onwards_def h)
qed

lemma onwards_Deciding:
  assumes "sound c" "heap c i = None" shows "onwards c (snd (Deciding sv i ev patience k c))"
proof (cases "svc_Adopt sv")
  case None
  then show ?thesis using onwards_held[OF held_EmitEvent assms(1)] by (simp add: Deciding_def)
next
  case (Some adopt)
  show ?thesis
  proof (cases "listening c ev")
    case False
    then show ?thesis using Some assms(1) by (simp add: Deciding_def onwards_refl)
  next
    case True
    let ?c2 = "adopt i (c\<lparr>heap := (heap c)(i \<mapsto> \<lparr>dc_then = Some k, within = patience, timer = False, armed = 0\<rparr>),
        decisions := insert i (decisions c)\<rparr>)"
    have h: "held ?c2 = held (c\<lparr>heap := (heap c)(i \<mapsto> \<lparr>dc_then = Some k, within = patience, timer = False, armed = 0\<rparr>),
        decisions := insert i (decisions c)\<rparr>)" by (rule adopt_quiet[OF Some])
    have live: "\<not> gone c" using True by (simp add: listening_def)
    have "onwards c (if patience > Whenever then arm i ?c2 else ?c2)"
    proof (cases "patience > Whenever")
      case True
      have "held (arm i ?c2) = held (c\<lparr>heap := (heap c)(i \<mapsto> \<lparr>dc_then = Some k, within = patience, timer = True, armed = 1\<rparr>),
          decisions := insert i (decisions c), ticking := insert i1 (ticking c)\<rparr>)" if "i1 = (i, 1)" for i1
        using h that by (simp add: held_def arm_def)
      then have "onwards c (arm i ?c2)"
        by (intro onwards_mint[OF assms live, where t=True and n=1 and k=k and patience=patience]) simp_all
      then show ?thesis using True by simp
    next
      case False
      then have "onwards c ?c2" using h
        by (intro onwards_mint[OF assms live, where t=False and n=0 and k=k and patience=patience]) (simp_all add: held_def)
      then show ?thesis using False by simp
    qed
    then show ?thesis using onwards_via[OF _ held_EmitEvent] Some True by (simp add: Deciding_def Let_def)
  qed
qed

lemma onwards_Undecided:
  assumes "sound c" shows "onwards c (Undecided sv react order c)"
proof -
  have "onwards c (c\<lparr>decisions := {}, gone := True\<rparr>)"
    using assms by (auto simp: onwards_def sound_def isOpen_def)
  then show ?thesis unfolding Undecided_def using onwards_settles onwards_sound onwards_trans by blast
qed

lemma onwards_step:
  assumes "qstep sv react c c'" "sound c" shows "onwards c c'"
  using assms
proof (induction rule: qstep.induct)
  case (fires i wait c)
  obtain d where d: "heap c i = Some d" "dc_then d \<noteq> None" "timer d" "wait = armed d"
    using sound_ticking_heap[OF fires(2,1)] by blast
  show ?case
  proof (cases "svc_Post sv")
    case True
    have "onwards c (c\<lparr>ticking := ticking c - {(i, wait)}, posted := posted c @ [(i, wait)]\<rparr>)"
      using fires(1) by (intro onwards_timers[OF fires(2)]) auto
    then show ?thesis using True by (simp add: fireTimer_def Let_def)
  next
    case False
    let ?c1 = "c\<lparr>ticking := ticking c - {(i, wait)}\<rparr>"
    have "settle sv react unsaid i ?c1 = settle sv react unsaid i c"
      using d by (simp add: settle_def)
    then show ?thesis using False d onwards_settle[OF fires(2)] by (simp add: fireTimer_def ranOut_def Let_def)
  qed
next
  case (runs c)
  then obtain i w q where q: "posted c = (i, w) # q" by (cases "posted c") auto
  obtain d where d: "heap c i = Some d" "w \<le> armed d" using sound_posted[OF runs(2), of i w] q by auto
  let ?c1 = "c\<lparr>posted := q\<rparr>"
  show ?case
  proof (cases "w = armed d \<and> dc_then d \<noteq> None")
    case False
    have one: "onwards c ?c1" using q d(1) False by (intro onwards_timers[OF runs(2)]) auto
    show ?thesis using onwards_trans[OF one onwards_ranOut[OF onwards_sound[OF one]]] q by (simp add: runPosted_def)
  next
    case True
    have "onwards c (settle sv react unsaid i ?c1)"
      by (rule onwards_settle_run[OF runs(2) d(1)]) (auto simp: q)
    then show ?thesis using True q d(1) by (simp add: runPosted_def ranOut_def)
  qed
next
  case (other c' c)
  then show ?case by (rule onwards_held)
qed (simp_all add: onwards_Deciding onwards_DecideDo onwards_Undecided)

lemma onwards_steps: "(qstep sv react)\<^sup>*\<^sup>* c c' \<Longrightarrow> sound c \<Longrightarrow> onwards c c'"
proof (induction rule: rtranclp_induct)
  case base
  then show ?case by (rule onwards_refl)
next
  case (step b c)
  then show ?case using onwards_step onwards_sound onwards_trans by meson
qed

lemma settle_closed:
  assumes "sound c" "\<not> isOpen c i" shows "settle sv react v i c = c"
proof (cases "heap c i")
  case (Some d)
  then have "dc_then d = None" using assms(2) by (simp add: isOpen_def)
  then have "d\<lparr>dc_then := None, timer := False\<rparr> = d" "\<not> timer d" using sound_closed[OF assms(1) Some] by simp_all
  then show ?thesis using Some \<open>dc_then d = None\<close> by (simp add: settle_def Let_def fun_upd_idem)
qed (simp add: settle_def)

lemma extend_closed: "\<not> isOpen c i \<Longrightarrow> extend i c = c"
  by (auto simp: extend_def isOpen_def split: option.splits)

lemma closed_later:
  assumes "sound c" "heap c i = Some d" "\<not> isOpen c i" "(qstep sv react)\<^sup>*\<^sup>* c c'"
  shows "sound c' \<and> \<not> isOpen c' i"
  using onwards_steps[OF assms(4,1)] closed_stays[OF _ assms(2)] onwards_sound assms(2,3) by (auto simp: isOpen_def)

text \<open>No question with a deadline is forgotten.\<close>

lemma not_forgotten:
  assumes "nothingAsked c0" "(qstep sv react)\<^sup>*\<^sup>* c0 c" "heap c i = Some d" "dc_then d \<noteq> None"
  shows "(\<not> gone c \<longrightarrow> i \<in> decisions c)
    \<and> (Whenever < within d \<longrightarrow> (i, armed d) \<in> ticking c \<union> set (posted c))
    \<and> \<not> isOpen (ranOut sv react i (armed d) c) i"
proof -
  have s: "sound c" by (rule onwards_sound[OF onwards_steps[OF assms(2) nothingAsked_sound[OF assms(1)]]])
  have o: "isOpen c i" using assms(3,4) by (auto simp: isOpen_def)
  have "\<not> isOpen (ranOut sv react i (armed d) c) i"
    using settle_closes[OF s assms(3)] assms(3) by (simp add: ranOut_def)
  moreover have "\<not> gone c \<longrightarrow> i \<in> decisions c" using s o by (auto simp: sound_def)
  ultimately show ?thesis using sound_timed[OF s assms(3,4)] by blast
qed

text \<open>A question is decided once.\<close>

lemma stays_decided:
  assumes "sound c" "heap c i = Some d" "(qstep sv react)\<^sup>*\<^sup>* (settle sv react v i c) c'"
  shows "\<not> isOpen c' i \<and> settle sv react v' i c' = c' \<and> ranOut sv react i wait c' = c'
    \<and> snd (DecideDo sv react i action c') = c'"
proof -
  have on: "onwards c (settle sv react v i c)" by (rule onwards_settle[OF assms(1)])
  then obtain d' where d': "heap (settle sv react v i c) i = Some d'" using assms(2) unfolding onwards_def by blast
  have c': "sound c'" "\<not> isOpen c' i"
    using closed_later[OF onwards_sound[OF on] d' settle_closes[OF assms(1,2)] assms(3)] by simp_all
  have st: "settle sv react u i c' = c'" for u by (rule settle_closed[OF c'])
  then show ?thesis using c'(2) extend_closed[OF c'(2)] by (simp add: ranOut_def DecideDo_def split: option.splits)
qed

text \<open>An answer that is on its way outruns the waits from before it.\<close>

lemma waiting_wins:
  assumes "sound c" "heap c i = Some d" "dc_then d \<noteq> None" "Whenever < within d"
    "(qstep sv react)\<^sup>*\<^sup>* (snd (DecideDo sv react i ''waiting'' c)) c'" "wait \<le> armed d"
  shows "ranOut sv react i wait c' = c'"
proof -
  let ?c1 = "snd (DecideDo sv react i ''waiting'' c)"
  have c1: "?c1 = arm i c" using assms(2-4) by (auto simp: DecideDo_def extend_def)
  have on: "onwards c ?c1" by (rule onwards_DecideDo[OF assms(1)])
  have "heap ?c1 i = Some (d\<lparr>armed := armed d + 1, timer := True\<rparr>)" using assms(2) by (simp add: c1 arm_def Let_def)
  then obtain d' where "heap c' i = Some d'" "armed d + 1 \<le> armed d'"
    using onwards_steps[OF assms(5) onwards_sound[OF on]] unfolding onwards_def grows_def by fastforce
  then show ?thesis using assms(6) by (simp add: ranOut_def)
qed

text \<open>An application that has gone decides nothing and is asked nothing.\<close>

lemma gone_for_good:
  assumes "sound c" "\<not> gone c" "set order = decisions c"
    "(qstep sv react)\<^sup>*\<^sup>* (Undecided sv react order c) c'" "svc_Adopt sv \<noteq> None"
  shows "\<not> isOpen c' i \<and> Deciding sv i ev patience k c' = (None, c')"
proof -
  let ?c0 = "c\<lparr>decisions := {}, gone := True\<rparr>"
  let ?c1 = "Undecided sv react order c"
  have s0: "sound ?c0" using assms(1) by (simp add: sound_def isOpen_def)
  have on: "onwards ?c0 ?c1" unfolding Undecided_def by (rule onwards_settles[OF s0])
  have "\<not> isOpen ?c1 j" for j
  proof
    assume j: "isOpen ?c1 j"
    then have "isOpen ?c0 j" using on by (simp add: onwards_def)
    then have o: "isOpen c j" by (simp add: isOpen_def)
    then obtain d where d: "heap ?c0 j = Some d" by (auto simp: isOpen_def)
    have "j \<in> set order" using o assms(1-3) by (auto simp: sound_def)
    then show False using settles_close[OF s0 _ d] j by (simp add: Undecided_def)
  qed
  moreover have "onwards ?c1 c'" by (rule onwards_steps[OF assms(4) onwards_sound[OF on]])
  moreover have "gone ?c1" using on by (simp add: onwards_def)
  ultimately have "gone c'" "\<not> isOpen c' i" by (auto simp: onwards_def)
  then show ?thesis using assms(5) by (auto simp: Deciding_def listening_def)
qed

end

end
