(* ===== verification/Registry.thy ===== *)
theory Registry
  imports Decisions
begin

text \<open>
  The registry behind the wire vocabulary (\<open>protocol/registry.go\<close>): the types a trinket's own code
  registers, with their properties, events, questions and actions, the checks a session makes against
  them, the typed readings of property values, and what the registry says of itself
  (\<open>protocol/describe.go\<close>). A target \<open>'t\<close> is a pointer to whatever was built, a \<open>'c\<close> the state its
  operations act on; a method a target may or may not have is an option.
\<close>

subsection \<open>Names\<close>

definition upperCase :: "char set" where "upperCase = {c. of_char c \<ge> (65::nat) \<and> of_char c \<le> (90::nat)}"
definition lowerCase :: "char set" where "lowerCase = {c. of_char c \<ge> (97::nat) \<and> of_char c \<le> (122::nat)}"

definition isUpperInitial :: "string \<Rightarrow> bool" where
  "isUpperInitial name \<longleftrightarrow> name \<noteq> [] \<and> hd name \<in> upperCase"

definition isLowerInitial :: "string \<Rightarrow> bool" where
  "isLowerInitial name \<longleftrightarrow> name \<noteq> [] \<and> (hd name \<in> lowerCase \<or> hd name = CHR ''_'')"

text \<open>\<open>strings.Join\<close> with \<open>", "\<close>.\<close>

fun commaJoin :: "string list \<Rightarrow> string" where
  "commaJoin [] = []"
| "commaJoin [s] = s"
| "commaJoin (s # ss) = s @ '', '' @ commaJoin ss"

subsection \<open>Descriptors (\<open>protocol/describe.go\<close>)\<close>

record PropDesc =
  pd_Kind :: string
  pd_Default :: string
  pd_Doc :: string
  pd_Enum :: "string list"
  pd_Members :: "string list"

record CallDesc =
  cd_Doc :: string
  cd_Args :: "EventFieldDesc list"

record EventDesc =
  ed_Doc :: string
  ed_Fields :: "EventFieldDesc list"

record ('t, 'c) Property =
  pr_Apply :: "('t \<Rightarrow> wvalue option \<Rightarrow> flagState \<Rightarrow> 'c \<Rightarrow> goError option \<times> 'c) option"
  pr_Accept :: "('t \<Rightarrow> 't \<Rightarrow> 'c \<Rightarrow> goError option \<times> 'c) option"
  pr_Desc :: PropDesc

definition NewProperty :: "string \<Rightarrow> ('t \<Rightarrow> wvalue option \<Rightarrow> flagState \<Rightarrow> 'c \<Rightarrow> goError option \<times> 'c) \<Rightarrow> ('t, 'c) Property" where
  "NewProperty kind apply =
     \<lparr>pr_Apply = Some apply, pr_Accept = None, pr_Desc = \<lparr>pd_Kind = kind, pd_Default = [], pd_Doc = [], pd_Enum = [], pd_Members = []\<rparr>\<rparr>"

definition NewCollection :: "('t \<Rightarrow> 't \<Rightarrow> 'c \<Rightarrow> goError option \<times> 'c) \<Rightarrow> ('t, 'c) Property" where
  "NewCollection accept =
     \<lparr>pr_Apply = None, pr_Accept = Some accept,
      pr_Desc = \<lparr>pd_Kind = ''collection'', pd_Default = [], pd_Doc = [], pd_Enum = [], pd_Members = []\<rparr>\<rparr>"

definition Members :: "string list \<Rightarrow> ('t, 'c) Property \<Rightarrow> ('t, 'c) Property" where
  "Members types p = p\<lparr>pr_Desc := (pr_Desc p)\<lparr>pd_Members := types\<rparr>\<rparr>"

definition Tip :: "string \<Rightarrow> ('t, 'c) Property \<Rightarrow> ('t, 'c) Property" where
  "Tip doc p = p\<lparr>pr_Desc := (pr_Desc p)\<lparr>pd_Doc := doc\<rparr>\<rparr>"

definition Def :: "string \<Rightarrow> ('t, 'c) Property \<Rightarrow> ('t, 'c) Property" where
  "Def def p = p\<lparr>pr_Desc := (pr_Desc p)\<lparr>pd_Default := def\<rparr>\<rparr>"

definition OneOf :: "string list \<Rightarrow> ('t, 'c) Property \<Rightarrow> ('t, 'c) Property" where
  "OneOf words p =
     (let d = (pr_Desc p)\<lparr>pd_Enum := words\<rparr> in
      p\<lparr>pr_Desc := (if pd_Kind d = [] \<or> pd_Kind d = ''word'' then d\<lparr>pd_Kind := ''enum''\<rparr> else d)\<rparr>)"

definition As :: "string \<Rightarrow> ('t, 'c) Property \<Rightarrow> ('t, 'c) Property" where
  "As kind p = p\<lparr>pr_Desc := (pr_Desc p)\<lparr>pd_Kind := kind\<rparr>\<rparr>"

definition NewCallDesc :: "string \<Rightarrow> CallDesc" where
  "NewCallDesc doc = \<lparr>cd_Doc = doc, cd_Args = []\<rparr>"

definition CallArg :: "string \<Rightarrow> string \<Rightarrow> string \<Rightarrow> CallDesc \<Rightarrow> CallDesc" where
  "CallArg name kind doc a = a\<lparr>cd_Args := cd_Args a @ [\<lparr>fd_Name = name, fd_Kind = kind, fd_Doc = doc\<rparr>]\<rparr>"

definition NewEventDesc :: "string \<Rightarrow> EventDesc" where
  "NewEventDesc doc = \<lparr>ed_Doc = doc, ed_Fields = []\<rparr>"

definition EventField :: "string \<Rightarrow> string \<Rightarrow> string \<Rightarrow> EventDesc \<Rightarrow> EventDesc" where
  "EventField name kind doc e = e\<lparr>ed_Fields := ed_Fields e @ [\<lparr>fd_Name = name, fd_Kind = kind, fd_Doc = doc\<rparr>]\<rparr>"

subsection \<open>Types\<close>

record ('t, 'c) TypeSpec =
  ts_New :: "('c \<Rightarrow> 't \<times> 'c) option"
  ts_Props :: "(string, ('t, 'c) Property) mapping"
  ts_Bind :: "('t \<Rightarrow> 'c \<Rightarrow> 'c) option"
  ts_Asks :: "(string, CallDesc) mapping"
  ts_Does :: "(string, CallDesc) mapping"
  ts_Events :: "(string, EventDesc) mapping"
  ts_ID :: "('t \<Rightarrow> u64) option"
  ts_Destroy :: "('t \<Rightarrow> 'c \<Rightarrow> goError option \<times> 'c) option"
  ts_Virtual :: bool
  ts_Hosted :: bool

record ('t, 'c) registry =
  regTypes :: "(string, ('t, 'c) TypeSpec) mapping"
  regCommon :: "(string, ('t, 'c) Property) mapping"

definition emptyRegistry :: "('t, 'c) registry" where
  "emptyRegistry = \<lparr>regTypes = Mapping.empty, regCommon = Mapping.empty\<rparr>"

definition checkPropertyShape :: "('t, 'c) Property \<Rightarrow> goError option" where
  "checkPropertyShape p =
     (let collection = (pd_Kind (pr_Desc p) = ''collection'') in
      if pr_Apply p \<noteq> None \<and> pr_Accept p \<noteq> None then Some (Errorf ''has both an applier and a collection appender'' [])
      else if pr_Apply p = None \<and> pr_Accept p = None then Some (Errorf ''has neither an applier nor a collection appender'' [])
      else if collection \<and> pr_Accept p = None then Some (Errorf ''kind is \"collection\" but it takes a value'' [])
      else if \<not> collection \<and> pr_Accept p \<noteq> None then Some (Errorf ''takes a block but its kind is %q, not \"collection\"'' [pd_Kind (pr_Desc p)])
      else if pd_Members (pr_Desc p) \<noteq> [] \<and> \<not> collection then Some (Errorf ''names members but is not a collection'' [])
      else None)"

text \<open>A registration that is a programming error panics, which is \<open>None\<close>.\<close>

definition RegisterType :: "string \<Rightarrow> ('t, 'c) TypeSpec option \<Rightarrow> ('t, 'c) registry \<Rightarrow> ('t, 'c) registry option" where
  "RegisterType name descriptor r =
     (if \<not> isLowerInitial name then None
      else case descriptor of
        None \<Rightarrow> None
      | Some ts \<Rightarrow>
          (if ts_New ts = None \<and> \<not> ts_Hosted ts then None
           else if ts_New ts \<noteq> None \<and> ts_Hosted ts then None
           else if \<not> ts_Virtual ts \<and> ts_ID ts = None then None
           else if \<exists>n \<in> set (Mapping.ordered_keys (ts_Props ts)). map_option checkPropertyShape (Mapping.lookup (ts_Props ts) n) \<noteq> Some None
             then None
           else if Mapping.lookup (regTypes r) name \<noteq> None then None
           else Some (r\<lparr>regTypes := Mapping.update name ts (regTypes r)\<rparr>)))"

definition RegisterCommonProperty :: "string \<Rightarrow> ('t, 'c) Property \<Rightarrow> ('t, 'c) registry \<Rightarrow> ('t, 'c) registry option" where
  "RegisterCommonProperty name p r =
     (if checkPropertyShape p \<noteq> None then None
      else if Mapping.lookup (regCommon r) name \<noteq> None then None
      else Some (r\<lparr>regCommon := Mapping.update name p (regCommon r)\<rparr>))"

subsection \<open>What a type declares\<close>

definition UniversalEvent :: string where "UniversalEvent = ''command''"

text \<open>\<open>EventNames\<close>: nil, for a name that is not registered, is \<open>None\<close>.\<close>

definition EventNames :: "('t, 'c) registry \<Rightarrow> string \<Rightarrow> string list option" where
  "EventNames r typeName = map_option (\<lambda>ts. Mapping.ordered_keys (ts_Events ts)) (Mapping.lookup (regTypes r) typeName)"

definition callsOf :: "('t, 'c) TypeSpec \<Rightarrow> string \<Rightarrow> (string, CallDesc) mapping" where
  "callsOf ts verb = (if verb = ''do'' then ts_Does ts else ts_Asks ts)"

definition callNames :: "('t, 'c) registry \<Rightarrow> string \<Rightarrow> string \<Rightarrow> string list" where
  "callNames r typeName verb =
     (case Mapping.lookup (regTypes r) typeName of
        None \<Rightarrow> []
      | Some ts \<Rightarrow> Mapping.ordered_keys (callsOf ts verb))"

definition AskNames :: "('t, 'c) registry \<Rightarrow> string \<Rightarrow> string list" where
  "AskNames r typeName = callNames r typeName ''ask''"

definition DoNames :: "('t, 'c) registry \<Rightarrow> string \<Rightarrow> string list" where
  "DoNames r typeName = callNames r typeName ''do''"

definition typeDeclares :: "('t, 'c) registry \<Rightarrow> string \<Rightarrow> string \<Rightarrow> string \<Rightarrow> bool" where
  "typeDeclares r typeName verb name =
     (case Mapping.lookup (regTypes r) typeName of
        None \<Rightarrow> False
      | Some ts \<Rightarrow> Mapping.lookup (callsOf ts verb) name \<noteq> None)"

definition TypeAnswers :: "('t, 'c) registry \<Rightarrow> string \<Rightarrow> string \<Rightarrow> bool" where
  "TypeAnswers r typeName question = typeDeclares r typeName ''ask'' question"

definition TypeDoes :: "('t, 'c) registry \<Rightarrow> string \<Rightarrow> string \<Rightarrow> bool" where
  "TypeDoes r typeName action = typeDeclares r typeName ''do'' action"

definition RegisteredTypes :: "('t, 'c) registry \<Rightarrow> string list" where
  "RegisteredTypes r = Mapping.ordered_keys (regTypes r)"

definition anyTypeDeclares :: "('t, 'c) registry \<Rightarrow> string \<Rightarrow> string \<Rightarrow> bool" where
  "anyTypeDeclares r verb name \<longleftrightarrow> (\<exists>t \<in> set (Mapping.ordered_keys (regTypes r)). typeDeclares r t verb name)"

definition TypeEmits :: "('t, 'c) registry \<Rightarrow> string \<Rightarrow> string \<Rightarrow> bool" where
  "TypeEmits r typeName event \<longleftrightarrow>
     event = UniversalEvent \<or>
     (case Mapping.lookup (regTypes r) typeName of None \<Rightarrow> False | Some ts \<Rightarrow> Mapping.lookup (ts_Events ts) event \<noteq> None)"

definition AnyTypeEmits :: "('t, 'c) registry \<Rightarrow> string \<Rightarrow> bool" where
  "AnyTypeEmits r event \<longleftrightarrow>
     event = UniversalEvent \<or> (\<exists>t \<in> set (Mapping.ordered_keys (regTypes r)). TypeEmits r t event)"

subsection \<open>Checks on a name\<close>

definition callWords :: "string \<Rightarrow> string \<times> string \<times> string" where
  "callWords verb =
     (if verb = ''ask'' then (''answers'', ''answers no question called'', ''answers no questions at all, so it cannot answer'')
      else if verb = ''do'' then (''does'', ''does nothing called'', ''does nothing at all, so it cannot do'')
      else ([], [], []))"

definition checkCallName :: "('t, 'c) registry \<Rightarrow> string \<Rightarrow> string \<Rightarrow> string \<Rightarrow> goError option" where
  "checkCallName r verb typeName name =
     (let (w0, w1, w2) = callWords verb in
      if typeName = [] then
        (if anyTypeDeclares r verb name then None else Some (Errorf ''%s: nothing %s %q'' [verb, w0, name]))
      else if typeDeclares r typeName verb name then None
      else if callNames r typeName verb \<noteq> [] then
        Some (Errorf ''%s: %s %s %q; it %s %s'' [verb, typeName, w1, name, w0, commaJoin (callNames r typeName verb)])
      else Some (Errorf ''%s: %s %s %q'' [verb, typeName, w2, name]))"

definition checkAskName :: "('t, 'c) registry \<Rightarrow> string \<Rightarrow> string \<Rightarrow> goError option" where
  "checkAskName r typeName question = checkCallName r ''ask'' typeName question"

definition checkDoName :: "('t, 'c) registry \<Rightarrow> string \<Rightarrow> string \<Rightarrow> goError option" where
  "checkDoName r typeName action = checkCallName r ''do'' typeName action"

definition checkEventName :: "('t, 'c) registry \<Rightarrow> string \<Rightarrow> string \<Rightarrow> string \<Rightarrow> goError option" where
  "checkEventName r verb typeName event =
     (if typeName = [] then
        (if AnyTypeEmits r event then None else Some (Errorf ''%s: no type raises an event named %q'' [verb, event]))
      else if TypeEmits r typeName event then None
      else case EventNames r typeName of
        Some (n # ns) \<Rightarrow>
          Some (Errorf ''%s: %s raises no event named %q; it raises %s'' [verb, typeName, event, commaJoin (n # ns)])
      | _ \<Rightarrow> Some (Errorf ''%s: %s raises no events at all, so it cannot raise %q'' [verb, typeName, event]))"

subsection \<open>Typed readings of a property's value\<close>

definition AsString :: "string \<Rightarrow> wvalue option \<Rightarrow> flagState \<Rightarrow> goError + string" where
  "AsString name v flag =
     (case (flag, v) of
        (FlagNone, Some (StringValue s b)) \<Rightarrow> Inr s
      | _ \<Rightarrow> Inl (Errorf ''%s: expected a quoted string'' [name]))"

definition AsWord :: "string \<Rightarrow> wvalue option \<Rightarrow> flagState \<Rightarrow> goError + string" where
  "AsWord name v flag =
     (case (flag, v) of
        (FlagNone, Some (WordValue w)) \<Rightarrow> Inr w
      | _ \<Rightarrow> Inl (Errorf ''%s: expected a bare word'' [name]))"

definition AsInt :: "string \<Rightarrow> wvalue option \<Rightarrow> flagState \<Rightarrow> goError + u64" where
  "AsInt name v flag =
     (case (flag, v) of
        (FlagNone, Some (IntValue i)) \<Rightarrow> Inr i
      | _ \<Rightarrow> Inl (Errorf ''%s: expected an integer'' [name]))"

definition AsFloat :: "string \<Rightarrow> wvalue option \<Rightarrow> flagState \<Rightarrow> goError + float64" where
  "AsFloat name v flag =
     (case (flag, v) of
        (FlagNone, Some (IntValue i)) \<Rightarrow> Inr (floatOfInt (sint i))
      | (FlagNone, Some (FloatValue f)) \<Rightarrow> Inr f
      | _ \<Rightarrow> Inl (Errorf ''%s: expected a number'' [name]))"

definition AsBool :: "string \<Rightarrow> wvalue option \<Rightarrow> flagState \<Rightarrow> goError + bool" where
  "AsBool name v flag =
     (case flag of
        FlagTrue \<Rightarrow> Inr True
      | FlagFalse \<Rightarrow> Inr False
      | FlagIndeterminate \<Rightarrow> Inl (Errorf ''%s: indeterminate is not meaningful for this property'' [name])
      | FlagNone \<Rightarrow>
          (case v of
             Some (WordValue w) \<Rightarrow>
               (if w = ''true'' then Inr True else if w = ''false'' then Inr False else Inl (Errorf ''%s: expected a flag'' [name]))
           | _ \<Rightarrow> Inl (Errorf ''%s: expected a flag'' [name])))"

subsection \<open>What the registry says of itself\<close>

definition descToInfo :: "string \<Rightarrow> PropDesc \<Rightarrow> PropInfo" where
  "descToInfo name d =
     \<lparr>pi_Name = name, pi_Kind = pd_Kind d, pi_Default = pd_Default d, pi_Doc = pd_Doc d, pi_Enum = pd_Enum d, pi_Members = pd_Members d\<rparr>"

definition sortedPropInfos :: "(string, ('t, 'c) Property) mapping \<Rightarrow> PropInfo list" where
  "sortedPropInfos props = map (\<lambda>n. descToInfo n (pr_Desc (the (Mapping.lookup props n)))) (Mapping.ordered_keys props)"

definition sortedEventInfos :: "(string, EventDesc) mapping \<Rightarrow> EventInfo list" where
  "sortedEventInfos events =
     map (\<lambda>n. let d = the (Mapping.lookup events n) in \<lparr>ei_Name = n, ei_Doc = ed_Doc d, ei_Fields = ed_Fields d\<rparr>)
       (Mapping.ordered_keys events)"

definition sortedCallInfos :: "(string, CallDesc) mapping \<Rightarrow> CallInfo list" where
  "sortedCallInfos calls =
     map (\<lambda>n. let d = the (Mapping.lookup calls n) in \<lparr>ci_Name = n, ci_Doc = cd_Doc d, ci_Args = cd_Args d\<rparr>)
       (Mapping.ordered_keys calls)"

definition typeInfo :: "string \<Rightarrow> ('t, 'c) TypeSpec \<Rightarrow> TypeInfo" where
  "typeInfo n ts =
     \<lparr>ti_Name = n, ti_Virtual = ts_Virtual ts, ti_Hosted = ts_Hosted ts, ti_Props = sortedPropInfos (ts_Props ts),
      ti_Asks = sortedCallInfos (ts_Asks ts), ti_Does = sortedCallInfos (ts_Does ts), ti_Events = sortedEventInfos (ts_Events ts)\<rparr>"

definition DescribeVocabulary :: "('t, 'c) registry \<Rightarrow> Vocabulary" where
  "DescribeVocabulary r =
     \<lparr>v_Common = sortedPropInfos (regCommon r),
      v_Types = map (\<lambda>n. typeInfo n (the (Mapping.lookup (regTypes r) n))) (Mapping.ordered_keys (regTypes r))\<rparr>"

subsection \<open>Registered types\<close>

text \<open>What a registry is after any registrations that did not panic; a Go table is finite.\<close>

definition specTables :: "('t, 'c) TypeSpec \<Rightarrow> bool" where
  "specTables ts \<longleftrightarrow> finite (Mapping.keys (ts_Props ts)) \<and> finite (Mapping.keys (ts_Asks ts))
     \<and> finite (Mapping.keys (ts_Does ts)) \<and> finite (Mapping.keys (ts_Events ts))"

inductive registered :: "('t, 'c) registry \<Rightarrow> bool" where
  empty: "registered emptyRegistry"
| type: "registered r \<Longrightarrow> specTables ts \<Longrightarrow> RegisterType name (Some ts) r = Some r' \<Longrightarrow> registered r'"
| common: "registered r \<Longrightarrow> RegisterCommonProperty name p r = Some r' \<Longrightarrow> registered r'"

definition specSound :: "string \<Rightarrow> ('t, 'c) TypeSpec \<Rightarrow> bool" where
  "specSound n ts \<longleftrightarrow> isLowerInitial n \<and> (ts_New ts = None \<longleftrightarrow> ts_Hosted ts) \<and> (ts_Virtual ts \<or> ts_ID ts \<noteq> None)
     \<and> (\<forall>k p. Mapping.lookup (ts_Props ts) k = Some p \<longrightarrow> checkPropertyShape p = None) \<and> specTables ts"

definition registrySound :: "('t, 'c) registry \<Rightarrow> bool" where
  "registrySound r \<longleftrightarrow> finite (Mapping.keys (regTypes r)) \<and> finite (Mapping.keys (regCommon r))
     \<and> (\<forall>n ts. Mapping.lookup (regTypes r) n = Some ts \<longrightarrow> specSound n ts)
     \<and> (\<forall>k p. Mapping.lookup (regCommon r) k = Some p \<longrightarrow> checkPropertyShape p = None)"

lemma keys_lookup: "k \<in> Mapping.keys m \<longleftrightarrow> Mapping.lookup m k \<noteq> None"
  by (auto simp: Mapping.keys_dom_lookup)

lemma set_ordered_keys [simp]: "finite (Mapping.keys m) \<Longrightarrow> set (Mapping.ordered_keys m) = Mapping.keys m"
  by (simp add: Mapping.ordered_keys_def)

lemma RegisterType_sound:
  assumes "RegisterType name (Some ts) r = Some r'" "specTables ts"
  shows "specSound name ts \<and> r' = r\<lparr>regTypes := Mapping.update name ts (regTypes r)\<rparr>"
proof -
  have k: "set (Mapping.ordered_keys (ts_Props ts)) = Mapping.keys (ts_Props ts)" using assms(2) by (simp add: specTables_def)
  have "\<not> (\<exists>n \<in> Mapping.keys (ts_Props ts). map_option checkPropertyShape (Mapping.lookup (ts_Props ts) n) \<noteq> Some None)"
    using assms(1) by (simp add: RegisterType_def k split: if_splits)
  then have "checkPropertyShape p = None" if "Mapping.lookup (ts_Props ts) n = Some p" for n p
    using that by (metis keys_lookup option.distinct(1) option.inject option.map(2))
  then show ?thesis using assms by (auto simp: RegisterType_def specSound_def split: if_splits)
qed

lemma registered_sound: "registered r \<Longrightarrow> registrySound r"
proof (induction rule: registered.induct)
  case empty
  show ?case by (simp add: registrySound_def emptyRegistry_def Mapping.lookup_empty)
next
  case (type r ts name r')
  have "specSound name ts" "r' = r\<lparr>regTypes := Mapping.update name ts (regTypes r)\<rparr>"
    using RegisterType_sound[OF type(3,2)] by simp_all
  then show ?case using type.IH by (auto simp: registrySound_def Mapping.lookup_update')
next
  case (common r name p r')
  then show ?case
    by (auto simp: registrySound_def RegisterCommonProperty_def Mapping.lookup_update' split: if_splits)
qed

text \<open>One shape per property: a value property applies a value and a collection adopts a child.\<close>

lemma shape_once: "checkPropertyShape p = None \<Longrightarrow>
  (pr_Apply p = None \<longleftrightarrow> pr_Accept p \<noteq> None) \<and> (pr_Accept p \<noteq> None \<longleftrightarrow> pd_Kind (pr_Desc p) = ''collection'')"
  by (auto simp: checkPropertyShape_def Let_def split: if_splits)

subsection \<open>The described vocabulary is the accepted one\<close>

lemma described_types:
  assumes "registrySound r"
  shows "t \<in> set (v_Types (DescribeVocabulary r)) \<longleftrightarrow> (\<exists>n ts. Mapping.lookup (regTypes r) n = Some ts \<and> t = typeInfo n ts)"
proof -
  have "finite (Mapping.keys (regTypes r))" using assms by (simp add: registrySound_def)
  then show ?thesis by (force simp: DescribeVocabulary_def keys_lookup)
qed

lemma typeInfo_simps [simp]:
  "ti_Name (typeInfo n ts) = n" "ti_Props (typeInfo n ts) = sortedPropInfos (ts_Props ts)"
  "ti_Asks (typeInfo n ts) = sortedCallInfos (ts_Asks ts)" "ti_Does (typeInfo n ts) = sortedCallInfos (ts_Does ts)"
  "ti_Events (typeInfo n ts) = sortedEventInfos (ts_Events ts)"
  by (simp_all add: typeInfo_def)

lemma event_names: "finite (Mapping.keys m) \<Longrightarrow> ei_Name ` set (sortedEventInfos m) = Mapping.keys m"
  by (auto simp: sortedEventInfos_def Let_def image_iff)

lemma call_names: "finite (Mapping.keys m) \<Longrightarrow> ci_Name ` set (sortedCallInfos m) = Mapping.keys m"
  by (auto simp: sortedCallInfos_def Let_def image_iff)

lemma checkEventName_ok: "checkEventName r verb n e = None \<longleftrightarrow> (if n = [] then AnyTypeEmits r e else TypeEmits r n e)"
  by (auto simp: checkEventName_def split: option.splits list.splits)

lemma checkCallName_ok: "checkCallName r verb n q = None \<longleftrightarrow> (if n = [] then anyTypeDeclares r verb q else typeDeclares r n verb q)"
  by (auto simp: checkCallName_def Let_def split: prod.splits)

lemma event_accepted:
  assumes "registrySound r" "t \<in> set (v_Types (DescribeVocabulary r))"
  shows "checkEventName r verb (ti_Name t) e = None \<longleftrightarrow> e = UniversalEvent \<or> e \<in> ei_Name ` set (ti_Events t)"
proof -
  obtain n ts where ts: "Mapping.lookup (regTypes r) n = Some ts" "t = typeInfo n ts"
    using assms(2) described_types[OF assms(1)] by blast
  then have "specSound n ts" using assms(1) by (simp add: registrySound_def)
  then show ?thesis using ts
    by (auto simp: checkEventName_ok TypeEmits_def event_names keys_lookup specSound_def isLowerInitial_def specTables_def)
qed

lemma call_accepted:
  assumes "registrySound r" "t \<in> set (v_Types (DescribeVocabulary r))"
  shows "checkAskName r (ti_Name t) q = None \<longleftrightarrow> q \<in> ci_Name ` set (ti_Asks t)"
    and "checkDoName r (ti_Name t) q = None \<longleftrightarrow> q \<in> ci_Name ` set (ti_Does t)"
proof -
  obtain n ts where ts: "Mapping.lookup (regTypes r) n = Some ts" "t = typeInfo n ts"
    using assms(2) described_types[OF assms(1)] by blast
  then have "specSound n ts" using assms(1) by (simp add: registrySound_def)
  then show "checkAskName r (ti_Name t) q = None \<longleftrightarrow> q \<in> ci_Name ` set (ti_Asks t)"
    "checkDoName r (ti_Name t) q = None \<longleftrightarrow> q \<in> ci_Name ` set (ti_Does t)" using ts
    by (auto simp: checkAskName_def checkDoName_def checkCallName_ok typeDeclares_def callsOf_def call_names keys_lookup
        specSound_def isLowerInitial_def specTables_def)
qed

lemma any_event_accepted:
  assumes "registrySound r"
  shows "checkEventName r verb [] e = None \<longleftrightarrow>
    e = UniversalEvent \<or> (\<exists>t \<in> set (v_Types (DescribeVocabulary r)). e \<in> ei_Name ` set (ti_Events t))"
proof -
  have fin: "finite (Mapping.keys (ts_Events ts))" "n \<noteq> []" if "Mapping.lookup (regTypes r) n = Some ts" for n ts
    using assms that by (auto simp: registrySound_def specSound_def specTables_def isLowerInitial_def)
  have "(\<exists>t \<in> set (v_Types (DescribeVocabulary r)). e \<in> ei_Name ` set (ti_Events t)) \<longleftrightarrow>
      (\<exists>n ts. Mapping.lookup (regTypes r) n = Some ts \<and> e \<in> ei_Name ` set (ti_Events (typeInfo n ts)))"
    by (simp only: Bex_def described_types[OF assms]) blast
  moreover have "AnyTypeEmits r e \<longleftrightarrow> e = UniversalEvent
      \<or> (\<exists>n ts. Mapping.lookup (regTypes r) n = Some ts \<and> e \<in> Mapping.keys (ts_Events ts))"
  proof -
    have "set (Mapping.ordered_keys (regTypes r)) = Mapping.keys (regTypes r)" using assms by (simp add: registrySound_def)
    moreover have "TypeEmits r n e \<longleftrightarrow> e = UniversalEvent
        \<or> (\<exists>ts. Mapping.lookup (regTypes r) n = Some ts \<and> e \<in> Mapping.keys (ts_Events ts))" for n
      by (simp add: TypeEmits_def keys_lookup split: option.splits)
    moreover have "n \<in> Mapping.keys (regTypes r)" if "Mapping.lookup (regTypes r) n = Some ts" for n ts
      using that by (simp add: keys_lookup)
    ultimately show ?thesis unfolding AnyTypeEmits_def by metis
  qed
  moreover have "e \<in> ei_Name ` set (ti_Events (typeInfo n ts)) \<longleftrightarrow> e \<in> Mapping.keys (ts_Events ts)"
    if "Mapping.lookup (regTypes r) n = Some ts" for n ts using fin(1)[OF that] by (simp add: event_names)
  ultimately show ?thesis unfolding checkEventName_ok if_P[OF refl] by metis
qed

lemma map_names [simp]:
  "map ei_Name (sortedEventInfos m) = Mapping.ordered_keys m"
  "map ci_Name (sortedCallInfos m') = Mapping.ordered_keys m'"
  by (simp_all add: sortedEventInfos_def sortedCallInfos_def Let_def comp_def)

text \<open>What the texts of a registration must be to go out as written: UTF-8, and no comma in a word of a list.\<close>

definition textSound :: "Vocabulary \<Rightarrow> bool" where
  "textSound v \<longleftrightarrow> list_all propSound (v_Common v)
     \<and> list_all (\<lambda>t. valid_utf8 (ti_Name t) \<and> list_all propSound (ti_Props t) \<and> list_all callSound (ti_Asks t)
         \<and> list_all callSound (ti_Does t) \<and> list_all eventInfoSound (ti_Events t)) (v_Types v)"

lemma described_sound:
  assumes "registrySound r" "textSound (DescribeVocabulary r)" shows "vocabularySound (DescribeVocabulary r)"
proof -
  have "typeSound t" if t: "t \<in> set (v_Types (DescribeVocabulary r))" for t
  proof -
    obtain n ts where ts: "Mapping.lookup (regTypes r) n = Some ts" "t = typeInfo n ts"
      using t described_types[OF assms(1)] by blast
    then have "n \<noteq> []" using assms(1) by (auto simp: registrySound_def specSound_def isLowerInitial_def)
    then show ?thesis using assms(2) t ts(2)
      by (auto simp: textSound_def typeSound_def list_all_iff Mapping.ordered_keys_def)
  qed
  then show ?thesis using assms(2) by (simp add: vocabularySound_def textSound_def list_all_iff)
qed

text \<open>C36. A registry holds no type the wire could trip over: whatever is registered without a panic, each
  type begins lowercase, has a constructor exactly when it is not hosted, has an identity unless it is
  virtual, and each of its properties, like each common one, either applies a value or adopts children and
  never both, the second just where its kind is \<open>collection\<close>.\<close>

theorem registrations_sound:
  assumes "registered r" "Mapping.lookup (regTypes r) n = Some ts"
    "Mapping.lookup (ts_Props ts) k = Some p \<or> Mapping.lookup (regCommon r) k = Some p"
  shows "isLowerInitial n \<and> (ts_New ts = None \<longleftrightarrow> ts_Hosted ts) \<and> (ts_Virtual ts \<or> ts_ID ts \<noteq> None)
    \<and> (pr_Apply p = None \<longleftrightarrow> pr_Accept p \<noteq> None) \<and> (pr_Accept p \<noteq> None \<longleftrightarrow> pd_Kind (pr_Desc p) = ''collection'')"
proof -
  have s: "specSound n ts" using registered_sound[OF assms(1)] assms(2) by (simp add: registrySound_def)
  moreover have "checkPropertyShape p = None"
    using registered_sound[OF assms(1)] assms(3) s by (auto simp: registrySound_def specSound_def)
  ultimately show ?thesis using shape_once by (auto simp: specSound_def)
qed

definition sampleType :: "(nat, nat) TypeSpec" where
  "sampleType = \<lparr>ts_New = Some (\<lambda>c. (c, c + 1)),
     ts_Props = Mapping.update ''children'' (NewCollection (\<lambda>t child c. (None, c))) Mapping.empty, ts_Bind = None,
     ts_Asks = Mapping.empty, ts_Does = Mapping.update ''press'' (CallArg ''times'' ''int'' ''how often'' (NewCallDesc ''Press it.'')) Mapping.empty,
     ts_Events = Mapping.update ''click'' (EventField ''trinket'' ''uint'' ''which'' (NewEventDesc ''It was pressed.'')) Mapping.empty,
     ts_ID = Some of_nat, ts_Destroy = None, ts_Virtual = False, ts_Hosted = False\<rparr>"

definition sampleRegistry :: "(nat, nat) registry" where
  "sampleRegistry = emptyRegistry\<lparr>regTypes := Mapping.update ''button'' sampleType Mapping.empty\<rparr>"

lemma sample_registered: "registered sampleRegistry"
proof -
  have "specTables sampleType" by (simp add: specTables_def sampleType_def)
  moreover have "RegisterType ''button'' (Some sampleType) emptyRegistry = Some sampleRegistry"
    by (simp add: RegisterType_def sampleType_def sampleRegistry_def isLowerInitial_def lowerCase_def emptyRegistry_def
        NewCollection_def checkPropertyShape_def Mapping.lookup_update' Mapping.lookup_empty)
  ultimately show ?thesis using registered.type[OF registered.empty] by blast
qed

theorem registrations_sound_witness:
  "isLowerInitial ''button'' \<and> ts_New sampleType \<noteq> None
    \<and> pd_Kind (pr_Desc (the (Mapping.lookup (ts_Props sampleType) ''children''))) = ''collection''"
proof -
  let ?p = "the (Mapping.lookup (ts_Props sampleType) ''children'')"
  have "Mapping.lookup (regTypes sampleRegistry) ''button'' = Some sampleType" "Mapping.lookup (ts_Props sampleType) ''children'' = Some ?p"
    "pr_Accept ?p \<noteq> None" "\<not> ts_Hosted sampleType"
    by (simp_all add: sampleRegistry_def sampleType_def NewCollection_def Mapping.lookup_update')
  then show ?thesis using registrations_sound[OF sample_registered, of "''button''" sampleType "''children''" ?p] by simp
qed



end
