(* ===== verification/Sessions.thy ===== *)
theory Sessions
  imports Registry "HOL-Library.Finite_Map"
begin

text \<open>
  Sessions (\<open>protocol/session.go\<close>): what a connection's statements do. A session holds the client's
  aliases and templates, the names it has given objects and the objects it may address; \<open>Execute\<close> runs a
  batch against a factory, whose operations act on the whole state of the connection. Templates nest, and
  an instance of one whose own block makes another never ends, so \<open>instantiate\<close> runs on fuel and \<open>None\<close>
  stands for not returning.
\<close>

subsection \<open>Runs\<close>

text \<open>A run acts on the state and returns a result or an error, if it returns. \<open>c'\<close> holds what was done
  before the error.\<close>

type_synonym ('r, 'c) run = "'c \<Rightarrow> ((goError + 'r) \<times> 'c) option"

definition returns :: "'r \<Rightarrow> ('r, 'c) run" where "returns x c = Some (Inr x, c)"
definition refuses :: "goError \<Rightarrow> ('r, 'c) run" where "refuses e c = Some (Inl e, c)"

definition andThen :: "('a, 'c) run \<Rightarrow> ('a \<Rightarrow> ('b, 'c) run) \<Rightarrow> ('b, 'c) run" where
  "andThen m f c =
     (case m c of
        None \<Rightarrow> None
      | Some (Inl e, c') \<Rightarrow> Some (Inl e, c')
      | Some (Inr x, c') \<Rightarrow> f x c')"

text \<open>A call that returns an error or nil.\<close>

definition calling :: "('c \<Rightarrow> goError option \<times> 'c) \<Rightarrow> (unit, 'c) run" where
  "calling m c = (case m c of (None, c') \<Rightarrow> Some (Inr (), c') | (Some e, c') \<Rightarrow> Some (Inl e, c'))"

definition silently :: "('c \<Rightarrow> 'c) \<Rightarrow> (unit, 'c) run" where "silently f c = Some (Inr (), f c)"

text \<open>A loop that stops at the first error.\<close>

fun each :: "('a \<Rightarrow> (unit, 'c) run) \<Rightarrow> 'a list \<Rightarrow> (unit, 'c) run" where
  "each f [] = returns ()"
| "each f (x # xs) = andThen (f x) (\<lambda>u. each f xs)"

subsection \<open>The session\<close>

record templateDef =
  td_base :: string
  td_args :: "arg list"

record ('h, 'a, 'k, 'o) session = "('h, 'a, 'k) questions" +
  aliases :: "string \<Rightarrow> string option"
  templates :: "(string, templateDef) fmap"
  skeys :: "string \<Rightarrow> u64 option"
  objects :: "u64 \<Rightarrow> 'o option"
  objectTypes :: "u64 \<Rightarrow> string option"

text \<open>\<open>EventControl\<close>. \<open>Suppressed\<close> is what it does before and after the function it is given, the second
  deferred.\<close>

record 'c EventControl =
  ec_Subscribe :: "u64 \<Rightarrow> string \<Rightarrow> 'c \<Rightarrow> 'c"
  ec_Unsubscribe :: "u64 \<Rightarrow> string \<Rightarrow> 'c \<Rightarrow> 'c"
  ec_enter :: "'c \<Rightarrow> 'c"
  ec_leave :: "'c \<Rightarrow> 'c"

text \<open>A \<open>Factory\<close> with the methods of the \<open>Object\<close>s it makes; a capability that may be missing is an option.\<close>

record ('o, 'c) Factory =
  f_New :: "string \<Rightarrow> 'c \<Rightarrow> (goError + 'o) \<times> 'c"
  f_ID :: "'o \<Rightarrow> u64"
  f_Set :: "'o \<Rightarrow> string \<Rightarrow> wvalue option \<Rightarrow> flagState \<Rightarrow> 'c \<Rightarrow> goError option \<times> 'c"
  f_Append :: "'o \<Rightarrow> string \<Rightarrow> 'o \<Rightarrow> 'c \<Rightarrow> goError option \<times> 'c"
  f_Destroy :: "'o \<Rightarrow> ('c \<Rightarrow> goError option \<times> 'c) option"
  f_Ask :: "'o \<Rightarrow> (string \<Rightarrow> arg list \<Rightarrow> Answers option \<Rightarrow> 'c \<Rightarrow> goError option \<times> 'c) option"
  f_Do :: "'o \<Rightarrow> (string \<Rightarrow> arg list \<Rightarrow> 'c \<Rightarrow> goError option \<times> 'c) option"
  f_Control :: "'c EventControl option"
  f_Answers :: "(string \<Rightarrow> Answers option) option"

definition putKey :: "string \<Rightarrow> u64 \<Rightarrow> ('h, 'a, 'k, 'o, 'm) session_scheme \<Rightarrow> ('h, 'a, 'k, 'o, 'm) session_scheme" where
  "putKey k i c = c\<lparr>skeys := (skeys c)(k \<mapsto> i)\<rparr>"

definition Register :: "('o, ('h, 'a, 'k, 'o, 'm) session_scheme) Factory \<Rightarrow> 'o \<Rightarrow> ('h, 'a, 'k, 'o, 'm) session_scheme
    \<Rightarrow> ('h, 'a, 'k, 'o, 'm) session_scheme" where
  "Register fac obj c = c\<lparr>objects := (objects c)(f_ID fac obj \<mapsto> obj)\<rparr>"

definition RegisterAs where
  "RegisterAs fac name obj c = putKey name (f_ID fac obj) (Register fac obj c)"

definition sforget :: "u64 \<Rightarrow> ('h, 'a, 'k, 'o, 'm) session_scheme \<Rightarrow> ('h, 'a, 'k, 'o, 'm) session_scheme" where
  "sforget i c = c\<lparr>objects := (objects c)(i := None), objectTypes := (objectTypes c)(i := None),
     skeys := (\<lambda>k. if skeys c k = Some i then None else skeys c k)\<rparr>"

definition Object :: "u64 \<Rightarrow> ('h, 'a, 'k, 'o, 'm) session_scheme \<Rightarrow> 'o option" where
  "Object i c = objects c i"

definition HasTemplate :: "string \<Rightarrow> ('h, 'a, 'k, 'o, 'm) session_scheme \<Rightarrow> bool" where
  "HasTemplate name c \<longleftrightarrow> fmlookup (templates c) name \<noteq> None"

subsection \<open>Declarations\<close>

definition declareAlias :: "arg \<Rightarrow> (unit, ('h, 'a, 'k, 'o, 'm) session_scheme) run" where
  "declareAlias a =
     (case a_value a of
        None \<Rightarrow> refuses (Errorf ''alias %s: expected %s=\"target\"'' [a_name a, a_name a])
      | Some (StringValue s b) \<Rightarrow>
          (if \<not> isUpperInitial (a_name a)
           then refuses (Errorf ''alias %s: user-defined aliases must begin with an uppercase letter (D18)'' [a_name a])
           else silently (\<lambda>c. c\<lparr>aliases := (aliases c)(a_name a \<mapsto> s)\<rparr>))
      | Some v \<Rightarrow> refuses (Errorf ''alias %s: target must be a string (aliases are lexical macros)'' [a_name a]))"

definition declareAliases :: "arg list \<Rightarrow> (unit, ('h, 'a, 'k, 'o, 'm) session_scheme) run" where
  "declareAliases args =
     (if args = [] then refuses (Errorf ''alias: nothing to declare'' []) else each declareAlias args)"

definition declareTemplate :: "arg list \<Rightarrow> (unit, ('h, 'a, 'k, 'o, 'm) session_scheme) run" where
  "declareTemplate args c =
     (case args of
        Arg name flag (Some (WordValue base)) # props \<Rightarrow>
          (if \<not> isUpperInitial name
           then refuses (Errorf ''template %s: user-defined templates must begin with an uppercase letter (D18)'' [name]) c
           else if isUpperInitial base \<and> fmlookup (templates c) base = None
           then refuses (Errorf ''template %s: unknown base template %q'' [name, base]) c
           else if \<not> isUpperInitial base \<and> \<not> isLowerInitial base
           then refuses (Errorf ''template %s: invalid base type %q'' [name, base]) c
           else silently (\<lambda>c. c\<lparr>templates := fmupd name \<lparr>td_base = base, td_args = props\<rparr> (templates c)\<rparr>) c)
      | _ \<Rightarrow> refuses (Errorf ''template: expected Name=type'' []) c)"

text \<open>\<open>resolveType\<close>: the chain of templates from a name down to the type it is built on; \<open>visited\<close> guards
  against a cycle.\<close>

function templateChain :: "(string, templateDef) fmap \<Rightarrow> string \<Rightarrow> string list \<Rightarrow> string \<Rightarrow> goError + string \<times> templateDef list" where
  "templateChain T typeName visited name =
     (if \<not> isUpperInitial name then Inr (name, [])
      else if name \<in> set visited then Inl (Errorf ''template %s: cyclic template chain'' [typeName])
      else case fmlookup T name of
        None \<Rightarrow> Inl (Errorf ''unknown template %q'' [name])
      | Some d \<Rightarrow> ebind (templateChain T typeName (name # visited) (td_base d)) (\<lambda>(base, ds). Inr (base, d # ds)))"
  by pat_completeness auto
termination
proof (relation "measure (\<lambda>(T, typeName, visited, name). card (fset (fmdom T) - set visited))", goal_cases)
  case (2 T typeName visited name d)
  then have "name \<in> fset (fmdom T) - set visited" by (simp add: fmdomI)
  then have "fset (fmdom T) - set (name # visited) \<subset> fset (fmdom T) - set visited" by auto
  then show ?case by (simp add: psubset_card_mono)
qed simp

declare templateChain.simps [simp del]

definition resolveType :: "(string, templateDef) fmap \<Rightarrow> string \<Rightarrow> goError + string \<times> arg list" where
  "resolveType T typeName =
     ebind (templateChain T typeName [] typeName)
       (\<lambda>(name, chain).
          if \<not> isLowerInitial name then Inl (Errorf ''invalid type %q'' [name])
          else Inr (name, concat (map td_args (rev chain))))"

subsection \<open>Making objects\<close>

text \<open>\<open>buildChildren\<close>, one statement of its block; \<open>build\<close> is \<open>instantiate\<close> on the fuel there is.\<close>

definition buildChild where
  "buildChild build fac parent slot path stmt =
     (if st_verb stmt \<noteq> ''new'' then
        (if st_verb stmt = [] then refuses (Errorf ''%s: surfacing references are top-level statements'' [slot])
         else refuses (Errorf ''%s: only new statements allowed, found %q'' [slot, st_verb stmt]))
      else
        (let childPath = (if st_key stmt \<noteq> [] \<and> path \<noteq> [] then path @ ''.'' @ st_key stmt else []) in
         andThen (build (st_args stmt) childPath)
           (\<lambda>child. andThen (silently (if childPath \<noteq> [] then putKey childPath (f_ID fac child) else id))
             (\<lambda>u. calling (f_Append fac parent slot child)))))"

definition buildChildren where
  "buildChildren build fac parent slot block path = each (buildChild build fac parent slot path) (statements block)"

text \<open>\<open>applyArgs\<close>, one argument. Aliases are substituted in the property's name alone.\<close>

definition unalias :: "(string \<Rightarrow> string option) \<Rightarrow> string \<Rightarrow> goError + string" where
  "unalias al name =
     (if isUpperInitial name then
        (case al name of
           None \<Rightarrow> Inl (Errorf ''unknown alias %q (property names are lowercase; aliases must be declared)'' [name])
         | Some target \<Rightarrow> Inr target)
      else Inr name)"

definition applyArg where
  "applyArg build fac obj path a c =
     (if a_name a = [] then refuses (Errorf ''unnamed value: properties must be named (name=value)'' []) c
      else case unalias (aliases c) (a_name a) of
        Inl e \<Rightarrow> refuses e c
      | Inr name \<Rightarrow>
          (case a_value a of
             Some (BlockValue b) \<Rightarrow> buildChildren build fac obj name b path c
           | None \<Rightarrow> calling (f_Set fac obj name None (a_flag a)) c
           | Some v \<Rightarrow> calling (f_Set fac obj name (Some v) FlagNone) c))"

definition applyArgs where
  "applyArgs build fac obj args path = each (applyArg build fac obj path) args"

definition putObject :: "u64 \<Rightarrow> 'o \<Rightarrow> string \<Rightarrow> ('h, 'a, 'k, 'o, 'm) session_scheme \<Rightarrow> ('h, 'a, 'k, 'o, 'm) session_scheme" where
  "putObject i obj builtin c = c\<lparr>objects := (objects c)(i \<mapsto> obj), objectTypes := (objectTypes c)(i \<mapsto> builtin)\<rparr>"

text \<open>The type's name at the head of a \<open>new\<close>'s arguments, and the rest of them.\<close>

definition newType :: "arg list \<Rightarrow> (string \<times> arg list) option" where
  "newType args =
     (case args of
        [] \<Rightarrow> None
      | a # props \<Rightarrow> (if a_value a = None \<and> a_flag a = FlagTrue then Some (a_name a, props) else None))"

text \<open>Template properties go on first and the instance's own after.\<close>

definition furnish where
  "furnish build fac obj templateArgs props path =
     andThen (applyArgs build fac obj templateArgs path)
       (\<lambda>u. andThen (applyArgs build fac obj props path) (\<lambda>u. returns obj))"

fun instantiate :: "nat \<Rightarrow> ('o, ('h, 'a, 'k, 'o, 'm) session_scheme) Factory \<Rightarrow> arg list \<Rightarrow> string
    \<Rightarrow> ('o, ('h, 'a, 'k, 'o, 'm) session_scheme) run" where
  "instantiate 0 fac args path c = None"
| "instantiate (Suc n) fac args path c =
     (case newType args of
        None \<Rightarrow> refuses (Errorf ''new: expected a type name'' []) c
      | Some (typeName, props) \<Rightarrow>
          (case resolveType (templates c) typeName of
             Inl e \<Rightarrow> refuses e c
           | Inr (builtin, templateArgs) \<Rightarrow>
               (case f_New fac builtin c of
                  (Inl e, c1) \<Rightarrow> refuses e c1
                | (Inr obj, c1) \<Rightarrow>
                    furnish (instantiate n fac) fac obj templateArgs props path (putObject (f_ID fac obj) obj builtin c1))))"

subsection \<open>Targets\<close>

definition resolveTarget :: "string \<Rightarrow> arg list \<Rightarrow> ('h, 'a, 'k, 'o, 'm) session_scheme \<Rightarrow> goError + 'o \<times> string \<times> arg list" where
  "resolveTarget verb args c =
     (case args of
        [] \<Rightarrow> Inl (Errorf ''%s: expected a target (key path or object id)'' [verb])
      | head # remaining \<Rightarrow>
          ebind
            (case (a_name head = [], a_value head) of
               (True, Some (IntValue i)) \<Rightarrow> Inr (i, [])
             | (False, None) \<Rightarrow>
                 (if a_flag head \<noteq> FlagTrue then Inl (Errorf ''%s: target must be a key path or object id'' [verb])
                  else case skeys c (a_name head) of
                    None \<Rightarrow> Inl (Errorf ''%s: unknown key path %q'' [verb, a_name head])
                  | Some i \<Rightarrow> Inr (i, a_name head))
             | _ \<Rightarrow> Inl (Errorf ''%s: target must be a key path or object id'' [verb]))
            (\<lambda>(i, keyPath).
               case objects c i of
                 None \<Rightarrow> Inl (Errorf ''%s: no object with id %d in this session'' [verb, formatUint i])
               | Some obj \<Rightarrow> Inr (obj, keyPath, remaining)))"

definition onTarget :: "string \<Rightarrow> arg list \<Rightarrow> ('o \<Rightarrow> string \<Rightarrow> arg list \<Rightarrow> ('r, ('h, 'a, 'k, 'o, 'm) session_scheme) run)
    \<Rightarrow> ('r, ('h, 'a, 'k, 'o, 'm) session_scheme) run" where
  "onTarget verb args f c = (case resolveTarget verb args c of Inl e \<Rightarrow> refuses e c | Inr (obj, path, remaining) \<Rightarrow> f obj path remaining c)"

definition surfaced :: "statement \<Rightarrow> ('h, 'a, 'k, 'o, 'm) session_scheme \<Rightarrow> goError + u64" where
  "surfaced stmt c =
     (if st_ref stmt \<noteq> [] then
        (case skeys c (st_ref stmt) of
           None \<Rightarrow> Inl (Errorf ''surfacing %s=%s: unknown key path %q'' [st_key stmt, st_ref stmt, st_ref stmt])
         | Some i \<Rightarrow> Inr i)
      else if objects c (st_refid stmt) = None
      then Inl (Errorf ''surfacing %s=%d: no object with id %d in this session'' [st_key stmt, formatUint (st_refid stmt), formatUint (st_refid stmt)])
      else Inr (st_refid stmt))"

definition typeOf :: "u64 \<Rightarrow> ('h, 'a, 'k, 'o, 'm) session_scheme \<Rightarrow> string" where
  "typeOf i c = (case objectTypes c i of None \<Rightarrow> [] | Some t \<Rightarrow> t)"

definition describeTarget :: "u64 \<Rightarrow> ('h, 'a, 'k, 'o, 'm) session_scheme \<Rightarrow> string" where
  "describeTarget i c = (if typeOf i c \<noteq> [] then ''a '' @ typeOf i c else ''object '' @ formatUint i)"

subsection \<open>Verbs\<close>

definition suppressed :: "('o, 'c) Factory \<Rightarrow> ('r, 'c) run \<Rightarrow> ('r, 'c) run" where
  "suppressed fac fn c =
     (case f_Control fac of
        None \<Rightarrow> fn c
      | Some ec \<Rightarrow> (case fn (ec_enter ec c) of None \<Rightarrow> None | Some (r, c') \<Rightarrow> Some (r, ec_leave ec c')))"

definition called :: "arg list \<Rightarrow> bool" where
  "called remaining = (case remaining of [] \<Rightarrow> False | a # as \<Rightarrow> a_value a = None \<and> a_flag a = FlagTrue)"

definition askObject where
  "askObject reg fac key args =
     onTarget ''ask'' args (\<lambda>obj path remaining.
       if \<not> called remaining then refuses (Errorf ''ask: expected a question after the target'' [])
       else (\<lambda>c. case f_Ask fac obj of
           None \<Rightarrow> refuses (Errorf ''ask: %s answers no questions'' [describeTarget (f_ID fac obj) c]) c
         | Some ask \<Rightarrow>
             (case checkAskName reg (typeOf (f_ID fac obj) c) (a_name (hd remaining)) of
                Some e \<Rightarrow> refuses e c
              | None \<Rightarrow>
                  calling (ask (a_name (hd remaining)) (tl remaining)
                    (case f_Answers fac of None \<Rightarrow> None | Some answers \<Rightarrow> answers key)) c)))"

definition doObject where
  "doObject reg fac args =
     onTarget ''do'' args (\<lambda>obj path remaining.
       if \<not> called remaining then refuses (Errorf ''do: expected an action after the target'' [])
       else (\<lambda>c. case f_Do fac obj of
           None \<Rightarrow> refuses (Errorf ''do: %s does nothing'' [describeTarget (f_ID fac obj) c]) c
         | Some act \<Rightarrow>
             (case checkDoName reg (typeOf (f_ID fac obj) c) (a_name (hd remaining)) of
                Some e \<Rightarrow> refuses e c
              | None \<Rightarrow> calling (act (a_name (hd remaining)) (tl remaining)) c)))"

definition destroyObject where
  "destroyObject fac args =
     onTarget ''destroy'' args (\<lambda>obj path remaining.
       if remaining \<noteq> [] then refuses (Errorf ''destroy: takes only a target'' [])
       else case f_Destroy fac obj of
         None \<Rightarrow> refuses (Errorf ''destroy: object does not support destroy'' [])
       | Some destroy \<Rightarrow> andThen (calling destroy) (\<lambda>u. silently (sforget (f_ID fac obj))))"

definition subscribeEvent where
  "subscribeEvent reg ec verb typeName i ev =
     (if a_value ev \<noteq> None \<or> a_flag ev \<noteq> FlagTrue \<or> a_name ev = [] then refuses (Errorf ''%s: event names are bare words'' [verb])
      else case checkEventName reg verb typeName (a_name ev) of
        Some e \<Rightarrow> refuses e
      | None \<Rightarrow> silently (if verb = ''sub'' then ec_Subscribe ec i (a_name ev) else ec_Unsubscribe ec i (a_name ev)))"

definition subscribe where
  "subscribe reg fac verb args c =
     (case f_Control fac of
        None \<Rightarrow> refuses (Errorf ''%s: this connection does not support event subscriptions'' [verb]) c
      | Some ec \<Rightarrow>
          (case args of
             [] \<Rightarrow> refuses (Errorf ''%s: expected a target (key path, object id, or all)'' [verb]) c
           | head # events \<Rightarrow>
               (case (if a_name head = ''all'' \<and> a_value head = None \<and> a_flag head = FlagTrue then Inr 0
                      else ebind (resolveTarget verb [head] c) (\<lambda>(obj, path, remaining). Inr (f_ID fac obj))) of
                  Inl e \<Rightarrow> refuses e c
                | Inr i \<Rightarrow>
                    (if events = [] then
                       silently (if verb = ''sub'' then ec_Subscribe ec i [] else ec_Unsubscribe ec i []) c
                     else each (subscribeEvent reg ec verb (typeOf i c) i) events c))))"

subsection \<open>Batches\<close>

text \<open>\<open>executeTopLevel\<close>, on the reply under construction.\<close>

definition executeTopLevel where
  "executeTopLevel reg fuel fac stmt reply c =
     (let key = st_key stmt; args = st_args stmt;
          unchanged = (\<lambda>u. returns reply);
          reported = (\<lambda>i. returns (reply\<lparr>IDs := Mapping.update key i (IDs reply)\<rparr>)) in
      if st_verb stmt = [] then
        (case surfaced stmt c of
           Inl e \<Rightarrow> refuses e c
         | Inr i \<Rightarrow> andThen (silently (putKey key i)) (\<lambda>u. reported i) c)
      else if st_verb stmt = ''alias'' then
        (if key \<noteq> [] then refuses (Errorf ''alias: correlation keys do not apply'' []) c
         else andThen (declareAliases args) unchanged c)
      else if st_verb stmt = ''template'' then
        (if key \<noteq> [] then refuses (Errorf ''template: correlation keys do not apply'' []) c
         else andThen (declareTemplate args) unchanged c)
      else if st_verb stmt = ''new'' then
        andThen (suppressed fac (instantiate fuel fac args key))
          (\<lambda>obj. if key \<noteq> [] then andThen (silently (putKey key (f_ID fac obj))) (\<lambda>u. reported (f_ID fac obj)) else returns reply) c
      else if st_verb stmt = ''set'' then
        onTarget ''set'' args (\<lambda>obj path remaining.
          andThen (suppressed fac (applyArgs (instantiate fuel fac) fac obj remaining path)) unchanged) c
      else if st_verb stmt = ''destroy'' then andThen (destroyObject fac args) unchanged c
      else if st_verb stmt = ''ask'' then andThen (askObject reg fac key args) unchanged c
      else if st_verb stmt = ''do'' then andThen (suppressed fac (doObject reg fac args)) unchanged c
      else if st_verb stmt = ''sub'' \<or> st_verb stmt = ''unsub'' then andThen (subscribe reg fac (st_verb stmt) args) unchanged c
      else if st_verb stmt = ''describe'' then
        (if args \<noteq> [] then refuses (Errorf ''describe: takes no arguments'' []) c
         else returns (reply\<lparr>Extra := Extra reply @ vocabularyLines (DescribeVocabulary reg)\<rparr>) c)
      else refuses (Errorf ''unknown verb %q'' [st_verb stmt]) c)"

fun executeAll where
  "executeAll reg fuel fac [] reply = returns reply"
| "executeAll reg fuel fac (stmt # stmts) reply =
     andThen (executeTopLevel reg fuel fac stmt reply) (executeAll reg fuel fac stmts)"

definition emptyReply :: Reply where
  "emptyReply = \<lparr>IDs = Mapping.empty, Extra = [], Troubles = []\<rparr>"

definition Execute where
  "Execute reg fuel fac script = executeAll reg fuel fac (statements script) emptyReply"

end
