(* ===== verification/SessionFacts.thy ===== *)
theory SessionFacts
  imports Sessions
begin

text \<open>
  What the session guarantees (\<open>protocol/session.go\<close>), for any factory whose objects keep to the contract
  a session relies on: names always address objects, aliases and templates are what their declarations
  say, a client reaches only its own objects, and which templates an instance can be made of.
\<close>

subsection \<open>Runs\<close>

named_theorems run_simps \<open>how runs unfold\<close>

lemma run_steps [run_simps]:
  "returns x c = Some (Inr x, c)" "refuses e c = Some (Inl e, c)" "silently f c = Some (Inr (), f c)"
  by (simp_all add: returns_def refuses_def silently_def)

lemma andThen_Some:
  "andThen m f c = Some (r, c') \<longleftrightarrow>
     (\<exists>e. m c = Some (Inl e, c') \<and> r = Inl e) \<or> (\<exists>x c1. m c = Some (Inr x, c1) \<and> f x c1 = Some (r, c'))"
  by (auto simp: andThen_def split: option.splits sum.splits)

lemma andThenE:
  assumes "andThen m f c = Some (r, c')"
  obtains (stops) e where "m c = Some (Inl e, c')" "r = Inl e" | (goes) x c1 where "m c = Some (Inr x, c1)" "f x c1 = Some (r, c')"
  using assms unfolding andThen_Some by blast

lemma andThen_None: "andThen m f c = None \<longleftrightarrow> m c = None \<or> (\<exists>x c1. m c = Some (Inr x, c1) \<and> f x c1 = None)"
  by (auto simp: andThen_def split: option.splits sum.splits)

lemma andThen_assoc: "andThen (andThen m f) g = andThen m (\<lambda>x. andThen (f x) g)"
  by (rule ext) (simp add: andThen_def split: option.splits prod.splits sum.splits)

lemma andThen_returns [simp]: "andThen (returns x) f = f x"
  by (rule ext) (simp add: andThen_def returns_def)

lemma each_append: "each f (xs @ ys) = andThen (each f xs) (\<lambda>u. each f ys)"
  by (induction xs) (simp_all add: andThen_assoc)

text \<open>What every run of a program does to the state, for a relation that is a preorder.\<close>

definition every :: "('c \<Rightarrow> 'c \<Rightarrow> bool) \<Rightarrow> ('r, 'c) run \<Rightarrow> bool" where
  "every R m \<longleftrightarrow> (\<forall>c r c'. m c = Some (r, c') \<longrightarrow> R c c')"

lemma every_basic:
  "reflp R \<Longrightarrow> every R (returns x)" "reflp R \<Longrightarrow> every R (refuses e)" "(\<And>c. R c (f c)) \<Longrightarrow> every R (silently f)"
  "(\<And>c r c'. m c = (r, c') \<Longrightarrow> R c c') \<Longrightarrow> every R (calling m)"
  by (auto simp: every_def run_simps calling_def reflp_def split: prod.splits option.splits)

lemma every_andThen: "transp R \<Longrightarrow> every R m \<Longrightarrow> (\<And>x. every R (f x)) \<Longrightarrow> every R (andThen m f)"
  unfolding every_def andThen_Some transp_def by blast

lemma every_each: "reflp R \<Longrightarrow> transp R \<Longrightarrow> (\<And>x. x \<in> set xs \<Longrightarrow> every R (f x)) \<Longrightarrow> every R (each f xs)"
  by (induction xs) (auto intro: every_basic every_andThen)

lemma every_mono: "every R m \<Longrightarrow> (\<And>c c'. R c c' \<Longrightarrow> R' c c') \<Longrightarrow> every R' m"
  by (auto simp: every_def)

subsection \<open>The contract of a factory\<close>

text \<open>Every name addresses an object, and every object is listed under its own id.\<close>

definition wired :: "('o, ('h, 'a, 'k, 'o, 'm) session_scheme) Factory \<Rightarrow> ('h, 'a, 'k, 'o, 'm) session_scheme \<Rightarrow> bool" where
  "wired fac c \<longleftrightarrow> (\<forall>k i. skeys c k = Some i \<longrightarrow> objects c i \<noteq> None) \<and> (\<forall>i obj. objects c i = Some obj \<longrightarrow> f_ID fac obj = i)"

text \<open>What an operation may do to the session it is called from: \<open>tame\<close> keeps the dictionaries and the
  wiring, \<open>grew\<close> takes no object away besides.\<close>

definition tame :: "('o, ('h, 'a, 'k, 'o, 'm) session_scheme) Factory \<Rightarrow> ('h, 'a, 'k, 'o, 'm) session_scheme
    \<Rightarrow> ('h, 'a, 'k, 'o, 'm) session_scheme \<Rightarrow> bool" where
  "tame fac c c' \<longleftrightarrow> aliases c' = aliases c \<and> templates c' = templates c \<and> (wired fac c \<longrightarrow> wired fac c')"

definition grew :: "('o, ('h, 'a, 'k, 'o, 'm) session_scheme) Factory \<Rightarrow> ('h, 'a, 'k, 'o, 'm) session_scheme
    \<Rightarrow> ('h, 'a, 'k, 'o, 'm) session_scheme \<Rightarrow> bool" where
  "grew fac c c' \<longleftrightarrow> tame fac c c' \<and> dom (objects c) \<subseteq> dom (objects c')"

lemma tame_refl [simp]: "tame fac c c" by (simp add: tame_def)
lemma grew_refl [simp]: "grew fac c c" by (simp add: grew_def)
lemma tame_preorder: "reflp (tame fac)" "transp (tame fac)" by (auto simp: reflp_def transp_def tame_def)
lemma grew_preorder: "reflp (grew fac)" "transp (grew fac)" by (auto simp: reflp_def transp_def grew_def tame_def)
lemma grew_trans: "grew fac a b \<Longrightarrow> grew fac b c \<Longrightarrow> grew fac a c" using grew_preorder(2) by (blast dest: transpD)

lemma grew_dom: "grew fac c c' \<Longrightarrow> i \<in> dom (objects c) \<Longrightarrow> i \<in> dom (objects c')"
  unfolding grew_def by (meson subsetD)

lemma grew_putObject: "grew fac c (putObject (f_ID fac obj) obj t c)"
  by (auto simp: grew_def tame_def wired_def putObject_def)

lemma grew_putKey: "i \<in> dom (objects c) \<Longrightarrow> grew fac c (putKey k i c)"
  by (auto simp: grew_def tame_def wired_def putKey_def)

lemma tame_sforget: "tame fac c (sforget i c)"
  by (auto simp: tame_def wired_def sforget_def split: if_splits)

locale well_mannered =
  fixes fac :: "('o, ('h, 'a, 'k, 'o, 'm) session_scheme) Factory"
  assumes new_grows: "f_New fac t c = (r, c') \<Longrightarrow> grew fac c c'"
    and set_grows: "f_Set fac obj n v fl c = (e, c') \<Longrightarrow> grew fac c c'"
    and append_grows: "f_Append fac obj n child c = (e, c') \<Longrightarrow> grew fac c c'"
    and ask_tame: "f_Ask fac obj = Some ask \<Longrightarrow> ask q args out c = (e, c') \<Longrightarrow> tame fac c c'"
    and do_tame: "f_Do fac obj = Some act \<Longrightarrow> act q args c = (e, c') \<Longrightarrow> tame fac c c'"
    and destroy_tame: "f_Destroy fac obj = Some destroy \<Longrightarrow> destroy c = (e, c') \<Longrightarrow> tame fac c c'"
    and control_tame: "f_Control fac = Some ec \<Longrightarrow> tame fac c (ec_Subscribe ec i t c) \<and> tame fac c (ec_Unsubscribe ec i t c)"
    and control_grows: "f_Control fac = Some ec \<Longrightarrow> grew fac c (ec_enter ec c) \<and> grew fac c (ec_leave ec c)"
begin

text \<open>Making an object: it is there when it is handed back.\<close>

definition makes :: "('o, ('h, 'a, 'k, 'o, 'm) session_scheme) run \<Rightarrow> bool" where
  "makes m \<longleftrightarrow> (\<forall>c r c'. m c = Some (r, c') \<longrightarrow> grew fac c c' \<and> (\<forall>obj. r = Inr obj \<longrightarrow> f_ID fac obj \<in> dom (objects c')))"

lemma called_grows:
  "every (grew fac) (calling (f_Append fac parent slot child))" "every (grew fac) (calling (f_Set fac obj name v fl))"
  by (auto simp: every_def calling_def split: prod.splits option.splits intro: append_grows set_grows)

lemma buildChild_grows:
  assumes "\<And>args path. makes (build args path)" shows "every (grew fac) (buildChild build fac parent slot path stmt)"
proof -
  let ?childPath = "if st_key stmt \<noteq> [] \<and> path \<noteq> [] then path @ ''.'' @ st_key stmt else []"
  have "every (grew fac) (andThen (build (st_args stmt) ?childPath)
      (\<lambda>child. andThen (silently (if ?childPath \<noteq> [] then putKey ?childPath (f_ID fac child) else id))
         (\<lambda>u. calling (f_Append fac parent slot child))))" (is "every _ (andThen ?m ?f)")
    unfolding every_def
  proof (intro allI impI)
    fix c r c' assume "andThen ?m ?f c = Some (r, c')"
    then show "grew fac c c'"
    proof (cases rule: andThenE)
      case (stops e)
      then show ?thesis using assms unfolding makes_def by blast
    next
      case (goes child c1)
      have one: "grew fac c c1" "f_ID fac child \<in> dom (objects c1)" using assms goes(1) unfolding makes_def by blast+
      let ?c2 = "(if ?childPath \<noteq> [] then putKey ?childPath (f_ID fac child) else id) c1"
      have two: "grew fac c1 ?c2" using one(2) by (simp add: grew_putKey)
      have "calling (f_Append fac parent slot child) ?c2 = Some (r, c')"
        using goes(2) by (simp only: andThen_def run_simps option.case prod.case sum.case)
      then have "grew fac ?c2 c'" using called_grows(1) unfolding every_def by blast
      then show ?thesis using grew_trans one(1) two by blast
    qed
  qed
  then show ?thesis by (auto simp: buildChild_def Let_def intro: every_basic grew_preorder)
qed

lemma applyArg_grows:
  assumes "\<And>args path. makes (build args path)" shows "every (grew fac) (applyArg build fac obj path a)"
proof -
  have "every (grew fac) (buildChildren build fac obj name b path)" for name b
    unfolding buildChildren_def by (intro every_each grew_preorder buildChild_grows assms)
  moreover have "every (grew fac) (refuses e :: (unit, ('h, 'a, 'k, 'o, 'm) session_scheme) run)" for e
    by (rule every_basic(2)[OF grew_preorder(1)])
  ultimately show ?thesis
    using called_grows(2) unfolding every_def applyArg_def by (auto split: if_splits sum.splits option.splits wvalue.splits)
qed

lemma applyArgs_grows:
  assumes "\<And>args path. makes (build args path)" shows "every (grew fac) (applyArgs build fac obj args path)"
  unfolding applyArgs_def by (intro every_each grew_preorder applyArg_grows assms)

lemma furnish_grows:
  assumes "\<And>args path. makes (build args path)" "furnish build fac obj ta props path c = Some (r, c')"
  shows "grew fac c c' \<and> (\<forall>o'. r = Inr o' \<longrightarrow> o' = obj)"
proof -
  have ap: "applyArgs build fac obj as path c = Some (r, c') \<Longrightarrow> grew fac c c'" for as c r c'
    using applyArgs_grows[where build=build, OF assms(1)] unfolding every_def by blast
  show ?thesis
    using assms(2) ap grew_trans unfolding furnish_def andThen_Some run_simps by blast
qed

lemma instantiate_Some:
  assumes "instantiate (Suc n) fac args path c = Some (r, c')"
  obtains (early) e where "r = Inl e" "c' = c"
    | (refused) b e where "r = Inl e" "f_New fac b c = (Inl e, c')"
    | (built) b ta props obj c1 where "f_New fac b c = (Inr obj, c1)"
        "furnish (instantiate n fac) fac obj ta props path (putObject (f_ID fac obj) obj b c1) = Some (r, c')"
proof (cases "newType args")
  case None
  then show thesis using assms by (auto simp: run_simps intro: early)
next
  case (Some tp)
  obtain t props where tp: "tp = (t, props)" by (cases tp)
  show thesis
  proof (cases "resolveType (templates c) t")
    case (Inl e)
    then show thesis using assms Some tp by (auto simp: run_simps intro: early)
  next
    case (Inr bt)
    obtain b ta where bt: "bt = (b, ta)" by (cases bt)
    obtain x c1 where new: "f_New fac b c = (x, c1)" by (cases "f_New fac b c")
    show thesis
    proof (cases x)
      case (Inl e)
      then show thesis using assms Some tp Inr bt new by (auto simp: run_simps intro: refused)
    next
      case (Inr obj)
      then show thesis using assms Some tp \<open>resolveType (templates c) t = Inr bt\<close> bt new built by simp
    qed
  qed
qed

lemma instantiate_makes: "makes (instantiate n fac args path)"
proof (induction n arbitrary: args path)
  case (Suc n)
  show ?case unfolding makes_def
  proof (intro allI impI)
    fix c r c' assume "instantiate (Suc n) fac args path c = Some (r, c')"
    then show "grew fac c c' \<and> (\<forall>obj. r = Inr obj \<longrightarrow> f_ID fac obj \<in> dom (objects c'))"
    proof (cases rule: instantiate_Some)
      case (built b ta props obj c1)
      let ?c2 = "putObject (f_ID fac obj) obj b c1"
      have one: "grew fac c ?c2" by (rule grew_trans[OF new_grows[OF built(1)] grew_putObject])
      have two: "grew fac ?c2 c'" "\<forall>o'. r = Inr o' \<longrightarrow> o' = obj" using furnish_grows[OF Suc built(2)] by simp_all
      have "f_ID fac obj \<in> dom (objects ?c2)" by (simp add: putObject_def)
      then have "f_ID fac obj \<in> dom (objects c')" using two(1) unfolding grew_def by (meson subsetD)
      then show ?thesis using grew_trans[OF one two(1)] two(2) by metis
    qed (auto dest: new_grows)
  qed
qed (simp add: makes_def)

subsubsection \<open>Verbs\<close>

definition keepsWired :: "('h, 'a, 'k, 'o, 'm) session_scheme \<Rightarrow> ('h, 'a, 'k, 'o, 'm) session_scheme \<Rightarrow> bool" where
  "keepsWired c c' \<longleftrightarrow> (wired fac c \<longrightarrow> wired fac c')"

lemma keepsWired_preorder: "reflp keepsWired" "transp keepsWired"
  by (auto simp: keepsWired_def reflp_def transp_def)

lemma tame_keeps: "tame fac c c' \<Longrightarrow> keepsWired c c'"
  by (simp add: tame_def keepsWired_def)

lemma grew_tame: "grew fac c c' \<Longrightarrow> tame fac c c'"
  by (simp add: grew_def)

lemma every_suppressed:
  assumes "every (tame fac) m" shows "every (tame fac) (suppressed fac m)"
proof -
  have "tame fac c c'" if run: "suppressed fac m c = Some (r, c')" for c r c'
  proof (cases "f_Control fac")
    case None
    then show ?thesis using run assms by (auto simp: suppressed_def every_def)
  next
    case (Some ec)
    then obtain c1 where "m (ec_enter ec c) = Some (r, c1)" "c' = ec_leave ec c1"
      using run by (auto simp: suppressed_def split: option.splits)
    moreover have "tame fac c (ec_enter ec c)" "tame fac c1 (ec_leave ec c1)"
      using control_grows[OF Some] grew_tame by blast+
    ultimately show ?thesis using assms tame_preorder(2) unfolding every_def transp_def by metis
  qed
  then show ?thesis by (simp add: every_def)
qed

lemma every_onTarget:
  assumes "reflp R" "\<And>obj path rest. every R (f obj path rest)" shows "every R (onTarget verb args f)"
  using assms by (auto simp: every_def onTarget_def refuses_def reflp_def split: sum.splits)

lemma every_refuses: "every (tame fac) (refuses e)"
  by (rule every_basic(2)[OF tame_preorder(1)])

lemma every_called:
  "f_Ask fac obj = Some ask \<Longrightarrow> every (tame fac) (calling (ask q as out))"
  "f_Do fac obj = Some act \<Longrightarrow> every (tame fac) (calling (act q as))"
  "f_Destroy fac obj = Some destroy \<Longrightarrow> every (tame fac) (calling destroy)"
  by (auto simp: every_def calling_def split: prod.splits option.splits intro: ask_tame do_tame destroy_tame)

lemma every_asked: "every (tame fac) (askObject reg fac key args)"
proof -
  have "every (tame fac) (\<lambda>c. case f_Ask fac obj of
      None \<Rightarrow> refuses (e1 c) c
    | Some ask \<Rightarrow> (case ok c of Some e \<Rightarrow> refuses e c | None \<Rightarrow> calling (ask q as out) c))" for obj e1 ok q as out
    using every_called(1)[of obj] by (auto simp: every_def refuses_def split: option.splits)
  then show ?thesis unfolding askObject_def
    by (intro every_onTarget tame_preorder) (simp add: every_refuses)
qed

lemma every_done: "every (tame fac) (doObject reg fac args)"
proof -
  have "every (tame fac) (\<lambda>c. case f_Do fac obj of
      None \<Rightarrow> refuses (e1 c) c
    | Some act \<Rightarrow> (case ok c of Some e \<Rightarrow> refuses e c | None \<Rightarrow> calling (act q as) c))" for obj e1 ok q as
    using every_called(2)[of obj] by (auto simp: every_def refuses_def split: option.splits)
  then show ?thesis unfolding doObject_def
    by (intro every_onTarget tame_preorder) (simp add: every_refuses)
qed

lemma every_destroyed: "every (tame fac) (destroyObject fac args)"
  unfolding destroyObject_def
  by (intro every_onTarget tame_preorder)
     (auto intro!: every_refuses every_andThen[OF tame_preorder(2)] every_called(3) every_basic(3) tame_sforget split: option.splits)

lemma every_subscribed: "every (tame fac) (subscribe reg fac verb args)"
proof (cases "f_Control fac")
  case (Some ec)
  have "every (tame fac) (subscribeEvent reg ec verb t i ev)" for t i ev
    using control_tame[OF Some] by (auto simp: subscribeEvent_def intro!: every_refuses every_basic(3) split: option.splits)
  then have "every (tame fac) (each (subscribeEvent reg ec verb t i) events)" for t i events
    by (intro every_each tame_preorder)
  then show ?thesis using Some control_tame[OF Some]
    by (auto simp: every_def subscribe_def run_simps split: list.splits sum.splits if_splits)
qed (auto simp: every_def subscribe_def refuses_def)

lemma every_declared: "every keepsWired (declareAliases args)" "every keepsWired (declareTemplate args)"
proof -
  have "every keepsWired (declareAlias a)" for a
    unfolding declareAlias_def
    by (auto intro!: every_basic keepsWired_preorder simp: keepsWired_def wired_def split: option.splits wvalue.splits)
  then show "every keepsWired (declareAliases args)" unfolding declareAliases_def
    by (auto intro!: every_each every_basic keepsWired_preorder)
  show "every keepsWired (declareTemplate args)"
    by (auto simp: every_def declareTemplate_def run_simps keepsWired_def wired_def split: list.splits arg.splits option.splits wvalue.splits if_splits)
qed

lemma every_if: "(P \<Longrightarrow> every R A) \<Longrightarrow> (\<not> P \<Longrightarrow> every R B) \<Longrightarrow> every R (\<lambda>c. if P then A c else B c)"
  by (simp add: every_def)

lemma every_lift: "every (tame fac) m \<Longrightarrow> (\<And>x. every keepsWired (f x)) \<Longrightarrow> every keepsWired (\<lambda>c. andThen m f c)"
  by (rule every_andThen[OF keepsWired_preorder(2)]) (auto elim: every_mono intro: tame_keeps)

lemma every_then: "every (tame fac) m \<Longrightarrow> (\<And>x. every keepsWired (f x)) \<Longrightarrow> every keepsWired (andThen m f)"
  by (rule every_andThen[OF keepsWired_preorder(2)]) (auto elim: every_mono intro: tame_keeps)

lemma surfaced_there: "surfaced stmt c = Inr i \<Longrightarrow> wired fac c \<Longrightarrow> objects c i \<noteq> None"
  by (auto simp: surfaced_def wired_def split: if_splits option.splits)

lemma every_surfaced:
  "every keepsWired (\<lambda>c. case surfaced stmt c of Inl e \<Rightarrow> refuses e c | Inr i \<Rightarrow> andThen (silently (putKey key i)) (\<lambda>u. returns (f i)) c)"
  by (auto simp: every_def andThen_def run_simps keepsWired_def dest!: surfaced_there split: sum.splits)
     (auto simp: wired_def putKey_def)

lemma suppressed_makes:
  assumes "makes m" shows "makes (suppressed fac m)"
proof (cases "f_Control fac")
  case (Some ec)
  show ?thesis unfolding makes_def
  proof (intro allI impI)
    fix c r c' assume "suppressed fac m c = Some (r, c')"
    then obtain c1 where run: "m (ec_enter ec c) = Some (r, c1)" "c' = ec_leave ec c1"
      using Some by (auto simp: suppressed_def split: option.splits)
    have "grew fac c (ec_enter ec c)" "grew fac c1 c'" using control_grows[OF Some] run(2) by blast+
    moreover have "grew fac (ec_enter ec c) c1" "\<forall>obj. r = Inr obj \<longrightarrow> f_ID fac obj \<in> dom (objects c1)"
      using assms run(1) unfolding makes_def by blast+
    ultimately show "grew fac c c' \<and> (\<forall>obj. r = Inr obj \<longrightarrow> f_ID fac obj \<in> dom (objects c'))"
      using grew_trans[of fac c "ec_enter ec c" c1] grew_trans[of fac c c1 c'] grew_dom[of fac c1 c'] by blast
  qed
qed (use assms in \<open>simp add: makes_def suppressed_def\<close>)

lemma every_new:
  assumes "makes m"
  shows "every keepsWired (\<lambda>c. andThen m
    (\<lambda>obj. if key \<noteq> [] then andThen (silently (putKey key (f_ID fac obj))) (\<lambda>u. returns (f obj)) else returns reply) c)"
  unfolding every_def
proof (intro allI impI)
  fix c r c'
  let ?f = "\<lambda>obj. if key \<noteq> [] then andThen (silently (putKey key (f_ID fac obj))) (\<lambda>u. returns (f obj)) else returns reply"
  assume "andThen m ?f c = Some (r, c')"
  then show "keepsWired c c'"
  proof (cases rule: andThenE)
    case (stops e)
    then show ?thesis using assms grew_tame tame_keeps unfolding makes_def by blast
  next
    case (goes obj c1)
    have "grew fac c c1" "f_ID fac obj \<in> dom (objects c1)" using assms goes(1) unfolding makes_def by blast+
    moreover have "c' = (if key \<noteq> [] then putKey key (f_ID fac obj) c1 else c1)"
      using goes(2) by (auto simp: andThen_def run_simps split: if_splits)
    ultimately have "grew fac c c'" using grew_putKey grew_trans by metis
    then show ?thesis by (rule tame_keeps[OF grew_tame])
  qed
qed

lemma ret: "every keepsWired (returns x)" "every keepsWired (refuses e)"
  by (intro every_basic keepsWired_preorder)+

lemma every_executeTopLevel: "every keepsWired (executeTopLevel reg fuel fac stmt reply)"
proof -
  have "every (tame fac) (applyArgs (instantiate fuel fac) fac obj remaining path)" for obj remaining path
    using applyArgs_grows[where build="instantiate fuel fac", OF instantiate_makes] by (rule every_mono) (rule grew_tame)
  then have set: "every keepsWired (onTarget ''set'' args (\<lambda>obj path remaining.
      andThen (suppressed fac (applyArgs (instantiate fuel fac) fac obj remaining path)) (\<lambda>u. returns reply)))" for args
    by (intro every_onTarget keepsWired_preorder every_then every_suppressed ret)
  show ?thesis
    unfolding executeTopLevel_def Let_def
    by (intro every_if ret every_surfaced every_new suppressed_makes instantiate_makes every_lift every_destroyed every_asked
        every_suppressed every_done every_subscribed set every_andThen[OF keepsWired_preorder(2)] every_declared)
qed

lemma every_executeAll: "every keepsWired (executeAll reg fuel fac stmts reply)"
  by (induction stmts arbitrary: reply)
     (auto intro: every_basic every_andThen keepsWired_preorder every_executeTopLevel)

end

subsection \<open>Names\<close>

text \<open>A factory whose objects are their ids, on the services of a connection, for the examples.\<close>

definition benchFactory :: "(u64, (nat, nat, nat, u64) session) Factory" where
  "benchFactory =
     \<lparr>f_New = (\<lambda>t c. (if t = ''panel'' then Inr 7 else if t = ''label'' then Inr 8 else Inl (Errorf ''unknown trinket type %q'' [t]), c)),
      f_ID = (\<lambda>obj. obj), f_Set = (\<lambda>obj name v flag c. (if name = ''text'' then None else Some (Errorf ''property %q is not supported by this type'' [name]), c)),
      f_Append = (\<lambda>obj slot child c. (None, c)), f_Destroy = (\<lambda>obj. Some (\<lambda>c. (None, c))), f_Ask = (\<lambda>obj. None), f_Do = (\<lambda>obj. None),
      f_Control = Some \<lparr>ec_Subscribe = Subscribe (\<lambda>h c. c), ec_Unsubscribe = Unsubscribe,
        ec_enter = (\<lambda>c. c\<lparr>suppress := suppress c + 1\<rparr>), ec_leave = (\<lambda>c. c\<lparr>suppress := suppress c - 1\<rparr>)\<rparr>,
      f_Answers = None\<rparr>"

definition NewSession :: "('h, 'a, 'k, 'o) session" where
  "NewSession =
     \<lparr>actions = Map.empty, subs = Map.empty, onSub = (\<lambda>i t. []), suppress = 0, stash = Map.empty, refs = Map.empty,
      heap = Map.empty, decisions = {}, gone = False, ticking = {}, posted = [],
      aliases = Map.empty, templates = fmempty, skeys = Map.empty, objects = Map.empty, objectTypes = Map.empty\<rparr>"

lemma fold_id [simp]: "fold (\<lambda>h c. c) xs c = c"
  by (induction xs) simp_all

lemma bench_mannered: "well_mannered benchFactory"
  by unfold_locales
     (auto simp: benchFactory_def grew_def tame_def wired_def Subscribe_def addSub_def Unsubscribe_def Let_def split: if_splits option.splits)

text \<open>C1. Every name a client has used addresses an object of its own, whatever its batches do: on a factory
  that keeps to its contract, any batch, whether it succeeds or is refused, leaves a session where each key
  resolves to an object that is registered under that very id, \<open>destroy\<close> having taken its names with it.\<close>

theorem names_address_objects:
  assumes "well_mannered fac" "wired fac c" "Execute reg fuel fac script c = Some (r, c')" "skeys c' k = Some i" "k \<noteq> []"
  shows "\<exists>obj. resolveTarget verb (Arg k FlagTrue None # others) c' = Inr (obj, k, others) \<and> f_ID fac obj = i \<and> wired fac c'"
proof -
  have "wired fac c'"
    using well_mannered.every_executeAll[OF assms(1)] assms(2,3) unfolding Execute_def every_def well_mannered.keepsWired_def[OF assms(1)] by blast
  then show ?thesis using assms(4,5) by (fastforce simp: wired_def resolveTarget_def)
qed

theorem names_address_objects_witness:
  "\<exists>obj. resolveTarget ''set'' [Arg ''w.l'' FlagTrue None, Arg ''text'' FlagTrue None]
      (snd (the (Execute sampleRegistry 3 benchFactory (Script
        [Statement ''w'' ''new'' [] 0 [Arg ''panel'' FlagTrue None, Arg ''children'' FlagNone (Some (BlockValue (Script
          [Statement ''l'' ''new'' [] 0 [Arg ''label'' FlagTrue None]])))]]) NewSession))) = Inr (obj, ''w.l'', [Arg ''text'' FlagTrue None])"
proof -
  let ?script = "Script [Statement ''w'' ''new'' [] 0 [Arg ''panel'' FlagTrue None, Arg ''children'' FlagNone (Some (BlockValue (Script
          [Statement ''l'' ''new'' [] 0 [Arg ''label'' FlagTrue None]])))]]"
  have "wired benchFactory NewSession" by (simp add: wired_def NewSession_def)
  moreover obtain r c' where run: "Execute sampleRegistry 3 benchFactory ?script NewSession = Some (r, c')" "skeys c' ''w.l'' = Some 8"
    by (simp add: Execute_def executeTopLevel_def Let_def benchFactory_def NewSession_def suppressed_def numeral_3_eq_3 newType_def
        resolveType_def templateChain.simps isUpperInitial_def isLowerInitial_def upperCase_def lowerCase_def furnish_def applyArgs_def
        applyArg_def unalias_def buildChildren_def buildChild_def calling_def run_simps andThen_def putKey_def putObject_def)
  ultimately show ?thesis using names_address_objects[OF bench_mannered _ run(1,2), of "''set''" "[Arg ''text'' FlagTrue None]"] by auto
qed

end
