(* ===== verification/SessionTemplates.thy ===== *)
theory SessionTemplates
  imports SessionFacts
begin

text \<open>
  Templates and aliases (\<open>protocol/session.go\<close>): an instance of a template is the type it resolves to with
  the template's properties first, an alias is its target wherever it is written, templates that make
  only templates below them are always instantiated in the end, and one that makes itself never is.
\<close>

subsection \<open>Fuel\<close>

text \<open>More fuel returns whatever less fuel returned.\<close>

definition upTo :: "('r, 'c) run \<Rightarrow> ('r, 'c) run \<Rightarrow> bool" where
  "upTo m m' \<longleftrightarrow> (\<forall>c x. m c = Some x \<longrightarrow> m' c = Some x)"

lemma upTo_refl [simp]: "upTo m m" by (simp add: upTo_def)

lemma upTo_andThen: "upTo m m' \<Longrightarrow> (\<And>x. upTo (f x) (f' x)) \<Longrightarrow> upTo (andThen m f) (andThen m' f')"
  by (force simp: upTo_def andThen_def split: option.splits sum.splits prod.splits)

lemma upTo_each: "(\<And>x. x \<in> set xs \<Longrightarrow> upTo (f x) (f' x)) \<Longrightarrow> upTo (each f xs) (each f' xs)"
  by (induction xs) (auto intro: upTo_andThen)

lemma upTo_applyArgs:
  assumes "\<And>args path. upTo (build args path) (build' args path)"
  shows "upTo (applyArgs build fac obj args path) (applyArgs build' fac obj args path)"
proof -
  have "upTo (buildChild build fac obj name path stmt) (buildChild build' fac obj name path stmt)" for name stmt
    unfolding buildChild_def Let_def by (auto intro: upTo_andThen assms)
  then have "upTo (buildChildren build fac obj name b path) (buildChildren build' fac obj name b path)" for name b
    unfolding buildChildren_def by (intro upTo_each)
  then have "upTo (applyArg build fac obj path a) (applyArg build' fac obj path a)" for a
    unfolding upTo_def applyArg_def by (auto split: sum.splits option.splits wvalue.splits)
  then show ?thesis unfolding applyArgs_def by (intro upTo_each)
qed

lemma upTo_furnish:
  assumes "\<And>args path. upTo (build args path) (build' args path)"
  shows "upTo (furnish build fac obj ta props path) (furnish build' fac obj ta props path)"
  unfolding furnish_def by (intro upTo_andThen upTo_applyArgs assms upTo_refl)

lemma upTo_step:
  assumes "\<And>args path. upTo (instantiate n fac args path) (instantiate k fac args path)"
  shows "upTo (instantiate (Suc n) fac args path) (instantiate (Suc k) fac args path)"
proof -
  have "furnish (instantiate n fac) fac obj ta props path c = Some x \<Longrightarrow> furnish (instantiate k fac) fac obj ta props path c = Some x"
    for obj ta props path c x
    using upTo_furnish[where build="instantiate n fac" and build'="instantiate k fac", OF assms] unfolding upTo_def by blast
  then show ?thesis unfolding upTo_def by (auto split: option.splits sum.splits prod.splits)
qed

lemma instantiate_Suc: "upTo (instantiate n fac args path) (instantiate (Suc n) fac args path)"
proof (induction n arbitrary: args path)
  case (Suc n)
  then show ?case by (rule upTo_step)
qed (simp add: upTo_def)

lemma instantiate_more: "n \<le> k \<Longrightarrow> upTo (instantiate n fac args path) (instantiate k fac args path)"
proof (induction k rule: dec_induct)
  case (step k)
  then show ?case using instantiate_Suc[of k] unfolding upTo_def by blast
qed simp

subsection \<open>An instance of a template is the type it stands for\<close>

lemma resolve_plain: "isLowerInitial b \<Longrightarrow> resolveType T b = Inr (b, [])"
  by (auto simp: resolveType_def templateChain.simps isUpperInitial_def isLowerInitial_def upperCase_def lowerCase_def)

lemma templateChain_cases:
  assumes "templateChain T t visited u = Inr (b, ds)"
  obtains (plain) "\<not> isUpperInitial u" "b = u" "ds = []"
    | (step) d ds' where "isUpperInitial u" "u \<notin> set visited" "fmlookup T u = Some d"
        "templateChain T t (u # visited) (td_base d) = Inr (b, ds')" "ds = d # ds'"
proof (cases "isUpperInitial u")
  case False
  then have "b = u \<and> ds = []" using assms by (subst (asm) templateChain.simps) simp
  then show thesis using plain[OF False] by blast
next
  case True
  then obtain d where d: "u \<notin> set visited" "fmlookup T u = Some d"
    using assms by (subst (asm) templateChain.simps) (auto split: if_splits option.splits)
  moreover obtain ds' where "templateChain T t (u # visited) (td_base d) = Inr (b, ds')" "ds = d # ds'"
    using assms True d
    by (subst (asm) templateChain.simps) (cases "templateChain T t (u # visited) (td_base d)"; auto split: prod.splits)
  ultimately show thesis using True step by blast
qed

lemma templateChain_lower: "templateChain T t visited u = Inr (b, ds) \<Longrightarrow> \<not> isUpperInitial b"
proof (induction T t visited u arbitrary: b ds rule: templateChain.induct)
  case (1 T t visited u)
  from "1.prems" show ?case
  proof (cases rule: templateChain_cases)
    case (step d ds')
    then show ?thesis using "1.IH"[OF _ _ step(3,4)] by simp
  qed simp
qed

lemma resolved_lower: "resolveType T t = Inr (b, ta) \<Longrightarrow> isLowerInitial b"
  by (cases "templateChain T t [] t") (auto simp: resolveType_def split: if_splits prod.splits)

lemma furnish_merges: "furnish build fac obj [] (ta @ props) path = furnish build fac obj ta props path"
  by (simp add: furnish_def applyArgs_def each_append andThen_assoc)

lemma newType_head [simp]: "newType (Arg t FlagTrue None # props) = Some (t, props)"
  by (simp add: newType_def)


subsection \<open>An alias is its target\<close>

text \<open>A script with the aliases written out, in blocks too: in the names of properties, nowhere else.\<close>

fun spellArg :: "(string \<Rightarrow> string option) \<Rightarrow> arg \<Rightarrow> arg"
  and spellValue :: "(string \<Rightarrow> string option) \<Rightarrow> wvalue \<Rightarrow> wvalue"
  and spellStatement :: "(string \<Rightarrow> string option) \<Rightarrow> statement \<Rightarrow> statement"
where
  "spellArg al (Arg name flag v) =
     Arg (if isUpperInitial name then (case al name of None \<Rightarrow> name | Some target \<Rightarrow> target) else name) flag
       (map_option (spellValue al) v)"
| "spellValue al (BlockValue (Script sts)) = BlockValue (Script (map (spellStatement al) sts))"
| "spellValue al (WordValue w) = WordValue w"
| "spellValue al (IntValue i) = IntValue i"
| "spellValue al (FloatValue f) = FloatValue f"
| "spellValue al (StringValue s b) = StringValue s b"
| "spellStatement al (Statement key verb ref i args) =
     Statement key verb ref i (case args of [] \<Rightarrow> [] | head # props \<Rightarrow> head # map (spellArg al) props)"

definition spellProps :: "(string \<Rightarrow> string option) \<Rightarrow> arg list \<Rightarrow> arg list" where
  "spellProps al args = (case args of [] \<Rightarrow> [] | head # props \<Rightarrow> head # map (spellArg al) props)"

lemma each_map_on:
  assumes "\<And>x c. Q c \<Longrightarrow> f (g x) c = f x c" "\<And>x c r c'. Q c \<Longrightarrow> f x c = Some (r, c') \<Longrightarrow> Q c'" "Q c"
  shows "each f (map g xs) c = each f xs c"
  using assms(3)
proof (induction xs arbitrary: c)
  case (Cons x xs)
  then show ?case using assms(1)[OF Cons.prems] assms(2)[OF Cons.prems]
    by (auto simp: andThen_def split: option.splits sum.splits)
qed simp

lemma newType_spell: "newType (spellProps al args) = map_option (\<lambda>(t, props). (t, map (spellArg al) props)) (newType args)"
  by (simp add: newType_def spellProps_def split: list.splits)

lemma st_spell:
  "st_verb (spellStatement al st) = st_verb st" "st_key (spellStatement al st) = st_key st"
  "st_args (spellStatement al st) = spellProps al (st_args st)"
  by (cases st; simp add: spellProps_def)+

lemma unalias_spelled:
  assumes "\<And>k t. al k = Some t \<Longrightarrow> t \<noteq> [] \<and> \<not> isUpperInitial t"
  shows "unalias al (a_name (spellArg al a)) = unalias al (a_name a)"
    "(a_name (spellArg al a) = []) = (a_name a = [])"
  using assms by (cases a; auto simp: unalias_def isUpperInitial_def split: option.splits)+

context well_mannered
begin

lemma applyArgs_spelled:
  assumes al: "\<And>k t. al k = Some t \<Longrightarrow> t \<noteq> [] \<and> \<not> isUpperInitial t"
    and IH: "\<And>args path c. aliases c = al \<Longrightarrow> instantiate n fac (spellProps al args) path c = instantiate n fac args path c"
    and c: "aliases c = al"
  shows "applyArgs (instantiate n fac) fac obj (map (spellArg al) args) path c = applyArgs (instantiate n fac) fac obj args path c"
proof -
  have keeps: "aliases c = al \<Longrightarrow> every (grew fac) m \<Longrightarrow> m c = Some (r, c') \<Longrightarrow> aliases c' = al"
    for m :: "(unit, ('h, 'a, 'k, 'o, 'm) session_scheme) run" and c r c' by (auto simp: every_def grew_def tame_def)
  have child: "buildChild (instantiate n fac) fac obj name path (spellStatement al st) c = buildChild (instantiate n fac) fac obj name path st c"
    if "aliases c = al" for name st c
    unfolding buildChild_def Let_def st_spell by (simp add: andThen_def IH[OF that])
  have kids: "buildChildren (instantiate n fac) fac obj name (Script (map (spellStatement al) sts)) path c
      = buildChildren (instantiate n fac) fac obj name (Script sts) path c" if "aliases c = al" for name sts c
    unfolding buildChildren_def script.sel
    by (rule each_map_on[where Q="\<lambda>c. aliases c = al", OF _ _ that]) (erule child, rule keeps, assumption, rule buildChild_grows, rule instantiate_makes)
  have one: "applyArg (instantiate n fac) fac obj path (spellArg al a) c = applyArg (instantiate n fac) fac obj path a c"
    if c: "aliases c = al" for a c
  proof -
    obtain name flag v where a: "a = Arg name flag v" by (cases a)
    have v: "a_value (spellArg al a) = map_option (spellValue al) v" "a_flag (spellArg al a) = flag" "a_value a = v" "a_flag a = flag"
      by (simp_all add: a)
    note applied = applyArg_def c unalias_spelled[OF al] v
    show ?thesis
    proof (cases v)
      case None
      then show ?thesis by (simp add: applied split: sum.split)
    next
      case (Some w)
      show ?thesis
      proof (cases w)
        case (BlockValue b)
        then show ?thesis using Some kids[OF c] by (cases b) (simp add: applied split: sum.split)
      qed (simp add: Some applied split: sum.split)+
    qed
  qed
  show ?thesis unfolding applyArgs_def
    by (rule each_map_on[where Q="\<lambda>c. aliases c = al", OF _ _ c]) (erule one, rule keeps, assumption, rule applyArg_grows, rule instantiate_makes)
qed

lemma instantiate_spelled:
  assumes al: "\<And>k t. al k = Some t \<Longrightarrow> t \<noteq> [] \<and> \<not> isUpperInitial t"
  shows "aliases c = al \<Longrightarrow> instantiate n fac (spellProps al args) path c = instantiate n fac args path c"
proof (induction n arbitrary: args path c)
  case (Suc n)
  have fur: "furnish (instantiate n fac) fac obj ta (map (spellArg al) props) path c = furnish (instantiate n fac) fac obj ta props path c"
    if c: "aliases c = al" for obj ta props c
  proof -
    have "aliases c' = al" if "applyArgs (instantiate n fac) fac obj ta path c = Some (r, c')" for r c'
      using applyArgs_grows[where build="instantiate n fac", OF instantiate_makes] that c unfolding every_def grew_def tame_def by metis
    then show ?thesis using applyArgs_spelled[OF al Suc.IH]
      by (auto simp: furnish_def andThen_def split: option.splits sum.splits)
  qed
  have new: "aliases (putObject i obj b c1) = al" if "f_New fac b c = (r, c1)" for i obj b r c1
    using new_grows[OF that] Suc.prems by (simp add: putObject_def grew_def tame_def)
  show ?case
    by (auto simp: newType_spell intro!: fur new split: option.splits sum.splits prod.splits)
qed simp

end

subsection \<open>Which instances end\<close>

text \<open>The type names a block's statements name, at any depth.\<close>

fun madeA :: "arg \<Rightarrow> string set"
  and madeV :: "wvalue \<Rightarrow> string set"
  and madeS :: "statement \<Rightarrow> string set"
where
  "madeA (Arg name flag v) = (case v of None \<Rightarrow> {} | Some w \<Rightarrow> madeV w)"
| "madeV (BlockValue (Script sts)) = \<Union> (madeS ` set sts)"
| "madeV (WordValue w) = {}"
| "madeV (IntValue i) = {}"
| "madeV (FloatValue f) = {}"
| "madeV (StringValue s b) = {}"
| "madeS (Statement key verb ref i args) =
     (case args of [] \<Rightarrow> {} | head # props \<Rightarrow> insert (a_name head) (\<Union> (madeA ` set props)))"

definition made :: "arg list \<Rightarrow> string set" where
  "made args = \<Union> (madeA ` set args)"

text \<open>Templates stand on levels: what one is based on and what its blocks make stand below it.\<close>

definition levelled :: "(string, templateDef) fmap \<Rightarrow> (string \<Rightarrow> nat) \<Rightarrow> bool" where
  "levelled T level \<longleftrightarrow>
     (\<forall>t d. fmlookup T t = Some d \<longrightarrow>
        (\<forall>u \<in> insert (td_base d) (made (td_args d)). isUpperInitial u \<longrightarrow> level u < level t))"

definition below :: "(string \<Rightarrow> nat) \<Rightarrow> nat \<Rightarrow> arg list \<Rightarrow> bool" where
  "below level r args \<longleftrightarrow> (\<forall>u \<in> made args. isUpperInitial u \<longrightarrow> level u < r)"

lemma below_mono: "below level r args \<Longrightarrow> r \<le> r' \<Longrightarrow> below level r' args"
  by (force simp: below_def)

lemma chain_below:
  "levelled T level \<Longrightarrow> templateChain T t visited u = Inr (b, ds) \<Longrightarrow> d \<in> set ds \<Longrightarrow> below level (level u) (td_args d)"
proof (induction T t visited u arbitrary: b ds d rule: templateChain.induct)
  case (1 T t visited u)
  from "1.prems"(2) show ?case
  proof (cases rule: templateChain_cases)
    case plain
    then show ?thesis using "1.prems"(3) by simp
  next
    case (step d1 ds')
    have lv: "v = td_base d1 \<or> v \<in> made (td_args d1) \<Longrightarrow> isUpperInitial v \<Longrightarrow> level v < level u" for v
      using "1.prems"(1) step(3) unfolding levelled_def by blast
    show ?thesis
    proof (cases "d = d1")
      case True
      then show ?thesis using lv by (simp add: below_def)
    next
      case False
      then have d: "d \<in> set ds'" using "1.prems"(3) step(5) by simp
      have "isUpperInitial (td_base d1)" using step(4) d by (cases rule: templateChain_cases) simp_all
      then have "level (td_base d1) \<le> level u" using lv by force
      moreover have "below level (level (td_base d1)) (td_args d)"
        using "1.IH"[OF _ _ step(3) "1.prems"(1) step(4) d] step(1,2) by simp
      ultimately show ?thesis by (rule below_mono[rotated])
    qed
  qed
qed

lemma resolved_below:
  assumes "levelled T level" "resolveType T t = Inr (b, ta)" shows "below level (level t) ta" "\<not> isUpperInitial t \<Longrightarrow> ta = []"
proof -
  obtain ds where ds: "templateChain T t [] t = Inr (b, ds)" "ta = concat (map td_args (rev ds))"
    using assms(2) by (cases "templateChain T t [] t") (auto simp: resolveType_def split: if_splits prod.splits)
  show "below level (level t) ta" using chain_below[OF assms(1) ds(1)] by (fastforce simp: ds(2) below_def made_def)
  show "ta = []" if "\<not> isUpperInitial t" using ds that by (auto elim: templateChain_cases)
qed

text \<open>Some fuel is enough for a run, whatever its argument, from every state of a kind.\<close>

definition enough :: "('c \<Rightarrow> bool) \<Rightarrow> (nat \<Rightarrow> 'y \<Rightarrow> ('r, 'c) run) \<Rightarrow> bool" where
  "enough Q F \<longleftrightarrow> (\<exists>n. \<forall>k \<ge> n. \<forall>y c. Q c \<longrightarrow> F k y c \<noteq> None)"

lemma enoughI: "(\<And>k y c. k \<ge> n \<Longrightarrow> Q c \<Longrightarrow> F k y c \<noteq> None) \<Longrightarrow> enough Q F"
  unfolding enough_def by blast

lemma enoughE:
  assumes "enough Q F" obtains n where "\<And>k y c. k \<ge> n \<Longrightarrow> Q c \<Longrightarrow> F k y c \<noteq> None"
  using assms unfolding enough_def by blast

lemma enough_map:
  assumes "enough Q F" "\<And>k y c. Q c \<Longrightarrow> F k (h y) c \<noteq> None \<Longrightarrow> G k y c \<noteq> None" shows "enough Q G"
proof -
  obtain n where n: "\<And>k y c. k \<ge> n \<Longrightarrow> Q c \<Longrightarrow> F k y c \<noteq> None" using assms(1) by (rule enoughE) blast
  show ?thesis by (rule enoughI[of n]) (rule assms(2), assumption, rule n)
qed

lemma enough_always: "(\<And>k y c. G k y c \<noteq> None) \<Longrightarrow> enough Q G"
  unfolding enough_def by blast

lemma enough_andThen:
  assumes "enough Q F" "enough Q G" "\<And>k y c x c'. Q c \<Longrightarrow> F k y c = Some (Inr x, c') \<Longrightarrow> Q c'"
    "\<And>k y c x. Q c \<Longrightarrow> G k (h y) c \<noteq> None \<Longrightarrow> H k y x c \<noteq> None"
  shows "enough Q (\<lambda>k y. andThen (F k y) (H k y))"
proof -
  obtain n where n: "\<And>k y c. k \<ge> n \<Longrightarrow> Q c \<Longrightarrow> F k y c \<noteq> None" using assms(1) by (rule enoughE) blast
  obtain m where m: "\<And>k y c. k \<ge> m \<Longrightarrow> Q c \<Longrightarrow> G k y c \<noteq> None" using assms(2) by (rule enoughE) blast
  show ?thesis
  proof (rule enoughI[of "max n m"])
    fix k y c assume k: "k \<ge> max n m" "Q c"
    have "H k y x c' \<noteq> None" if "F k y c = Some (Inr x, c')" for x c'
      using assms(4)[OF assms(3)[OF k(2) that] m[OF _ assms(3)[OF k(2) that]]] k(1) by simp
    then show "andThen (F k y) (H k y) c \<noteq> None" using n[OF _ k(2), of k y] k(1) unfolding andThen_None by auto
  qed
qed

lemma each_enough:
  assumes "\<And>x. x \<in> set xs \<Longrightarrow> enough Q (\<lambda>k y. f k y x)" "\<And>k y x c r c'. Q c \<Longrightarrow> f k y x c = Some (r, c') \<Longrightarrow> Q c'"
  shows "enough Q (\<lambda>k y. each (f k y) xs)"
  using assms(1)
proof (induction xs)
  case Nil
  show ?case by (rule enough_always) (simp add: returns_def)
next
  case (Cons x xs)
  have "enough Q (\<lambda>k y. f k y x)" "enough Q (\<lambda>k y. each (f k y) xs)" using Cons by auto
  then show ?case
    unfolding each.simps by (rule enough_andThen[where h="\<lambda>y. y"]) (auto intro: assms(2))
qed

lemma calling_returns: "calling m c = None \<longleftrightarrow> False"
  by (simp add: calling_def split: prod.splits option.splits)

context well_mannered
begin

lemma templates_kept: "templates c = T \<Longrightarrow> every (grew fac) m \<Longrightarrow> m c = Some (r, c') \<Longrightarrow> templates c' = T"
  by (auto simp: every_def grew_def tame_def)

lemma child_enough:
  assumes "enough (\<lambda>c. templates c = T) (\<lambda>k. instantiate k fac (st_args st))"
  shows "enough (\<lambda>c. templates c = T) (\<lambda>k y. buildChild (instantiate k fac) fac (fst y) (fst (snd y)) (snd (snd y)) st)"
  by (rule enough_map[OF assms, where h="\<lambda>y. if st_key st \<noteq> [] \<and> snd (snd y) \<noteq> [] then snd (snd y) @ ''.'' @ st_key st else []"])
     (simp add: buildChild_def Let_def andThen_None run_simps calling_returns del: not_None_eq)

lemma block_enough:
  assumes "\<And>st. st \<in> set sts \<Longrightarrow> enough (\<lambda>c. templates c = T) (\<lambda>k. instantiate k fac (st_args st))"
  shows "enough (\<lambda>c. templates c = T) (\<lambda>k y. buildChildren (instantiate k fac) fac (fst y) (fst (snd y)) (Script sts) (snd (snd y)))"
  unfolding buildChildren_def script.sel
  by (rule each_enough) (rule child_enough, erule assms, rule templates_kept, assumption, rule buildChild_grows, rule instantiate_makes)

lemma value_enough:
  assumes "\<And>sts st. v = Some (BlockValue (Script sts)) \<Longrightarrow> st \<in> set sts \<Longrightarrow>
      enough (\<lambda>c. templates c = T) (\<lambda>k. instantiate k fac (st_args st))"
  shows "enough (\<lambda>c. templates c = T) (\<lambda>k y. applyArg (instantiate k fac) fac (fst y) (snd y) (Arg name flag v))"
proof (cases "\<exists>sts. v = Some (BlockValue (Script sts))")
  case True
  then obtain sts where v: "v = Some (BlockValue (Script sts))" by blast
  have "enough (\<lambda>c. templates c = T) (\<lambda>k y. buildChildren (instantiate k fac) fac (fst y) (fst (snd y)) (Script sts) (snd (snd y)))"
    by (rule block_enough) (rule assms[OF v])
  then obtain n where n: "\<And>k y c. k \<ge> n \<Longrightarrow> templates c = T \<Longrightarrow>
      buildChildren (instantiate k fac) fac (fst y) (fst (snd y)) (Script sts) (snd (snd y)) c \<noteq> None" by (rule enoughE) blast
  have n': "buildChildren (instantiate k fac) fac obj nm (Script sts) path c \<noteq> None" if "k \<ge> n" "templates c = T" for k obj nm path c
    using n[OF that, of "(obj, nm, path)"] by simp
  show ?thesis by (rule enoughI[of n]) (use n' in \<open>auto simp: applyArg_def v refuses_def split: sum.splits\<close>)
next
  case False
  then have "\<forall>b. v \<noteq> Some (BlockValue b)" by (metis script.exhaust)
  then have "applyArg (instantiate k fac) fac obj path (Arg name flag v) c \<noteq> None" for k obj path c
    by (auto simp: applyArg_def refuses_def calling_returns simp del: not_None_eq split: sum.split option.split wvalue.split)
  then show ?thesis by (intro enough_always)
qed

lemma args_enough:
  assumes "\<And>a. a \<in> set args \<Longrightarrow> enough (\<lambda>c. templates c = T) (\<lambda>k y. applyArg (instantiate k fac) fac (fst y) (snd y) a)"
  shows "enough (\<lambda>c. templates c = T) (\<lambda>k y. applyArgs (instantiate k fac) fac (fst y) args (snd y))"
  unfolding applyArgs_def
  by (rule each_enough) (erule assms, rule templates_kept, assumption, rule applyArg_grows, rule instantiate_makes)

lemma furnish_enough:
  assumes "enough (\<lambda>c. templates c = T) (\<lambda>k y. applyArgs (instantiate k fac) fac (fst y) ta (snd y))"
    "enough (\<lambda>c. templates c = T) (\<lambda>k y. applyArgs (instantiate k fac) fac (fst y) props (snd y))"
  shows "enough (\<lambda>c. templates c = T) (\<lambda>k y. furnish (instantiate k fac) fac (fst y) ta props (snd y))"
  unfolding furnish_def
  by (rule enough_andThen[OF assms, where h="\<lambda>y. y"])
     (rule templates_kept, assumption, rule applyArgs_grows, rule instantiate_makes, assumption, simp add: andThen_None returns_def)

lemma instance_enough:
  assumes props: "enough (\<lambda>c. templates c = T) (\<lambda>k y. applyArgs (instantiate k fac) fac (fst y) props (snd y))"
    and chain: "\<And>b ta. resolveType T (a_name head) = Inr (b, ta) \<Longrightarrow>
      enough (\<lambda>c. templates c = T) (\<lambda>k y. applyArgs (instantiate k fac) fac (fst y) ta (snd y))"
  shows "enough (\<lambda>c. templates c = T) (\<lambda>k. instantiate k fac (head # props))"
proof (cases "resolveType T (a_name head)")
  case (Inl e)
  have "instantiate k fac (head # props) path c \<noteq> None" if "k \<ge> Suc 0" "templates c = T" for k path c
    using that Inl by (cases k) (auto simp: newType_def refuses_def)
  then show ?thesis by (rule enoughI)
next
  case (Inr bta)
  obtain b ta where bta: "bta = (b, ta)" by (cases bta)
  have "enough (\<lambda>c. templates c = T) (\<lambda>k y. furnish (instantiate k fac) fac (fst y) ta props (snd y))"
    by (rule furnish_enough[OF chain props]) (simp add: Inr bta)
  then obtain n where n: "\<And>k y c. k \<ge> n \<Longrightarrow> templates c = T \<Longrightarrow> furnish (instantiate k fac) fac (fst y) ta props (snd y) c \<noteq> None"
    by (rule enoughE) blast
  have n': "furnish (instantiate k fac) fac obj ta props path c \<noteq> None" if "k \<ge> n" "templates c = T" for k obj path c
    using n[OF that, of "(obj, path)"] by simp
  have "instantiate k fac (head # props) path c \<noteq> None" if k: "k \<ge> Suc n" and c: "templates c = T" for k path c
  proof -
    obtain j where j: "k = Suc j" "j \<ge> n" using k by (cases k) auto
    have "templates (putObject i obj b c1) = T" if "f_New fac b c = (r, c1)" for i obj r c1
      using new_grows[OF that] c by (simp add: putObject_def grew_def tame_def)
    then show ?thesis using n'[OF j(2)] Inr bta c
      by (auto simp: j(1) newType_def refuses_def split: option.splits sum.splits prod.splits)
  qed
  then show ?thesis by (rule enoughI)
qed

lemma nil_enough: "enough Q (\<lambda>k. instantiate k fac [])"
proof (rule enoughI[of 1])
  show "instantiate k fac [] path c \<noteq> None" if "k \<ge> 1" for k path c
    using that by (cases k) (auto simp: newType_def refuses_def)
qed

lemma args_end:
  assumes "levelled T level"
  shows "below level r args \<Longrightarrow> enough (\<lambda>c. templates c = T) (\<lambda>k y. applyArgs (instantiate k fac) fac (fst y) args (snd y))"
proof (induction r arbitrary: args rule: less_induct)
  case (less r)
  let ?low = "\<lambda>us. \<forall>u \<in> us. isUpperInitial u \<longrightarrow> level u < r"
  let ?stmt = "\<lambda>st. enough (\<lambda>c. templates c = T) (\<lambda>k. instantiate k fac (st_args st))"
  have "?low (madeA a) \<longrightarrow> enough (\<lambda>c. templates c = T) (\<lambda>k y. applyArg (instantiate k fac) fac (fst y) (snd y) a)"
    and "?low (madeV v) \<longrightarrow> (\<forall>sts st. v = BlockValue (Script sts) \<longrightarrow> st \<in> set sts \<longrightarrow> ?stmt st)"
    and "?low (madeS st) \<longrightarrow> ?stmt st" for a v st
  proof (induction a and v and st rule: madeA_madeV_madeS.induct)
    case (1 name flag v)
    show ?case by (rule impI, rule value_enough) (use 1 in auto)
  next
    case (2 sts)
    then show ?case by auto
  next
    case (7 key verb ref i args)
    show ?case
    proof (rule impI)
      assume low: "?low (madeS (Statement key verb ref i args))"
      show "?stmt (Statement key verb ref i args)"
      proof (cases args)
        case Nil
        then show ?thesis by (simp add: nil_enough)
      next
        case (Cons head props)
        have "enough (\<lambda>c. templates c = T) (\<lambda>k y. applyArgs (instantiate k fac) fac (fst y) props (snd y))"
          by (rule args_enough) (use 7 low Cons in auto)
        moreover have "enough (\<lambda>c. templates c = T) (\<lambda>k y. applyArgs (instantiate k fac) fac (fst y) ta (snd y))"
          if ta: "resolveType T (a_name head) = Inr (b, ta)" for b ta
        proof (cases "isUpperInitial (a_name head)")
          case True
          then show ?thesis using less.IH[OF _ resolved_below(1)[OF assms ta]] low Cons by simp
        next
          case False
          then show ?thesis using resolved_below(2)[OF assms ta] by (intro args_enough) simp
        qed
        ultimately show ?thesis using instance_enough Cons by simp
      qed
    qed
  qed simp_all
  then show ?case using less.prems by (intro args_enough) (auto simp: below_def made_def)
qed

end

lemma finite_made: "finite (madeA a)" "finite (madeV v)" "finite (madeS st)"
  by (induction a and v and st rule: madeA_madeV_madeS.induct) (auto split: option.splits list.splits)

lemma below_some: "\<exists>r. below level r args"
proof -
  have f: "finite (made args)" by (simp add: made_def finite_made)
  then have "below level (Suc (Max (level ` made args))) args" by (auto simp: below_def intro: le_imp_less_Suc)
  then show ?thesis ..
qed

context well_mannered
begin

lemma applyArgs_end: "levelled T level \<Longrightarrow> enough (\<lambda>c. templates c = T) (\<lambda>k y. applyArgs (instantiate k fac) fac (fst y) args (snd y))"
  using args_end below_some by blast

lemma instantiate_end:
  assumes "levelled T level" shows "enough (\<lambda>c. templates c = T) (\<lambda>k. instantiate k fac args)"
proof (cases args)
  case Nil
  then show ?thesis by (simp add: nil_enough)
next
  case (Cons head props)
  then show ?thesis using instance_enough[OF applyArgs_end[OF assms] applyArgs_end[OF assms]] by simp
qed

end

subsubsection \<open>Batches\<close>

lemma ebind_Inr: "ebind x f = Inr r \<longleftrightarrow> (\<exists>a. x = Inr a \<and> f a = Inr r)"
  by (cases x) simp_all

lemma resolveTarget_rest: "resolveTarget verb args c = Inr (obj, path, others) \<Longrightarrow> others = tl args"
  by (auto simp: resolveTarget_def ebind_Inr split: list.splits option.splits)

definition total :: "('r, 'c) run \<Rightarrow> bool" where
  "total m \<longleftrightarrow> (\<forall>c. m c \<noteq> None)"

lemma total_basic: "total (returns x)" "total (refuses e)" "total (silently f)" "total (calling m)"
  by (simp_all add: total_def run_simps calling_returns del: not_None_eq)

lemma total_andThen: "total m \<Longrightarrow> (\<And>x. total (f x)) \<Longrightarrow> total (andThen m f)"
  by (simp add: total_def andThen_None del: not_None_eq)

lemma total_each: "(\<And>x. x \<in> set xs \<Longrightarrow> total (f x)) \<Longrightarrow> total (each f xs)"
  by (induction xs) (auto intro: total_basic total_andThen)

lemma total_onTarget: "(\<And>obj path rest. total (f obj path rest)) \<Longrightarrow> total (onTarget verb args f)"
  by (auto simp: total_def onTarget_def refuses_def split: sum.splits)

lemma total_suppressed: "total m \<Longrightarrow> total (suppressed fac m)"
  by (auto simp: total_def suppressed_def simp del: not_None_eq split: option.splits)

lemma total_asked: "total (askObject reg fac key args)"
  unfolding askObject_def
  by (intro total_onTarget) (auto simp: total_def run_simps calling_returns simp del: not_None_eq split: option.split)

lemma total_done: "total (doObject reg fac args)"
  unfolding doObject_def
  by (intro total_onTarget) (auto simp: total_def run_simps calling_returns simp del: not_None_eq split: option.split)

lemma total_destroyed: "total (destroyObject fac args)"
  unfolding destroyObject_def by (auto intro!: total_onTarget total_basic total_andThen split: option.split)

lemma total_events: "each (subscribeEvent reg ec verb t i) evs c = None \<longleftrightarrow> False"
proof -
  have "total (subscribeEvent reg ec verb t i ev)" for ev
    by (auto simp: subscribeEvent_def intro: total_basic split: option.split)
  then have "total (each (subscribeEvent reg ec verb t i) evs)" by (intro total_each)
  then show ?thesis unfolding total_def by blast
qed

lemma total_subscribed: "total (subscribe reg fac verb args)"
  by (auto simp: total_def subscribe_def run_simps total_events simp del: not_None_eq split: option.split list.split sum.split)

lemma total_aliased: "total (declareAliases args)"
proof -
  have "total (declareAlias a)" for a
    unfolding declareAlias_def by (auto intro: total_basic split: option.split wvalue.split)
  then show ?thesis unfolding declareAliases_def by (auto intro: total_each total_basic)
qed

definition keepsTemplates :: "('h, 'a, 'k, 'o, 'm) session_scheme \<Rightarrow> ('h, 'a, 'k, 'o, 'm) session_scheme \<Rightarrow> bool" where
  "keepsTemplates c c' \<longleftrightarrow> templates c' = templates c"

lemma keepsTemplates_preorder: "reflp keepsTemplates" "transp keepsTemplates"
  by (auto simp: keepsTemplates_def reflp_def transp_def)

lemma every_tame: "every (tame fac) m \<Longrightarrow> every keepsTemplates m"
  by (auto simp: every_def tame_def keepsTemplates_def)

lemma templates_aliased: "every keepsTemplates (declareAliases args)"
proof -
  have "every keepsTemplates (declareAlias a)" for a
    unfolding declareAlias_def
    by (auto intro!: every_basic keepsTemplates_preorder simp: keepsTemplates_def split: option.splits wvalue.splits)
  then show ?thesis unfolding declareAliases_def by (auto intro!: every_each every_basic keepsTemplates_preorder)
qed

lemma ret_templates: "every keepsTemplates (returns x)" "every keepsTemplates (refuses e)" "every keepsTemplates (silently (putKey k i))"
  by (auto intro!: every_basic keepsTemplates_preorder) (simp add: keepsTemplates_def putKey_def)

lemma templates_then: "every keepsTemplates m \<Longrightarrow> (\<And>x. every keepsTemplates (f x)) \<Longrightarrow> every keepsTemplates (\<lambda>c. andThen m f c)"
  by (intro every_andThen[OF keepsTemplates_preorder(2)])

context well_mannered
begin

lemma instantiate_templates: "every keepsTemplates (instantiate n fac args path)"
  using instantiate_makes[of n args path] by (auto simp: every_def makes_def grew_def tame_def keepsTemplates_def)

lemma applyArgs_templates: "every (tame fac) (applyArgs (instantiate n fac) fac obj args path)"
  by (rule every_mono[OF applyArgs_grows grew_tame]) (rule instantiate_makes)

lemma suppressed_new: "every keepsTemplates (suppressed fac (instantiate n fac args path))"
  using suppressed_makes[OF instantiate_makes, of n args path] by (auto simp: every_def makes_def grew_def tame_def keepsTemplates_def)

lemma templates_surfaced:
  "every keepsTemplates (\<lambda>c. case surfaced stmt c of Inl e \<Rightarrow> refuses e c | Inr i \<Rightarrow> andThen (silently (putKey key i)) (\<lambda>u. returns (f i)) c)"
  by (auto simp: every_def andThen_def run_simps keepsTemplates_def putKey_def split: sum.splits)

lemma templates_executed:
  assumes "st_verb stmt \<noteq> ''template''" shows "every keepsTemplates (executeTopLevel reg n fac stmt reply)"
proof -
  have set: "every keepsTemplates (onTarget ''set'' args (\<lambda>obj path remaining.
      andThen (suppressed fac (applyArgs (instantiate n fac) fac obj remaining path)) (\<lambda>u. returns reply)))" for args
    by (intro every_onTarget keepsTemplates_preorder)
       (rule every_andThen[OF keepsTemplates_preorder(2)], rule every_tame, rule every_suppressed, rule applyArgs_templates, rule ret_templates)
  have new: "every keepsTemplates (if key \<noteq> [] then andThen (silently (putKey key (f_ID fac obj))) (\<lambda>u. returns x) else returns y)"
    for key obj x y by (auto intro!: every_andThen[OF keepsTemplates_preorder(2)] ret_templates)
  show ?thesis
    unfolding executeTopLevel_def Let_def using assms
    by (intro every_if ret_templates templates_surfaced templates_then suppressed_new set templates_aliased new
        every_tame[OF every_destroyed] every_tame[OF every_asked] every_tame[OF every_suppressed[OF every_done]]
        every_tame[OF every_subscribed]) auto
qed

lemma suppressed_enough:
  fixes F :: "nat \<Rightarrow> 'y \<Rightarrow> ('x, ('h, 'a, 'k, 'o, 'm) session_scheme) run"
  assumes "enough (\<lambda>c. templates c = T) F" shows "enough (\<lambda>c. templates c = T) (\<lambda>k y. suppressed fac (F k y))"
proof (cases "f_Control fac")
  case (Some ec)
  obtain n where n: "\<And>k y c. k \<ge> n \<Longrightarrow> templates c = T \<Longrightarrow> F k y c \<noteq> None" using assms by (rule enoughE) blast
  have "templates (ec_enter ec c) = templates c" for c using control_grows[OF Some, of c] by (simp add: grew_def tame_def)
  then have "suppressed fac (F k y) c \<noteq> None" if "k \<ge> n" "templates c = T" for k y c
    using n[OF that(1)] that(2) Some by (auto simp: suppressed_def simp del: not_None_eq split: option.split)
  then show ?thesis by (rule enoughI)
next
  case None
  then have "suppressed fac m = m" for m :: "('x, ('h, 'a, 'k, 'o, 'm) session_scheme) run" by (auto simp: suppressed_def)
  then show ?thesis using assms by simp
qed

lemma enough_verb:
  assumes "levelled T level" "st_verb stmt \<noteq> ''template''"
  shows "enough (\<lambda>c. templates c = T) (\<lambda>k (reply :: Reply). executeTopLevel reg k fac stmt reply)"
proof -
  let ?Q = "\<lambda>c. templates c = T"
  have "enough ?Q (\<lambda>k y. suppressed fac (instantiate k fac (st_args stmt) y))" by (rule suppressed_enough[OF instantiate_end[OF assms(1)]])
  then obtain n where n: "\<And>k y c. k \<ge> n \<Longrightarrow> ?Q c \<Longrightarrow> suppressed fac (instantiate k fac (st_args stmt) y) c \<noteq> None" by (rule enoughE) blast
  have "enough ?Q (\<lambda>k (y :: 'o \<times> string). suppressed fac (applyArgs (instantiate k fac) fac (fst y) (tl (st_args stmt)) (snd y)))"
    by (rule suppressed_enough[OF applyArgs_end[OF assms(1)]])
  then obtain m where m: "\<And>k y c. k \<ge> m \<Longrightarrow> ?Q c \<Longrightarrow>
      suppressed fac (applyArgs (instantiate k fac) fac (fst y) (tl (st_args stmt)) (snd y)) c \<noteq> None" by (rule enoughE) blast
  have m': "suppressed fac (applyArgs (instantiate k fac) fac obj (tl (st_args stmt)) path) c \<noteq> None" if "k \<ge> m" "?Q c" for k obj path c
    using m[OF that, of "(obj, path)"] by simp
  have "executeTopLevel reg k fac stmt reply c \<noteq> None" if k: "k \<ge> max n m" and c: "?Q c" for k and reply :: Reply and c
  proof -
    have new: "andThen (suppressed fac (instantiate k fac (st_args stmt) (st_key stmt)))
        (\<lambda>obj. if st_key stmt \<noteq> [] then andThen (silently (putKey (st_key stmt) (f_ID fac obj))) (\<lambda>u. returns (r1 obj)) else returns r2) c \<noteq> None" for r1 r2
      using n[OF _ c] k by (simp add: andThen_None run_simps del: not_None_eq)
    have set: "onTarget ''set'' (st_args stmt) (\<lambda>obj path rest.
        andThen (suppressed fac (applyArgs (instantiate k fac) fac obj rest path)) (\<lambda>u. returns reply)) c \<noteq> None"
    proof (cases "resolveTarget ''set'' (st_args stmt) c")
      case (Inr t)
      obtain obj path others where t: "t = (obj, path, others)" by (cases t)
      have o: "others = tl (st_args stmt)" using Inr unfolding t by (rule resolveTarget_rest)
      have "suppressed fac (applyArgs (instantiate k fac) fac obj (tl (st_args stmt)) path) c \<noteq> None" using m'[OF _ c] k by simp
      then have "andThen (suppressed fac (applyArgs (instantiate k fac) fac obj (tl (st_args stmt)) path)) (\<lambda>u. returns reply) c \<noteq> None"
        unfolding andThen_None run_simps by blast
      then show ?thesis unfolding onTarget_def Inr t o by simp
    qed (simp add: onTarget_def run_simps)
    have others: "andThen m f c \<noteq> None" if "total m" "\<And>x. total (f x)" for m f
      using total_andThen[OF that] by (simp add: total_def)
    have top: "(case surfaced stmt c of Inl e \<Rightarrow> refuses e c | Inr i \<Rightarrow> andThen (silently (putKey key i)) (\<lambda>u. returns (r i)) c) \<noteq> None" for key r
      by (simp add: run_simps andThen_None del: not_None_eq split: sum.split)
    have step: "(P \<Longrightarrow> a \<noteq> None) \<Longrightarrow> (\<not> P \<Longrightarrow> b \<noteq> None) \<Longrightarrow> (if P then a else b) \<noteq> None" for P and a b :: "'z option" by simp
    have ends: "refuses e c \<noteq> None" "returns x c \<noteq> None" for e x by (simp_all add: run_simps)
    show ?thesis
      unfolding executeTopLevel_def Let_def using assms(2)
      by (intro step ends new set top others total_basic total_suppressed total_asked total_done total_destroyed total_subscribed total_aliased)
         simp_all
  qed
  then show ?thesis by (rule enoughI)
qed

lemma batch_enough:
  assumes "levelled T level"
  shows "\<forall>stmt \<in> set stmts. st_verb stmt \<noteq> ''template'' \<Longrightarrow> enough (\<lambda>c. templates c = T) (\<lambda>k (reply :: Reply). executeAll reg k fac stmts reply)"
proof (induction stmts)
  case Nil
  show ?case by (rule enough_always) (simp add: returns_def)
next
  case (Cons stmt stmts)
  let ?Q = "\<lambda>c. templates c = T"
  have v: "st_verb stmt \<noteq> ''template''" using Cons.prems by simp
  have all: "enough ?Q (\<lambda>k (reply :: Reply). executeAll reg k fac stmts reply)" using Cons by simp
  obtain n where n: "\<And>k (y :: Reply) c. k \<ge> n \<Longrightarrow> ?Q c \<Longrightarrow> executeTopLevel reg k fac stmt y c \<noteq> None" using enough_verb[OF assms v, of reg] by (rule enoughE) blast
  obtain m where m: "\<And>k (y :: Reply) c. k \<ge> m \<Longrightarrow> ?Q c \<Longrightarrow> executeAll reg k fac stmts y c \<noteq> None" using all by (rule enoughE) blast
  have "executeAll reg k fac (stmt # stmts) reply c \<noteq> None" if k: "k \<ge> max n m" and c: "?Q c" for k and reply :: Reply and c
  proof -
    have "?Q c'" if "executeTopLevel reg k fac stmt reply c = Some (r, c')" for r c'
      using templates_executed[OF v, of reg k reply] that c by (simp add: every_def keepsTemplates_def)
    then show ?thesis using n[OF _ c, of k reply] m k by (auto simp: andThen_None simp del: not_None_eq)
  qed
  then show ?case by (rule enoughI)
qed

end

subsection \<open>What templates and aliases come to\<close>




text \<open>Every batch is answered when templates stand on levels, each based on and making only templates below
  it: on a factory that keeps to its contract, a batch that declares no template of its own returns, with a
  reply or an error, from every session with those templates; some fuel is enough for all of them, and any
  more changes nothing.\<close>

theorem levelled_batches_return:
  assumes "well_mannered fac" "levelled T level" "\<forall>stmt \<in> set (statements script). st_verb stmt \<noteq> ''template''"
  shows "\<exists>n. \<forall>c. templates c = T \<longrightarrow> (\<forall>k \<ge> n. \<exists>r c'. Execute reg k fac script c = Some (r, c'))"
proof -
  obtain n where "\<And>k (y :: Reply) c. k \<ge> n \<Longrightarrow> templates c = T \<Longrightarrow> executeAll reg k fac (statements script) y c \<noteq> None"
    using well_mannered.batch_enough[OF assms] by (rule enoughE) blast
  then show ?thesis unfolding Execute_def by (metis not_None_eq surj_pair)
qed

theorem levelled_batches_return_witness:
  "\<exists>n. \<forall>k \<ge> n. \<exists>r c'. Execute sampleRegistry k benchFactory (Script [Statement ''w'' ''new'' [] 0 [Arg ''Form'' FlagTrue None]])
      (NewSession\<lparr>templates := fmupd ''Form'' \<lparr>td_base = ''panel'', td_args = [Arg ''children'' FlagNone (Some (BlockValue (Script
          [Statement [] ''new'' [] 0 [Arg ''Row'' FlagTrue None]])))]\<rparr> (fmupd ''Row'' \<lparr>td_base = ''label'', td_args = []\<rparr> fmempty)\<rparr>) = Some (r, c')"
proof -
  let ?T = "fmupd ''Form'' \<lparr>td_base = ''panel'', td_args = [Arg ''children'' FlagNone (Some (BlockValue (Script
          [Statement [] ''new'' [] 0 [Arg ''Row'' FlagTrue None]])))]\<rparr> (fmupd ''Row'' \<lparr>td_base = ''label'', td_args = []\<rparr> fmempty)"
  have "levelled ?T (\<lambda>t. if t = ''Form'' then 1 else 0)"
    by (auto simp: levelled_def made_def isUpperInitial_def upperCase_def split: if_splits)
  then obtain n where n: "\<forall>c. templates c = ?T \<longrightarrow> (\<forall>k \<ge> n. \<exists>r c'. Execute sampleRegistry k benchFactory
      (Script [Statement ''w'' ''new'' [] 0 [Arg ''Form'' FlagTrue None]]) c = Some (r, c'))"
    using levelled_batches_return[OF bench_mannered, of ?T _ "Script [Statement ''w'' ''new'' [] 0 [Arg ''Form'' FlagTrue None]]" sampleRegistry] by fastforce
  have "templates (NewSession\<lparr>templates := ?T\<rparr>) = ?T" by simp
  then show ?thesis using n by blast
qed

text \<open>An instance of a template whose block makes one.\<close>

lemma self_instance:
  assumes "well_mannered fac" "\<And>c. \<exists>obj c'. f_New fac b c = (Inr obj, c')"
    and "isUpperInitial t" "isLowerInitial b" "slot \<noteq> []" "\<not> isUpperInitial slot"
  shows "fmlookup (templates c) t = Some \<lparr>td_base = b, td_args = [Arg slot fl (Some (BlockValue (Script [Statement [] ''new'' [] 0 [Arg t FlagTrue None]])))]\<rparr>
    \<Longrightarrow> instantiate n fac (Arg t FlagTrue None # props) path c = None"
proof (induction n arbitrary: c path props)
  case (Suc n)
  let ?ta = "[Arg slot fl (Some (BlockValue (Script [Statement [] ''new'' [] 0 [Arg t FlagTrue None]])))]"
  have "\<not> isUpperInitial b" using assms(4) by (auto simp: isUpperInitial_def isLowerInitial_def upperCase_def lowerCase_def)
  then have "resolveType (templates c) t = Inr (b, ?ta)" using Suc.prems assms(3,4) by (simp add: resolveType_def templateChain.simps)
  moreover obtain obj c1 where new: "f_New fac b c = (Inr obj, c1)" using assms(2) by blast
  let ?c2 = "putObject (f_ID fac obj) obj b c1"
  have "templates ?c2 = templates c" using well_mannered.new_grows[OF assms(1) new] by (simp add: putObject_def grew_def tame_def)
  then have "instantiate n fac [Arg t FlagTrue None] path ?c2 = None" for path using Suc by simp
  then have "buildChild (instantiate n fac) fac obj slot path (Statement [] ''new'' [] 0 [Arg t FlagTrue None]) ?c2 = None"
    by (simp add: buildChild_def Let_def andThen_def)
  then have "furnish (instantiate n fac) fac obj ?ta props path ?c2 = None" using assms(5,6)
    by (simp add: furnish_def applyArgs_def applyArg_def unalias_def buildChildren_def andThen_def)
  ultimately show ?case using new by simp
qed simp

text \<open>A template whose own block makes an instance of it brings the display down: declaring one is accepted,
  and the batch that then instantiates it never returns, whatever the type it is based on, as long as the
  factory makes that type. (Each level makes another object and another frame, so the process ends.)\<close>

theorem self_template_never_returns:
  assumes "well_mannered fac" "\<And>c. \<exists>obj c'. f_New fac b c = (Inr obj, c')"
    and "isUpperInitial t" "isLowerInitial b" "slot \<noteq> []" "\<not> isUpperInitial slot"
  shows "Execute reg n fac (Script
      [Statement [] ''template'' [] 0 [Arg t FlagNone (Some (WordValue b)),
         Arg slot FlagNone (Some (BlockValue (Script [Statement [] ''new'' [] 0 [Arg t FlagTrue None]])))],
       Statement [] ''new'' [] 0 [Arg t FlagTrue None]]) c = None"
proof -
  let ?ta = "[Arg slot FlagNone (Some (BlockValue (Script [Statement [] ''new'' [] 0 [Arg t FlagTrue None]])))]"
  let ?c1 = "c\<lparr>templates := fmupd t \<lparr>td_base = b, td_args = ?ta\<rparr> (templates c)\<rparr>"
  have "\<not> isUpperInitial b" using assms(4) by (auto simp: isUpperInitial_def isLowerInitial_def upperCase_def lowerCase_def)
  then have declared: "declareTemplate (Arg t FlagNone (Some (WordValue b)) # ?ta) c = Some (Inr (), ?c1)"
    using assms(3,4) by (simp add: declareTemplate_def run_simps)
  have none: "instantiate n fac [Arg t FlagTrue None] [] d = None" if "templates d = templates ?c1" for d
    by (rule self_instance[OF assms]) (simp add: that)
  have "suppressed fac (instantiate n fac [Arg t FlagTrue None] []) ?c1 = None"
  proof (cases "f_Control fac")
    case (Some ec)
    have "templates (ec_enter ec ?c1) = templates ?c1" using well_mannered.control_grows[OF assms(1) Some, of ?c1] by (simp add: grew_def tame_def)
    then show ?thesis using none Some by (simp add: suppressed_def)
  qed (simp add: suppressed_def none)
  then show ?thesis using declared by (simp add: Execute_def executeTopLevel_def Let_def andThen_def run_simps)
qed

theorem self_template_never_returns_witness:
  "\<exists>script. Parse ''template T=panel children={ new T }; new T'' = Some (Inr script)
    \<and> (\<forall>n. Execute sampleRegistry n benchFactory script NewSession = None)"
proof -
  let ?script = "Script [Statement [] ''template'' [] 0 [Arg ''T'' FlagNone (Some (WordValue ''panel'')),
         Arg ''children'' FlagNone (Some (BlockValue (Script [Statement [] ''new'' [] 0 [Arg ''T'' FlagTrue None]])))],
       Statement [] ''new'' [] 0 [Arg ''T'' FlagTrue None]]"
  have "wf_script ?script" "EncodeScript ?script = ''template T=panel children={ new T }; new T''" "readBackScript ?script = ?script"
    by code_simp+
  then have "Parse ''template T=panel children={ new T }; new T'' = Some (Inr ?script)" using Parse_EncodeScript_eq by metis
  moreover have "Execute sampleRegistry n benchFactory ?script NewSession = None" for n
    by (rule self_template_never_returns[OF bench_mannered])
       (simp_all add: benchFactory_def isUpperInitial_def isLowerInitial_def upperCase_def lowerCase_def)
  ultimately show ?thesis by blast
qed

end
