(* ===== verification/RegistryFactory.thy ===== *)
theory RegistryFactory
  imports SessionTemplates
begin

text \<open>
  The factory over the registered types (\<open>RegistryFactory\<close> and \<open>registryObject\<close> of
  \<open>protocol/registry.go\<close>), bound to one connection: what it makes, how a property of what it made is
  found and applied, which methods are forwarded to the target, and where a decision stands beside what
  the registry built. A factory over types that keep to their contract is well mannered, so what is proved
  of sessions holds on it.
\<close>

subsection \<open>Objects\<close>

text \<open>What an object of a session is: one the registry built, or an open decision, which is its own object.
  A \<open>registryObject\<close> keeps its descriptor; a name is registered once, so its type's name finds it.\<close>

datatype 't object =
  RegistryObject (ro_typeName: string) (ro_target: 't) (ro_virtualID: u64)
| DecisionObject u64

text \<open>The interfaces a target may satisfy, and a target as a value a property may point to.\<close>

record ('t, 'a, 'c) interfaces =
  if_Ask :: "'t \<Rightarrow> (string \<Rightarrow> arg list \<Rightarrow> Answers option \<Rightarrow> 'c \<Rightarrow> goError option \<times> 'c) option"
  if_Do :: "'t \<Rightarrow> (string \<Rightarrow> arg list \<Rightarrow> 'c \<Rightarrow> goError option \<times> 'c) option"
  if_SetWireID :: "'t \<Rightarrow> (u64 \<Rightarrow> 'c \<Rightarrow> 'c) option"
  if_any :: "'t \<Rightarrow> 'a"

text \<open>What a connection is built on: its services, how a subscription hook runs, what an asker does with a
  verdict, and \<open>virtualIDSource\<close>.\<close>

record ('h, 'k, 'c) host =
  ho_services :: "'c services"
  ho_hook :: "'h \<Rightarrow> 'c \<Rightarrow> 'c"
  ho_react :: "'k \<Rightarrow> Verdict \<Rightarrow> 'c \<Rightarrow> 'c"
  ho_virtualID :: "'c \<Rightarrow> u64 \<times> 'c"

definition descriptorOf :: "('t, 'c) registry \<Rightarrow> 't object \<Rightarrow> ('t, 'c) TypeSpec option" where
  "descriptorOf reg o' = (case o' of RegistryObject n t v \<Rightarrow> Mapping.lookup (regTypes reg) n | DecisionObject i \<Rightarrow> None)"

text \<open>\<open>property\<close>: the type's own table and, for a type that is not virtual, the common properties behind it.\<close>

definition propertyOf :: "('t, 'c) registry \<Rightarrow> string \<Rightarrow> string \<Rightarrow> ('t, 'c) Property option" where
  "propertyOf reg typeName name =
     (case Mapping.lookup (regTypes reg) typeName of
        None \<Rightarrow> None
      | Some d \<Rightarrow>
          (case Mapping.lookup (ts_Props d) name of
             Some p \<Rightarrow> Some p
           | None \<Rightarrow> (if ts_Virtual d then None else Mapping.lookup (regCommon reg) name)))"

definition ObjectID :: "('t, 'c) registry \<Rightarrow> 't object \<Rightarrow> u64" where
  "ObjectID reg o' =
     (case o' of
        DecisionObject i \<Rightarrow> i
      | RegistryObject n t v \<Rightarrow>
          (case Mapping.lookup (regTypes reg) n of
             None \<Rightarrow> v
           | Some d \<Rightarrow> (if ts_Virtual d then v else case ts_ID d of None \<Rightarrow> v | Some ident \<Rightarrow> ident t)))"

subsection \<open>Making one\<close>

text \<open>\<open>New\<close>. A descriptor without a constructor is hosted (\<open>registrations_sound\<close>), so the call of a nil
  function is not reached; it stands as a refusal.\<close>

definition NewObject ::
  "('t, ('h, 'a, 'k, 't object, 'm) session_scheme) registry \<Rightarrow> ('t, 'a, ('h, 'a, 'k, 't object, 'm) session_scheme) interfaces
   \<Rightarrow> ('h, 'k, ('h, 'a, 'k, 't object, 'm) session_scheme) host \<Rightarrow> string
   \<Rightarrow> ('h, 'a, 'k, 't object, 'm) session_scheme \<Rightarrow> (goError + 't object) \<times> ('h, 'a, 'k, 't object, 'm) session_scheme" where
  "NewObject reg ifs ho typeName c =
     (case Mapping.lookup (regTypes reg) typeName of
        None \<Rightarrow> (Inl (Errorf ''unknown trinket type %q'' [typeName]), c)
      | Some d \<Rightarrow>
          (if ts_Hosted d then (Inl (Errorf ''%s is not created over the wire: the host registers one and hands over its ID'' [typeName]), c)
           else case ts_New d of
             None \<Rightarrow> (Inl (Errorf ''invalid memory address or nil pointer dereference'' []), c)
           | Some construct \<Rightarrow>
               (let (target, c1) = construct c;
                    (i, c2) = (if ts_Virtual d then ho_virtualID ho c1 else (0, c1));
                    c3 = (if ts_Virtual d
                          then RegisterRef i (if_any ifs target) (case if_SetWireID ifs target of None \<Rightarrow> c2 | Some tell \<Rightarrow> tell i c2)
                          else c2);
                    c4 = (case ts_Bind d of None \<Rightarrow> c3 | Some bind \<Rightarrow> bind target c3)
                in (Inr (RegistryObject typeName target i), c4))))"

subsection \<open>Properties\<close>

definition SetProperty where
  "SetProperty reg o' name v flag c =
     (case o' of
        DecisionObject i \<Rightarrow> (Some (DecisionSet name), c)
      | RegistryObject n t u \<Rightarrow>
          (case propertyOf reg n name of
             None \<Rightarrow> (Some (Errorf ''property %q is not supported by this type'' [name]), c)
           | Some p \<Rightarrow>
               (case (pr_Accept p, pr_Apply p) of
                  (Some accept, _) \<Rightarrow> (Some (Errorf ''property %q takes a {} block, not a value'' [name]), c)
                | (None, None) \<Rightarrow> (Some (Errorf ''invalid memory address or nil pointer dereference'' []), c)
                | (None, Some apply) \<Rightarrow> apply t v flag c)))"

definition AppendChild where
  "AppendChild reg o' slot child c =
     (case o' of
        DecisionObject i \<Rightarrow> (Some (DecisionAppend slot), c)
      | RegistryObject n t u \<Rightarrow>
          (case propertyOf reg n slot of
             None \<Rightarrow> (Some (Errorf ''property %q is not supported by this type'' [slot]), c)
           | Some p \<Rightarrow>
               (case pr_Accept p of
                  None \<Rightarrow> (Some (Errorf ''property %q takes a value, not a {} block'' [slot]), c)
                | Some accept \<Rightarrow>
                    (case child of
                       DecisionObject i \<Rightarrow> (Some (Errorf ''cannot append foreign object'' []), c)
                     | RegistryObject childType childTarget w \<Rightarrow>
                         (let members = pd_Members (pr_Desc p) in
                          if members \<noteq> [] \<and> childType \<notin> set members
                          then (Some (Errorf ''%s: members must be one of %s; got %s'' [slot, commaJoin members, childType]), c)
                          else accept t childTarget c)))))"

subsection \<open>The other methods\<close>

definition AskTarget where
  "AskTarget ifs n t question args out c =
     (case if_Ask ifs t of
        None \<Rightarrow> (Some (Errorf ''ask: a %s answers no questions'' [n]), c)
      | Some ask \<Rightarrow> ask question args out c)"

definition DoTarget where
  "DoTarget ifs n t action args c =
     (case if_Do ifs t of
        None \<Rightarrow> (Some (Errorf ''do: a %s does nothing'' [n]), c)
      | Some act \<Rightarrow> act action args c)"

definition DestroyTarget where
  "DestroyTarget reg n t c =
     (case Option.bind (Mapping.lookup (regTypes reg) n) ts_Destroy of
        None \<Rightarrow> (Some (Errorf ''this type does not support destroy'' []), c)
      | Some destroy \<Rightarrow> destroy t c)"

definition contextControl ::
  "('h, 'k, ('h, 'a, 'k, 'o, 'm) session_scheme) host \<Rightarrow> ('h, 'a, 'k, 'o, 'm) session_scheme EventControl" where
  "contextControl ho =
     \<lparr>ec_Subscribe = Subscribe (ho_hook ho), ec_Unsubscribe = Unsubscribe,
      ec_enter = (\<lambda>c. c\<lparr>suppress := suppress c + 1\<rparr>), ec_leave = (\<lambda>c. c\<lparr>suppress := suppress c - 1\<rparr>)\<rparr>"

definition registryFactory ::
  "('t, ('h, 'a, 'k, 't object, 'm) session_scheme) registry \<Rightarrow> ('t, 'a, ('h, 'a, 'k, 't object, 'm) session_scheme) interfaces
   \<Rightarrow> ('h, 'k, ('h, 'a, 'k, 't object, 'm) session_scheme) host
   \<Rightarrow> ('t object, ('h, 'a, 'k, 't object, 'm) session_scheme) Factory" where
  "registryFactory reg ifs ho =
     \<lparr>f_New = NewObject reg ifs ho,
      f_ID = ObjectID reg,
      f_Set = SetProperty reg,
      f_Append = AppendChild reg,
      f_Destroy = (\<lambda>o'. case o' of RegistryObject n t v \<Rightarrow> Some (DestroyTarget reg n t) | DecisionObject i \<Rightarrow> None),
      f_Ask = (\<lambda>o'. case o' of RegistryObject n t v \<Rightarrow> Some (AskTarget ifs n t) | DecisionObject i \<Rightarrow> None),
      f_Do = (\<lambda>o'. case o' of
                RegistryObject n t v \<Rightarrow> Some (DoTarget ifs n t)
              | DecisionObject i \<Rightarrow> Some (\<lambda>action args. DecideDo (ho_services ho) (ho_react ho) i action)),
      f_Control = Some (contextControl ho),
      f_Answers = Some (\<lambda>key. Some (newAnswers key))\<rparr>"

text \<open>Adopting and dropping a decision, as the display does it (\<open>display/display.go\<close>): the session lists it
  while it is open.\<close>

definition adoptDecision :: "u64 \<Rightarrow> ('h, 'a, 'k, 't object, 'm) session_scheme \<Rightarrow> ('h, 'a, 'k, 't object, 'm) session_scheme" where
  "adoptDecision i c = c\<lparr>objects := (objects c)(i \<mapsto> DecisionObject i)\<rparr>"


subsection \<open>The contract of the registered types\<close>

text \<open>What the code of the registered types must keep to: it leaves the client's dictionaries alone, and
  making, setting and appending take no object away. Decisions may come and go with it.\<close>

locale registered_types =
  fixes reg :: "('t, ('h, 'a, 'k, 't object, 'm) session_scheme) registry"
    and ifs :: "('t, 'a, ('h, 'a, 'k, 't object, 'm) session_scheme) interfaces"
    and ho :: "('h, 'k, ('h, 'a, 'k, 't object, 'm) session_scheme) host"
  assumes construct_grows: "Mapping.lookup (regTypes reg) n = Some d \<Longrightarrow> ts_New d = Some construct \<Longrightarrow> construct c = (t, c')
      \<Longrightarrow> grew (registryFactory reg ifs ho) c c'"
    and bind_grows: "Mapping.lookup (regTypes reg) n = Some d \<Longrightarrow> ts_Bind d = Some bind \<Longrightarrow> grew (registryFactory reg ifs ho) c (bind t c)"
    and apply_grows: "propertyOf reg n name = Some p \<Longrightarrow> pr_Apply p = Some apply \<Longrightarrow> apply t v flag c = (e, c')
      \<Longrightarrow> grew (registryFactory reg ifs ho) c c'"
    and accept_grows: "propertyOf reg n name = Some p \<Longrightarrow> pr_Accept p = Some accept \<Longrightarrow> accept t t' c = (e, c')
      \<Longrightarrow> grew (registryFactory reg ifs ho) c c'"
    and destroying_tame: "Mapping.lookup (regTypes reg) n = Some d \<Longrightarrow> ts_Destroy d = Some destroy \<Longrightarrow> destroy t c = (e, c')
      \<Longrightarrow> tame (registryFactory reg ifs ho) c c'"
    and asking_tame: "if_Ask ifs t = Some ask \<Longrightarrow> ask q args out c = (e, c') \<Longrightarrow> tame (registryFactory reg ifs ho) c c'"
    and doing_tame: "if_Do ifs t = Some act \<Longrightarrow> act q args c = (e, c') \<Longrightarrow> tame (registryFactory reg ifs ho) c c'"
    and aware_grows: "if_SetWireID ifs t = Some tell \<Longrightarrow> grew (registryFactory reg ifs ho) c (tell i c)"
    and virtualID_grows: "ho_virtualID ho c = (i, c') \<Longrightarrow> grew (registryFactory reg ifs ho) c c'"
    and hook_tame: "tame (registryFactory reg ifs ho) c (ho_hook ho h c)"
    and drop_tame: "svc_Drop (ho_services ho) = Some dropID \<Longrightarrow> tame (registryFactory reg ifs ho) c (dropID i c)"
    and react_tame: "tame (registryFactory reg ifs ho) c (ho_react ho k verdict c)"
begin

abbreviation fac where "fac \<equiv> registryFactory reg ifs ho"

lemma tame_trans: "tame fac a b \<Longrightarrow> tame fac b c \<Longrightarrow> tame fac a c"
  by (rule transpD[OF tame_preorder(2)])

lemma grew_same:
  "aliases c' = aliases c \<Longrightarrow> templates c' = templates c \<Longrightarrow> skeys c' = skeys c \<Longrightarrow> objects c' = objects c \<Longrightarrow> grew fac c c'"
  by (simp add: grew_def tame_def wired_def)

lemma tame_same:
  "aliases c' = aliases c \<Longrightarrow> templates c' = templates c \<Longrightarrow> skeys c' = skeys c \<Longrightarrow> objects c' = objects c \<Longrightarrow> tame fac c c'"
  by (simp add: tame_def wired_def)

lemma fold_tame: "(\<And>h c. tame fac c (f h c)) \<Longrightarrow> tame fac c (fold f hs c)"
  by (induction hs arbitrary: c) (auto intro: tame_trans)

lemma NewObject_grows: "NewObject reg ifs ho n c = (r, c') \<Longrightarrow> grew fac c c'"
proof -
  assume new: "NewObject reg ifs ho n c = (r, c')"
  show ?thesis
  proof (cases "\<exists>d construct. Mapping.lookup (regTypes reg) n = Some d \<and> \<not> ts_Hosted d \<and> ts_New d = Some construct")
    case False
    then show ?thesis using new by (auto simp: NewObject_def split: option.splits if_splits)
  next
    case True
    then obtain d construct where d: "Mapping.lookup (regTypes reg) n = Some d" "\<not> ts_Hosted d" "ts_New d = Some construct" by blast
    obtain t c1 where c1: "construct c = (t, c1)" by fastforce
    obtain i c2 where c2: "(if ts_Virtual d then ho_virtualID ho c1 else (0, c1)) = (i, c2)" by fastforce
    define c3 where "c3 = (if ts_Virtual d
        then RegisterRef i (if_any ifs t) (case if_SetWireID ifs t of None \<Rightarrow> c2 | Some tell \<Rightarrow> tell i c2) else c2)"
    have "grew fac c c1" by (rule construct_grows[OF d(1,3) c1])
    moreover have "grew fac c1 c2" using c2 virtualID_grows by (auto split: if_splits)
    moreover have "grew fac c2 c3"
    proof (cases "ts_Virtual d")
      case True
      have told: "grew fac c2 (case if_SetWireID ifs t of None \<Rightarrow> c2 | Some tell \<Rightarrow> tell i c2)"
        using aware_grows by (simp split: option.split)
      have "grew fac x (RegisterRef i (if_any ifs t) x)" for x by (rule grew_same) (simp_all add: RegisterRef_def)
      then show ?thesis unfolding c3_def using True grew_trans[OF told] by simp
    qed (simp add: c3_def)
    moreover have "grew fac c3 c'"
    proof (cases "ts_Bind d")
      case None then show ?thesis using new d c1 c2 by (simp add: NewObject_def Let_def c3_def)
    next
      case (Some bind)
      then have "c' = bind t c3" using new d c1 c2 by (simp add: NewObject_def Let_def c3_def)
      then show ?thesis using bind_grows[OF d(1) Some] by simp
    qed
    ultimately show ?thesis using grew_trans by blast
  qed
qed

lemma SetProperty_grows: "SetProperty reg o' n v flag c = (e, c') \<Longrightarrow> grew fac c c'"
  by (auto simp: SetProperty_def intro: apply_grows split: object.splits option.splits)

lemma AppendChild_grows: "AppendChild reg o' n child c = (e, c') \<Longrightarrow> grew fac c c'"
  by (auto simp: AppendChild_def Let_def intro: accept_grows split: object.splits option.splits if_splits)

lemma settle_tame: "tame fac c (settle (ho_services ho) (ho_react ho) v i c)"
proof (cases "heap c i")
  case None then show ?thesis by (simp add: settle_def)
next
  case (Some d)
  let ?c1 = "c\<lparr>heap := (heap c)(i \<mapsto> d\<lparr>dc_then := None, timer := False\<rparr>),
      ticking := (if timer d then ticking c - {(i, armed d)} else ticking c)\<rparr>"
  have c1: "tame fac c ?c1" by (rule tame_same) simp_all
  have f: "tame fac x (forget (ho_services ho) i x)" for x
  proof -
    have "tame fac x (x\<lparr>decisions := decisions x - {i}\<rparr>)" by (rule tame_same) simp_all
    then show ?thesis unfolding forget_def Let_def using drop_tame tame_trans by (auto split: option.split)
  qed
  have a: "tame fac x (announcing (ho_react ho k v) x)" for k x
  proof -
    have "tame fac x (x\<lparr>suppress := 0\<rparr>)" "tame fac y (y\<lparr>suppress := n\<rparr>)" for y n by (rule tame_same, simp_all)+
    then show ?thesis unfolding announcing_def Let_def using react_tame tame_trans by blast
  qed
  show ?thesis
  proof (cases "dc_then d")
    case None then show ?thesis using c1 Some by (cases "timer d") (simp_all add: settle_def Let_def)
  next
    case (Some k)
    have "tame fac c (announcing (ho_react ho k v) (forget (ho_services ho) i ?c1))" using c1 f a tame_trans by blast
    then show ?thesis using Some \<open>heap c i = Some d\<close> by (cases "timer d") (simp_all add: settle_def Let_def)
  qed
qed

lemma DecideDo_tame: "DecideDo (ho_services ho) (ho_react ho) i action c = (e, c') \<Longrightarrow> tame fac c c'"
proof -
  have "tame fac c (Decisions.extend i c)" by (rule tame_same) (simp_all add: Decisions.extend_def arm_def Let_def split: option.split)
  then show "DecideDo (ho_services ho) (ho_react ho) i action c = (e, c') \<Longrightarrow> tame fac c c'"
    using settle_tame by (auto simp: DecideDo_def split: if_splits)
qed

lemma Subscribe_tame: "tame fac c (Subscribe (ho_hook ho) i t c)"
proof -
  have "tame fac c (addSub i t c)" by (rule tame_same) (simp_all add: addSub_def)
  then show ?thesis unfolding Subscribe_def by (rule tame_trans) (rule fold_tame, rule hook_tame)
qed

lemma Unsubscribe_tame: "tame fac c (Unsubscribe i t c)"
  by (rule tame_same) (simp_all add: Unsubscribe_def Let_def split: option.split)

lemma factory_simps [simp]:
  "f_New fac = NewObject reg ifs ho" "f_ID fac = ObjectID reg" "f_Set fac = SetProperty reg" "f_Append fac = AppendChild reg"
  "f_Control fac = Some (contextControl ho)" "f_Answers fac = Some (\<lambda>key. Some (newAnswers key))"
  by (simp_all add: registryFactory_def)

lemma registry_mannered: "well_mannered fac"
proof unfold_locales
  show "grew fac c c'" if "f_New fac t c = (r, c')" for t c r c' using that NewObject_grows by simp
  show "grew fac c c'" if "f_Set fac obj n v fl c = (e, c')" for obj n v fl c e c' using that SetProperty_grows by simp
  show "grew fac c c'" if "f_Append fac obj n child c = (e, c')" for obj n child c e c' using that AppendChild_grows by simp
  show "tame fac c c'" if "f_Ask fac obj = Some ask" "ask q args out c = (e, c')" for obj ask q args out c e c'
    using that asking_tame by (auto simp: registryFactory_def AskTarget_def split: object.splits option.splits)
  show "tame fac c c'" if "f_Do fac obj = Some act" "act q args c = (e, c')" for obj act q args c e c'
    using that doing_tame DecideDo_tame by (auto simp: registryFactory_def DoTarget_def split: object.splits option.splits)
  show "tame fac c c'" if "f_Destroy fac obj = Some destroy" "destroy c = (e, c')" for obj destroy c e c'
    using that destroying_tame
    by (auto simp: registryFactory_def DestroyTarget_def bind_eq_Some_conv split: object.splits option.splits)
  show "tame fac c (ec_Subscribe ec i t c) \<and> tame fac c (ec_Unsubscribe ec i t c)" if "f_Control fac = Some ec" for ec i t c
    using that Subscribe_tame Unsubscribe_tame by (auto simp: contextControl_def)
  show "grew fac c (ec_enter ec c) \<and> grew fac c (ec_leave ec c)" if "f_Control fac = Some ec" for ec c
    using that by (auto simp: contextControl_def intro!: grew_same)
qed

end

sublocale registered_types \<subseteq> registry_factory: well_mannered "registryFactory reg ifs ho"
  by (rule registry_mannered)

end
