(* ===== verification/Trinkets.thy ===== *)
theory Trinkets
  imports RegistryFactory
begin

text \<open>
  One application's connection with trinkets on it: the services the display gives a connection
  (\<open>display/display.go\<close>), the shared shapes of a trinket's registration (\<open>objects/trinkets/protocol_reg.go\<close>),
  the checkbox with its binding, and the views that ask about a refusal (\<open>objects/trinkets/trouble.go\<close>).
  What was assumed of factories and askers is proved here of these.
\<close>

subsection \<open>Trinkets\<close>

text \<open>A trinket is known by its object id. Painting, layout and focus are outside the model, and with them
  \<open>Update\<close> and \<open>InvalidateLayout\<close>. Of a parent only its Go type is kept and whether it removes children.\<close>

datatype CheckState = Unchecked | PartiallyChecked | Checked

text \<open>\<open>cb_bound\<close>: \<open>onStateChanged\<close> is the handler its binding set. \<open>onToggled\<close> belongs to programs that build
  a checkbox in Go and is nil here.\<close>

record Checkbox =
  cb_text :: string
  cb_accessibleName :: string
  cb_checked :: bool
  cb_triState :: bool
  cb_wordWrap :: bool
  cb_checkState :: CheckState
  cb_bound :: bool
  cb_parent :: "(string \<times> bool) option"

record ViewTrouble =
  Reason :: string
  At :: u64

definition NoTrouble :: ViewTrouble where "NoTrouble = \<lparr>Reason = [], At = 0\<rparr>"

definition AnyTrouble :: "ViewTrouble \<Rightarrow> bool" where "AnyTrouble t \<longleftrightarrow> Reason t \<noteq> []"

text \<open>\<open>announced\<close>: the view is bound to a connection. \<open>onTrouble\<close> is a handler of a Go program.\<close>

record troubled =
  trouble :: ViewTrouble
  onTrouble :: "(ViewTrouble \<Rightarrow> bool) option"
  announced :: bool
  handled :: bool
  deciding :: bool
  quiet :: bool

text \<open>A decision's asker: the view and the refusal its closure holds.\<close>

type_synonym asker = "u64 \<times> ViewTrouble"

text \<open>The connection: the next id comes from \<open>lastObjectID\<close>; \<open>outgoing\<close> is the queue of statements to write;
  \<open>finished\<close> that the connection has ended; \<open>hungUp\<close> that its socket was dropped.\<close>

record conn = "(unit, u64, asker, u64 object) session" +
  lastObjectID :: u64
  boxes :: "u64 \<Rightarrow> Checkbox option"
  views :: "u64 \<Rightarrow> troubled option"
  outgoing :: "string list"
  finished :: bool
  hungUp :: bool

definition NextObjectID :: "conn \<Rightarrow> u64 \<times> conn" where
  "NextObjectID c = (lastObjectID c + 1, c\<lparr>lastObjectID := lastObjectID c + 1\<rparr>)"

subsection \<open>What a connection is given\<close>

text \<open>A connection that has just been accepted.\<close>

definition NewConn :: conn where
  "NewConn =
     \<lparr>actions = Map.empty, subs = Map.empty, onSub = (\<lambda>i t. []), suppress = 0, stash = Map.empty, refs = Map.empty,
      heap = Map.empty, decisions = {}, gone = False, ticking = {}, posted = [],
      aliases = Map.empty, templates = fmempty, skeys = Map.empty, objects = Map.empty, objectTypes = Map.empty,
      lastObjectID = 0, boxes = Map.empty, views = Map.empty, outgoing = [], finished = False, hungUp = False\<rparr>"

definition send :: "string \<Rightarrow> conn \<Rightarrow> conn" where
  "send statement c =
     (if finished c then c
      else if List.length (outgoing c) < 1024 then c\<lparr>outgoing := outgoing c @ [statement]\<rparr>
      else c\<lparr>hungUp := True\<rparr>)"

definition connServices :: "conn services" where
  "connServices =
     \<lparr>svc_Dispatch = None,
      svc_Emit = Some (\<lambda>ev. send (EncodeEvent ev)),
      svc_Answer = Some (\<lambda>a. send (EncodeAnswer a)),
      svc_Adopt = Some adoptDecision,
      svc_Drop = Some sforget,
      svc_Post = True\<rparr>"

text \<open>\<open>Deciding\<close> on a connection, its decision taking the next id.\<close>

definition DecidingOn :: "Event \<Rightarrow> int \<Rightarrow> asker \<Rightarrow> conn \<Rightarrow> u64 option \<times> conn" where
  "DecidingOn ev patience k c =
     (case Deciding connServices (lastObjectID c + 1) ev patience k c of
        (None, c') \<Rightarrow> (None, c')
      | (Some i, c') \<Rightarrow> (Some i, c'\<lparr>lastObjectID := i\<rparr>))"

subsection \<open>Refusals a view was told of (\<open>objects/trinkets/trouble.go\<close>)\<close>

definition showsTrouble :: "troubled \<Rightarrow> bool" where
  "showsTrouble v \<longleftrightarrow> AnyTrouble (trouble v) \<and> \<not> quiet v \<and> \<not> handled v \<and> \<not> deciding v"

definition SetShowsTrouble :: "bool \<Rightarrow> troubled \<Rightarrow> troubled" where
  "SetShowsTrouble yes v = v\<lparr>quiet := \<not> yes\<rparr>"

definition ShowsTrouble :: "troubled \<Rightarrow> bool" where "ShowsTrouble v \<longleftrightarrow> \<not> quiet v"

definition SetOnTrouble :: "(ViewTrouble \<Rightarrow> bool) option \<Rightarrow> troubled \<Rightarrow> troubled" where
  "SetOnTrouble fn v = v\<lparr>onTrouble := fn\<rparr>"

definition decidedTrouble :: "ViewTrouble \<Rightarrow> bool \<Rightarrow> troubled \<Rightarrow> bool \<times> troubled" where
  "decidedTrouble t yes v =
     (if \<not> deciding v \<or> trouble v \<noteq> t then (False, v)
      else (let v' = v\<lparr>deciding := False, handled := yes\<rparr> in (showsTrouble v' \<noteq> showsTrouble v, v')))"

definition troubleDecision :: int where "troubleDecision = 250 * 1000000"

text \<open>What the binding of a list or a tree announces a refusal with, and what it does with the verdict.\<close>

definition troubleEvent :: "u64 \<Rightarrow> ViewTrouble \<Rightarrow> Event" where
  "troubleEvent i t = WithInt ''at'' (At t) (WithString ''text'' (Reason t) (WithUint ''trinket'' i (NewEvent ''trouble'')))"

definition announceTrouble :: "u64 \<Rightarrow> ViewTrouble \<Rightarrow> conn \<Rightarrow> bool \<times> conn" where
  "announceTrouble i t c = (let (d, c') = DecidingOn (troubleEvent i t) troubleDecision (i, t) c in (d \<noteq> None, c'))"

definition troubleVerdict :: "asker \<Rightarrow> Verdict \<Rightarrow> conn \<Rightarrow> conn" where
  "troubleVerdict k verdict c =
     (case views c (fst k) of
        None \<Rightarrow> c
      | Some v \<Rightarrow> c\<lparr>views := (views c)(fst k \<mapsto> snd (decidedTrouble (snd k) (Said verdict \<and> \<not> Allowed verdict) v))\<rparr>)"

text \<open>What a view is when it is told: nothing is handled or decided about this one yet, unless its handler says so.\<close>

definition toldView :: "ViewTrouble \<Rightarrow> troubled \<Rightarrow> troubled" where
  "toldView t v =
     (let v1 = v\<lparr>trouble := t, handled := False, deciding := False\<rparr> in
      if AnyTrouble t \<and> (case onTrouble v1 of None \<Rightarrow> False | Some fn \<Rightarrow> fn t) then v1\<lparr>handled := True\<rparr> else v1)"

definition took :: "u64 \<Rightarrow> ViewTrouble \<Rightarrow> conn \<Rightarrow> bool \<times> conn" where
  "took i t c =
     (case views c i of
        None \<Rightarrow> (False, c)
      | Some v \<Rightarrow>
          (if trouble v = t then (False, c)
           else
             (let c1 = c\<lparr>views := (views c)(i \<mapsto> toldView t v)\<rparr> in
              if AnyTrouble t \<and> announced v
              then (let (asked, c2) = announceTrouble i t c1 in
                    (True, c2\<lparr>views := (views c2)(i \<mapsto> (toldView t v)\<lparr>deciding := asked\<rparr>)\<rparr>))
              else (True, c1))))"

definition untroubled :: "u64 \<Rightarrow> conn \<Rightarrow> bool \<times> conn" where
  "untroubled i = took i NoTrouble"


subsection \<open>Shapes of registration (\<open>objects/trinkets/protocol_reg.go\<close>)\<close>

text \<open>\<open>wprop\<close>: \<open>is\<close> is the type assertion on the target and \<open>goType\<close> what \<open>%T\<close> prints.\<close>

definition wprop ::
  "('t \<Rightarrow> 'c \<Rightarrow> bool) \<Rightarrow> ('t \<Rightarrow> string) \<Rightarrow> string \<Rightarrow> ('t \<Rightarrow> wvalue option \<Rightarrow> flagState \<Rightarrow> 'c \<Rightarrow> goError option \<times> 'c)
   \<Rightarrow> 't \<Rightarrow> wvalue option \<Rightarrow> flagState \<Rightarrow> 'c \<Rightarrow> goError option \<times> 'c" where
  "wprop is goType name fn target v f c =
     (if is target c then fn target v f c else (Some (Errorf ''%s: wrong target type %T'' [name, goType target]), c))"

text \<open>The common step of the typed shapes: read the value, and set what was read.\<close>

definition setting :: "(goError + 'v) \<Rightarrow> ('v \<Rightarrow> 'c \<Rightarrow> 'c) \<Rightarrow> 'c \<Rightarrow> goError option \<times> 'c" where
  "setting read put c = (case read of Inl e \<Rightarrow> (Some e, c) | Inr x \<Rightarrow> (None, put x c))"

definition stringProp where
  "stringProp is goType name put =
     NewProperty ''string'' (wprop is goType name (\<lambda>w v f. setting (AsString name v f) (put w)))"

definition boolProp where
  "boolProp is goType name put =
     NewProperty ''flag'' (wprop is goType name (\<lambda>w v f. setting (AsBool name v f) (put w)))"

definition intProp where
  "intProp is goType name put =
     NewProperty ''int'' (wprop is goType name (\<lambda>w v f. setting (AsInt name v f) (put w)))"

definition setAction :: "string \<Rightarrow> u64 \<Rightarrow> wvalue option \<Rightarrow> flagState \<Rightarrow> conn \<Rightarrow> goError option \<times> conn" where
  "setAction name w v f c =
     (case AsWord name v f of
        Inl e \<Rightarrow> (Some e, c)
      | Inr command \<Rightarrow>
          (if svc_Dispatch connServices = None \<and> svc_Emit connServices = None
           then (Some (Errorf ''%s: no command dispatcher on this connection'' [name]), c)
           else (None, SetAction w command c)))"

definition actionProp where
  "actionProp is goType name = NewProperty ''action'' (wprop is goType name (setAction name))"

text \<open>\<open>destroyTrinket\<close>, for a checkbox: the container lets go of it.\<close>

definition destroyBox :: "u64 \<Rightarrow> conn \<Rightarrow> goError option \<times> conn" where
  "destroyBox w c =
     (case Option.bind (boxes c w) cb_parent of
        None \<Rightarrow> (None, c)
      | Some (goType, removes) \<Rightarrow>
          (if removes then (None, c\<lparr>boxes := (boxes c)(w := map_option (\<lambda>b. b\<lparr>cb_parent := None\<rparr>) (boxes c w))\<rparr>)
           else (Some (Errorf ''destroy: parent %T does not support child removal'' [goType]), c)))"

subsection \<open>The checkbox (\<open>objects/trinkets/checkbox.go\<close>, \<open>checkbox_protocol.go\<close>)\<close>

definition NewCheckbox :: "string \<Rightarrow> Checkbox" where
  "NewCheckbox caption =
     \<lparr>cb_text = caption, cb_accessibleName = caption, cb_checked = False, cb_triState = False, cb_wordWrap = False,
      cb_checkState = Unchecked, cb_bound = False, cb_parent = None\<rparr>"

definition onBox :: "(Checkbox \<Rightarrow> Checkbox) \<Rightarrow> u64 \<Rightarrow> conn \<Rightarrow> conn" where
  "onBox f w c = c\<lparr>boxes := (boxes c)(w := map_option f (boxes c w))\<rparr>"

definition SetText :: "u64 \<Rightarrow> string \<Rightarrow> conn \<Rightarrow> conn" where
  "SetText w caption = onBox (\<lambda>b. b\<lparr>cb_text := caption, cb_accessibleName := caption\<rparr>) w"

definition SetWordWrap :: "u64 \<Rightarrow> bool \<Rightarrow> conn \<Rightarrow> conn" where
  "SetWordWrap w wrap = onBox (\<lambda>b. b\<lparr>cb_wordWrap := wrap\<rparr>) w"

definition stateFlag :: "CheckState \<Rightarrow> flagState" where
  "stateFlag s = (case s of Checked \<Rightarrow> FlagTrue | PartiallyChecked \<Rightarrow> FlagIndeterminate | Unchecked \<Rightarrow> FlagFalse)"

definition toggleEvent :: "u64 \<Rightarrow> CheckState \<Rightarrow> Event" where
  "toggleEvent i s = WithFlag ''checked'' (stateFlag s) (WithUint ''trinket'' i (NewEvent ''toggle''))"

text \<open>The handler the binding sets: the command first, the event after.\<close>

definition stateChanged :: "u64 \<Rightarrow> CheckState \<Rightarrow> conn \<Rightarrow> conn" where
  "stateChanged i s c = EmitEvent connServices (toggleEvent i s) (FireAction connServices i c)"

definition SetCheckState :: "u64 \<Rightarrow> CheckState \<Rightarrow> conn \<Rightarrow> conn" where
  "SetCheckState w s c =
     (case boxes c w of
        None \<Rightarrow> c
      | Some b \<Rightarrow>
          (if cb_checkState b = s then c
           else (let c1 = onBox (\<lambda>b. b\<lparr>cb_checkState := s, cb_checked := (s = Checked)\<rparr>) w c in
                 if cb_bound b then stateChanged w s c1 else c1)))"

definition SetChecked :: "u64 \<Rightarrow> bool \<Rightarrow> conn \<Rightarrow> conn" where
  "SetChecked w yes = SetCheckState w (if yes then Checked else Unchecked)"

definition IsChecked :: "Checkbox \<Rightarrow> bool" where "IsChecked b \<longleftrightarrow> cb_checkState b = Checked"

definition SetTriState :: "u64 \<Rightarrow> bool \<Rightarrow> conn \<Rightarrow> conn" where
  "SetTriState w triState c =
     (let c1 = onBox (\<lambda>b. b\<lparr>cb_triState := triState\<rparr>) w c in
      case boxes c1 w of
        None \<Rightarrow> c1
      | Some b \<Rightarrow> (if \<not> triState \<and> cb_checkState b = PartiallyChecked then SetCheckState w Unchecked c1 else c1))"

definition toggled :: "Checkbox \<Rightarrow> CheckState" where
  "toggled b =
     (case cb_checkState b of
        Unchecked \<Rightarrow> Checked
      | Checked \<Rightarrow> (if cb_triState b then PartiallyChecked else Unchecked)
      | PartiallyChecked \<Rightarrow> Unchecked)"

definition Toggle :: "u64 \<Rightarrow> conn \<Rightarrow> conn" where
  "Toggle w c = (case boxes c w of None \<Rightarrow> c | Some b \<Rightarrow> SetCheckState w (toggled b) c)"

definition HandleKeyPress :: "bool \<Rightarrow> u64 \<Rightarrow> conn \<Rightarrow> bool \<times> conn" where
  "HandleKeyPress activates w c = (if activates then (True, Toggle w c) else (False, c))"

definition HandleMousePress :: "bool \<Rightarrow> u64 \<Rightarrow> conn \<Rightarrow> bool \<times> conn" where
  "HandleMousePress leftButton w c = (if leftButton then (True, Toggle w c) else (False, c))"

definition setCheckedProperty :: "u64 \<Rightarrow> wvalue option \<Rightarrow> flagState \<Rightarrow> conn \<Rightarrow> goError option \<times> conn" where
  "setCheckedProperty w v f c =
     (case f of
        FlagTrue \<Rightarrow> (None, SetCheckState w Checked c)
      | FlagFalse \<Rightarrow> (None, SetCheckState w Unchecked c)
      | FlagIndeterminate \<Rightarrow> (None, SetCheckState w PartiallyChecked c)
      | FlagNone \<Rightarrow>
          (case AsWord ''checked'' v f of
             Inl e \<Rightarrow> (Some e, c)
           | Inr word \<Rightarrow>
               (if word = ''true'' then (None, SetCheckState w Checked c)
                else if word = ''false'' then (None, SetCheckState w Unchecked c)
                else if word = ''mixed'' then (None, SetCheckState w PartiallyChecked c)
                else (Some (Errorf ''checked: unknown value %q'' [word]), c))))"

definition isBox :: "u64 \<Rightarrow> conn \<Rightarrow> bool" where "isBox w c \<longleftrightarrow> boxes c w \<noteq> None"

definition boxType :: "u64 \<Rightarrow> string" where "boxType w = ''*trinkets.Checkbox''"

definition bindCheckbox :: "u64 \<Rightarrow> conn \<Rightarrow> conn" where
  "bindCheckbox w = onBox (\<lambda>b. b\<lparr>cb_bound := True\<rparr>) w"

text \<open>What the descriptors say for people.\<close>

definition captionTip :: string where "captionTip = ''Checkbox label text.''"
definition checkedTip :: string where "checkedTip = ''Checked state (tri-capable: on/off/mixed).''"
definition tristateTip :: string where "tristateTip = ''Allow clicking through the mixed state.''"
definition wrapTip :: string where "wrapTip = ''Word-wrap the label.''"
definition actionTip :: string where "actionTip = ''Optional command dispatched on toggle.''"
definition actionFieldDoc :: string where "actionFieldDoc = ''The command ID from action=.''"
definition commandDoc :: string where "commandDoc = ''The command named by action= was activated. Raised only when action= is set, and before the toggle event, so a client may act on either. Carries the command rather than the trinket, because a command is what an application binds to and the same one may be reachable from several places.''"
definition checkedFieldDoc :: string where "checkedFieldDoc = ''The new state: set, unset, or indeterminate on a tristate box.''"
definition trinketFieldDoc :: string where "trinketFieldDoc = ''The checkbox's object ID.''"
definition toggleDoc :: string where "toggleDoc = ''The checked state changed.''"
definition allowDoc :: string where "allowDoc = ''Let the display do the thing it asked about. The event that carried this decision says what that thing is.''"
definition denyDoc :: string where "denyDoc = ''Do not. A decision denied is one the application has taken on itself: the window stays open, the refusal is not drawn.''"
definition waitingDoc :: string where "waitingDoc = ''Not an answer: the answer is a person's, a dialog is up, and somebody is reading it. It buys another `within` milliseconds, and has to keep coming to keep counting -- send one every half of `within` while the question is on the screen. Only a running application can send it, which is the whole reason the display believes it.''"

definition checkboxType :: "(u64, conn) TypeSpec" where
  "checkboxType =
     \<lparr>ts_New = Some (\<lambda>c. let (i, c1) = NextObjectID c in (i, c1\<lparr>boxes := (boxes c1)(i \<mapsto> NewCheckbox [])\<rparr>)),
      ts_Props = Mapping.of_alist
        [(''caption'', Tip captionTip (stringProp isBox boxType ''caption'' SetText)),
         (''checked'', Tip checkedTip
            (NewProperty ''flag'' (wprop isBox boxType ''checked'' setCheckedProperty))),
         (''tristate'', Def ''false'' (Tip tristateTip (boolProp isBox boxType ''tristate'' SetTriState))),
         (''wrap'', Def ''false'' (Tip wrapTip (boolProp isBox boxType ''wrap'' SetWordWrap))),
         (''action'', Tip actionTip (actionProp isBox boxType ''action''))],
      ts_Bind = Some bindCheckbox,
      ts_Asks = Mapping.empty,
      ts_Does = Mapping.empty,
      ts_Events = Mapping.of_alist
        [(''command'', EventField ''action'' ''word'' actionFieldDoc
            (NewEventDesc commandDoc)),
         (''toggle'', EventField ''checked'' ''flag'' checkedFieldDoc
            (EventField ''trinket'' ''uint'' trinketFieldDoc (NewEventDesc toggleDoc)))],
      ts_ID = Some (\<lambda>w. w),
      ts_Destroy = Some destroyBox,
      ts_Virtual = False,
      ts_Hosted = False\<rparr>"

text \<open>The type of a decision (\<open>protocol/decisions.go\<close>), which only the display mints.\<close>

definition decisionType :: "(u64, conn) TypeSpec" where
  "decisionType =
     \<lparr>ts_New = None, ts_Props = Mapping.empty, ts_Bind = None, ts_Asks = Mapping.empty,
      ts_Does = Mapping.of_alist
        [(''allow'', NewCallDesc allowDoc),
         (''deny'', NewCallDesc denyDoc),
         (''waiting'', NewCallDesc waitingDoc)],
      ts_Events = Mapping.empty, ts_ID = Some (\<lambda>w. w), ts_Destroy = None, ts_Virtual = True, ts_Hosted = True\<rparr>"

text \<open>What a program with checkboxes registers (the properties every trinket has, of size, colour and place, are
  left out), and the factory of its connections.\<close>

definition trinketRegistry :: "(u64, conn) registry" where
  "trinketRegistry =
     \<lparr>regTypes = Mapping.of_alist [(''checkbox'', checkboxType), (''decision'', decisionType)], regCommon = Mapping.empty\<rparr>"

definition trinketInterfaces :: "(u64, u64, conn) interfaces" where
  "trinketInterfaces = \<lparr>if_Ask = (\<lambda>t. None), if_Do = (\<lambda>t. None), if_SetWireID = (\<lambda>t. None), if_any = (\<lambda>t. t)\<rparr>"

definition trinketHost :: "(unit, asker, conn) host" where
  "trinketHost = \<lparr>ho_services = connServices, ho_hook = (\<lambda>h c. c), ho_react = troubleVerdict, ho_virtualID = NextObjectID\<rparr>"

definition trinketFactory :: "(u64 object, conn) Factory" where
  "trinketFactory = registryFactory trinketRegistry trinketInterfaces trinketHost"

lemmas trinket_defs = trinketRegistry_def trinketInterfaces_def trinketHost_def trinketFactory_def connServices_def

lemma registered_types_are: "Mapping.lookup (regTypes trinketRegistry) n = Some d \<Longrightarrow>
    n = ''decision'' \<and> d = decisionType \<or> n = ''checkbox'' \<and> d = checkboxType"
  by (auto simp: trinketRegistry_def Mapping.lookup_of_alist split: if_splits)

lemmas builder_defs = stringProp_def boolProp_def intProp_def actionProp_def NewProperty_def NewCollection_def Tip_def Def_def As_def OneOf_def

lemma trinkets_registered:
  "Option.bind (RegisterType ''decision'' (Some decisionType) emptyRegistry) (RegisterType ''checkbox'' (Some checkboxType)) = Some trinketRegistry"
  by (simp add: RegisterType_def isLowerInitial_def lowerCase_def decisionType_def checkboxType_def emptyRegistry_def lookup_of_alist
      lookup_empty lookup_update' checkPropertyShape_def builder_defs trinketRegistry_def of_alist_def)

subsection \<open>The contracts hold\<close>

text \<open>The tables of the session, which the code of trinkets does not touch.\<close>

definition tables :: "('h, 'a, 'k, 'o, 'm) session_scheme \<Rightarrow> (string \<Rightarrow> string option) \<times> (string, templateDef) fmap \<times> (string \<Rightarrow> u64 option) \<times> (u64 \<Rightarrow> 'o option)" where
  "tables c = (aliases c, templates c, skeys c, objects c)"

lemma tables_grew: "tables c' = tables c \<Longrightarrow> grew fac c c'"
  by (simp add: tables_def grew_def tame_def wired_def)

lemma held_send [simp]: "held (send s c) = held c"
  by (simp add: send_def held_def)

lemma tables_send [simp]: "tables (send s c) = tables c"
  by (simp add: send_def tables_def)

lemma tables_EmitEvent [simp]: "tables (EmitEvent connServices ev c) = tables c"
  by (simp add: EmitEvent_def connServices_def Let_def)

lemma tables_FireAction [simp]: "tables (FireAction connServices i c) = tables c"
  by (simp add: FireAction_def Let_def connServices_def) (simp add: connServices_def[symmetric])

lemma tables_onBox [simp]: "tables (onBox f w c) = tables c"
  by (simp add: onBox_def tables_def)

lemma tables_SetCheckState [simp]: "tables (SetCheckState w s c) = tables c"
  by (simp add: SetCheckState_def stateChanged_def Let_def split: option.split)

lemma tables_setters [simp]: "tables (SetText w t c) = tables c" "tables (SetWordWrap w b c) = tables c" "tables (SetTriState w b c) = tables c"
    "tables (SetAction w a c) = tables c" "tables (bindCheckbox w c) = tables c"
  by (simp_all add: SetText_def SetWordWrap_def SetTriState_def bindCheckbox_def Let_def split: option.split)
     (simp add: SetAction_def tables_def)

lemma held_troubleVerdict [simp]: "held (troubleVerdict k v c) = held c"
  by (simp add: troubleVerdict_def held_def split: option.split)

lemma tables_troubleVerdict [simp]: "tables (troubleVerdict k v c) = tables c"
  by (simp add: troubleVerdict_def tables_def split: option.split)

interpretation conn_asks: asking connServices troubleVerdict
proof unfold_locales
  show "held (emit ev c) = held c" if "svc_Emit connServices = Some emit" for emit ev c using that by (auto simp: connServices_def)
  show "held (adopt i c) = held c" if "svc_Adopt connServices = Some adopt" for adopt i c
    using that by (auto simp: connServices_def adoptDecision_def held_def)
  show "held (dropID i c) = held c" if "svc_Drop connServices = Some dropID" for dropID i c
    using that by (auto simp: connServices_def sforget_def held_def)
  show "onwards c (troubleVerdict k v c)" if "sound c" for k v c using onwards_held that held_troubleVerdict by blast
qed

text \<open>All that setting a property of a trinket can come to.\<close>

inductive setter :: "u64 \<Rightarrow> conn \<Rightarrow> conn \<Rightarrow> bool" where
  refused: "setter w c c"
| caption: "setter w c (SetText w x c)"
| wrap: "setter w c (SetWordWrap w b c)"
| tristate: "setter w c (SetTriState w b c)"
| state: "setter w c (SetCheckState w s c)"
| action: "setter w c (SetAction w a c)"

lemma setCheckedProperty_setter: "setCheckedProperty w v f c = (e, c') \<Longrightarrow> setter w c c'"
  by (auto simp: setCheckedProperty_def intro: setter.intros split: flagState.splits sum.splits if_splits)

lemma setAction_setter: "setAction n w v f c = (e, c') \<Longrightarrow> setter w c c'"
  by (auto simp: setAction_def intro: setter.intros split: sum.splits if_splits)

lemma setting_setter: "(\<And>x. setter w c (put x c)) \<Longrightarrow> setting read put c = (e, c') \<Longrightarrow> setter w c c'"
  by (auto simp: setting_def intro: setter.intros split: sum.splits)

lemma wprop_setter:
  "wprop is goType n fn t v f c = (e, c') \<Longrightarrow> (\<And>e c'. fn t v f c = (e, c') \<Longrightarrow> setter w c c') \<Longrightarrow> setter w c c'"
  by (auto simp: wprop_def intro: setter.intros split: if_splits)

lemma checkbox_setters:
  "Mapping.lookup (ts_Props checkboxType) name = Some p \<Longrightarrow>
     name = ''caption'' \<and> pr_Apply p = Some (wprop isBox boxType ''caption'' (\<lambda>w v f. setting (AsString ''caption'' v f) (SetText w)))
   \<or> name = ''checked'' \<and> pr_Apply p = Some (wprop isBox boxType ''checked'' setCheckedProperty)
   \<or> name = ''tristate'' \<and> pr_Apply p = Some (wprop isBox boxType ''tristate'' (\<lambda>w v f. setting (AsBool ''tristate'' v f) (SetTriState w)))
   \<or> name = ''wrap'' \<and> pr_Apply p = Some (wprop isBox boxType ''wrap'' (\<lambda>w v f. setting (AsBool ''wrap'' v f) (SetWordWrap w)))
   \<or> name = ''action'' \<and> pr_Apply p = Some (wprop isBox boxType ''action'' (setAction ''action''))"
  by (auto simp: checkboxType_def lookup_of_alist builder_defs split: if_splits)

lemma checkbox_properties:
  assumes "propertyOf trinketRegistry n name = Some p" "pr_Apply p = Some applier" "applier t v f c = (e, c')"
  shows "setter t c c'"
proof -
  have "Mapping.lookup (ts_Props checkboxType) name = Some p"
    using assms(1) by (auto simp: propertyOf_def trinketRegistry_def lookup_of_alist lookup_empty decisionType_def split: option.splits if_splits)
  from checkbox_setters[OF this] show ?thesis
    using assms(2,3)
    by (elim disjE conjE) (auto elim!: wprop_setter intro: setting_setter setCheckedProperty_setter setAction_setter setter.intros)
qed

lemma tables_setter: "setter w c c' \<Longrightarrow> tables c' = tables c"
  by (erule setter.cases) simp_all

lemma no_collections: "propertyOf trinketRegistry n name = Some p \<Longrightarrow> pr_Accept p = None"
  by (auto simp: propertyOf_def checkboxType_def decisionType_def lookup_of_alist lookup_empty builder_defs trinketRegistry_def
      split: option.splits if_splits)

interpretation conn_types: registered_types trinketRegistry trinketInterfaces trinketHost
proof unfold_locales
  let ?fac = "registryFactory trinketRegistry trinketInterfaces trinketHost"
  fix n d assume "Mapping.lookup (regTypes trinketRegistry) n = Some d"
  then have d: "n = ''decision'' \<and> d = decisionType \<or> n = ''checkbox'' \<and> d = checkboxType" by (rule registered_types_are)
  show "grew ?fac c c'" if "ts_New d = Some construct" "construct c = (t, c')" for construct c t c'
    using that d by (intro tables_grew) (auto simp: checkboxType_def decisionType_def NextObjectID_def tables_def)
  show "grew ?fac c (bind t c)" if "ts_Bind d = Some bind" for bind t c
    using that d by (intro tables_grew) (auto simp: checkboxType_def decisionType_def)
  show "tame ?fac c c'" if "ts_Destroy d = Some destroy" "destroy t c = (e, c')" for destroy t c e c'
  proof -
    have "tables c' = tables c" using that d
      by (auto simp: checkboxType_def decisionType_def destroyBox_def tables_def split: option.splits if_splits)
    then show ?thesis using tables_grew unfolding grew_def by blast
  qed
next
  let ?fac = "registryFactory trinketRegistry trinketInterfaces trinketHost"
  have tame: "tame ?fac c c'" if "tables c' = tables c" for c c' using tables_grew[OF that] unfolding grew_def by blast
  show "grew ?fac c c'" if "propertyOf trinketRegistry n name = Some p" "pr_Apply p = Some applier" "applier t v flag c = (e, c')"
    for n name p applier t v flag c e c' using tables_setter[OF checkbox_properties[OF that]] by (rule tables_grew)
  show "grew ?fac c c'" if "propertyOf trinketRegistry n name = Some p" "pr_Accept p = Some accept" for n name p accept c c'
    using no_collections[OF that(1)] that(2) by simp
  show "tame ?fac c c'" if "if_Ask trinketInterfaces t = Some ask" for t ask c c' using that by (simp add: trinketInterfaces_def)
  show "tame ?fac c c'" if "if_Do trinketInterfaces t = Some act" for t act c c' using that by (simp add: trinketInterfaces_def)
  show "grew ?fac c (tell i c)" if "if_SetWireID trinketInterfaces t = Some tell" for t tell c i using that by (simp add: trinketInterfaces_def)
  show "grew ?fac c c'" if "ho_virtualID trinketHost c = (i, c')" for c i c'
    using that by (intro tables_grew) (auto simp: trinketHost_def NextObjectID_def tables_def)
  show "tame ?fac c (ho_hook trinketHost h c)" for c h by (rule tame) (simp add: trinketHost_def)
  show "tame ?fac c (dropID i c)" if "svc_Drop (ho_services trinketHost) = Some dropID" for dropID i c
    using that by (auto simp: trinketHost_def connServices_def intro: tame_sforget)
  show "tame ?fac c (ho_react trinketHost k verdict c)" for c k verdict by (rule tame) (simp add: trinketHost_def)
qed

end
