(* ===== verification/SessionWatch.thy ===== *)
theory SessionWatch
  imports SessionTemplates
begin

text \<open>
  Watching a session: what a relation between states needs so that no batch breaks it. Used for what a
  batch may let out of a connection.
\<close>

subsection \<open>The relations\<close>

text \<open>Every operation a session calls keeps \<open>outside\<close>, and those it calls under suppression keep
  \<open>inside\<close>, which holds between entering and leaving.\<close>

locale watched = well_mannered fac
  for fac :: "('o, ('h, 'a, 'k, 'o, 'm) session_scheme) Factory" +
  fixes inside :: "('h, 'a, 'k, 'o, 'm) session_scheme \<Rightarrow> ('h, 'a, 'k, 'o, 'm) session_scheme \<Rightarrow> bool"
    and outside :: "('h, 'a, 'k, 'o, 'm) session_scheme \<Rightarrow> ('h, 'a, 'k, 'o, 'm) session_scheme \<Rightarrow> bool"
  assumes inside_preorder: "reflp inside" "transp inside"
    and outside_preorder: "reflp outside" "transp outside"
    and new_inside: "f_New fac t c = (r, c') \<Longrightarrow> inside c c'"
    and set_inside: "f_Set fac obj n v fl c = (e, c') \<Longrightarrow> inside c c'"
    and append_inside: "f_Append fac obj n child c = (e, c') \<Longrightarrow> inside c c'"
    and do_inside: "f_Do fac obj = Some act \<Longrightarrow> act q args c = (e, c') \<Longrightarrow> inside c c'"
    and books_inside: "inside c (putKey k i c)" "inside c (putObject i obj b c)"
    and ask_outside: "f_Ask fac obj = Some ask \<Longrightarrow> ask q args out c = (e, c') \<Longrightarrow> outside c c'"
    and destroy_outside: "f_Destroy fac obj = Some destroy \<Longrightarrow> destroy c = (e, c') \<Longrightarrow> outside c c'"
    and control_outside: "f_Control fac = Some ec \<Longrightarrow> outside c (ec_Subscribe ec i t c) \<and> outside c (ec_Unsubscribe ec i t c)"
    and books_outside: "outside c (putKey k i c)" "outside c (sforget i c)" "outside c (c\<lparr>aliases := al\<rparr>)" "outside c (c\<lparr>templates := T\<rparr>)"
    and suppression: "f_Control fac = Some ec \<Longrightarrow> inside (ec_enter ec c) c' \<Longrightarrow> outside c (ec_leave ec c')"
    and controlled: "f_Control fac \<noteq> None"
begin

lemmas inside_rules = every_basic(1,2)[OF inside_preorder(1)] every_basic(3,4) every_andThen[OF inside_preorder(2)] every_each[OF inside_preorder]
lemmas outside_rules = every_basic(1,2)[OF outside_preorder(1)] every_basic(3,4) every_andThen[OF outside_preorder(2)] every_each[OF outside_preorder]

lemma refl_inside [simp]: "inside c c" using inside_preorder(1) by (simp add: reflpD)
lemma refl_outside [simp]: "outside c c" using outside_preorder(1) by (simp add: reflpD)

subsection \<open>Under suppression\<close>

lemma buildChild_inside:
  assumes "\<And>args path. every inside (build args path)" shows "every inside (buildChild build fac parent slot path stmt)"
proof -
  have "every inside (calling (f_Append fac parent slot child))" for child by (rule inside_rules) (rule append_inside)
  then show ?thesis by (auto simp: buildChild_def Let_def books_inside intro!: inside_rules(1-3,5) assms)
qed

lemma applyArg_inside:
  assumes "\<And>args path. every inside (build args path)" shows "every inside (applyArg build fac obj path a)"
proof -
  have "every inside (buildChildren build fac obj name b path)" for name b
    unfolding buildChildren_def by (intro inside_rules buildChild_inside assms)
  moreover have "every inside (refuses e :: (unit, ('h, 'a, 'k, 'o, 'm) session_scheme) run)" for e
    by (rule inside_rules)
  moreover have "every inside (calling (f_Set fac obj name v fl))" for name v fl
    by (rule inside_rules) (rule set_inside)
  ultimately show ?thesis
    unfolding every_def applyArg_def by (auto split: if_splits sum.splits option.splits wvalue.splits)
qed

lemma furnish_inside:
  assumes "\<And>args path. every inside (build args path)" shows "every inside (furnish build fac obj ta props path)"
  unfolding furnish_def applyArgs_def by (intro inside_rules applyArg_inside assms)

lemma instantiate_inside: "every inside (instantiate n fac args path)"
proof (induction n arbitrary: args path)
  case (Suc n)
  have "inside c c'" if run: "instantiate (Suc n) fac args path c = Some (r, c')" for c r c'
    using run
  proof (cases rule: instantiate_Some)
    case (built b ta props obj c1)
    have "inside c c1" by (rule new_inside[OF built(1)])
    moreover have "inside c1 (putObject (f_ID fac obj) obj b c1)" by (rule books_inside)
    moreover have "inside (putObject (f_ID fac obj) obj b c1) c'"
      using furnish_inside[where build = "instantiate n fac", OF Suc] built(2) unfolding every_def by blast
    ultimately show ?thesis by (meson inside_preorder(2) transpD)
  qed (auto intro: new_inside)
  then show ?case by (simp add: every_def)
qed (simp add: every_def)

lemma doObject_inside: "every inside (doObject reg fac args)"
proof -
  have "every inside (calling (act q as))" if "f_Do fac obj = Some act" for obj act q as
    by (rule inside_rules) (rule do_inside[OF that])
  then show ?thesis unfolding doObject_def
    by (intro every_onTarget inside_preorder) (auto simp: every_def refuses_def split: option.splits)
qed

lemma suppressed_outside: "every inside m \<Longrightarrow> every outside (suppressed fac m)"
  using controlled suppression unfolding every_def suppressed_def by (auto split: option.splits)

subsection \<open>The verbs\<close>

lemma askObject_outside: "every outside (askObject reg fac key args)"
proof -
  have "every outside (calling (ask q as out))" if "f_Ask fac obj = Some ask" for obj ask q as out
    by (rule outside_rules) (rule ask_outside[OF that])
  then show ?thesis unfolding askObject_def
    by (intro every_onTarget outside_preorder) (auto simp: every_def refuses_def split: option.splits)
qed

lemma destroyObject_outside: "every outside (destroyObject fac args)"
proof -
  have "every outside (calling destroy)" if "f_Destroy fac obj = Some destroy" for obj destroy
    by (rule outside_rules) (rule destroy_outside[OF that])
  then show ?thesis unfolding destroyObject_def
    by (intro every_onTarget outside_preorder) (auto intro!: outside_rules(1-3,5) books_outside split: option.splits)
qed

lemma subscribeEvent_outside: "f_Control fac = Some ec \<Longrightarrow> every outside (subscribeEvent reg ec verb t i ev)"
  unfolding subscribeEvent_def by (auto intro!: outside_rules control_outside[THEN conjunct1] control_outside[THEN conjunct2] split: option.splits)

lemma subscribe_outside: "every outside (subscribe reg fac verb args)"
proof -
  have "every outside (each (subscribeEvent reg ec verb t i) evs)"
    "every outside (silently (if verb = ''sub'' then ec_Subscribe ec i [] else ec_Unsubscribe ec i []))"
    if "f_Control fac = Some ec" for ec t i evs
    using that control_outside by (auto intro!: outside_rules subscribeEvent_outside)
  then show ?thesis
    by (auto simp: every_def subscribe_def refuses_def split: option.splits list.splits sum.splits if_splits)
qed

lemma declared_outside: "every outside (declareAliases args)" "every outside (declareTemplate args)"
proof -
  show "every outside (declareAliases args)"
    unfolding declareAliases_def declareAlias_def
    by (auto intro!: outside_rules books_outside split: option.splits wvalue.splits)
  have "outside c c'" if "declareTemplate args c = Some (r, c')" for c r c'
    using that books_outside(4)
    by (auto simp: declareTemplate_def refuses_def silently_def split: list.splits arg.splits option.splits wvalue.splits if_splits)
  then show "every outside (declareTemplate args)" by (simp add: every_def)
qed

lemma executeTopLevel_outside: "every outside (executeTopLevel reg fuel fac stmt (reply :: Reply))"
proof -
  have new: "every outside (suppressed fac (instantiate fuel fac args path))" for args path
    by (rule suppressed_outside) (rule instantiate_inside)
  have set: "every outside (suppressed fac (applyArgs (instantiate fuel fac) fac obj args path))" for obj args path
    unfolding applyArgs_def by (intro suppressed_outside inside_rules applyArg_inside instantiate_inside)
  have acts: "every outside (suppressed fac (doObject reg fac args))" for args
    by (rule suppressed_outside) (rule doObject_inside)
  have at: "outside c (putKey k i c)" for c k i by (rule books_outside)
  have "every outside (executeTopLevel reg fuel fac stmt reply)" if "st_verb stmt = []"
    using that at
    by (auto simp: every_def executeTopLevel_def Let_def run_simps andThen_def split: sum.splits)
  moreover have "every outside (executeTopLevel reg fuel fac stmt reply)" if "st_verb stmt \<noteq> []"
    unfolding executeTopLevel_def Let_def
    by (simp only: that if_False, intro every_if)
       (auto intro!: outside_rules new set acts every_onTarget askObject_outside destroyObject_outside subscribe_outside
          declared_outside books_outside outside_preorder)
  ultimately show ?thesis by blast
qed

lemma Execute_outside: "every outside (Execute reg fuel fac script)"
proof -
  have "every outside (executeAll reg fuel fac stmts reply)" for stmts and reply :: Reply
    by (induction stmts arbitrary: reply) (auto intro!: outside_rules executeTopLevel_outside)
  then show ?thesis by (simp add: Execute_def)
qed

end

end
