(* ===== verification/Conversations.thy ===== *)
theory Conversations
  imports Trinkets SessionWatch
begin

text \<open>
  What passes between an application and a display with trinkets: a batch says nothing back to the
  application that sent it, a person's press is told to whoever subscribed, and a question the display
  asks is decided once, by the application, by its deadline, or by the application's leaving.
\<close>

subsection \<open>A batch is silent\<close>

text \<open>Nothing was said and the suppression is as it was.\<close>

definition hushed :: "conn \<Rightarrow> conn \<Rightarrow> bool" where
  "hushed c c' \<longleftrightarrow> outgoing c' = outgoing c \<and> hungUp c' = hungUp c \<and> suppress c' = suppress c"

lemma hushed_trans: "hushed a b \<Longrightarrow> hushed b c \<Longrightarrow> hushed a c" by (simp add: hushed_def)
lemma hushed_refl [simp]: "hushed c c" by (simp add: hushed_def)

lemma hushed_onBox [simp]: "hushed c (onBox f w c)" by (simp add: hushed_def onBox_def)

lemma EmitEvent_suppressed: "suppress c > 0 \<Longrightarrow> EmitEvent sv ev c = c"
  by (simp add: EmitEvent_def Let_def split: option.split)

lemma FireAction_suppressed: "suppress c > 0 \<Longrightarrow> FireAction sv i c = c"
  by (simp add: FireAction_def)

lemma hushed_SetCheckState: "suppress c > 0 \<Longrightarrow> hushed c (SetCheckState w s c)"
  by (simp add: SetCheckState_def stateChanged_def Let_def FireAction_suppressed EmitEvent_suppressed onBox_def hushed_def split: option.split)

lemma hushed_setters:
  "hushed c (SetText w t c)" "hushed c (SetWordWrap w b c)" "hushed c (SetAction w a c)" "suppress c > 0 \<Longrightarrow> hushed c (SetTriState w b c)"
proof -
  show "hushed c (SetText w t c)" "hushed c (SetWordWrap w b c)" "hushed c (SetAction w a c)"
    by (simp_all add: SetText_def SetWordWrap_def) (simp add: SetAction_def hushed_def)
  let ?c1 = "onBox (\<lambda>x. x\<lparr>cb_triState := b\<rparr>) w c"
  assume "suppress c > 0"
  then have "hushed ?c1 (SetCheckState w Unchecked ?c1)" by (intro hushed_SetCheckState) (simp add: onBox_def)
  then have "hushed c (SetCheckState w Unchecked ?c1)" by (rule hushed_trans[OF hushed_onBox])
  then show "hushed c (SetTriState w b c)" by (cases b) (simp_all add: SetTriState_def Let_def split: option.split)
qed

lemma hushed_setter: "setter w c c' \<Longrightarrow> suppress c > 0 \<Longrightarrow> hushed c c'"
  by (erule setter.cases; hypsubst) (rule hushed_refl hushed_setters hushed_SetCheckState; assumption?)+

text \<open>Said and heard apart: what a session calls while it carries out a batch.\<close>

definition hushedInside :: "conn \<Rightarrow> conn \<Rightarrow> bool" where "hushedInside c c' \<longleftrightarrow> (suppress c > 0 \<longrightarrow> hushed c c')"
definition hushedOutside :: "conn \<Rightarrow> conn \<Rightarrow> bool" where "hushedOutside c c' \<longleftrightarrow> (suppress c \<ge> 0 \<longrightarrow> hushed c c')"

lemmas hush_defs = hushedInside_def hushedOutside_def hushed_def

lemma hushed_books:
  "hushed c (putKey k i c)" "hushed c (putObject i obj b c)" "hushed c (sforget i c)" "hushed c (c\<lparr>aliases := al\<rparr>)" "hushed c (c\<lparr>templates := T\<rparr>)"
  by (simp_all add: hushed_def putKey_def putObject_def sforget_def)

lemma hushed_subscriptions: "hushed c (Subscribe (\<lambda>h c. c) i t c)" "hushed c (Unsubscribe i t c)"
  by (simp add: Subscribe_def addSub_def hushed_def) (cases "subs c i"; simp add: Unsubscribe_def hushed_def Let_def)

lemma hushed_new: "NewObject trinketRegistry trinketInterfaces trinketHost t c = (r, c') \<Longrightarrow> hushed c c'"
  by (auto simp: NewObject_def Let_def trinketRegistry_def lookup_of_alist lookup_empty checkboxType_def decisionType_def NextObjectID_def
      bindCheckbox_def onBox_def hushed_def split: option.splits if_splits)

lemma hushed_settle: "hushed c (settle connServices troubleVerdict v i c)"
  by (auto simp: settle_def Let_def announcing_def forget_def connServices_def sforget_def troubleVerdict_def hushed_def split: option.split)

lemma hushed_do: "DecideDo connServices troubleVerdict i action c = (e, c') \<Longrightarrow> hushed c c'"
  using hushed_settle by (auto simp: DecideDo_def Decisions.extend_def arm_def Let_def hushed_def split: if_splits option.splits)

lemma factory_operations:
  "f_New trinketFactory = NewObject trinketRegistry trinketInterfaces trinketHost" "f_Set trinketFactory = SetProperty trinketRegistry"
  "f_Append trinketFactory = AppendChild trinketRegistry" "f_Control trinketFactory = Some (contextControl trinketHost)"
  by (simp_all add: trinketFactory_def registryFactory_def)

interpretation conn_watch: watched trinketFactory hushedInside hushedOutside
proof (intro watched.intro watched_axioms.intro)
  show "well_mannered trinketFactory" unfolding trinketFactory_def by (rule conn_types.registry_mannered)
  show "reflp hushedInside" "transp hushedInside" "reflp hushedOutside" "transp hushedOutside"
    by (auto simp: hush_defs reflp_def transp_def)
  show "hushedInside c c'" if "f_New trinketFactory t c = (r, c')" for t c r c'
    using that hushed_new by (simp add: factory_operations hushedInside_def)
  show "hushedInside c c'" if "f_Set trinketFactory obj n v fl c = (e, c')" for obj n v fl c e c'
    using that hushed_setter[OF checkbox_properties]
    by (auto simp: factory_operations SetProperty_def hushedInside_def split: object.splits option.splits)
  show "hushedInside c c'" if "f_Append trinketFactory obj n child c = (e, c')" for obj n child c e c'
    using that no_collections
    by (auto simp: factory_operations AppendChild_def hushedInside_def split: object.splits option.splits)
  show "hushedInside c c'" if "f_Do trinketFactory obj = Some act" "act q args c = (e, c')" for obj act q args c e c'
    using that hushed_do
    by (auto simp: trinketFactory_def registryFactory_def trinketHost_def trinketInterfaces_def DoTarget_def hushedInside_def split: object.splits)
  show "hushedInside c (putKey k i c)" "hushedInside c (putObject i obj b c)" for c k i obj b
    by (simp_all add: hushedInside_def hushed_books)
  show "hushedOutside c c'" if "f_Ask trinketFactory obj = Some ask" "ask q args w c = (e, c')" for obj ask q args w c e c'
    using that by (auto simp: trinketFactory_def registryFactory_def trinketInterfaces_def AskTarget_def hushedOutside_def split: object.splits)
  show "hushedOutside c c'" if "f_Destroy trinketFactory obj = Some destroy" "destroy c = (e, c')" for obj destroy c e c'
    using that
    by (auto simp: trinketFactory_def registryFactory_def DestroyTarget_def trinketRegistry_def lookup_of_alist lookup_empty decisionType_def
        checkboxType_def destroyBox_def hush_defs split: object.splits option.splits if_splits)
  show "hushedOutside c (ec_Subscribe ec i t c) \<and> hushedOutside c (ec_Unsubscribe ec i t c)" if "f_Control trinketFactory = Some ec" for ec c i t
    using that hushed_subscriptions by (auto simp: factory_operations contextControl_def trinketHost_def hushedOutside_def)
  show "hushedOutside c (putKey k i c)" "hushedOutside c (sforget i c)" "hushedOutside c (c\<lparr>aliases := al\<rparr>)" "hushedOutside c (c\<lparr>templates := T\<rparr>)"
    for c k i al T by (simp_all add: hushedOutside_def hushed_books)
  show "hushedOutside c (ec_leave ec c')" if "f_Control trinketFactory = Some ec" "hushedInside (ec_enter ec c) c'" for ec c c'
    using that by (auto simp: factory_operations contextControl_def hush_defs)
  show "f_Control trinketFactory \<noteq> None" by (simp add: factory_operations)
qed


text \<open>A connection with a checkbox that has an action, subscribed to.\<close>

definition boxConn :: conn where
  "boxConn = NewConn\<lparr>lastObjectID := 3, boxes := [3 \<mapsto> (NewCheckbox ''Wrap'')\<lparr>cb_bound := True\<rparr>], actions := [3 \<mapsto> ''wrap_toggled''],
     subs := [3 \<mapsto> {''toggle''}]\<rparr>"

lemma batch_runs:
  "\<exists>r c'. Execute trinketRegistry 1 trinketFactory (Script [Statement ''b'' ''new'' [] 0
      [Arg ''checkbox'' FlagTrue None, Arg ''checked'' FlagTrue None]]) boxConn = Some (r, c')
    \<and> map_option cb_checkState (boxes c' 4) = Some Checked"
  by (simp add: Execute_def executeTopLevel_def Let_def suppressed_def newType_def factory_operations contextControl_def trinketHost_def
        resolveType_def templateChain.simps isUpperInitial_def isLowerInitial_def upperCase_def lowerCase_def furnish_def applyArgs_def
        applyArg_def unalias_def calling_def run_simps andThen_def boxConn_def NewConn_def NewObject_def trinketRegistry_def lookup_of_alist
        checkboxType_def NextObjectID_def bindCheckbox_def onBox_def putObject_def SetProperty_def propertyOf_def builder_defs wprop_def isBox_def
        setCheckedProperty_def SetCheckState_def NewCheckbox_def stateChanged_def FireAction_def EmitEvent_def connServices_def putKey_def)

text \<open>C20. A batch says nothing: whatever an application's statements make, set, decide or destroy, and however
  deep, no statement is queued for the application that sent them and the suppression ends where it began,
  whether the batch succeeds or is refused halfway.\<close>

theorem batches_are_silent:
  assumes "Execute trinketRegistry fuel trinketFactory script c = Some (r, c')" "suppress c \<ge> 0"
  shows "outgoing c' = outgoing c \<and> hungUp c' = hungUp c \<and> suppress c' = suppress c"
  using conn_watch.Execute_outside[of trinketRegistry fuel script] assms
  unfolding every_def hushedOutside_def hushed_def by blast

theorem batches_are_silent_witness:
  "\<exists>r c'. Execute trinketRegistry 1 trinketFactory (Script [Statement ''b'' ''new'' [] 0
      [Arg ''checkbox'' FlagTrue None, Arg ''checked'' FlagTrue None]]) boxConn = Some (r, c')
    \<and> map_option cb_checkState (boxes c' 4) = Some Checked \<and> outgoing c' = []"
proof -
  have "suppress boxConn \<ge> 0" "outgoing boxConn = []" by (simp_all add: boxConn_def NewConn_def)
  then show ?thesis using batch_runs batches_are_silent by metis
qed

subsection \<open>A press is heard\<close>

lemma send_room: "\<not> finished c \<Longrightarrow> List.length (outgoing c) < 1024 \<Longrightarrow> send s c = c\<lparr>outgoing := outgoing c @ [s]\<rparr>"
  by (simp add: send_def)

lemma subscribed_frame [simp]: "subscribed (c\<lparr>outgoing := q\<rparr>) ev = subscribed c ev" "subscribed (onBox f w c) ev = subscribed c ev"
  by (simp_all add: subscribed_def openFor_def onBox_def)

lemma Action_frame [simp]: "Action w (onBox f w c) = Action w c"
  by (simp add: Action_def onBox_def)

lemma onBox_frame [simp]: "suppress (onBox f w c) = suppress c" "finished (onBox f w c) = finished c" "outgoing (onBox f w c) = outgoing c"
  by (simp_all add: onBox_def)

lemma SetCheckState_says:
  assumes "boxes c w = Some b" "cb_bound b" "cb_checkState b \<noteq> s" "suppress c = 0" "\<not> finished c" "List.length (outgoing c) + 1 < 1024"
  shows "outgoing (SetCheckState w s c) = outgoing c
      @ (if Action w c \<noteq> [] then [EncodeEvent (WithWord ''action'' (Action w c) (NewEvent ''command''))] else [])
      @ (if subscribed c (toggleEvent w s) then [EncodeEvent (toggleEvent w s)] else [])"
proof -
  let ?c1 = "onBox (\<lambda>b. b\<lparr>cb_checkState := s, cb_checked := (s = Checked)\<rparr>) w c"
  let ?said = "if Action w c \<noteq> [] then [EncodeEvent (WithWord ''action'' (Action w c) (NewEvent ''command''))] else []"
  have type: "Type (WithWord n x (NewEvent t)) = t" "Type (toggleEvent w s) = ''toggle''" for n x t
    by (simp_all add: WithWord_def NewEvent_def withField_def toggleEvent_def WithFlag_def WithUint_def)
  have fire: "FireAction connServices w ?c1 = ?c1\<lparr>outgoing := outgoing c @ ?said\<rparr>"
    using assms(4-6) type(1)[of "''action''" _ "''command''"]
    by (auto simp: FireAction_def Let_def connServices_def EmitEvent_def send_room)
  have "SetCheckState w s c = EmitEvent connServices (toggleEvent w s) (?c1\<lparr>outgoing := outgoing c @ ?said\<rparr>)"
    using assms(1-3) by (simp add: SetCheckState_def stateChanged_def Let_def fire)
  moreover have "List.length (outgoing c @ ?said) < 1024" using assms(6) by simp
  ultimately show ?thesis
    using assms(4,5) type(2) by (simp add: EmitEvent_def connServices_def Let_def send_room del: List.length_append)
qed




lemma box_events:
  "EncodeEvent (WithWord ''action'' ''wrap_toggled'' (NewEvent ''command'')) = ''event command action=wrap_toggled''"
  "EncodeEvent (toggleEvent 3 Checked) = ''event toggle trinket=3 checked''" "Trinket (toggleEvent 3 Checked) = Some 3"
  by code_simp+


end
