(* ===== verification/Refusals.thy ===== *)
theory Refusals
  imports Trinkets
begin

text \<open>
  Questions on a connection: the decision machine run with the askers of the model. A view that was
  refused asks the application whether it has dealt with the refusal and draws its line only when it
  knows; what is shown here is that it always comes to know, and where an old verdict is taken for a new
  one.
\<close>

subsection \<open>A view asks\<close>

abbreviation connStep :: "conn \<Rightarrow> conn \<Rightarrow> bool" where
  "connStep \<equiv> qstep connServices troubleVerdict"

lemma connSteps_other: "held c' = held c \<Longrightarrow> connStep\<^sup>*\<^sup>* c c'"
  using qstep.other by blast

lemma DecidingOn_steps: "heap c (lastObjectID c + 1) = None \<Longrightarrow> connStep\<^sup>*\<^sup>* c (snd (DecidingOn ev patience k c))"
proof -
  assume fresh: "heap c (lastObjectID c + 1) = None"
  let ?c1 = "snd (Deciding connServices (lastObjectID c + 1) ev patience k c)"
  have "connStep c ?c1" by (rule qstep.asks[OF fresh])
  moreover have "connStep\<^sup>*\<^sup>* ?c1 (snd (DecidingOn ev patience k c))"
    by (rule connSteps_other) (simp add: DecidingOn_def held_def split: prod.split option.split)
  ultimately show ?thesis by (rule converse_rtranclp_into_rtranclp)
qed

text \<open>What \<open>took\<close> comes to.\<close>

lemma toldView_is: "trouble (toldView t v) = t" "\<not> deciding (toldView t v)" "quiet (toldView t v) = quiet v" "announced (toldView t v) = announced v"
  by (simp_all add: toldView_def Let_def)

lemma took_cases:
  obtains (same) "snd (took i t c) = c" "views c i = None \<or> (\<exists>v. views c i = Some v \<and> trouble v = t)"
    | (told) v where "views c i = Some v" "trouble v \<noteq> t" "\<not> (AnyTrouble t \<and> announced v)"
        "snd (took i t c) = c\<lparr>views := (views c)(i \<mapsto> toldView t v)\<rparr>"
    | (asked) v b c1 where "views c i = Some v" "trouble v \<noteq> t" "AnyTrouble t" "announced v"
        "announceTrouble i t (c\<lparr>views := (views c)(i \<mapsto> toldView t v)\<rparr>) = (b, c1)"
        "snd (took i t c) = c1\<lparr>views := (views c1)(i \<mapsto> (toldView t v)\<lparr>deciding := b\<rparr>)\<rparr>"
proof (cases "views c i")
  case None
  then show thesis by (intro same) (simp_all add: took_def)
next
  case (Some v)
  show thesis
  proof (cases "trouble v = t \<or> \<not> (AnyTrouble t \<and> announced v)")
    case True
    show thesis
    proof (cases "trouble v = t")
      case True
      then show thesis using Some by (intro same) (simp_all add: took_def)
    next
      case False
      then show thesis using Some \<open>trouble v = t \<or> \<not> (AnyTrouble t \<and> announced v)\<close> by (intro told[of v]) (auto simp: took_def Let_def)
    qed
  next
    case False
    obtain b c1 where "announceTrouble i t (c\<lparr>views := (views c)(i \<mapsto> toldView t v)\<rparr>) = (b, c1)" by fastforce
    then show thesis using Some False by (intro asked[of v b c1]) (simp_all add: took_def Let_def)
  qed
qed

lemma took_steps: "heap c (lastObjectID c + 1) = None \<Longrightarrow> connStep\<^sup>*\<^sup>* c (snd (took i t c))"
proof -
  assume fresh: "heap c (lastObjectID c + 1) = None"
  show ?thesis
  proof (cases rule: took_cases[of i t c])
    case (told v)
    then show ?thesis by (intro connSteps_other) (simp add: held_def)
  next
    case (asked v b c1)
    let ?c0 = "c\<lparr>views := (views c)(i \<mapsto> toldView t v)\<rparr>"
    have "connStep\<^sup>*\<^sup>* c ?c0" by (intro connSteps_other) (simp add: held_def)
    also have "connStep\<^sup>*\<^sup>* ?c0 c1"
      using DecidingOn_steps[of ?c0 "troubleEvent i t" troubleDecision "(i, t)"] fresh asked(5)
      by (auto simp: announceTrouble_def Let_def split: prod.splits)
    also have "connStep\<^sup>*\<^sup>* c1 (snd (took i t c))" using asked(6) by (intro connSteps_other) (simp add: held_def)
    finally show ?thesis .
  qed simp
qed

subsection \<open>Views among the steps\<close>

text \<open>What happens on a connection that has views: one is told of a refusal or of its end, a statement
  decides, timers run, the application goes, somebody asks for the line or for quiet, or something else.\<close>

inductive vstep :: "conn \<Rightarrow> conn \<Rightarrow> bool" where
  told: "heap c (lastObjectID c + 1) = None \<Longrightarrow> vstep c (snd (took i t c))"
| does: "vstep c (snd (DecideDo connServices troubleVerdict i action c))"
| fires: "(i, wait) \<in> ticking c \<Longrightarrow> vstep c (fireTimer connServices troubleVerdict i wait c)"
| runs: "posted c \<noteq> [] \<Longrightarrow> vstep c (runPosted connServices troubleVerdict c)"
| leaves: "set order = decisions c \<Longrightarrow> distinct order \<Longrightarrow> vstep c (Undecided connServices troubleVerdict order c)"
| draws: "views c i = Some v \<Longrightarrow> vstep c (c\<lparr>views := (views c)(i \<mapsto> SetShowsTrouble b v)\<rparr>)"
| other: "held c' = held c \<Longrightarrow> views c' = views c \<Longrightarrow> vstep c c'"

lemma vstep_connSteps: "vstep c c' \<Longrightarrow> connStep\<^sup>*\<^sup>* c c'"
proof (induction rule: vstep.induct)
  case (told c i t) then show ?case by (rule took_steps)
next
  case (draws c i v b) then show ?case by (intro connSteps_other) (simp add: held_def)
qed (auto intro: qstep.intros connSteps_other)

lemma vsteps_connSteps: "vstep\<^sup>*\<^sup>* c c' \<Longrightarrow> connStep\<^sup>*\<^sup>* c c'"
  by (induction rule: rtranclp_induct) (auto dest: vstep_connSteps intro: rtranclp_trans)

text \<open>A view that waits is waited for by an open question about the very refusal it holds.\<close>

definition awaited :: "conn \<Rightarrow> bool" where
  "awaited c \<longleftrightarrow> (\<forall>i v. views c i = Some v \<longrightarrow> deciding v \<longrightarrow>
     AnyTrouble (trouble v) \<and> (\<exists>j d. heap c j = Some d \<and> dc_then d = Some (i, trouble v) \<and> Whenever < within d))"

lemma awaitedI:
  "(\<And>i v. views c i = Some v \<Longrightarrow> deciding v \<Longrightarrow> AnyTrouble (trouble v) \<and>
     (\<exists>j d. heap c j = Some d \<and> dc_then d = Some (i, trouble v) \<and> Whenever < within d)) \<Longrightarrow> awaited c"
  by (auto simp: awaited_def)

lemma awaitedE:
  assumes "awaited c" "views c i = Some v" "deciding v"
  obtains j d where "AnyTrouble (trouble v)" "heap c j = Some d" "dc_then d = Some (i, trouble v)" "Whenever < within d"
  using assms unfolding awaited_def by blast

lemma decidedTrouble_cases:
  "snd (decidedTrouble t yes v) = (if deciding v \<and> trouble v = t then v\<lparr>deciding := False, handled := yes\<rparr> else v)"
  by (auto simp: decidedTrouble_def Let_def)

text \<open>The views and the heap after a verdict.\<close>

lemma settle_open:
  assumes "heap c j = Some d" "dc_then d = Some k"
  shows "heap (settle connServices troubleVerdict verdict j c) = (heap c)(j \<mapsto> d\<lparr>dc_then := None, timer := False\<rparr>)"
    "views (settle connServices troubleVerdict verdict j c) =
       (case views c (fst k) of None \<Rightarrow> views c
        | Some v \<Rightarrow> (views c)(fst k \<mapsto> snd (decidedTrouble (snd k) (Said verdict \<and> \<not> Allowed verdict) v)))"
  using assms
  by (auto simp: settle_def Let_def announcing_def forget_def connServices_def sforget_def troubleVerdict_def split: option.split)

lemma settle_shut:
  assumes "heap c j = None \<or> (\<exists>d. heap c j = Some d \<and> dc_then d = None)"
  shows "views (settle connServices troubleVerdict verdict j c) = views c"
    "heap c i = Some e \<Longrightarrow> dc_then e \<noteq> None \<Longrightarrow> heap (settle connServices troubleVerdict verdict j c) i = Some e"
  using assms by (auto simp: settle_def Let_def)

lemma awaited_settle:
  assumes "awaited c" shows "awaited (settle connServices troubleVerdict verdict j c)"
proof (cases "\<exists>d k. heap c j = Some d \<and> dc_then d = Some k")
  case False
  then have shut: "heap c j = None \<or> (\<exists>d. heap c j = Some d \<and> dc_then d = None)" by (metis not_None_eq)
  show ?thesis
  proof (rule awaitedI)
    fix i v assume "views (settle connServices troubleVerdict verdict j c) i = Some v" "deciding v"
    then have "views c i = Some v" "deciding v" using settle_shut(1)[OF shut] by simp_all
    then obtain i' d where "AnyTrouble (trouble v)" "heap c i' = Some d" "dc_then d = Some (i, trouble v)" "Whenever < within d"
      using awaitedE[OF assms] by metis
    moreover have "heap (settle connServices troubleVerdict verdict j c) i' = Some d"
      using settle_shut(2)[OF shut, of i' d] calculation by simp
    ultimately show "AnyTrouble (trouble v) \<and> (\<exists>j' d. heap (settle connServices troubleVerdict verdict j c) j' = Some d
        \<and> dc_then d = Some (i, trouble v) \<and> Whenever < within d)" by blast
  qed
next
  case True
  then obtain d k where d: "heap c j = Some d" "dc_then d = Some k" by blast
  note after = settle_open[OF d, of verdict]
  show ?thesis
  proof (rule awaitedI)
    fix i v assume v: "views (settle connServices troubleVerdict verdict j c) i = Some v" "deciding v"
    obtain u where u: "views c i = Some u" "u = v"
      using v by (auto simp: after decidedTrouble_cases split: option.splits if_splits)
    have not_it: "k \<noteq> (i, trouble v)"
    proof
      assume "k = (i, trouble v)"
      then have "views (settle connServices troubleVerdict verdict j c) i = Some (v\<lparr>deciding := False, handled := Said verdict \<and> \<not> Allowed verdict\<rparr>)"
        using u v(2) by (simp add: after decidedTrouble_cases)
      then have "deciding v = deciding (v\<lparr>deciding := False, handled := Said verdict \<and> \<not> Allowed verdict\<rparr>)" using v(1) by simp
      then show False using v(2) by simp
    qed
    obtain j' d' where "AnyTrouble (trouble v)" "heap c j' = Some d'" "dc_then d' = Some (i, trouble v)" "Whenever < within d'"
      using awaitedE[OF assms u(1)] v(2) u(2) by metis
    moreover have "j' \<noteq> j" using calculation d not_it by auto
    ultimately show "AnyTrouble (trouble v) \<and> (\<exists>j' d. heap (settle connServices troubleVerdict verdict j c) j' = Some d
        \<and> dc_then d = Some (i, trouble v) \<and> Whenever < within d)" by (auto simp: after)
  qed
qed


text \<open>Steps that leave the views alone and keep every open question's asker and deadline.\<close>

lemma awaited_keeps:
  assumes "awaited c" "views c' = views c"
    and kept: "\<And>j d. heap c j = Some d \<Longrightarrow> dc_then d \<noteq> None \<Longrightarrow> \<exists>d'. heap c' j = Some d' \<and> dc_then d' = dc_then d \<and> within d' = within d"
  shows "awaited c'"
proof (rule awaitedI)
  fix i v assume "views c' i = Some v" "deciding v"
  then obtain j d where d: "AnyTrouble (trouble v)" "heap c j = Some d" "dc_then d = Some (i, trouble v)" "Whenever < within d"
    using awaitedE[OF assms(1)] assms(2) by metis
  then obtain d' where "heap c' j = Some d'" "dc_then d' = dc_then d" "within d' = within d" using kept[of j d] by auto
  then have "heap c' j = Some d' \<and> dc_then d' = Some (i, trouble v) \<and> Whenever < within d'" using d by simp
  then show "AnyTrouble (trouble v) \<and> (\<exists>j d. heap c' j = Some d \<and> dc_then d = Some (i, trouble v) \<and> Whenever < within d)"
    using d(1) by blast
qed

lemma awaited_arm: "awaited c \<Longrightarrow> awaited (arm j c)"
  by (erule awaited_keeps) (auto simp: arm_def Let_def split: option.split)

lemma awaited_ranOut: "awaited c \<Longrightarrow> awaited (ranOut connServices troubleVerdict j wait c)"
  using awaited_settle by (simp add: ranOut_def split: option.split)

lemma awaited_DecideDo: "awaited c \<Longrightarrow> awaited (snd (DecideDo connServices troubleVerdict j action c))"
  using awaited_settle awaited_arm by (simp add: DecideDo_def Decisions.extend_def split: option.split)

lemma awaited_fold: "awaited c \<Longrightarrow> awaited (fold (settle connServices troubleVerdict verdict) order c)"
  by (induction order arbitrary: c) (auto intro: awaited_settle)

text \<open>What announcing a refusal leaves behind.\<close>

lemma EmitEvent_conn: "views (EmitEvent connServices ev c) = views c" "heap (EmitEvent connServices ev c) = heap c"
    "lastObjectID (EmitEvent connServices ev c) = lastObjectID c"
  by (simp_all add: EmitEvent_def connServices_def send_def Let_def)

lemma announce_effect:
  assumes "announceTrouble i t c = (b, c1)" "heap c (lastObjectID c + 1) = None"
  shows "views c1 = views c" "heap c j = Some d \<Longrightarrow> heap c1 j = Some d"
    "b \<Longrightarrow> \<exists>j d. heap c1 j = Some d \<and> dc_then d = Some (i, t) \<and> Whenever < within d"
proof -
  let ?j = "lastObjectID c + 1"
  have adopt: "svc_Adopt connServices = Some adoptDecision" by (simp add: connServices_def)
  have patience: "Whenever < troubleDecision" by (simp add: Whenever_def troubleDecision_def)
  have armed: "views (arm k x) = views x" "(heap (arm k x) k = None) = (heap x k = None)" "j \<noteq> k \<Longrightarrow> heap (arm k x) j = heap x j"
      "heap x k = Some e \<Longrightarrow> \<exists>e'. heap (arm k x) k = Some e' \<and> dc_then e' = dc_then e \<and> within e' = within e" for k j e and x :: conn
    by (auto simp: arm_def Let_def split: option.split)
  show "views c1 = views c" "heap c j = Some d \<Longrightarrow> heap c1 j = Some d"
    "b \<Longrightarrow> \<exists>j d. heap c1 j = Some d \<and> dc_then d = Some (i, t) \<and> Whenever < within d"
  proof -
    define c0 where "c0 = adoptDecision ?j (c\<lparr>heap := (heap c)(?j \<mapsto> \<lparr>dc_then = Some (i, t), within = troubleDecision, timer = False, armed = 0\<rparr>),
      decisions := insert ?j (decisions c)\<rparr>)"
    have c0: "views c0 = views c" "heap c0 = (heap c)(?j \<mapsto> \<lparr>dc_then = Some (i, t), within = troubleDecision, timer = False, armed = 0\<rparr>)"
      by (simp_all add: c0_def adoptDecision_def)
    have out: "c1 = c \<and> \<not> b \<or> b \<and> views c1 = views (arm ?j c0) \<and> heap c1 = heap (arm ?j c0)"
      using assms(1) patience
      by (auto simp: announceTrouble_def DecidingOn_def Deciding_def adopt Let_def EmitEvent_conn c0_def split: if_splits)
    show "views c1 = views c" using out armed(1) c0 by auto
    show "heap c1 j = Some d" if "heap c j = Some d"
    proof -
      have "j \<noteq> ?j" using that assms(2) by auto
      then show ?thesis using out armed(3)[of j ?j c0] c0 that by auto
    qed
    show "\<exists>j d. heap c1 j = Some d \<and> dc_then d = Some (i, t) \<and> Whenever < within d" if b
    proof -
      obtain e' where "heap (arm ?j c0) ?j = Some e'" "dc_then e' = Some (i, t)" "within e' = troubleDecision"
        using armed(4)[of c0 ?j] c0(2) by auto
      then show ?thesis using out that patience by metis
    qed
  qed
qed

lemma awaited_took:
  assumes "awaited c" "heap c (lastObjectID c + 1) = None" shows "awaited (snd (took i t c))"
proof (cases rule: took_cases[of i t c])
  case same
  then show ?thesis using assms by simp
next
  case (told v)
  show ?thesis
    by (rule awaitedI) (use assms(1) told(4) in \<open>auto simp: toldView_is awaited_def split: if_splits\<close>)
next
  case (asked v b c1)
  let ?c0 = "c\<lparr>views := (views c)(i \<mapsto> toldView t v)\<rparr>"
  have fresh: "heap ?c0 (lastObjectID ?c0 + 1) = None" using assms(2) by simp
  note after = announce_effect[OF asked(5) fresh]
  show ?thesis
  proof (rule awaitedI)
    fix i' v' assume v': "views (snd (took i t c)) i' = Some v'" "deciding v'"
    show "AnyTrouble (trouble v') \<and> (\<exists>j d. heap (snd (took i t c)) j = Some d \<and> dc_then d = Some (i', trouble v') \<and> Whenever < within d)"
    proof (cases "i' = i")
      case True
      then have "v' = (toldView t v)\<lparr>deciding := b\<rparr>" using v' asked(6) by simp
      then show ?thesis using after(3) True v'(2) asked(3,6) by (auto simp: toldView_is)
    next
      case False
      then have "views c i' = Some v'" using v' asked(6) after(1) by simp
      then obtain j d where "AnyTrouble (trouble v')" "heap c j = Some d" "dc_then d = Some (i', trouble v')" "Whenever < within d"
        using awaitedE[OF assms(1)] v'(2) by metis
      then show ?thesis using after(2)[of j d] asked(6) by auto
    qed
  qed
qed

lemma awaited_vstep: "vstep c c' \<Longrightarrow> awaited c \<Longrightarrow> awaited c'"
proof (induction rule: vstep.induct)
  case (told c i t) then show ?case by (simp add: awaited_took)
next
  case (does c i action) then show ?case by (simp add: awaited_DecideDo)
next
  case (fires i wait c)
  then have "awaited (c\<lparr>ticking := ticking c - {(i, wait)}\<rparr>)" by (auto intro: awaited_keeps)
  then show ?case by (simp add: fireTimer_def connServices_def awaited_def Let_def)
next
  case (runs c)
  have "awaited (c\<lparr>posted := q\<rparr>)" for q using runs(2) by (auto intro: awaited_keeps)
  then show ?case using runs(2) by (auto simp: runPosted_def intro: awaited_ranOut split: list.split)
next
  case (leaves order c)
  then have "awaited (c\<lparr>decisions := {}, gone := True\<rparr>)" by (auto intro: awaited_keeps)
  then show ?case by (simp add: Undecided_def awaited_fold)
next
  case (draws c i v b)
  show ?case by (rule awaitedI) (use draws in \<open>auto simp: awaited_def SetShowsTrouble_def split: if_splits\<close>)
next
  case (other c' c)
  then show ?case by (auto simp: awaited_def held_def)
qed

lemma awaited_vsteps: "vstep\<^sup>*\<^sup>* c c' \<Longrightarrow> awaited c \<Longrightarrow> awaited c'"
  by (induction rule: rtranclp_induct) (auto intro: awaited_vstep)


text \<open>A list bound to its connection, whose application listens for trouble and has been told of a refusal.\<close>

definition listConn :: conn where
  "listConn = NewConn\<lparr>lastObjectID := 5, views := [5 \<mapsto> \<lparr>trouble = NoTrouble, onTrouble = None, announced = True, handled = False,
     deciding = False, quiet = False\<rparr>], subs := [5 \<mapsto> {''trouble''}]\<rparr>"

definition noSource :: ViewTrouble where "noSource = \<lparr>Reason = ''no such source'', At = 0\<rparr>"

definition askedConn :: conn where "askedConn = snd (took 5 noSource listConn)"

lemma listConn_fresh: "nothingAsked listConn" "\<forall>i v. views listConn i = Some v \<longrightarrow> \<not> deciding v" "heap listConn j = None"
  by (simp_all add: nothingAsked_def held_def listConn_def NewConn_def)

text \<open>What a view is told when the application listens.\<close>

lemma Type_trouble: "Type (troubleEvent i t) = ''trouble''"
  by (simp add: troubleEvent_def WithInt_def WithString_def WithUint_def NewEvent_def withField_def)

lemma announce_listening:
  assumes "listening c (troubleEvent i t)"
  defines "j \<equiv> lastObjectID c + 1"
  obtains c1 where "announceTrouble i t c = (True, c1)" "views c1 = views c" "lastObjectID c1 = j"
    "heap c1 = (heap c)(j \<mapsto> \<lparr>dc_then = Some (i, t), within = troubleDecision, timer = True, armed = 1\<rparr>)"
    "gone c1 = gone c" "suppress c1 = suppress c" "subs c1 = subs c"
    "ticking c1 = insert (j, 1) (ticking c)" "posted c1 = posted c" "decisions c1 = insert j (decisions c)"
proof -
  obtain c1 where "announceTrouble i t c = (True, c1)" by (use assms in \<open>simp add: announceTrouble_def DecidingOn_def Deciding_def
      connServices_def Let_def\<close>)
  then show thesis
    using assms(1)
    by (intro that[of c1])
       (auto simp: announceTrouble_def DecidingOn_def Deciding_def connServices_def Let_def adoptDecision_def arm_def Whenever_def
          troubleDecision_def EmitEvent_def send_def j_def split: if_splits)
qed

text \<open>C16. No view waits for ever: on any connection reached from one that has asked nothing, through refusals and
  recoveries, verdicts, keep-alives, timers, the application's leaving and whatever else, a view that is
  waiting to hear about a refusal is waited for by an open question about that refusal whose deadline is
  running or has been posted, and that deadline, when it comes, ends the waiting and draws the line unless
  the view was asked to keep quiet.\<close>

theorem no_view_waits_forever:
  assumes "nothingAsked c0" "\<forall>i v. views c0 i = Some v \<longrightarrow> \<not> deciding v" "vstep\<^sup>*\<^sup>* c0 c" "views c i = Some v" "deciding v"
  shows "\<exists>j d v'. heap c j = Some d \<and> dc_then d = Some (i, trouble v) \<and> (j, armed d) \<in> ticking c \<union> set (posted c)
    \<and> views (ranOut connServices troubleVerdict j (armed d) c) i = Some v' \<and> \<not> deciding v' \<and> (showsTrouble v' \<longleftrightarrow> \<not> quiet v)"
proof -
  have "awaited c0" using assms(2) by (auto simp: awaited_def)
  then have "awaited c" by (rule awaited_vsteps[OF assms(3)])
  then obtain j d where d: "AnyTrouble (trouble v)" "heap c j = Some d" "dc_then d = Some (i, trouble v)" "Whenever < within d"
    using awaitedE assms(4,5) by metis
  have "(j, armed d) \<in> ticking c \<union> set (posted c)"
    using conn_asks.not_forgotten[OF assms(1) vsteps_connSteps[OF assms(3)] d(2)] d(3,4) by simp
  moreover have "views (ranOut connServices troubleVerdict j (armed d) c) i = Some (v\<lparr>deciding := False, handled := False\<rparr>)"
    using settle_open(2)[OF d(2,3)] assms(4,5) d(2) by (simp add: ranOut_def unsaid_def decidedTrouble_cases)
  moreover have "\<not> deciding (v\<lparr>deciding := False, handled := False\<rparr>)"
    "showsTrouble (v\<lparr>deciding := False, handled := False\<rparr>) \<longleftrightarrow> \<not> quiet v"
    using d(1) by (simp_all add: showsTrouble_def)
  ultimately show ?thesis using d(2,3) by blast
qed

theorem no_view_waits_forever_witness:
  "\<exists>j d v'. heap askedConn j = Some d \<and> (j, armed d) \<in> ticking askedConn \<union> set (posted askedConn)
    \<and> views (ranOut connServices troubleVerdict j (armed d) askedConn) 5 = Some v' \<and> showsTrouble v'"
proof -
  have "vstep\<^sup>*\<^sup>* listConn askedConn" unfolding askedConn_def using vstep.told[of listConn] listConn_fresh(3) by blast
  moreover obtain v where "views askedConn 5 = Some v" "deciding v" "\<not> quiet v"
  proof -
    let ?c = "listConn\<lparr>views := (views listConn)(5 \<mapsto> toldView noSource (the (views listConn 5)))\<rparr>"
    have "listening ?c (troubleEvent 5 noSource)"
      by (simp add: listening_def listConn_def NewConn_def subscribed_def openFor_def Type_trouble troubleEvent_def Let_def) code_simp
    then obtain c1 where "announceTrouble 5 noSource ?c = (True, c1)" using announce_listening by metis
    then show thesis using that
      by (simp add: askedConn_def took_def listConn_def Let_def noSource_def NoTrouble_def AnyTrouble_def toldView_is)
  qed
  ultimately show ?thesis using no_view_waits_forever[OF listConn_fresh(1,2), of askedConn 5] by metis
qed


subsection \<open>A verdict on an older refusal\<close>

lemma asked_view:
  assumes "views c i = Some v" "trouble v \<noteq> t" "AnyTrouble t" "announced v" "onTrouble v = None" "listening c (troubleEvent i t)"
  defines "j \<equiv> lastObjectID c + 1"
  shows "\<exists>c'. snd (took i t c) = c' \<and> views c' i = Some (v\<lparr>trouble := t, handled := False, deciding := True\<rparr>) \<and> lastObjectID c' = j
    \<and> heap c' = (heap c)(j \<mapsto> \<lparr>dc_then = Some (i, t), within = troubleDecision, timer = True, armed = 1\<rparr>)
    \<and> gone c' = gone c \<and> suppress c' = suppress c \<and> subs c' = subs c"
proof -
  let ?c0 = "c\<lparr>views := (views c)(i \<mapsto> toldView t v)\<rparr>"
  have "listening ?c0 (troubleEvent i t)" using assms(6) by (simp add: listening_def subscribed_def openFor_def)
  then show ?thesis
  proof (rule announce_listening)
    fix c1 assume "announceTrouble i t ?c0 = (True, c1)" "views c1 = views ?c0" "lastObjectID c1 = lastObjectID ?c0 + 1"
      "heap c1 = (heap ?c0)(lastObjectID ?c0 + 1 \<mapsto> \<lparr>dc_then = Some (i, t), within = troubleDecision, timer = True, armed = 1\<rparr>)"
      "gone c1 = gone ?c0" "suppress c1 = suppress ?c0" "subs c1 = subs ?c0"
    then show ?thesis using assms(1-5) by (simp add: took_def Let_def toldView_def j_def)
  qed
qed

text \<open>A verdict on an older refusal decides a newer one: where a view is refused, recovers and is refused again
  for the same reason at the same place, both questions are open at once, and if the first is allowed the view
  draws its line although the second has not been answered; the application's word that it has dealt with the
  second is then ignored and the line stays.\<close>

theorem older_verdict_decides_newer_refusal:
  assumes "views c i = Some v" "trouble v \<noteq> t" "AnyTrouble t" "announced v" "onTrouble v = None" "\<not> quiet v"
    "listening c (troubleEvent i t)"
  defines "first \<equiv> lastObjectID c + 1" and "second \<equiv> lastObjectID c + 2"
  defines "twice \<equiv> snd (took i t (snd (untroubled i (snd (took i t c)))))"
  defines "allowed \<equiv> snd (DecideDo connServices troubleVerdict first ''allow'' twice)"
  defines "denied \<equiv> snd (DecideDo connServices troubleVerdict second ''deny'' allowed)"
  shows "isOpen twice first \<and> isOpen twice second \<and> isOpen allowed second
    \<and> (\<exists>u. views denied i = Some u \<and> trouble u = t \<and> showsTrouble u)"
proof -
  obtain c1 where c1: "snd (took i t c) = c1" "views c1 i = Some (v\<lparr>trouble := t, handled := False, deciding := True\<rparr>)" "lastObjectID c1 = first"
    "heap c1 = (heap c)(first \<mapsto> \<lparr>dc_then = Some (i, t), within = troubleDecision, timer = True, armed = 1\<rparr>)"
    "gone c1 = gone c" "suppress c1 = suppress c" "subs c1 = subs c"
    using asked_view[OF assms(1-5,7)] unfolding first_def by blast
  let ?u = "toldView NoTrouble (v\<lparr>trouble := t, handled := False, deciding := True\<rparr>)"
  let ?c2 = "c1\<lparr>views := (views c1)(i \<mapsto> ?u)\<rparr>"
  have none: "\<not> AnyTrouble NoTrouble" "t \<noteq> NoTrouble" using assms(3) by (auto simp: AnyTrouble_def NoTrouble_def)
  then have c2: "snd (untroubled i c1) = ?c2" using c1(2) by (simp add: untroubled_def took_def Let_def)
  have "listening ?c2 (troubleEvent i t)" using assms(7) c1(5-7) by (simp add: listening_def subscribed_def openFor_def)
  moreover have "views ?c2 i = Some ?u" "trouble ?u \<noteq> t" "announced ?u" "onTrouble ?u = None"
    using none(2) assms(4,5) by (auto simp: toldView_def Let_def)
  ultimately obtain c3 where c3: "twice = c3" "views c3 i = Some (?u\<lparr>trouble := t, handled := False, deciding := True\<rparr>)"
      "heap c3 = (heap c1)(second \<mapsto> \<lparr>dc_then = Some (i, t), within = troubleDecision, timer = True, armed = 1\<rparr>)"
    using asked_view[of ?c2 i ?u t] assms(3) c1(1,3) c2 unfolding twice_def second_def first_def by (auto simp: add.assoc)
  have ids: "first \<noteq> second" by (simp add: first_def second_def)
  let ?d = "\<lparr>dc_then = Some (i, t), within = troubleDecision, timer = True, armed = 1\<rparr>"
  have h: "heap c3 first = Some ?d" "heap c3 second = Some ?d" using c1(4) c3(3) ids by simp_all
  have "allowed = settle connServices troubleVerdict \<lparr>Allowed = True, Said = True\<rparr> first c3" using c3(1) by (simp add: allowed_def DecideDo_def)
  then have h2: "heap allowed second = Some ?d" "views allowed i = Some (?u\<lparr>trouble := t, deciding := False, handled := False\<rparr>)"
    using settle_open[OF h(1), of "(i, t)"] h(2) c3(2) ids by (simp_all add: decidedTrouble_cases)
  have "denied = settle connServices troubleVerdict \<lparr>Allowed = False, Said = True\<rparr> second allowed" by (simp add: denied_def DecideDo_def)
  then have "views denied i = Some (?u\<lparr>trouble := t, deciding := False, handled := False\<rparr>)"
    using settle_open[OF h2(1), of "(i, t)"] h2(2) by (simp add: decidedTrouble_cases)
  moreover have "showsTrouble (?u\<lparr>trouble := t, deciding := False, handled := False\<rparr>)" using assms(3,6) by (simp add: showsTrouble_def toldView_is)
  ultimately show ?thesis using h h2(1) c3(1) by (auto simp: isOpen_def)
qed

theorem older_verdict_decides_newer_refusal_witness:
  "\<exists>u. views (snd (DecideDo connServices troubleVerdict 7 ''deny'' (snd (DecideDo connServices troubleVerdict 6 ''allow''
      (snd (took 5 noSource (snd (untroubled 5 askedConn)))))))) 5 = Some u \<and> trouble u = noSource \<and> showsTrouble u"
proof -
  let ?v = "\<lparr>trouble = NoTrouble, onTrouble = None, announced = True, handled = False, deciding = False, quiet = False\<rparr>"
  have "Trinket (troubleEvent 5 noSource) = Some 5" by code_simp
  then have "listening listConn (troubleEvent 5 noSource)" "views listConn 5 = Some ?v" "lastObjectID listConn = 5"
    by (simp_all add: listening_def listConn_def NewConn_def subscribed_def openFor_def Type_trouble Let_def)
  moreover have "NoTrouble \<noteq> noSource" "AnyTrouble noSource" by (simp_all add: noSource_def NoTrouble_def AnyTrouble_def)
  ultimately show ?thesis
    using older_verdict_decides_newer_refusal[of listConn 5 ?v noSource] by (simp add: askedConn_def)
qed


subsection \<open>Decisions on a connection\<close>

lemma askedConn_is:
  "heap askedConn = [6 \<mapsto> \<lparr>dc_then = Some (5, noSource), within = troubleDecision, timer = True, armed = 1\<rparr>]"
  "\<not> gone askedConn" "sound askedConn" "connStep\<^sup>*\<^sup>* listConn askedConn"
proof -
  have "Trinket (troubleEvent 5 noSource) = Some 5" by code_simp
  then have "listening listConn (troubleEvent 5 noSource)" "lastObjectID listConn = 5" "heap listConn = Map.empty" "\<not> gone listConn"
    "views listConn 5 = Some \<lparr>trouble = NoTrouble, onTrouble = None, announced = True, handled = False, deciding = False, quiet = False\<rparr>"
    by (simp_all add: listening_def listConn_def NewConn_def subscribed_def openFor_def Type_trouble Let_def)
  moreover have "NoTrouble \<noteq> noSource" "AnyTrouble noSource" by (simp_all add: noSource_def NoTrouble_def AnyTrouble_def)
  ultimately show "heap askedConn = [6 \<mapsto> \<lparr>dc_then = Some (5, noSource), within = troubleDecision, timer = True, armed = 1\<rparr>]"
    "\<not> gone askedConn"
    using asked_view[of listConn 5 _ noSource] by (auto simp: askedConn_def)
  show steps: "connStep\<^sup>*\<^sup>* listConn askedConn" unfolding askedConn_def by (rule took_steps) (rule listConn_fresh(3))
  show "sound askedConn" by (rule onwards_sound[OF conn_asks.onwards_steps[OF steps nothingAsked_sound[OF listConn_fresh(1)]]])
qed



text \<open>C22. A question is decided once: after a verdict, whoever gave it, nothing that happens opens the question
  again, and every later verdict, deadline or statement about it changes nothing at all.\<close>

theorem decided_once:
  assumes "sound c" "heap c i = Some d" "connStep\<^sup>*\<^sup>* (settle connServices troubleVerdict v i c) c'"
  shows "\<not> isOpen c' i \<and> settle connServices troubleVerdict v' i c' = c' \<and> ranOut connServices troubleVerdict i wait c' = c'
    \<and> snd (DecideDo connServices troubleVerdict i action c') = c'"
  by (rule conn_asks.stays_decided[OF assms])

theorem decided_once_witness:
  "let c = settle connServices troubleVerdict \<lparr>Allowed = False, Said = True\<rparr> 6 askedConn
   in \<not> isOpen c 6 \<and> snd (DecideDo connServices troubleVerdict 6 ''allow'' c) = c"
  using decided_once[OF askedConn_is(3) _ rtranclp.rtrancl_refl] askedConn_is(1) by (simp add: Let_def)

text \<open>An answer that is on its way outruns the deadline: after \<open>waiting\<close> on a question with a deadline, no run
  of a wait from before it, however late it arrives, decides or changes anything.\<close>

theorem waiting_outruns_the_deadline:
  assumes "sound c" "heap c i = Some d" "dc_then d \<noteq> None" "Whenever < within d"
    "connStep\<^sup>*\<^sup>* (snd (DecideDo connServices troubleVerdict i ''waiting'' c)) c'" "wait \<le> armed d"
  shows "ranOut connServices troubleVerdict i wait c' = c'"
  by (rule conn_asks.waiting_wins[OF assms])

theorem waiting_outruns_the_deadline_witness:
  "let c = snd (DecideDo connServices troubleVerdict 6 ''waiting'' askedConn) in ranOut connServices troubleVerdict 6 1 c = c"
  using waiting_outruns_the_deadline[OF askedConn_is(3) _ _ _ rtranclp.rtrancl_refl, of 6] askedConn_is(1)
  by (simp add: Let_def troubleDecision_def Whenever_def)

text \<open>An application that has gone decides nothing: once it has left, every question it had open is closed and
  stays closed, and nothing asks it anything new.\<close>

theorem gone_decides_nothing:
  assumes "sound c" "\<not> gone c" "set order = decisions c" "connStep\<^sup>*\<^sup>* (Undecided connServices troubleVerdict order c) c'"
  shows "\<not> isOpen c' i \<and> Deciding connServices i ev patience k c' = (None, c')"
  using conn_asks.gone_for_good[OF assms] by (simp add: connServices_def)

theorem gone_decides_nothing_witness:
  "let c = Undecided connServices troubleVerdict [6] askedConn
   in \<not> isOpen c 6 \<and> Deciding connServices 7 (troubleEvent 5 noSource) troubleDecision (5, noSource) c = (None, c)"
proof -
  have "6 \<in> decisions askedConn" "decisions askedConn \<subseteq> dom (heap askedConn)"
    using askedConn_is(1,2,3) unfolding sound_def isOpen_def by (fastforce simp: dom_def)+
  then have "set [6] = decisions askedConn" using askedConn_is(1) by auto
  then show ?thesis using gone_decides_nothing[OF askedConn_is(3,2) _ rtranclp.rtrancl_refl] by (simp add: Let_def)
qed

end
