(* ===== verification/WindowClosing.thy ===== *)
theory WindowClosing
  imports RegistryFactory
begin

text \<open>
  Closing windows (\<open>objects/window/window.go\<close>, \<open>window_protocol.go\<close>, and the quit of
  \<open>objects/trinkets/desktop.go\<close>): a close is an attempt that the window's application may be asked about,
  that its children may decline, and that a quit waits for. The model is one desktop with one
  application's connection; windows built in Go without a handler stand beside those of the connection.
  Where a window is drawn, torn off or surfaced, solo mode and the quit of a single application are left out.
\<close>

subsection \<open>State\<close>

text \<open>\<open>wn_asks\<close>: the close handler is the one the wire binding set; \<open>wn_allowing\<close> is that handler's own flag.
  \<open>wn_wired\<close>: the binding's observers are there. \<open>wn_desktop\<close>: walking up from it finds the desktop.\<close>

record window =
  wn_closed :: bool
  wn_deciding :: bool
  wn_asks :: bool
  wn_allowing :: bool
  wn_wired :: bool
  wn_desktop :: bool
  wn_parent :: "u64 option"
  wn_children :: "u64 list"

text \<open>The question the desktop puts to a person. A waiter is a close that was asked about its window:
  the closure it left is \<open>settle\<close> for that window. \<open>mb_shown\<close>: the dialog is on the screen.\<close>

record messageBox =
  mb_waiters :: "u64 list"
  mb_shown :: bool

record desk = "(unit, u64, u64, u64 object) session" +
  lastID :: u64
  told :: "string list"
  windows :: "u64 \<Rightarrow> window option"
  sweep :: "u64 list"
  forceClose :: "u64 \<Rightarrow> messageBox option"
  managed :: bool
  quitWanted :: bool
  quitCode :: int
  exited :: "int option"

definition deskServices :: "desk services" where
  "deskServices =
     \<lparr>svc_Dispatch = None, svc_Emit = Some (\<lambda>ev c. c\<lparr>told := told c @ [EncodeEvent ev]\<rparr>), svc_Answer = None,
      svc_Adopt = Some adoptDecision, svc_Drop = Some sforget, svc_Post = True\<rparr>"

definition onWindow :: "(window \<Rightarrow> window) \<Rightarrow> u64 \<Rightarrow> desk \<Rightarrow> desk" where
  "onWindow f w c = c\<lparr>windows := (windows c)(w := map_option f (windows c w))\<rparr>"

definition SetDeciding :: "u64 \<Rightarrow> bool \<Rightarrow> desk \<Rightarrow> desk" where
  "SetDeciding w b = onWindow (\<lambda>x. x\<lparr>wn_deciding := b\<rparr>) w"

definition isDeciding :: "u64 \<Rightarrow> desk \<Rightarrow> bool" where
  "isDeciding w c = (case windows c w of None \<Rightarrow> False | Some x \<Rightarrow> wn_deciding x)"

definition isClosed :: "u64 \<Rightarrow> desk \<Rightarrow> bool" where
  "isClosed w c = (case windows c w of None \<Rightarrow> True | Some x \<Rightarrow> wn_closed x)"

subsection \<open>The handler the wire installs\<close>

definition closeDecision :: int where "closeDecision = 5 * 1000000000"

definition closingEvent :: "u64 \<Rightarrow> Event" where
  "closingEvent w = WithUint ''window'' w (NewEvent ''window_closing'')"

definition closedEvent :: "u64 \<Rightarrow> Event" where
  "closedEvent w = WithUint ''window'' w (NewEvent ''window_closed'')"

definition askToClose :: "u64 \<Rightarrow> desk \<Rightarrow> bool \<times> desk" where
  "askToClose w c =
     (case Deciding deskServices (lastID c + 1) (closingEvent w) closeDecision w c of
        (None, c') \<Rightarrow> (True, c')
      | (Some i, c') \<Rightarrow> (False, SetDeciding w True (c'\<lparr>lastID := i\<rparr>)))"

definition onClose :: "u64 \<Rightarrow> window \<Rightarrow> desk \<Rightarrow> bool \<times> desk" where
  "onClose w x c =
     (if \<not> wn_asks x then (True, c)
      else if wn_allowing x then (True, onWindow (\<lambda>x. x\<lparr>wn_allowing := False\<rparr>) w c)
      else askToClose w c)"

subsection \<open>Closing\<close>

text \<open>What follows calls itself through the desktop: closing a window settles a question, which resumes a
  quit, which closes windows. Each piece takes the two it may call, \<open>close\<close> (\<open>attemptClose\<close>) and
  \<open>decided\<close> (\<open>CloseDecided\<close>); the knot is tied below on fuel, and \<open>None\<close> is not returning.\<close>

definition removeChildWindow :: "u64 \<Rightarrow> desk \<Rightarrow> desk" where
  "removeChildWindow w c =
     (case windows c w of
        None \<Rightarrow> c
      | Some x \<Rightarrow> (case wn_parent x of None \<Rightarrow> c | Some p \<Rightarrow> onWindow (\<lambda>y. y\<lparr>wn_children := remove1 w (wn_children y)\<rparr>) p c))"

definition CloseSettled where
  "CloseSettled decided w closed c =
     (case windows c w of
        None \<Rightarrow> returns () c
      | Some x \<Rightarrow> if wn_desktop x then decided w closed c else returns () c)"

text \<open>Once everything has agreed: the window goes, the manager drops it, and its observers run.\<close>

definition finishClose where
  "finishClose decided w c =
     (let c1 = removeChildWindow w c;
          c2 = onWindow (\<lambda>x. x\<lparr>wn_closed := True\<rparr>) w c1;
          c3 = c2\<lparr>sweep := filter (\<lambda>v. v \<noteq> w) (sweep c2)\<rparr>
      in case windows c3 w of
           None \<Rightarrow> returns True c3
         | Some x \<Rightarrow>
             if \<not> wn_wired x then returns True c3
             else
               (let c4 = EmitEvent deskServices (closedEvent w) c3 in
                if \<not> wn_deciding x then returns True c4
                else andThen (CloseSettled decided w True) (\<lambda>u. returns True) (SetDeciding w False c4)))"

text \<open>The children, until one declines.\<close>

fun closeEach where
  "closeEach close [] = returns True"
| "closeEach close (w # ws) = andThen (close w) (\<lambda>ok. if ok then closeEach close ws else returns False)"

definition attempt where
  "attempt close decided w c =
     (case windows c w of
        None \<Rightarrow> returns True c
      | Some x \<Rightarrow>
          if wn_closed x then returns True c
          else
            (case onClose w x c of
               (False, c1) \<Rightarrow> returns False c1
             | (True, c1) \<Rightarrow>
                 andThen (closeEach close (case windows c1 w of None \<Rightarrow> [] | Some y \<Rightarrow> wn_children y))
                   (\<lambda>ok. if ok then finishClose decided w else returns False) c1))"

text \<open>\<open>settle\<close> of the binding: a close that was being decided has been.\<close>

definition settleClose where
  "settleClose close decided w mayClose =
     andThen (silently (SetDeciding w False))
       (\<lambda>u. andThen (if mayClose then andThen (silently (onWindow (\<lambda>x. x\<lparr>wn_allowing := True\<rparr>) w)) (\<lambda>u. close w) else returns False)
         (\<lambda>closed. CloseSettled decided w closed))"

subsection \<open>The desktop\<close>

definition tellThem where
  "tellThem close decided yes mb = each (\<lambda>w. settleClose close decided w yes) (mb_waiters mb)"

definition dismissForceClose where
  "dismissForceClose close decided w c =
     (case forceClose c w of
        None \<Rightarrow> returns () c
      | Some mb \<Rightarrow> tellThem close decided False mb (c\<lparr>forceClose := (forceClose c)(w := None)\<rparr>))"

text \<open>\<open>closeEveryWindow\<close>: everything agreed, or where it stopped and whether an answer is still coming there.\<close>

fun sweepWindows where
  "sweepWindows close [] = returns (True, False)"
| "sweepWindows close (w # ws) =
     andThen (close w) (\<lambda>ok. if ok then sweepWindows close ws else (\<lambda>c. returns (False, isDeciding w c) c))"

definition closeEveryWindow where
  "closeEveryWindow close c = sweepWindows close (sweep c) c"

definition ForceQuitWithCode :: "int \<Rightarrow> desk \<Rightarrow> desk" where
  "ForceQuitWithCode code c = c\<lparr>exited := Some code\<rparr>"

definition QuitWithCode where
  "QuitWithCode close code =
     andThen (closeEveryWindow close)
       (\<lambda>(allClosed, pending). silently
          (\<lambda>c. if allClosed then ForceQuitWithCode code (c\<lparr>quitWanted := False\<rparr>) else c\<lparr>quitWanted := pending, quitCode := code\<rparr>))"

definition closeDecided where
  "closeDecided close decided w closed =
     andThen (dismissForceClose close decided w)
       (\<lambda>u c. let wanted = quitWanted c; c1 = (if closed then c else c\<lparr>quitWanted := False\<rparr>) in
          if \<not> wanted \<or> \<not> closed then returns () c1 else QuitWithCode close (quitCode c) c1)"

text \<open>The knot.\<close>

fun attemptClose :: "nat \<Rightarrow> u64 \<Rightarrow> (bool, desk) run"
  and CloseDecided :: "nat \<Rightarrow> u64 \<Rightarrow> bool \<Rightarrow> (unit, desk) run" where
  "attemptClose 0 = (\<lambda>w c. None)"
| "attemptClose (Suc n) = attempt (attemptClose n) (CloseDecided n)"
| "CloseDecided 0 = (\<lambda>w closed c. None)"
| "CloseDecided (Suc n) = closeDecided (attemptClose n) (CloseDecided n)"

subsection \<open>What a person and an application do\<close>

definition Close :: "nat \<Rightarrow> u64 \<Rightarrow> (bool, desk) run" where "Close n w = attemptClose n w"

text \<open>\<open>AskForceClose\<close>: the question is put once per window.\<close>

definition AskForceClose :: "nat \<Rightarrow> u64 \<Rightarrow> (unit, desk) run" where
  "AskForceClose n w c =
     (case windows c w of
        None \<Rightarrow> returns () c
      | Some x \<Rightarrow>
          if \<not> wn_desktop x then settleClose (attemptClose n) (CloseDecided n) w False c
          else
            (case forceClose c w of
               Some mb \<Rightarrow> returns () (c\<lparr>forceClose := (forceClose c)(w \<mapsto> mb\<lparr>mb_waiters := mb_waiters mb @ [w]\<rparr>)\<rparr>)
             | None \<Rightarrow>
                 if managed c then returns () (c\<lparr>forceClose := (forceClose c)(w \<mapsto> \<lparr>mb_waiters = [w], mb_shown = True\<rparr>)\<rparr>)
                 else settleClose (attemptClose n) (CloseDecided n) w False c))"

text \<open>The verdict on a close.\<close>

definition closeVerdict :: "nat \<Rightarrow> u64 \<Rightarrow> Verdict \<Rightarrow> (unit, desk) run" where
  "closeVerdict n w v c =
     (if Allowed v then settleClose (attemptClose n) (CloseDecided n) w True c
      else if Said v then settleClose (attemptClose n) (CloseDecided n) w False c
      else if \<not> isDeciding w c then returns () c
      else if gone c then settleClose (attemptClose n) (CloseDecided n) w False c
      else AskForceClose n w c)"

text \<open>A person chooses in the dialog, or closes the dialog's own window.\<close>

definition chooseInBox :: "nat \<Rightarrow> u64 \<Rightarrow> bool \<Rightarrow> (unit, desk) run" where
  "chooseInBox n w yes c =
     (case forceClose c w of
        None \<Rightarrow> returns () c
      | Some mb \<Rightarrow>
          if mb_shown mb then tellThem (attemptClose n) (CloseDecided n) yes mb (c\<lparr>forceClose := (forceClose c)(w := None)\<rparr>)
          else returns () c)"

definition closeBox :: "u64 \<Rightarrow> desk \<Rightarrow> desk" where
  "closeBox w c = c\<lparr>forceClose := (forceClose c)(w := map_option (\<lambda>mb. mb\<lparr>mb_shown := False\<rparr>) (forceClose c w))\<rparr>"

text \<open>The application destroys a window: its handler goes first, so nobody is asked.\<close>

definition destroyWindow :: "nat \<Rightarrow> u64 \<Rightarrow> (unit, desk) run" where
  "destroyWindow n w = andThen (silently (onWindow (\<lambda>x. x\<lparr>wn_asks := False\<rparr>) w)) (\<lambda>u. andThen (Close n w) (\<lambda>ok. returns ()))"

definition Quit :: "nat \<Rightarrow> int \<Rightarrow> (unit, desk) run" where "Quit n code = QuitWithCode (attemptClose n) code"

end
