(* ===== verification/WindowFacts.thy ===== *)
theory WindowFacts
  imports WindowClosing
begin

text \<open>
  What closing windows may change and that it comes back: nothing is opened or added (\<open>shrinks\<close>), the fuel that
  is enough for a desktop (\<open>fueled\<close>), and that no closed window keeps an open child (\<open>tidy\<close>). Each is proved
  once for the pieces in a locale over the two calls they make, and then for the knot.
\<close>

subsection \<open>Nothing comes back\<close>

text \<open>What may become of a desktop while windows close: no window is added or opened again, children only
  leave, and questions on the screen only go.\<close>

definition shrinksTo :: "window \<Rightarrow> window \<Rightarrow> bool" where
  "shrinksTo x y \<longleftrightarrow> (wn_closed x \<longrightarrow> wn_closed y) \<and> set (wn_children y) \<subseteq> set (wn_children x)
     \<and> wn_wired y = wn_wired x \<and> wn_desktop y = wn_desktop x"

definition shrinks :: "desk \<Rightarrow> desk \<Rightarrow> bool" where
  "shrinks c c' \<longleftrightarrow> dom (windows c') = dom (windows c)
     \<and> (\<forall>w x y. windows c w = Some x \<longrightarrow> windows c' w = Some y \<longrightarrow> shrinksTo x y)
     \<and> (\<forall>w mb. forceClose c' w = Some mb \<longrightarrow> forceClose c w = Some mb)"

lemma shrinksTo_refl [simp]: "shrinksTo x x" by (simp add: shrinksTo_def)
lemma shrinksTo_trans: "shrinksTo x y \<Longrightarrow> shrinksTo y z \<Longrightarrow> shrinksTo x z" by (auto simp: shrinksTo_def)

lemma shrinks_refl [simp]: "shrinks c c" by (simp add: shrinks_def)

lemma shrinks_trans: assumes "shrinks a b" "shrinks b c" shows "shrinks a c"
  unfolding shrinks_def
proof (intro conjI allI impI)
  show "dom (windows c) = dom (windows a)" using assms by (simp add: shrinks_def)
next
  fix w x z assume xz: "windows a w = Some x" "windows c w = Some z"
  then obtain y where "windows b w = Some y" using assms(1) unfolding shrinks_def by blast
  then show "shrinksTo x z" using assms xz shrinksTo_trans unfolding shrinks_def by blast
next
  fix w mb assume "forceClose c w = Some mb" then show "forceClose a w = Some mb" using assms unfolding shrinks_def by blast
qed

lemma shrinks_window:
  assumes "shrinks c c'" "windows c' w = Some y" obtains x where "windows c w = Some x" "shrinksTo x y"
proof -
  have "w \<in> dom (windows c)" using assms unfolding shrinks_def by blast
  then show thesis using assms that unfolding shrinks_def by blast
qed

lemma shrinks_preorder: "reflp shrinks" "transp shrinks"
  by (auto simp: reflp_def transp_def intro: shrinks_trans)

lemma shrinks_same: "windows c' = windows c \<Longrightarrow> forceClose c' = forceClose c \<Longrightarrow> shrinks c c'"
  by (simp add: shrinks_def)

lemma shrinks_onWindow: "(\<And>x. shrinksTo x (f x)) \<Longrightarrow> shrinks c (onWindow f w c)"
  by (auto simp: shrinks_def onWindow_def split: if_splits)

lemma shrinks_SetDeciding: "shrinks c (SetDeciding w b c)"
  unfolding SetDeciding_def by (rule shrinks_onWindow) (simp add: shrinksTo_def)

lemma EmitEvent_desk [simp]: "windows (EmitEvent deskServices ev c) = windows c" "forceClose (EmitEvent deskServices ev c) = forceClose c"
    "sweep (EmitEvent deskServices ev c) = sweep c" "quitWanted (EmitEvent deskServices ev c) = quitWanted c"
    "quitCode (EmitEvent deskServices ev c) = quitCode c" "exited (EmitEvent deskServices ev c) = exited c"
  by (simp_all add: EmitEvent_def deskServices_def Let_def)

lemma Deciding_desk:
  assumes "Deciding deskServices i ev p k c = (d, c')"
  shows "windows c' = windows c" "forceClose c' = forceClose c" "sweep c' = sweep c" "quitWanted c' = quitWanted c"
    "quitCode c' = quitCode c" "exited c' = exited c"
proof -
  have "windows (arm j x) = windows x \<and> forceClose (arm j x) = forceClose x \<and> sweep (arm j x) = sweep x \<and> quitWanted (arm j x) = quitWanted x
      \<and> quitCode (arm j x) = quitCode x \<and> exited (arm j x) = exited x" for j and x :: desk
    by (simp add: arm_def Let_def split: option.split)
  moreover have "svc_Adopt deskServices = Some adoptDecision" by (simp add: deskServices_def)
  ultimately show "windows c' = windows c" "forceClose c' = forceClose c" "sweep c' = sweep c" "quitWanted c' = quitWanted c"
    "quitCode c' = quitCode c" "exited c' = exited c"
    using assms by (auto simp: Deciding_def Let_def adoptDecision_def split: if_splits)
qed

lemma shrinks_askToClose: "askToClose w c = (ok, c') \<Longrightarrow> shrinks c c'"
proof -
  assume ask: "askToClose w c = (ok, c')"
  obtain d c1 where d: "Deciding deskServices (lastID c + 1) (closingEvent w) closeDecision w c = (d, c1)" by fastforce
  have one: "shrinks c (c1\<lparr>lastID := i\<rparr>)" "shrinks c c1" for i using Deciding_desk(1,2)[OF d] by (simp_all add: shrinks_same)
  show ?thesis
    using ask d one shrinks_trans[OF one(1) shrinks_SetDeciding] by (auto simp: askToClose_def split: option.splits)
qed

lemma shrinks_onClose: "onClose w x c = (ok, c') \<Longrightarrow> shrinks c c'"
proof -
  have "shrinks c (onWindow (\<lambda>x. x\<lparr>wn_allowing := False\<rparr>) w c)" by (rule shrinks_onWindow) (simp add: shrinksTo_def)
  then show "onClose w x c = (ok, c') \<Longrightarrow> shrinks c c'" using shrinks_askToClose by (auto simp: onClose_def split: if_splits)
qed

lemma shrinks_removeChildWindow: "shrinks c (removeChildWindow w c)"
  by (auto simp: removeChildWindow_def intro!: shrinks_onWindow split: option.split) (auto simp: shrinksTo_def dest: in_set_remove1[THEN iffD1, rotated] notin_set_remove1)

lemmas shrinks_rules = every_basic(1,2)[OF shrinks_preorder(1)] every_basic(3) every_andThen[OF shrinks_preorder(2)] every_each[OF shrinks_preorder]

lemma every_shift: "every shrinks m \<Longrightarrow> shrinks c c0 \<Longrightarrow> m c0 = Some (r, c') \<Longrightarrow> shrinks c c'"
  unfolding every_def using shrinks_trans by blast


text \<open>Each piece shrinks if the two it calls do.\<close>

locale shrinking =
  fixes close :: "u64 \<Rightarrow> (bool, desk) run" and decided :: "u64 \<Rightarrow> bool \<Rightarrow> (unit, desk) run"
  assumes close_shrinks: "every shrinks (close w)" and decided_shrinks: "every shrinks (decided w closed)"
begin

lemma settled_shrinks: "every shrinks (CloseSettled decided w closed)"
  using decided_shrinks unfolding every_def CloseSettled_def by (auto simp: run_simps split: option.splits if_splits)

lemma finish_shrinks: "every shrinks (finishClose decided w)"
proof -
  have "shrinks c c'" if run: "finishClose decided w c = Some (r, c')" for c r c'
  proof -
    let ?c2 = "onWindow (\<lambda>x. x\<lparr>wn_closed := True\<rparr>) w (removeChildWindow w c)"
    let ?c3 = "?c2\<lparr>sweep := filter (\<lambda>v. v \<noteq> w) (sweep ?c2)\<rparr>"
    let ?c4 = "EmitEvent deskServices (closedEvent w) ?c3"
    have "shrinks (removeChildWindow w c) ?c2" by (rule shrinks_onWindow) (simp add: shrinksTo_def)
    then have c2: "shrinks c ?c2" by (rule shrinks_trans[OF shrinks_removeChildWindow])
    have c3: "shrinks c ?c3" by (rule shrinks_trans[OF c2 shrinks_same]) simp_all
    have c4: "shrinks c ?c4" by (rule shrinks_trans[OF c3 shrinks_same]) simp_all
    have c5: "shrinks c (SetDeciding w False ?c4)" by (rule shrinks_trans[OF c4 shrinks_SetDeciding])
    have rest: "every shrinks (andThen (CloseSettled decided w True) (\<lambda>u. returns True))"
      by (intro shrinks_rules settled_shrinks)
    show ?thesis
      using run c3 c4 every_shift[OF rest c5]
      by (auto simp: finishClose_def Let_def run_simps split: option.splits if_splits)
  qed
  then show ?thesis by (simp add: every_def)
qed

lemma closeEach_shrinks: "every shrinks (closeEach close ws)"
  by (induction ws) (auto intro!: shrinks_rules close_shrinks)

lemma attempt_shrinks: "every shrinks (attempt close decided w)"
proof -
  have "shrinks c c'" if run: "attempt close decided w c = Some (r, c')" for c r c'
  proof (cases "windows c w")
    case None then show ?thesis using run by (simp add: attempt_def run_simps)
  next
    case (Some x)
    obtain ok c1 where ok: "onClose w x c = (ok, c1)" by fastforce
    have rest: "every shrinks (andThen (closeEach close ws) (\<lambda>ok. if ok then finishClose decided w else returns False))" for ws
      by (auto intro!: shrinks_rules closeEach_shrinks finish_shrinks)
    show ?thesis
      using run Some ok shrinks_onClose[OF ok] every_shift[OF rest shrinks_onClose[OF ok]]
      by (auto simp: attempt_def run_simps split: if_splits bool.splits)
  qed
  then show ?thesis by (simp add: every_def)
qed

lemma settleClose_shrinks: "every shrinks (settleClose close decided w mayClose)"
  unfolding settleClose_def
  by (auto intro!: shrinks_rules shrinks_SetDeciding settled_shrinks close_shrinks shrinks_onWindow simp: shrinksTo_def)

lemma tellThem_shrinks: "every shrinks (tellThem close decided yes mb)"
  unfolding tellThem_def by (intro shrinks_rules settleClose_shrinks)

lemma dismiss_shrinks: "every shrinks (dismissForceClose close decided w)"
proof -
  have "shrinks c c'" if run: "dismissForceClose close decided w c = Some (r, c')" for c r c'
  proof (cases "forceClose c w")
    case None then show ?thesis using run by (simp add: dismissForceClose_def run_simps)
  next
    case (Some mb)
    have "shrinks c (c\<lparr>forceClose := (forceClose c)(w := None)\<rparr>)" by (auto simp: shrinks_def split: if_splits)
    then show ?thesis using every_shift[OF tellThem_shrinks] run Some by (simp add: dismissForceClose_def)
  qed
  then show ?thesis by (simp add: every_def)
qed

lemma sweep_shrinks: "every shrinks (sweepWindows close ws)"
proof (induction ws)
  case (Cons w ws)
  have "every shrinks (\<lambda>c. returns (False, isDeciding w c) c)" by (simp add: every_def run_simps)
  then show ?case using Cons by (auto intro!: shrinks_rules close_shrinks)
qed (auto intro!: shrinks_rules)

lemma Quit_shrinks: "every shrinks (QuitWithCode close code)"
  unfolding QuitWithCode_def closeEveryWindow_def
  by (intro shrinks_rules) (use sweep_shrinks in \<open>auto simp: every_def ForceQuitWithCode_def run_simps intro!: shrinks_same split: prod.splits\<close>)

lemma closeDecided_shrinks: "every shrinks (closeDecided close decided w closed)"
proof -
  have "every shrinks (\<lambda>c. let wanted = quitWanted c; c1 = (if closed then c else c\<lparr>quitWanted := False\<rparr>) in
          if \<not> wanted \<or> \<not> closed then returns () c1 else QuitWithCode close (quitCode c) c1)"
    using Quit_shrinks by (auto simp: every_def Let_def run_simps intro!: shrinks_same)
  then show ?thesis unfolding closeDecided_def by (intro shrinks_rules dismiss_shrinks)
qed

end

lemma knot_shrinks: "every shrinks (attemptClose n w) \<and> every shrinks (CloseDecided n v closed)"
proof (induction n arbitrary: w v closed)
  case (Suc n)
  have "shrinking (attemptClose n) (CloseDecided n)" using Suc by unfold_locales blast+
  then show ?case using shrinking.attempt_shrinks shrinking.closeDecided_shrinks by (metis attemptClose.simps(2) CloseDecided.simps(2))
qed (simp add: every_def)

interpretation desk_shrinks: shrinking "attemptClose n" "CloseDecided n" for n
  using knot_shrinks by unfold_locales blast+


subsection \<open>Every close returns\<close>

text \<open>Windows stand in a finite tree, \<open>rank\<close> falling from a window to its children and staying below \<open>R\<close>, and
  the waiters of a question are closes of its own window.\<close>

definition ordered :: "(u64 \<Rightarrow> nat) \<Rightarrow> nat \<Rightarrow> desk \<Rightarrow> bool" where
  "ordered rank R c \<longleftrightarrow> finite (dom (windows c)) \<and> (\<forall>w. rank w \<le> R)
     \<and> (\<forall>w x v. windows c w = Some x \<longrightarrow> v \<in> set (wn_children x) \<longrightarrow> rank v < rank w)
     \<and> (\<forall>w mb. forceClose c w = Some mb \<longrightarrow> set (mb_waiters mb) \<subseteq> {w})"

definition openIn :: "desk \<Rightarrow> u64 set" where
  "openIn c = {w. \<exists>x. windows c w = Some x \<and> \<not> wn_closed x}"

definition fuelFor :: "nat \<Rightarrow> nat \<Rightarrow> nat \<Rightarrow> nat" where
  "fuelFor R k r = k * (R + 2) + r + 3"

lemma ordered_shrinks: assumes "ordered rank R c" "shrinks c c'" shows "ordered rank R c'"
proof -
  have "rank v < rank w" if y: "windows c' w = Some y" "v \<in> set (wn_children y)" for w y v
  proof -
    obtain x where x: "windows c w = Some x" "shrinksTo x y" using shrinks_window[OF assms(2) y(1)] .
    then have "v \<in> set (wn_children x)" using y(2) unfolding shrinksTo_def by blast
    then show ?thesis using assms(1) x(1) unfolding ordered_def by blast
  qed
  moreover have "set (mb_waiters mb) \<subseteq> {w}" if "forceClose c' w = Some mb" for w mb
    using assms that unfolding ordered_def shrinks_def by blast
  ultimately show ?thesis using assms unfolding ordered_def shrinks_def by metis
qed

lemma openIn_shrinks: assumes "shrinks c c'" shows "openIn c' \<subseteq> openIn c"
proof
  fix w assume "w \<in> openIn c'"
  then obtain y where y: "windows c' w = Some y" "\<not> wn_closed y" by (auto simp: openIn_def)
  then obtain x where "windows c w = Some x" "shrinksTo x y" using shrinks_window[OF assms] by metis
  then show "w \<in> openIn c" using y(2) by (auto simp: openIn_def shrinksTo_def)
qed

lemma finite_openIn: "ordered rank R c \<Longrightarrow> finite (openIn c)"
  unfolding ordered_def openIn_def by (auto elim!: rev_finite_subset)

lemma card_openIn: "ordered rank R c \<Longrightarrow> shrinks c c' \<Longrightarrow> card (openIn c') \<le> card (openIn c)"
  by (rule card_mono[OF finite_openIn openIn_shrinks])

lemma fuelFor_mono: "k \<le> k' \<Longrightarrow> r \<le> r' \<Longrightarrow> fuelFor R k r \<le> fuelFor R k' r'"
  unfolding fuelFor_def by (simp add: add_mono mult_le_mono1)

text \<open>Runs that return where they are run, step by step.\<close>

lemma andThen_returned: "m c = Some (Inr x, c1) \<Longrightarrow> andThen m f c = f x c1"
  by (simp add: andThen_def)

lemma each_returned:
  assumes "\<And>x c. x \<in> set xs \<Longrightarrow> P c \<Longrightarrow> \<exists>c'. f x c = Some (Inr (), c') \<and> P c'" "P c"
  shows "\<exists>c'. each f xs c = Some (Inr (), c') \<and> P c'"
  using assms
proof (induction xs arbitrary: c)
  case (Cons x xs)
  then obtain c1 where "f x c = Some (Inr (), c1)" "P c1" by (meson list.set_intros(1))
  then show ?case using Cons by (simp add: andThen_returned)
qed (simp add: run_simps)

lemma closeEach_returned:
  assumes "\<And>w c. w \<in> set ws \<Longrightarrow> P c \<Longrightarrow> \<exists>ok c'. close w c = Some (Inr ok, c') \<and> P c'" "P c"
  shows "\<exists>ok c'. closeEach close ws c = Some (Inr ok, c') \<and> P c'"
  using assms
proof (induction ws arbitrary: c)
  case (Cons w ws)
  then obtain ok c1 where "close w c = Some (Inr ok, c1)" "P c1" by (meson list.set_intros(1))
  then show ?case using Cons by (cases ok) (auto simp: andThen_returned run_simps)
qed (simp add: run_simps, blast)

lemma sweep_returned:
  assumes "\<And>w c. w \<in> set ws \<Longrightarrow> P c \<Longrightarrow> \<exists>ok c'. close w c = Some (Inr ok, c') \<and> P c'" "P c"
  shows "\<exists>r c'. sweepWindows close ws c = Some (Inr r, c') \<and> P c'"
  using assms
proof (induction ws arbitrary: c)
  case (Cons w ws)
  then obtain ok c1 where "close w c = Some (Inr ok, c1)" "P c1" by (meson list.set_intros(1))
  then show ?case using Cons by (cases ok) (auto simp: andThen_returned run_simps)
qed (simp add: run_simps, blast)

text \<open>Settling a close that was refused: the question about it is taken down, and nothing more follows.\<close>

lemma refused_returns: "forceClose c w = None \<Longrightarrow> \<exists>c'. CloseDecided (Suc n) w False c = Some (Inr (), c') \<and> shrinks c c'"
  by (simp add: closeDecided_def dismissForceClose_def andThen_returned run_simps Let_def shrinks_same)

lemma settle_refused:
  assumes "forceClose c w = None"
  shows "\<exists>c'. settleClose close (CloseDecided (Suc n)) w False c = Some (Inr (), c') \<and> shrinks c c'"
proof -
  have d: "forceClose (SetDeciding w False c) w = None" using assms by (simp add: SetDeciding_def onWindow_def)
  have "\<exists>c'. CloseSettled (CloseDecided (Suc n)) w False (SetDeciding w False c) = Some (Inr (), c') \<and> shrinks (SetDeciding w False c) c'"
    using refused_returns[OF d] by (auto simp: CloseSettled_def run_simps split: option.split)
  then show ?thesis
    using shrinks_trans[OF shrinks_SetDeciding] by (fastforce simp: settleClose_def andThen_returned run_simps)
qed


lemma dismiss_returns:
  assumes "ordered rank R c"
  shows "\<exists>c'. dismissForceClose close (CloseDecided (Suc n)) w c = Some (Inr (), c') \<and> shrinks c c'"
proof (cases "forceClose c w")
  case None then show ?thesis by (simp add: dismissForceClose_def run_simps)
next
  case (Some mb)
  let ?c0 = "c\<lparr>forceClose := (forceClose c)(w := None)\<rparr>"
  let ?P = "\<lambda>c'. shrinks c c' \<and> forceClose c' w = None"
  have "\<exists>c'. each (\<lambda>v. settleClose close (CloseDecided (Suc n)) v False) (mb_waiters mb) ?c0 = Some (Inr (), c') \<and> ?P c'"
  proof (rule each_returned)
    fix v d assume v: "v \<in> set (mb_waiters mb)" and d: "?P d"
    then have "v = w" using assms Some unfolding ordered_def by blast
    then obtain d' where d': "settleClose close (CloseDecided (Suc n)) v False d = Some (Inr (), d')" "shrinks d d'"
      using settle_refused d by blast
    then have "forceClose d' w = None" using d unfolding shrinks_def by (metis not_None_eq)
    then show "\<exists>d'. settleClose close (CloseDecided (Suc n)) v False d = Some (Inr (), d') \<and> ?P d'"
      using d d' shrinks_trans by blast
  qed (auto simp: shrinks_def split: if_splits)
  then show ?thesis using Some by (auto simp: dismissForceClose_def tellThem_def)
qed

lemma openIn_less:
  assumes "ordered rank R c" "shrinks c c'" "w \<in> openIn c" "w \<notin> openIn c'"
  shows "card (openIn c') < card (openIn c)"
  using assms by (intro psubset_card_mono finite_openIn) (auto dest: openIn_shrinks)

text \<open>The window that has agreed: what is left to run is the desktop's, with one window fewer to close.\<close>

lemma finish_returns:
  assumes o': "ordered rank R c0" and w: "w \<in> openIn c0" "shrinks c0 c"
    and rest: "\<And>d. ordered rank R d \<Longrightarrow> card (openIn d) < card (openIn c0) \<Longrightarrow> \<exists>d'. decided w True d = Some (Inr (), d')"
  shows "\<exists>ok c'. finishClose decided w c = Some (Inr ok, c')"
proof -
  let ?c2 = "onWindow (\<lambda>x. x\<lparr>wn_closed := True\<rparr>) w (removeChildWindow w c)"
  let ?c3 = "?c2\<lparr>sweep := filter (\<lambda>v. v \<noteq> w) (sweep ?c2)\<rparr>"
  let ?c4 = "SetDeciding w False (EmitEvent deskServices (closedEvent w) ?c3)"
  have "shrinks (removeChildWindow w c) ?c2" by (rule shrinks_onWindow) (simp add: shrinksTo_def)
  then have c2: "shrinks c ?c2" by (rule shrinks_trans[OF shrinks_removeChildWindow])
  have c3: "shrinks c (EmitEvent deskServices (closedEvent w) ?c3)" by (rule shrinks_trans[OF c2 shrinks_same]) simp_all
  have c4: "shrinks c0 ?c4" by (rule shrinks_trans[OF w(2) shrinks_trans[OF c3 shrinks_SetDeciding]])
  have "w \<notin> openIn ?c2" by (auto simp: openIn_def onWindow_def)
  moreover have "openIn ?c4 \<subseteq> openIn ?c2"
    by (rule openIn_shrinks, rule shrinks_trans[OF shrinks_same shrinks_SetDeciding]) simp_all
  ultimately have "w \<notin> openIn ?c4" by blast
  then have "card (openIn ?c4) < card (openIn c0)" using openIn_less[OF o' c4 w(1)] by blast
  then obtain d' where "decided w True ?c4 = Some (Inr (), d')" using rest ordered_shrinks[OF o' c4] by blast
  then have "\<exists>d'. CloseSettled decided w True ?c4 = Some (Inr (), d')"
    by (auto simp: CloseSettled_def run_simps split: option.split)
  then show ?thesis
    by (auto simp: finishClose_def Let_def run_simps andThen_returned split: option.split)
qed

lemma quit_returns:
  assumes o': "ordered rank R c"
    and closes: "\<And>w d. ordered rank R d \<Longrightarrow> shrinks c d \<Longrightarrow> \<exists>ok d'. close w d = Some (Inr ok, d') \<and> shrinks d d'"
  shows "\<exists>c'. QuitWithCode close code c = Some (Inr (), c')"
proof -
  have "\<exists>r c'. sweepWindows close (sweep c) c = Some (Inr r, c') \<and> (ordered rank R c' \<and> shrinks c c')"
  proof (rule sweep_returned)
    fix w d assume "ordered rank R d \<and> shrinks c d"
    then show "\<exists>ok d'. close w d = Some (Inr ok, d') \<and> (ordered rank R d' \<and> shrinks c d')"
      using closes[of d w] ordered_shrinks shrinks_trans by blast
  qed (simp add: o')
  then show ?thesis
    by (auto simp: QuitWithCode_def closeEveryWindow_def andThen_def run_simps split: prod.split)
qed


lemma knot_returns:
  "(\<forall>c w. ordered rank R c \<longrightarrow> fuelFor R (card (openIn c)) (rank w) \<le> n \<longrightarrow> (\<exists>ok c'. attemptClose n w c = Some (Inr ok, c')))
   \<and> (\<forall>c w. ordered rank R c \<longrightarrow> fuelFor R (card (openIn c)) R + 1 \<le> n \<longrightarrow> (\<exists>c'. CloseDecided n w True c = Some (Inr (), c')))"
  (is "?A n \<and> ?B n")
proof (induction n)
  case 0 show ?case by (simp add: fuelFor_def)
next
  case (Suc n)
  have "\<exists>ok c'. attemptClose (Suc n) w c = Some (Inr ok, c')"
    if o': "ordered rank R c" and fuel: "fuelFor R (card (openIn c)) (rank w) \<le> Suc n" for c w
  proof (cases "\<exists>x. windows c w = Some x \<and> \<not> wn_closed x")
    case False then show ?thesis by (auto simp: attempt_def run_simps split: option.split)
  next
    case True
    then obtain x where x: "windows c w = Some x" "\<not> wn_closed x" by blast
    obtain ok c1 where ok: "onClose w x c = (ok, c1)" by fastforce
    have c1: "shrinks c c1" "ordered rank R c1" using shrinks_onClose[OF ok] ordered_shrinks[OF o'] by blast+
    have k: "card (openIn c) > 0" using x finite_openIn[OF o'] by (auto simp: openIn_def card_gt_0_iff)
    let ?kids = "case windows c1 w of None \<Rightarrow> [] | Some y \<Rightarrow> wn_children y"
    have kids: "rank v < rank w" if "v \<in> set ?kids" for v
      using that c1(2) unfolding ordered_def by (cases "windows c1 w") auto
    have "\<exists>ok c2. closeEach (attemptClose n) ?kids c1 = Some (Inr ok, c2) \<and> shrinks c1 c2"
    proof (rule closeEach_returned)
      fix v d assume v: "v \<in> set ?kids" and d: "shrinks c1 d"
      then have od: "ordered rank R d" "card (openIn d) \<le> card (openIn c)"
        using ordered_shrinks[OF c1(2)] card_openIn[OF o'] shrinks_trans[OF c1(1)] by blast+
      have "fuelFor R (card (openIn d)) (rank v) < fuelFor R (card (openIn c)) (rank w)"
        using fuelFor_mono[OF od(2), of "rank v" "rank v" R] kids[OF v] by (simp add: fuelFor_def)
      then have "fuelFor R (card (openIn d)) (rank v) \<le> n" using fuel by simp
      then obtain ok d' where "attemptClose n v d = Some (Inr ok, d')" using Suc.IH od(1) by blast
      then show "\<exists>ok d'. attemptClose n v d = Some (Inr ok, d') \<and> shrinks c1 d'"
        using knot_shrinks[of n v] d shrinks_trans unfolding every_def by blast
    qed simp
    then obtain all c2 where c2: "closeEach (attemptClose n) ?kids c1 = Some (Inr all, c2)" "shrinks c1 c2" by blast
    have o2: "ordered rank R c2" "card (openIn c2) \<le> card (openIn c)"
      using ordered_shrinks[OF c1(2) c2(2)] card_openIn[OF o' shrinks_trans[OF c1(1) c2(2)]] .
    have "\<exists>ok c3. finishClose (CloseDecided n) w c2 = Some (Inr ok, c3)"
    proof (rule finish_returns[where rank = rank and R = R, OF o'])
      show "w \<in> openIn c" "shrinks c c2" using x shrinks_trans[OF c1(1) c2(2)] by (auto simp: openIn_def)
      fix d assume d: "ordered rank R d" "card (openIn d) < card (openIn c)"
      then have "fuelFor R (card (openIn d)) R + 1 \<le> n"
        using fuel mult_le_mono1[of "Suc (card (openIn d))" "card (openIn c)" "R + 2"] by (simp add: fuelFor_def)
      then show "\<exists>d'. CloseDecided n w True d = Some (Inr (), d')" using Suc.IH d(1) by blast
    qed
    then show ?thesis using x ok c2(1) by (cases ok; cases all) (auto simp: attempt_def run_simps andThen_returned)
  qed
  moreover have "\<exists>c'. CloseDecided (Suc n) w True c = Some (Inr (), c')"
    if o': "ordered rank R c" and fuel: "fuelFor R (card (openIn c)) R + 1 \<le> Suc n" for c w
  proof -
    obtain m where m: "n = Suc m" using fuel by (cases n) (auto simp: fuelFor_def)
    obtain c1 where c1: "dismissForceClose (attemptClose n) (CloseDecided n) w c = Some (Inr (), c1)" "shrinks c c1"
      using dismiss_returns[OF o'] m by metis
    have o1: "ordered rank R c1" "card (openIn c1) \<le> card (openIn c)" using ordered_shrinks[OF o' c1(2)] card_openIn[OF o' c1(2)] .
    have "\<exists>c'. QuitWithCode (attemptClose n) (quitCode c1) c1 = Some (Inr (), c')"
    proof (rule quit_returns[OF o1(1)])
      fix v d assume d: "ordered rank R d" "shrinks c1 d"
      have "rank v \<le> R" using o' unfolding ordered_def by blast
      then have "fuelFor R (card (openIn d)) (rank v) \<le> fuelFor R (card (openIn c)) R"
        using card_openIn[OF o1(1) d(2)] o1(2) by (intro fuelFor_mono) simp_all
      then have "fuelFor R (card (openIn d)) (rank v) \<le> n" using fuel by simp
      then obtain ok d' where "attemptClose n v d = Some (Inr ok, d')" using Suc.IH d(1) by blast
      then show "\<exists>ok d'. attemptClose n v d = Some (Inr ok, d') \<and> shrinks d d'" using knot_shrinks[of n v] unfolding every_def by blast
    qed
    then show ?thesis using c1(1) by (auto simp: closeDecided_def andThen_returned run_simps Let_def)
  qed
  ultimately show ?case by blast
qed


text \<open>Fuel for a desktop: enough for any of what a person or an application does.\<close>

definition fueled :: "(u64 \<Rightarrow> nat) \<Rightarrow> nat \<Rightarrow> nat \<Rightarrow> desk \<Rightarrow> bool" where
  "fueled rank R n c \<longleftrightarrow> ordered rank R c \<and> fuelFor R (card (openIn c)) R + 2 \<le> n"

lemma fueled_shrinks: "fueled rank R n c \<Longrightarrow> shrinks c c' \<Longrightarrow> fueled rank R n c'"
proof -
  assume f: "fueled rank R n c" and s: "shrinks c c'"
  then have "ordered rank R c'" "card (openIn c') \<le> card (openIn c)" using ordered_shrinks card_openIn unfolding fueled_def by blast+
  then show ?thesis using f fuelFor_mono[of "card (openIn c')" "card (openIn c)" R R R] unfolding fueled_def by auto
qed

lemma fueled_close:
  assumes "fueled rank R n c" shows "\<exists>ok c'. attemptClose n w c = Some (Inr ok, c') \<and> shrinks c c'"
proof -
  have "rank w \<le> R" "ordered rank R c" using assms unfolding fueled_def ordered_def by blast+
  moreover from this have "fuelFor R (card (openIn c)) (rank w) \<le> n"
    using assms fuelFor_mono[of "card (openIn c)" "card (openIn c)" "rank w" R R] unfolding fueled_def by simp
  ultimately show ?thesis using knot_returns[where rank = rank and R = R and n = n] knot_shrinks[of n w] unfolding every_def by blast
qed

lemma fueled_decided:
  assumes "fueled rank R n c" shows "\<exists>c'. CloseDecided n w closed c = Some (Inr (), c') \<and> shrinks c c'"
proof -
  have "\<exists>c'. CloseDecided n w closed c = Some (Inr (), c')"
  proof (cases closed)
    case True
    have "fuelFor R (card (openIn c)) R + 1 \<le> n" "ordered rank R c" using assms unfolding fueled_def by simp_all
    then have "\<exists>c'. CloseDecided n w True c = Some (Inr (), c')" using knot_returns[where rank = rank and R = R and n = n] by blast
    then show ?thesis using True by simp
  next
    case False
    obtain m where m: "n = Suc (Suc m)" using assms by (metis fueled_def add_2_eq_Suc' le_Suc_ex add_Suc_shift plus_nat.simps(2) add.commute)
    have "ordered rank R c" using assms by (simp add: fueled_def)
    then obtain c1 where "dismissForceClose (attemptClose (Suc m)) (CloseDecided (Suc m)) w c = Some (Inr (), c1)"
      using dismiss_returns by metis
    then show ?thesis using False m by (simp add: closeDecided_def andThen_returned run_simps Let_def)
  qed
  then show ?thesis using knot_shrinks[of n _ w closed] unfolding every_def by blast
qed

lemma fueled_settled:
  "fueled rank R n c \<Longrightarrow> \<exists>c'. CloseSettled (CloseDecided n) w closed c = Some (Inr (), c') \<and> shrinks c c'"
  using fueled_decided by (auto simp: CloseSettled_def run_simps split: option.split)

lemma fueled_settle:
  assumes "fueled rank R n c"
  shows "\<exists>c'. settleClose (attemptClose n) (CloseDecided n) w mayClose c = Some (Inr (), c') \<and> shrinks c c'"
proof -
  let ?c1 = "SetDeciding w False c" and ?allow = "onWindow (\<lambda>x. x\<lparr>wn_allowing := True\<rparr>) w"
  have c1: "shrinks c ?c1" by (rule shrinks_SetDeciding)
  have "shrinks ?c1 (?allow ?c1)" by (rule shrinks_onWindow) (simp add: shrinksTo_def)
  then have c2: "shrinks c (?allow ?c1)" using c1 shrinks_trans by blast
  obtain ok c3 where c3: "attemptClose n w (?allow ?c1) = Some (Inr ok, c3)" "shrinks (?allow ?c1) c3"
    using fueled_close[OF fueled_shrinks[OF assms c2]] by blast
  show ?thesis
  proof (cases mayClose)
    case True
    obtain c4 where c4: "CloseSettled (CloseDecided n) w ok c3 = Some (Inr (), c4)" "shrinks c3 c4"
      using fueled_settled[OF fueled_shrinks[OF assms shrinks_trans[OF c2 c3(2)]]] by blast
    then have "settleClose (attemptClose n) (CloseDecided n) w mayClose c = Some (Inr (), c4)"
      using c3(1) True by (simp add: settleClose_def andThen_def run_simps)
    then show ?thesis using shrinks_trans[OF c2 shrinks_trans[OF c3(2) c4(2)]] by blast
  next
    case False
    obtain c4 where c4: "CloseSettled (CloseDecided n) w False ?c1 = Some (Inr (), c4)" "shrinks ?c1 c4"
      using fueled_settled[OF fueled_shrinks[OF assms c1]] by blast
    then have "settleClose (attemptClose n) (CloseDecided n) w mayClose c = Some (Inr (), c4)"
      using False by (simp add: settleClose_def andThen_def run_simps)
    then show ?thesis using shrinks_trans[OF c1 c4(2)] by blast
  qed
qed

lemma fueled_tell:
  assumes "fueled rank R n c" shows "\<exists>c'. tellThem (attemptClose n) (CloseDecided n) yes mb c = Some (Inr (), c') \<and> shrinks c c'"
  unfolding tellThem_def
proof (rule each_returned)
  fix w d assume "shrinks c d"
  then show "\<exists>d'. settleClose (attemptClose n) (CloseDecided n) w yes d = Some (Inr (), d') \<and> shrinks c d'"
    using fueled_settle[OF fueled_shrinks[OF assms]] shrinks_trans by blast
qed simp


subsection \<open>Closed is closed\<close>

text \<open>No closed window has an open child.\<close>

definition tidy :: "desk \<Rightarrow> bool" where
  "tidy c \<longleftrightarrow> (\<forall>w x v. windows c w = Some x \<longrightarrow> wn_closed x \<longrightarrow> v \<in> set (wn_children x) \<longrightarrow> isClosed v c)"

lemma isClosed_shrinks: assumes "shrinks c c'" "isClosed w c" shows "isClosed w c'"
proof (cases "windows c' w")
  case (Some y)
  obtain x where "windows c w = Some x" "shrinksTo x y" using shrinks_window[OF assms(1) Some] .
  then show ?thesis using assms(2) Some by (simp add: isClosed_def shrinksTo_def)
qed (simp add: isClosed_def)

text \<open>Steps that close no window.\<close>

definition sameClosed :: "desk \<Rightarrow> desk \<Rightarrow> bool" where
  "sameClosed c c' \<longleftrightarrow> (\<forall>w. isClosed w c' = isClosed w c)"

lemma tidy_same: assumes "tidy c" "shrinks c c'" "sameClosed c c'" shows "tidy c'"
  unfolding tidy_def
proof (intro allI impI)
  fix w y v assume y: "windows c' w = Some y" "wn_closed y" "v \<in> set (wn_children y)"
  obtain x where x: "windows c w = Some x" "shrinksTo x y" using shrinks_window[OF assms(2) y(1)] .
  have "isClosed w c'" using y by (simp add: isClosed_def)
  then have "wn_closed x" using assms(3) x(1) by (simp add: sameClosed_def isClosed_def)
  moreover have "v \<in> set (wn_children x)" using x(2) y(3) unfolding shrinksTo_def by blast
  ultimately have "isClosed v c" using assms(1) x(1) unfolding tidy_def by blast
  then show "isClosed v c'" by (rule isClosed_shrinks[OF assms(2)])
qed

lemma sameClosed_onWindow: "(\<And>x. wn_closed (f x) = wn_closed x) \<Longrightarrow> sameClosed c (onWindow f w c)"
  by (auto simp: sameClosed_def isClosed_def onWindow_def split: option.split)

lemma sameClosed_windows: "windows c' = windows c \<Longrightarrow> sameClosed c c'"
  by (simp add: sameClosed_def isClosed_def)

lemma sameClosed_trans: "sameClosed a b \<Longrightarrow> sameClosed b c \<Longrightarrow> sameClosed a c" by (simp add: sameClosed_def)

lemma sameClosed_onClose: assumes "onClose w x c = (ok, c')" shows "sameClosed c c'"
proof -
  have "sameClosed c c'" if ask: "askToClose w c = (ok, c')"
  proof -
    obtain d c1 where d: "Deciding deskServices (lastID c + 1) (closingEvent w) closeDecision w c = (d, c1)" by fastforce
    have "sameClosed c (c1\<lparr>lastID := i\<rparr>)" "sameClosed c c1" for i using Deciding_desk(1)[OF d] by (simp_all add: sameClosed_windows)
    moreover have "sameClosed z (SetDeciding w True z)" for z unfolding SetDeciding_def by (rule sameClosed_onWindow) simp
    ultimately have "sameClosed c c1" "sameClosed c (SetDeciding w True (c1\<lparr>lastID := i\<rparr>))" for i using sameClosed_trans by blast+
    then show ?thesis using ask d by (auto simp: askToClose_def split: option.splits)
  qed
  moreover have "sameClosed c (onWindow (\<lambda>x. x\<lparr>wn_allowing := False\<rparr>) w c)" by (rule sameClosed_onWindow) simp
  ultimately show ?thesis using assms by (auto simp: onClose_def sameClosed_def split: if_splits)
qed

lemma sameClosed_removeChildWindow: "sameClosed c (removeChildWindow w c)"
  by (auto simp: removeChildWindow_def sameClosed_windows intro!: sameClosed_onWindow split: option.split)

text \<open>What keeps a tidy desktop tidy.\<close>

definition tidily :: "desk \<Rightarrow> desk \<Rightarrow> bool" where "tidily c c' \<longleftrightarrow> shrinks c c' \<and> (tidy c \<longrightarrow> tidy c')"

lemma tidily_preorder: "reflp tidily" "transp tidily"
  by (auto simp: reflp_def transp_def tidily_def intro: shrinks_trans)

lemma tidily_same: "shrinks c c' \<Longrightarrow> sameClosed c c' \<Longrightarrow> tidily c c'"
  using tidy_same by (auto simp: tidily_def)

lemmas tidily_rules = every_basic(1,2)[OF tidily_preorder(1)] every_basic(3) every_andThen[OF tidily_preorder(2)] every_each[OF tidily_preorder]

lemma tidily_shift: "every tidily m \<Longrightarrow> tidily c c0 \<Longrightarrow> m c0 = Some (r, c') \<Longrightarrow> tidily c c'"
  using tidily_preorder(2) unfolding every_def transp_def by blast

lemma tidily_SetDeciding: "tidily c (SetDeciding w b c)"
  by (rule tidily_same[OF shrinks_SetDeciding]) (unfold SetDeciding_def, rule sameClosed_onWindow, simp)


lemma isClosed_removeChildWindow [simp]: "isClosed v (removeChildWindow w c) = isClosed v c"
  using sameClosed_removeChildWindow unfolding sameClosed_def by blast

lemma tidy_closing:
  assumes "tidy c" "\<And>x v. windows c w = Some x \<Longrightarrow> v \<in> set (wn_children x) \<Longrightarrow> isClosed v c"
  shows "tidy (onWindow (\<lambda>x. x\<lparr>wn_closed := True\<rparr>) w (removeChildWindow w c))" (is "tidy ?c2")
    "isClosed w (onWindow (\<lambda>x. x\<lparr>wn_closed := True\<rparr>) w (removeChildWindow w c))"
proof -
  have s: "shrinks (removeChildWindow w c) ?c2" by (rule shrinks_onWindow) (simp add: shrinksTo_def)
  show "tidy ?c2" unfolding tidy_def
  proof (intro allI impI)
    fix u y v assume y: "windows ?c2 u = Some y" "wn_closed y" "v \<in> set (wn_children y)"
    obtain z where z: "windows (removeChildWindow w c) u = Some z" "shrinksTo z y" using shrinks_window[OF s y(1)] .
    obtain x where x: "windows c u = Some x" "shrinksTo x z" using shrinks_window[OF shrinks_removeChildWindow z(1)] .
    have v: "v \<in> set (wn_children x)" using y(3) z(2) x(2) unfolding shrinksTo_def by blast
    have "isClosed v c"
    proof (cases "u = w")
      case True then show ?thesis using assms(2) x(1) v by blast
    next
      case False
      then have "wn_closed z" using y(1,2) z(1) by (simp add: onWindow_def)
      then have "isClosed u c" using z(1) isClosed_removeChildWindow[of u w c] by (simp add: isClosed_def)
      then show ?thesis using assms(1) x(1) v unfolding tidy_def by (simp add: isClosed_def)
    qed
    then show "isClosed v ?c2" using isClosed_shrinks[OF s] by simp
  qed
  show "isClosed w ?c2" by (simp add: isClosed_def onWindow_def split: option.split)
qed

locale tidying = shrinking +
  assumes close_tidily: "every tidily (close w)"
    and close_closes: "close w c = Some (Inr True, c') \<Longrightarrow> isClosed w c'"
    and decided_tidily: "every tidily (decided w closed)"
begin

lemma settled_tidily: "every tidily (CloseSettled decided w closed)"
  using decided_tidily tidily_preorder(1) unfolding every_def CloseSettled_def reflp_def
  by (auto simp: run_simps split: option.splits if_splits)

lemma finish_tidies:
  assumes run: "finishClose decided w c = Some (r, c')"
    and kids: "\<And>x v. windows c w = Some x \<Longrightarrow> v \<in> set (wn_children x) \<Longrightarrow> isClosed v c"
  shows "tidily c c' \<and> isClosed w c'"
proof -
  let ?c2 = "onWindow (\<lambda>x. x\<lparr>wn_closed := True\<rparr>) w (removeChildWindow w c)"
  let ?c3 = "?c2\<lparr>sweep := filter (\<lambda>v. v \<noteq> w) (sweep ?c2)\<rparr>"
  let ?c4 = "EmitEvent deskServices (closedEvent w) ?c3"
  have "shrinks (removeChildWindow w c) ?c2" by (rule shrinks_onWindow) (simp add: shrinksTo_def)
  then have s: "shrinks c ?c2" by (rule shrinks_trans[OF shrinks_removeChildWindow])
  have "tidy ?c2" if "tidy c" using tidy_closing(1)[OF that kids] .
  then have c2: "tidily c ?c2" using s unfolding tidily_def by blast
  have "tidily ?c2 ?c3" "tidily ?c3 ?c4" by (auto intro!: tidily_same shrinks_same sameClosed_windows)
  then have c4: "tidily c ?c3" "tidily c ?c4" "tidily c (SetDeciding w False ?c4)"
    using c2 tidily_SetDeciding tidily_preorder(2) unfolding transp_def by blast+
  have w: "isClosed w ?c3" "isClosed w ?c4" "isClosed w (SetDeciding w False ?c4)"
    using tidy_closing(2)[of c w] by (auto simp: isClosed_def SetDeciding_def onWindow_def split: option.splits)
  have "every tidily (andThen (CloseSettled decided w True) (\<lambda>u. returns True))" by (intro tidily_rules settled_tidily)
  then have rest: "andThen (CloseSettled decided w True) (\<lambda>u. returns True) (SetDeciding w False ?c4) = Some (r, c')
      \<Longrightarrow> tidily c c' \<and> isClosed w c'"
    using tidily_shift[OF _ c4(3)] isClosed_shrinks[OF _ w(3)] unfolding every_def tidily_def by blast
  show ?thesis
    using run c4 w rest by (auto simp: finishClose_def Let_def run_simps split: option.splits if_splits)
qed

lemma closeEach_tidily: "every tidily (closeEach close ws)"
  by (induction ws) (auto intro!: tidily_rules close_tidily)

lemma closeEach_closes: "closeEach close ws c = Some (Inr True, c') \<Longrightarrow> v \<in> set ws \<Longrightarrow> isClosed v c'"
proof (induction ws arbitrary: c)
  case (Cons w ws)
  obtain ok c1 where one: "close w c = Some (Inr ok, c1)" "(if ok then closeEach close ws else returns False) c1 = Some (Inr True, c')"
    using Cons.prems(1) by (auto simp: andThen_Some)
  then have rest: "ok" "closeEach close ws c1 = Some (Inr True, c')" by (auto simp: run_simps split: if_splits)
  show ?case
  proof (cases "v = w")
    case True
    then have "isClosed v c1" using close_closes one(1) rest(1) by simp
    then show ?thesis using isClosed_shrinks closeEach_shrinks rest(2) unfolding every_def by blast
  next
    case False then show ?thesis using Cons rest by simp
  qed
qed simp

lemma attempt_tidies: "attempt close decided w c = Some (r, c') \<Longrightarrow> tidily c c' \<and> (r = Inr True \<longrightarrow> isClosed w c')"
proof -
  assume run: "attempt close decided w c = Some (r, c')"
  show ?thesis
  proof (cases "\<exists>x. windows c w = Some x \<and> \<not> wn_closed x")
    case False
    then have "r = Inr True" "c' = c" using run by (auto simp: attempt_def run_simps split: option.splits)
    moreover have "isClosed w c" using False by (auto simp: isClosed_def split: option.split)
    ultimately show ?thesis using tidily_preorder(1) by (simp add: reflp_def)
  next
    case True
    then obtain x where x: "windows c w = Some x" "\<not> wn_closed x" by blast
    obtain ok c1 where ok: "onClose w x c = (ok, c1)" by fastforce
    have c1: "tidily c c1" using tidily_same shrinks_onClose[OF ok] sameClosed_onClose[OF ok] by blast
    let ?kids = "case windows c1 w of None \<Rightarrow> [] | Some y \<Rightarrow> wn_children y"
    have go: "if ok then andThen (closeEach close ?kids) (\<lambda>ok. if ok then finishClose decided w else returns False) c1 = Some (r, c')
        else r = Inr False \<and> c' = c1"
      using run x ok by (auto simp: attempt_def run_simps split: bool.splits)
    show ?thesis
    proof (cases ok)
      case False then show ?thesis using go c1 by simp
    next
      case True
      then consider e c2 where "closeEach close ?kids c1 = Some (Inl e, c2)" "r = Inl e" "c' = c2"
        | c2 where "closeEach close ?kids c1 = Some (Inr False, c2)" "r = Inr False" "c' = c2"
        | c2 where "closeEach close ?kids c1 = Some (Inr True, c2)" "finishClose decided w c2 = Some (r, c')"
      proof (cases "closeEach close ?kids c1")
        case None then show thesis using go True by (simp add: andThen_def)
      next
        case (Some p)
        obtain q c2 where p: "p = (q, c2)" by fastforce
        show thesis
        proof (cases q)
          case (Inl e)
          have "r = Inl e" "c' = c2" using go True Some p Inl by (auto simp: andThen_def)
          then show thesis using that(1)[of e c2] Some p Inl by simp
        next
          case (Inr b)
          have g: "(if b then finishClose decided w else returns False) c2 = Some (r, c')"
            using go True Some p Inr by (simp add: andThen_def)
          show thesis
          proof (cases b)
            case True
            then have "finishClose decided w c2 = Some (r, c')" using g by simp
            then show thesis using that(3)[of c2] Some p Inr True by simp
          next
            case False
            have "r = Inr False" "c' = c2" using g False by (auto simp: run_simps)
            then show thesis using that(2)[of c2] Some p Inr False by simp
          qed
        qed
      qed
      then show ?thesis
      proof cases
        case 1 then show ?thesis using tidily_shift[OF closeEach_tidily c1] by blast
      next
        case 2 then show ?thesis using tidily_shift[OF closeEach_tidily c1] by blast
      next
        case 3
        have c2: "tidily c c2" using tidily_shift[OF closeEach_tidily c1 3(1)] .
        have s: "shrinks c1 c2" using closeEach_shrinks 3(1) unfolding every_def by blast
        have "isClosed v c2" if y: "windows c2 w = Some y" "v \<in> set (wn_children y)" for y v
        proof -
          obtain z where "windows c1 w = Some z" "shrinksTo z y" using shrinks_window[OF s y(1)] .
          then have "v \<in> set ?kids" using y(2) by (auto simp: shrinksTo_def)
          then show ?thesis using closeEach_closes[OF 3(1)] by blast
        qed
        then show ?thesis using finish_tidies[OF 3(2)] c2 tidily_preorder(2) unfolding transp_def by blast
      qed
    qed
  qed
qed

end

end
