(* ===== verification/WindowQuits.thy ===== *)
theory WindowQuits
  imports WindowFacts
begin

text \<open>
  What closing windows comes to: every close and every quit returns, a closed window stays closed and leaves
  no open child behind, a quit waits for an answer that is coming and for nothing else, and two ways in which
  the desktop's own question loses the answer.
\<close>

subsection \<open>The desktop keeps itself tidy\<close>

context tidying
begin

lemma settleClose_tidily: "every tidily (settleClose close decided w mayClose)"
proof -
  have "tidily c (onWindow (\<lambda>x. x\<lparr>wn_allowing := True\<rparr>) w c)" for c
    by (rule tidily_same[OF shrinks_onWindow sameClosed_onWindow]) (simp_all add: shrinksTo_def)
  then show ?thesis
    unfolding settleClose_def by (auto intro!: tidily_rules tidily_SetDeciding settled_tidily close_tidily)
qed

lemma tellThem_tidily: "every tidily (tellThem close decided yes mb)"
  unfolding tellThem_def by (intro tidily_rules settleClose_tidily)

lemma tidily_unasked: "tidily c (c\<lparr>forceClose := (forceClose c)(w := None)\<rparr>)"
  by (rule tidily_same) (auto simp: shrinks_def intro!: sameClosed_windows split: if_splits)

lemma dismiss_tidily: "every tidily (dismissForceClose close decided w)"
  unfolding every_def
proof (intro allI impI)
  fix c r c' assume run: "dismissForceClose close decided w c = Some (r, c')"
  show "tidily c c'"
  proof (cases "forceClose c w")
    case None then show ?thesis using run tidily_preorder(1) by (simp add: dismissForceClose_def run_simps reflp_def)
  next
    case (Some mb)
    then show ?thesis using run tidily_shift[OF tellThem_tidily tidily_unasked] by (simp add: dismissForceClose_def)
  qed
qed

lemma sweep_tidily: "every tidily (sweepWindows close ws)"
proof (induction ws)
  case (Cons w ws)
  have "every tidily (\<lambda>c. returns (False, isDeciding w c) c)" using tidily_preorder(1) by (simp add: every_def run_simps reflp_def)
  then show ?case using Cons by (auto intro!: tidily_rules close_tidily)
qed (auto intro!: tidily_rules)

lemma Quit_tidily: "every tidily (QuitWithCode close code)"
proof -
  have "every tidily (silently (\<lambda>c. if all then ForceQuitWithCode code (c\<lparr>quitWanted := False\<rparr>) else c\<lparr>quitWanted := pending, quitCode := code\<rparr>))"
    for all pending
    by (auto simp: every_def run_simps ForceQuitWithCode_def intro!: tidily_same shrinks_same sameClosed_windows)
  moreover have "every tidily (closeEveryWindow close)" using sweep_tidily unfolding closeEveryWindow_def every_def by blast
  ultimately show ?thesis unfolding QuitWithCode_def by (intro tidily_rules) (auto split: prod.split)
qed

lemma closeDecided_tidily: "every tidily (closeDecided close decided w closed)"
proof -
  have same: "tidily c (c\<lparr>quitWanted := b\<rparr>)" for c b by (intro tidily_same shrinks_same sameClosed_windows) simp_all
  have "every tidily (\<lambda>c. let wanted = quitWanted c; c1 = (if closed then c else c\<lparr>quitWanted := False\<rparr>) in
          if \<not> wanted \<or> \<not> closed then returns () c1 else QuitWithCode close (quitCode c) c1)"
    using Quit_tidily same tidily_preorder(1) by (auto simp: every_def Let_def run_simps reflp_def)
  then show ?thesis unfolding closeDecided_def by (intro tidily_rules dismiss_tidily)
qed

lemma attempt_tidily: "every tidily (attempt close decided w)"
  using attempt_tidies unfolding every_def by blast

text \<open>A sweep that went through closed everything it was given; one that stopped closed what came before.\<close>

lemma sweep_closes: "sweepWindows close ws c = Some (Inr (True, p), c') \<Longrightarrow> v \<in> set ws \<Longrightarrow> isClosed v c'"
proof (induction ws arbitrary: c)
  case (Cons w ws)
  obtain ok c1 where one: "close w c = Some (Inr ok, c1)"
      "(if ok then sweepWindows close ws else (\<lambda>c. returns (False, isDeciding w c) c)) c1 = Some (Inr (True, p), c')"
    using Cons.prems(1) by (auto simp: andThen_Some)
  then have rest: "ok" "sweepWindows close ws c1 = Some (Inr (True, p), c')" by (auto simp: run_simps split: if_splits)
  show ?case
  proof (cases "v = w")
    case True
    then have "isClosed v c1" using close_closes one(1) rest(1) by simp
    then show ?thesis using isClosed_shrinks sweep_shrinks rest(2) unfolding every_def by blast
  next
    case False then show ?thesis using Cons rest by simp
  qed
qed simp

lemma sweep_stops:
  "sweepWindows close ws c = Some (Inr (False, p), c') \<Longrightarrow>
    \<exists>pre w post d. ws = pre @ w # post \<and> (\<forall>v \<in> set pre. isClosed v c') \<and> close w d = Some (Inr False, c') \<and> p = isDeciding w c'"
proof (induction ws arbitrary: c)
  case (Cons w ws)
  obtain ok c1 where one: "close w c = Some (Inr ok, c1)"
      "(if ok then sweepWindows close ws else (\<lambda>c. returns (False, isDeciding w c) c)) c1 = Some (Inr (False, p), c')"
    using Cons.prems(1) by (auto simp: andThen_Some)
  show ?case
  proof (cases ok)
    case True
    then have rest: "sweepWindows close ws c1 = Some (Inr (False, p), c')" using one(2) by simp
    then obtain pre u post d where stop: "ws = pre @ u # post" "\<forall>v \<in> set pre. isClosed v c'" "close u d = Some (Inr False, c')" "p = isDeciding u c'"
      using Cons.IH by blast
    have "isClosed w c1" using close_closes one(1) True by simp
    then have "isClosed w c'" using isClosed_shrinks sweep_shrinks rest unfolding every_def by blast
    then have "w # ws = (w # pre) @ u # post \<and> (\<forall>v \<in> set (w # pre). isClosed v c') \<and> close u d = Some (Inr False, c') \<and> p = isDeciding u c'"
      using stop by simp
    then show ?thesis by blast
  next
    case False
    then have stop: "c' = c1" "p = isDeciding w c'" using one(2) by (auto simp: run_simps)
    then have "w # ws = [] @ w # ws \<and> (\<forall>v \<in> set []. isClosed v c') \<and> close w c = Some (Inr False, c') \<and> p = isDeciding w c'"
      using one(1) False by simp
    then show ?thesis by blast
  qed
qed (simp add: run_simps)

end

lemma knot_tidies:
  "(\<forall>w. every tidily (attemptClose n w)) \<and> (\<forall>v closed. every tidily (CloseDecided n v closed))
     \<and> (\<forall>w c c'. attemptClose n w c = Some (Inr True, c') \<longrightarrow> isClosed w c')"
proof (induction n)
  case (Suc n)
  have t: "tidying (attemptClose n) (CloseDecided n)" using Suc by (intro tidying.intro desk_shrinks.shrinking_axioms tidying_axioms.intro) blast+
  show ?case using tidying.attempt_tidily[OF t] tidying.closeDecided_tidily[OF t] tidying.attempt_tidies[OF t] by simp
qed (simp add: every_def)

interpretation desk_tidies: tidying "attemptClose n" "CloseDecided n" for n
  using knot_tidies by unfold_locales blast+


text \<open>C32. Every close returns: on a desktop whose windows stand in a finite tree and whose questions are about
  their own windows, closing a window, a verdict, a quit, a choice in the desktop's dialog and a destroyed
  window all come back, however a settled close resumes a quit that closes further windows; the fuel that is
  enough grows with the number of open windows times the depth of the tree.\<close>

theorem closes_return:
  assumes "fueled rank R n c"
  shows "(\<exists>ok c'. Close n w c = Some (Inr ok, c')) \<and> (\<exists>c'. closeVerdict n w v c = Some (Inr (), c'))
    \<and> (\<exists>c'. Quit n code c = Some (Inr (), c')) \<and> (\<exists>c'. chooseInBox n w yes c = Some (Inr (), c'))
    \<and> (\<exists>c'. destroyWindow n w c = Some (Inr (), c'))"
proof (intro conjI)
  show "\<exists>ok c'. Close n w c = Some (Inr ok, c')" using fueled_close[OF assms, of w] unfolding Close_def by blast
  have settle: "\<exists>c'. settleClose (attemptClose n) (CloseDecided n) w may c = Some (Inr (), c')" for may using fueled_settle[OF assms] by blast
  then show "\<exists>c'. closeVerdict n w v c = Some (Inr (), c')"
    by (auto simp: closeVerdict_def AskForceClose_def run_simps split: option.split)
  show "\<exists>c'. Quit n code c = Some (Inr (), c')" unfolding Quit_def
  proof (rule quit_returns[where rank = rank and R = R])
    fix u d assume "shrinks c d"
    then show "\<exists>ok d'. attemptClose n u d = Some (Inr ok, d') \<and> shrinks d d'" using fueled_close[OF fueled_shrinks[OF assms]] by blast
  qed (use assms in \<open>simp add: fueled_def\<close>)
  show "\<exists>c'. chooseInBox n w yes c = Some (Inr (), c')"
  proof -
    have "shrinks c (c\<lparr>forceClose := (forceClose c)(w := None)\<rparr>)" by (auto simp: shrinks_def split: if_splits)
    then show ?thesis using fueled_tell[OF fueled_shrinks[OF assms]] by (fastforce simp: chooseInBox_def run_simps split: option.split)
  qed
  show "\<exists>c'. destroyWindow n w c = Some (Inr (), c')"
  proof -
    let ?c1 = "onWindow (\<lambda>x. x\<lparr>wn_asks := False\<rparr>) w c"
    have "shrinks c ?c1" by (rule shrinks_onWindow) (simp add: shrinksTo_def)
    then obtain ok c2 where "attemptClose n w ?c1 = Some (Inr ok, c2)" using fueled_close[OF fueled_shrinks[OF assms]] by blast
    then show ?thesis by (simp add: destroyWindow_def Close_def andThen_returned run_simps)
  qed
qed

text \<open>Whatever a person, an application or the desktop does.\<close>

inductive deskStep :: "desk \<Rightarrow> desk \<Rightarrow> bool" where
  person_closes: "Close n w c = Some (Inr ok, c') \<Longrightarrow> deskStep c c'"
| verdict_comes: "closeVerdict n w v c = Some (Inr (), c') \<Longrightarrow> deskStep c c'"
| person_quits: "Quit n code c = Some (Inr (), c') \<Longrightarrow> deskStep c c'"
| person_chooses: "chooseInBox n w yes c = Some (Inr (), c') \<Longrightarrow> deskStep c c'"
| dialog_closed: "deskStep c (closeBox w c)"
| application_destroys: "destroyWindow n w c = Some (Inr (), c') \<Longrightarrow> deskStep c c'"

definition neverReopens :: "desk \<Rightarrow> desk \<Rightarrow> bool" where
  "neverReopens c c' \<longleftrightarrow> (tidy c \<longrightarrow> tidy c') \<and> (\<forall>w. isClosed w c \<longrightarrow> isClosed w c')"

lemma neverReopens_tidily: "tidily c c' \<Longrightarrow> neverReopens c c'"
  using isClosed_shrinks unfolding tidily_def neverReopens_def by blast

lemma neverReopens_same: "windows c' = windows c \<Longrightarrow> neverReopens c c'"
  by (simp add: neverReopens_def tidy_def isClosed_def)

lemma neverReopens_trans: "neverReopens a b \<Longrightarrow> neverReopens b c \<Longrightarrow> neverReopens a c"
  unfolding neverReopens_def by blast

lemma neverReopens_settle:
  "settleClose (attemptClose n) (CloseDecided n) w yes c = Some (Inr u, c') \<Longrightarrow> neverReopens c c'"
  using desk_tidies.settleClose_tidily neverReopens_tidily unfolding every_def by blast

lemma neverReopens_ask: "AskForceClose n w c = Some (Inr (), c') \<Longrightarrow> neverReopens c c'"
  using neverReopens_settle
  by (auto simp: AskForceClose_def run_simps intro!: neverReopens_same split: option.splits if_splits)

lemma deskStep_keeps: "deskStep c c' \<Longrightarrow> neverReopens c c'"
proof (induction rule: deskStep.induct)
  case (person_closes n w c ok c')
  then show ?case using desk_tidies.close_tidily neverReopens_tidily unfolding every_def Close_def by blast
next
  case (verdict_comes n w v c c')
  then show ?case using neverReopens_settle neverReopens_ask neverReopens_same
    by (auto simp: closeVerdict_def run_simps split: if_splits)
next
  case (person_quits n code c c')
  then show ?case using desk_tidies.Quit_tidily neverReopens_tidily unfolding every_def Quit_def by blast
next
  case (person_chooses n w yes c c')
  show ?case
  proof (cases "forceClose c w")
    case None then show ?thesis using person_chooses by (simp add: chooseInBox_def run_simps neverReopens_same)
  next
    case (Some mb)
    have "every tidily (tellThem (attemptClose n) (CloseDecided n) yes mb)" by (rule desk_tidies.tellThem_tidily)
    from tidily_shift[OF this desk_tidies.tidily_unasked]
    have "tidily c c'" if "mb_shown mb" using person_chooses Some that by (simp add: chooseInBox_def)
    then show ?thesis using person_chooses Some neverReopens_tidily by (cases "mb_shown mb") (auto simp: chooseInBox_def run_simps neverReopens_same)
  qed
next
  case (dialog_closed c w) then show ?case by (simp add: closeBox_def neverReopens_same)
next
  case (application_destroys n w c c')
  let ?c1 = "onWindow (\<lambda>x. x\<lparr>wn_asks := False\<rparr>) w c"
  have "tidily c ?c1" by (rule tidily_same[OF shrinks_onWindow sameClosed_onWindow]) (simp_all add: shrinksTo_def)
  moreover obtain ok c2 where "attemptClose n w ?c1 = Some (Inr ok, c2)" "c' = c2"
    using application_destroys by (auto simp: destroyWindow_def Close_def andThen_Some run_simps)
  ultimately have "tidily c c'" using tidily_shift[OF desk_tidies.close_tidily] by blast
  then show ?case by (rule neverReopens_tidily)
qed

text \<open>C2. Closed is final, and closes the whole of it: however a desktop goes on, with closes, verdicts,
  quits, dialogs and destroyed windows in any order, a closed window is never open again and no closed
  window has an open child; and a close that says the window is gone leaves it, and every child still
  its own, closed.\<close>

theorem closed_is_final_and_whole:
  assumes "tidy c" "deskStep\<^sup>*\<^sup>* c c'"
  shows "tidy c' \<and> (\<forall>w. isClosed w c \<longrightarrow> isClosed w c')
    \<and> (\<forall>n w d. Close n w c' = Some (Inr True, d) \<longrightarrow>
         isClosed w d \<and> (\<forall>x. windows d w = Some x \<longrightarrow> (\<forall>v \<in> set (wn_children x). isClosed v d)))"
proof -
  have keeps: "neverReopens c c'" using assms(2)
    by (induction rule: rtranclp_induct) (auto intro: neverReopens_same neverReopens_trans dest: deskStep_keeps)
  have "isClosed w d \<and> (\<forall>x. windows d w = Some x \<longrightarrow> (\<forall>v \<in> set (wn_children x). isClosed v d))"
    if go: "Close n w c' = Some (Inr True, d)" for n w d
  proof -
    have w: "isClosed w d" using go desk_tidies.close_closes unfolding Close_def by blast
    have "neverReopens c' d" using go deskStep_keeps person_closes by blast
    then have "tidy d" using keeps assms(1) by (simp add: neverReopens_def)
    then show ?thesis using w unfolding tidy_def isClosed_def[of w] by auto
  qed
  then show ?thesis using keeps assms(1) unfolding neverReopens_def by blast
qed

text \<open>C21. A quit ends or says where it waits: one that returns has either closed every window it swept and
  forgotten that it was wanted, with the desktop exiting with the code it was given, or stopped at the first
  window that would not close, with every window before that one closed and nothing after it tried; it is
  then wanted still exactly when that window is waiting on an answer, and its code is kept for then.\<close>

theorem quit_ends_or_waits:
  assumes "Quit n code c = Some (Inr (), c')"
  shows "(\<forall>w \<in> set (sweep c). isClosed w c') \<and> exited c' = Some code \<and> \<not> quitWanted c'
    \<or> (\<exists>pre w post d e. sweep c = pre @ w # post \<and> (\<forall>v \<in> set pre. isClosed v c')
         \<and> Close n w d = Some (Inr False, e) \<and> c' = e\<lparr>quitWanted := isDeciding w e, quitCode := code\<rparr>)"
proof -
  obtain ok p e where sw: "sweepWindows (attemptClose n) (sweep c) c = Some (Inr (ok, p), e)"
    and c': "c' = (if ok then ForceQuitWithCode code (e\<lparr>quitWanted := False\<rparr>) else e\<lparr>quitWanted := p, quitCode := code\<rparr>)"
    using assms by (auto simp: Quit_def QuitWithCode_def closeEveryWindow_def andThen_Some run_simps split: prod.splits)
  have same: "isClosed w c' = isClosed w e" for w by (simp add: c' isClosed_def ForceQuitWithCode_def)
  show ?thesis
  proof (cases ok)
    case True
    then show ?thesis using desk_tidies.sweep_closes sw same by (simp add: c' ForceQuitWithCode_def)
  next
    case False
    then obtain pre w post d where stop: "sweep c = pre @ w # post" "\<forall>v \<in> set pre. isClosed v e"
        "attemptClose n w d = Some (Inr False, e)" "p = isDeciding w e"
      using desk_tidies.sweep_stops[of n "sweep c" c p e] sw by auto
    have c'': "c' = e\<lparr>quitWanted := isDeciding w e, quitCode := code\<rparr>" using c' False stop(4) by simp
    show ?thesis
      by (intro disjI2 exI[of _ pre] exI[of _ w] exI[of _ post] exI[of _ d] exI[of _ e] conjI)
        (use stop same c'' in \<open>auto simp: Close_def\<close>)
  qed
qed


subsection \<open>Where the desktop's own question loses the answer\<close>

text \<open>The desktop with one window that has been asked about closing, and a quit waiting on it.\<close>

definition lastAsked :: "u64 \<Rightarrow> window \<Rightarrow> desk \<Rightarrow> bool" where
  "lastAsked w x c \<longleftrightarrow> windows c w = Some x \<and> \<not> wn_closed x \<and> wn_deciding x \<and> wn_wired x \<and> wn_desktop x
     \<and> wn_parent x = None \<and> wn_children x = [] \<and> sweep c = [w] \<and> quitWanted c"

text \<open>A quit is lost to the question about it: when the application destroys the last window while a quit
  waits on its answer, the quit is carried out, as the code means; but while the desktop's own question
  about that window is on the screen the quit is dropped, though the window it waited for has closed. Taking
  the question down reports the close as refused before the close is reported as done.\<close>

theorem quit_lost_to_its_question:
  assumes "lastAsked w x c"
  shows "(forceClose c w = None \<longrightarrow>
      (\<exists>c'. destroyWindow (Suc (Suc (Suc n))) w c = Some (Inr (), c') \<and> isClosed w c' \<and> exited c' = Some (quitCode c)))
    \<and> (forceClose c w = Some \<lparr>mb_waiters = [w], mb_shown = True\<rparr> \<longrightarrow>
      (\<exists>c'. destroyWindow (Suc (Suc (Suc n))) w c = Some (Inr (), c') \<and> isClosed w c' \<and> exited c' = exited c \<and> \<not> quitWanted c'))"
proof -
  have x: "windows c w = Some x" "\<not> wn_closed x" "wn_deciding x" "wn_wired x" "wn_desktop x" "wn_parent x = None" "wn_children x = []"
      "sweep c = [w]" "quitWanted c"
    using assms by (simp_all add: lastAsked_def)
  note unfold = destroyWindow_def Close_def attempt_def onClose_def finishClose_def removeChildWindow_def CloseSettled_def
    closeDecided_def dismissForceClose_def tellThem_def settleClose_def QuitWithCode_def closeEveryWindow_def ForceQuitWithCode_def
    SetDeciding_def onWindow_def isClosed_def andThen_def run_simps Let_def
  show ?thesis
    by (intro conjI impI) (simp_all add: unfold x)
qed

text \<open>A dismissed question silences its window: once a person closes the desktop's dialog without choosing,
  the question counts as asked for as long as the window is open. Every later close that nobody answers joins
  it, no choice can reach it, and the window is left deciding, where the code promises that a dialog
  dismissed without a choice says no.\<close>

theorem dismissed_question_silences:
  assumes "windows c w = Some x" "wn_deciding x" "wn_desktop x" "\<not> gone c" "forceClose c w = Some mb"
    "\<not> Allowed v" "\<not> Said v"
  shows "chooseInBox n w yes (closeBox w c) = Some (Inr (), closeBox w c)
    \<and> (\<exists>c'. closeVerdict n w v (closeBox w c) = Some (Inr (), c') \<and> isDeciding w c' \<and> windows c' = windows c
         \<and> forceClose c' w = Some \<lparr>mb_waiters = mb_waiters mb @ [w], mb_shown = False\<rparr>)"
  using assms by (simp add: chooseInBox_def closeBox_def closeVerdict_def AskForceClose_def isDeciding_def run_simps)

subsection \<open>Examples\<close>

definition wiredWindow :: window where
  "wiredWindow = \<lparr>wn_closed = False, wn_deciding = True, wn_asks = True, wn_allowing = False, wn_wired = True, wn_desktop = True,
     wn_parent = None, wn_children = []\<rparr>"

definition oneWindow :: "messageBox option \<Rightarrow> desk" where
  "oneWindow mb =
     \<lparr>actions = Map.empty, subs = [7 \<mapsto> {''window_closing''}], onSub = (\<lambda>i t. []), suppress = 0, stash = Map.empty, refs = Map.empty,
      heap = Map.empty, decisions = {}, gone = False, ticking = {}, posted = [],
      aliases = Map.empty, templates = fmempty, skeys = Map.empty, objects = Map.empty, objectTypes = Map.empty,
      lastID = 7, told = [], windows = [7 \<mapsto> wiredWindow], sweep = [7], forceClose = (\<lambda>w. if w = 7 then mb else None),
      managed = True, quitWanted = True, quitCode = 3, exited = None\<rparr>"

abbreviation question :: messageBox where "question \<equiv> \<lparr>mb_waiters = [7], mb_shown = True\<rparr>"

lemma oneWindow_fueled: "fueled (\<lambda>w. 0) 0 7 (oneWindow (Some question))"
proof -
  have "openIn (oneWindow (Some question)) = {7}" by (auto simp: openIn_def oneWindow_def wiredWindow_def split: if_splits)
  then show ?thesis by (auto simp: fueled_def ordered_def fuelFor_def oneWindow_def wiredWindow_def split: if_splits)
qed

lemma oneWindow_tidy: "tidy (oneWindow mb)"
  by (simp add: tidy_def oneWindow_def wiredWindow_def)

theorem closes_return_witness: "(\<exists>c'. Quit 7 3 (oneWindow (Some question)) = Some (Inr (), c')) \<and> (\<exists>c'. chooseInBox 7 7 True (oneWindow (Some question)) = Some (Inr (), c'))"
  using closes_return[OF oneWindow_fueled] by blast

theorem closed_is_final_and_whole_witness: "tidy (closeBox 7 (oneWindow (Some question)))"
  using closed_is_final_and_whole[OF oneWindow_tidy r_into_rtranclp[of deskStep, OF dialog_closed]] by blast

definition handlerless :: desk where
  "handlerless = onWindow (\<lambda>x. x\<lparr>wn_asks := False, wn_deciding := False\<rparr>) 7 (oneWindow None)"

lemma handlerless_quits: "\<exists>c'. Quit 2 9 handlerless = Some (Inr (), c')"
  by (simp add: Quit_def QuitWithCode_def closeEveryWindow_def handlerless_def oneWindow_def wiredWindow_def onWindow_def numeral_2_eq_2 andThen_def
    attempt_def onClose_def finishClose_def removeChildWindow_def EmitEvent_def deskServices_def run_simps Let_def)

theorem quit_ends_or_waits_witness:
  "\<exists>c'. Quit 2 9 handlerless = Some (Inr (), c') \<and> (exited c' = Some 9 \<or> quitCode c' = 9)"
proof -
  obtain c' where q: "Quit 2 9 handlerless = Some (Inr (), c')" using handlerless_quits by blast
  then have "exited c' = Some 9 \<or> quitCode c' = 9" using quit_ends_or_waits[OF q] by auto
  then show ?thesis using q by blast
qed

theorem quit_lost_to_its_question_witness:
  "\<exists>c'. destroyWindow 3 7 (oneWindow (Some question)) = Some (Inr (), c') \<and> isClosed 7 c' \<and> exited c' = None \<and> \<not> quitWanted c'"
  using quit_lost_to_its_question[of 7 wiredWindow "oneWindow (Some question)" 0]
  by (simp add: lastAsked_def oneWindow_def wiredWindow_def numeral_3_eq_3)

theorem dismissed_question_silences_witness:
  "chooseInBox 5 7 True (closeBox 7 (oneWindow (Some question))) = Some (Inr (), closeBox 7 (oneWindow (Some question)))"
  using dismissed_question_silences[of "oneWindow (Some question)" 7 wiredWindow question unsaid 5 True]
  by (simp add: oneWindow_def wiredWindow_def unsaid_def)

end
