(* ===== verification/LayoutRuns.thy ===== *)
theory LayoutRuns
  imports Prelude "HOL-Library.Signed_Division"
begin

text \<open>
  How a layout divides a run among the things on it (\<open>layout/layout.go\<close>, \<open>band.go\<close>, \<open>span.go\<close> and
  \<open>shrinkToFit\<close> of \<open>box.go\<close>): shares of what is left over, shortfalls, whole cells, the claims of children that
  span tracks, and which tracks take part. A unit is an integer; products of a room and a stretch past 2^63
  are not considered.
\<close>

type_synonym Unit = int

definition Unbounded :: Unit where "Unbounded = -1"

record UnitRect =
  rc_X :: Unit
  rc_Y :: Unit
  rc_Width :: Unit
  rc_Height :: Unit

subsection \<open>Bands\<close>

record Band =
  bd_ID :: string
  bd_Stretch :: int
  bd_Minimum :: Unit
  bd_Maximum :: Unit
  bd_MaximumSet :: bool

definition noBand :: Band where
  "noBand = \<lparr>bd_ID = [], bd_Stretch = 0, bd_Minimum = 0, bd_Maximum = 0, bd_MaximumSet = False\<rparr>"

definition Capped :: "Unit \<Rightarrow> Band \<Rightarrow> Band" where
  "Capped m b = b\<lparr>bd_Maximum := m, bd_MaximumSet := True\<rparr>"

definition Ceiling :: "Band \<Rightarrow> Unit" where
  "Ceiling b = (if bd_MaximumSet b then bd_Maximum b else Unbounded)"

definition bandAt :: "Band list \<Rightarrow> int \<Rightarrow> Band" where
  "bandAt bands index = (if index < 0 \<or> index \<ge> int (List.length bands) then noBand else bands ! nat index)"

definition growBands :: "Band list \<Rightarrow> int \<Rightarrow> Band list" where
  "growBands bands index = bands @ replicate (nat (index + 1 - int (List.length bands))) noBand"

fun indexOfBand :: "string \<Rightarrow> int \<Rightarrow> Band list \<Rightarrow> int" where
  "indexOfBand i n [] = -1"
| "indexOfBand i n (b # bs) = (if bd_ID b = i then n else indexOfBand i (n + 1) bs)"

definition bandIndex :: "Band list \<Rightarrow> string \<Rightarrow> int" where
  "bandIndex bands i = (if i = [] then -1 else indexOfBand i 0 bands)"

subsection \<open>Whole cells\<close>

definition floorToQuantum :: "Unit \<Rightarrow> Unit \<Rightarrow> Unit" where
  "floorToQuantum v q =
     (if q \<le> 1 then v
      else (let r = v smod q; r' = (if r < 0 then r + q else r) in v - r'))"

definition ceilToQuantum :: "Unit \<Rightarrow> Unit \<Rightarrow> Unit" where
  "ceilToQuantum v q = (if q \<le> 1 then v else floorToQuantum (v + q - 1) q)"

definition cellSpacing :: "Unit \<Rightarrow> Unit \<Rightarrow> Unit" where
  "cellSpacing spacing q = (if q \<le> 1 then spacing else (spacing sdiv q) * q)"

text \<open>One pass over the sizes from the end of the run, each beside the floor it may be taken down to: the sizes
  it leaves, their total, and whether anything was taken.\<close>

fun takeBack :: "Unit \<Rightarrow> Unit \<Rightarrow> (Unit \<times> Unit) list \<Rightarrow> Unit \<Rightarrow> (Unit \<times> Unit) list \<times> Unit \<times> bool" where
  "takeBack q available [] tot = ([], tot, False)"
| "takeBack q available ((s, f) # rest) tot =
     (if tot > available \<and> s > f
      then (case takeBack q available rest (tot - q) of (rest', tot', took) \<Rightarrow> ((s - q, f) # rest', tot', True))
      else (case takeBack q available rest tot of (rest', tot', took) \<Rightarrow> ((s, f) # rest', tot', took)))"

definition taking :: "(Unit \<times> Unit) list \<Rightarrow> nat" where
  "taking xs = sum_list (map (\<lambda>(s, f). nat (s - f)) xs)"

lemma takeBack_shrinks:
  "takeBack q available xs tot = (xs', tot', took) \<Longrightarrow> 0 < q \<Longrightarrow> taking xs' \<le> taking xs \<and> (took \<longrightarrow> taking xs' < taking xs)"
proof (induction q available xs tot arbitrary: xs' tot' took rule: takeBack.induct)
  case (2 q available s f rest tot)
  show ?case
  proof (cases "tot > available \<and> s > f")
    case True
    then obtain r' t' k where r: "takeBack q available rest (tot - q) = (r', t', k)" by (metis prod_cases3)
    then have "taking r' \<le> taking rest" using 2 True by blast
    then show ?thesis using 2 True r by (auto simp: taking_def)
  next
    case False
    then obtain r' t' k where r: "takeBack q available rest tot = (r', t', k)" by (metis prod_cases3)
    then show ?thesis using 2 False by (auto simp: taking_def)
  qed
qed (simp add: taking_def)

text \<open>\<open>quantizeSizes\<close>, its early return asked again where the loop needs it to end.\<close>

function giveBack :: "Unit \<Rightarrow> Unit \<Rightarrow> (Unit \<times> Unit) list \<Rightarrow> Unit \<Rightarrow> (Unit \<times> Unit) list" where
  "giveBack q available xs tot =
     (if q \<le> 1 \<or> tot \<le> available then xs
      else case takeBack q available xs tot of (xs', tot', took) \<Rightarrow> if took then giveBack q available xs' tot' else xs')"
  by pat_completeness auto
termination
  by (relation "measure (\<lambda>(q, available, xs, tot). taking xs)") (auto dest: takeBack_shrinks[OF sym])

declare giveBack.simps [simp del]

definition quantizeSizes :: "Unit list \<Rightarrow> Unit \<Rightarrow> Unit \<Rightarrow> Unit list" where
  "quantizeSizes sizes available q =
     (if q \<le> 1 \<or> sizes = [] then sizes
      else (let floors = map (\<lambda>s. (s sdiv q) * q) sizes; ceils = map (\<lambda>s. ceilToQuantum s q) sizes in
            rev (map fst (giveBack q available (rev (zip ceils floors)) (sum_list ceils)))))"

subsection \<open>Stretch\<close>

record stretchItem =
  it_minimum :: Unit
  it_maximum :: Unit
  it_stretch :: int
  it_floor :: Unit

definition roomAbove :: "stretchItem \<Rightarrow> Unit \<Rightarrow> Unit" where
  "roomAbove it s = (if it_maximum it < 0 then -1 else if it_maximum it - s > 0 then it_maximum it - s else 0)"

text \<open>What the loop knows of an item: the item, the size it has reached, whether it has stopped.\<close>

type_synonym growing = "stretchItem \<times> Unit \<times> bool"

definition activeStretch :: "growing list \<Rightarrow> int" where
  "activeStretch xs = sum_list (map (\<lambda>(it, s, stopped). if it_stretch it > 0 \<and> \<not> stopped then it_stretch it else 0) xs)"

definition portionOf :: "Unit \<Rightarrow> int \<Rightarrow> growing \<Rightarrow> Unit \<times> bool" where
  "portionOf extra tot = (\<lambda>(it, s, stopped).
     let portion = (extra * it_stretch it) sdiv tot; room = roomAbove it s in
     if room \<ge> 0 \<and> portion \<ge> room then (room, True) else (portion, False))"

fun growRound :: "Unit \<Rightarrow> int \<Rightarrow> growing list \<Rightarrow> growing list \<times> Unit \<times> bool" where
  "growRound extra tot [] = ([], 0, False)"
| "growRound extra tot ((it, s, stopped) # xs) =
     (case growRound extra tot xs of (xs', given, anyStopped) \<Rightarrow>
        if it_stretch it = 0 \<or> stopped then ((it, s, stopped) # xs', given, anyStopped)
        else (case portionOf extra tot (it, s, stopped) of (portion, stops) \<Rightarrow>
                ((it, s + portion, stops) # xs', given + portion, anyStopped \<or> stops)))"

fun handOut :: "Unit \<Rightarrow> growing list \<Rightarrow> growing list" where
  "handOut extra [] = []"
| "handOut extra ((it, s, stopped) # xs) =
     (if extra = 0 then (it, s, stopped) # xs
      else if it_stretch it > 0 \<and> \<not> stopped \<and> roomAbove it s \<noteq> 0 then (it, s + 1, stopped) # handOut (extra - 1) xs
      else (it, s, stopped) # handOut extra xs)"

definition stillGrowing :: "growing list \<Rightarrow> nat" where
  "stillGrowing xs = List.length (filter (\<lambda>(it, s, stopped). \<not> stopped) xs)"

lemma growRound_stops:
  "growRound extra tot xs = (xs', given, anyStopped) \<Longrightarrow> stillGrowing xs' \<le> stillGrowing xs \<and> (anyStopped \<longrightarrow> stillGrowing xs' < stillGrowing xs)"
  by (induction extra tot xs arbitrary: xs' given anyStopped rule: growRound.induct)
     (fastforce simp: stillGrowing_def split: prod.splits if_splits)+

function grow :: "growing list \<Rightarrow> Unit \<Rightarrow> growing list" where
  "grow xs extra =
     (if extra \<le> 0 then xs
      else if activeStretch xs = 0 then xs
      else case growRound extra (activeStretch xs) xs of (xs', given, anyStopped) \<Rightarrow>
             if anyStopped then grow xs' (extra - given) else handOut (extra - given) xs')"
  by pat_completeness auto
termination
  by (relation "measure (\<lambda>(xs, extra). stillGrowing xs)") (auto dest: growRound_stops[OF sym])

declare grow.simps [simp del]

definition growByStretch :: "Unit list \<Rightarrow> stretchItem list \<Rightarrow> Unit \<Rightarrow> Unit list" where
  "growByStretch sizes items extra = map (fst \<circ> snd) (grow (map (\<lambda>(it, s). (it, s, False)) (zip items sizes)) extra)"

text \<open>The shortfall: what stretches gives it up in proportion, and what rounding left is trimmed a unit at a time.\<close>

definition cutOf :: "Unit \<Rightarrow> Unit \<Rightarrow> stretchItem \<Rightarrow> Unit" where
  "cutOf deficit stretchMinTotal it =
     (if it_stretch it > 0 \<and> stretchMinTotal > 0
      then (let cut = (deficit * it_minimum it) sdiv stretchMinTotal in if cut > it_minimum it then it_minimum it else cut)
      else 0)"

fun trimRest :: "Unit \<Rightarrow> (stretchItem \<times> Unit) list \<Rightarrow> Unit list" where
  "trimRest rest [] = []"
| "trimRest rest ((it, s) # xs) =
     (if rest > 0 \<and> it_stretch it > 0 \<and> s > 0 then (s - 1) # trimRest (rest - 1) xs else s # trimRest rest xs)"

definition shrinkByStretch :: "stretchItem list \<Rightarrow> Unit \<Rightarrow> Unit list" where
  "shrinkByStretch items deficit =
     (let stretchMinTotal = sum_list (map (\<lambda>it. if it_stretch it > 0 then it_minimum it else 0) items);
          cuts = map (cutOf deficit stretchMinTotal) items
      in trimRest (deficit - sum_list cuts) (zip items (map (\<lambda>(it, cut). it_minimum it - cut) (zip items cuts))))"

definition calculateStretch :: "Unit \<Rightarrow> stretchItem list \<Rightarrow> Unit \<Rightarrow> Unit list" where
  "calculateStretch available items q =
     (if items = [] then []
      else
        (let totalStretch = sum_list (map it_stretch items); totalMinimum = sum_list (map it_minimum items);
             extra = available - totalMinimum
         in if totalStretch = 0 then quantizeSizes (map it_minimum items) available q
            else if extra < 0 then quantizeSizes (shrinkByStretch items (- extra)) available q
            else quantizeSizes (growByStretch (map it_minimum items) items extra) available q))"


subsection \<open>What growing comes to\<close>

definition sizesOf :: "growing list \<Rightarrow> Unit" where "sizesOf xs = sum_list (map (fst \<circ> snd) xs)"

definition ableCount :: "growing list \<Rightarrow> int" where
  "ableCount xs = int (List.length (filter (\<lambda>(it, s, stopped). it_stretch it > 0 \<and> \<not> stopped) xs))"

text \<open>What is so of an item all the way: not below its minimum, at it if it does not stretch, not above its
  maximum unless its minimum is, and stopped only where it may grow no further.\<close>

definition fairRow :: "growing \<Rightarrow> bool" where
  "fairRow = (\<lambda>(it, s, stopped). it_stretch it \<ge> 0 \<and> it_minimum it \<le> s \<and> (it_stretch it = 0 \<longrightarrow> s = it_minimum it)
     \<and> (it_maximum it \<ge> 0 \<longrightarrow> s \<le> max (it_minimum it) (it_maximum it)) \<and> (stopped \<longrightarrow> it_maximum it \<ge> 0 \<and> it_maximum it \<le> s))"

definition fullRow :: "growing \<Rightarrow> bool" where
  "fullRow = (\<lambda>(it, s, stopped). it_stretch it > 0 \<longrightarrow> it_maximum it \<ge> 0 \<and> it_maximum it \<le> s)"

lemma sizesOf_simps [simp]: "sizesOf [] = 0" "sizesOf ((it, s, st) # xs) = s + sizesOf xs"
  by (simp_all add: sizesOf_def)

lemma activeStretch_simps [simp]: "activeStretch [] = 0"
  "activeStretch ((it, s, st) # xs) = (if it_stretch it > 0 \<and> \<not> st then it_stretch it else 0) + activeStretch xs"
  by (simp_all add: activeStretch_def)

lemma ableCount_simps [simp]: "ableCount [] = 0"
  "ableCount ((it, s, st) # xs) = (if it_stretch it > 0 \<and> \<not> st then 1 else 0) + ableCount xs"
  by (simp_all add: ableCount_def)

lemma sdiv_pos: "0 \<le> a \<Longrightarrow> 0 < b \<Longrightarrow> a sdiv b = a div (b :: int)"
  by (simp add: signed_divide_int_def sgn_if zero_less_mult_iff)

lemma div_share: fixes x T :: int assumes "0 < T" shows "T * (x div T) \<le> x" "x - T < T * (x div T)"
proof -
  have "x = T * (x div T) + x mod T" by simp
  moreover have "0 \<le> x mod T" "x mod T < T" using assms by simp_all
  ultimately show "T * (x div T) \<le> x" "x - T < T * (x div T)" by linarith+
qed

lemma portion_fair:
  assumes "fairRow (it, s, False)" "it_stretch it > 0" "0 \<le> extra" "0 < tot" "portionOf extra tot (it, s, False) = (portion, stops)"
  shows "0 \<le> portion" "tot * portion \<le> extra * it_stretch it" "fairRow (it, s + portion, stops)"
    "\<not> stops \<Longrightarrow> extra * it_stretch it - tot < tot * portion" "\<not> stops \<Longrightarrow> roomAbove it (s + portion) \<noteq> 0"
proof -
  let ?raw = "(extra * it_stretch it) div tot"
  have raw: "(extra * it_stretch it) sdiv tot = ?raw" using assms by (intro sdiv_pos) auto
  have raw0: "0 \<le> ?raw" using assms by (simp add: pos_imp_zdiv_nonneg_iff)
  have p: "portion = (if roomAbove it s \<ge> 0 \<and> ?raw \<ge> roomAbove it s then roomAbove it s else ?raw)"
    "stops \<longleftrightarrow> roomAbove it s \<ge> 0 \<and> ?raw \<ge> roomAbove it s"
    using assms(5) raw by (auto simp: portionOf_def Let_def split: if_splits)
  have le: "0 \<le> portion" "portion \<le> ?raw" using p raw0 by auto
  show "0 \<le> portion" by (rule le(1))
  have "tot * portion \<le> tot * ?raw" using le(2) assms(4) by simp
  then show "tot * portion \<le> extra * it_stretch it" using div_share(1)[OF assms(4)] order_trans by blast
  show "fairRow (it, s + portion, stops)" using assms(1,2) p le by (auto simp: fairRow_def roomAbove_def split: if_splits)
  show "extra * it_stretch it - tot < tot * portion" if "\<not> stops" using div_share(2)[OF assms(4)] p that by auto
  show "roomAbove it (s + portion) \<noteq> 0" if "\<not> stops" using p that raw0 by (auto simp: roomAbove_def split: if_splits)
qed

lemma growRound_spec:
  assumes "growRound extra tot xs = (xs', given, anyStopped)" "\<forall>x \<in> set xs. fairRow x" "0 \<le> extra" "0 < tot"
  shows "sizesOf xs' = sizesOf xs + given \<and> 0 \<le> given \<and> tot * given \<le> extra * activeStretch xs \<and> map fst xs' = map fst xs
    \<and> (\<forall>x \<in> set xs'. fairRow x)
    \<and> (\<not> anyStopped \<longrightarrow> extra * activeStretch xs - tot * ableCount xs \<le> tot * given \<and> (0 < ableCount xs \<longrightarrow> extra * activeStretch xs - tot * ableCount xs < tot * given)
         \<and> ableCount xs' = ableCount xs \<and> (\<forall>(it, s, st) \<in> set xs'. it_stretch it > 0 \<and> \<not> st \<longrightarrow> roomAbove it s \<noteq> 0))"
  using assms
proof (induction extra tot xs arbitrary: xs' given anyStopped rule: growRound.induct)
  case (2 extra tot it s stopped xs)
  obtain ys g k where r: "growRound extra tot xs = (ys, g, k)" by (metis prod_cases3)
  have IH: "sizesOf ys = sizesOf xs + g" "0 \<le> g" "tot * g \<le> extra * activeStretch xs" "map fst ys = map fst xs" "\<forall>x \<in> set ys. fairRow x"
    "\<not> k \<Longrightarrow> extra * activeStretch xs - tot * ableCount xs \<le> tot * g \<and> (0 < ableCount xs \<longrightarrow> extra * activeStretch xs - tot * ableCount xs < tot * g)
       \<and> ableCount ys = ableCount xs \<and> (\<forall>(it, s, st) \<in> set ys. it_stretch it > 0 \<and> \<not> st \<longrightarrow> roomAbove it s \<noteq> 0)"
    using 2(1)[OF r] 2(3-5) by auto
  show ?case
  proof (cases "it_stretch it = 0 \<or> stopped")
    case True
    then have "xs' = (it, s, stopped) # ys" "given = g" "anyStopped = k" using 2(2) r by auto
    then show ?thesis using IH True 2(3) by auto
  next
    case False
    then have f: "fairRow (it, s, False)" "it_stretch it > 0" using 2(3) by (auto simp: fairRow_def)
    obtain p st where p: "portionOf extra tot (it, s, stopped) = (p, st)" by fastforce
    have x': "xs' = (it, s + p, st) # ys" "given = g + p" "anyStopped \<longleftrightarrow> k \<or> st" using 2(2) r False p by auto
    note pf = portion_fair[OF f 2(4,5), of p st]
    have pf': "0 \<le> p" "tot * p \<le> extra * it_stretch it" "fairRow (it, s + p, st)" using pf p False by auto
    have "(it_stretch it > 0) \<and> \<not> stopped" using False f by simp
    then show ?thesis using x' IH pf' pf(4,5) p False f(2) by (auto simp: algebra_simps) 
  qed
qed simp


lemma handOut_spec:
  assumes "\<forall>x \<in> set xs. fairRow x" "\<forall>(it, s, st) \<in> set xs. it_stretch it > 0 \<and> \<not> st \<longrightarrow> roomAbove it s \<noteq> 0" "0 \<le> extra" "extra \<le> ableCount xs"
  shows "sizesOf (handOut extra xs) = sizesOf xs + extra \<and> (\<forall>x \<in> set (handOut extra xs). fairRow x) \<and> map fst (handOut extra xs) = map fst xs"
  using assms
proof (induction extra xs rule: handOut.induct)
  case (2 extra it s stopped xs)
  show ?case
  proof (cases "extra = 0")
    case True then show ?thesis using 2 by auto
  next
    case False
    show ?thesis
    proof (cases "it_stretch it > 0 \<and> \<not> stopped")
      case True
      then have room: "roomAbove it s \<noteq> 0" using 2(4) by auto
      have "fairRow (it, s + 1, stopped)" using 2(3) True room by (auto simp: fairRow_def roomAbove_def split: if_splits)
      then show ?thesis using 2 True False room by auto
    next
      case no: False then show ?thesis using 2 False by auto
    qed
  qed
qed simp

lemma activeStretch_pos: "0 \<le> activeStretch xs"
  by (induction xs) auto

lemma able_full: "\<forall>x \<in> set xs. fairRow x \<Longrightarrow> activeStretch xs = 0 \<Longrightarrow> \<forall>x \<in> set xs. fullRow x"
proof -
  assume fair: "\<forall>x \<in> set xs. fairRow x" and a: "activeStretch xs = 0"
  have "activeStretch xs = 0 \<Longrightarrow> (it, s, st) \<in> set xs \<Longrightarrow> it_stretch it > 0 \<Longrightarrow> st" for it s st
  proof (induction xs)
    case (Cons x xs)
    obtain it' s' st' where x: "x = (it', s', st')" by (metis prod_cases3)
    show ?case using Cons x activeStretch_pos[of xs] by (auto split: if_splits)
  qed simp
  then show ?thesis using fair a by (fastforce simp: fairRow_def fullRow_def)
qed

lemma active_able: "0 < activeStretch xs \<Longrightarrow> 0 < ableCount xs"
proof (induction xs)
  case (Cons x xs)
  obtain it s st where x: "x = (it, s, st)" by (metis prod_cases3)
  have "0 \<le> ableCount xs" by (simp add: ableCount_def)
  then show ?case using Cons x by (auto split: if_splits)
qed simp

lemma grow_spec:
  assumes "\<forall>x \<in> set xs. fairRow x" "0 \<le> extra"
  shows "map fst (grow xs extra) = map fst xs \<and> (\<forall>x \<in> set (grow xs extra). fairRow x) \<and> sizesOf (grow xs extra) \<le> sizesOf xs + extra
    \<and> (sizesOf (grow xs extra) = sizesOf xs + extra \<or> (\<forall>x \<in> set (grow xs extra). fullRow x))"
  using assms
proof (induction xs extra rule: grow.induct)
  case (1 xs extra)
  show ?case
  proof (cases "extra \<le> 0 \<or> activeStretch xs = 0")
    case True then show ?thesis using 1(2,3) able_full by (subst (1 2 3 4 5) grow.simps) auto
  next
    case False
    have T: "0 < activeStretch xs" using False activeStretch_pos[of xs] by (simp add: order_less_le)
    obtain ys g k where r: "growRound extra (activeStretch xs) xs = (ys, g, k)" by (metis prod_cases3)
    note spec = growRound_spec[OF r 1(2,3) T]
    have given: "activeStretch xs * g \<le> extra * activeStretch xs" using spec by blast
    then have g: "g \<le> extra" using T by (simp add: mult.commute)
    have step: "grow xs extra = (if k then grow ys (extra - g) else handOut (extra - g) ys)"
      using False r by (subst grow.simps) simp
    show ?thesis
    proof (cases k)
      case True
      have "map fst (grow ys (extra - g)) = map fst ys \<and> (\<forall>x \<in> set (grow ys (extra - g)). fairRow x) \<and> sizesOf (grow ys (extra - g)) \<le> sizesOf ys + (extra - g)
        \<and> (sizesOf (grow ys (extra - g)) = sizesOf ys + (extra - g) \<or> (\<forall>x \<in> set (grow ys (extra - g)). fullRow x))"
        using 1(1)[OF _ _ r[symmetric] refl] False True spec g by auto
      then show ?thesis using step True spec by simp
    next
      case False
      have "extra * activeStretch xs - activeStretch xs * ableCount xs < activeStretch xs * g"
        using spec False active_able[OF T] by blast
      then have "activeStretch xs * (extra - ableCount xs) < activeStretch xs * g" by (simp add: algebra_simps)
      then have "extra - ableCount xs < g" using T by simp
      then have "extra - g \<le> ableCount ys" using spec False by simp
      then show ?thesis using handOut_spec[of ys "extra - g"] spec g step False by auto
    qed
  qed
qed

text \<open>The whole of it, beside the items.\<close>

lemma growByStretch_spec:
  assumes "List.length sizes = List.length items" "\<forall>it \<in> set items. it_stretch it \<ge> 0" "0 \<le> extra" "sizes = map it_minimum items"
  defines "out \<equiv> growByStretch sizes items extra"
  shows "List.length out = List.length items"
    "\<forall>(it, s) \<in> set (zip items out). it_minimum it \<le> s \<and> (it_stretch it = 0 \<longrightarrow> s = it_minimum it) \<and> (it_maximum it \<ge> 0 \<longrightarrow> s \<le> max (it_minimum it) (it_maximum it))"
    "sum_list out = sum_list sizes + extra \<or> sum_list out < sum_list sizes + extra \<and> (\<forall>(it, s) \<in> set (zip items out). it_stretch it > 0 \<longrightarrow> it_maximum it \<ge> 0 \<and> it_maximum it \<le> s)"
proof -
  let ?xs = "map (\<lambda>(it, s). (it, s, False)) (zip items sizes)"
  let ?ys = "grow ?xs extra"
  have len: "List.length items = List.length sizes" using assms(1) by simp
  have items: "map fst ?xs = items" using len by (simp add: comp_def case_prod_beta')
  have sz: "sizesOf ?xs = sum_list sizes" using len by (simp add: sizesOf_def comp_def case_prod_beta')
  have fair: "\<forall>x \<in> set ?xs. fairRow x"
    using assms(2,4) by (auto simp: fairRow_def zip_map2 dest: set_zip_leftD) (auto simp: in_set_zip)
  note spec = grow_spec[OF fair assms(3)]
  have out: "out = map (fst \<circ> snd) ?ys" by (simp add: out_def growByStretch_def)
  have "List.length (map fst ?ys) = List.length (map fst ?xs)" using spec by simp
  then show l: "List.length out = List.length items" using out len by simp
  have zips: "zip items out = map (\<lambda>(it, s, st). (it, s)) ?ys"
  proof -
    have "items = map fst ?ys" using spec items by simp
    then have "zip items out = zip (map fst ?ys) (map (fst \<circ> snd) ?ys)" using out by simp
    then show ?thesis by (simp add: zip_map_map zip_same_conv_map case_prod_beta' comp_def)
  qed
  show "\<forall>(it, s) \<in> set (zip items out). it_minimum it \<le> s \<and> (it_stretch it = 0 \<longrightarrow> s = it_minimum it) \<and> (it_maximum it \<ge> 0 \<longrightarrow> s \<le> max (it_minimum it) (it_maximum it))"
    unfolding zips using spec by (fastforce simp: fairRow_def)
  have "sum_list out = sizesOf ?ys" by (simp add: out sizesOf_def)
  then show "sum_list out = sum_list sizes + extra \<or> sum_list out < sum_list sizes + extra \<and> (\<forall>(it, s) \<in> set (zip items out). it_stretch it > 0 \<longrightarrow> it_maximum it \<ge> 0 \<and> it_maximum it \<le> s)"
    unfolding zips using spec sz by (fastforce simp: fullRow_def)
qed

subsection \<open>What shrinking comes to\<close>

abbreviation stretchMin :: "stretchItem list \<Rightarrow> Unit" where
  "stretchMin items \<equiv> sum_list (map (\<lambda>it. if it_stretch it > 0 then it_minimum it else 0) items)"

definition trimmable :: "(stretchItem \<times> Unit) list \<Rightarrow> int" where
  "trimmable xs = int (List.length (filter (\<lambda>(it, s). it_stretch it > 0 \<and> s > 0) xs))"

lemma trimmable_simps [simp]: "trimmable [] = 0"
  "trimmable ((it, s) # xs) = (if it_stretch it > 0 \<and> s > 0 then 1 else 0) + trimmable xs"
  by (simp_all add: trimmable_def)

lemma trimmable_pos: "0 \<le> trimmable xs" by (simp add: trimmable_def)

lemma trimRest_length [simp]: "List.length (trimRest rest xs) = List.length xs"
  by (induction rest xs rule: trimRest.induct) auto

lemma trimRest_sum: "0 \<le> rest \<Longrightarrow> sum_list (trimRest rest xs) = sum_list (map snd xs) - min rest (trimmable xs)"
  by (induction rest xs rule: trimRest.induct) (auto simp: min_def trimmable_pos dest: order_antisym[OF _ trimmable_pos])

lemma trimRest_each:
  "\<forall>(it, s) \<in> set xs. 0 \<le> s \<Longrightarrow> \<forall>((it, s), t) \<in> set (zip xs (trimRest rest xs)). 0 \<le> t \<and> t \<le> s \<and> (it_stretch it \<le> 0 \<longrightarrow> t = s)"
  by (induction rest xs rule: trimRest.induct) auto

lemma cutOf_fair:
  assumes "0 \<le> it_minimum it" "0 \<le> deficit"
  shows "0 \<le> cutOf deficit S it" "cutOf deficit S it \<le> it_minimum it" "it_stretch it \<le> 0 \<Longrightarrow> cutOf deficit S it = 0"
  using assms by (auto simp: cutOf_def Let_def sdiv_pos pos_imp_zdiv_nonneg_iff)

text \<open>While the shortfall is no more than what stretches has, each cut is the item's share rounded down.\<close>

lemma cutOf_share:
  assumes "0 \<le> it_minimum it" "0 \<le> deficit" "deficit \<le> S" "0 < S" "it_stretch it > 0"
  shows "cutOf deficit S it = (deficit * it_minimum it) div S"
    "deficit * it_minimum it - S * cutOf deficit S it \<le> (if it_minimum it - cutOf deficit S it > 0 then S else 0)"
    "S * cutOf deficit S it \<le> deficit * it_minimum it"
proof -
  let ?x = "deficit * it_minimum it"
  have x: "0 \<le> ?x" "?x \<le> S * it_minimum it" using assms by (simp_all add: mult_right_mono)
  have "S * (?x div S) \<le> S * it_minimum it" using div_share(1)[OF assms(4), of ?x] x(2) by linarith
  then have le: "?x div S \<le> it_minimum it" using assms(4) by simp
  show c: "cutOf deficit S it = ?x div S"
    using assms le sdiv_pos[OF x(1) assms(4)] by (simp add: cutOf_def Let_def)
  show "S * cutOf deficit S it \<le> deficit * it_minimum it" using div_share(1)[OF assms(4)] by (simp add: c)
  show "?x - S * cutOf deficit S it \<le> (if it_minimum it - cutOf deficit S it > 0 then S else 0)"
  proof (cases "?x div S < it_minimum it")
    case True then show ?thesis using div_share(2)[OF assms(4), of ?x] by (simp add: c)
  next
    case False
    then have "it_minimum it = ?x div S" using le by simp
    then have "?x \<le> S * (?x div S)" using x(2) by metis
    then show ?thesis using False by (simp add: c)
  qed
qed

lemma cuts_share:
  assumes "\<forall>it \<in> set items. 0 \<le> it_minimum it" "0 \<le> deficit" "deficit \<le> S" "0 < S"
  shows "S * sum_list (map (cutOf deficit S) items) \<le> deficit * stretchMin items
    \<and> deficit * stretchMin items - S * sum_list (map (cutOf deficit S) items)
      \<le> S * trimmable (map (\<lambda>it. (it, it_minimum it - cutOf deficit S it)) items)"
  using assms(1)
proof (induction items)
  case (Cons it items)
  have "cutOf deficit S it = 0" if "\<not> it_stretch it > 0" using cutOf_fair(3) Cons assms(2) that by auto
  then show ?case
    using Cons cutOf_share[OF _ assms(2-4), of it] by (cases "it_stretch it > 0") (auto simp: distrib_left split: if_splits)
qed simp

lemma sum_list_minus: "sum_list (map (\<lambda>x. f x - g x) xs) = sum_list (map f xs) - (sum_list (map g xs) :: int)"
  by (induction xs) auto

lemma shrinkByStretch_spec:
  assumes "\<forall>it \<in> set items. 0 \<le> it_minimum it" "0 \<le> deficit"
  defines "out \<equiv> shrinkByStretch items deficit"
  shows "List.length out = List.length items"
    "\<forall>(it, s) \<in> set (zip items out). 0 \<le> s \<and> s \<le> it_minimum it \<and> (it_stretch it \<le> 0 \<longrightarrow> s = it_minimum it)"
    "sum_list out = sum_list (map it_minimum items) - min deficit (stretchMin items)"
proof -
  let ?S = "stretchMin items" and ?cut = "cutOf deficit (stretchMin items)"
  let ?rows = "map (\<lambda>it. (it, it_minimum it - ?cut it)) items"
  have rows: "zip items (map (\<lambda>(it, cut). it_minimum it - cut) (zip items (map ?cut items))) = ?rows"
    by (simp add: zip_map2 zip_same_conv_map comp_def)
  have out: "out = trimRest (deficit - sum_list (map ?cut items)) ?rows"
    using rows by (simp add: out_def shrinkByStretch_def Let_def)
  show "List.length out = List.length items" by (simp add: out)
  have fair: "0 \<le> ?cut it" "?cut it \<le> it_minimum it" "it_stretch it \<le> 0 \<Longrightarrow> ?cut it = 0" if "it \<in> set items" for it
    using cutOf_fair assms(1,2) that by blast+
  have "\<forall>((it, s), t) \<in> set (zip ?rows out). 0 \<le> t \<and> t \<le> s \<and> (it_stretch it \<le> 0 \<longrightarrow> t = s)"
    unfolding out by (rule trimRest_each) (use fair in auto)
  moreover have "zip ?rows out = map (\<lambda>(it, t). ((it, it_minimum it - ?cut it), t)) (zip items out)" by (simp add: zip_map1)
  ultimately have "\<forall>(it, t) \<in> set (zip items out). 0 \<le> t \<and> t \<le> it_minimum it - ?cut it \<and> (it_stretch it \<le> 0 \<longrightarrow> t = it_minimum it - ?cut it)"
    by fastforce
  then show "\<forall>(it, s) \<in> set (zip items out). 0 \<le> s \<and> s \<le> it_minimum it \<and> (it_stretch it \<le> 0 \<longrightarrow> s = it_minimum it)"
    using fair by (fastforce dest: set_zip_leftD)
  have S0: "0 \<le> ?S" using assms(1) by (intro sum_list_nonneg) auto
  have sum_rows: "sum_list (map snd ?rows) = sum_list (map it_minimum items) - sum_list (map ?cut items)"
    by (simp add: comp_def sum_list_minus)
  show "sum_list out = sum_list (map it_minimum items) - min deficit ?S"
  proof (cases "deficit \<le> ?S \<and> 0 < ?S")
    case True
    from cuts_share[OF assms(1,2), of ?S] True
    have "?S * sum_list (map ?cut items) \<le> ?S * deficit" "?S * (deficit - sum_list (map ?cut items)) \<le> ?S * trimmable ?rows"
      by (simp_all add: algebra_simps)
    then have r: "0 \<le> deficit - sum_list (map ?cut items)" "deficit - sum_list (map ?cut items) \<le> trimmable ?rows" using True by simp_all
    show ?thesis unfolding out trimRest_sum[OF r(1)] using sum_rows r True by (simp add: min_def)
  next
    case False
    have all: "?cut it = (if it_stretch it > 0 then it_minimum it else 0)" if it: "it \<in> set items" for it
    proof (cases "it_stretch it > 0")
      case True
      show ?thesis
      proof (cases "0 < ?S")
        case S: True
        then have "?S \<le> deficit" using False by simp
        then have "?S * it_minimum it \<le> deficit * it_minimum it" using assms(1) it by (simp add: mult_right_mono)
        from zdiv_mono1[OF this S] S have "it_minimum it \<le> (deficit * it_minimum it) div ?S" by simp
        then show ?thesis using True S assms(1,2) it by (simp add: cutOf_def Let_def sdiv_pos)
      next
        case S: False
        then have "?S = 0" using S0 by simp
        then have "(if it_stretch it > 0 then it_minimum it else 0) = 0"
          using assms(1) it by (subst (asm) sum_list_nonneg_eq_0_iff) auto
        then show ?thesis using S by (simp add: cutOf_def)
      qed
    qed (use fair it in auto)
    then have sum: "sum_list (map ?cut items) = ?S" by (intro arg_cong[of _ _ sum_list] map_cong) auto
    have "trimmable ?rows = 0" using all by (auto simp: trimmable_def filter_empty_conv)
    moreover have "0 \<le> deficit - sum_list (map ?cut items)" using sum False S0 assms(2) by auto
    ultimately have "sum_list out = sum_list (map it_minimum items) - ?S" unfolding out using trimRest_sum sum_rows sum by simp
    then show ?thesis using False S0 assms(2) by (auto simp: min_def)
  qed
qed


subsection \<open>What whole cells come to\<close>

lemma smod_floor: fixes v q :: int assumes "1 < q" shows "(let r = v smod q; r' = (if r < 0 then r + q else r) in v - r') = v - v mod q"
proof -
  have r: "v smod q = v - (v sdiv q) * q" using sdiv_mult_smod_eq[of v q] by linarith
  show ?thesis
  proof (cases "0 \<le> v")
    case True
    then have "v smod q = v mod q" using assms r by (simp add: sdiv_pos minus_div_mult_eq_mod)
    moreover have "\<not> v mod q < 0" using assms by (simp add: not_less)
    ultimately show ?thesis by (simp add: Let_def)
  next
    case False
    then have d: "v sdiv q = - ((- v) div q)" using assms by (simp add: signed_divide_int_def sgn_if mult_neg_pos)
    have "v smod q = v + ((- v) div q) * q" using r d by simp
    then have "v smod q = - ((- v) mod q)" using minus_div_mult_eq_mod[of "- v" q] by linarith
    then show ?thesis using assms by (auto simp: Let_def zmod_zminus1_eq_if split: if_splits)
  qed
qed

lemma floorToQuantum_is: "floorToQuantum v q = (if q \<le> 1 then v else q * (v div q))"
  using smod_floor[of q v] by (simp add: floorToQuantum_def minus_mod_eq_mult_div)

lemma ceilToQuantum_is: "1 < q \<Longrightarrow> ceilToQuantum v q = q * ((v + q - 1) div q)"
  by (simp add: ceilToQuantum_def floorToQuantum_is)

lemma ceil_cell: assumes "1 < q" shows "v \<le> ceilToQuantum v q" "ceilToQuantum v q < v + q" "q dvd ceilToQuantum v q"
proof -
  have "(v + q - 1) = q * ((v + q - 1) div q) + (v + q - 1) mod q" by simp
  moreover have "0 \<le> (v + q - 1) mod q" "(v + q - 1) mod q < q" using assms by simp_all
  ultimately show "v \<le> ceilToQuantum v q" "ceilToQuantum v q < v + q" using ceilToQuantum_is[OF assms, of v] by linarith+
  show "q dvd ceilToQuantum v q" using ceilToQuantum_is[OF assms] by simp
qed

text \<open>The two multiples a size may become.\<close>

lemma trunc_cell: assumes "1 < q" shows "q dvd (v sdiv q) * q" "v - q < (v sdiv q) * q" "(v sdiv q) * q < v + q" "0 \<le> v \<Longrightarrow> (v sdiv q) * q \<le> v"
  "ceilToQuantum v q = (v sdiv q) * q \<or> ceilToQuantum v q = (v sdiv q) * q + q"
proof -
  let ?f = "(v sdiv q) * q"
  show dvd: "q dvd ?f" by simp
  have m: "v - v smod q = ?f" using sdiv_mult_smod_eq[of v q] by linarith
  have b: "v - q < ?f" "?f < v + q" "0 \<le> v \<Longrightarrow> ?f \<le> v"
  proof -
    have "0 \<le> v \<Longrightarrow> v smod q = v mod q" using assms m by (simp add: sdiv_pos minus_div_mult_eq_mod[symmetric])
    moreover have "v < 0 \<Longrightarrow> v smod q = - ((- v) mod q)"
    proof -
      assume v: "v < 0"
      have d: "v sdiv q = - ((- v) div q)" using assms v by (simp add: signed_divide_int_def sgn_if mult_neg_pos)
      have "v smod q = v + ((- v) div q) * q" using m d by simp
      then show ?thesis using minus_div_mult_eq_mod[of "- v" q] by linarith
    qed
    moreover have "0 \<le> x mod q" "x mod q < q" for x using assms by simp_all
    ultimately show "v - q < ?f" "?f < v + q" "0 \<le> v \<Longrightarrow> ?f \<le> v" using m by (smt (verit))+
  qed
  then show "v - q < ?f" "?f < v + q" "0 \<le> v \<Longrightarrow> ?f \<le> v" by blast+
  obtain k where k: "ceilToQuantum v q = q * k" using ceil_cell(3)[OF assms, of v] by (elim dvdE)
  have "q * (v sdiv q) < q * (k + 1)" "q * k < q * (v sdiv q + 2)"
    using b(1,2) ceil_cell(1,2)[OF assms, of v] k by (auto simp: algebra_simps)
  then have "v sdiv q \<le> k" "k \<le> v sdiv q + 1" using assms by simp_all
  then have "k = v sdiv q \<or> k = v sdiv q + 1" by linarith
  then show "ceilToQuantum v q = ?f \<or> ceilToQuantum v q = ?f + q" using k by (auto simp: algebra_simps)
qed

text \<open>What giving back leaves: each size the one or the other multiple, and the run within its room unless all
  are at their floors.\<close>

definition celled :: "Unit \<Rightarrow> Unit \<times> Unit \<Rightarrow> bool" where
  "celled q = (\<lambda>(s, f). s = f \<or> s = f + q)"

lemma takeBack_spec:
  assumes "takeBack q available xs tot = (xs', tot', took)" "\<forall>x \<in> set xs. celled q x" "0 < q"
  shows "map snd xs' = map snd xs \<and> (\<forall>x \<in> set xs'. celled q x) \<and> sum_list (map fst xs') - sum_list (map fst xs) = tot' - tot \<and> tot' \<le> tot
    \<and> (tot' \<le> available \<or> (\<forall>(s, f) \<in> set xs'. s = f)) \<and> list_all2 (\<le>) (map fst xs') (map fst xs)"
  using assms
proof (induction q available xs tot arbitrary: xs' tot' took rule: takeBack.induct)
  case (2 q available s f rest tot)
  show ?case
  proof (cases "tot > available \<and> s > f")
    case True
    obtain ys t k where r: "takeBack q available rest (tot - q) = (ys, t, k)" by (metis prod_cases3)
    note IH = 2(1)[OF True r]
    have sf: "s = f + q" using 2(4) True by (auto simp: celled_def)
    have x': "xs' = (s - q, f) # ys" "tot' = t" using 2(3) True r by auto
    show ?thesis using IH 2(4,5) x' sf by (auto simp: celled_def)
  next
    case False
    obtain ys t k where r: "takeBack q available rest tot = (ys, t, k)" by (metis prod_cases3)
    note IH = 2(2)[OF False r]
    have x': "xs' = (s, f) # ys" "tot' = t" using 2(3) False r by auto
    have "t \<le> available \<or> s = f" using IH False 2(4,5) by (auto simp: celled_def)
    then show ?thesis using IH 2(4,5) x' by auto
  qed
qed auto

lemma giveBack_spec:
  assumes "\<forall>x \<in> set xs. celled q x" "tot = sum_list (map fst xs)" "1 < q"
  shows "map snd (giveBack q available xs tot) = map snd xs \<and> (\<forall>x \<in> set (giveBack q available xs tot). celled q x)
    \<and> (sum_list (map fst (giveBack q available xs tot)) \<le> available \<or> (\<forall>(s, f) \<in> set (giveBack q available xs tot). s = f))
    \<and> list_all2 (\<le>) (map fst (giveBack q available xs tot)) (map fst xs)"
  using assms
proof (induction q available xs tot rule: giveBack.induct)
  case (1 q available xs tot)
  show ?case
  proof (cases "tot \<le> available")
    case True
    then have "giveBack q available xs tot = xs" by (subst giveBack.simps) simp
    then show ?thesis using 1(2,3) True by (simp add: list.rel_refl)
  next
    case False
    obtain ys t k where r: "takeBack q available xs tot = (ys, t, k)" by (metis prod_cases3)
    have q0: "0 < q" using 1(4) by simp
    note spec = takeBack_spec[OF r 1(2) q0]
    have step: "giveBack q available xs tot = (if k then giveBack q available ys t else ys)"
      using False r 1(4) by (subst giveBack.simps) simp
    show ?thesis
    proof (cases k)
      case True
      have c: "\<forall>x \<in> set ys. celled q x" "t = sum_list (map fst ys)" using spec 1(3) by auto
      have IH: "map snd (giveBack q available ys t) = map snd ys" "\<forall>x \<in> set (giveBack q available ys t). celled q x"
        "sum_list (map fst (giveBack q available ys t)) \<le> available \<or> (\<forall>(s, f) \<in> set (giveBack q available ys t). s = f)"
        "list_all2 (\<le>) (map fst (giveBack q available ys t)) (map fst ys)"
        using 1(1)[OF _ r[symmetric] refl True c 1(4)] False 1(4) by auto
      have le: "list_all2 (\<le>) (map fst ys) (map fst xs)" using spec by blast
      have "list_all2 (\<le>) (map fst (giveBack q available ys t)) (map fst xs)"
        by (rule list_all2_trans[OF _ IH(4) le]) (rule order_trans)
      then show ?thesis using IH(1-3) step True spec by simp
    next
      case no: False
      then show ?thesis using spec step 1(3) by auto
    qed
  qed
qed

lemma quantizeSizes_spec:
  assumes "1 < q" "out = quantizeSizes sizes available q"
  shows "List.length out = List.length sizes"
    "\<forall>(s, c) \<in> set (zip sizes out). q dvd c \<and> s - q < c \<and> c < s + q"
    "\<forall>s \<in> set sizes. 0 \<le> s \<Longrightarrow> sum_list sizes \<le> available \<Longrightarrow> sum_list out \<le> available"
proof -
  let ?f = "\<lambda>s. (s sdiv q) * q" and ?c = "\<lambda>s. ceilToQuantum s q"
  let ?xs = "rev (zip (map ?c sizes) (map ?f sizes))"
  let ?ys = "giveBack q available ?xs (sum_list (map ?c sizes))"
  have xs: "?xs = rev (map (\<lambda>s. (?c s, ?f s)) sizes)" by (simp add: zip_map_map zip_same_conv_map comp_def)
  have celled: "\<forall>x \<in> set ?xs. celled q x" unfolding xs using trunc_cell(5)[OF assms(1)] by (fastforce simp: celled_def)
  have tot: "sum_list (map ?c sizes) = sum_list (map fst ?xs)" by (simp add: xs comp_def rev_map[symmetric] sum_list_rev)
  note spec = giveBack_spec[OF celled tot assms(1), of available]
  have out: "out = rev (map fst ?ys)" if "sizes \<noteq> []" using that assms by (simp add: quantizeSizes_def Let_def)
  have floors: "rev (map snd ?ys) = map ?f sizes" using spec by (simp add: xs comp_def rev_map[symmetric])
  have len: "List.length ?ys = List.length sizes" using arg_cong[OF floors, of List.length] by simp
  show l: "List.length out = List.length sizes"
    using out len assms(2) by (cases "sizes = []") (simp_all add: quantizeSizes_def)
  have ceils: "out ! i \<le> ?c (sizes ! i)" if i: "i < List.length sizes" for i
  proof -
    have "list_all2 (\<le>) (map fst ?ys) (rev (map ?c sizes))" using spec by (simp add: xs comp_def rev_map[symmetric])
    then have "list_all2 (\<le>) (rev (map fst ?ys)) (map ?c sizes)" using list_all2_rev[of "(\<le>)" "map fst ?ys" "rev (map ?c sizes)"] by simp
    moreover have "sizes \<noteq> []" using i by auto
    ultimately have "list_all2 (\<le>) out (map ?c sizes)" using out by simp
    then show ?thesis using i list_all2_nthD2[of "(\<le>)" out "map ?c sizes" i] by simp
  qed
  have cell: "out ! i = ?f (sizes ! i) \<or> out ! i = ?f (sizes ! i) + q" if i: "i < List.length sizes" for i
  proof -
    have ne: "sizes \<noteq> []" using i by auto
    have "rev (map snd ?ys) ! i = ?f (sizes ! i)" using floors i by simp
    then have "snd (rev ?ys ! i) = ?f (sizes ! i)" "fst (rev ?ys ! i) = out ! i" using i len out[OF ne] by (simp_all add: rev_map)
    moreover have "celled q (rev ?ys ! i)" using spec i len by (metis length_rev nth_mem set_rev)
    ultimately show ?thesis by (auto simp: celled_def split: prod.splits)
  qed
  show "\<forall>(s, c) \<in> set (zip sizes out). q dvd c \<and> s - q < c \<and> c < s + q"
  proof (clarify)
    fix s c assume "(s, c) \<in> set (zip sizes out)"
    then obtain i where i: "i < List.length sizes" "s = sizes ! i" "c = out ! i" using l by (auto simp: in_set_zip)
    have "c = ?f s \<or> c = ?f s + q" "c \<le> ?c s" using cell[OF i(1)] ceils[OF i(1)] i by simp_all
    moreover have "q dvd ?f s" "s - q < ?f s" "?c s < s + q" using trunc_cell(1,2)[OF assms(1)] ceil_cell(2)[OF assms(1)] by blast+
    ultimately show "q dvd c \<and> s - q < c \<and> c < s + q" using assms(1) by auto
  qed
  show "sum_list out \<le> available" if nn: "\<forall>s \<in> set sizes. 0 \<le> s" and fits: "sum_list sizes \<le> available"
  proof (cases "sizes = []")
    case True then show ?thesis using fits assms(2) by (simp add: quantizeSizes_def)
  next
    case False
    have sum: "sum_list out = sum_list (map fst ?ys)" using out[OF False] by (simp add: sum_list_rev)
    show ?thesis
    proof (cases "sum_list (map fst ?ys) \<le> available")
      case True then show ?thesis using sum by simp
    next
      case over: False
      then have "map fst ?ys = map snd ?ys" using spec by (intro map_cong) auto
      then have "sum_list (map fst ?ys) = sum_list (map ?f sizes)" using floors sum_list_rev[of "map snd ?ys"] by metis
      also have "\<dots> \<le> sum_list (map (\<lambda>s. s) sizes)" using nn trunc_cell(4)[OF assms(1)] by (intro sum_list_mono) blast
      finally show ?thesis using sum fits by simp
    qed
  qed
qed

subsection \<open>Sharing a run out\<close>

definition sound_items :: "stretchItem list \<Rightarrow> bool" where
  "sound_items items \<longleftrightarrow> (\<forall>it \<in> set items. 0 \<le> it_minimum it \<and> 0 \<le> it_stretch it)"

lemma no_stretch: assumes "sound_items items" "sum_list (map it_stretch items) = 0" "it \<in> set items" shows "it_stretch it = 0"
  using assms sum_list_nonneg_eq_0_iff[of "map it_stretch items"] by (auto simp: sound_items_def)

lemma stretch_fills_the_run_base:
  fixes available :: Unit
  assumes "sound_items items" "0 < sum_list (map it_stretch items)"
  defines "out \<equiv> calculateStretch available items 0"
  shows "List.length out = List.length items
    \<and> (\<forall>(it, s) \<in> set (zip items out). 0 \<le> s \<and> (it_stretch it = 0 \<longrightarrow> s = it_minimum it))
    \<and> (sum_list (map it_minimum items) \<le> available \<longrightarrow>
        (\<forall>(it, s) \<in> set (zip items out). it_minimum it \<le> s \<and> (it_maximum it \<ge> 0 \<longrightarrow> s \<le> max (it_minimum it) (it_maximum it)))
        \<and> (sum_list out = available \<or> sum_list out < available \<and> (\<forall>(it, s) \<in> set (zip items out). 0 < it_stretch it \<longrightarrow> 0 \<le> it_maximum it \<and> it_maximum it \<le> s)))
    \<and> (available < sum_list (map it_minimum items) \<longrightarrow>
        (\<forall>(it, s) \<in> set (zip items out). s \<le> it_minimum it)
        \<and> sum_list out = max available (sum_list (map (\<lambda>it. if it_stretch it = 0 then it_minimum it else 0) items)))"
proof -
  have ne: "items \<noteq> []" using assms(2) by auto
  have nn: "\<forall>it \<in> set items. 0 \<le> it_stretch it" "\<forall>it \<in> set items. 0 \<le> it_minimum it" using assms(1) by (auto simp: sound_items_def)
  show ?thesis
  proof (cases "sum_list (map it_minimum items) \<le> available")
    case True
    then have out: "out = growByStretch (map it_minimum items) items (available - sum_list (map it_minimum items))"
      using ne assms(2) by (simp add: out_def calculateStretch_def Let_def quantizeSizes_def)
    have "List.length (map it_minimum items) = List.length items" "0 \<le> available - sum_list (map it_minimum items)" using True by simp_all
    note spec = growByStretch_spec[OF this(1) nn(1) this(2) refl, folded out]
    show ?thesis using spec nn(2) True by (fastforce dest: set_zip_leftD)
  next
    case False
    then have out: "out = shrinkByStretch items (sum_list (map it_minimum items) - available)"
      using ne assms(2) by (simp add: out_def calculateStretch_def Let_def quantizeSizes_def)
    have "0 \<le> sum_list (map it_minimum items) - available" using False by simp
    note spec = shrinkByStretch_spec[OF nn(2) this, folded out]
    have "sum_list (map it_minimum items) = stretchMin items + sum_list (map (\<lambda>it. if it_stretch it = 0 then it_minimum it else 0) items)"
      using nn(1) by (induction items) auto
    then show ?thesis using spec False by (fastforce simp: min_def max_def)
  qed
qed


text \<open>On a surface of cells every track is a whole number of them: rounding moves a size by less than a cell
  either way, and a run that fitted its room still fits.\<close>

theorem cells_are_whole:
  fixes available :: Unit
  assumes "sound_items items" "1 < q"
  defines "exact \<equiv> calculateStretch available items 0" and "out \<equiv> calculateStretch available items q"
  shows "List.length out = List.length exact \<and> (\<forall>(s, c) \<in> set (zip exact out). q dvd c \<and> s - q < c \<and> c < s + q)
    \<and> (sum_list exact \<le> available \<longrightarrow> sum_list out \<le> available)"
proof -
  have out: "out = quantizeSizes exact available q"
    using assms(2) by (simp add: out_def exact_def calculateStretch_def Let_def quantizeSizes_def)
  have "\<forall>s \<in> set exact. 0 \<le> s"
  proof (cases "sum_list (map it_stretch items) = 0")
    case True
    then show ?thesis using assms(1) by (auto simp: exact_def calculateStretch_def quantizeSizes_def sound_items_def)
  next
    case False
    have "0 \<le> sum_list (map it_stretch items)" using assms(1) by (intro sum_list_nonneg) (auto simp: sound_items_def)
    then have "0 < sum_list (map it_stretch items)" using False by simp
    note fills = stretch_fills_the_run_base[OF assms(1) this, of available, folded exact_def]
    show ?thesis
    proof
      fix s assume "s \<in> set exact"
      then obtain i where "i < List.length exact" "s = exact ! i" by (auto simp: in_set_conv_nth)
      then have "(items ! i, s) \<in> set (zip items exact)" using fills by (auto simp: in_set_zip)
      then show "0 \<le> s" using conjunct1[OF conjunct2[OF fills]] by fast
    qed
  qed
  then show ?thesis using quantizeSizes_spec[OF assms(2) out] by blast
qed


subsection \<open>Examples\<close>

definition elastic :: stretchItem where
  "elastic = \<lparr>it_minimum = 10, it_maximum = Unbounded, it_stretch = 1, it_floor = 0\<rparr>"

definition held :: stretchItem where
  "held = \<lparr>it_minimum = 20, it_maximum = 30, it_stretch = 2, it_floor = 0\<rparr>"

definition fixed :: stretchItem where
  "fixed = \<lparr>it_minimum = 15, it_maximum = Unbounded, it_stretch = 0, it_floor = 0\<rparr>"

lemma example_run: "sound_items [elastic, held, fixed]" "0 < sum_list (map it_stretch [elastic, held, fixed])"
  by (simp_all add: sound_items_def elastic_def held_def fixed_def)


theorem cells_are_whole_witness:
  "calculateStretch 100 [elastic, held, fixed] 8 = [56, 32, 8] \<and> sum_list (calculateStretch 100 [elastic, held, fixed] 8) \<le> 100"
proof (intro conjI)
  show "calculateStretch 100 [elastic, held, fixed] 8 = [56, 32, 8]" by code_simp
  have "calculateStretch 100 [elastic, held, fixed] 0 = [55, 30, 15]" by code_simp
  then show "sum_list (calculateStretch 100 [elastic, held, fixed] 8) \<le> 100"
    using cells_are_whole[OF example_run(1), of 8 100] by simp
qed

end
