(* ===== verification/LayoutTracks.thy ===== *)
theory LayoutTracks
  imports LayoutRuns
begin

text \<open>
  The tracks of a grid and the row of a box before the room is shared out (\<open>layout/span.go\<close>, and
  \<open>shrinkToFit\<close> of \<open>box.go\<close>): what a child across several tracks asks of them together, which tracks take
  part, and how a row that asks for too much is brought down. Then where things stand: margins and the
  reflection of a row that reads from the right (\<open>layout.go\<close>).
\<close>

subsection \<open>Spans\<close>

record span =
  sp_start :: int
  sp_count :: int
  sp_size :: Unit

text \<open>What rounding left over, a unit at a time to the tracks that may take one.\<close>

fun topUp :: "Unit \<Rightarrow> (bool \<times> Unit) list \<Rightarrow> Unit list" where
  "topUp left [] = []"
| "topUp left ((takes, s) # xs) = (if left > 0 \<and> takes then (s + 1) # topUp (left - 1) xs else s # topUp left xs)"

text \<open>The tracks a span covers, each beside its band's stretch.\<close>

definition spreadOver :: "(int \<times> Unit) list \<Rightarrow> Unit \<Rightarrow> Unit list" where
  "spreadOver tracks short =
     (let totalStretch = sum_list (map fst tracks) in
      if totalStretch > 0
      then (let portion = (\<lambda>st. if st = 0 then 0 else (short * st) sdiv totalStretch);
                given = sum_list (map (portion \<circ> fst) tracks)
            in topUp (short - given) (map (\<lambda>(st, s). (st > 0, s + portion st)) tracks))
      else (let each = short sdiv int (List.length tracks)
            in topUp (short - each * int (List.length tracks)) (map (\<lambda>(st, s). (True, s + each)) tracks)))"

definition spreadShortfall :: "Unit list \<Rightarrow> Band list \<Rightarrow> nat \<Rightarrow> nat \<Rightarrow> Unit \<Rightarrow> Unit list" where
  "spreadShortfall sizes bands start count short =
     take start sizes
     @ spreadOver (zip (map (\<lambda>i. bd_Stretch (bandAt bands (int i))) [start..<start + count]) (take count (drop start sizes))) short
     @ drop (start + count) sizes"

definition claimsTracks :: "span \<Rightarrow> nat \<Rightarrow> bool" where
  "claimsTracks sp n \<longleftrightarrow> \<not> (sp_start sp < 0 \<or> sp_count sp < 1 \<or> sp_start sp + sp_count sp > int n)"

text \<open>What the tracks and boundaries a span covers come to.\<close>

definition covered :: "Unit list \<Rightarrow> Unit list \<Rightarrow> span \<Rightarrow> Unit" where
  "covered sizes gaps sp =
     sum_list (take (nat (sp_count sp)) (drop (nat (sp_start sp)) sizes))
     + sum_list (take (nat (sp_count sp) - 1) (drop (nat (sp_start sp)) gaps))"


definition raiseOne :: "Band list \<Rightarrow> Unit list \<Rightarrow> span \<Rightarrow> Unit list \<Rightarrow> Unit list" where
  "raiseOne bands gaps sp sizes =
     (if \<not> claimsTracks sp (List.length sizes) then sizes
      else (let short = sp_size sp - covered sizes gaps sp in
            if short > 0 then spreadShortfall sizes bands (nat (sp_start sp)) (nat (sp_count sp)) short else sizes))"

definition raiseForSpans :: "Unit list \<Rightarrow> Band list \<Rightarrow> Unit list \<Rightarrow> span list \<Rightarrow> Unit list" where
  "raiseForSpans sizes bands gaps spans =
     (if spans = [] then sizes else fold (raiseOne bands gaps) (sort_key sp_count spans) sizes)"

definition liveTracks :: "nat \<Rightarrow> Band list \<Rightarrow> span list \<Rightarrow> bool list" where
  "liveTracks n bands spans =
     map (\<lambda>t. let b = bandAt bands (int t) in
            (bd_Minimum b > 0 \<or> bd_Stretch b > 0) \<or> list_ex (\<lambda>c. sp_start c \<le> int t \<and> int t < sp_start c + sp_count c) spans) [0..<n]"

definition sumGaps :: "Unit list \<Rightarrow> Unit" where "sumGaps gaps = sum_list gaps"

subsection \<open>A row that asks for too much\<close>

definition giveRoom :: "stretchItem \<Rightarrow> Unit" where "giveRoom it = it_minimum it - it_floor it"

fun widestFrom :: "nat \<Rightarrow> stretchItem list \<Rightarrow> (nat \<times> Unit) option \<Rightarrow> nat option" where
  "widestFrom i [] best = map_option fst best"
| "widestFrom i (it # its) best =
     widestFrom (Suc i) its
       (if it_minimum it > it_floor it \<and> (case best of None \<Rightarrow> True | Some (j, m) \<Rightarrow> it_minimum it > m) then Some (i, it_minimum it) else best)"

primrec trimWidest :: "nat \<Rightarrow> stretchItem list \<Rightarrow> stretchItem list" where
  "trimWidest 0 items = items"
| "trimWidest (Suc rest) items =
     (case widestFrom 0 items None of
        None \<Rightarrow> items
      | Some i \<Rightarrow> trimWidest rest (items[i := (items ! i)\<lparr>it_minimum := it_minimum (items ! i) - 1\<rparr>]))"

definition shrinkToFit :: "stretchItem list \<Rightarrow> Unit \<Rightarrow> stretchItem list" where
  "shrinkToFit items available =
     (if list_ex (\<lambda>it. it_stretch it > 0) items then items
      else
        (let wanted = sum_list (map it_minimum items);
             elastic = sum_list (map (\<lambda>it. if giveRoom it > 0 then giveRoom it else 0) items);
             asked = wanted - available
         in if asked \<le> 0 \<or> elastic \<le> 0 then items
            else
              (let over = (if asked > elastic then elastic else asked);
                   part = (\<lambda>it. if giveRoom it \<le> 0 then 0 else (over * giveRoom it) sdiv elastic)
               in trimWidest (nat (over - sum_list (map part items))) (map (\<lambda>it. it\<lparr>it_minimum := it_minimum it - part it\<rparr>) items))))"

subsection \<open>Where things stand\<close>

record UnitMargins =
  mg_Top :: Unit
  mg_Right :: Unit
  mg_Bottom :: Unit
  mg_Left :: Unit

definition mgHorizontal :: "UnitMargins \<Rightarrow> Unit" where "mgHorizontal m = mg_Left m + mg_Right m"
definition mgVertical :: "UnitMargins \<Rightarrow> Unit" where "mgVertical m = mg_Top m + mg_Bottom m"

definition effectiveBounds :: "UnitMargins \<Rightarrow> UnitRect \<Rightarrow> UnitRect" where
  "effectiveBounds m r =
     \<lparr>rc_X = rc_X r + mg_Left m, rc_Y = rc_Y r + mg_Top m,
      rc_Width = rc_Width r - mgHorizontal m, rc_Height = rc_Height r - mgVertical m\<rparr>"

definition mirrorX :: "UnitRect \<Rightarrow> UnitRect \<Rightarrow> UnitRect" where
  "mirrorX room r = r\<lparr>rc_X := rc_X room * 2 + rc_Width room - rc_X r - rc_Width r\<rparr>"

subsection \<open>What spans come to\<close>

lemma topUp_length [simp]: "List.length (topUp left xs) = List.length xs"
  by (induction left xs rule: topUp.induct) auto

lemma topUp_sum: "0 \<le> left \<Longrightarrow> sum_list (topUp left xs) = sum_list (map snd xs) + min left (int (List.length (filter fst xs)))"
  by (induction left xs rule: topUp.induct) auto

lemma topUp_each: "list_all2 (\<le>) (map snd xs) (topUp left xs)"
  by (induction left xs rule: topUp.induct) auto

lemma spreadOver_length [simp]: "List.length (spreadOver tracks short) = List.length tracks"
  by (simp add: spreadOver_def Let_def)

lemma portions_share:
  fixes short T :: int
  assumes "\<forall>(st, s) \<in> set tracks. 0 \<le> st" "0 \<le> short" "0 < T"
  shows "T * sum_list (map ((\<lambda>st. if st = 0 then 0 else (short * st) sdiv T) \<circ> fst) tracks) \<le> short * sum_list (map fst tracks)
    \<and> short * sum_list (map fst tracks) - T * sum_list (map ((\<lambda>st. if st = 0 then 0 else (short * st) sdiv T) \<circ> fst) tracks)
        \<le> T * int (List.length (filter (\<lambda>(st, s). st > 0) tracks))"
  using assms(1)
proof (induction tracks)
  case (Cons x tracks)
  obtain st s where x: "x = (st, s)" by fastforce
  have "T * ((short * st) div T) \<le> short * st" "short * st - T < T * ((short * st) div T)" using div_share[OF assms(3)] by blast+
  moreover have "0 \<le> st \<Longrightarrow> (short * st) sdiv T = (short * st) div T" using assms by (intro sdiv_pos) auto
  ultimately show ?case using Cons x by (cases "st = 0") (auto simp: algebra_simps)
qed simp

lemma spreadOver_spec:
  assumes "\<forall>(st, s) \<in> set tracks. 0 \<le> st" "0 < short" "tracks \<noteq> []"
  shows "sum_list (spreadOver tracks short) = sum_list (map snd tracks) + short" "list_all2 (\<le>) (map snd tracks) (spreadOver tracks short)"
proof -
  let ?T = "sum_list (map fst tracks)"
  let ?p = "\<lambda>st. if st = 0 then 0 else (short * st) sdiv ?T"
  let ?given = "sum_list (map (?p \<circ> fst) tracks)"
  have T0: "0 \<le> ?T" using assms(1) by (intro sum_list_nonneg) auto
  have "sum_list (spreadOver tracks short) = sum_list (map snd tracks) + short \<and> list_all2 (\<le>) (map snd tracks) (spreadOver tracks short)"
  proof (cases "0 < ?T")
    case True
    let ?rows = "map (\<lambda>(st, s). (st > 0, s + ?p st)) tracks"
    have out: "spreadOver tracks short = topUp (short - ?given) ?rows" using True by (simp add: spreadOver_def Let_def)
    from portions_share[OF assms(1), of short ?T] assms(2) True
    have "?T * ?given \<le> ?T * short" "?T * (short - ?given) \<le> ?T * int (List.length (filter (\<lambda>(st, s). st > 0) tracks))"
      by (simp_all add: algebra_simps)
    then have g: "0 \<le> short - ?given" "short - ?given \<le> int (List.length (filter (\<lambda>(st, s). st > 0) tracks))"
      using True by simp_all
    have f: "filter fst ?rows = map (\<lambda>(st, s). (st > 0, s + ?p st)) (filter (\<lambda>(st, s). st > 0) tracks)"
      by (simp add: filter_map comp_def case_prod_beta')
    have rows: "sum_list (map snd ?rows) = sum_list (map snd tracks) + ?given"
      by (simp add: comp_def case_prod_beta' sum_list_addf)
    have "0 \<le> ?p st" if "0 \<le> st" for st using that assms(2) True by (auto simp: sdiv_pos pos_imp_zdiv_nonneg_iff)
    then have "list_all2 (\<le>) (map snd tracks) (map snd ?rows)" using assms(1) by (auto simp: list_all2_conv_all_nth split: prod.split dest: nth_mem) (fastforce dest: nth_mem)+
    from list_all2_trans[OF _ this topUp_each[of ?rows "short - ?given"]]
    have "list_all2 (\<le>) (map snd tracks) (topUp (short - ?given) ?rows)" using order_trans by blast
    then show ?thesis using topUp_sum[OF g(1), of ?rows] g(2) f rows out by simp
  next
    case False
    let ?n = "int (List.length tracks)" and ?each = "short sdiv int (List.length tracks)"
    let ?rows = "map (\<lambda>(st, s). (True, s + ?each)) tracks"
    have n: "0 < ?n" using assms(3) by simp
    have each: "?each = short div ?n" using assms(2) n by (simp add: sdiv_pos)
    have out: "spreadOver tracks short = topUp (short - ?each * ?n) ?rows" using False by (simp add: spreadOver_def Let_def)
    have left: "short - ?each * ?n = short mod ?n" by (simp add: each minus_div_mult_eq_mod)
    have f: "filter fst ?rows = ?rows" by (simp add: filter_map comp_def case_prod_beta')
    have rows: "sum_list (map snd ?rows) = sum_list (map snd tracks) + ?n * ?each"
      by (simp add: comp_def case_prod_beta' sum_list_addf sum_list_triv)
    have e0: "0 \<le> ?each" using assms(2) n by (simp add: each pos_imp_zdiv_nonneg_iff)
    then have "list_all2 (\<le>) (map snd tracks) (map snd ?rows)" by (auto simp: list_all2_conv_all_nth split: prod.split)
    from list_all2_trans[OF _ this topUp_each[of ?rows "short - ?each * ?n"]]
    have "list_all2 (\<le>) (map snd tracks) (topUp (short - ?each * ?n) ?rows)" using order_trans by blast
    moreover have "0 \<le> short - ?each * ?n" "short - ?each * ?n \<le> int (List.length (filter fst ?rows))"
      using left n f pos_mod_bound[OF n, of short] by (simp_all add: less_imp_le)
    ultimately show ?thesis using topUp_sum[of "short - ?each * ?n" ?rows] rows out by (simp add: mult.commute)
  qed
  then show "sum_list (spreadOver tracks short) = sum_list (map snd tracks) + short" "list_all2 (\<le>) (map snd tracks) (spreadOver tracks short)" by blast+
qed


definition fits :: "Unit list \<Rightarrow> Unit list \<Rightarrow> span \<Rightarrow> bool" where
  "fits sizes gaps sp \<longleftrightarrow> sp_size sp \<le> covered sizes gaps sp"

lemma sum_list_all2: "list_all2 (\<le>) xs ys \<Longrightarrow> sum_list xs \<le> (sum_list ys :: int)"
  by (induction rule: list_all2_induct) auto

lemma covered_mono: "list_all2 (\<le>) sizes sizes' \<Longrightarrow> covered sizes gaps sp \<le> covered sizes' gaps sp"
  by (simp add: covered_def sum_list_all2 list_all2_takeI list_all2_dropI)

lemma bandAt_stretch: "\<forall>b \<in> set bands. 0 \<le> bd_Stretch b \<Longrightarrow> 0 \<le> bd_Stretch (bandAt bands i)"
  by (auto simp: bandAt_def noBand_def)

lemma nth_splice:
  assumes "List.length xs = n" "start + n \<le> List.length sizes" "i < List.length sizes" "i < start \<or> start + n \<le> i"
  shows "(take start sizes @ xs @ drop (start + n) sizes) ! i = sizes ! i"
  using assms by (auto simp: nth_append min_def)

lemma raiseOne_spec:
  assumes "\<forall>b \<in> set bands. 0 \<le> bd_Stretch b" "out = raiseOne bands gaps sp sizes"
  shows "list_all2 (\<le>) sizes out" "claimsTracks sp (List.length sizes) \<Longrightarrow> fits out gaps sp"
    "fits sizes gaps sp \<Longrightarrow> out = sizes"
    "i < List.length sizes \<Longrightarrow> int i < sp_start sp \<or> sp_start sp + sp_count sp \<le> int i \<Longrightarrow> out ! i = sizes ! i"
proof -
  let ?short = "sp_size sp - covered sizes gaps sp"
  have "list_all2 (\<le>) sizes out \<and> (claimsTracks sp (List.length sizes) \<longrightarrow> fits out gaps sp) \<and> (fits sizes gaps sp \<longrightarrow> out = sizes)
    \<and> (i < List.length sizes \<longrightarrow> int i < sp_start sp \<or> sp_start sp + sp_count sp \<le> int i \<longrightarrow> out ! i = sizes ! i)"
  proof (cases "claimsTracks sp (List.length sizes) \<and> 0 < ?short")
    case False
    then have "out = sizes" using assms(2) by (auto simp: raiseOne_def Let_def)
    moreover have "claimsTracks sp (List.length sizes) \<Longrightarrow> fits sizes gaps sp" using False by (auto simp: fits_def)
    ultimately show ?thesis by (auto simp: list_all2_refl)
  next
    case True
    let ?start = "nat (sp_start sp)" and ?count = "nat (sp_count sp)"
    let ?mid = "take ?count (drop ?start sizes)"
    let ?tracks = "zip (map (\<lambda>i. bd_Stretch (bandAt bands (int i))) [?start..<?start + ?count]) ?mid"
    let ?new = "spreadOver ?tracks ?short"
    have out: "out = take ?start sizes @ ?new @ drop (?start + ?count) sizes"
      using True assms(2) by (simp add: raiseOne_def spreadShortfall_def Let_def)
    have range: "0 \<le> sp_start sp" "1 \<le> sp_count sp" "?start + ?count \<le> List.length sizes" using True by (auto simp: claimsTracks_def)
    then have len: "List.length ?tracks = ?count" "List.length ?mid = ?count" by simp_all
    have snds: "map snd ?tracks = ?mid" using len by simp
    have st: "\<forall>(st, s) \<in> set ?tracks. 0 \<le> st" using bandAt_stretch[OF assms(1)] by (auto dest!: set_zip_leftD)
    have "0 < ?count" using range(2) by simp
    then have ne: "?tracks \<noteq> []" using len(1) by (metis less_numeral_extra(3) list.size(3))
    note spec = spreadOver_spec[OF st _ ne, of ?short, unfolded snds]
    have mid: "take ?count (drop ?start out) = ?new" using out len range(3) by simp
    have split: "sizes = take ?start sizes @ ?mid @ drop (?start + ?count) sizes"
      by (metis append.assoc append_take_drop_id drop_drop add.commute)
    have le: "list_all2 (\<le>) sizes out"
      using spec(2) True unfolding out by (subst split) (intro list_all2_appendI, auto simp: list_all2_refl)
    have "covered out gaps sp = covered sizes gaps sp + ?short" using spec(1) True mid by (simp add: covered_def)
    then have f: "fits out gaps sp" by (simp add: fits_def)
    have nf: "\<not> fits sizes gaps sp" using True by (simp add: fits_def)
    have "out ! i = sizes ! i" if "i < List.length sizes" "int i < sp_start sp \<or> sp_start sp + sp_count sp \<le> int i"
      unfolding out by (rule nth_splice) (use that range len in auto)
    then show ?thesis using le f nf by blast
  qed
  then show "list_all2 (\<le>) sizes out" "claimsTracks sp (List.length sizes) \<Longrightarrow> fits out gaps sp"
    "fits sizes gaps sp \<Longrightarrow> out = sizes"
    "i < List.length sizes \<Longrightarrow> int i < sp_start sp \<or> sp_start sp + sp_count sp \<le> int i \<Longrightarrow> out ! i = sizes ! i" by blast+
qed

lemma raise_fold:
  assumes "\<forall>b \<in> set bands. 0 \<le> bd_Stretch b"
  shows "list_all2 (\<le>) sizes (fold (raiseOne bands gaps) spans sizes)
    \<and> (\<forall>sp \<in> set spans. claimsTracks sp (List.length sizes) \<longrightarrow> fits (fold (raiseOne bands gaps) spans sizes) gaps sp)
    \<and> ((\<forall>sp \<in> set spans. claimsTracks sp (List.length sizes) \<longrightarrow> fits sizes gaps sp) \<longrightarrow> fold (raiseOne bands gaps) spans sizes = sizes)
    \<and> (\<forall>i < List.length sizes. (\<forall>sp \<in> set spans. int i < sp_start sp \<or> sp_start sp + sp_count sp \<le> int i) \<longrightarrow> fold (raiseOne bands gaps) spans sizes ! i = sizes ! i)"
proof (induction spans arbitrary: sizes)
  case Nil then show ?case by (simp add: list_all2_refl)
next
  case (Cons sp spans)
  let ?one = "raiseOne bands gaps sp sizes"
  note one = raiseOne_spec[where sizes = sizes and gaps = gaps and sp = sp, OF assms refl]
  have len: "List.length ?one = List.length sizes" using list_all2_lengthD[OF one(1)] by simp
  note IH = Cons.IH[of ?one, unfolded len]
  have le: "list_all2 (\<le>) sizes (fold (raiseOne bands gaps) (sp # spans) sizes)"
    using list_all2_trans[OF _ one(1)] IH order_trans by (metis fold_simps(2))
  have fit: "fits (fold (raiseOne bands gaps) (sp # spans) sizes) gaps sp" if "claimsTracks sp (List.length sizes)"
    using one(2)[OF that] covered_mono[OF conjunct1[OF IH], of gaps sp] by (simp add: fits_def)
  have same: "?one = sizes" if "claimsTracks sp (List.length sizes) \<longrightarrow> fits sizes gaps sp"
    using that one(3) by (cases "claimsTracks sp (List.length sizes)") (auto simp: raiseOne_def)
  show ?case using le fit IH same one(4) by (auto simp del: fold_simps)
qed



subsection \<open>What a row comes down to\<close>

definition rowRoom :: "stretchItem list \<Rightarrow> Unit" where
  "rowRoom items = sum_list (map (\<lambda>it. if giveRoom it > 0 then giveRoom it else 0) items)"

lemma rowRoom_nonneg: "0 \<le> rowRoom items"
  by (induction items) (auto simp: rowRoom_def)

lemma rowRoom_none: "\<forall>it \<in> set items. giveRoom it \<le> 0 \<Longrightarrow> rowRoom items = 0"
  by (induction items) (auto simp: rowRoom_def)

lemma widestFrom_Some:
  "widestFrom n items best = Some i \<Longrightarrow>
     (\<exists>m. best = Some (i, m)) \<or> (n \<le> i \<and> i < n + List.length items \<and> giveRoom (items ! (i - n)) > 0)"
proof (induction n items best arbitrary: rule: widestFrom.induct)
  case (2 n it its best)
  let ?best = "if it_minimum it > it_floor it \<and> (case best of None \<Rightarrow> True | Some (j, m) \<Rightarrow> it_minimum it > m) then Some (n, it_minimum it) else best"
  have IH: "(\<exists>m. ?best = Some (i, m)) \<or> Suc n \<le> i \<and> i < Suc n + List.length its \<and> giveRoom (its ! (i - Suc n)) > 0"
    using 2 by auto
  then show ?case
  proof
    assume "\<exists>m. ?best = Some (i, m)"
    then show ?thesis by (auto simp: giveRoom_def split: if_splits)
  next
    assume a: "Suc n \<le> i \<and> i < Suc n + List.length its \<and> giveRoom (its ! (i - Suc n)) > 0"
    then have "(it # its) ! (i - n) = its ! (i - Suc n)" by (metis Suc_diff_le diff_Suc_Suc nth_Cons_Suc)
    then show ?thesis using a by auto
  qed
qed auto

lemma widestFrom_None: "widestFrom n items best = None \<Longrightarrow> best = None \<and> (\<forall>it \<in> set items. giveRoom it \<le> 0)"
  by (induction n items best rule: widestFrom.induct) (auto simp: giveRoom_def split: if_splits option.splits)

text \<open>Each unit comes off an item that has one to give, and no item goes below its floor for it.\<close>

definition lowered :: "stretchItem \<Rightarrow> stretchItem \<Rightarrow> bool" where
  "lowered it it' \<longleftrightarrow> it_minimum it' \<le> it_minimum it \<and> min (it_minimum it) (it_floor it) \<le> it_minimum it'
     \<and> it_floor it' = it_floor it \<and> it_maximum it' = it_maximum it \<and> it_stretch it' = it_stretch it"

lemma lowered_trans: "lowered a b \<Longrightarrow> lowered b c \<Longrightarrow> lowered a c" by (auto simp: lowered_def)

lemma sum_list_update: "i < List.length xs \<Longrightarrow> sum_list (map f (xs[i := y])) = sum_list (map f xs) - f (xs ! i) + (f y :: int)"
  by (induction xs arbitrary: i) (auto split: nat.split)

lemma trimWidest_spec:
  assumes "int rest \<le> rowRoom items"
  shows "sum_list (map it_minimum (trimWidest rest items)) = sum_list (map it_minimum items) - int rest \<and> list_all2 lowered items (trimWidest rest items)"
  using assms
proof (induction rest arbitrary: items)
  case 0 then show ?case by (auto simp: lowered_def intro: list_all2_refl)
next
  case (Suc rest)
  show ?case
  proof (cases "widestFrom 0 items None")
    case None
    then have "rowRoom items = 0" using widestFrom_None rowRoom_none by blast
    then show ?thesis using Suc.prems by simp
  next
    case (Some i)
    then have i: "i < List.length items" "giveRoom (items ! i) > 0" using widestFrom_Some by fastforce+
    let ?it = "(items ! i)\<lparr>it_minimum := it_minimum (items ! i) - 1\<rparr>"
    let ?items = "items[i := ?it]"
    have "rowRoom ?items = rowRoom items - 1" using i by (simp add: rowRoom_def sum_list_update) (auto simp: giveRoom_def)
    then have IH: "sum_list (map it_minimum (trimWidest rest ?items)) = sum_list (map it_minimum ?items) - int rest"
      "list_all2 lowered ?items (trimWidest rest ?items)" using Suc.IH[of ?items] Suc.prems by auto
    have "list_all2 lowered items ?items" using i by (auto simp: list_all2_conv_all_nth nth_list_update lowered_def giveRoom_def)
    then have "list_all2 lowered items (trimWidest rest ?items)" using IH(2) lowered_trans by (rule list_all2_trans[rotated])
    then show ?thesis using Some IH(1) i by (simp add: sum_list_update)
  qed
qed

lemma shares_of_room:
  assumes "0 < E" "0 \<le> over" "over \<le> E"
  defines "part \<equiv> \<lambda>it. if giveRoom it \<le> 0 then 0 else (over * giveRoom it) sdiv E"
  shows "giveRoom it > 0 \<Longrightarrow> 0 \<le> part it \<and> part it \<le> giveRoom it"
    "E * sum_list (map part items) \<le> over * rowRoom items"
proof -
  have div: "part it = (over * giveRoom it) div E" if "giveRoom it > 0" for it
    using that assms(1,2) sdiv_pos[of "over * giveRoom it" E] by (simp add: part_def)
  have le: "E * part it \<le> over * giveRoom it" if "giveRoom it > 0" for it
    using div_share(1)[OF assms(1)] div[OF that] by simp
  show "giveRoom it > 0 \<Longrightarrow> 0 \<le> part it \<and> part it \<le> giveRoom it"
  proof -
    assume r: "giveRoom it > 0"
    have "E * part it \<le> E * giveRoom it" using le[OF r] assms(3) r by (meson mult_right_mono order_trans less_imp_le)
    then show ?thesis using assms(1,2) r div[OF r] by (simp add: pos_imp_zdiv_nonneg_iff)
  qed
  show "E * sum_list (map part items) \<le> over * rowRoom items"
  proof (induction items)
    case (Cons it items)
    have "giveRoom it \<le> 0 \<Longrightarrow> part it = 0" by (simp add: part_def)
    then show ?case using Cons le[of it] by (auto simp: rowRoom_def algebra_simps)
  qed (simp add: rowRoom_def)
qed

text \<open>A row lands on its width: with nothing on it that stretches, a row that asks for more than it has is
  brought down to exactly what it has, or to where everything on it is at its floor; no item goes below its
  floor for it or grows, and a row that fits, or has something elastic in it, is left alone.\<close>

theorem row_lands_on_its_width:
  shows "let out = shrinkToFit items available; wanted = sum_list (map it_minimum items) in
    list_all2 lowered items out
    \<and> ((\<exists>it \<in> set items. 0 < it_stretch it) \<or> wanted \<le> available \<longrightarrow> out = items)
    \<and> ((\<forall>it \<in> set items. it_stretch it \<le> 0) \<and> available < wanted
         \<longrightarrow> sum_list (map it_minimum out) = max available (wanted - rowRoom items))"
proof (cases "(\<exists>it \<in> set items. 0 < it_stretch it) \<or> sum_list (map it_minimum items) \<le> available \<or> rowRoom items \<le> 0")
  case True
  note r = rowRoom_nonneg[of items]
  have "shrinkToFit items available = items" using True by (auto simp: shrinkToFit_def Let_def list_ex_iff rowRoom_def)
  then show ?thesis using True r by (auto simp: Let_def list_ex_iff lowered_def intro!: list_all2_refl)
next
  case False
  let ?E = "rowRoom items" and ?asked = "sum_list (map it_minimum items) - available"
  let ?over = "if ?asked > ?E then ?E else ?asked"
  let ?part = "\<lambda>it. if giveRoom it \<le> 0 then 0 else (?over * giveRoom it) sdiv ?E"
  let ?items = "map (\<lambda>it. it\<lparr>it_minimum := it_minimum it - ?part it\<rparr>) items"
  let ?rest = "?over - sum_list (map ?part items)"
  have E: "0 < ?E" "0 \<le> ?over" "?over \<le> ?E" using False by auto
  note shares = shares_of_room[OF E]
  have out: "shrinkToFit items available = trimWidest (nat ?rest) ?items"
    using False by (simp add: shrinkToFit_def Let_def list_ex_iff rowRoom_def[symmetric])
  have "?E * sum_list (map ?part items) \<le> ?over * ?E" using shares(2)[of items] by simp
  then have "?E * sum_list (map ?part items) \<le> ?E * ?over" by (simp only: mult.commute)
  then have rest: "0 \<le> ?rest" using E(1) by simp
  have room: "rowRoom ?items = ?E - sum_list (map ?part items)"
  proof -
    have "(if giveRoom (it\<lparr>it_minimum := it_minimum it - ?part it\<rparr>) > 0 then giveRoom (it\<lparr>it_minimum := it_minimum it - ?part it\<rparr>) else 0)
        = (if giveRoom it > 0 then giveRoom it else 0) - ?part it" for it
      using shares(1)[of it] by (cases "giveRoom it > 0") (auto simp: giveRoom_def simp del: mult_minus_left)
    then show ?thesis by (simp add: rowRoom_def comp_def sum_list_minus)
  qed
  have "int (nat ?rest) \<le> rowRoom ?items" using rest room E(3) by linarith
  note trim = trimWidest_spec[OF this]
  have "lowered it (it\<lparr>it_minimum := it_minimum it - ?part it\<rparr>)" for it
    using shares(1)[of it] by (cases "giveRoom it > 0") (auto simp: lowered_def giveRoom_def)
  then have low: "list_all2 lowered items ?items" by (simp add: list_all2_conv_all_nth)
  have all: "list_all2 lowered items (trimWidest (nat ?rest) ?items)"
    by (rule list_all2_trans[OF _ low conjunct2[OF trim]]) (rule lowered_trans)
  have "sum_list (map it_minimum ?items) = sum_list (map it_minimum items) - sum_list (map ?part items)"
    by (simp add: comp_def sum_list_minus)
  then have "sum_list (map it_minimum (trimWidest (nat ?rest) ?items)) = sum_list (map it_minimum items) - ?over"
    using trim rest by linarith
  then show ?thesis using out all False by (auto simp: Let_def max_def)
qed


subsection \<open>Reflection\<close>

text \<open>Reflecting a slot twice is leaving it alone, and a slot within its room stays within it, as far from the
  trailing edge as it was from the leading one.\<close>

lemma mirrorX_simps [simp]:
  "rc_X (mirrorX room r) = rc_X room * 2 + rc_Width room - rc_X r - rc_Width r" "rc_Width (mirrorX room r) = rc_Width r"
  "rc_Y (mirrorX room r) = rc_Y r" "rc_Height (mirrorX room r) = rc_Height r"
  by (simp_all add: mirrorX_def)

lemma mirrorX_twice: "mirrorX room (mirrorX room r) = (r :: UnitRect)"
  by (cases r) (simp add: mirrorX_def)

subsection \<open>Examples\<close>


theorem row_lands_on_its_width_witness:
  "sum_list (map it_minimum (shrinkToFit [fixed, fixed, fixed] 31)) = 31"
  using row_lands_on_its_width[of "[fixed, fixed, fixed]" 31] by (simp add: Let_def fixed_def rowRoom_def giveRoom_def)

end
