(* ===== verification/LayoutItems.thy ===== *)
theory LayoutItems
  imports LayoutTracks
begin

text \<open>
  What a layout reads of the things it arranges (\<open>core/align.go\<close>, \<open>core/units.go\<close>, \<open>core/direction.go\<close>,
  \<open>layout/inline.go\<close> and the readings of \<open>layout/layout.go\<close> and \<open>box.go\<close>): sizes and policies, the alignment a
  child states over the one it was given, the side a logical alignment comes to, and the air an inline
  child keeps. A trinket is what it answers when a layout asks it; layouts read and never change it.
\<close>

subsection \<open>Alignment\<close>

datatype Direction = DirInherit | DirLTR | DirRTL
datatype HAlign = AlignTextNatural | AlignTextOpposite | AlignLayoutNatural | AlignLayoutOpposite | AlignCenter | AlignOpticalLeft | AlignOpticalRight
datatype VAlign = AlignTop | AlignMiddle | AlignBottom
datatype HSide = SideLeft | SideCenter | SideRight

record Alignment =
  al_H :: HAlign
  al_V :: VAlign
  al_FillH :: bool
  al_FillV :: bool
  al_HSet :: bool
  al_VSet :: bool
  al_FillHSet :: bool
  al_FillVSet :: bool

definition DefaultAlignment :: Alignment where
  "DefaultAlignment =
     \<lparr>al_H = AlignCenter, al_V = AlignMiddle, al_FillH = True, al_FillV = True,
      al_HSet = False, al_VSet = False, al_FillHSet = False, al_FillVSet = False\<rparr>"

definition WithH :: "HAlign \<Rightarrow> Alignment \<Rightarrow> Alignment" where "WithH h a = a\<lparr>al_H := h, al_HSet := True\<rparr>"
definition WithV :: "VAlign \<Rightarrow> Alignment \<Rightarrow> Alignment" where "WithV v a = a\<lparr>al_V := v, al_VSet := True\<rparr>"
definition WithFill :: "bool \<Rightarrow> bool \<Rightarrow> Alignment \<Rightarrow> Alignment" where
  "WithFill h v a = a\<lparr>al_FillH := h, al_FillV := v, al_FillHSet := True, al_FillVSet := True\<rparr>"

definition Stated :: "Alignment \<Rightarrow> bool" where
  "Stated a \<longleftrightarrow> al_HSet a \<or> al_VSet a \<or> al_FillHSet a \<or> al_FillVSet a"

definition Over :: "Alignment \<Rightarrow> Alignment \<Rightarrow> Alignment" where
  "Over a base =
     (if \<not> Stated a then a
      else
        (let out = base;
             out = (if al_HSet a then out\<lparr>al_H := al_H a, al_HSet := True\<rparr> else out);
             out = (if al_VSet a then out\<lparr>al_V := al_V a, al_VSet := True\<rparr> else out);
             out = (if al_FillHSet a then out\<lparr>al_FillH := al_FillH a, al_FillHSet := True\<rparr> else out)
         in (if al_FillVSet a then out\<lparr>al_FillV := al_FillV a, al_FillVSet := True\<rparr> else out)))"

definition naturalSide :: "Direction \<Rightarrow> HSide" where "naturalSide d = (if d = DirRTL then SideRight else SideLeft)"
definition oppositeSide :: "Direction \<Rightarrow> HSide" where "oppositeSide d = (if d = DirRTL then SideLeft else SideRight)"

definition ResolveHAlign :: "HAlign \<Rightarrow> Direction \<Rightarrow> Direction \<Rightarrow> HSide" where
  "ResolveHAlign a textDir layoutDir =
     (let layoutDir = (if layoutDir = DirInherit then DirLTR else layoutDir);
          textDir = (if textDir = DirInherit then layoutDir else textDir)
      in case a of
           AlignTextNatural \<Rightarrow> naturalSide textDir
         | AlignTextOpposite \<Rightarrow> oppositeSide textDir
         | AlignLayoutNatural \<Rightarrow> naturalSide layoutDir
         | AlignLayoutOpposite \<Rightarrow> oppositeSide layoutDir
         | AlignOpticalLeft \<Rightarrow> SideLeft
         | AlignOpticalRight \<Rightarrow> SideRight
         | AlignCenter \<Rightarrow> SideCenter)"

subsection \<open>What a child answers\<close>

datatype SizePolicy = SizeFixed | SizeMinimum | SizeMaximum | SizePreferred | SizeExpanding | SizeIgnored

record UnitSize =
  sz_Width :: Unit
  sz_Height :: Unit

record CellMetrics =
  UnitsPerCellWidth :: Unit
  UnitsPerCellHeight :: Unit

definition UnitsToCell :: "Unit \<Rightarrow> Unit \<Rightarrow> int" where
  "UnitsToCell units cellSize = (if cellSize \<le> 0 then 0 else units sdiv cellSize)"

record GridPlacement =
  gp_Row :: int
  gp_Column :: int
  gp_RowID :: string
  gp_ColumnID :: string
  gp_RowSpan :: int
  gp_ColumnSpan :: int

text \<open>\<open>tk_saysInline\<close>: it is asked whether it is inline and says so. \<open>tk_heightForWidth\<close> is there while its height
  depends on its width. \<open>tk_textDirection\<close> and \<open>tk_metrics\<close> are what walking up the tree from it finds.\<close>

record trinket =
  tk_ID :: nat
  tk_visible :: bool
  tk_hint :: UnitSize
  tk_min :: UnitSize
  tk_max :: UnitSize
  tk_policyH :: SizePolicy
  tk_policyV :: SizePolicy
  tk_stretch :: "int option"
  tk_alignment :: "Alignment option"
  tk_placement :: "GridPlacement option"
  tk_saysInline :: bool
  tk_isContainer :: bool
  tk_heightForWidth :: "(Unit \<Rightarrow> Unit) option"
  tk_insets :: UnitMargins
  tk_textDirection :: Direction
  tk_metrics :: CellMetrics

text \<open>The container a layout arranges: its metrics, the direction in force, and whether its surface places
  anywhere or on cells.\<close>

record container =
  ct_metrics :: CellMetrics
  ct_direction :: Direction
  ct_smooth :: bool

definition isShown :: "trinket \<Rightarrow> bool" where "isShown = tk_visible"

definition cellQuantum :: "container \<Rightarrow> Unit \<Rightarrow> Unit" where
  "cellQuantum c s = (if ct_smooth c then 0 else s)"

definition alignmentFor :: "trinket \<Rightarrow> Alignment \<Rightarrow> Alignment" where
  "alignmentFor w fallback = (case tk_alignment w of Some a \<Rightarrow> Over a fallback | None \<Rightarrow> fallback)"

definition stretchFor :: "trinket \<Rightarrow> int \<Rightarrow> int" where
  "stretchFor w fallback = (case tk_stretch w of Some s \<Rightarrow> s | None \<Rightarrow> fallback)"

definition placementFor :: "trinket \<Rightarrow> GridPlacement \<Rightarrow> GridPlacement" where
  "placementFor w fallback = (case tk_placement w of Some p \<Rightarrow> p | None \<Rightarrow> fallback)"

definition placeChild :: "container \<Rightarrow> UnitRect \<Rightarrow> CellMetrics \<Rightarrow> UnitRect" where
  "placeChild c r metrics =
     r\<lparr>rc_X := floorToQuantum (rc_X r) (cellQuantum c (UnitsPerCellWidth metrics)),
       rc_Y := floorToQuantum (rc_Y r) (cellQuantum c (UnitsPerCellHeight metrics))\<rparr>"

definition itemSize :: "trinket \<Rightarrow> UnitSize" where
  "itemSize w =
     (let size = tk_hint w; mx = tk_max w; mn = tk_min w;
          size = (if sz_Width mx \<ge> 0 \<and> sz_Width size > sz_Width mx then size\<lparr>sz_Width := sz_Width mx\<rparr> else size);
          size = (if sz_Height mx \<ge> 0 \<and> sz_Height size > sz_Height mx then size\<lparr>sz_Height := sz_Height mx\<rparr> else size);
          size = (if sz_Width size < sz_Width mn then size\<lparr>sz_Width := sz_Width mn\<rparr> else size)
      in (if sz_Height size < sz_Height mn then size\<lparr>sz_Height := sz_Height mn\<rparr> else size))"

definition hasHeightForWidth :: "trinket \<Rightarrow> bool" where "hasHeightForWidth w \<longleftrightarrow> tk_heightForWidth w \<noteq> None"

definition itemHeightForWidth :: "trinket \<Rightarrow> Unit \<Rightarrow> Unit" where
  "itemHeightForWidth w width =
     (case tk_heightForWidth w of
        Some f \<Rightarrow> (if f width > 0 then f width else sz_Height (tk_hint w))
      | None \<Rightarrow> sz_Height (tk_hint w))"

definition isInlineTrinket :: "trinket \<Rightarrow> bool" where
  "isInlineTrinket w = (if tk_saysInline w then True else if tk_isContainer w then False else True)"

definition sideBearing :: "trinket \<Rightarrow> CellMetrics \<Rightarrow> Unit" where
  "sideBearing w metrics = (if isInlineTrinket w then UnitsPerCellWidth metrics else 0)"

definition insetForBearing :: "trinket \<Rightarrow> CellMetrics \<Rightarrow> UnitRect \<Rightarrow> UnitRect" where
  "insetForBearing w metrics r =
     (let b = sideBearing w metrics in
      if b = 0 then r
      else r\<lparr>rc_X := rc_X r + b, rc_Width := (if rc_Width r - 2 * b < 0 then 0 else rc_Width r - 2 * b)\<rparr>)"

definition insetInColumn :: "trinket \<Rightarrow> bool" where "insetInColumn = tk_saysInline"

lemma itemSize_is:
  "sz_Width (itemSize w) = max (sz_Width (tk_min w)) (if sz_Width (tk_max w) \<ge> 0 then min (sz_Width (tk_hint w)) (sz_Width (tk_max w)) else sz_Width (tk_hint w))"
  "sz_Height (itemSize w) = max (sz_Height (tk_min w)) (if sz_Height (tk_max w) \<ge> 0 then min (sz_Height (tk_hint w)) (sz_Height (tk_max w)) else sz_Height (tk_hint w))"
  by (auto simp: itemSize_def Let_def)

end
