(* ===== verification/LayoutBox.thy ===== *)
theory LayoutBox
  imports LayoutItems
begin

text \<open>
  The box (\<open>layout/box.go\<close>): a row or a column of children, what it asks for and where it puts them. A child is
  arranged by giving it its bounds; the layout is the list of the bounds it gives, one for each shown child in
  order. The container is a trinket and its layout's metrics are its own; spacers are children like any other.
\<close>

datatype Orientation = Horizontal | Vertical

record LayoutItem =
  li_Trinket :: trinket
  li_Stretch :: int
  li_Align :: Alignment

record BoxLayout =
  bx_spacing :: Unit
  bx_margins :: UnitMargins
  bx_orientation :: Orientation
  bx_items :: "LayoutItem list"

definition NewLayoutItem :: "trinket \<Rightarrow> LayoutItem" where
  "NewLayoutItem w = \<lparr>li_Trinket = w, li_Stretch = 0, li_Align = DefaultAlignment\<rparr>"

definition AddTrinket :: "trinket \<Rightarrow> BoxLayout \<Rightarrow> BoxLayout" where
  "AddTrinket w l =
     (let item = NewLayoutItem w;
          item = (case tk_stretch w of Some s \<Rightarrow> if s > 0 then item\<lparr>li_Stretch := s\<rparr> else item | None \<Rightarrow> item);
          item = (case tk_alignment w of Some a \<Rightarrow> item\<lparr>li_Align := a\<rparr> | None \<Rightarrow> item)
      in l\<lparr>bx_items := bx_items l @ [item]\<rparr>)"

definition AddTrinketWithStretch :: "trinket \<Rightarrow> int \<Rightarrow> BoxLayout \<Rightarrow> BoxLayout" where
  "AddTrinketWithStretch w s l = l\<lparr>bx_items := bx_items l @ [(NewLayoutItem w)\<lparr>li_Stretch := s\<rparr>]\<rparr>"

text \<open>Spacers, under the identity they are given; nothing above a spacer in the tree has been found when it is made.\<close>

definition NewSpacer :: "nat \<Rightarrow> UnitSize \<Rightarrow> SizePolicy \<Rightarrow> CellMetrics \<Rightarrow> trinket" where
  "NewSpacer i fixedSize policy metrics =
     \<lparr>tk_ID = i, tk_visible = True, tk_hint = fixedSize, tk_min = \<lparr>sz_Width = 0, sz_Height = 0\<rparr>,
      tk_max = \<lparr>sz_Width = Unbounded, sz_Height = Unbounded\<rparr>, tk_policyH = policy, tk_policyV = policy,
      tk_stretch = None, tk_alignment = None, tk_placement = None, tk_saysInline = False, tk_isContainer = False,
      tk_heightForWidth = None, tk_insets = \<lparr>mg_Top = 0, mg_Right = 0, mg_Bottom = 0, mg_Left = 0\<rparr>,
      tk_textDirection = DirInherit, tk_metrics = metrics\<rparr>"

definition AddStretch :: "nat \<Rightarrow> CellMetrics \<Rightarrow> int \<Rightarrow> BoxLayout \<Rightarrow> BoxLayout" where
  "AddStretch i metrics s l = AddTrinketWithStretch (NewSpacer i \<lparr>sz_Width = 0, sz_Height = 0\<rparr> SizeExpanding metrics) s l"

definition AddSpacing :: "nat \<Rightarrow> CellMetrics \<Rightarrow> Unit \<Rightarrow> BoxLayout \<Rightarrow> BoxLayout" where
  "AddSpacing i metrics s l =
     l\<lparr>bx_items := bx_items l @
        [NewLayoutItem (NewSpacer i (case bx_orientation l of Horizontal \<Rightarrow> \<lparr>sz_Width = s, sz_Height = 0\<rparr> | Vertical \<Rightarrow> \<lparr>sz_Width = 0, sz_Height = s\<rparr>)
           SizeFixed metrics)]\<rparr>"

definition InsertTrinket :: "int \<Rightarrow> trinket \<Rightarrow> BoxLayout \<Rightarrow> BoxLayout" where
  "InsertTrinket index w l =
     (let item = NewLayoutItem w; index = (if index < 0 then 0 else index) in
      if index \<ge> int (List.length (bx_items l)) then l\<lparr>bx_items := bx_items l @ [item]\<rparr>
      else l\<lparr>bx_items := take (nat index) (bx_items l) @ [item] @ drop (nat index) (bx_items l)\<rparr>)"

fun removeItem :: "trinket \<Rightarrow> LayoutItem list \<Rightarrow> LayoutItem list" where
  "removeItem w [] = []"
| "removeItem w (item # items) = (if tk_ID (li_Trinket item) = tk_ID w then items else item # removeItem w items)"

definition RemoveTrinket :: "trinket \<Rightarrow> BoxLayout \<Rightarrow> BoxLayout" where
  "RemoveTrinket w l = l\<lparr>bx_items := removeItem w (bx_items l)\<rparr>"

definition shown :: "BoxLayout \<Rightarrow> LayoutItem list" where
  "shown l = filter (\<lambda>item. isShown (li_Trinket item)) (bx_items l)"

subsection \<open>Room between\<close>

text \<open>What each boundary costs, one entry between each two: a column where either side is inline, the spacing
  between two blocks.\<close>

fun boundaries :: "Unit \<Rightarrow> Unit \<Rightarrow> trinket list \<Rightarrow> Unit list" where
  "boundaries cell spacing [] = []"
| "boundaries cell spacing [w] = []"
| "boundaries cell spacing (v # w # ws) =
     (if isInlineTrinket v \<or> isInlineTrinket w then cell else spacing) # boundaries cell spacing (w # ws)"

definition inlineSpacingForItems :: "trinket list \<Rightarrow> CellMetrics \<Rightarrow> Unit" where
  "inlineSpacingForItems ws metrics =
     (if ws = [] then 0
      else (if isInlineTrinket (hd ws) then UnitsPerCellWidth metrics else 0)
         + sum_list (boundaries (UnitsPerCellWidth metrics) 0 ws)
         + (if isInlineTrinket (last ws) then UnitsPerCellWidth metrics else 0))"

definition blockSpacing :: "trinket list \<Rightarrow> Unit \<Rightarrow> Unit" where
  "blockSpacing ws base = sum_list (boundaries 0 base ws)"

definition rowSpacing :: "BoxLayout \<Rightarrow> CellMetrics \<Rightarrow> Unit" where
  "rowSpacing l metrics = UnitsToCell (bx_spacing l) (UnitsPerCellWidth metrics) * UnitsPerCellWidth metrics"

definition columnSpacing :: "BoxLayout \<Rightarrow> CellMetrics \<Rightarrow> Unit" where
  "columnSpacing l metrics = UnitsToCell (bx_spacing l) (UnitsPerCellHeight metrics) * UnitsPerCellHeight metrics"

definition spacingTotal :: "BoxLayout \<Rightarrow> container \<Rightarrow> Unit" where
  "spacingTotal l c =
     (let items = shown l; ws = map li_Trinket items; metrics = ct_metrics c in
      if List.length items < 1 then 0
      else if bx_orientation l = Vertical then columnSpacing l metrics * (int (List.length items) - 1)
      else inlineSpacingForItems ws metrics + blockSpacing ws (rowSpacing l metrics))"

definition crossBearings :: "BoxLayout \<Rightarrow> trinket \<Rightarrow> CellMetrics \<Rightarrow> Unit" where
  "crossBearings l w metrics =
     (if bx_orientation l = Horizontal \<or> \<not> insetInColumn w then 0 else UnitsPerCellWidth metrics * 2)"

subsection \<open>Sizes along the run\<close>

definition stretchOf :: "SizePolicy \<Rightarrow> LayoutItem \<Rightarrow> int" where
  "stretchOf policy item =
     (let want = stretchFor (li_Trinket item) (li_Stretch item) in
      if policy = SizeExpanding \<or> want > 0 then (if want = 0 then 1 else want) else 0)"

definition horizontalItemWidths :: "LayoutItem list \<Rightarrow> Unit \<Rightarrow> Unit \<Rightarrow> Unit \<Rightarrow> Unit \<Rightarrow> Unit list" where
  "horizontalItemWidths items contentWidth baseSpacing inlineSpacingTotal q =
     (let totalSpacing = inlineSpacingTotal + blockSpacing (map li_Trinket items) baseSpacing;
          stretchItems = map (\<lambda>item. let w = li_Trinket item in
            \<lparr>it_minimum = sz_Width (itemSize w), it_maximum = sz_Width (tk_max w),
             it_stretch = stretchOf (tk_policyH w) item, it_floor = sz_Width (tk_min w)\<rparr>) items;
          available = contentWidth - totalSpacing
      in calculateStretch available (shrinkToFit stretchItems available) q)"

definition verticalItemWidth :: "Unit \<Rightarrow> trinket \<Rightarrow> CellMetrics \<Rightarrow> Unit" where
  "verticalItemWidth contentWidth w metrics =
     (let contentWidth = (if insetInColumn w then contentWidth - UnitsPerCellWidth metrics * 2 else contentWidth) in
      if contentWidth < 0 then 0 else contentWidth)"

text \<open>What an item of a column asks for: its size, or its height at the width it will have.\<close>

definition columnMinimum :: "Unit \<Rightarrow> CellMetrics \<Rightarrow> trinket \<Rightarrow> Unit" where
  "columnMinimum width metrics w =
     (let minSize = sz_Height (itemSize w);
          h = itemHeightForWidth w (verticalItemWidth width w metrics);
          minSize = (if h > 0 then h else minSize);
          m = sz_Height (tk_min w)
      in if minSize < m then m else minSize)"

definition verticalItemHeights :: "BoxLayout \<Rightarrow> LayoutItem list \<Rightarrow> UnitRect \<Rightarrow> container \<Rightarrow> Unit list" where
  "verticalItemHeights l items rect c =
     (let metrics = ct_metrics c;
          totalSpacing = columnSpacing l metrics * (int (List.length items) - 1);
          stretchItems = map (\<lambda>item. let w = li_Trinket item in
            \<lparr>it_minimum = columnMinimum (rc_Width rect) metrics w, it_maximum = sz_Height (tk_max w),
             it_stretch = stretchOf (tk_policyV w) item, it_floor = 0\<rparr>) items
      in calculateStretch (rc_Height rect - totalSpacing) stretchItems (cellQuantum c (UnitsPerCellHeight metrics)))"

subsection \<open>Placing across the run\<close>

definition styleAllowance :: "BoxLayout \<Rightarrow> UnitMargins" where
  "styleAllowance l =
     (let ws = map li_Trinket (shown l);
          most = (\<lambda>f. fold (\<lambda>w m. if f w > m then f w else m) ws 0);
          outerW = most (\<lambda>w. sz_Width (itemSize w)); outerH = most (\<lambda>w. sz_Height (itemSize w));
          contentW = most (\<lambda>w. sz_Width (itemSize w) - mgHorizontal (tk_insets w));
          contentH = most (\<lambda>w. sz_Height (itemSize w) - mgVertical (tk_insets w))
      in \<lparr>mg_Top = 0, mg_Right = (if outerW - contentW < 0 then 0 else outerW - contentW),
          mg_Bottom = (if outerH - contentH < 0 then 0 else outerH - contentH), mg_Left = 0\<rparr>)"

definition wholeCells :: "Unit \<Rightarrow> Unit \<Rightarrow> Unit" where
  "wholeCells off cell = (if cell > 0 then (off sdiv cell) * cell else off)"

definition alignRowContent :: "LayoutItem \<Rightarrow> UnitRect \<Rightarrow> UnitRect \<Rightarrow> UnitMargins \<Rightarrow> UnitRect" where
  "alignRowContent item bounds band ins =
     (let w = li_Trinket item; hintHeight = sz_Height (itemSize w) - mgVertical ins;
          align = alignmentFor w (li_Align item);
          fill = (al_FillV align \<and> tk_policyV w \<noteq> SizeFixed)
      in if tk_policyV w = SizeExpanding then bounds\<lparr>rc_Height := rc_Height band\<rparr>
         else
           (let height = (if hasHeightForWidth w then itemHeightForWidth w (rc_Width bounds) else hintHeight) in
            if fill then bounds\<lparr>rc_Height := rc_Height band\<rparr>
            else case al_V align of
                   AlignTop \<Rightarrow> bounds\<lparr>rc_Height := height\<rparr>
                 | AlignBottom \<Rightarrow>
                     (if height < rc_Height band
                      then bounds\<lparr>rc_Y := rc_Y bounds + (rc_Height band - height), rc_Height := height\<rparr> else bounds)
                 | AlignMiddle \<Rightarrow>
                     (if height < rc_Height bounds
                      then bounds\<lparr>rc_Y := rc_Y bounds + wholeCells ((rc_Height bounds - height) sdiv 2) (UnitsPerCellHeight (tk_metrics w)),
                                  rc_Height := height\<rparr>
                      else bounds)))"

definition alignColumnContent :: "LayoutItem \<Rightarrow> UnitRect \<Rightarrow> UnitRect \<Rightarrow> UnitMargins \<Rightarrow> Direction \<Rightarrow> UnitRect" where
  "alignColumnContent item bounds band ins layoutDir =
     (let w = li_Trinket item; hintWidth = sz_Width (itemSize w) - mgHorizontal ins;
          align = alignmentFor w (li_Align item);
          fill = (al_FillH align \<and> tk_policyH w \<noteq> SizeFixed)
      in if tk_policyH w = SizeExpanding then bounds\<lparr>rc_Width := rc_Width band\<rparr>
         else if hasHeightForWidth w then bounds
         else if fill then bounds\<lparr>rc_Width := rc_Width band\<rparr>
         else case ResolveHAlign (al_H align) (tk_textDirection w) layoutDir of
                SideLeft \<Rightarrow> (if hintWidth < rc_Width bounds then bounds\<lparr>rc_Width := hintWidth\<rparr> else bounds)
              | SideCenter \<Rightarrow>
                  (if hintWidth < rc_Width bounds
                   then bounds\<lparr>rc_X := rc_X bounds + wholeCells ((rc_Width bounds - hintWidth) sdiv 2) (UnitsPerCellWidth (tk_metrics w)),
                               rc_Width := hintWidth\<rparr>
                   else bounds)
              | SideRight \<Rightarrow>
                  (if hintWidth < rc_Width band
                   then bounds\<lparr>rc_X := rc_X bounds + (rc_Width band - hintWidth), rc_Width := hintWidth\<rparr> else bounds))"

definition alignItem :: "BoxLayout \<Rightarrow> LayoutItem \<Rightarrow> UnitRect \<Rightarrow> UnitMargins \<Rightarrow> Direction \<Rightarrow> UnitRect" where
  "alignItem l item bounds allowance layoutDir =
     (let ins = tk_insets (li_Trinket item);
          band = bounds\<lparr>rc_Width := (if rc_Width bounds - mg_Right allowance < 0 then 0 else rc_Width bounds - mg_Right allowance),
                        rc_Height := (if rc_Height bounds - mg_Bottom allowance < 0 then 0 else rc_Height bounds - mg_Bottom allowance)\<rparr>
      in if bx_orientation l = Horizontal
         then (let out = alignRowContent item bounds band ins in out\<lparr>rc_Height := rc_Height out + mgVertical ins\<rparr>)
         else (let out = alignColumnContent item bounds band ins layoutDir in out\<lparr>rc_Width := rc_Width out + mgHorizontal ins\<rparr>))"

subsection \<open>The layout\<close>

text \<open>Where each thing of a run starts: after what is before it and the boundary between.\<close>

fun runPositions :: "Unit \<Rightarrow> Unit list \<Rightarrow> Unit list \<Rightarrow> Unit list" where
  "runPositions pos [] gaps = []"
| "runPositions pos (s # sizes) [] = pos # runPositions (pos + s) sizes []"
| "runPositions pos (s # sizes) (g # gaps) = pos # runPositions (pos + s + g) sizes gaps"

definition rowSlots :: "BoxLayout \<Rightarrow> UnitRect \<Rightarrow> container \<Rightarrow> UnitRect list" where
  "rowSlots l rect c =
     (let items = shown l; ws = map li_Trinket items; metrics = ct_metrics c; cell = UnitsPerCellWidth metrics;
          spacing = rowSpacing l metrics;
          sizes = horizontalItemWidths items (rc_Width rect) spacing (inlineSpacingForItems ws metrics) (cellQuantum c cell);
          start = rc_X rect + (if isInlineTrinket (hd ws) then cell else 0)
      in map (\<lambda>(x, s). \<lparr>rc_X = x, rc_Y = rc_Y rect, rc_Width = s, rc_Height = rc_Height rect\<rparr>)
           (zip (runPositions start sizes (boundaries cell spacing ws)) sizes))"

definition columnSlots :: "BoxLayout \<Rightarrow> UnitRect \<Rightarrow> container \<Rightarrow> UnitRect list" where
  "columnSlots l rect c =
     (let items = shown l; metrics = ct_metrics c; cell = UnitsPerCellWidth metrics;
          sizes = verticalItemHeights l items rect c
      in map (\<lambda>(item, y, s).
             if insetInColumn (li_Trinket item)
             then \<lparr>rc_X = rc_X rect + cell, rc_Y = y,
                   rc_Width = (if rc_Width rect - cell * 2 < 0 then 0 else rc_Width rect - cell * 2), rc_Height = s\<rparr>
             else \<lparr>rc_X = rc_X rect, rc_Y = y, rc_Width = rc_Width rect, rc_Height = s\<rparr>)
           (zip items (zip (runPositions (rc_Y rect) sizes (replicate (List.length items) (columnSpacing l metrics))) sizes)))"

definition Layout :: "BoxLayout \<Rightarrow> container \<Rightarrow> UnitRect \<Rightarrow> UnitRect list" where
  "Layout l c bounds =
     (let items = shown l in
      if items = [] then []
      else
        (let rect = effectiveBounds (bx_margins l) bounds; layoutDir = ct_direction c;
             mirrored = (layoutDir = DirRTL \<and> bx_orientation l = Horizontal);
             slots = (if bx_orientation l = Horizontal then rowSlots l rect c else columnSlots l rect c);
             allowance = styleAllowance l
         in map (\<lambda>(item, slot).
                 placeChild c (alignItem l item (if mirrored then mirrorX rect slot else slot) allowance layoutDir) (ct_metrics c))
              (zip items slots)))"

subsection \<open>What it asks for\<close>

definition sizeAsked :: "BoxLayout \<Rightarrow> container \<Rightarrow> (trinket \<Rightarrow> UnitSize) \<Rightarrow> UnitSize" where
  "sizeAsked l c sizeOf =
     (let ws = map li_Trinket (shown l); metrics = ct_metrics c; spacing = spacingTotal l c;
          most = (\<lambda>f. fold (\<lambda>w m. if f w > m then f w else m) ws 0);
          total = (\<lambda>f. sum_list (map f ws));
          width = (if bx_orientation l = Horizontal then total (\<lambda>w. sz_Width (sizeOf w)) + spacing
                   else most (\<lambda>w. sz_Width (sizeOf w) + crossBearings l w metrics));
          height = (if bx_orientation l = Horizontal then most (\<lambda>w. sz_Height (sizeOf w))
                    else total (\<lambda>w. sz_Height (sizeOf w)) + spacing)
      in \<lparr>sz_Width = width + mgHorizontal (bx_margins l), sz_Height = height + mgVertical (bx_margins l)\<rparr>)"

definition SizeHint :: "BoxLayout \<Rightarrow> container \<Rightarrow> UnitSize" where "SizeHint l c = sizeAsked l c itemSize"

definition MinimumSize :: "BoxLayout \<Rightarrow> container \<Rightarrow> UnitSize" where "MinimumSize l c = sizeAsked l c tk_min"

definition HasHeightForWidth :: "BoxLayout \<Rightarrow> bool" where
  "HasHeightForWidth l \<longleftrightarrow> list_ex (\<lambda>item. hasHeightForWidth (li_Trinket item)) (shown l)"

definition HeightForWidth :: "BoxLayout \<Rightarrow> container \<Rightarrow> Unit \<Rightarrow> Unit" where
  "HeightForWidth l c width =
     (let items = shown l; ws = map li_Trinket items in
      if items = [] then 0
      else
        (let metrics = ct_metrics c;
             contentWidth = (let cw = width - mgHorizontal (bx_margins l) in if cw < 0 then 0 else cw);
             height =
               (if bx_orientation l = Vertical
                then sum_list (map (\<lambda>w. itemHeightForWidth w (verticalItemWidth contentWidth w metrics)) ws)
                   + columnSpacing l metrics * (int (List.length items) - 1)
                else
                  (let widths = horizontalItemWidths items contentWidth (rowSpacing l metrics) (inlineSpacingForItems ws metrics)
                                  (cellQuantum c (UnitsPerCellWidth metrics))
                   in fold (\<lambda>(w, x) m. let h = itemHeightForWidth w x in if h > m then h else m) (zip ws widths) 0))
         in height + mgVertical (bx_margins l)))"

end
