(* ===== verification/LayoutBoxFacts.thy ===== *)
theory LayoutBoxFacts
  imports LayoutBox
begin

text \<open>
  What a row comes to: a run of children laid out within its room, the promise of a row that is given what it asks
  for, and a column that asks for less than it lays out.
\<close>

subsection \<open>What a run of children comes to\<close>

lemma no_stretch_minimum: "sound_items items \<Longrightarrow> sum_list (map it_stretch items) = 0 \<Longrightarrow> calculateStretch available items q = quantizeSizes (map it_minimum items) available q"
  by (simp add: calculateStretch_def quantizeSizes_def)

text \<open>A run whose minimums fit is laid out within its room, on whole cells where the surface has them.\<close>

lemma calculateStretch_fits:
  fixes available :: Unit
  assumes "sound_items items" "sum_list (map it_minimum items) \<le> available"
  shows "List.length (calculateStretch available items q) = List.length items"
    "sum_list (calculateStretch available items q) \<le> available"
    "s \<in> set (calculateStretch available items q) \<Longrightarrow> 0 \<le> s \<and> (1 < q \<longrightarrow> q dvd s)"
proof -
  let ?exact = "calculateStretch available items 0" and ?out = "calculateStretch available items q"
  have exact: "List.length ?exact = List.length items" "sum_list ?exact \<le> available" "\<forall>s \<in> set ?exact. 0 \<le> s"
  proof -
    have "List.length ?exact = List.length items \<and> sum_list ?exact \<le> available \<and> (\<forall>s \<in> set ?exact. 0 \<le> s)"
    proof (cases "sum_list (map it_stretch items) = 0")
      case True
      then show ?thesis using assms by (auto simp: no_stretch_minimum[OF assms(1)] quantizeSizes_def sound_items_def)
    next
      case False
      have "0 \<le> sum_list (map it_stretch items)" using assms(1) by (intro sum_list_nonneg) (auto simp: sound_items_def)
      then have "0 < sum_list (map it_stretch items)" using False by simp
      note fills = stretch_fills_the_run_base[OF assms(1) this, of available]
      have "0 \<le> s" if s: "s \<in> set ?exact" for s
      proof -
        obtain i where "i < List.length ?exact" "s = ?exact ! i" using s by (auto simp: in_set_conv_nth)
        then have "(items ! i, s) \<in> set (zip items ?exact)" using fills by (auto simp: in_set_zip)
        then show ?thesis using conjunct1[OF conjunct2[OF fills]] by fast
      qed
      moreover have "sum_list ?exact \<le> available"
        using conjunct1[OF conjunct2[OF conjunct2[OF fills]]] assms(2) by auto
      ultimately show ?thesis using conjunct1[OF fills] by blast
    qed
    then show "List.length ?exact = List.length items" "sum_list ?exact \<le> available" "\<forall>s \<in> set ?exact. 0 \<le> s" by blast+
  qed
  have "List.length ?out = List.length items \<and> sum_list ?out \<le> available \<and> (\<forall>s \<in> set ?out. 0 \<le> s \<and> (1 < q \<longrightarrow> q dvd s))"
  proof (cases "1 < q")
    case False
    then have "?out = ?exact" by (simp add: calculateStretch_def Let_def quantizeSizes_def)
    then show ?thesis using exact False by simp
  next
    case True
    have out: "?out = quantizeSizes ?exact available q" using True by (simp add: calculateStretch_def Let_def quantizeSizes_def)
    note cells = quantizeSizes_spec[OF True out]
    have "0 \<le> s \<and> (1 < q \<longrightarrow> q dvd s)" if s: "s \<in> set ?out" for s
    proof -
      obtain i where i: "i < List.length ?out" "s = ?out ! i" using s by (auto simp: in_set_conv_nth)
      then have "(?exact ! i, s) \<in> set (zip ?exact ?out)" using cells(1) by (auto simp: in_set_zip)
      then have "q dvd s" "?exact ! i - q < s" using cells(2) by blast+
      moreover have "0 \<le> ?exact ! i" using exact(3) i cells(1) by simp
      ultimately have "q dvd s" "- q < s" by simp_all
      then obtain k where k: "s = q * k" "q * (-1) < q * k" by (auto elim: dvdE)
      then have "-1 < k" using True by (subst (asm) mult_less_cancel_left_pos) simp_all
      then show ?thesis using k(1) True by simp
    qed
    then show ?thesis using cells(1,3) exact by simp
  qed
  then show "List.length ?out = List.length items" "sum_list ?out \<le> available" "s \<in> set ?out \<Longrightarrow> 0 \<le> s \<and> (1 < q \<longrightarrow> q dvd s)" by blast+
qed

lemma runPositions_length [simp]: "List.length (runPositions pos sizes gaps) = List.length sizes"
  by (induction pos sizes gaps rule: runPositions.induct) auto

text \<open>A run of things in order: each within the run, none over the next.\<close>

definition inOrder :: "Unit \<Rightarrow> Unit \<Rightarrow> (Unit \<times> Unit) list \<Rightarrow> bool" where
  "inOrder lo hi xs \<longleftrightarrow> (\<forall>(x, s) \<in> set xs. lo \<le> x \<and> 0 \<le> s \<and> x + s \<le> hi)
     \<and> sorted_wrt (\<lambda>(x, s) (y, t). x + s \<le> y) xs"

lemma runPositions_inOrder:
  assumes "\<forall>s \<in> set sizes. 0 \<le> s" "\<forall>g \<in> set gaps. 0 \<le> g" "List.length gaps \<le> List.length sizes"
  shows "inOrder pos (pos + sum_list sizes + sum_list gaps) (zip (runPositions pos sizes gaps) sizes)"
  using assms
proof (induction pos sizes gaps rule: runPositions.induct)
  case (2 pos s sizes)
  then have IH: "inOrder (pos + s) (pos + s + sum_list sizes) (zip (runPositions (pos + s) sizes []) sizes)" by simp
  moreover have "0 \<le> sum_list sizes" using 2 by (intro sum_list_nonneg) auto
  ultimately show ?case using 2(2) by (fastforce simp: inOrder_def)
next
  case (3 pos s sizes g gaps)
  then have IH: "inOrder (pos + s + g) (pos + s + g + sum_list sizes + sum_list gaps) (zip (runPositions (pos + s + g) sizes gaps) sizes)" by simp
  moreover have "0 \<le> sum_list sizes" "0 \<le> sum_list gaps" using 3 by (auto intro: sum_list_nonneg)
  ultimately show ?case using 3(2,3) by (fastforce simp: inOrder_def)
qed (auto simp: inOrder_def)

lemma runPositions_cells:
  "\<forall>s \<in> set sizes. q dvd s \<Longrightarrow> \<forall>g \<in> set gaps. q dvd g \<Longrightarrow> q dvd pos \<Longrightarrow> \<forall>x \<in> set (runPositions pos sizes gaps). q dvd (x :: Unit)"
  by (induction pos sizes gaps rule: runPositions.induct) auto

lemma boundaries_split: "sum_list (boundaries cell spacing ws) = sum_list (boundaries cell 0 ws) + sum_list (boundaries 0 spacing ws)"
  by (induction cell spacing ws rule: boundaries.induct) auto

lemma boundaries_length: "List.length (boundaries cell spacing ws) = List.length ws - 1"
  by (induction cell spacing ws rule: boundaries.induct) auto

lemma boundaries_among: "g \<in> set (boundaries cell spacing ws) \<Longrightarrow> g = cell \<or> g = spacing"
  by (induction cell spacing ws rule: boundaries.induct) (auto split: if_splits)

subsection \<open>A row keeps its promise\<close>

definition wellSized :: "LayoutItem \<Rightarrow> bool" where
  "wellSized item \<longleftrightarrow> 0 \<le> sz_Width (itemSize (li_Trinket item)) \<and> 0 \<le> stretchFor (li_Trinket item) (li_Stretch item)"

lemma stretchOf_nonneg: "wellSized item \<Longrightarrow> 0 \<le> stretchOf p item"
  by (simp add: stretchOf_def wellSized_def Let_def)

lemma shrinkToFit_fits: "sum_list (map it_minimum items) \<le> available \<Longrightarrow> shrinkToFit items available = items"
  by (simp add: shrinkToFit_def Let_def)

lemma row_widths:
  fixes q :: Unit
  assumes "\<forall>item \<in> set items. wellSized item" "sum_list (map (\<lambda>item. sz_Width (itemSize (li_Trinket item))) items) + inl + blockSpacing (map li_Trinket items) sp \<le> width"
  defines "ws \<equiv> horizontalItemWidths items width sp inl q"
  shows "List.length ws = List.length items" "sum_list ws \<le> width - (inl + blockSpacing (map li_Trinket items) sp)"
    "s \<in> set ws \<Longrightarrow> 0 \<le> s \<and> (1 < q \<longrightarrow> q dvd s)"
proof -
  let ?its = "map (\<lambda>item. \<lparr>it_minimum = sz_Width (itemSize (li_Trinket item)), it_maximum = sz_Width (tk_max (li_Trinket item)),
             it_stretch = stretchOf (tk_policyH (li_Trinket item)) item, it_floor = sz_Width (tk_min (li_Trinket item))\<rparr>) items"
  let ?available = "width - (inl + blockSpacing (map li_Trinket items) sp)"
  have sound: "sound_items ?its" using assms(1) stretchOf_nonneg by (auto simp: sound_items_def wellSized_def)
  have fits: "sum_list (map it_minimum ?its) \<le> ?available" using assms(2) by (simp add: comp_def)
  have ws: "ws = calculateStretch ?available ?its q"
    using shrinkToFit_fits[OF fits] by (simp add: ws_def horizontalItemWidths_def Let_def)
  show "List.length ws = List.length items" "sum_list ws \<le> ?available" "s \<in> set ws \<Longrightarrow> 0 \<le> s \<and> (1 < q \<longrightarrow> q dvd s)"
    unfolding ws by (simp_all only: length_map calculateStretch_fits(1,2)[OF sound fits]) (rule calculateStretch_fits(3)[OF sound fits])
qed


text \<open>The slots of a row that is given what it asks for.\<close>

lemma rowSlots_spec:
  assumes "shown l \<noteq> []" "\<forall>item \<in> set (shown l). wellSized item" "0 \<le> bx_spacing l" "0 < UnitsPerCellWidth (ct_metrics c)"
    "sum_list (map (\<lambda>item. sz_Width (itemSize (li_Trinket item))) (shown l))
       + inlineSpacingForItems (map li_Trinket (shown l)) (ct_metrics c) + blockSpacing (map li_Trinket (shown l)) (rowSpacing l (ct_metrics c)) \<le> rc_Width rect"
    "ct_smooth c \<or> UnitsPerCellWidth (ct_metrics c) dvd rc_X rect"
  defines "slots \<equiv> rowSlots l rect c"
  shows "List.length slots = List.length (shown l)"
    "inOrder (rc_X rect) (rc_X rect + rc_Width rect) (map (\<lambda>r. (rc_X r, rc_Width r)) slots)"
    "\<not> ct_smooth c \<Longrightarrow> r \<in> set slots \<Longrightarrow> UnitsPerCellWidth (ct_metrics c) dvd rc_X r \<and> UnitsPerCellWidth (ct_metrics c) dvd rc_Width r"
proof -
  let ?ws = "map li_Trinket (shown l)" and ?cell = "UnitsPerCellWidth (ct_metrics c)" and ?sp = "rowSpacing l (ct_metrics c)"
  let ?inl = "inlineSpacingForItems ?ws (ct_metrics c)"
  let ?q = "cellQuantum c ?cell"
  let ?sizes = "horizontalItemWidths (shown l) (rc_Width rect) ?sp ?inl ?q"
  let ?start = "rc_X rect + (if isInlineTrinket (hd ?ws) then ?cell else 0)"
  let ?gaps = "boundaries ?cell ?sp ?ws"
  let ?xs = "runPositions ?start ?sizes ?gaps"
  have slots: "slots = map (\<lambda>(x, s). \<lparr>rc_X = x, rc_Y = rc_Y rect, rc_Width = s, rc_Height = rc_Height rect\<rparr>) (zip ?xs ?sizes)"
    by (simp add: slots_def rowSlots_def Let_def)
  note w = row_widths[where q = ?q, OF assms(2,5)]
  show len: "List.length slots = List.length (shown l)" by (simp add: slots w(1))
  have sp: "0 \<le> ?sp" using assms(3,4) by (simp add: rowSpacing_def UnitsToCell_def sdiv_pos pos_imp_zdiv_nonneg_iff)
  have gaps: "\<forall>g \<in> set ?gaps. 0 \<le> g" using boundaries_among sp assms(4) by (metis less_imp_le)
  have glen: "List.length ?gaps \<le> List.length ?sizes" using w(1) by (simp add: boundaries_length)
  have "inOrder ?start (?start + sum_list ?sizes + sum_list ?gaps) (zip ?xs ?sizes)"
    using runPositions_inOrder[of ?sizes ?gaps ?start] w(3) gaps glen by blast
  moreover have "?start + sum_list ?sizes + sum_list ?gaps \<le> rc_X rect + rc_Width rect"
  proof -
    have "?inl = (if isInlineTrinket (hd ?ws) then ?cell else 0) + sum_list (boundaries ?cell 0 ?ws) + (if isInlineTrinket (last ?ws) then ?cell else 0)"
      using assms(1) by (simp add: inlineSpacingForItems_def)
    moreover have "sum_list ?gaps = sum_list (boundaries ?cell 0 ?ws) + blockSpacing ?ws ?sp"
      using boundaries_split[of ?cell ?sp ?ws] by (simp add: blockSpacing_def)
    moreover have "0 \<le> (if isInlineTrinket (last ?ws) then ?cell else 0)" using assms(4) by simp
    ultimately show ?thesis using w(2) by linarith
  qed
  moreover have "rc_X rect \<le> ?start" using assms(4) by simp
  ultimately have "inOrder (rc_X rect) (rc_X rect + rc_Width rect) (zip ?xs ?sizes)" unfolding inOrder_def by fastforce
  moreover have "map (\<lambda>r. (rc_X r, rc_Width r)) slots = zip ?xs ?sizes" by (simp add: slots comp_def case_prod_beta')
  ultimately show "inOrder (rc_X rect) (rc_X rect + rc_Width rect) (map (\<lambda>r. (rc_X r, rc_Width r)) slots)" by simp
  show "?cell dvd rc_X r \<and> ?cell dvd rc_Width r" if sm: "\<not> ct_smooth c" and r: "r \<in> set slots"
  proof -
    have q: "?q = ?cell" using sm by (simp add: cellQuantum_def)
    have sizes: "\<forall>s \<in> set ?sizes. ?cell dvd s"
    proof
      fix s assume "s \<in> set ?sizes"
      then have "1 < ?cell \<longrightarrow> ?cell dvd s" using w(3) q by simp
      then show "?cell dvd s" using assms(4) by (cases "1 < ?cell") (auto simp: order_le_less dest: zless_imp_add1_zle)
    qed
    have gd: "\<forall>g \<in> set ?gaps. ?cell dvd g"
    proof
      fix g assume "g \<in> set ?gaps" then have "g = ?cell \<or> g = ?sp" by (rule boundaries_among)
      then show "?cell dvd g" by (auto simp: rowSpacing_def)
    qed
    have "?cell dvd ?start" using assms(6) sm by simp
    then have "\<forall>x \<in> set ?xs. ?cell dvd x" using runPositions_cells sizes gd by blast
    then show ?thesis using r sizes by (auto simp: slots dest: set_zip_leftD set_zip_rightD)
  qed
qed

text \<open>Placing an item across a row leaves what it has along it.\<close>

lemma alignItem_along:
  "bx_orientation l = Horizontal \<Longrightarrow> rc_X (alignItem l item r allow d) = rc_X r \<and> rc_Width (alignItem l item r allow d) = rc_Width r"
  by (simp add: alignItem_def alignRowContent_def Let_def split: VAlign.split)

lemma alignItem_down:
  "bx_orientation l = Vertical \<Longrightarrow> rc_Y (alignItem l item r allow d) = rc_Y r \<and> rc_Height (alignItem l item r allow d) = rc_Height r"
  by (simp add: alignItem_def alignColumnContent_def Let_def split: HSide.split)

lemma floor_cell: "0 < q \<Longrightarrow> q dvd v \<Longrightarrow> floorToQuantum v q = v"
  by (simp add: floorToQuantum_is)

lemma inOrder_nth:
  "inOrder lo hi xs \<longleftrightarrow> (\<forall>i < List.length xs. lo \<le> fst (xs ! i) \<and> 0 \<le> snd (xs ! i) \<and> fst (xs ! i) + snd (xs ! i) \<le> hi)
     \<and> (\<forall>j < List.length xs. \<forall>i < j. fst (xs ! i) + snd (xs ! i) \<le> fst (xs ! j))"
  by (auto simp: inOrder_def sorted_wrt_iff_nth_less case_prod_beta' all_set_conv_all_nth)

lemma inOrder_mirror:
  assumes "inOrder (rc_X room) (rc_X room + rc_Width room) (map (\<lambda>r. (rc_X r, rc_Width r)) rs)"
  shows "inOrder (rc_X room) (rc_X room + rc_Width room) (rev (map (\<lambda>r. (rc_X (mirrorX room r), rc_Width r)) rs))"
proof -
  have each: "\<forall>r \<in> set rs. rc_X room \<le> rc_X r \<and> 0 \<le> rc_Width r \<and> rc_X r + rc_Width r \<le> rc_X room + rc_Width room"
    and sorted: "sorted_wrt (\<lambda>r t. rc_X r + rc_Width r \<le> rc_X t) rs"
    using assms by (auto simp: inOrder_def sorted_wrt_map)
  have "sorted_wrt (\<lambda>t r. rc_X (mirrorX room r) + rc_Width r \<le> rc_X (mirrorX room t)) rs"
    by (rule sorted_wrt_mono_rel[OF _ sorted]) simp
  then show ?thesis using each by (auto simp: inOrder_def sorted_wrt_rev sorted_wrt_map)
qed



text \<open>A column forgets a child's maximum: a child whose \<open>max_height\<close> is less than it would like is asked for at
  its maximum and laid out at what it would like, past the end of a column handed exactly what it asked for.\<close>

theorem column_ignores_maximum:
  assumes "bx_orientation l = Vertical" "shown l = [item]" "w = li_Trinket item" "tk_heightForWidth w = None"
    "0 \<le> sz_Height (tk_max w)" "sz_Height (tk_max w) < sz_Height (tk_hint w)" "sz_Height (tk_min w) \<le> sz_Height (tk_max w)"
    "stretchOf (tk_policyV w) item = 0" "ct_smooth c"
  shows "\<exists>r. Layout l c bounds = [r] \<and> rc_Height r = sz_Height (tk_hint w)
    \<and> sz_Height (SizeHint l c) - mgVertical (bx_margins l) = sz_Height (tk_max w)"
proof -
  have sizes: "verticalItemHeights l [item] rect c = [sz_Height (tk_hint w)]" for rect
    using assms by (simp add: verticalItemHeights_def Let_def calculateStretch_def quantizeSizes_def columnMinimum_def itemHeightForWidth_def cellQuantum_def)
  have hint: "sz_Height (SizeHint l c) - mgVertical (bx_margins l) = sz_Height (tk_max w)"
    using assms by (simp add: SizeHint_def sizeAsked_def Let_def spacingTotal_def itemSize_is)
  have "\<exists>r. columnSlots l rect c = [r] \<and> rc_Height r = sz_Height (tk_hint w)" for rect
    using assms(2) by (simp add: columnSlots_def Let_def sizes)
  then obtain r where "columnSlots l (effectiveBounds (bx_margins l) bounds) c = [r]" "rc_Height r = sz_Height (tk_hint w)" by blast
  then show ?thesis using assms(1,2) hint alignItem_down[OF assms(1)] by (simp add: Layout_def Let_def placeChild_def)
qed

subsection \<open>Examples\<close>

definition plain :: trinket where
  "plain =
     \<lparr>tk_ID = 1, tk_visible = True, tk_hint = \<lparr>sz_Width = 40, sz_Height = 16\<rparr>, tk_min = \<lparr>sz_Width = 0, sz_Height = 0\<rparr>,
      tk_max = \<lparr>sz_Width = Unbounded, sz_Height = Unbounded\<rparr>, tk_policyH = SizePreferred, tk_policyV = SizePreferred,
      tk_stretch = None, tk_alignment = None, tk_placement = None, tk_saysInline = True, tk_isContainer = False,
      tk_heightForWidth = None, tk_insets = \<lparr>mg_Top = 0, mg_Right = 0, mg_Bottom = 0, mg_Left = 0\<rparr>,
      tk_textDirection = DirInherit, tk_metrics = \<lparr>UnitsPerCellWidth = 8, UnitsPerCellHeight = 16\<rparr>\<rparr>"

definition capped :: trinket where "capped = plain\<lparr>tk_ID := 2, tk_max := \<lparr>sz_Width = Unbounded, sz_Height = 8\<rparr>\<rparr>"

definition onCells :: "Direction \<Rightarrow> container" where
  "onCells d = \<lparr>ct_metrics = \<lparr>UnitsPerCellWidth = 8, UnitsPerCellHeight = 16\<rparr>, ct_direction = d, ct_smooth = False\<rparr>"

definition boxOf :: "Orientation \<Rightarrow> trinket list \<Rightarrow> BoxLayout" where
  "boxOf orient ws = fold AddTrinket ws
     \<lparr>bx_spacing = 8, bx_margins = \<lparr>mg_Top = 0, mg_Right = 0, mg_Bottom = 0, mg_Left = 0\<rparr>, bx_orientation = orient, bx_items = []\<rparr>"

definition roomOf :: UnitRect where "roomOf = \<lparr>rc_X = 0, rc_Y = 0, rc_Width = 104, rc_Height = 16\<rparr>"

lemma example_row: "map rc_X (Layout (boxOf Horizontal [plain, capped]) (onCells DirRTL) roomOf) = [56, 8]"
    "sz_Width (SizeHint (boxOf Horizontal [plain, capped]) (onCells DirRTL)) = 104"
  by code_simp+


definition offCells :: container where "offCells = (onCells DirLTR)\<lparr>ct_smooth := True\<rparr>"

theorem column_ignores_maximum_witness:
  "\<exists>r. Layout (boxOf Vertical [capped]) offCells roomOf = [r] \<and> rc_Height r = 16 \<and> sz_Height (SizeHint (boxOf Vertical [capped]) offCells) = 8"
proof -
  let ?l = "boxOf Vertical [capped]"
  have l: "shown ?l = [NewLayoutItem capped]" "bx_orientation ?l = Vertical" "mgVertical (bx_margins ?l) = 0"
    by (simp_all add: shown_def boxOf_def AddTrinket_def NewLayoutItem_def plain_def capped_def isShown_def mgVertical_def)
  show ?thesis
    using column_ignores_maximum[OF l(2,1), of capped offCells roomOf] l(3)
    by (simp add: NewLayoutItem_def capped_def plain_def stretchOf_def stretchFor_def offCells_def)
qed

end
