(* ===== verification/LayoutGrid.thy ===== *)
theory LayoutGrid
  imports LayoutBoxFacts
begin

text \<open>
  The grid (\<open>layout/grid.go\<close>, \<open>span.go\<close>, \<open>band.go\<close>): children placed by row and column, or by the names of bands,
  in tracks that hold the most of what is in them, what the grid asks for and where it puts each child. Indexing
  a track that is not there is a panic, written as \<open>None\<close>.
\<close>

record GridItem =
  gi_Trinket :: trinket
  gi_Row :: int
  gi_Column :: int
  gi_RowSpan :: int
  gi_ColumnSpan :: int
  gi_Align :: Alignment
  gi_RowID :: string
  gi_ColumnID :: string
  gi_autoRow :: int

record GridLayout =
  gr_spacing :: Unit
  gr_margins :: UnitMargins
  gr_items :: "GridItem list"
  gr_columns :: "Band list"
  gr_rows :: "Band list"

definition AddColumn :: "Band \<Rightarrow> GridLayout \<Rightarrow> GridLayout" where "AddColumn b l = l\<lparr>gr_columns := gr_columns l @ [b]\<rparr>"
definition AddRow :: "Band \<Rightarrow> GridLayout \<Rightarrow> GridLayout" where "AddRow b l = l\<lparr>gr_rows := gr_rows l @ [b]\<rparr>"

definition atLeastOne :: "int \<Rightarrow> int" where "atLeastOne s = (if s < 1 then 1 else s)"

definition AddTrinketAtWithSpan :: "trinket \<Rightarrow> int \<Rightarrow> int \<Rightarrow> int \<Rightarrow> int \<Rightarrow> GridLayout \<Rightarrow> GridLayout" where
  "AddTrinketAtWithSpan w row column rowSpan columnSpan l =
     l\<lparr>gr_items := gr_items l @
        [\<lparr>gi_Trinket = w, gi_Row = row, gi_Column = column, gi_RowSpan = atLeastOne rowSpan, gi_ColumnSpan = atLeastOne columnSpan,
          gi_Align = (case tk_alignment w of Some a \<Rightarrow> a | None \<Rightarrow> DefaultAlignment), gi_RowID = [], gi_ColumnID = [], gi_autoRow = row\<rparr>]\<rparr>"

definition AddTrinketAt :: "trinket \<Rightarrow> int \<Rightarrow> int \<Rightarrow> GridLayout \<Rightarrow> GridLayout" where
  "AddTrinketAt w row column = AddTrinketAtWithSpan w row column 1 1"

definition gridAdd :: "trinket \<Rightarrow> GridLayout \<Rightarrow> GridLayout" where
  "gridAdd w l =
     (let p = placementFor w \<lparr>gp_Row = int (List.length (gr_items l)), gp_Column = 0, gp_RowID = [], gp_ColumnID = [], gp_RowSpan = 1, gp_ColumnSpan = 1\<rparr>;
          l1 = AddTrinketAtWithSpan w (gp_Row p) (gp_Column p) (gp_RowSpan p) (gp_ColumnSpan p) l;
          item = last (gr_items l1)
      in l1\<lparr>gr_items := butlast (gr_items l1) @ [item\<lparr>gi_RowID := gp_RowID p, gi_ColumnID := gp_ColumnID p, gi_autoRow := gp_Row p\<rparr>]\<rparr>)"

fun removeGridItem :: "trinket \<Rightarrow> GridItem list \<Rightarrow> GridItem list" where
  "removeGridItem w [] = []"
| "removeGridItem w (item # items) = (if tk_ID (gi_Trinket item) = tk_ID w then items else item # removeGridItem w items)"

definition gridRemove :: "trinket \<Rightarrow> GridLayout \<Rightarrow> GridLayout" where
  "gridRemove w l = l\<lparr>gr_items := removeGridItem w (gr_items l)\<rparr>"

text \<open>Setting something of a band by its index grows the bands to it; a negative index panics.\<close>

definition onBand :: "(Band \<Rightarrow> Band) \<Rightarrow> int \<Rightarrow> Band list \<Rightarrow> Band list option" where
  "onBand f index bands =
     (if index < 0 then None else (let bs = growBands bands index in Some (bs[nat index := f (bs ! nat index)])))"

definition SetRowStretch :: "int \<Rightarrow> int \<Rightarrow> GridLayout \<Rightarrow> GridLayout option" where
  "SetRowStretch row s l = map_option (\<lambda>bs. l\<lparr>gr_rows := bs\<rparr>) (onBand (\<lambda>b. b\<lparr>bd_Stretch := s\<rparr>) row (gr_rows l))"
definition SetColumnStretch :: "int \<Rightarrow> int \<Rightarrow> GridLayout \<Rightarrow> GridLayout option" where
  "SetColumnStretch column s l = map_option (\<lambda>bs. l\<lparr>gr_columns := bs\<rparr>) (onBand (\<lambda>b. b\<lparr>bd_Stretch := s\<rparr>) column (gr_columns l))"
definition SetRowMinimumHeight :: "int \<Rightarrow> Unit \<Rightarrow> GridLayout \<Rightarrow> GridLayout option" where
  "SetRowMinimumHeight row h l = map_option (\<lambda>bs. l\<lparr>gr_rows := bs\<rparr>) (onBand (\<lambda>b. b\<lparr>bd_Minimum := h\<rparr>) row (gr_rows l))"
definition SetColumnMinimumWidth :: "int \<Rightarrow> Unit \<Rightarrow> GridLayout \<Rightarrow> GridLayout option" where
  "SetColumnMinimumWidth column w l = map_option (\<lambda>bs. l\<lparr>gr_columns := bs\<rparr>) (onBand (\<lambda>b. b\<lparr>bd_Minimum := w\<rparr>) column (gr_columns l))"
definition SetRowMaximumHeight :: "int \<Rightarrow> Unit \<Rightarrow> GridLayout \<Rightarrow> GridLayout option" where
  "SetRowMaximumHeight row h l = map_option (\<lambda>bs. l\<lparr>gr_rows := bs\<rparr>) (onBand (Capped h) row (gr_rows l))"
definition SetColumnMaximumWidth :: "int \<Rightarrow> Unit \<Rightarrow> GridLayout \<Rightarrow> GridLayout option" where
  "SetColumnMaximumWidth column w l = map_option (\<lambda>bs. l\<lparr>gr_columns := bs\<rparr>) (onBand (Capped w) column (gr_columns l))"

subsection \<open>Where children are\<close>

definition settleItem :: "Band list \<Rightarrow> Band list \<Rightarrow> GridItem \<Rightarrow> GridItem" where
  "settleItem columns rows item =
     (let p = placementFor (gi_Trinket item)
                \<lparr>gp_Row = gi_autoRow item, gp_Column = gi_Column item, gp_RowID = [], gp_ColumnID = [],
                 gp_RowSpan = gi_RowSpan item, gp_ColumnSpan = gi_ColumnSpan item\<rparr>;
          ci = bandIndex columns (gp_ColumnID p); ri = bandIndex rows (gp_RowID p)
      in item\<lparr>gi_Row := (if ri \<ge> 0 then ri else gp_Row p), gi_Column := (if ci \<ge> 0 then ci else gp_Column p),
              gi_RowSpan := atLeastOne (gp_RowSpan p), gi_ColumnSpan := atLeastOne (gp_ColumnSpan p),
              gi_RowID := gp_RowID p, gi_ColumnID := gp_ColumnID p\<rparr>)"

definition resolveBands :: "GridLayout \<Rightarrow> GridLayout" where
  "resolveBands l = l\<lparr>gr_items := map (settleItem (gr_columns l) (gr_rows l)) (gr_items l)\<rparr>"

definition gridShown :: "GridLayout \<Rightarrow> GridItem list" where
  "gridShown l = filter (\<lambda>item. isShown (gi_Trinket item)) (gr_items l)"

text \<open>The counts, of a grid whose bands have been resolved.\<close>

definition RowCount :: "GridLayout \<Rightarrow> int" where
  "RowCount l = fold (\<lambda>item m. if gi_Row item + gi_RowSpan item > m then gi_Row item + gi_RowSpan item else m) (gridShown l) 0"

definition ColumnCount :: "GridLayout \<Rightarrow> int" where
  "ColumnCount l = fold (\<lambda>item m. if gi_Column item + gi_ColumnSpan item > m then gi_Column item + gi_ColumnSpan item else m) (gridShown l) 0"

subsection \<open>Boundaries\<close>

definition columnsStoodIn :: "GridLayout \<Rightarrow> span list" where
  "columnsStoodIn l = map (\<lambda>item. \<lparr>sp_start = gi_Column item, sp_count = gi_ColumnSpan item, sp_size = 0\<rparr>) (gridShown l)"

definition rowsStoodIn :: "GridLayout \<Rightarrow> span list" where
  "rowsStoodIn l = map (\<lambda>item. \<lparr>sp_start = gi_Row item, sp_count = gi_RowSpan item, sp_size = 0\<rparr>) (gridShown l)"

text \<open>One entry for each track: what the boundary before it costs, given the last live track before it.\<close>

fun walkGaps :: "(nat \<Rightarrow> nat \<Rightarrow> Unit) \<Rightarrow> nat \<Rightarrow> nat option \<Rightarrow> bool list \<Rightarrow> Unit list" where
  "walkGaps cost t prior [] = []"
| "walkGaps cost t prior (live # ls) =
     (case prior of None \<Rightarrow> 0 | Some p \<Rightarrow> if live then cost p t else 0) # walkGaps cost (Suc t) (if live then Some t else prior) ls"

definition endsInline :: "GridLayout \<Rightarrow> nat \<Rightarrow> bool" where
  "endsInline l t \<longleftrightarrow> list_ex (\<lambda>item. isInlineTrinket (gi_Trinket item) \<and> gi_Column item + gi_ColumnSpan item - 1 = int t) (gridShown l)"

definition startsInline :: "GridLayout \<Rightarrow> nat \<Rightarrow> bool" where
  "startsInline l t \<longleftrightarrow> list_ex (\<lambda>item. isInlineTrinket (gi_Trinket item) \<and> gi_Column item = int t) (gridShown l)"

definition boundaryCost :: "GridLayout \<Rightarrow> CellMetrics \<Rightarrow> Unit \<Rightarrow> nat \<Rightarrow> nat \<Rightarrow> Unit" where
  "boundaryCost l metrics q prior t =
     (let left = endsInline l prior; right = startsInline l t in
      if left \<and> right then - UnitsPerCellWidth metrics else if left \<or> right then 0 else cellSpacing (gr_spacing l) q)"

definition columnGaps :: "GridLayout \<Rightarrow> nat \<Rightarrow> CellMetrics \<Rightarrow> Unit \<Rightarrow> Unit list" where
  "columnGaps l cols metrics q =
     (if cols < 2 then [] else tl (walkGaps (boundaryCost l metrics q) 0 None (liveTracks cols (gr_columns l) (columnsStoodIn l))))"

definition rowGaps :: "GridLayout \<Rightarrow> nat \<Rightarrow> Unit \<Rightarrow> Unit list" where
  "rowGaps l rows q =
     (if rows < 2 then [] else tl (walkGaps (\<lambda>p t. cellSpacing (gr_spacing l) q) 0 None (liveTracks rows (gr_rows l) (rowsStoodIn l))))"

subsection \<open>Tracks\<close>

definition columnSpans :: "GridLayout \<Rightarrow> (trinket \<Rightarrow> Unit) \<Rightarrow> span list" where
  "columnSpans l ext =
     map (\<lambda>item. \<lparr>sp_start = gi_Column item, sp_count = gi_ColumnSpan item, sp_size = ext (gi_Trinket item)\<rparr>)
       (filter (\<lambda>item. gi_ColumnSpan item > 1) (gridShown l))"

definition rowSpans :: "GridLayout \<Rightarrow> (trinket \<Rightarrow> Unit) \<Rightarrow> span list" where
  "rowSpans l ext =
     map (\<lambda>item. \<lparr>sp_start = gi_Row item, sp_count = gi_RowSpan item, sp_size = ext (gi_Trinket item)\<rparr>)
       (filter (\<lambda>item. gi_RowSpan item > 1) (gridShown l))"

definition columnFloors :: "GridLayout \<Rightarrow> nat \<Rightarrow> Unit list \<Rightarrow> (trinket \<Rightarrow> Unit) \<Rightarrow> Unit list" where
  "columnFloors l cols gaps ext =
     (let own = (\<lambda>t. fold (\<lambda>item m. if gi_Column item = int t \<and> gi_ColumnSpan item = 1 \<and> ext (gi_Trinket item) > m then ext (gi_Trinket item) else m)
                        (gridShown l) (bd_Minimum (bandAt (gr_columns l) (int t))))
      in raiseForSpans (map own [0..<cols]) (gr_columns l) gaps (columnSpans l ext))"

definition rowFloors :: "GridLayout \<Rightarrow> nat \<Rightarrow> Unit list \<Rightarrow> (trinket \<Rightarrow> Unit) \<Rightarrow> Unit list" where
  "rowFloors l rows gaps ext =
     (let own = (\<lambda>t. fold (\<lambda>item m. if gi_Row item = int t \<and> gi_RowSpan item = 1 \<and> ext (gi_Trinket item) > m then ext (gi_Trinket item) else m)
                        (gridShown l) (bd_Minimum (bandAt (gr_rows l) (int t))))
      in raiseForSpans (map own [0..<rows]) (gr_rows l) gaps (rowSpans l ext))"

definition trackItems :: "Band list \<Rightarrow> Unit list \<Rightarrow> stretchItem list" where
  "trackItems bands floors =
     map (\<lambda>(t, floor). let b = bandAt bands (int t) in
            \<lparr>it_minimum = floor, it_maximum = Ceiling b, it_stretch = bd_Stretch b, it_floor = 0\<rparr>) (zip [0..<List.length floors] floors)"

definition laidOutWidth :: "CellMetrics \<Rightarrow> trinket \<Rightarrow> Unit" where
  "laidOutWidth metrics w = sz_Width (itemSize w) + 2 * sideBearing w metrics"

definition calculateColumnWidths :: "GridLayout \<Rightarrow> Unit \<Rightarrow> nat \<Rightarrow> Unit list \<Rightarrow> CellMetrics \<Rightarrow> Unit \<Rightarrow> Unit list" where
  "calculateColumnWidths l available cols gaps metrics q =
     calculateStretch available (trackItems (gr_columns l) (columnFloors l cols gaps (laidOutWidth metrics))) q"

definition calculateRowHeights :: "GridLayout \<Rightarrow> Unit \<Rightarrow> nat \<Rightarrow> Unit list \<Rightarrow> Unit \<Rightarrow> Unit list" where
  "calculateRowHeights l available rows gaps q =
     calculateStretch (available - sumGaps gaps) (trackItems (gr_rows l) (rowFloors l rows gaps (\<lambda>w. sz_Height (itemSize w)))) q"

subsection \<open>The layout\<close>

definition gridAlignItem :: "GridItem \<Rightarrow> UnitRect \<Rightarrow> Direction \<Rightarrow> CellMetrics \<Rightarrow> UnitRect" where
  "gridAlignItem item cell layoutDir metrics =
     (let w = gi_Trinket item; bounds = insetForBearing w metrics cell; hint = itemSize w; mx = tk_max w;
          align = alignmentFor w (gi_Align item);
          width = (if al_FillH align then rc_Width bounds else sz_Width hint);
          width = (if sz_Width mx \<ge> 0 \<and> width > sz_Width mx then sz_Width mx else width);
          width = (if width < sz_Width (tk_min w) then sz_Width (tk_min w) else width);
          bounds = (if width < rc_Width bounds
            then (case ResolveHAlign (al_H align) (tk_textDirection w) layoutDir of
                    SideCenter \<Rightarrow> bounds\<lparr>rc_X := rc_X bounds + (rc_Width bounds - width) sdiv 2, rc_Width := width\<rparr>
                  | SideRight \<Rightarrow> bounds\<lparr>rc_X := rc_X bounds + (rc_Width bounds - width), rc_Width := width\<rparr>
                  | SideLeft \<Rightarrow> bounds\<lparr>rc_Width := width\<rparr>)
            else bounds);
          height = (if al_FillV align then rc_Height bounds else sz_Height hint);
          height = (if sz_Height mx \<ge> 0 \<and> height > sz_Height mx then sz_Height mx else height);
          height = (if height < sz_Height (tk_min w) then sz_Height (tk_min w) else height)
      in if height < rc_Height bounds
         then (case al_V align of
                 AlignMiddle \<Rightarrow> bounds\<lparr>rc_Y := rc_Y bounds + (rc_Height bounds - height) sdiv 2, rc_Height := height\<rparr>
               | AlignBottom \<Rightarrow> bounds\<lparr>rc_Y := rc_Y bounds + (rc_Height bounds - height), rc_Height := height\<rparr>
               | AlignTop \<Rightarrow> bounds\<lparr>rc_Height := height\<rparr>)
         else bounds)"

text \<open>The tracks of a grid in a room: where they start, how big they are, what is between them.\<close>

record tracks =
  tr_starts :: "Unit list"
  tr_sizes :: "Unit list"
  tr_gaps :: "Unit list"

definition columnTracks :: "GridLayout \<Rightarrow> container \<Rightarrow> UnitRect \<Rightarrow> tracks" where
  "columnTracks l c rect =
     (let metrics = ct_metrics c; q = cellQuantum c (UnitsPerCellWidth metrics); cols = nat (ColumnCount l);
          gaps = columnGaps l cols metrics q;
          widths = calculateColumnWidths l (rc_Width rect - sumGaps gaps) cols gaps metrics q
      in \<lparr>tr_starts = runPositions (rc_X rect) widths gaps, tr_sizes = widths, tr_gaps = gaps\<rparr>)"

definition rowTracks :: "GridLayout \<Rightarrow> container \<Rightarrow> UnitRect \<Rightarrow> tracks" where
  "rowTracks l c rect =
     (let q = cellQuantum c (UnitsPerCellHeight (ct_metrics c)); rows = nat (RowCount l);
          gaps = rowGaps l rows q; heights = calculateRowHeights l (rc_Height rect) rows gaps q
      in \<lparr>tr_starts = runPositions (rc_Y rect) heights gaps, tr_sizes = heights, tr_gaps = gaps\<rparr>)"

definition startOf :: "tracks \<Rightarrow> int \<Rightarrow> Unit option" where
  "startOf ts i = (if i < 0 \<or> i \<ge> int (List.length (tr_starts ts)) then None else Some (tr_starts ts ! nat i))"

definition extentOf :: "tracks \<Rightarrow> int \<Rightarrow> int \<Rightarrow> Unit" where
  "extentOf ts i n = covered (tr_sizes ts) (tr_gaps ts) \<lparr>sp_start = i, sp_count = n, sp_size = 0\<rparr>"

definition cellOf :: "tracks \<Rightarrow> tracks \<Rightarrow> GridItem \<Rightarrow> UnitRect option" where
  "cellOf cols rows item =
     (case startOf cols (gi_Column item) of
        None \<Rightarrow> None
      | Some x \<Rightarrow>
          (case startOf rows (gi_Row item) of
             None \<Rightarrow> None
           | Some y \<Rightarrow> Some \<lparr>rc_X = x, rc_Y = y, rc_Width = extentOf cols (gi_Column item) (gi_ColumnSpan item),
                              rc_Height = extentOf rows (gi_Row item) (gi_RowSpan item)\<rparr>))"

definition gridLayout :: "GridLayout \<Rightarrow> container \<Rightarrow> UnitRect \<Rightarrow> UnitRect list option" where
  "gridLayout l0 c bounds =
     (if gridShown l0 = [] then Some []
      else
        (let l = resolveBands l0; rect = effectiveBounds (gr_margins l) bounds in
         if RowCount l = 0 \<or> ColumnCount l = 0 then Some []
         else
           (let cols = columnTracks l c rect; rows = rowTracks l c rect in
            those (map (\<lambda>item. map_option (\<lambda>cell.
                     placeChild c (gridAlignItem item (if ct_direction c = DirRTL then mirrorX rect cell else cell) (ct_direction c) (ct_metrics c)) (ct_metrics c))
                   (cellOf cols rows item)) (gridShown l)))))"

subsection \<open>What it asks for\<close>

definition measure :: "GridLayout \<Rightarrow> container \<Rightarrow> (trinket \<Rightarrow> Unit) \<Rightarrow> (trinket \<Rightarrow> Unit) \<Rightarrow> UnitSize" where
  "measure l c width height =
     (let cols = nat (ColumnCount l); rows = nat (RowCount l); metrics = ct_metrics c;
          colQ = cellQuantum c (UnitsPerCellWidth metrics); rowQ = cellQuantum c (UnitsPerCellHeight metrics);
          colGaps = columnGaps l cols metrics colQ; rGaps = rowGaps l rows rowQ;
          w = sum_list (map (\<lambda>s. ceilToQuantum s colQ) (columnFloors l cols colGaps width));
          h = sum_list (map (\<lambda>s. ceilToQuantum s rowQ) (rowFloors l rows rGaps height))
      in \<lparr>sz_Width = w + (sumGaps colGaps + mgHorizontal (gr_margins l)), sz_Height = h + (sumGaps rGaps + mgVertical (gr_margins l))\<rparr>)"

definition gridAsks :: "GridLayout \<Rightarrow> container \<Rightarrow> (trinket \<Rightarrow> UnitSize) \<Rightarrow> UnitSize" where
  "gridAsks l0 c sizeOf =
     (let l = resolveBands l0; metrics = ct_metrics c in
      if RowCount l = 0 \<or> ColumnCount l = 0 then \<lparr>sz_Width = 0, sz_Height = 0\<rparr>
      else measure l c (\<lambda>w. sz_Width (sizeOf w) + 2 * sideBearing w metrics) (\<lambda>w. sz_Height (sizeOf w)))"

definition gridSizeHint :: "GridLayout \<Rightarrow> container \<Rightarrow> UnitSize" where "gridSizeHint l c = gridAsks l c tk_hint"
definition gridMinimumSize :: "GridLayout \<Rightarrow> container \<Rightarrow> UnitSize" where "gridMinimumSize l c = gridAsks l c tk_min"

end
