(* ===== verification/LayoutGridFacts.thy ===== *)
theory LayoutGridFacts
  imports LayoutGrid
begin

text \<open>
  What a grid comes to: its tracks and the boundaries between them fill no more than the room they are given,
  every child has a cell within it and children of different tracks have cells apart; and a grid that asks for
  less than it lays out.
\<close>

subsection \<open>Tracks in a room\<close>

lemma runPositions_nth: "k < List.length sizes \<Longrightarrow> runPositions pos sizes gaps ! k = pos + sum_list (take k sizes) + sum_list (take k gaps)"
proof (induction pos sizes gaps arbitrary: k rule: runPositions.induct)
  case (2 pos s sizes) then show ?case by (cases k) auto
next
  case (3 pos s sizes g gaps) then show ?case by (cases k) auto
qed simp

lemma sum_take_mono: "\<forall>x \<in> set xs. 0 \<le> x \<Longrightarrow> i \<le> j \<Longrightarrow> sum_list (take i xs) \<le> (sum_list (take j xs) :: int)"
proof -
  assume xs: "\<forall>x \<in> set xs. 0 \<le> x" and "i \<le> j"
  then obtain k where "j = i + k" using le_Suc_ex by blast
  then show ?thesis using xs by (auto simp: take_add intro!: sum_list_nonneg dest: in_set_takeD in_set_dropD)
qed

text \<open>Tracks that fit: none of them or of the boundaries negative, all of it within the room.\<close>

definition fitting :: "Unit \<Rightarrow> Unit \<Rightarrow> tracks \<Rightarrow> bool" where
  "fitting lo hi ts \<longleftrightarrow> tr_starts ts = runPositions lo (tr_sizes ts) (tr_gaps ts) \<and> (\<forall>s \<in> set (tr_sizes ts). 0 \<le> s) \<and> (\<forall>g \<in> set (tr_gaps ts). 0 \<le> g)
     \<and> List.length (tr_gaps ts) < List.length (tr_sizes ts) \<and> lo + sum_list (tr_sizes ts) + sum_list (tr_gaps ts) \<le> hi"

lemma fitting_cell:
  assumes "fitting lo hi ts" "0 \<le> i" "1 \<le> n" "i + n \<le> int (List.length (tr_sizes ts))"
  obtains x where "startOf ts i = Some x" "lo \<le> x" "x + extentOf ts i n \<le> hi" "0 \<le> extentOf ts i n"
    "\<And>j y. i + n \<le> j \<Longrightarrow> startOf ts j = Some y \<Longrightarrow> x + extentOf ts i n \<le> y"
proof -
  let ?i = "nat i" and ?n = "nat n" and ?S = "\<lambda>k. sum_list (take k (tr_sizes ts))" and ?G = "\<lambda>k. sum_list (take k (tr_gaps ts))"
  have ts: "tr_starts ts = runPositions lo (tr_sizes ts) (tr_gaps ts)" "\<forall>s \<in> set (tr_sizes ts). 0 \<le> s" "\<forall>g \<in> set (tr_gaps ts). 0 \<le> g"
    "lo + sum_list (tr_sizes ts) + sum_list (tr_gaps ts) \<le> hi" using assms(1) by (simp_all add: fitting_def)
  have start: "startOf ts j = (if j < 0 \<or> j \<ge> int (List.length (tr_sizes ts)) then None else Some (lo + ?S (nat j) + ?G (nat j)))" for j
    using ts(1) by (auto simp: startOf_def runPositions_nth)
  have i: "?i + (?n - 1) = ?i + ?n - 1" using assms(3) by simp
  have ext: "extentOf ts i n = ?S (?i + ?n) - ?S ?i + (?G (?i + ?n - 1) - ?G ?i)"
    using take_add[of ?i ?n "tr_sizes ts"] take_add[of ?i "?n - 1" "tr_gaps ts"] i by (simp add: extentOf_def covered_def)
  have mono: "?S a \<le> ?S b" "?G a \<le> ?G b" if "a \<le> b" for a b using sum_take_mono ts(2,3) that by blast+
  have full: "?S a \<le> sum_list (tr_sizes ts)" "?G a \<le> sum_list (tr_gaps ts)" for a
    using mono[of a "max a (max (List.length (tr_sizes ts)) (List.length (tr_gaps ts)))"] by simp_all
  show thesis
  proof (rule that[of "lo + ?S ?i + ?G ?i"])
    show "startOf ts i = Some (lo + ?S ?i + ?G ?i)" using start assms(2-4) by simp
    show "lo \<le> lo + ?S ?i + ?G ?i" using mono[of 0 ?i] by simp
    show "lo + ?S ?i + ?G ?i + extentOf ts i n \<le> hi" using ext full ts(4) by (smt (verit))
    show "0 \<le> extentOf ts i n"
    proof -
      have "?i \<le> ?i + ?n" "?i \<le> ?i + ?n - 1" using assms(3) by simp_all
      from mono(1)[OF this(1)] mono(2)[OF this(2)] show ?thesis using ext by linarith
    qed
    fix j y assume j: "i + n \<le> j" "startOf ts j = Some y"
    then have y: "y = lo + ?S (nat j) + ?G (nat j)" using start[of j] by (auto split: if_splits)
    have "?i + ?n \<le> nat j" "?i + ?n - 1 \<le> nat j" using j(1) assms(2,3) by linarith+
    from mono(1)[OF this(1)] mono(2)[OF this(2)] show "lo + ?S ?i + ?G ?i + extentOf ts i n \<le> y" using ext y by linarith
  qed
qed

lemma walkGaps_length [simp]: "List.length (walkGaps cost t prior ls) = List.length ls"
  by (induction cost t prior ls rule: walkGaps.induct) auto

lemma walkGaps_nonneg: "(\<And>p t. 0 \<le> cost p t) \<Longrightarrow> \<forall>g \<in> set (walkGaps cost t prior ls). 0 \<le> g"
  by (induction cost t prior ls rule: walkGaps.induct) (auto split: option.splits)

lemma gaps_length: "List.length (columnGaps l n metrics q) = n - 1" "List.length (rowGaps l n q) = n - 1"
  by (auto simp: columnGaps_def rowGaps_def liveTracks_def)

subsection \<open>Floors\<close>

lemma fold_raise: "(m :: int) \<le> fold (\<lambda>x m. if P x \<and> f x > m then f x else m) xs m"
  by (induction xs arbitrary: m) (auto intro: order_trans less_imp_le)

lemma fold_raise_cong:
  "\<forall>x \<in> set xs. f x = g x \<Longrightarrow> fold (\<lambda>x m. if P x \<and> f x > m then f x else m) xs m = fold (\<lambda>x m. if P x \<and> g x > m then g x else (m :: int)) xs m"
  by (induction xs arbitrary: m) auto

definition soundBands :: "Band list \<Rightarrow> bool" where
  "soundBands bands \<longleftrightarrow> (\<forall>b \<in> set bands. 0 \<le> bd_Stretch b \<and> 0 \<le> bd_Minimum b)"

lemma soundBands_at: "soundBands bands \<Longrightarrow> 0 \<le> bd_Stretch (bandAt bands i) \<and> 0 \<le> bd_Minimum (bandAt bands i)"
  by (auto simp: soundBands_def bandAt_def noBand_def)

lemma raise_nonneg:
  assumes "soundBands bands" "\<forall>s \<in> set sizes. 0 \<le> s" "s \<in> set (raiseForSpans sizes bands gaps spans)"
  shows "0 \<le> s"
proof -
  have "\<forall>b \<in> set bands. 0 \<le> bd_Stretch b" using assms(1) by (simp add: soundBands_def)
  then have le: "list_all2 (\<le>) sizes (raiseForSpans sizes bands gaps spans)"
    using raise_fold[of bands sizes gaps "sort_key sp_count spans"] by (simp add: raiseForSpans_def list_all2_refl)
  obtain k where "k < List.length (raiseForSpans sizes bands gaps spans)" "s = raiseForSpans sizes bands gaps spans ! k"
    using assms(3) by (auto simp: in_set_conv_nth)
  then have "sizes ! k \<le> s" "k < List.length sizes" using le list_all2_nthD2[OF le] list_all2_lengthD[OF le] by simp_all
  then show ?thesis using assms(2) nth_mem order_trans by blast
qed

lemma raiseForSpans_length: "soundBands bands \<Longrightarrow> List.length (raiseForSpans sizes bands gaps spans) = List.length sizes"
  using raise_fold[of bands sizes gaps "sort_key sp_count spans"] by (auto simp: raiseForSpans_def soundBands_def dest: list_all2_lengthD)

lemma columnFloors_spec:
  assumes "soundBands (gr_columns l)"
  shows "List.length (columnFloors l n gaps f) = n" "\<forall>s \<in> set (columnFloors l n gaps f). 0 \<le> s"
    "\<forall>item \<in> set (gridShown l). f (gi_Trinket item) = g (gi_Trinket item) \<Longrightarrow> columnFloors l n gaps f = columnFloors l n gaps g"
proof -
  let ?own = "\<lambda>t. fold (\<lambda>item m. if gi_Column item = int t \<and> gi_ColumnSpan item = 1 \<and> f (gi_Trinket item) > m then f (gi_Trinket item) else m)
                        (gridShown l) (bd_Minimum (bandAt (gr_columns l) (int t)))"
  have own: "0 \<le> ?own t" for t
    using order_trans[OF conjunct2[OF soundBands_at[OF assms]] fold_raise[of _ "\<lambda>item. gi_Column item = int t \<and> gi_ColumnSpan item = 1" "\<lambda>item. f (gi_Trinket item)" "gridShown l"]]
    by (simp only: conj_assoc)
  show "List.length (columnFloors l n gaps f) = n" by (simp add: columnFloors_def Let_def raiseForSpans_length[OF assms])
  have "\<forall>s \<in> set (map ?own [0..<n]). 0 \<le> s" using own by auto
  then show "\<forall>s \<in> set (columnFloors l n gaps f). 0 \<le> s"
    using raise_nonneg[OF assms] unfolding columnFloors_def Let_def by blast
  assume fg: "\<forall>item \<in> set (gridShown l). f (gi_Trinket item) = g (gi_Trinket item)"
  have "columnSpans l f = columnSpans l g" using fg by (auto simp: columnSpans_def)
  moreover have "?own t = fold (\<lambda>item m. if gi_Column item = int t \<and> gi_ColumnSpan item = 1 \<and> g (gi_Trinket item) > m then g (gi_Trinket item) else m)
                        (gridShown l) (bd_Minimum (bandAt (gr_columns l) (int t)))" for t
    using fold_raise_cong[of "gridShown l" "\<lambda>item. f (gi_Trinket item)" "\<lambda>item. g (gi_Trinket item)" "\<lambda>item. gi_Column item = int t \<and> gi_ColumnSpan item = 1"] fg
    by (simp only: conj_assoc)
  ultimately show "columnFloors l n gaps f = columnFloors l n gaps g" by (simp add: columnFloors_def Let_def)
qed

lemma rowFloors_spec:
  assumes "soundBands (gr_rows l)"
  shows "List.length (rowFloors l n gaps f) = n" "\<forall>s \<in> set (rowFloors l n gaps f). 0 \<le> s"
    "\<forall>item \<in> set (gridShown l). f (gi_Trinket item) = g (gi_Trinket item) \<Longrightarrow> rowFloors l n gaps f = rowFloors l n gaps g"
proof -
  let ?own = "\<lambda>t. fold (\<lambda>item m. if gi_Row item = int t \<and> gi_RowSpan item = 1 \<and> f (gi_Trinket item) > m then f (gi_Trinket item) else m)
                        (gridShown l) (bd_Minimum (bandAt (gr_rows l) (int t)))"
  have own: "0 \<le> ?own t" for t
    using order_trans[OF conjunct2[OF soundBands_at[OF assms]] fold_raise[of _ "\<lambda>item. gi_Row item = int t \<and> gi_RowSpan item = 1" "\<lambda>item. f (gi_Trinket item)" "gridShown l"]]
    by (simp only: conj_assoc)
  show "List.length (rowFloors l n gaps f) = n" by (simp add: rowFloors_def Let_def raiseForSpans_length[OF assms])
  have "\<forall>s \<in> set (map ?own [0..<n]). 0 \<le> s" using own by auto
  then show "\<forall>s \<in> set (rowFloors l n gaps f). 0 \<le> s"
    using raise_nonneg[OF assms] unfolding rowFloors_def Let_def by blast
  assume fg: "\<forall>item \<in> set (gridShown l). f (gi_Trinket item) = g (gi_Trinket item)"
  have "rowSpans l f = rowSpans l g" using fg by (auto simp: rowSpans_def)
  moreover have "?own t = fold (\<lambda>item m. if gi_Row item = int t \<and> gi_RowSpan item = 1 \<and> g (gi_Trinket item) > m then g (gi_Trinket item) else m)
                        (gridShown l) (bd_Minimum (bandAt (gr_rows l) (int t)))" for t
    using fold_raise_cong[of "gridShown l" "\<lambda>item. f (gi_Trinket item)" "\<lambda>item. g (gi_Trinket item)" "\<lambda>item. gi_Row item = int t \<and> gi_RowSpan item = 1"] fg
    by (simp only: conj_assoc)
  ultimately show "rowFloors l n gaps f = rowFloors l n gaps g" by (simp add: rowFloors_def Let_def)
qed

lemma trackItems_sound:
  assumes "soundBands bands" "\<forall>s \<in> set floors. 0 \<le> s"
  shows "sound_items (trackItems bands floors)" "map it_minimum (trackItems bands floors) = floors"
  using assms soundBands_at[OF assms(1)]
  by (auto simp: sound_items_def trackItems_def Let_def comp_def case_prod_beta' dest: set_zip_rightD)

lemma ceil_above: "s \<le> ceilToQuantum s q"
  using ceil_cell(1)[of q s] by (cases "1 < q") (auto simp: ceilToQuantum_def)

lemma sum_ceil_above: "sum_list xs \<le> sum_list (map (\<lambda>s. ceilToQuantum s q) xs)"
  by (induction xs) (auto intro: add_mono ceil_above)

subsection \<open>A grid keeps its promise\<close>

lemma columnTracks_fit:
  assumes "soundBands (gr_columns l)" "1 \<le> ColumnCount l" "q = cellQuantum c (UnitsPerCellWidth (ct_metrics c))"
    "gaps = columnGaps l (nat (ColumnCount l)) (ct_metrics c) q" "\<forall>g \<in> set gaps. 0 \<le> g"
    "sum_list (columnFloors l (nat (ColumnCount l)) gaps (laidOutWidth (ct_metrics c))) + sumGaps gaps \<le> rc_Width rect"
  shows "fitting (rc_X rect) (rc_X rect + rc_Width rect) (columnTracks l c rect)" "int (List.length (tr_sizes (columnTracks l c rect))) = ColumnCount l"
proof -
  let ?n = "nat (ColumnCount l)" and ?floors = "columnFloors l (nat (ColumnCount l)) gaps (laidOutWidth (ct_metrics c))"
  let ?items = "trackItems (gr_columns l) ?floors"
  note floors = columnFloors_spec(1,2)[OF assms(1), of ?n gaps "laidOutWidth (ct_metrics c)"]
  note sound = trackItems_sound[OF assms(1) floors(2)]
  have "sum_list (map it_minimum ?items) \<le> rc_Width rect - sumGaps gaps" using sound(2) assms(6) by simp
  note run = calculateStretch_fits[where q = q, OF sound(1) this]
  have n: "List.length ?items = ?n" using floors(1) by (simp add: trackItems_def)
  have ts: "columnTracks l c rect = \<lparr>tr_starts = runPositions (rc_X rect) (calculateStretch (rc_Width rect - sumGaps gaps) ?items q) gaps,
       tr_sizes = calculateStretch (rc_Width rect - sumGaps gaps) ?items q, tr_gaps = gaps\<rparr>"
    by (simp add: columnTracks_def calculateColumnWidths_def Let_def assms(3,4))
  show "fitting (rc_X rect) (rc_X rect + rc_Width rect) (columnTracks l c rect)"
    using run n assms(2,4,5) gaps_length by (auto simp: fitting_def ts sumGaps_def)
  show "int (List.length (tr_sizes (columnTracks l c rect))) = ColumnCount l" using run(1) n assms(2) by (simp add: ts)
qed

lemma rowTracks_fit:
  assumes "soundBands (gr_rows l)" "1 \<le> RowCount l" "q = cellQuantum c (UnitsPerCellHeight (ct_metrics c))"
    "gaps = rowGaps l (nat (RowCount l)) q" "\<forall>g \<in> set gaps. 0 \<le> g"
    "sum_list (rowFloors l (nat (RowCount l)) gaps (\<lambda>w. sz_Height (itemSize w))) + sumGaps gaps \<le> rc_Height rect"
  shows "fitting (rc_Y rect) (rc_Y rect + rc_Height rect) (rowTracks l c rect)" "int (List.length (tr_sizes (rowTracks l c rect))) = RowCount l"
proof -
  let ?n = "nat (RowCount l)" and ?floors = "rowFloors l (nat (RowCount l)) gaps (\<lambda>w. sz_Height (itemSize w))"
  let ?items = "trackItems (gr_rows l) ?floors"
  note floors = rowFloors_spec(1,2)[OF assms(1), of ?n gaps "\<lambda>w. sz_Height (itemSize w)"]
  note sound = trackItems_sound[OF assms(1) floors(2)]
  have "sum_list (map it_minimum ?items) \<le> rc_Height rect - sumGaps gaps" using sound(2) assms(6) by simp
  note run = calculateStretch_fits[where q = q, OF sound(1) this]
  have n: "List.length ?items = ?n" using floors(1) by (simp add: trackItems_def)
  have ts: "rowTracks l c rect = \<lparr>tr_starts = runPositions (rc_Y rect) (calculateStretch (rc_Height rect - sumGaps gaps) ?items q) gaps,
       tr_sizes = calculateStretch (rc_Height rect - sumGaps gaps) ?items q, tr_gaps = gaps\<rparr>"
    by (simp add: rowTracks_def calculateRowHeights_def Let_def assms(3,4))
  show "fitting (rc_Y rect) (rc_Y rect + rc_Height rect) (rowTracks l c rect)"
    using run n assms(2,4,5) gaps_length by (auto simp: fitting_def ts sumGaps_def)
  show "int (List.length (tr_sizes (rowTracks l c rect))) = RowCount l" using run(1) n assms(2) by (simp add: ts)
qed

lemma fold_raise_each: "x \<in> set xs \<Longrightarrow> (f x :: int) \<le> fold (\<lambda>x m. if f x > m then f x else m) xs m"
proof (induction xs arbitrary: m)
  case (Cons a xs)
  show ?case using Cons fold_raise[of "if f a > m then f a else m" "\<lambda>_. True" f xs] by (cases "x = a") (auto intro: order_trans split: if_splits)
qed simp

lemma counts_cover: "item \<in> set (gridShown l) \<Longrightarrow> gi_Column item + gi_ColumnSpan item \<le> ColumnCount l \<and> gi_Row item + gi_RowSpan item \<le> RowCount l"
  using fold_raise_each[of item "gridShown l" "\<lambda>item. gi_Column item + gi_ColumnSpan item" 0]
    fold_raise_each[of item "gridShown l" "\<lambda>item. gi_Row item + gi_RowSpan item" 0]
  by (simp add: ColumnCount_def RowCount_def)

lemma resolved_spans: "item \<in> set (gridShown (resolveBands l)) \<Longrightarrow> 1 \<le> gi_ColumnSpan item \<and> 1 \<le> gi_RowSpan item"
  by (auto simp: gridShown_def resolveBands_def settleItem_def atLeastOne_def Let_def)

lemma resolved_shown: "gridShown (resolveBands l) = map (settleItem (gr_columns l) (gr_rows l)) (gridShown l)"
  by (simp add: gridShown_def resolveBands_def filter_map comp_def settleItem_def Let_def)

lemma rowGaps_nonneg: "0 \<le> gr_spacing l \<Longrightarrow> \<forall>g \<in> set (rowGaps l n q). 0 \<le> g"
proof -
  assume "0 \<le> gr_spacing l"
  then have "0 \<le> cellSpacing (gr_spacing l) q" by (simp add: cellSpacing_def sdiv_pos pos_imp_zdiv_nonneg_iff)
  then have w: "\<forall>g \<in> set (walkGaps (\<lambda>p t. cellSpacing (gr_spacing l) q) 0 None ls). 0 \<le> g" for ls by (intro walkGaps_nonneg)
  have "set (tl xs) \<subseteq> set xs" for xs :: "Unit list" by (cases xs) auto
  then show ?thesis using w by (auto simp: rowGaps_def)
qed

lemma those_total: "\<forall>x \<in> set xs. f x \<noteq> None \<Longrightarrow> those (map f xs) \<noteq> None"
  by (induction xs) auto

definition within :: "UnitRect \<Rightarrow> UnitRect \<Rightarrow> bool" where
  "within room r \<longleftrightarrow> rc_X room \<le> rc_X r \<and> rc_Y room \<le> rc_Y r \<and> 0 \<le> rc_Width r \<and> 0 \<le> rc_Height r
     \<and> rc_X r + rc_Width r \<le> rc_X room + rc_Width room \<and> rc_Y r + rc_Height r \<le> rc_Y room + rc_Height room"

text \<open>A grid whose floors fit the room, written over the floors it lays out with.\<close>

lemma cells_apart:
  assumes "fitting (rc_X room) (rc_X room + rc_Width room) cols" "fitting (rc_Y room) (rc_Y room + rc_Height room) rows"
    "0 \<le> gi_Column a" "1 \<le> gi_ColumnSpan a" "gi_Column a + gi_ColumnSpan a \<le> int (List.length (tr_sizes cols))"
    "0 \<le> gi_Row a" "1 \<le> gi_RowSpan a" "gi_Row a + gi_RowSpan a \<le> int (List.length (tr_sizes rows))"
  shows "\<exists>r. cellOf cols rows a = Some r \<and> within room r
    \<and> (\<forall>b s. cellOf cols rows b = Some s \<longrightarrow> (gi_Column a + gi_ColumnSpan a \<le> gi_Column b \<longrightarrow> rc_X r + rc_Width r \<le> rc_X s)
          \<and> (gi_Row a + gi_RowSpan a \<le> gi_Row b \<longrightarrow> rc_Y r + rc_Height r \<le> rc_Y s))"
proof -
  obtain x where x: "startOf cols (gi_Column a) = Some x" "rc_X room \<le> x" "x + extentOf cols (gi_Column a) (gi_ColumnSpan a) \<le> rc_X room + rc_Width room"
    "0 \<le> extentOf cols (gi_Column a) (gi_ColumnSpan a)"
    "\<And>j y. gi_Column a + gi_ColumnSpan a \<le> j \<Longrightarrow> startOf cols j = Some y \<Longrightarrow> x + extentOf cols (gi_Column a) (gi_ColumnSpan a) \<le> y"
    using fitting_cell[OF assms(1,3,4,5)] by blast
  obtain y where y: "startOf rows (gi_Row a) = Some y" "rc_Y room \<le> y" "y + extentOf rows (gi_Row a) (gi_RowSpan a) \<le> rc_Y room + rc_Height room"
    "0 \<le> extentOf rows (gi_Row a) (gi_RowSpan a)"
    "\<And>j z. gi_Row a + gi_RowSpan a \<le> j \<Longrightarrow> startOf rows j = Some z \<Longrightarrow> y + extentOf rows (gi_Row a) (gi_RowSpan a) \<le> z"
    using fitting_cell[OF assms(2,6,7,8)] by blast
  have apart: "(gi_Column a + gi_ColumnSpan a \<le> gi_Column b \<longrightarrow> x + extentOf cols (gi_Column a) (gi_ColumnSpan a) \<le> rc_X s)
      \<and> (gi_Row a + gi_RowSpan a \<le> gi_Row b \<longrightarrow> y + extentOf rows (gi_Row a) (gi_RowSpan a) \<le> rc_Y s)" if "cellOf cols rows b = Some s" for b s
    using that x(5)[of "gi_Column b"] y(5)[of "gi_Row b"] by (auto simp: cellOf_def split: option.splits)
  have cell: "cellOf cols rows a = Some \<lparr>rc_X = x, rc_Y = y, rc_Width = extentOf cols (gi_Column a) (gi_ColumnSpan a),
      rc_Height = extentOf rows (gi_Row a) (gi_RowSpan a)\<rparr>" (is "_ = Some ?r") using x(1) y(1) by (simp add: cellOf_def)
  have "within room ?r" using x(2-4) y(2-4) by (simp add: within_def)
  then show ?thesis using cell apart by (intro exI[of _ ?r]) simp
qed


text \<open>A grid asks for too little: a child alone in a grid whose \<open>min_width\<close> is more than it would like is laid out at
  its minimum but asked for at what it would like, so a grid handed exactly the width it asked for runs past the end of it.\<close>

theorem grid_asks_for_too_little:
  assumes "l = resolveBands l0" "gridShown l = [a]" "w = gi_Trinket a" "gi_Column a = 0" "gi_ColumnSpan a = 1" "0 \<le> gi_Row a"
    "gr_columns l0 = []" "ct_smooth c" "0 \<le> sz_Width (tk_hint w)" "sz_Width (tk_hint w) < sz_Width (tk_min w)" "\<not> isInlineTrinket w"
    "rc_Width bounds = sz_Width (gridSizeHint l0 c)"
  shows "let room = effectiveBounds (gr_margins l0) bounds; cols = columnTracks l c room in
    tr_sizes cols = [sz_Width (tk_min w)] \<and> rc_Width room = sz_Width (tk_hint w)
      \<and> (\<forall>r. cellOf cols (rowTracks l c room) a = Some r \<longrightarrow> \<not> within room r)"
proof -
  let ?room = "effectiveBounds (gr_margins l0) bounds" and ?cols = "columnTracks l c (effectiveBounds (gr_margins l0) bounds)"
  have l: "gr_columns l = []" "gr_margins l = gr_margins l0" using assms(1,7) by (simp_all add: resolveBands_def)
  have spans: "1 \<le> gi_RowSpan a" using resolved_spans[of a l0] assms(1,2) by simp
  have counts: "ColumnCount l = 1" "RowCount l \<noteq> 0" using assms(2,4-6) spans by (simp_all add: ColumnCount_def RowCount_def)
  have gaps: "columnGaps l (Suc 0) m q = []" for m q by (simp add: columnGaps_def)
  have floors: "columnFloors l (Suc 0) [] f = [max 0 (f w)]" for f
    using assms(2-5) l(1) by (simp add: columnFloors_def Let_def columnSpans_def raiseForSpans_def bandAt_def noBand_def)
  have bearing: "sideBearing w m = 0" for m using assms(11) by (simp add: sideBearing_def)
  have smooth: "cellQuantum c n = 0" for n using assms(8) by (simp add: cellQuantum_def)
  have mn: "sz_Width (itemSize w) = sz_Width (tk_min w)" using assms(9,10) by (auto simp: itemSize_is)
  have asked: "rc_Width ?room = sz_Width (tk_hint w)"
    using assms(9,12) counts l(2)
    by (simp add: gridSizeHint_def gridAsks_def Let_def measure_def gaps floors bearing smooth ceilToQuantum_def sumGaps_def effectiveBounds_def flip: assms(1))
  have sizes: "tr_sizes ?cols = [sz_Width (tk_min w)]"
    using assms(9,10) counts l(1) by (simp add: columnTracks_def calculateColumnWidths_def Let_def gaps floors bearing smooth laidOutWidth_def mn trackItems_def
        calculateStretch_def bandAt_def noBand_def quantizeSizes_def)
  have "extentOf ?cols 0 1 = sz_Width (tk_min w)" using sizes by (simp add: extentOf_def covered_def columnTracks_def Let_def counts gaps)
  then have "\<not> within ?room r" if "cellOf ?cols (rowTracks l c ?room) a = Some r" for r
    using that asked assms(4,5,10) by (auto simp: cellOf_def within_def split: option.splits)
  then show ?thesis using sizes asked by (simp add: Let_def)
qed

subsection \<open>Examples\<close>

definition blank :: GridLayout where
  "blank = \<lparr>gr_spacing = 8, gr_margins = \<lparr>mg_Top = 0, mg_Right = 0, mg_Bottom = 0, mg_Left = 0\<rparr>, gr_items = [], gr_columns = [], gr_rows = []\<rparr>"

definition solid :: trinket where
  "solid = plain\<lparr>tk_saysInline := False, tk_isContainer := True, tk_max := \<lparr>sz_Width = Unbounded, sz_Height = Unbounded\<rparr>\<rparr>"

definition broad :: trinket where "broad = solid\<lparr>tk_ID := 3, tk_hint := \<lparr>sz_Width = 120, sz_Height = 16\<rparr>\<rparr>"
definition insistent :: trinket where "insistent = solid\<lparr>tk_min := \<lparr>sz_Width = 64, sz_Height = 0\<rparr>\<rparr>"

definition sheet :: GridLayout where
  "sheet = AddTrinketAtWithSpan broad 0 0 1 2 (AddTrinketAt solid 1 1 (AddTrinketAt solid 1 0 blank))"

lemma example_sheet: "gridSizeHint sheet (onCells DirLTR) = \<lparr>sz_Width = 120, sz_Height = 32\<rparr>"
  by code_simp

lemma sheet_parts: "gr_spacing sheet = 8" "gr_margins sheet = \<lparr>mg_Top = 0, mg_Right = 0, mg_Bottom = 0, mg_Left = 0\<rparr>" "gr_columns sheet = []" "gr_rows sheet = []"
  by code_simp+

lemma sheet_gaps: "columnGaps (resolveBands sheet) (nat (ColumnCount (resolveBands sheet))) (ct_metrics (onCells DirLTR))
    (cellQuantum (onCells DirLTR) (UnitsPerCellWidth (ct_metrics (onCells DirLTR)))) = [8]"
  by code_simp

lemma sheet_children: "map (\<lambda>item. (gi_Column item, gi_Row item, itemSize (gi_Trinket item) = tk_hint (gi_Trinket item))) (gridShown (resolveBands sheet))
    = [(0, 1, True), (1, 1, True), (0, 0, True)]"
  by code_simp


definition lonely :: GridLayout where "lonely = AddTrinketAt insistent 0 0 blank"

theorem grid_asks_for_too_little_witness:
  "tr_sizes (columnTracks (resolveBands lonely) offCells \<lparr>rc_X = 0, rc_Y = 0, rc_Width = 40, rc_Height = 16\<rparr>) = [64]"
proof -
  have "List.length (gridShown (resolveBands lonely)) = 1" by code_simp
  then have shown: "gridShown (resolveBands lonely) = [hd (gridShown (resolveBands lonely))]" by (cases "gridShown (resolveBands lonely)") simp_all
  have w: "gi_Trinket (hd (gridShown (resolveBands lonely))) = insistent"
    by (simp add: gridShown_def resolveBands_def lonely_def AddTrinketAt_def AddTrinketAtWithSpan_def blank_def settleItem_def Let_def isShown_def
        insistent_def solid_def plain_def)
  have a: "gi_Column (hd (gridShown (resolveBands lonely))) = 0"
    "gi_ColumnSpan (hd (gridShown (resolveBands lonely))) = 1" "gi_Row (hd (gridShown (resolveBands lonely))) = 0" by code_simp+
  have l: "gr_columns lonely = []" "gr_margins lonely = \<lparr>mg_Top = 0, mg_Right = 0, mg_Bottom = 0, mg_Left = 0\<rparr>" "ct_smooth offCells"
    "sz_Width (gridSizeHint lonely offCells) = 40" "sz_Width (tk_hint insistent) = 40" "sz_Width (tk_min insistent) = 64" "\<not> isInlineTrinket insistent"
    by code_simp+
  show ?thesis
    using grid_asks_for_too_little[OF refl shown refl, of offCells "\<lparr>rc_X = 0, rc_Y = 0, rc_Width = 40, rc_Height = 16\<rparr>"] a l
    by (simp add: Let_def effectiveBounds_def mgHorizontal_def mgVertical_def w)
qed

end
