(* ===== verification/Spine.thy ===== *)
theory Spine
  imports Prelude
begin

text \<open>
  What a view knows about where its rows are (\<open>objects/trinkets/spine.go\<close>): a few runs of rows it was told about, each
  anchored by its first position, and how long the sequence is. How counts are made and an identity's key belong to
  the module \<open>serval\<close> and are parameters.
\<close>

subsection \<open>What is held\<close>

record 'v namedRow =
  nm_id :: "'v option"
  nm_deep :: int

record 'v run =
  rn_at :: int
  rn_rows :: "'v namedRow list"

text \<open>A count that may be a floor (\<open>serval.RecordCount\<close>), and what is taken from the module to make and read one.\<close>

record RecordCount =
  rc_N :: int
  rc_Exact :: bool

record counting =
  cg_Nothing :: "RecordCount \<Rightarrow> bool"
  cg_Unknown :: RecordCount
  cg_AtLeast :: "int \<Rightarrow> RecordCount"

record 'v spine =
  bo_runs :: "'v run list"
  bo_total :: RecordCount
  bo_anchor :: int

definition spineKept :: nat where "spineKept = 512"

definition runEnd :: "'v run \<Rightarrow> int" where "runEnd r = rn_at r + int (List.length (rn_rows r))"

definition spineRows :: "'v spine \<Rightarrow> int" where
  "spineRows s = fold (\<lambda>r n. if runEnd r > n then runEnd r else n) (bo_runs s) (rc_N (bo_total s))"

definition learn :: "counting \<Rightarrow> RecordCount \<Rightarrow> 'v spine \<Rightarrow> 'v spine" where
  "learn cg c s =
     (if cg_Nothing cg c then s else if \<not> rc_Exact (bo_total s) \<or> rc_Exact c then s\<lparr>bo_total := c\<rparr> else s)"

subsection \<open>Placing\<close>

text \<open>\<open>copy\<close> of a slice into another from an index on.\<close>

definition copyAt :: "nat \<Rightarrow> 'a list \<Rightarrow> 'a list \<Rightarrow> 'a list" where
  "copyAt k src dst = take k dst @ take (List.length dst - k) src @ drop (k + List.length src) dst"

definition joinRuns :: "'v run \<Rightarrow> 'v run \<Rightarrow> 'v run" where
  "joinRuns held fresh =
     (let at = (if rn_at fresh < rn_at held then rn_at fresh else rn_at held);
          end = (if runEnd fresh > runEnd held then runEnd fresh else runEnd held);
          blank = replicate (nat (end - at)) \<lparr>nm_id = None, nm_deep = 0\<rparr>
      in \<lparr>rn_at = at, rn_rows = copyAt (nat (rn_at fresh - at)) (rn_rows fresh) (copyAt (nat (rn_at held - at)) (rn_rows held) blank)\<rparr>)"

fun putInOrder :: "'v run list \<Rightarrow> 'v run \<Rightarrow> 'v run list" where
  "putInOrder [] r = [r]"
| "putInOrder (held # runs) r = (if rn_at held > rn_at r then r # held # runs else held # putInOrder runs r)"

text \<open>Each run already held is apart from the fresh one, and kept, or becomes part of it.\<close>

fun gather :: "'v run list \<Rightarrow> 'v run \<Rightarrow> 'v run list \<times> 'v run" where
  "gather [] fresh = ([], fresh)"
| "gather (r # rs) fresh =
     (if runEnd r < rn_at fresh \<or> rn_at r > runEnd fresh
      then (case gather rs fresh of (kept, fresh') \<Rightarrow> (r # kept, fresh'))
      else gather rs (joinRuns r fresh))"

definition cutRun :: "'v run \<Rightarrow> int \<Rightarrow> int \<Rightarrow> 'v run" where
  "cutRun r from' to =
     (if List.length (rn_rows r) \<le> spineKept then r
      else
        (let beg = (from' + to) div 2 - int spineKept div 2;
             beg = (if beg < rn_at r then rn_at r else beg);
             beg = (if beg + int spineKept > runEnd r then runEnd r - int spineKept else beg);
             beg = (if beg < rn_at r then rn_at r else beg)
         in \<lparr>rn_at = beg, rn_rows = take spineKept (drop (nat (beg - rn_at r)) (rn_rows r))\<rparr>))"

definition distance :: "'v run \<Rightarrow> int \<Rightarrow> int" where
  "distance r at = (if at < rn_at r then rn_at r - at else if at \<ge> runEnd r then at - runEnd r + 1 else 0)"

definition heldIn :: "'v run list \<Rightarrow> nat" where "heldIn runs = sum_list (map (List.length \<circ> rn_rows) runs)"

definition spineHeld :: "'v spine \<Rightarrow> nat" where "spineHeld s = heldIn (bo_runs s)"

text \<open>Which run is furthest from the reader, the one being read apart: its index, and how far it is.\<close>

fun furthest :: "int \<Rightarrow> nat \<Rightarrow> 'v run list \<Rightarrow> nat option \<times> int \<Rightarrow> nat option" where
  "furthest anchor i [] best = fst best"
| "furthest anchor i (r # rs) best =
     furthest anchor (Suc i) rs
       (if anchor \<ge> rn_at r \<and> anchor < runEnd r then best
        else if distance r anchor > snd best then (Some i, distance r anchor) else best)"

lemma furthest_index: "furthest anchor i rs best = Some k \<Longrightarrow> fst best = Some k \<or> i \<le> k \<and> k < i + List.length rs"
  by (induction anchor i rs best rule: furthest.induct) (fastforce split: if_splits)+

function dropFar :: "int \<Rightarrow> 'v run list \<Rightarrow> 'v run list" where
  "dropFar anchor runs =
     (if heldIn runs > spineKept \<and> List.length runs > 1
      then (case furthest anchor 0 runs (None, -1) of
              None \<Rightarrow> runs
            | Some w \<Rightarrow> dropFar anchor (take w runs @ drop (Suc w) runs))
      else runs)"
  by pat_completeness auto
termination
  by (relation "measure (\<lambda>(anchor, runs). List.length runs)") (auto dest: furthest_index)

declare dropFar.simps [simp del]

definition trim :: "int \<Rightarrow> int \<Rightarrow> 'v spine \<Rightarrow> 'v spine" where
  "trim from' to s =
     s\<lparr>bo_runs := dropFar (bo_anchor s) (map (\<lambda>r. if List.length (rn_rows r) > spineKept then cutRun r from' to else r) (bo_runs s))\<rparr>"

definition place :: "int \<Rightarrow> 'v namedRow list \<Rightarrow> 'v spine \<Rightarrow> 'v spine" where
  "place at rs s =
     (if at < 0 \<or> rs = [] then s
      else (case gather (bo_runs s) \<lparr>rn_at = at, rn_rows = rs\<rparr> of (kept, fresh) \<Rightarrow>
              trim at (at + int (List.length rs)) (s\<lparr>bo_runs := putInOrder kept fresh, bo_anchor := at\<rparr>)))"

subsection \<open>Asking\<close>

definition rowIn :: "int \<Rightarrow> 'v run \<Rightarrow> 'v namedRow option" where
  "rowIn p r = (if rn_at r \<le> p \<and> p < runEnd r then Some (rn_rows r ! nat (p - rn_at r)) else None)"

fun rowAmong :: "int \<Rightarrow> 'v run list \<Rightarrow> 'v namedRow option" where
  "rowAmong p [] = None"
| "rowAmong p (r # rs) = (case rowIn p r of Some x \<Rightarrow> Some x | None \<Rightarrow> rowAmong p rs)"

definition rowOf :: "'v spine \<Rightarrow> int \<Rightarrow> 'v namedRow option" where "rowOf s p = rowAmong p (bo_runs s)"

text \<open>The outer option is the second result of the code: whether a row is named there at all.\<close>

definition idAt :: "'v spine \<Rightarrow> int \<Rightarrow> 'v option option" where "idAt s p = map_option nm_id (rowOf s p)"
definition deepAt :: "'v spine \<Rightarrow> int \<Rightarrow> int option" where "deepAt s p = map_option nm_deep (rowOf s p)"

definition lastBefore :: "int \<Rightarrow> 'v spine \<Rightarrow> (int \<times> 'v option) option" where
  "lastBefore at s =
     (let pick = (\<lambda>r best.
            if rn_at r \<ge> at then best
            else (let end = (if runEnd r > at then at else runEnd r) in
                  if end - 1 > fst best then (end - 1, nm_id (rn_rows r ! nat (end - 1 - rn_at r))) else best));
          best = fold pick (bo_runs s) (-1, None)
      in if fst best < 0 then None else Some best)"

fun indexOfKey :: "('v \<Rightarrow> string) \<Rightarrow> string \<Rightarrow> int \<Rightarrow> 'v namedRow list \<Rightarrow> int option" where
  "indexOfKey key want i [] = None"
| "indexOfKey key want i (x # xs) =
     (case nm_id x of
        Some v \<Rightarrow> if key v = want then Some i else indexOfKey key want (i + 1) xs
      | None \<Rightarrow> indexOfKey key want (i + 1) xs)"

fun posAmong :: "('v \<Rightarrow> string) \<Rightarrow> string \<Rightarrow> 'v run list \<Rightarrow> int option" where
  "posAmong key want [] = None"
| "posAmong key want (r # rs) = (case indexOfKey key want (rn_at r) (rn_rows r) of Some p \<Rightarrow> Some p | None \<Rightarrow> posAmong key want rs)"

definition posOf :: "('v \<Rightarrow> string) \<Rightarrow> 'v option \<Rightarrow> 'v spine \<Rightarrow> int option" where
  "posOf key v s = (case v of None \<Rightarrow> None | Some v \<Rightarrow> posAmong key (key v) (bo_runs s))"

subsection \<open>The sequence moving\<close>

definition forgetRuns :: "'v spine \<Rightarrow> 'v spine" where "forgetRuns s = s\<lparr>bo_runs := [], bo_anchor := 0\<rparr>"

fun keepAbove :: "int \<Rightarrow> 'v run list \<Rightarrow> 'v run list" where
  "keepAbove at [] = []"
| "keepAbove at (r # rs) =
     (if rn_at r \<ge> at then keepAbove at rs
      else if runEnd r \<le> at then r # keepAbove at rs
      else \<lparr>rn_at = rn_at r, rn_rows = take (nat (at - rn_at r)) (rn_rows r)\<rparr> # keepAbove at rs)"

definition forgetFrom :: "counting \<Rightarrow> int \<Rightarrow> 'v spine \<Rightarrow> 'v spine" where
  "forgetFrom cg at s =
     (if at \<le> 0 then (forgetRuns s)\<lparr>bo_total := cg_Unknown cg\<rparr>
      else s\<lparr>bo_runs := keepAbove at (bo_runs s), bo_anchor := (if bo_anchor s \<ge> at then at - 1 else bo_anchor s), bo_total := cg_AtLeast cg at\<rparr>)"

fun splitRuns :: "int \<Rightarrow> 'v run list \<Rightarrow> 'v run list" where
  "splitRuns at [] = []"
| "splitRuns at (r # rs) =
     (if rn_at r \<ge> at \<or> runEnd r \<le> at then r # splitRuns at rs
      else \<lparr>rn_at = rn_at r, rn_rows = take (nat (at - rn_at r)) (rn_rows r)\<rparr>
           # \<lparr>rn_at = at, rn_rows = drop (nat (at - rn_at r)) (rn_rows r)\<rparr> # rs)"

definition splitAt :: "int \<Rightarrow> 'v spine \<Rightarrow> 'v spine" where "splitAt at s = s\<lparr>bo_runs := splitRuns at (bo_runs s)\<rparr>"

definition grewAt :: "counting \<Rightarrow> int \<Rightarrow> int \<Rightarrow> 'v spine \<Rightarrow> 'v spine" where
  "grewAt cg at n s =
     (if n \<le> 0 \<or> at < 0 then s
      else s\<lparr>bo_runs := map (\<lambda>r. if rn_at r \<ge> at then r\<lparr>rn_at := rn_at r + n\<rparr> else r) (splitRuns at (bo_runs s)),
             bo_anchor := (if bo_anchor s \<ge> at then bo_anchor s + n else bo_anchor s),
             bo_total := (if \<not> cg_Nothing cg (bo_total s) then (bo_total s)\<lparr>rc_N := rc_N (bo_total s) + n\<rparr> else bo_total s)\<rparr>)"

fun closeUp :: "int \<Rightarrow> int \<Rightarrow> 'v run list \<Rightarrow> 'v run list" where
  "closeUp at n [] = []"
| "closeUp at n (r # rs) =
     (if rn_at r \<ge> at \<and> runEnd r \<le> at + n then closeUp at n rs
      else if rn_at r \<ge> at + n then r\<lparr>rn_at := rn_at r - n\<rparr> # closeUp at n rs
      else r # closeUp at n rs)"

definition shrankAt :: "counting \<Rightarrow> int \<Rightarrow> int \<Rightarrow> 'v spine \<Rightarrow> 'v spine" where
  "shrankAt cg at n s =
     (if n \<le> 0 \<or> at < 0 then s
      else s\<lparr>bo_runs := closeUp at n (splitRuns (at + n) (splitRuns at (bo_runs s))),
             bo_anchor := (if bo_anchor s \<ge> at + n then bo_anchor s - n else if bo_anchor s > at then at else bo_anchor s),
             bo_total := (if \<not> cg_Nothing cg (bo_total s)
               then (bo_total s)\<lparr>rc_N := (if rc_N (bo_total s) - n < 0 then 0 else rc_N (bo_total s) - n)\<rparr> else bo_total s)\<rparr>)"

end
