(* ===== verification/SpineFacts.thy ===== *)
theory SpineFacts
  imports Spine
begin

text \<open>
  What a spine comes to: runs stay apart and in order, each operation moves what is known the way the sequence moved
  (the locale \<open>positions\<close>, which the spine is shown to keep), and so a view never lies about where rows are.
\<close>

subsection \<open>Runs apart, in order\<close>

definition okRun :: "'v run \<Rightarrow> bool" where "okRun r \<longleftrightarrow> 0 \<le> rn_at r \<and> rn_rows r \<noteq> []"

definition soundRuns :: "'v run list \<Rightarrow> bool" where
  "soundRuns runs \<longleftrightarrow> (\<forall>r \<in> set runs. okRun r) \<and> sorted_wrt (\<lambda>r q. runEnd r \<le> rn_at q) runs"

lemma runEnd_simps [simp]: "runEnd \<lparr>rn_at = a, rn_rows = xs\<rparr> = a + int (List.length xs)"
  by (simp add: runEnd_def)

lemma okRun_pos: "okRun r \<Longrightarrow> rn_at r < runEnd r" by (simp add: okRun_def runEnd_def)

lemma soundRuns_simps [simp]:
  "soundRuns []" "soundRuns (r # rs) \<longleftrightarrow> okRun r \<and> (\<forall>q \<in> set rs. runEnd r \<le> rn_at q) \<and> soundRuns rs"
  by (auto simp: soundRuns_def)

lemma soundRuns_append: "soundRuns (xs @ ys) \<longleftrightarrow> soundRuns xs \<and> soundRuns ys \<and> (\<forall>r \<in> set xs. \<forall>q \<in> set ys. runEnd r \<le> rn_at q)"
  by (auto simp: soundRuns_def sorted_wrt_append)

lemma rowIn_Some: "rowIn p r = Some x \<longleftrightarrow> rn_at r \<le> p \<and> p < runEnd r \<and> x = rn_rows r ! nat (p - rn_at r)"
  by (auto simp: rowIn_def)

lemma rowIn_None: "rowIn p r = None \<longleftrightarrow> p < rn_at r \<or> runEnd r \<le> p" by (auto simp: rowIn_def)

text \<open>What a list of sound runs says of a position: what some run says of it.\<close>

lemma rowAmong_Some: "soundRuns runs \<Longrightarrow> rowAmong p runs = Some x \<longleftrightarrow> (\<exists>r \<in> set runs. rowIn p r = Some x)"
proof (induction runs)
  case (Cons r rs)
  show ?case
  proof (cases "rowIn p r")
    case None then show ?thesis using Cons by simp
  next
    case (Some y)
    have "rowIn p q = None" if "q \<in> set rs" for q using that Cons(2) Some by (fastforce simp: rowIn_Some rowIn_None)
    then show ?thesis using Some by auto
  qed
qed simp

lemma rowAmong_before: "\<forall>q \<in> set runs. p < rn_at q \<Longrightarrow> rowAmong p runs = None"
  by (induction runs) (auto simp: rowIn_def)

subsection \<open>Joining and placing\<close>

lemma copyAt_length: "k + List.length src \<le> List.length dst \<Longrightarrow> List.length (copyAt k src dst) = List.length dst"
  by (simp add: copyAt_def)

lemma copyAt_nth:
  assumes "k + List.length src \<le> List.length dst" "i < List.length dst"
  shows "copyAt k src dst ! i = (if k \<le> i \<and> i < k + List.length src then src ! (i - k) else dst ! i)"
  using assms by (auto simp: copyAt_def nth_append)

lemma joinRuns_spec:
  fixes h f :: "'v run"
  assumes "okRun h" "okRun f" "rn_at f \<le> runEnd h" "rn_at h \<le> runEnd f"
  shows "rn_at (joinRuns h f) = min (rn_at h) (rn_at f)" "runEnd (joinRuns h f) = max (runEnd h) (runEnd f)" "okRun (joinRuns h f)"
    "rowIn p (joinRuns h f) = (case rowIn p f of Some x \<Rightarrow> Some x | None \<Rightarrow> rowIn p h)"
proof -
  define A where "A = (if rn_at f < rn_at h then rn_at f else rn_at h)"
  define E where "E = (if runEnd f > runEnd h then runEnd f else runEnd h)"
  define blank where "blank = replicate (nat (E - A)) (\<lparr>nm_id = None, nm_deep = 0\<rparr> :: 'v namedRow)"
  define one where "one = copyAt (nat (rn_at h - A)) (rn_rows h) blank"
  define two where "two = copyAt (nat (rn_at f - A)) (rn_rows f) one"
  have j: "joinRuns h f = \<lparr>rn_at = A, rn_rows = two\<rparr>"
    by (simp only: joinRuns_def Let_def A_def E_def blank_def one_def two_def)
  have le: "rn_at h < runEnd h" "rn_at f < runEnd f" using assms(1,2) okRun_pos by blast+
  have AE: "A \<le> rn_at h" "A \<le> rn_at f" "runEnd h \<le> E" "runEnd f \<le> E" "A = rn_at h \<or> A = rn_at f" "E = runEnd h \<or> E = runEnd f"
    by (simp_all add: A_def E_def)
  have lens: "int (List.length (rn_rows h)) = runEnd h - rn_at h" "int (List.length (rn_rows f)) = runEnd f - rn_at f" by (simp_all add: runEnd_def)
  have blank: "List.length blank = nat (E - A)" by (simp add: blank_def)
  have fits: "nat (rn_at h - A) + List.length (rn_rows h) \<le> List.length blank" "nat (rn_at f - A) + List.length (rn_rows f) \<le> List.length blank"
    unfolding blank using AE(1-4) lens le by linarith+
  have len1: "List.length one = List.length blank" unfolding one_def using fits(1) by (rule copyAt_length)
  have fit2: "nat (rn_at f - A) + List.length (rn_rows f) \<le> List.length one" using fits(2) len1 by simp
  have len: "List.length two = nat (E - A)" unfolding two_def copyAt_length[OF fit2] len1 blank ..
  have pos: "A < E" using AE le by linarith
  show "rn_at (joinRuns h f) = min (rn_at h) (rn_at f)" by (simp add: j A_def min_def)
  have e: "runEnd (joinRuns h f) = E" using len pos by (simp add: j)
  then show "runEnd (joinRuns h f) = max (runEnd h) (runEnd f)" by (simp add: E_def max_def)
  have "two \<noteq> []" using len pos by auto
  then show "okRun (joinRuns h f)" using assms(1,2) by (auto simp: j okRun_def A_def)
  show "rowIn p (joinRuns h f) = (case rowIn p f of Some x \<Rightarrow> Some x | None \<Rightarrow> rowIn p h)"
  proof (cases "A \<le> p \<and> p < E")
    case False
    then have "rowIn p f = None" "rowIn p h = None" unfolding rowIn_None using AE by linarith+
    moreover have "rowIn p (joinRuns h f) = None" unfolding rowIn_None e using False by (auto simp: j)
    ultimately show ?thesis by simp
  next
    case True
    define i where "i = nat (p - A)"
    have i: "i < List.length one" unfolding len1 blank i_def using True by simp
    have shift: "nat (a - A) \<le> i \<and> i < nat (a - A) + n \<longleftrightarrow> a \<le> p \<and> p < a + int n" "i - nat (a - A) = nat (p - a)" if "A \<le> a" for a n
      using that True by (auto simp: i_def)
    have at: "rowIn p (joinRuns h f) = Some (two ! i)" unfolding rowIn_def e using True by (simp add: j i_def)
    have f: "two ! i = (if rn_at f \<le> p \<and> p < runEnd f then rn_rows f ! nat (p - rn_at f) else one ! i)"
      unfolding two_def copyAt_nth[OF fit2 i] shift[OF AE(2)] runEnd_def ..
    have h: "one ! i = (if rn_at h \<le> p \<and> p < runEnd h then rn_rows h ! nat (p - rn_at h) else blank ! i)"
      unfolding one_def copyAt_nth[OF fits(1) i[unfolded len1]] shift[OF AE(1)] runEnd_def ..
    have "(rn_at f \<le> p \<and> p < runEnd f) \<or> (rn_at h \<le> p \<and> p < runEnd h)" using True AE(5,6) assms(3,4) le by linarith
    then show ?thesis unfolding at f h rowIn_def[of p f] rowIn_def[of p h] by auto
  qed
qed

lemma gather_spec:
  assumes "soundRuns runs" "okRun fresh" "gather runs fresh = (kept, fresh')"
  shows "okRun fresh' \<and> soundRuns kept \<and> set kept \<subseteq> set runs \<and> (\<forall>r \<in> set kept. runEnd r \<le> rn_at fresh' \<or> runEnd fresh' \<le> rn_at r)
    \<and> rn_at fresh' \<le> rn_at fresh \<and> runEnd fresh \<le> runEnd fresh'
    \<and> (\<forall>b. b \<le> rn_at fresh \<and> (\<forall>r \<in> set runs. b \<le> rn_at r) \<longrightarrow> b \<le> rn_at fresh')
    \<and> ((\<forall>r \<in> set runs. rn_at r > runEnd fresh) \<longrightarrow> fresh' = fresh)
    \<and> (\<forall>p x. (\<exists>r \<in> insert fresh' (set kept). rowIn p r = Some x) \<longleftrightarrow> rowIn p fresh = Some x \<or> rowIn p fresh = None \<and> (\<exists>r \<in> set runs. rowIn p r = Some x))"
  using assms
proof (induction runs fresh arbitrary: kept fresh' rule: gather.induct)
  case (2 r rs fresh)
  have sound: "okRun r" "soundRuns rs" "\<forall>q \<in> set rs. runEnd r \<le> rn_at q" using 2(3) by simp_all
  show ?case
  proof (cases "runEnd r < rn_at fresh \<or> rn_at r > runEnd fresh")
    case True
    then obtain k where k: "gather rs fresh = (k, fresh')" "kept = r # k" using 2(5) by (auto split: prod.splits)
    note IH = 2(1)[OF True sound(2) 2(4) k(1)]
    have apart: "runEnd r \<le> rn_at fresh' \<or> runEnd fresh' \<le> rn_at r"
    proof (cases "runEnd r < rn_at fresh")
      case True then show ?thesis using IH sound(3) by (metis less_imp_le)
    next
      case False
      then have "\<forall>q \<in> set rs. rn_at q > runEnd fresh" using True sound(3) okRun_pos[OF sound(1)] by force
      then have "fresh' = fresh" using IH by blast
      then show ?thesis using False True by simp
    qed
    have none: "rowIn p r = None" if "rowIn p fresh \<noteq> None" for p using that True by (auto simp: rowIn_None rowIn_def split: if_splits)
    have rows: "(\<exists>q \<in> insert fresh' (set kept). rowIn p q = Some x) \<longleftrightarrow> rowIn p fresh = Some x \<or> rowIn p fresh = None \<and> (\<exists>q \<in> set (r # rs). rowIn p q = Some x)" for p x
    proof -
      have "(\<exists>q \<in> insert fresh' (set kept). rowIn p q = Some x) \<longleftrightarrow> rowIn p r = Some x \<or> (\<exists>q \<in> insert fresh' (set k). rowIn p q = Some x)" using k(2) by auto
      also have "\<dots> \<longleftrightarrow> rowIn p r = Some x \<or> rowIn p fresh = Some x \<or> rowIn p fresh = None \<and> (\<exists>q \<in> set rs. rowIn p q = Some x)" using IH by blast
      also have "\<dots> \<longleftrightarrow> rowIn p fresh = Some x \<or> rowIn p fresh = None \<and> (\<exists>q \<in> set (r # rs). rowIn p q = Some x)"
        using none[of p] by (cases "rowIn p fresh") auto
      finally show ?thesis .
    qed
    have "soundRuns kept" using IH sound k(2) by auto
    then show ?thesis using IH k(2) apart rows by auto
  next
    case False
    then have g: "gather rs (joinRuns r fresh) = (kept, fresh')" using 2(5) by simp
    note j = joinRuns_spec[OF sound(1) 2(4), unfolded not_less]
    have touch: "rn_at fresh \<le> runEnd r" "rn_at r \<le> runEnd fresh" using False by simp_all
    note j = j[OF touch]
    note IH = 2(2)[OF False sound(2) j(3) g]
    have rows: "(\<exists>q \<in> insert fresh' (set kept). rowIn p q = Some x) \<longleftrightarrow> rowIn p fresh = Some x \<or> rowIn p fresh = None \<and> (\<exists>q \<in> set (r # rs). rowIn p q = Some x)" for p x
    proof -
      have "rowIn p q = None" if "q \<in> set rs" "rowIn p r \<noteq> None" for q using that sound(3) by (fastforce simp: rowIn_None rowIn_def split: if_splits)
      then show ?thesis using IH j(4)[of p] by (cases "rowIn p fresh"; cases "rowIn p r") auto
    qed
    show ?thesis using IH j(1,2) rows touch by auto
  qed
qed auto

lemma putInOrder_set: "set (putInOrder runs r) = insert r (set runs)"
  by (induction runs r rule: putInOrder.induct) auto

lemma putInOrder_sound:
  "soundRuns runs \<Longrightarrow> okRun r \<Longrightarrow> \<forall>q \<in> set runs. runEnd q \<le> rn_at r \<or> runEnd r \<le> rn_at q \<Longrightarrow> soundRuns (putInOrder runs r)"
proof (induction runs r rule: putInOrder.induct)
  case (2 h runs r)
  have pos: "rn_at h < runEnd h" "rn_at r < runEnd r" using 2 okRun_pos by auto
  show ?case
  proof (cases "rn_at h > rn_at r")
    case True
    then have "runEnd r \<le> rn_at h" using 2(4) pos by auto
    moreover have "rn_at h \<le> rn_at q" if "q \<in> set runs" for q using that 2(2) pos by fastforce
    ultimately show ?thesis using True 2 by fastforce
  next
    case False
    then have "runEnd h \<le> rn_at r" using 2(4) pos by auto
    then show ?thesis using False 2 by (auto simp: putInOrder_set)
  qed
qed simp

subsection \<open>Trimming\<close>

lemma furthest_None: "furthest anchor i rs best = None \<Longrightarrow> snd best = -1 \<or> fst best \<noteq> None \<Longrightarrow> fst best = None \<and> (\<forall>r \<in> set rs. rn_at r \<le> anchor \<and> anchor < runEnd r)"
proof (induction anchor i rs best rule: furthest.induct)
  case (2 anchor i r rs best)
  have "0 \<le> distance r anchor" by (simp add: distance_def)
  then show ?case using 2 by (fastforce split: if_splits)
qed simp

lemma furthest_spares: "furthest anchor i rs best = Some k \<Longrightarrow> fst best \<noteq> Some k \<Longrightarrow> \<not> (rn_at (rs ! (k - i)) \<le> anchor \<and> anchor < runEnd (rs ! (k - i)))"
proof (induction anchor i rs best rule: furthest.induct)
  case (2 anchor i r rs best)
  let ?best = "if anchor \<ge> rn_at r \<and> anchor < runEnd r then best else if distance r anchor > snd best then (Some i, distance r anchor) else best"
  have k: "furthest anchor (Suc i) rs ?best = Some k" using 2(2) by simp
  show ?case
  proof (cases "fst ?best = Some k")
    case True then have "k = i" "\<not> (anchor \<ge> rn_at r \<and> anchor < runEnd r)" using 2(3) by (auto split: if_splits)
    then show ?thesis by auto
  next
    case False
    then have "Suc i \<le> k" using furthest_index[OF k] by simp
    then show ?thesis using 2(1)[OF k False] by (simp add: Suc_diff_le nth_Cons' split: nat.split)
  qed
qed simp

lemma dropFar_spec:
  "soundRuns runs \<Longrightarrow> soundRuns (dropFar anchor runs) \<and> set (dropFar anchor runs) \<subseteq> set runs
     \<and> (\<forall>r \<in> set runs. rn_at r \<le> anchor \<and> anchor < runEnd r \<longrightarrow> r \<in> set (dropFar anchor runs))
     \<and> (heldIn (dropFar anchor runs) \<le> spineKept \<or> List.length (dropFar anchor runs) \<le> 1)"
proof (induction anchor runs rule: dropFar.induct)
  case (1 anchor runs)
  show ?case
  proof (cases "heldIn runs > spineKept \<and> List.length runs > 1")
    case False
    have "dropFar anchor runs = runs" by (subst dropFar.simps) (simp only: if_not_P[OF False])
    then show ?thesis using 1(2) False by auto
  next
    case True
    then obtain a b rs where two: "runs = a # b # rs" by (cases runs; cases "tl runs") auto
    have "furthest anchor 0 runs (None, -1) \<noteq> None"
    proof
      assume "furthest anchor 0 runs (None, -1) = None"
      from furthest_None[OF this] have "\<forall>r \<in> set runs. rn_at r \<le> anchor \<and> anchor < runEnd r" by simp
      then show False using 1(2) unfolding two by simp
    qed
    then obtain w where w: "furthest anchor 0 runs (None, -1) = Some w" by blast
    let ?rest = "take w runs @ drop (Suc w) runs"
    have lt: "w < List.length runs" using furthest_index[OF w] by simp
    have runs: "runs = take w runs @ runs ! w # drop (Suc w) runs" using lt by (rule id_take_nth_drop)
    have sound: "soundRuns ?rest" using 1(2) by (subst (asm) runs) (auto simp: soundRuns_append)
    have far: "\<not> (rn_at (runs ! w) \<le> anchor \<and> anchor < runEnd (runs ! w))" using furthest_spares[OF w] by simp
    have sub: "set runs = insert (runs ! w) (set ?rest)" by (subst runs) auto
    have step: "dropFar anchor runs = dropFar anchor ?rest" using True w by (subst dropFar.simps) simp
    note IH = 1(1)[OF True w sound]
    have "\<forall>r \<in> set runs. r = runs ! w \<or> r \<in> set ?rest" "set ?rest \<subseteq> set runs" using sub by blast+
    note parts = this
    show ?thesis unfolding step
    proof (intro conjI ballI impI)
      fix r assume r: "r \<in> set runs" "rn_at r \<le> anchor \<and> anchor < runEnd r"
      then have "r \<noteq> runs ! w" using far by metis
      then have "r \<in> set ?rest" using parts(1) r(1) by blast
      then show "r \<in> set (dropFar anchor ?rest)" using IH r(2) by blast
    qed (use IH parts(2) in blast)+
  qed
qed

lemma cutRun_spec:
  assumes "spineKept < List.length (rn_rows r)" "okRun r"
  shows "okRun (cutRun r a b)" "rn_at r \<le> rn_at (cutRun r a b)" "runEnd (cutRun r a b) \<le> runEnd r" "List.length (rn_rows (cutRun r a b)) = spineKept"
    "rowIn p (cutRun r a b) = Some x \<Longrightarrow> rowIn p r = Some x"
    "rn_at r \<le> a \<Longrightarrow> a < b \<Longrightarrow> b \<le> runEnd r \<Longrightarrow> b - a \<le> int spineKept \<Longrightarrow> rn_at (cutRun r a b) \<le> a \<and> b \<le> runEnd (cutRun r a b)"
proof -
  let ?beg = "rn_at (cutRun r a b)"
  define m where "m = (a + b) div 2 - int spineKept div 2"
  have m: "a + b - 1 \<le> 2 * m + int spineKept" "2 * m + int spineKept \<le> a + b" by (simp_all add: m_def spineKept_def)
  define g where "g = (if m < rn_at r then rn_at r else m)"
  define h where "h = (if g + int spineKept > runEnd r then runEnd r - int spineKept else g)"
  have long: "rn_at r + int spineKept < runEnd r" using assms(1) by (simp add: runEnd_def)
  have h: "rn_at r \<le> h" "h + int spineKept \<le> runEnd r" using long by (simp_all add: h_def g_def)
  have "\<not> List.length (rn_rows r) \<le> spineKept" using assms(1) by simp
  then have cut: "cutRun r a b = (let beg = (if h < rn_at r then rn_at r else h) in \<lparr>rn_at = beg, rn_rows = take spineKept (drop (nat (beg - rn_at r)) (rn_rows r))\<rparr>)"
    by (simp only: cutRun_def if_False Let_def m_def g_def h_def)
  have beg: "?beg = h" using h(1) by (simp add: cut Let_def)
  have range: "rn_at r \<le> ?beg" "?beg + int spineKept \<le> runEnd r" using h by (simp_all add: beg)
  have c: "cutRun r a b = \<lparr>rn_at = ?beg, rn_rows = take spineKept (drop (nat (?beg - rn_at r)) (rn_rows r))\<rparr>"
    using h(1) unfolding beg by (simp add: cut Let_def)
  have "nat (?beg - rn_at r) + spineKept \<le> List.length (rn_rows r)" using range by (simp add: runEnd_def)
  then show len: "List.length (rn_rows (cutRun r a b)) = spineKept" by (subst c) simp
  have end': "runEnd (cutRun r a b) = ?beg + int spineKept" by (simp add: runEnd_def len)
  have "rn_rows (cutRun r a b) \<noteq> []" using len by (auto simp: spineKept_def)
  then show "okRun (cutRun r a b)" using assms(2) range by (simp add: okRun_def)
  show "rn_at r \<le> ?beg" "runEnd (cutRun r a b) \<le> runEnd r" using range end' by simp_all
  show "rowIn p r = Some x" if "rowIn p (cutRun r a b) = Some x"
  proof -
    have p: "?beg \<le> p" "p < ?beg + int spineKept" "x = rn_rows (cutRun r a b) ! nat (p - ?beg)" using that end' by (simp_all add: rowIn_Some)
    have "nat (?beg - rn_at r) + nat (p - ?beg) = nat (p - rn_at r)" using p(1) range(1) by simp
    moreover have "rn_rows (cutRun r a b) ! nat (p - ?beg) = rn_rows r ! (nat (?beg - rn_at r) + nat (p - ?beg))"
      using p range by (subst c) (simp add: runEnd_def)
    ultimately show ?thesis using p range by (simp add: rowIn_Some)
  qed
  show "?beg \<le> a \<and> b \<le> runEnd (cutRun r a b)" if "rn_at r \<le> a" "a < b" "b \<le> runEnd r" "b - a \<le> int spineKept"
  proof -
    have "g \<le> a" "b \<le> g + int spineKept" using that m by (simp_all add: g_def)
    then have "h \<le> a \<and> b \<le> h + int spineKept" using that long by (simp add: h_def)
    then show ?thesis unfolding end' beg by simp
  qed
qed

lemma heldIn_small: "\<forall>r \<in> set runs. List.length (rn_rows r) \<le> spineKept \<Longrightarrow> List.length runs \<le> 1 \<Longrightarrow> heldIn runs \<le> spineKept"
  by (cases runs) (auto simp: heldIn_def)

lemma trim_spec:
  assumes "soundRuns (bo_runs s)"
  shows "soundRuns (bo_runs (trim a b s))" "spineHeld (trim a b s) \<le> spineKept" "rowOf (trim a b s) p = Some x \<Longrightarrow> rowOf s p = Some x"
    "r \<in> set (bo_runs s) \<Longrightarrow> rn_at r \<le> a \<Longrightarrow> a < b \<Longrightarrow> b \<le> runEnd r \<Longrightarrow> b - a \<le> int spineKept \<Longrightarrow> bo_anchor s = a \<Longrightarrow> a \<le> p \<Longrightarrow> p < b \<Longrightarrow> rowOf (trim a b s) p = rowOf s p"
proof -
  define c where "c = (\<lambda>r :: 'a run. if List.length (rn_rows r) > spineKept then cutRun r a b else r)"
  let ?runs = "map c (bo_runs s)" and ?out = "dropFar (bo_anchor s) (map c (bo_runs s))"
  have ok: "okRun r" if "r \<in> set (bo_runs s)" for r using that assms by (simp add: soundRuns_def)
  have within: "okRun (c r) \<and> rn_at r \<le> rn_at (c r) \<and> runEnd (c r) \<le> runEnd r \<and> List.length (rn_rows (c r)) \<le> spineKept \<and> (\<forall>p x. rowIn p (c r) = Some x \<longrightarrow> rowIn p r = Some x)"
    if "r \<in> set (bo_runs s)" for r using cutRun_spec(1-5)[OF _ ok[OF that], where a = a and b = b] ok[OF that] by (auto simp: c_def)
  have sorted: "sorted_wrt (\<lambda>r q. runEnd r \<le> rn_at q) ?runs"
    unfolding sorted_wrt_map
  proof (rule sorted_wrt_mono_rel[of _ "\<lambda>r q. runEnd r \<le> rn_at q"])
    show "runEnd (c x) \<le> rn_at (c y)" if "x \<in> set (bo_runs s)" "y \<in> set (bo_runs s)" "runEnd x \<le> rn_at y" for x y
      using within[OF that(1)] within[OF that(2)] that(3) by linarith
    show "sorted_wrt (\<lambda>r q. runEnd r \<le> rn_at q) (bo_runs s)" using assms by (simp add: soundRuns_def)
  qed
  have "okRun q" if q: "q \<in> set ?runs" for q
  proof -
    obtain r where r: "r \<in> set (bo_runs s)" "q = c r" using q by auto
    show ?thesis using within[OF r(1)] unfolding r(2) by blast
  qed
  then have sound: "soundRuns ?runs" using sorted unfolding soundRuns_def by blast
  note d = dropFar_spec[OF sound, of "bo_anchor s"]
  have out: "bo_runs (trim a b s) = ?out" by (simp add: trim_def c_def)
  show s': "soundRuns (bo_runs (trim a b s))" using d out by simp
  have "\<forall>r \<in> set ?out. List.length (rn_rows r) \<le> spineKept" using d within by fastforce
  then show "spineHeld (trim a b s) \<le> spineKept" using d heldIn_small[of ?out] by (auto simp: spineHeld_def out)
  have sub: "rowOf s p = Some x" if "rowOf (trim a b s) p = Some x" for p x
  proof -
    have "\<exists>q \<in> set ?out. rowIn p q = Some x" using that rowAmong_Some[OF conjunct1[OF d], of p x] unfolding rowOf_def out by blast
    then obtain q where q: "q \<in> set ?out" "rowIn p q = Some x" by blast
    have "q \<in> set (map c (bo_runs s))" using d q(1) by blast
    then obtain r where "r \<in> set (bo_runs s)" "rowIn p (c r) = Some x" using q(2) by auto
    then show ?thesis using within assms by (auto simp: rowOf_def rowAmong_Some)
  qed
  then show "rowOf (trim a b s) p = Some x \<Longrightarrow> rowOf s p = Some x" by blast
  show "rowOf (trim a b s) p = rowOf s p"
    if r: "r \<in> set (bo_runs s)" "rn_at r \<le> a" "a < b" "b \<le> runEnd r" "b - a \<le> int spineKept" "bo_anchor s = a" "a \<le> p" "p < b"
  proof -
    have cr: "rn_at (c r) \<le> a \<and> b \<le> runEnd (c r)" using r cutRun_spec(6)[OF _ ok[OF r(1)], where a = a and b = b] by (auto simp: c_def)
    have "c r \<in> set ?out" using d cr r(1,3,6) by force
    then have "rowOf (trim a b s) p = rowIn p (c r)"
      using rowAmong_Some[of ?out p "rn_rows (c r) ! nat (p - rn_at (c r))"] s' out cr r(7,8)
      by (auto simp: rowOf_def rowIn_def split: if_splits)
    moreover obtain x where "rowIn p (c r) = Some x" using cr r(7,8) by (auto simp: rowIn_def simp del: split_paired_All)
    ultimately show ?thesis using sub by simp
  qed
qed

subsection \<open>What each operation does to what is known\<close>

lemma place_none: "at < 0 \<or> rs = [] \<Longrightarrow> place at rs s = s" by (simp add: place_def)

lemma place_spec:
  assumes "soundRuns (bo_runs s)" "0 \<le> at" "rs \<noteq> []"
  shows "soundRuns (bo_runs (place at rs s))" "spineHeld (place at rs s) \<le> spineKept"
    "rowOf (place at rs s) p = Some x \<Longrightarrow> if at \<le> p \<and> p < at + int (List.length rs) then x = rs ! nat (p - at) else rowOf s p = Some x"
    "List.length rs \<le> spineKept \<Longrightarrow> at \<le> p \<Longrightarrow> p < at + int (List.length rs) \<Longrightarrow> rowOf (place at rs s) p = Some (rs ! nat (p - at))"
proof -
  let ?fresh = "\<lparr>rn_at = at, rn_rows = rs\<rparr>"
  have ok: "okRun ?fresh" using assms(2,3) by (simp add: okRun_def)
  obtain kept fresh where g: "gather (bo_runs s) ?fresh = (kept, fresh)" by fastforce
  note G = gather_spec[OF assms(1) ok g]
  let ?s = "s\<lparr>bo_runs := putInOrder kept fresh, bo_anchor := at\<rparr>" and ?to = "at + int (List.length rs)"
  have p: "place at rs s = trim at ?to ?s" using assms(2,3) g by (simp add: place_def)
  have sound: "soundRuns (bo_runs ?s)" using putInOrder_sound G by auto
  note T = trim_spec[OF sound, where a = at and b = ?to]
  have row: "rowOf ?s p = Some x \<longleftrightarrow> (if at \<le> p \<and> p < ?to then x = rs ! nat (p - at) else rowOf s p = Some x)" for p x
  proof -
    have "rowOf ?s p = Some x \<longleftrightarrow> (\<exists>r \<in> insert fresh (set kept). rowIn p r = Some x)"
      using rowAmong_Some[OF sound] by (simp add: rowOf_def putInOrder_set)
    also have "\<dots> \<longleftrightarrow> rowIn p ?fresh = Some x \<or> rowIn p ?fresh = None \<and> (\<exists>r \<in> set (bo_runs s). rowIn p r = Some x)" using G by blast
    also have "\<dots> \<longleftrightarrow> (if at \<le> p \<and> p < ?to then x = rs ! nat (p - at) else rowOf s p = Some x)"
      using rowAmong_Some[OF assms(1)] by (auto simp: rowOf_def rowIn_def)
    finally show ?thesis .
  qed
  show "soundRuns (bo_runs (place at rs s))" "spineHeld (place at rs s) \<le> spineKept" unfolding p by (rule T(1), rule T(2))
  show "if at \<le> p \<and> p < ?to then x = rs ! nat (p - at) else rowOf s p = Some x" if "rowOf (place at rs s) p = Some x"
    using T(3)[of p x] that row[of p x] unfolding p by blast
  show "rowOf (place at rs s) p = Some (rs ! nat (p - at))" if h: "List.length rs \<le> spineKept" "at \<le> p" "p < ?to"
  proof -
    have "fresh \<in> set (bo_runs ?s)" "rn_at fresh \<le> at" "?to \<le> runEnd fresh" using G by (simp_all add: putInOrder_set)
    moreover have "at < ?to" using assms(3) by simp
    ultimately have "rowOf (trim at ?to ?s) p = rowOf ?s p" using T(4)[of fresh p] h by simp
    then show ?thesis using row[of p "rs ! nat (p - at)"] h unfolding p by simp
  qed
qed

lemma split_parts:
  fixes r upper lower :: "'v run"
  assumes "okRun r" "rn_at r < at" "at < runEnd r"
  defines "upper \<equiv> \<lparr>rn_at = rn_at r, rn_rows = take (nat (at - rn_at r)) (rn_rows r)\<rparr>" and "lower \<equiv> \<lparr>rn_at = at, rn_rows = drop (nat (at - rn_at r)) (rn_rows r)\<rparr>"
  shows "okRun upper" "okRun lower" "runEnd upper = at" "runEnd lower = runEnd r"
    "rowIn p upper = (if p < at then rowIn p r else None)" "rowIn p lower = (if p < at then None else rowIn p r)"
proof -
  have lens: "nat (at - rn_at r) < List.length (rn_rows r)" "0 < nat (at - rn_at r)" using assms(2,3) by (auto simp: runEnd_def)
  show ok: "okRun upper" "okRun lower" using assms(1,2) lens by (auto simp: okRun_def upper_def lower_def)
  show e: "runEnd upper = at" "runEnd lower = runEnd r" using lens by (auto simp: upper_def lower_def runEnd_def)
  show "rowIn p upper = (if p < at then rowIn p r else None)" using e assms(2,3) by (auto simp: rowIn_def upper_def)
  have "nat (at - rn_at r) + nat (p - at) = nat (p - rn_at r)" if "at \<le> p" using that assms(2) by simp
  moreover have "rn_at lower = at" "rn_rows lower = drop (nat (at - rn_at r)) (rn_rows r)" by (simp_all add: lower_def)
  ultimately show "rowIn p lower = (if p < at then None else rowIn p r)" unfolding rowIn_def e(2) using lens(1) assms(2) by (auto simp: nth_drop)
qed

lemma splitRuns_spec:
  assumes "soundRuns runs"
  shows "soundRuns (splitRuns at runs)" "rowAmong p (splitRuns at runs) = rowAmong p runs" "heldIn (splitRuns at runs) = heldIn runs"
    "\<forall>r \<in> set (splitRuns at runs). at \<le> rn_at r \<or> runEnd r \<le> at"
    "\<forall>b. (\<forall>r \<in> set runs. b \<le> rn_at r) \<and> b \<le> at \<longrightarrow> (\<forall>r \<in> set (splitRuns at runs). b \<le> rn_at r)"
    "\<forall>e. (\<forall>r \<in> set runs. e \<le> rn_at r \<or> runEnd r \<le> e) \<longrightarrow> (\<forall>r \<in> set (splitRuns at runs). e \<le> rn_at r \<or> runEnd r \<le> e)"
proof -
  have "soundRuns (splitRuns at runs) \<and> (\<forall>p. rowAmong p (splitRuns at runs) = rowAmong p runs) \<and> heldIn (splitRuns at runs) = heldIn runs
    \<and> (\<forall>r \<in> set (splitRuns at runs). at \<le> rn_at r \<or> runEnd r \<le> at)
    \<and> (\<forall>b. (\<forall>r \<in> set runs. b \<le> rn_at r) \<longrightarrow> (\<forall>r \<in> set (splitRuns at runs). b \<le> rn_at r))
    \<and> (\<forall>e. (\<forall>r \<in> set runs. e \<le> rn_at r \<or> runEnd r \<le> e) \<longrightarrow> (\<forall>r \<in> set (splitRuns at runs). e \<le> rn_at r \<or> runEnd r \<le> e))"
    using assms
  proof (induction at runs rule: splitRuns.induct)
    case (2 at r rs)
    show ?case
    proof (cases "rn_at r \<ge> at \<or> runEnd r \<le> at")
      case True
      note IH = 2(1)[OF True]
      have sound: "soundRuns rs" "okRun r" "\<forall>q \<in> set rs. runEnd r \<le> rn_at q" using 2(2) by simp_all
      show ?thesis using IH[OF sound(1)] sound True by (auto simp: heldIn_def split: option.splits)
    next
      case False
      then have b: "rn_at r < at" "at < runEnd r" by simp_all
      have sound: "soundRuns rs" "okRun r" "\<forall>q \<in> set rs. runEnd r \<le> rn_at q" using 2(2) by simp_all
      note parts = split_parts[OF sound(2) b]
      have "at \<le> rn_at q" if "q \<in> set rs" for q using that sound(3) b(2) by fastforce
      moreover have "heldIn (splitRuns at (r # rs)) = heldIn (r # rs)" using b sound by (simp add: heldIn_def runEnd_def)
      ultimately show ?thesis using False b sound parts by (auto split: option.splits)
    qed
  qed simp
  then show "soundRuns (splitRuns at runs)" "rowAmong p (splitRuns at runs) = rowAmong p runs" "heldIn (splitRuns at runs) = heldIn runs"
    "\<forall>r \<in> set (splitRuns at runs). at \<le> rn_at r \<or> runEnd r \<le> at"
    "\<forall>b. (\<forall>r \<in> set runs. b \<le> rn_at r) \<and> b \<le> at \<longrightarrow> (\<forall>r \<in> set (splitRuns at runs). b \<le> rn_at r)"
    "\<forall>e. (\<forall>r \<in> set runs. e \<le> rn_at r \<or> runEnd r \<le> e) \<longrightarrow> (\<forall>r \<in> set (splitRuns at runs). e \<le> rn_at r \<or> runEnd r \<le> e)" by blast+
qed

lemma rowIn_moved: "rowIn p (r\<lparr>rn_at := rn_at r + n\<rparr>) = rowIn (p - n) r"
  by (simp add: rowIn_def runEnd_def) (auto simp: algebra_simps)

lemma okRun_moved: "okRun r \<Longrightarrow> 0 \<le> rn_at r + n \<Longrightarrow> okRun (r\<lparr>rn_at := rn_at r + n\<rparr>)" by (simp add: okRun_def)

lemma runEnd_moved: "runEnd (r\<lparr>rn_at := rn_at r + n\<rparr>) = runEnd r + n" by (simp add: runEnd_def)

lemma moved_down:
  assumes "soundRuns runs" "\<forall>r \<in> set runs. at \<le> rn_at r \<or> runEnd r \<le> at" "0 \<le> n"
  defines "f \<equiv> \<lambda>r :: 'v run. if rn_at r \<ge> at then r\<lparr>rn_at := rn_at r + n\<rparr> else r"
  shows "soundRuns (map f runs)" "rowAmong p (map f runs) = (if p < at then rowAmong p runs else if p < at + n then None else rowAmong (p - n) runs)"
    "heldIn (map f runs) = heldIn runs"
proof -
  have "soundRuns (map f runs) \<and> (\<forall>p. rowAmong p (map f runs) = (if p < at then rowAmong p runs else if p < at + n then None else rowAmong (p - n) runs))"
    using assms(1,2)
  proof (induction runs)
    case (Cons r rs)
    have sound: "okRun r" "\<forall>q \<in> set rs. runEnd r \<le> rn_at q" "soundRuns rs" using Cons(2) by simp_all
    have ok: "okRun (f r)" using sound(1) assms(3) by (auto simp: f_def okRun_def)
    have later: "runEnd (f r) \<le> rn_at (f q)" if q: "q \<in> set rs" for q
    proof -
      have "runEnd r \<le> rn_at q" "rn_at r < runEnd r" using sound q okRun_pos by blast+
      then show ?thesis using assms(3) by (auto simp: f_def runEnd_def)
    qed
    have row: "rowIn p (f r) = (if p < at then rowIn p r else if p < at + n then None else rowIn (p - n) r)" for p
    proof (cases "at \<le> rn_at r")
      case True
      have "p < at \<Longrightarrow> rowIn p r = None" "p < at + n \<Longrightarrow> rowIn (p - n) r = None" using True by (auto simp: rowIn_None)
      moreover have "p < at \<Longrightarrow> p < at + n" using assms(3) by simp
      ultimately show ?thesis using True by (simp add: f_def rowIn_moved)
    next
      case False
      then have "runEnd r \<le> at" using Cons(3) by simp
      then have "at \<le> p \<Longrightarrow> rowIn p r = None" "at + n \<le> p \<Longrightarrow> rowIn (p - n) r = None" by (auto simp: rowIn_None)
      moreover have "at + n \<le> p \<Longrightarrow> at \<le> p" using assms(3) by simp
      ultimately show ?thesis using False by (auto simp: f_def)
    qed
    have IH: "soundRuns (map f rs) \<and> (\<forall>p. rowAmong p (map f rs) = (if p < at then rowAmong p rs else if p < at + n then None else rowAmong (p - n) rs))"
      using Cons(1)[OF sound(3)] Cons(3) by auto
    show ?case using IH ok later by (auto simp: row split: option.splits)
  qed simp
  then show "soundRuns (map f runs)" "rowAmong p (map f runs) = (if p < at then rowAmong p runs else if p < at + n then None else rowAmong (p - n) runs)" by blast+
  have same: "List.length (rn_rows (f r)) = List.length (rn_rows r)" for r by (simp add: f_def)
  have "List.length \<circ> rn_rows \<circ> f = List.length \<circ> rn_rows" by (rule ext) (simp only: comp_def same)
  then show "heldIn (map f runs) = heldIn runs" by (simp add: heldIn_def o_assoc)
qed

lemma grewAt_spec:
  assumes "soundRuns (bo_runs s)" "0 \<le> at" "0 < n"
  shows "soundRuns (bo_runs (grewAt cg at n s))" "rowOf (grewAt cg at n s) p = (if p < at then rowOf s p else if p < at + n then None else rowOf s (p - n))"
    "spineHeld (grewAt cg at n s) = spineHeld s"
proof -
  note sp = splitRuns_spec[OF assms(1), where at = at]
  have n: "0 \<le> n" using assms(3) by simp
  note m = moved_down[OF sp(1) sp(4) n]
  have runs: "bo_runs (grewAt cg at n s) = map (\<lambda>r. if rn_at r \<ge> at then r\<lparr>rn_at := rn_at r + n\<rparr> else r) (splitRuns at (bo_runs s))"
    using assms(2,3) by (simp add: grewAt_def)
  show "soundRuns (bo_runs (grewAt cg at n s))" unfolding runs by (rule m(1))
  show "rowOf (grewAt cg at n s) p = (if p < at then rowOf s p else if p < at + n then None else rowOf s (p - n))"
    unfolding rowOf_def runs m(2) sp(2) ..
  show "spineHeld (grewAt cg at n s) = spineHeld s" unfolding spineHeld_def runs m(3) sp(3) ..
qed

lemma closed_up:
  assumes "soundRuns runs" "\<forall>r \<in> set runs. at \<le> rn_at r \<or> runEnd r \<le> at" "\<forall>r \<in> set runs. at + n \<le> rn_at r \<or> runEnd r \<le> at + n" "0 < n" "0 \<le> at"
  shows "soundRuns (closeUp at n runs)" "rowAmong p (closeUp at n runs) = (if p < at then rowAmong p runs else rowAmong (p + n) runs)"
    "heldIn (closeUp at n runs) \<le> heldIn runs"
proof -
  have "soundRuns (closeUp at n runs) \<and> (\<forall>p. rowAmong p (closeUp at n runs) = (if p < at then rowAmong p runs else rowAmong (p + n) runs))
    \<and> heldIn (closeUp at n runs) \<le> heldIn runs
    \<and> (\<forall>b. (\<forall>r \<in> set runs. b \<le> rn_at r) \<and> b \<le> at \<longrightarrow> (\<forall>r \<in> set (closeUp at n runs). b \<le> rn_at r))
    \<and> (\<forall>b. (\<forall>r \<in> set runs. b \<le> rn_at r) \<and> at + n \<le> b \<longrightarrow> (\<forall>r \<in> set (closeUp at n runs). b - n \<le> rn_at r))"
    using assms
  proof (induction at n runs rule: closeUp.induct)
    case (2 at n r rs)
    have sound: "okRun r" "\<forall>q \<in> set rs. runEnd r \<le> rn_at q" "soundRuns rs" using 2(4) by simp_all
    have pos: "rn_at r < runEnd r" using sound(1) okRun_pos by blast
    have rest: "\<forall>q \<in> set rs. at \<le> rn_at q \<or> runEnd q \<le> at" "\<forall>q \<in> set rs. at + n \<le> rn_at q \<or> runEnd q \<le> at + n" using 2(5,6) by simp_all
    consider (gone) "rn_at r \<ge> at \<and> runEnd r \<le> at + n" | (moved) "\<not> (rn_at r \<ge> at \<and> runEnd r \<le> at + n)" "rn_at r \<ge> at + n"
      | (stays) "\<not> (rn_at r \<ge> at \<and> runEnd r \<le> at + n)" "\<not> rn_at r \<ge> at + n" "runEnd r \<le> at" using 2(5,6) by force
    then show ?case
    proof cases
      case gone
      note IH = 2(1)[OF gone sound(3) rest 2(7,8)]
      have "rowIn p r = None" if "p < at \<or> at + n \<le> p" for p using gone that by (auto simp: rowIn_None)
      then show ?thesis using IH gone by (auto simp: heldIn_def)
    next
      case moved
      note IH = 2(2)[OF moved sound(3) rest 2(7,8)]
      have ok: "okRun (r\<lparr>rn_at := rn_at r - n\<rparr>)" using moved(2) sound(1) 2(5,8) by (auto simp: okRun_def) 
      have row: "rowIn p (r\<lparr>rn_at := rn_at r - n\<rparr>) = rowIn (p + n) r" for p using rowIn_moved[of p r "- n"] by simp
      have e: "runEnd (r\<lparr>rn_at := rn_at r - n\<rparr>) = runEnd r - n" using runEnd_moved[of r "- n"] by simp
      have none: "rowIn p r = None" "rowIn (p + n) r = None" if "p < at" for p using moved that 2(7) by (auto simp: rowIn_None)
      have "at + n \<le> runEnd r" using moved pos by simp
      then have later: "\<forall>q \<in> set (closeUp at n rs). runEnd r - n \<le> rn_at q" using IH sound(2) by blast
      have cu: "closeUp at n (r # rs) = r\<lparr>rn_at := rn_at r - n\<rparr> # closeUp at n rs" using moved by simp
      have lo: "b \<le> rn_at r - n" if "b \<le> rn_at r" "b \<le> at" for b using that moved by simp
      show ?thesis unfolding cu using IH ok later lo none by (auto simp: row e heldIn_def split: option.splits)
    next
      case stays
      note IH = 2(3)[OF stays(1,2) sound(3) rest 2(7,8)]
      have none: "rowIn p r = None" if "at \<le> p" for p using stays that by (auto simp: rowIn_None)
      have "n > 0" using 2(7) by simp
      have none': "rowIn (p + n) r = None" if "at \<le> p" for p using none[of "p + n"] that \<open>n > 0\<close> by simp
      have later: "\<forall>q \<in> set (closeUp at n rs). runEnd r \<le> rn_at q" using IH sound(2) stays(3) by blast
      have cu: "closeUp at n (r # rs) = r # closeUp at n rs" using stays by simp
      show ?thesis unfolding cu using IH sound(1) later none none' stays pos by (auto simp: heldIn_def split: option.splits)
    qed
  qed simp
  then show "soundRuns (closeUp at n runs)" "rowAmong p (closeUp at n runs) = (if p < at then rowAmong p runs else rowAmong (p + n) runs)"
    "heldIn (closeUp at n runs) \<le> heldIn runs" by blast+
qed

lemma shrankAt_spec:
  assumes "soundRuns (bo_runs s)" "0 \<le> at" "0 < n"
  shows "soundRuns (bo_runs (shrankAt cg at n s))" "rowOf (shrankAt cg at n s) p = (if p < at then rowOf s p else rowOf s (p + n))"
    "spineHeld (shrankAt cg at n s) \<le> spineHeld s"
proof -
  note one = splitRuns_spec[OF assms(1), where at = at]
  note two = splitRuns_spec[OF one(1), where at = "at + n"]
  have apart: "\<forall>r \<in> set (splitRuns (at + n) (splitRuns at (bo_runs s))). at \<le> rn_at r \<or> runEnd r \<le> at" using one(4) two(6) by blast
  note c = closed_up[OF two(1) apart two(4) assms(3,2)]
  have runs: "bo_runs (shrankAt cg at n s) = closeUp at n (splitRuns (at + n) (splitRuns at (bo_runs s)))"
    using assms(2,3) by (simp add: shrankAt_def)
  show "soundRuns (bo_runs (shrankAt cg at n s))" unfolding runs by (rule c(1))
  show "rowOf (shrankAt cg at n s) p = (if p < at then rowOf s p else rowOf s (p + n))" unfolding rowOf_def runs c(2) two(2) one(2) ..
  show "spineHeld (shrankAt cg at n s) \<le> spineHeld s" using c(3) unfolding spineHeld_def runs two(3) one(3) .
qed

lemma forgetFrom_spec:
  assumes "soundRuns (bo_runs s)"
  shows "soundRuns (bo_runs (forgetFrom cg at s))" "rowOf (forgetFrom cg at s) p = (if p < at then rowOf s p else None)"
    "spineHeld (forgetFrom cg at s) \<le> spineHeld s"
proof -
  have keep: "soundRuns (keepAbove at runs) \<and> (\<forall>p. rowAmong p (keepAbove at runs) = (if p < at then rowAmong p runs else None))
      \<and> heldIn (keepAbove at runs) \<le> heldIn runs \<and> (\<forall>b. (\<forall>r \<in> set runs. b \<le> rn_at r) \<longrightarrow> (\<forall>r \<in> set (keepAbove at runs). b \<le> rn_at r))"
    if "soundRuns runs" for runs :: "'a run list"
    using that
  proof (induction at runs rule: keepAbove.induct)
    case (2 at r rs)
    have sound: "okRun r" "\<forall>q \<in> set rs. runEnd r \<le> rn_at q" "soundRuns rs" using 2(4) by simp_all
    have pos: "rn_at r < runEnd r" using sound(1) okRun_pos by blast
    consider (gone) "rn_at r \<ge> at" | (stays) "\<not> rn_at r \<ge> at" "runEnd r \<le> at" | (cut) "\<not> rn_at r \<ge> at" "\<not> runEnd r \<le> at" by blast
    then show ?case
    proof cases
      case gone
      have "p < at \<Longrightarrow> rowIn p r = None" for p using gone by (auto simp: rowIn_None)
      then show ?thesis using 2(1)[OF gone sound(3)] gone by (auto simp: heldIn_def)
    next
      case stays
      have "at \<le> p \<Longrightarrow> rowIn p r = None" for p using stays by (auto simp: rowIn_None)
      then show ?thesis using 2(2)[OF stays sound(3)] stays sound by (auto simp: heldIn_def split: option.splits)
    next
      case cut
      have parts: "rn_at r < at" "at < runEnd r" using cut by simp_all
      note parts = split_parts[OF sound(1) this]
      have rest: "rowAmong p rs = None" if "p < at" for p using that sound(2) cut by (intro rowAmong_before) fastforce
      then have none: "rowAmong p (keepAbove at rs) = None" for p using 2(3)[OF cut sound(3)] by auto
      have "nat (at - rn_at r) \<le> List.length (rn_rows r)" using cut by (simp add: runEnd_def)
      moreover have "\<forall>q \<in> set (keepAbove at rs). at \<le> rn_at q" using 2(3)[OF cut sound(3)] sound(2) cut by fastforce
      ultimately show ?thesis using 2(3)[OF cut sound(3)] cut parts none rest by (auto simp: heldIn_def split: option.splits)
    qed
  qed (simp add: heldIn_def)
  show "soundRuns (bo_runs (forgetFrom cg at s))" using keep[OF assms] by (simp add: forgetFrom_def forgetRuns_def)
  show "spineHeld (forgetFrom cg at s) \<le> spineHeld s" using keep[OF assms] by (simp add: forgetFrom_def forgetRuns_def spineHeld_def) (simp add: heldIn_def)
  have "rowOf s p = None" if "p < 0" for p
    unfolding rowOf_def using that assms by (intro rowAmong_before) (fastforce simp: soundRuns_def okRun_def)
  then show "rowOf (forgetFrom cg at s) p = (if p < at then rowOf s p else None)"
    using keep[OF assms] by (auto simp: forgetFrom_def forgetRuns_def rowOf_def)
qed

lemma forgetRuns_spec: "soundRuns (bo_runs (forgetRuns s))" "rowOf (forgetRuns s) p = None" "spineHeld (forgetRuns s) = 0"
  by (simp_all add: forgetRuns_def rowOf_def spineHeld_def heldIn_def)

subsection \<open>Asking\<close>

lemma rowOf_below: "soundRuns (bo_runs s) \<Longrightarrow> rowOf s p = Some x \<Longrightarrow> 0 \<le> p"
  by (auto simp: rowOf_def rowAmong_Some rowIn_Some soundRuns_def okRun_def)

text \<open>The best row below a position: one pass over the runs, the last row of each that is below.\<close>

lemma lastBefore_spec:
  assumes "soundRuns (bo_runs s)"
  shows "lastBefore at s = None \<longleftrightarrow> (\<forall>p < at. rowOf s p = None)"
    "lastBefore at s = Some (q, v) \<Longrightarrow> 0 \<le> q \<and> q < at \<and> idAt s q = Some v \<and> (\<forall>p. q < p \<longrightarrow> p < at \<longrightarrow> rowOf s p = None)"
proof -
  define pick where "pick = (\<lambda>r :: 'a run. \<lambda>best.
            if rn_at r \<ge> at then best
            else (let end = (if runEnd r > at then at else runEnd r) in
                  if end - 1 > fst best then (end - 1, nm_id (rn_rows r ! nat (end - 1 - rn_at r))) else best))"
  have main: "(let out = fold pick runs best in fst best \<le> fst out
      \<and> (out = best \<or> (0 \<le> fst out \<and> fst out < at \<and> (\<exists>r \<in> set runs. \<exists>x. rowIn (fst out) r = Some x \<and> nm_id x = snd out)))
      \<and> (\<forall>p < at. fst out < p \<longrightarrow> (\<forall>r \<in> set runs. rowIn p r = None)))"
    if "\<forall>r \<in> set runs. okRun r" for runs best
    using that
  proof (induction runs arbitrary: best)
    case (Cons r rs)
    have r: "rn_at r < runEnd r" "0 \<le> rn_at r" using Cons(2) okRun_pos by (auto simp: okRun_def)
    let ?best = "pick r best"
    have step: "fst best \<le> fst ?best" "?best = best \<or> (0 \<le> fst ?best \<and> fst ?best < at \<and> (\<exists>x. rowIn (fst ?best) r = Some x \<and> nm_id x = snd ?best))"
      "\<forall>p < at. fst ?best < p \<longrightarrow> rowIn p r = None"
      using r by (auto simp: pick_def Let_def rowIn_def)
    have IH: "let out = fold pick rs ?best in fst ?best \<le> fst out
      \<and> (out = ?best \<or> (0 \<le> fst out \<and> fst out < at \<and> (\<exists>r \<in> set rs. \<exists>x. rowIn (fst out) r = Some x \<and> nm_id x = snd out)))
      \<and> (\<forall>p < at. fst out < p \<longrightarrow> (\<forall>r \<in> set rs. rowIn p r = None))" using Cons by simp
    show ?case using IH step unfolding Let_def by (simp del: split_paired_All) (smt (verit, best))
  qed (simp add: Let_def)
  have ok: "\<forall>r \<in> set (bo_runs s). okRun r" using assms by (simp add: soundRuns_def)
  define out where "out = fold pick (bo_runs s) (-1, None)"
  have lb: "lastBefore at s = (if fst out < 0 then None else Some out)" unfolding lastBefore_def out_def pick_def Let_def ..
  have M: "-1 \<le> fst out" "out = (-1, None) \<or> (0 \<le> fst out \<and> fst out < at \<and> (\<exists>r \<in> set (bo_runs s). \<exists>x. rowIn (fst out) r = Some x \<and> nm_id x = snd out))"
    "\<And>p r. p < at \<Longrightarrow> fst out < p \<Longrightarrow> r \<in> set (bo_runs s) \<Longrightarrow> rowIn p r = None"
    using main[OF ok, of "(-1, None)"] unfolding Let_def out_def[symmetric] by auto
  have M3: "rowOf s p = None" if "p < at" "fst out < p" for p
  proof (rule ccontr)
    assume "rowOf s p \<noteq> None"
    then obtain x where "rowOf s p = Some x" by blast
    then obtain r where "r \<in> set (bo_runs s)" "rowIn p r = Some x" using rowAmong_Some[OF assms] by (auto simp: rowOf_def)
    then show False using M(3)[OF that] by simp
  qed
  have neg: "rowOf s p = None" if "p < 0" for p using rowOf_below[OF assms] that by (metis not_le option.exhaust)
  show "lastBefore at s = Some (q, v) \<Longrightarrow> 0 \<le> q \<and> q < at \<and> idAt s q = Some v \<and> (\<forall>p. q < p \<longrightarrow> p < at \<longrightarrow> rowOf s p = None)"
    using M(1,2) M3 rowAmong_Some[OF assms] by (auto simp: lb idAt_def rowOf_def split: if_splits)
  show "lastBefore at s = None \<longleftrightarrow> (\<forall>p < at. rowOf s p = None)"
  proof
    assume "lastBefore at s = None"
    then have "fst out < 0" by (simp add: lb split: if_splits)
    then show "\<forall>p < at. rowOf s p = None" using M3 neg by (metis not_le order.strict_trans1)
  next
    assume none: "\<forall>p < at. rowOf s p = None"
    have "\<not> 0 \<le> fst out"
    proof
      assume "0 \<le> fst out"
      then obtain r x where "fst out < at" "r \<in> set (bo_runs s)" "rowIn (fst out) r = Some x" using M(2) by auto
      then have "rowOf s (fst out) = Some x" using rowAmong_Some[OF assms] by (auto simp: rowOf_def)
      then show False using none \<open>fst out < at\<close> by simp
    qed
    then show "lastBefore at s = None" by (simp add: lb)
  qed
qed

lemma indexOfKey_spec:
  "indexOfKey key want i xs = Some p \<Longrightarrow> i \<le> p \<and> p < i + int (List.length xs) \<and> (\<exists>w. nm_id (xs ! nat (p - i)) = Some w \<and> key w = want)"
  "indexOfKey key want i xs = None \<Longrightarrow> x \<in> set xs \<Longrightarrow> nm_id x = Some w \<Longrightarrow> key w \<noteq> want"
proof -
  show "indexOfKey key want i xs = Some p \<Longrightarrow> i \<le> p \<and> p < i + int (List.length xs) \<and> (\<exists>w. nm_id (xs ! nat (p - i)) = Some w \<and> key w = want)"
  proof (induction key want i xs rule: indexOfKey.induct)
    case (2 key want i x xs)
    have shift: "xs ! nat (p - (i + 1)) = (x # xs) ! nat (p - i)" if "i + 1 \<le> p"
    proof -
      have "nat (p - i) = Suc (nat (p - (i + 1)))" using that by simp
      then show ?thesis by simp
    qed
    show ?case using 2 shift by (auto split: option.splits if_splits)
  qed simp
  show "indexOfKey key want i xs = None \<Longrightarrow> x \<in> set xs \<Longrightarrow> nm_id x = Some w \<Longrightarrow> key w \<noteq> want"
    by (induction key want i xs rule: indexOfKey.induct) (auto split: option.splits if_splits)
qed

lemma posOf_spec:
  assumes "soundRuns (bo_runs s)"
  shows "posOf key (Some v) s = Some p \<Longrightarrow> \<exists>w. idAt s p = Some (Some w) \<and> key w = key v"
    "posOf key (Some v) s = None \<Longrightarrow> idAt s p = Some (Some w) \<Longrightarrow> key w \<noteq> key v"
proof -
  have found: "posAmong key want runs = Some p \<Longrightarrow> \<exists>r \<in> set runs. \<exists>x w. rowIn p r = Some x \<and> nm_id x = Some w \<and> key w = want" for want and runs :: "'a run list"
  proof (induction key want runs rule: posAmong.induct)
    case (2 key want r rs)
    show ?case
    proof (cases "indexOfKey key want (rn_at r) (rn_rows r)")
      case None
      then show ?thesis using 2 by fastforce
    next
      case (Some q)
      then have "q = p" using 2(2) by simp
      then show ?thesis using indexOfKey_spec(1)[OF Some] by (auto simp: rowIn_Some runEnd_def)
    qed
  qed simp
  have lost: "posAmong key want runs = None \<Longrightarrow> r \<in> set runs \<Longrightarrow> rowIn p r = Some x \<Longrightarrow> nm_id x = Some w \<Longrightarrow> key w \<noteq> want" for want r x and runs :: "'a run list"
    by (induction key want runs rule: posAmong.induct)
       (auto split: option.splits dest!: indexOfKey_spec(2) simp: rowIn_Some runEnd_def)
  show "posOf key (Some v) s = Some p \<Longrightarrow> \<exists>w. idAt s p = Some (Some w) \<and> key w = key v"
    using found[of "key v" "bo_runs s"] rowAmong_Some[OF assms] by (fastforce simp: posOf_def idAt_def rowOf_def)
  show "posOf key (Some v) s = None \<Longrightarrow> idAt s p = Some (Some w) \<Longrightarrow> key w \<noteq> key v"
    using lost[of "key v" "bo_runs s"] rowAmong_Some[OF assms] by (fastforce simp: posOf_def idAt_def rowOf_def)
qed

subsection \<open>Following a sequence\<close>

text \<open>What a holder of positions promises: a row put down is the row it answers there, and what opens, closes or is lost
  in the sequence moves what it knows by as much and leaves what is above alone.\<close>

definition follows :: "(int \<Rightarrow> 'r option) \<Rightarrow> 'r list \<Rightarrow> bool" where
  "follows known seq \<longleftrightarrow> (\<forall>p x. known p = Some x \<longrightarrow> 0 \<le> p \<and> p < int (List.length seq) \<and> x = seq ! nat p)"

lemma nth_opened:
  assumes "a + List.length new \<le> k" "a \<le> List.length seq"
  shows "(take a seq @ new @ drop a seq) ! k = seq ! (k - List.length new)"
proof -
  have "\<not> k < a" "\<not> k - a < List.length new" "a + (k - a - List.length new) = k - List.length new" using assms(1) by linarith+
  moreover have "List.length (take a seq) = a" using assms(2) by simp
  ultimately show ?thesis using assms(2) by (simp only: nth_append nth_drop if_False)
qed

lemma nth_closed:
  assumes "a \<le> k" "a + n \<le> List.length seq"
  shows "(take a seq @ drop (a + n) seq) ! k = seq ! (k + n)"
proof -
  have "\<not> k < a" "a + n + (k - a) = k + n" using assms(1) by linarith+
  moreover have "List.length (take a seq) = a" using assms(2) by simp
  ultimately show ?thesis using assms(2) by (simp only: nth_append nth_drop if_False)
qed

locale positions =
  fixes known :: "'s \<Rightarrow> int \<Rightarrow> 'r option" and wf :: "'s \<Rightarrow> bool" and put :: "int \<Rightarrow> 'r list \<Rightarrow> 's \<Rightarrow> 's"
    and opened closed :: "int \<Rightarrow> int \<Rightarrow> 's \<Rightarrow> 's" and lost :: "int \<Rightarrow> 's \<Rightarrow> 's"
  assumes put_known: "wf s \<Longrightarrow> 0 \<le> at \<Longrightarrow> rs \<noteq> [] \<Longrightarrow> known (put at rs s) p = Some x \<Longrightarrow>
      if at \<le> p \<and> p < at + int (List.length rs) then x = rs ! nat (p - at) else known s p = Some x"
    and opened_known: "wf s \<Longrightarrow> 0 \<le> at \<Longrightarrow> 0 < n \<Longrightarrow> known (opened at n s) p = (if p < at then known s p else if p < at + n then None else known s (p - n))"
    and closed_known: "wf s \<Longrightarrow> 0 \<le> at \<Longrightarrow> 0 < n \<Longrightarrow> known (closed at n s) p = (if p < at then known s p else known s (p + n))"
    and lost_known: "wf s \<Longrightarrow> known (lost at s) p = (if p < at then known s p else None)"
begin

lemma put_follows:
  assumes "wf s" "follows (known s) seq" "0 \<le> at" "rs \<noteq> []" "rs = take (List.length rs) (drop (nat at) seq)"
  shows "follows (known (put at rs s)) seq"
  unfolding follows_def
proof (intro allI impI)
  fix p x assume k: "known (put at rs s) p = Some x"
  have len: "nat at + List.length rs \<le> List.length seq" using assms(4,5) by (metis List.length_greater_0_conv add.commute le_diff_conv length_drop length_take
        less_imp_le min.cobounded1 min_def not_less take_eq_Nil2 drop_eq_Nil2 linorder_le_cases le_add_diff_inverse nat_add_left_cancel_le)
  show "0 \<le> p \<and> p < int (List.length seq) \<and> x = seq ! nat p"
  proof (cases "at \<le> p \<and> p < at + int (List.length rs)")
    case True
    then have x: "x = rs ! nat (p - at)" using put_known[OF assms(1,3,4) k] by simp
    have i: "nat (p - at) < List.length rs" "nat at + nat (p - at) = nat p" using True assms(3) by linarith+
    have "rs ! nat (p - at) = seq ! nat p" using i len by (subst assms(5)) (simp add: nth_drop)
    moreover have "p < int (List.length seq)" "0 \<le> p" using True assms(3) len by linarith+
    ultimately show ?thesis using x by simp
  next
    case False then show ?thesis using put_known[OF assms(1,3,4) k] assms(2) by (simp add: follows_def)
  qed
qed

lemma opened_follows:
  assumes "wf s" "follows (known s) seq" "0 \<le> at" "at \<le> int (List.length seq)" "new \<noteq> []"
  shows "follows (known (opened at (int (List.length new)) s)) (take (nat at) seq @ new @ drop (nat at) seq)"
  unfolding follows_def
proof (intro allI impI)
  have n: "0 < int (List.length new)" using assms(5) by simp
  fix p x assume k: "known (opened at (int (List.length new)) s) p = Some x"
  note k = k[unfolded opened_known[OF assms(1,3) n]]
  show "0 \<le> p \<and> p < int (List.length (take (nat at) seq @ new @ drop (nat at) seq)) \<and> x = (take (nat at) seq @ new @ drop (nat at) seq) ! nat p"
  proof (cases "p < at")
    case True
    then have p: "0 \<le> p" "x = seq ! nat p" using k assms(2) by (auto simp: follows_def)
    then show ?thesis using True assms(3,4) by (simp add: nth_append)
  next
    case False
    then have far: "at + int (List.length new) \<le> p" "known s (p - int (List.length new)) = Some x" using k by (auto split: if_splits)
    then have p: "p - int (List.length new) < int (List.length seq)" "x = seq ! nat (p - int (List.length new))" using assms(2) by (auto simp: follows_def)
    have "nat (p - int (List.length new)) = nat p - List.length new" "nat at + List.length new \<le> nat p" "nat at \<le> List.length seq" using far(1) assms(3,4) by linarith+
    then show ?thesis using p far(1) assms(3) nth_opened[of "nat at" new "nat p" seq] by simp
  qed
qed

lemma closed_follows:
  assumes "wf s" "follows (known s) seq" "0 \<le> at" "0 < n" "at + n \<le> int (List.length seq)"
  shows "follows (known (closed at n s)) (take (nat at) seq @ drop (nat (at + n)) seq)"
  unfolding follows_def
proof (intro allI impI)
  fix p x assume k: "known (closed at n s) p = Some x"
  note k = k[unfolded closed_known[OF assms(1,3,4)]]
  show "0 \<le> p \<and> p < int (List.length (take (nat at) seq @ drop (nat (at + n)) seq)) \<and> x = (take (nat at) seq @ drop (nat (at + n)) seq) ! nat p"
  proof (cases "p < at")
    case True
    then have p: "0 \<le> p" "x = seq ! nat p" using k assms(2) by (auto simp: follows_def)
    then show ?thesis using True assms(3-5) by (simp add: nth_append)
  next
    case False
    then have p: "p + n < int (List.length seq)" "x = seq ! nat (p + n)" using k assms(2) by (auto simp: follows_def)
    have "nat (p + n) = nat p + nat n" "nat (at + n) = nat at + nat n" "nat at \<le> nat p" "nat at + nat n \<le> List.length seq" using False assms(3-5) by linarith+
    then show ?thesis using p False assms(3,4) nth_closed[of "nat at" "nat p" "nat n" seq] by simp
  qed
qed

lemma lost_follows:
  assumes "wf s" "follows (known s) seq" "take (nat at) seq' = take (nat at) seq"
  shows "follows (known (lost at s)) seq'"
  unfolding follows_def lost_known[OF assms(1)]
proof (intro allI impI)
  fix p x assume "(if p < at then known s p else None) = Some x"
  then have p: "p < at" "0 \<le> p" "p < int (List.length seq)" "x = seq ! nat p" using assms(2) by (auto simp: follows_def split: if_splits)
  have i: "nat p < nat at" using p by simp
  have "nat p < List.length (take (nat at) seq)" using p i by simp
  then have "nat p < List.length seq'" using assms(3) by (metis length_take min_less_iff_conj)
  moreover have "seq' ! nat p = seq ! nat p" using i assms(3) by (metis nth_take)
  ultimately show "0 \<le> p \<and> p < int (List.length seq') \<and> x = seq' ! nat p" using p by simp
qed

end

interpretation bones: positions rowOf "\<lambda>s. soundRuns (bo_runs s)" place "grewAt cg" "shrankAt cg" "forgetFrom cg"
  by unfold_locales (rule place_spec(3) grewAt_spec(2) shrankAt_spec(2) forgetFrom_spec(2); assumption)+

subsection \<open>What may happen to a view\<close>

text \<open>What the documentation of the module says of counts: none known, a floor, and the one that says nothing.\<close>

definition countingDocumented :: "counting \<Rightarrow> bool" where
  "countingDocumented cg \<longleftrightarrow> (\<forall>c. cg_Nothing cg c \<longleftrightarrow> rc_N c = 0 \<and> \<not> rc_Exact c)
     \<and> cg_Unknown cg = \<lparr>rc_N = 0, rc_Exact = False\<rparr> \<and> (\<forall>n. cg_AtLeast cg n = \<lparr>rc_N = n, rc_Exact = False\<rparr>)"

definition countHolds :: "RecordCount \<Rightarrow> 'r list \<Rightarrow> bool" where
  "countHolds c seq \<longleftrightarrow> (if rc_Exact c then rc_N c = int (List.length seq) else 0 \<le> rc_N c \<and> rc_N c \<le> int (List.length seq))"

text \<open>The sequence as it is and what a view holds of it: a stretch of it is told, its count is told, something opens or
  closes in it, everything from a place on changes, or the rows move about.\<close>

inductive moves :: "counting \<Rightarrow> 'v namedRow list \<times> 'v spine \<Rightarrow> 'v namedRow list \<times> 'v spine \<Rightarrow> bool" for cg where
  Told: "0 \<le> at \<Longrightarrow> rs \<noteq> [] \<Longrightarrow> rs = take (List.length rs) (drop (nat at) seq) \<Longrightarrow> moves cg (seq, s) (seq, place at rs s)"
| Counted: "countHolds c seq \<Longrightarrow> moves cg (seq, s) (seq, learn cg c s)"
| Opened: "0 \<le> at \<Longrightarrow> at \<le> int (List.length seq) \<Longrightarrow> new \<noteq> [] \<Longrightarrow>
    moves cg (seq, s) (take (nat at) seq @ new @ drop (nat at) seq, grewAt cg at (int (List.length new)) s)"
| Closed: "0 \<le> at \<Longrightarrow> 0 < n \<Longrightarrow> at + n \<le> int (List.length seq) \<Longrightarrow> moves cg (seq, s) (take (nat at) seq @ drop (nat (at + n)) seq, shrankAt cg at n s)"
| ChangedFrom: "take (nat at) seq' = take (nat at) seq \<Longrightarrow> at \<le> int (List.length seq') \<Longrightarrow> moves cg (seq, s) (seq', forgetFrom cg at s)"
| Moved: "List.length seq' = List.length seq \<Longrightarrow> moves cg (seq, s) (seq', forgetRuns s)"

inductive_cases movesE: "moves cg (seq, s) (seq', s')"

definition trueTo :: "'v namedRow list \<times> 'v spine \<Rightarrow> bool" where
  "trueTo = (\<lambda>(seq, s). soundRuns (bo_runs s) \<and> follows (rowOf s) seq \<and> countHolds (bo_total s) seq \<and> spineHeld s \<le> spineKept)"

lemma learn_runs [simp]: "bo_runs (learn cg c s) = bo_runs s" "rowOf (learn cg c s) = rowOf s" "spineHeld (learn cg c s) = spineHeld s"
  by (auto simp: learn_def rowOf_def spineHeld_def)

lemma moves_trueTo:
  assumes "moves cg a b" "countingDocumented cg" "trueTo a"
  shows "trueTo b"
  using assms(1,3)
proof (cases rule: moves.cases)
  case (Told at rs seq s)
  then show ?thesis using assms(3) place_spec(1,2)[of s at rs] bones.put_follows[of s seq at rs]
    by (simp add: trueTo_def) (simp add: place_def trim_def split: prod.split)
next
  case (Counted c seq s)
  then show ?thesis using assms(3) by (simp add: trueTo_def) (simp add: learn_def)
next
  case (Opened at seq new s)
  have n: "0 < int (List.length new)" using Opened(5) by simp
  have "bo_total (grewAt cg at (int (List.length new)) s) = (if \<not> cg_Nothing cg (bo_total s) then (bo_total s)\<lparr>rc_N := rc_N (bo_total s) + int (List.length new)\<rparr> else bo_total s)"
    using Opened(3) n by (simp add: grewAt_def)
  moreover have "cg_Nothing cg c \<longleftrightarrow> rc_N c = 0 \<and> \<not> rc_Exact c" for c using assms(2) by (simp add: countingDocumented_def)
  ultimately show ?thesis using assms(3) Opened grewAt_spec[OF _ Opened(3) n, of s cg] bones.opened_follows[of s seq at new cg]
    by (auto simp: trueTo_def countHolds_def)
next
  case (Closed at n seq s)
  have "bo_total (shrankAt cg at n s) = (if \<not> cg_Nothing cg (bo_total s)
      then (bo_total s)\<lparr>rc_N := (if rc_N (bo_total s) - n < 0 then 0 else rc_N (bo_total s) - n)\<rparr> else bo_total s)"
    using Closed(3,4) by (simp add: shrankAt_def)
  moreover have "cg_Nothing cg c \<longleftrightarrow> rc_N c = 0 \<and> \<not> rc_Exact c" for c using assms(2) by (simp add: countingDocumented_def)
  moreover have "spineHeld (shrankAt cg at n s) \<le> spineKept" using assms(3) Closed shrankAt_spec(3)[OF _ Closed(3,4), of s cg] by (auto simp: trueTo_def)
  ultimately show ?thesis using assms(3) Closed shrankAt_spec(1)[OF _ Closed(3,4), of s cg] bones.closed_follows[of s seq at n cg]
    by (auto simp: trueTo_def countHolds_def)
next
  case (ChangedFrom at seq' seq s)
  have "bo_total (forgetFrom cg at s) = \<lparr>rc_N = max 0 at, rc_Exact = False\<rparr>"
    using assms(2) by (auto simp: forgetFrom_def forgetRuns_def countingDocumented_def)
  then show ?thesis using assms(3) ChangedFrom forgetFrom_spec(1,3)[of s cg at] bones.lost_follows[of s seq at seq' cg]
    by (auto simp: trueTo_def countHolds_def)
next
  case (Moved seq' seq s)
  then show ?thesis using assms(3) forgetRuns_spec[of s] by (simp add: trueTo_def follows_def) (simp add: forgetRuns_def countHolds_def)
qed

text \<open>C11. A view never lies about where rows are: from an empty spine, whatever is told of the sequence in whatever pieces and
  however it opens, closes and changes, every row the spine names stands at that position of the sequence as it is now,
  the length it gives is the sequence's or no more than it, and it holds no more than it may.\<close>

theorem spine_never_lies:
  assumes "countingDocumented cg" "(moves cg)\<^sup>*\<^sup>* (seq0, \<lparr>bo_runs = [], bo_total = \<lparr>rc_N = 0, rc_Exact = False\<rparr>, bo_anchor = 0\<rparr>) (seq, s)"
  shows "(\<forall>p v. idAt s p = Some v \<longrightarrow> 0 \<le> p \<and> p < int (List.length seq) \<and> v = nm_id (seq ! nat p) \<and> deepAt s p = Some (nm_deep (seq ! nat p)))
    \<and> countHolds (bo_total s) seq \<and> spineHeld s \<le> spineKept"
proof -
  have "trueTo (seq, s)" using assms(2)
  proof (induction rule: rtranclp_induct2)
    case refl
    show ?case by (simp add: trueTo_def follows_def rowOf_def countHolds_def spineHeld_def heldIn_def)
  next
    case (step seq s seq' s')
    then show ?case using moves_trueTo[OF _ assms(1)] by blast
  qed
  then show ?thesis by (auto simp: trueTo_def follows_def idAt_def deepAt_def)
qed

text \<open>What is placed is there: after a stretch of no more rows than a spine keeps has been placed, every one of its
  positions answers its row, what else answers answers as before, no more is held than may be, and the nearest row
  below a position is the nearest that is held.\<close>

theorem place_is_remembered:
  assumes "soundRuns (bo_runs s)" "0 \<le> at" "rs \<noteq> []" "List.length rs \<le> spineKept"
  shows "soundRuns (bo_runs (place at rs s)) \<and> spineHeld (place at rs s) \<le> spineKept
    \<and> (\<forall>p. at \<le> p \<and> p < at + int (List.length rs) \<longrightarrow> idAt (place at rs s) p = Some (nm_id (rs ! nat (p - at))))
    \<and> (\<forall>p v. \<not> (at \<le> p \<and> p < at + int (List.length rs)) \<longrightarrow> idAt (place at rs s) p = Some v \<longrightarrow> idAt s p = Some v)
    \<and> lastBefore (at + int (List.length rs)) (place at rs s) = Some (at + int (List.length rs) - 1, nm_id (last rs))"
proof -
  let ?s = "place at rs s" and ?to = "at + int (List.length rs)"
  note P = place_spec[OF assms(1-3)]
  have here: "idAt ?s p = Some (nm_id (rs ! nat (p - at)))" if "at \<le> p" "p < ?to" for p using P(4)[OF assms(4) that] by (simp add: idAt_def)
  have n: "0 < List.length rs" using assms(3) by simp
  have "nat (?to - 1 - at) = List.length rs - 1" by simp
  then have end': "idAt ?s (?to - 1) = Some (nm_id (last rs))" using here[of "?to - 1"] n assms(3) by (simp add: last_conv_nth)
  obtain q v where qv: "lastBefore ?to ?s = Some (q, v)"
    using lastBefore_spec(1)[OF P(1), of ?to] end' by (cases "lastBefore ?to ?s") (auto simp: idAt_def dest!: spec[of _ "?to - 1"])
  then have "q = ?to - 1" using lastBefore_spec(2)[OF P(1) qv] end' by (cases "q < ?to - 1") (auto simp: idAt_def)
  then have "lastBefore ?to ?s = Some (?to - 1, nm_id (last rs))" using lastBefore_spec(2)[OF P(1) qv] qv end' by simp
  moreover have "idAt s p = Some v" if "\<not> (at \<le> p \<and> p < ?to)" "idAt ?s p = Some v" for p v
    using that P(3)[of p] by (auto simp: idAt_def split: if_splits)
  ultimately show ?thesis using P(1,2) here by blast
qed

subsection \<open>Examples\<close>

definition documentedCounts :: counting where
  "documentedCounts = \<lparr>cg_Nothing = (\<lambda>c. rc_N c = 0 \<and> \<not> rc_Exact c), cg_Unknown = \<lparr>rc_N = 0, rc_Exact = False\<rparr>, cg_AtLeast = (\<lambda>n. \<lparr>rc_N = n, rc_Exact = False\<rparr>)\<rparr>"

lemma documentedCounts_ok: "countingDocumented documentedCounts" by (simp add: countingDocumented_def documentedCounts_def)

definition rowsFrom :: "int \<Rightarrow> nat \<Rightarrow> int namedRow list" where
  "rowsFrom k n = map (\<lambda>i. \<lparr>nm_id = Some (k + int i), nm_deep = 0\<rparr>) [0..<n]"

definition bare :: "int spine" where "bare = \<lparr>bo_runs = [], bo_total = \<lparr>rc_N = 0, rc_Exact = False\<rparr>, bo_anchor = 0\<rparr>"

lemma example_opened: "map (idAt (grewAt documentedCounts 2 3 (place 0 (rowsFrom 0 4) bare))) [1, 2, 4, 5, 6, 7] = [Some (Some 1), None, None, Some (Some 2), Some (Some 3), None]"
  by code_simp

theorem spine_never_lies_witness:
  "idAt (grewAt documentedCounts 2 3 (place 0 (rowsFrom 0 4) bare)) 5 = Some (Some 2)
   \<and> (take 2 (rowsFrom 0 9) @ rowsFrom 90 3 @ drop 2 (rowsFrom 0 9)) ! 5 = \<lparr>nm_id = Some 2, nm_deep = 0\<rparr>
   \<and> spineHeld (grewAt documentedCounts 2 3 (place 0 (rowsFrom 0 4) bare)) \<le> spineKept"
proof -
  let ?one = "place 0 (rowsFrom 0 4) bare" and ?new = "take (nat 2) (rowsFrom 0 9) @ rowsFrom 90 3 @ drop (nat 2) (rowsFrom 0 9)"
  have "moves documentedCounts (rowsFrom 0 9, bare) (rowsFrom 0 9, ?one)" by (rule moves.Told) (simp_all add: rowsFrom_def upt_rec)
  moreover have "moves documentedCounts (rowsFrom 0 9, ?one) (?new, grewAt documentedCounts 2 (int (List.length (rowsFrom 90 3))) ?one)"
    by (rule moves.Opened) (simp_all add: rowsFrom_def upt_rec)
  ultimately have run: "(moves documentedCounts)\<^sup>*\<^sup>* (rowsFrom 0 9, \<lparr>bo_runs = [], bo_total = \<lparr>rc_N = 0, rc_Exact = False\<rparr>, bo_anchor = 0\<rparr>) (?new, grewAt documentedCounts 2 3 ?one)"
    by (simp add: bare_def rowsFrom_def)
  have "idAt (grewAt documentedCounts 2 3 ?one) 5 = Some (Some 2)" by code_simp
  moreover have "?new ! 5 = \<lparr>nm_id = Some 2, nm_deep = 0\<rparr>" by code_simp
  ultimately show ?thesis using spine_never_lies[OF documentedCounts_ok run] by simp
qed

theorem place_is_remembered_witness: "idAt (place 3 (rowsFrom 7 2) (place 0 (rowsFrom 0 4) bare)) 4 = Some (Some 8)
    \<and> lastBefore 5 (place 3 (rowsFrom 7 2) (place 0 (rowsFrom 0 4) bare)) = Some (4, Some 8)"
proof -
  have "soundRuns (bo_runs (place 0 (rowsFrom 0 4) bare))"
    using place_spec(1)[of bare 0 "rowsFrom 0 4"] by (simp add: bare_def rowsFrom_def upt_rec)
  then show ?thesis using place_is_remembered[of "place 0 (rowsFrom 0 4) bare" 3 "rowsFrom 7 2"]
    by (simp add: rowsFrom_def upt_rec spineKept_def)
qed

end
