(* ===== verification/ListRows.thy ===== *)
theory ListRows
  imports SpineFacts "HOL-Library.AList" "HOL-Library.Word" "HOL-Library.List_Lexorder" "HOL-Library.Char_ord"
begin

text \<open>
  A list of rows (\<open>objects/trinkets/listview.go\<close>, \<open>listsource.go\<close>, \<open>listselect.go\<close>, \<open>listchoice.go\<close>, \<open>listdrag.go\<close>):
  what it asks its sequence for, what it makes of an answer, the current row as a position and an identity, and which rows
  are chosen. The sequence belongs to the module \<open>serval\<close> and is a parameter, the made one of a list reading its own items
  as much as a declared one; what a row holds and how it is drawn are left out.
\<close>

subsection \<open>Which rows are chosen\<close>

text \<open>The map from an identity's key to the identity, as a list with one entry for each key.\<close>

record 'v selection =
  sl_all :: bool
  sl_named :: "(string \<times> 'v) list"

text \<open>What is taken of identities: the key, and the whole numbers among them.\<close>

record 'v identities =
  id_Key :: "'v \<Rightarrow> string"
  id_Int :: "'v \<Rightarrow> int option"
  id_NewInt :: "int \<Rightarrow> 'v"

definition chooseNone :: "'v selection" where "chooseNone = \<lparr>sl_all = False, sl_named = []\<rparr>"
definition everything :: "'v selection" where "everything = \<lparr>sl_all = True, sl_named = []\<rparr>"

definition chooseRow :: "'v identities \<Rightarrow> 'v option \<Rightarrow> bool \<Rightarrow> 'v selection \<Rightarrow> 'v selection" where
  "chooseRow ids v on s =
     (case v of
        None \<Rightarrow> s
      | Some v \<Rightarrow>
          if on = sl_all s then s\<lparr>sl_named := AList.delete (id_Key ids v) (sl_named s)\<rparr>
          else s\<lparr>sl_named := AList.update (id_Key ids v) v (sl_named s)\<rparr>)"

definition only :: "'v identities \<Rightarrow> 'v option \<Rightarrow> 'v selection" where "only ids v = chooseRow ids v True chooseNone"

definition isChosen :: "'v identities \<Rightarrow> 'v option \<Rightarrow> 'v selection \<Rightarrow> bool" where
  "isChosen ids v s =
     (case v of None \<Rightarrow> sl_all s | Some v \<Rightarrow> (map_of (sl_named s) (id_Key ids v) \<noteq> None) \<noteq> sl_all s)"

definition nothingChosen :: "'v selection \<Rightarrow> bool" where "nothingChosen s \<longleftrightarrow> \<not> sl_all s \<and> sl_named s = []"

definition namedIds :: "'v selection \<Rightarrow> 'v list" where "namedIds s = map snd (sort_key fst (sl_named s))"

definition renumber :: "'v identities \<Rightarrow> int \<Rightarrow> int \<Rightarrow> 'v \<Rightarrow> 'v" where
  "renumber ids at by' v = (case id_Int ids v of Some i \<Rightarrow> if i \<ge> at then id_NewInt ids (i + by') else v | None \<Rightarrow> v)"

definition shift :: "'v identities \<Rightarrow> int \<Rightarrow> int \<Rightarrow> 'v selection \<Rightarrow> 'v selection" where
  "shift ids at by' s =
     (if sl_named s = [] then s
      else s\<lparr>sl_named := fold (\<lambda>(k, v) moved. AList.update (id_Key ids (renumber ids at by' v)) (renumber ids at by' v) moved) (sl_named s) []\<rparr>)"

definition dropChosen :: "'v identities \<Rightarrow> 'v \<Rightarrow> 'v selection \<Rightarrow> 'v selection" where
  "dropChosen ids v s = s\<lparr>sl_named := AList.delete (id_Key ids v) (sl_named s)\<rparr>"

subsection \<open>Asking a sequence\<close>

record 'v ask =
  ak_Count :: int
  ak_From :: int
  ak_After :: "'v option"

text \<open>What an answer said by the time it was done: the rows in order, where it began (said with the last place, or at the
  end), how long the sequence is, how it stopped and what was wrong.\<close>

record 'v answer =
  an_rows :: "'v option list"
  an_begin :: RecordCount
  an_First :: RecordCount
  an_Total :: RecordCount
  an_Stop :: string
  an_Error :: string

text \<open>A stated sequence: how long it says it is, and what a read comes to: refused outright, answered
  inside the call, or \<open>None\<close> for an answer still to come.\<close>

record 'v dataset =
  ds_Count :: RecordCount
  ds_Read :: "'v ask \<Rightarrow> string + 'v answer option"

datatype SelectionMode = SingleSelection | MultiSelection | ExtendedSelection | NoSelection

datatype listSaid = CurrentChanged int | SelectionChanged | Refused string int | Untroubled

record 'v listview =
  lv_items :: "string list"
  lv_declared :: bool
  lv_bones :: "'v spine"
  lv_asks :: "64 word"
  lv_walks :: bool
  lv_currentIndex :: int
  lv_currentID :: "'v option"
  lv_mode :: SelectionMode
  lv_chosen :: "'v selection"
  lv_waiting :: "('v ask \<times> 64 word) list"
  lv_said :: "listSaid list"

text \<open>What the list is given of the module: identities, counts, and the sequence opened on a declared source or on its own
  items. A made source is made again after its items have changed, when something reads.\<close>

record 'v world =
  wd_ids :: "'v identities"
  wd_counting :: counting
  wd_Exactly :: "int \<Rightarrow> RecordCount"
  wd_Open :: "bool \<Rightarrow> string list \<Rightarrow> string + 'v dataset"

definition say :: "listSaid \<Rightarrow> 'v listview \<Rightarrow> 'v listview" where "say m l = l\<lparr>lv_said := lv_said l @ [m]\<rparr>"

definition sequence :: "'v world \<Rightarrow> 'v listview \<Rightarrow> 'v dataset option \<times> 'v listview" where
  "sequence w l = (case wd_Open w (lv_declared l) (lv_items l) of Inl e \<Rightarrow> (None, say (Refused e (-1)) l) | Inr data \<Rightarrow> (Some data, l))"

definition CountRows :: "'v world \<Rightarrow> 'v listview \<Rightarrow> int \<times> 'v listview" where
  "CountRows w l =
     (case sequence w l of
        (None, l) \<Rightarrow> (0, l)
      | (Some data, l) \<Rightarrow> (let b = learn (wd_counting w) (ds_Count data) (lv_bones l) in (spineRows b, l\<lparr>lv_bones := b\<rparr>)))"

definition spineHolds :: "int \<Rightarrow> int \<Rightarrow> 'v listview \<Rightarrow> bool" where
  "spineHolds at n l \<longleftrightarrow> list_all (\<lambda>i. idAt (lv_bones l) (at + int i) \<noteq> None) [0..<nat n]"

definition setCurrent :: "int \<Rightarrow> 'v option \<Rightarrow> 'v listview \<Rightarrow> 'v listview" where
  "setCurrent index v l = l\<lparr>lv_currentIndex := index, lv_currentID := v\<rparr>"

definition resolve :: "'v world \<Rightarrow> 'v listview \<Rightarrow> 'v listview" where
  "resolve w l =
     (if lv_currentIndex l \<ge> 0 \<and> lv_currentID l = None
      then (case idAt (lv_bones l) (lv_currentIndex l) of Some v \<Rightarrow> l\<lparr>lv_currentID := v\<rparr> | None \<Rightarrow> l)
      else if lv_currentIndex l < 0 \<and> lv_currentID l \<noteq> None
      then (case posOf (id_Key (wd_ids w)) (lv_currentID l) (lv_bones l) of
              Some at \<Rightarrow> (let l = l\<lparr>lv_currentIndex := at\<rparr> in
                 if lv_mode l = SingleSelection then l\<lparr>lv_chosen := only (wd_ids w) (lv_currentID l)\<rparr> else l)
            | None \<Rightarrow> l)
      else l)"

definition settledList :: "'v world \<Rightarrow> 'v listview \<Rightarrow> 'v listview" where
  "settledList w l =
     (if lv_currentIndex l < 0 \<and> lv_currentID l \<noteq> None \<and> posOf (id_Key (wd_ids w)) (lv_currentID l) (lv_bones l) = None
      then say (CurrentChanged (-1)) (l\<lparr>lv_currentID := None\<rparr>) else l)"

text \<open>What an answer comes to, given where the list expected it, which ask it answers and whether that ask named a position.\<close>

definition settleList :: "'v world \<Rightarrow> int \<Rightarrow> 64 word \<Rightarrow> bool \<Rightarrow> 'v answer \<Rightarrow> 'v listview \<Rightarrow> 'v listview" where
  "settleList w expected asked positional a l0 =
     (let l = l0\<lparr>lv_bones := learn (wd_counting w) (an_Total a) (lv_bones l0)\<rparr> in
      if asked \<noteq> lv_asks l then l
      else
        (let l = (if positional \<and> rc_Exact (an_First a) \<and> rc_N (an_First a) \<noteq> expected then l\<lparr>lv_walks := True\<rparr> else l);
             first = an_First a;
             first = (if \<not> rc_Exact first then an_begin a else first);
             first = (if \<not> rc_Exact first then wd_Exactly w expected else first);
             named = map (\<lambda>v. \<lparr>nm_id = v, nm_deep = 0\<rparr>) (an_rows a);
             l = (if rc_Exact first \<and> named \<noteq> [] then l\<lparr>lv_bones := place (rc_N first) named (lv_bones l)\<rparr> else l);
             l = resolve w l;
             l = (if an_Error a \<noteq> [] then say (Refused (an_Error a) expected) l
                  else if named \<noteq> [] then say Untroubled l else l)
         in if an_Stop a \<noteq> [] \<or> an_Error a \<noteq> [] then settledList w l else l))"

text \<open>Where a stretch is asked from: after the row above it where that is held, after the nearest held row below it where the
  sequence only walks, and otherwise at its position.\<close>

definition askFor :: "int \<Rightarrow> int \<Rightarrow> 'v listview \<Rightarrow> 'v ask" where
  "askFor at n l =
     (let (before, count) =
            (case idAt (lv_bones l) (at - 1) of
               Some v \<Rightarrow> (Some v, n)
             | None \<Rightarrow>
                 if lv_walks l
                 then (case lastBefore at (lv_bones l) of
                         Some (below, v) \<Rightarrow>
                           (let gap = at - below - 1 + n in
                            (Some v, if gap > n then (if gap > int spineKept then int spineKept else gap) else n))
                       | None \<Rightarrow> (None, n))
                 else (None, n))
      in (case before of
            Some v \<Rightarrow> if at > 0 then \<lparr>ak_Count = count, ak_From = 0, ak_After = v\<rparr> else \<lparr>ak_Count = count, ak_From = at, ak_After = None\<rparr>
          | None \<Rightarrow> \<lparr>ak_Count = count, ak_From = at, ak_After = None\<rparr>))"

definition extent :: "'v world \<Rightarrow> int \<Rightarrow> int \<Rightarrow> 'v listview \<Rightarrow> 'v listview" where
  "extent w at0 n l0 =
     (if n \<le> 0 then l0
      else
        (let at = (if at0 < 0 then 0 else at0) in
         if spineHolds at n l0 then l0
         else
           (case sequence w l0 of
              (None, l) \<Rightarrow> l
            | (Some data, l) \<Rightarrow>
                (let scope = askFor at n l in
                 case ds_Read data scope of
                   Inl refused \<Rightarrow> l
                 | Inr None \<Rightarrow> l\<lparr>lv_waiting := lv_waiting l @ [(scope, lv_asks l)]\<rparr>
                 | Inr (Some a) \<Rightarrow> settleList w at (lv_asks l) (ak_After scope = None) a l))))"

definition askRows :: "'v world \<Rightarrow> int \<Rightarrow> int \<Rightarrow> 'v listview \<Rightarrow> 'v listview" where
  "askRows w at n l = (if spineHolds at n l then l else extent w at n (l\<lparr>lv_asks := lv_asks l + 1\<rparr>))"

subsection \<open>The current row\<close>

definition SetSelectedID :: "'v world \<Rightarrow> 'v option \<Rightarrow> 'v listview \<Rightarrow> 'v listview" where
  "SetSelectedID w v l =
     (case v of
        None \<Rightarrow> setCurrent (-1) None l
      | Some x \<Rightarrow>
          (case posOf (id_Key (wd_ids w)) (Some x) (lv_bones l) of
             Some at \<Rightarrow> setCurrent at (Some x) l
           | None \<Rightarrow>
               (case CountRows w l of (n, l) \<Rightarrow> if spineHolds 0 n l then setCurrent (-1) None l else setCurrent (-1) (Some x) l)))"

definition SetCurrentIndex :: "'v world \<Rightarrow> int \<Rightarrow> 'v listview \<Rightarrow> 'v listview" where
  "SetCurrentIndex w index l0 =
     (if index < -1 then l0
      else
        (case CountRows w l0 of
           (n, l) \<Rightarrow>
             if index \<ge> n then l
             else if lv_currentIndex l = index then l
             else
               (let l = l\<lparr>lv_currentIndex := index\<rparr>;
                    l = (if lv_mode l = SingleSelection
                         then (let l = l\<lparr>lv_chosen := chooseNone\<rparr>;
                                   l = (if index \<ge> 0
                                        then (let l = extent w index 1 l in
                                              case idAt (lv_bones l) index of
                                                Some v \<Rightarrow> l\<lparr>lv_chosen := only (wd_ids w) v\<rparr>
                                              | None \<Rightarrow> l)
                                        else l)
                               in say SelectionChanged l)
                         else l)
                in say (CurrentChanged index) l)))"

definition IsSelected :: "'v world \<Rightarrow> int \<Rightarrow> 'v listview \<Rightarrow> bool \<times> 'v listview" where
  "IsSelected w index l =
     (if index < 0 then (False, l)
      else (case CountRows w l of
              (n, l) \<Rightarrow> if index \<ge> n then (False, l)
                else (isChosen (wd_ids w) (case idAt (lv_bones l) index of Some v \<Rightarrow> v | None \<Rightarrow> None) (lv_chosen l), l)))"

definition SetSelected :: "'v world \<Rightarrow> int \<Rightarrow> bool \<Rightarrow> 'v listview \<Rightarrow> 'v listview" where
  "SetSelected w index on l0 =
     (if index < 0 then l0
      else (case CountRows w l0 of
              (n, l) \<Rightarrow>
                if index \<ge> n \<or> lv_mode l = NoSelection then l
                else
                  (let l = extent w index 1 l in
                   case idAt (lv_bones l) index of
                     None \<Rightarrow> l
                   | Some v \<Rightarrow>
                       say SelectionChanged
                         (if lv_mode l = SingleSelection \<and> on then l\<lparr>lv_chosen := only (wd_ids w) v\<rparr>
                          else l\<lparr>lv_chosen := chooseRow (wd_ids w) v on (lv_chosen l)\<rparr>))))"

definition SelectAll :: "'v listview \<Rightarrow> 'v listview" where
  "SelectAll l = (if lv_mode l = SingleSelection \<or> lv_mode l = NoSelection then l else say SelectionChanged (l\<lparr>lv_chosen := everything\<rparr>))"

definition ClearSelection :: "'v listview \<Rightarrow> 'v listview" where "ClearSelection l = say SelectionChanged (l\<lparr>lv_chosen := chooseNone\<rparr>)"

definition SetSelectionMode :: "SelectionMode \<Rightarrow> 'v listview \<Rightarrow> 'v listview" where
  "SetSelectionMode m l = (l\<lparr>lv_mode := m\<rparr>)\<lparr>lv_chosen := (if m = NoSelection then chooseNone else lv_chosen l)\<rparr>"

definition SelectedIndexes :: "'v world \<Rightarrow> 'v listview \<Rightarrow> int list \<times> 'v listview" where
  "SelectedIndexes w l0 =
     (case CountRows w l0 of
        (n, l) \<Rightarrow>
          if sl_all (lv_chosen l)
          then (filter (\<lambda>i. isChosen (wd_ids w) (case idAt (lv_bones l) i of Some v \<Rightarrow> v | None \<Rightarrow> None) (lv_chosen l)) (map int [0..<nat n]), l)
          else (sort (filter (\<lambda>at. at < n) (List.map_filter (\<lambda>v. posOf (id_Key (wd_ids w)) (Some v) (lv_bones l)) (namedIds (lv_chosen l)))), l))"

subsection \<open>Its own items\<close>

definition emptySpine :: "'v spine" where "emptySpine = \<lparr>bo_runs = [], bo_total = \<lparr>rc_N = 0, rc_Exact = False\<rparr>, bo_anchor = 0\<rparr>"

definition NewListView :: "'v listview" where
  "NewListView =
     \<lparr>lv_items = [], lv_declared = False, lv_bones = emptySpine, lv_asks = 0, lv_walks = False, lv_currentIndex = -1, lv_currentID = None,
      lv_mode = SingleSelection, lv_chosen = chooseNone, lv_waiting = [], lv_said = []\<rparr>"

definition touched :: "'v listview \<Rightarrow> 'v listview" where "touched l = l\<lparr>lv_bones := forgetRuns (lv_bones l)\<rparr>"

definition SetSource :: "bool \<Rightarrow> 'v listview \<Rightarrow> 'v listview" where
  "SetSource declared l = setCurrent (-1) None (l\<lparr>lv_declared := declared, lv_bones := emptySpine\<rparr>)"

definition AddItem :: "'v world \<Rightarrow> string \<Rightarrow> 'v listview \<Rightarrow> 'v listview" where
  "AddItem w item l =
     (let l = touched (l\<lparr>lv_items := lv_items l @ [item]\<rparr>) in
      if lv_currentIndex l < 0 \<and> List.length (lv_items l) = 1 then SetCurrentIndex w 0 l else l)"

definition InsertItem :: "'v world \<Rightarrow> int \<Rightarrow> string \<Rightarrow> 'v listview \<Rightarrow> 'v listview" where
  "InsertItem w index0 item l0 =
     (let index = (if index0 < 0 then 0 else index0);
          index = (if index > int (List.length (lv_items l0)) then int (List.length (lv_items l0)) else index);
          l = touched (l0\<lparr>lv_items := take (nat index) (lv_items l0) @ [item] @ drop (nat index) (lv_items l0)\<rparr>);
          l = (if \<not> lv_declared l then l\<lparr>lv_chosen := shift (wd_ids w) index 1 (lv_chosen l)\<rparr> else l)
      in if lv_currentIndex l \<ge> index then l\<lparr>lv_currentIndex := lv_currentIndex l + 1\<rparr> else l)"

definition RemoveItem :: "'v world \<Rightarrow> int \<Rightarrow> 'v listview \<Rightarrow> 'v listview" where
  "RemoveItem w index l0 =
     (if index < 0 \<or> index \<ge> int (List.length (lv_items l0)) then l0
      else
        (let l = touched (l0\<lparr>lv_items := take (nat index) (lv_items l0) @ drop (Suc (nat index)) (lv_items l0)\<rparr>);
             l = (if \<not> lv_declared l
                  then l\<lparr>lv_chosen := shift (wd_ids w) (index + 1) (-1) (dropChosen (wd_ids w) (id_NewInt (wd_ids w) index) (lv_chosen l))\<rparr> else l)
         in if lv_currentIndex l = index
            then (case CountRows w l of
                    (n, l) \<Rightarrow> (let l = (if lv_currentIndex l \<ge> n then l\<lparr>lv_currentIndex := n - 1\<rparr> else l) in say (CurrentChanged (lv_currentIndex l)) l))
            else if lv_currentIndex l > index then l\<lparr>lv_currentIndex := lv_currentIndex l - 1\<rparr> else l))"

definition ClearItems :: "'v listview \<Rightarrow> 'v listview" where
  "ClearItems l = (setCurrent (-1) None (touched (l\<lparr>lv_items := []\<rparr>)))\<lparr>lv_chosen := chooseNone\<rparr>"

end
