(* ===== verification/ListRowsFacts.thy ===== *)
theory ListRowsFacts
  imports ListRows
begin

text \<open>
  What a list of rows comes to: its selection is a set that moves with its rows, any stretch of a true source is reached, and
  where the list does other than its comments say. \<open>knows\<close> is what a list holds being true of its sequence, and a source
  is described by what it answers (\<open>answersTruly\<close>). A small world of numbers at the end serves the examples.
\<close>

subsection \<open>Which rows are chosen, as a set\<close>

definition chosenKeys :: "'v selection \<Rightarrow> string set" where
  "chosenKeys s = (if sl_all s then - dom (map_of (sl_named s)) else dom (map_of (sl_named s)))"

lemma chosen_basics [simp]: "chosenKeys chooseNone = {}" "chosenKeys everything = UNIV"
  by (simp_all add: chosenKeys_def chooseNone_def everything_def)

lemma named_update: "dom (map_of (AList.update k v xs)) = insert k (dom (map_of xs))"
  by (simp add: update_conv')

lemma named_delete: "dom (map_of (AList.delete k xs)) = dom (map_of xs) - {k}"
  by (auto simp: delete_conv' split: if_splits)

lemma chosenKeys_choose:
  "chosenKeys (chooseRow ids (Some v) on s) = (if on then insert (id_Key ids v) (chosenKeys s) else chosenKeys s - {id_Key ids v})"
  by (auto simp: chosenKeys_def chooseRow_def named_update named_delete simp del: dom_map_of_conv_image_fst)

lemma isChosen_keys: "isChosen ids (Some v) s \<longleftrightarrow> id_Key ids v \<in> chosenKeys s"
  by (auto simp: isChosen_def chosenKeys_def)

lemma nothingChosen_keys: "nothingChosen s \<longleftrightarrow> chosenKeys s = {}"
proof -
  have "finite (dom (map_of (sl_named s)))" by (rule finite_dom_map_of)
  then have "- dom (map_of (sl_named s)) \<noteq> {}" using infinite_UNIV_listI[where 'a = char] by (metis double_complement Compl_empty_eq)
  then show ?thesis by (cases "sl_named s") (auto simp: nothingChosen_def chosenKeys_def)
qed

text \<open>C27. A selection is a set of rows kept as the rows it names or as the rows it spares: choosing and unchoosing a row adds and
  takes away that one, whichever shape it is kept in, choosing only one leaves that one, everything and nothing are those
  sets, a row is chosen when its key is in, a row nobody has named when everything not spared is, and a
  selection reads as empty exactly when no row is in it.\<close>

theorem selection_is_a_set:
  "chosenKeys (chooseRow ids (Some v) on s) = (if on then insert (id_Key ids v) (chosenKeys s) else chosenKeys s - {id_Key ids v})
    \<and> chosenKeys (only ids (Some v)) = {id_Key ids v} \<and> chosenKeys (chooseNone :: 'v selection) = {} \<and> chosenKeys (everything :: 'v selection) = UNIV
    \<and> (isChosen ids (Some v) s \<longleftrightarrow> id_Key ids v \<in> chosenKeys s) \<and> (isChosen ids None s \<longleftrightarrow> infinite (chosenKeys s))
    \<and> (nothingChosen s \<longleftrightarrow> chosenKeys s = {})"
proof -
  have fin: "finite (dom (map_of (sl_named s)))" by (rule finite_dom_map_of)
  have inf: "infinite (- dom (map_of (sl_named s)))" using infinite_UNIV_listI[where 'a = char] fin by (metis finite_compl)
  have "isChosen ids None s \<longleftrightarrow> infinite (chosenKeys s)" using fin inf by (simp add: isChosen_def chosenKeys_def del: dom_map_of_conv_image_fst)
  moreover have "chosenKeys (only ids (Some v)) = {id_Key ids v}" by (simp add: only_def chosenKeys_choose)
  ultimately show ?thesis by (simp add: chosenKeys_choose isChosen_keys nothingChosen_keys)
qed

subsection \<open>Rows named by their position\<close>

text \<open>The module's identities as its documentation has them: a number is read back as that number, keys tell identities apart.\<close>

definition identitiesDocumented :: "'v identities \<Rightarrow> bool" where
  "identitiesDocumented ids \<longleftrightarrow> (\<forall>i v. id_Int ids v = Some i \<longleftrightarrow> v = id_NewInt ids i) \<and> inj (id_Key ids)"

text \<open>A selection of a list reading its own items: its entries are filed under their keys and name positions.\<close>

definition namesPositions :: "'v identities \<Rightarrow> 'v selection \<Rightarrow> bool" where
  "namesPositions ids s \<longleftrightarrow> (\<forall>(k, v) \<in> set (sl_named s). k = id_Key ids v \<and> id_Int ids v \<noteq> None)"

definition rowChosen :: "'v identities \<Rightarrow> 'v selection \<Rightarrow> int \<Rightarrow> bool" where
  "rowChosen ids s p = isChosen ids (Some (id_NewInt ids p)) s"

definition keyOf :: "'v identities \<Rightarrow> int \<Rightarrow> string" where "keyOf ids p = id_Key ids (id_NewInt ids p)"

lemma idInt: "identitiesDocumented ids \<Longrightarrow> id_Int ids (id_NewInt ids i) = Some i"
  "identitiesDocumented ids \<Longrightarrow> id_Int ids v = Some i \<Longrightarrow> v = id_NewInt ids i"
  unfolding identitiesDocumented_def by blast+

lemma keyOf_eq: "identitiesDocumented ids \<Longrightarrow> keyOf ids p = keyOf ids q \<longleftrightarrow> p = q"
  by (simp add: identitiesDocumented_def keyOf_def inj_eq) (metis option.inject)

lemma fold_filed:
  "dom (map_of (fold (\<lambda>(k, v) moved. AList.update (g v) (h v) moved) xs acc)) = dom (map_of acc) \<union> (g \<circ> snd) ` set xs"
  by (induction xs arbitrary: acc) (auto simp: update_conv' split: prod.splits)

text \<open>The positions a selection has an entry for.\<close>

definition placesNamed :: "'v identities \<Rightarrow> 'v selection \<Rightarrow> int set" where
  "placesNamed ids s = {p. keyOf ids p \<in> dom (map_of (sl_named s))}"

lemma rowChosen_places: "rowChosen ids s p \<longleftrightarrow> (p \<in> placesNamed ids s) \<noteq> sl_all s"
  by (auto simp: rowChosen_def isChosen_def placesNamed_def keyOf_def)

lemma placesNamed_shift:
  assumes "identitiesDocumented ids" "namesPositions ids s"
  shows "placesNamed ids (shift ids at by' s) = (\<lambda>p. if p \<ge> at then p + by' else p) ` placesNamed ids s" "sl_all (shift ids at by' s) = sl_all s"
proof -
  let ?f = "\<lambda>p. if p \<ge> at then p + by' else p"
  have entry: "v = id_NewInt ids (the (id_Int ids v)) \<and> k = keyOf ids (the (id_Int ids v))" if "(k, v) \<in> set (sl_named s)" for k v
  proof -
    have "k = id_Key ids v \<and> id_Int ids v \<noteq> None" using assms(2) that unfolding namesPositions_def by blast
    then obtain i where i: "k = id_Key ids v" "id_Int ids v = Some i" by blast
    then have "v = id_NewInt ids i" using assms(1) unfolding identitiesDocumented_def by blast
    then show ?thesis using i by (simp add: keyOf_def)
  qed
  have int: "id_Int ids (id_NewInt ids i) = Some i" for i using assms(1) by (simp add: identitiesDocumented_def)
  have moved: "renumber ids at by' (id_NewInt ids i) = id_NewInt ids (?f i)" for i by (simp add: renumber_def int)
  have pl: "placesNamed ids s = (\<lambda>(k, v). the (id_Int ids v)) ` set (sl_named s)"
  proof (intro set_eqI iffI)
    fix p assume "p \<in> placesNamed ids s"
    then obtain v where v: "(keyOf ids p, v) \<in> set (sl_named s)" by (auto simp: placesNamed_def dest: map_of_SomeD)
    have "keyOf ids p = keyOf ids (the (id_Int ids v))" using entry[OF v] by (rule conjunct2)
    then have "the (id_Int ids v) = p" using keyOf_eq[OF assms(1)] by simp
    then show "p \<in> (\<lambda>(k, v). the (id_Int ids v)) ` set (sl_named s)" using v by force
  next
    fix p assume "p \<in> (\<lambda>(k, v). the (id_Int ids v)) ` set (sl_named s)"
    then obtain k v where kv: "(k, v) \<in> set (sl_named s)" "p = the (id_Int ids v)" by auto
    have "k = keyOf ids p" unfolding kv(2) using entry[OF kv(1)] by (rule conjunct2)
    then have "(keyOf ids p, v) \<in> set (sl_named s)" using kv(1) by simp
    then show "p \<in> placesNamed ids s" by (force simp: placesNamed_def dom_map_of_conv_image_fst)
  qed
  have moved': "id_Key ids (renumber ids at by' v) = keyOf ids (?f (the (id_Int ids v)))" if "(k, v) \<in> set (sl_named s)" for k v
    using entry[OF that] moved unfolding keyOf_def by metis
  have "dom (map_of (sl_named (shift ids at by' s))) = (\<lambda>(k, v). id_Key ids (renumber ids at by' v)) ` set (sl_named s)"
    using fold_filed[of "\<lambda>v. id_Key ids (renumber ids at by' v)" "renumber ids at by'" "sl_named s" "[]"]
    by (simp add: shift_def comp_def case_prod_unfold del: dom_map_of_conv_image_fst)
  also have "\<dots> = (\<lambda>p. keyOf ids (?f p)) ` placesNamed ids s"
    unfolding pl image_image by (rule image_cong[OF refl]) (clarsimp simp: moved')
  finally have d: "dom (map_of (sl_named (shift ids at by' s))) = (\<lambda>p. keyOf ids (?f p)) ` placesNamed ids s" .
  show "placesNamed ids (shift ids at by' s) = ?f ` placesNamed ids s"
    unfolding placesNamed_def[of ids "shift ids at by' s"] d using keyOf_eq[OF assms(1)] by blast
  show "sl_all (shift ids at by' s) = sl_all s" by (simp add: shift_def)
qed

lemma namesPositions_shift:
  assumes "identitiesDocumented ids" "namesPositions ids s"
  shows "namesPositions ids (shift ids at by' s)"
proof -
  have filed: "\<forall>(k, v) \<in> set (AList.update k' v' xs). P k v" if "P k' v'" "\<forall>(k, v) \<in> set xs. P k v" for P k' v' and xs :: "(string \<times> 'a) list"
    using that by (induction xs) auto
  have step: "\<forall>(k, v) \<in> set (fold (\<lambda>(k, v) moved. AList.update (id_Key ids (renumber ids at by' v)) (renumber ids at by' v) moved) xs acc).
      k = id_Key ids v \<and> id_Int ids v \<noteq> None"
    if "\<forall>(k, v) \<in> set xs. id_Int ids v \<noteq> None" "\<forall>(k, v) \<in> set acc. k = id_Key ids v \<and> id_Int ids v \<noteq> None" for xs acc
    using that
  proof (induction xs arbitrary: acc)
    case (Cons a xs)
    obtain k v where a: "a = (k, v)" by fastforce
    obtain i where "id_Int ids v = Some i" using Cons(2) a by auto
    then have "id_Int ids (renumber ids at by' v) \<noteq> None" using idInt(1)[OF assms(1)] by (simp add: renumber_def)
    then show ?case using Cons(1)[OF _ filed[of "\<lambda>k v. k = id_Key ids v \<and> id_Int ids v \<noteq> None"]] Cons(2,3) a by simp
  qed simp
  have old: "\<forall>(k, v) \<in> set (sl_named s). id_Int ids v \<noteq> None" using assms(2) unfolding namesPositions_def by blast
  show ?thesis using step[OF old, of "[]"] assms(2) by (simp add: namesPositions_def shift_def)
qed

lemma placesNamed_drop:
  assumes "identitiesDocumented ids"
  shows "placesNamed ids (dropChosen ids (id_NewInt ids p) s) = placesNamed ids s - {p}"
  using keyOf_eq[OF assms] by (auto simp: placesNamed_def dropChosen_def named_delete keyOf_def[symmetric] simp del: dom_map_of_conv_image_fst)

lemma namesPositions_drop: "namesPositions ids s \<Longrightarrow> namesPositions ids (dropChosen ids v s)"
  by (auto simp: namesPositions_def dropChosen_def AList.delete_eq)

lemma CountRows_keeps [simp]:
  "lv_items (snd (CountRows w l)) = lv_items l" "lv_chosen (snd (CountRows w l)) = lv_chosen l" "lv_currentIndex (snd (CountRows w l)) = lv_currentIndex l"
  "lv_currentID (snd (CountRows w l)) = lv_currentID l"
  by (auto simp: CountRows_def sequence_def say_def Let_def split: sum.splits)

lemma choice_along:
  assumes "identitiesDocumented (wd_ids w)" "namesPositions (wd_ids w) (lv_chosen l)" "\<not> lv_declared l" "0 \<le> p" "p < int (List.length (lv_items l))"
  shows "0 \<le> index \<Longrightarrow> index \<le> int (List.length (lv_items l)) \<Longrightarrow>
      (let l' = InsertItem w index item l; p' = (if p \<ge> index then p + 1 else p) in
       lv_items l' ! nat p' = lv_items l ! nat p \<and> rowChosen (wd_ids w) (lv_chosen l') p' = rowChosen (wd_ids w) (lv_chosen l) p
       \<and> lv_items l' ! nat index = item \<and> rowChosen (wd_ids w) (lv_chosen l') index = sl_all (lv_chosen l)
       \<and> (lv_currentIndex l = p \<longrightarrow> lv_currentIndex l' = p') \<and> namesPositions (wd_ids w) (lv_chosen l'))"
    and "0 \<le> index \<Longrightarrow> index < int (List.length (lv_items l)) \<Longrightarrow> p \<noteq> index \<Longrightarrow>
      (let l' = RemoveItem w index l; p' = (if p > index then p - 1 else p) in
       lv_items l' ! nat p' = lv_items l ! nat p \<and> rowChosen (wd_ids w) (lv_chosen l') p' = rowChosen (wd_ids w) (lv_chosen l) p
       \<and> (lv_currentIndex l = p \<longrightarrow> lv_currentIndex l' = p') \<and> namesPositions (wd_ids w) (lv_chosen l'))"
proof -
  let ?ids = "wd_ids w" and ?n = "List.length (lv_items l)"
  note S = placesNamed_shift[OF assms(1)] and N = namesPositions_shift[OF assms(1)]
  {
    assume i: "0 \<le> index" "index \<le> int ?n"
    let ?l = "InsertItem w index item l"
    have items: "lv_items ?l = take (nat index) (lv_items l) @ [item] @ drop (nat index) (lv_items l)"
      and chosen: "lv_chosen ?l = shift ?ids index 1 (lv_chosen l)"
      and cur: "lv_currentIndex ?l = (if lv_currentIndex l \<ge> index then lv_currentIndex l + 1 else lv_currentIndex l)"
      using i assms(3) by (simp_all add: InsertItem_def touched_def Let_def)
    have k: "nat index \<le> ?n" "nat p < ?n" using i assms(4,5) by linarith+
    have "lv_items ?l ! nat (if p \<ge> index then p + 1 else p) = lv_items l ! nat p" "lv_items ?l ! nat index = item"
      using k i assms(4) unfolding items by (auto simp: nth_append nat_less_iff nat_add_distrib Suc_diff_le) 
    moreover have "rowChosen ?ids (lv_chosen ?l) (if p \<ge> index then p + 1 else p) = rowChosen ?ids (lv_chosen l) p"
      "rowChosen ?ids (lv_chosen ?l) index = sl_all (lv_chosen l)"
      unfolding rowChosen_places chosen S[OF assms(2)] by (auto split: if_splits)
    ultimately show "let l' = InsertItem w index item l; p' = (if p \<ge> index then p + 1 else p) in
       lv_items l' ! nat p' = lv_items l ! nat p \<and> rowChosen (wd_ids w) (lv_chosen l') p' = rowChosen (wd_ids w) (lv_chosen l) p
       \<and> lv_items l' ! nat index = item \<and> rowChosen (wd_ids w) (lv_chosen l') index = sl_all (lv_chosen l)
       \<and> (lv_currentIndex l = p \<longrightarrow> lv_currentIndex l' = p') \<and> namesPositions (wd_ids w) (lv_chosen l')"
      unfolding Let_def cur chosen using N[OF assms(2)] by simp
  }
  assume i: "0 \<le> index" "index < int ?n" "p \<noteq> index"
  let ?l = "RemoveItem w index l"
  have items: "lv_items ?l = take (nat index) (lv_items l) @ drop (Suc (nat index)) (lv_items l)"
    and chosen: "lv_chosen ?l = shift ?ids (index + 1) (-1) (dropChosen ?ids (id_NewInt ?ids index) (lv_chosen l))"
    and cur: "lv_currentIndex l \<noteq> index \<Longrightarrow> lv_currentIndex ?l = (if lv_currentIndex l > index then lv_currentIndex l - 1 else lv_currentIndex l)"
    using i assms(3) by (simp_all add: RemoveItem_def touched_def Let_def say_def case_prod_unfold)
  note D = namesPositions_drop[OF assms(2)]
  have k: "nat index < ?n" "nat p < ?n" using i assms(4,5) by linarith+
  have "lv_items ?l ! nat (if p > index then p - 1 else p) = lv_items l ! nat p"
    using k i assms(4) unfolding items by (auto simp: nth_append nat_less_iff nat_diff_distrib)
  moreover have "rowChosen ?ids (lv_chosen ?l) (if p > index then p - 1 else p) = rowChosen ?ids (lv_chosen l) p"
    using i(3) unfolding rowChosen_places chosen S[OF D] placesNamed_drop[OF assms(1)] by (auto simp: dropChosen_def split: if_splits)
  ultimately show "let l' = RemoveItem w index l; p' = (if p > index then p - 1 else p) in
       lv_items l' ! nat p' = lv_items l ! nat p \<and> rowChosen (wd_ids w) (lv_chosen l') p' = rowChosen (wd_ids w) (lv_chosen l) p
       \<and> (lv_currentIndex l = p \<longrightarrow> lv_currentIndex l' = p') \<and> namesPositions (wd_ids w) (lv_chosen l')"
    unfolding Let_def using cur chosen N[OF D] i(3) by simp
qed


subsection \<open>What an answer and a question come to\<close>

definition rowsOf :: "'v list \<Rightarrow> 'v namedRow list" where "rowsOf seq = map (\<lambda>v. \<lparr>nm_id = Some v, nm_deep = 0\<rparr>) seq"

lemma rowsOf_simps [simp]: "List.length (rowsOf seq) = List.length seq" "rowsOf seq = [] \<longleftrightarrow> seq = []"
  "i < List.length seq \<Longrightarrow> rowsOf seq ! i = \<lparr>nm_id = Some (seq ! i), nm_deep = 0\<rparr>" "take n (rowsOf seq) = rowsOf (take n seq)"
  "drop n (rowsOf seq) = rowsOf (drop n seq)"
  by (simp_all add: rowsOf_def take_map drop_map)

lemma say_keeps [simp]: "lv_bones (say m l) = lv_bones l" "lv_asks (say m l) = lv_asks l" "lv_walks (say m l) = lv_walks l"
  "lv_currentIndex (say m l) = lv_currentIndex l" "lv_currentID (say m l) = lv_currentID l" "lv_chosen (say m l) = lv_chosen l" "lv_mode (say m l) = lv_mode l"
  "lv_declared (say m l) = lv_declared l" "lv_items (say m l) = lv_items l"
  by (simp_all add: say_def)

lemma resolve_keeps [simp]: "lv_bones (resolve w l) = lv_bones l" "lv_asks (resolve w l) = lv_asks l" "lv_walks (resolve w l) = lv_walks l"
  "lv_declared (resolve w l) = lv_declared l" "lv_items (resolve w l) = lv_items l"
  by (auto simp: resolve_def Let_def split: option.splits)

lemma settledList_keeps [simp]: "lv_bones (settledList w l) = lv_bones l" "lv_asks (settledList w l) = lv_asks l" "lv_walks (settledList w l) = lv_walks l"
  "lv_declared (settledList w l) = lv_declared l" "lv_items (settledList w l) = lv_items l"
  by (auto simp: settledList_def)

text \<open>What is taken of the module besides identities: what counts are, and that what is exactly so many is.\<close>

definition worldDocumented :: "'v world \<Rightarrow> bool" where
  "worldDocumented w \<longleftrightarrow> countingDocumented (wd_counting w) \<and> (\<forall>n. wd_Exactly w n = \<lparr>rc_N = n, rc_Exact = True\<rparr>)"

text \<open>Where a source begins its answer: after the row it was asked to begin after; asked for a position, there where it can
  jump to one, and at the beginning where it can only walk its rows.\<close>

definition startsAt :: "bool \<Rightarrow> 'v list \<Rightarrow> 'v ask \<Rightarrow> nat \<Rightarrow> bool" where
  "startsAt jumps seq scope i \<longleftrightarrow>
     (case ak_After scope of
        None \<Rightarrow> 0 \<le> ak_From scope \<and> i = (if jumps then nat (ak_From scope) else 0)
      | Some v \<Rightarrow> \<exists>j < List.length seq. seq ! j = v \<and> i = Suc j)"

text \<open>A source that tells the truth about its rows: it answers with the rows that stand where it begins, as many as were
  asked for, and says where that is and how many rows there are.\<close>

definition answersTruly :: "bool \<Rightarrow> 'v list \<Rightarrow> 'v dataset \<Rightarrow> bool" where
  "answersTruly jumps seq data \<longleftrightarrow>
     (\<forall>scope i. startsAt jumps seq scope i \<longrightarrow>
        (\<exists>a. ds_Read data scope = Inr (Some a) \<and> an_rows a = map Some (take (nat (ak_Count scope)) (drop i seq))
          \<and> an_First a = \<lparr>rc_N = int i, rc_Exact = True\<rparr> \<and> an_Total a = \<lparr>rc_N = int (List.length seq), rc_Exact = True\<rparr> \<and> an_Error a = []))"

lemma settleList_bones:
  assumes "worldDocumented w" "an_rows a = map Some xs" "an_First a = \<lparr>rc_N = p, rc_Exact = True\<rparr>" "an_Error a = []"
  shows "lv_bones (settleList w expected (lv_asks l) positional a l) = place p (rowsOf xs) (learn (wd_counting w) (an_Total a) (lv_bones l))"
    "lv_walks (settleList w expected (lv_asks l) positional a l) = (lv_walks l \<or> positional \<and> p \<noteq> expected)"
    "lv_declared (settleList w expected (lv_asks l) positional a l) = lv_declared l" "lv_items (settleList w expected (lv_asks l) positional a l) = lv_items l"
  using assms by (auto simp: settleList_def Let_def rowsOf_def comp_def place_none)

lemma settleList_silent:
  assumes "worldDocumented w" "an_rows a = map Some xs" "\<not> rc_Exact (an_First a)" "\<not> rc_Exact (an_begin a)" "an_Error a = []"
  shows "lv_bones (settleList w expected (lv_asks l) positional a l) = place expected (rowsOf xs) (learn (wd_counting w) (an_Total a) (lv_bones l))"
  using assms by (auto simp: settleList_def Let_def rowsOf_def comp_def place_none worldDocumented_def)

text \<open>What a view knows of a sequence of rows, as far as that goes.\<close>

definition knows :: "'v list \<Rightarrow> 'v listview \<Rightarrow> bool" where "knows seq l \<longleftrightarrow> trueTo (rowsOf seq, lv_bones l)"

lemma knows_idAt: "knows seq l \<Longrightarrow> idAt (lv_bones l) p = Some v \<Longrightarrow> 0 \<le> p \<and> p < int (List.length seq) \<and> v = Some (seq ! nat p)"
proof -
  assume k: "knows seq l" and "idAt (lv_bones l) p = Some v"
  then obtain x where x: "rowOf (lv_bones l) p = Some x" "v = nm_id x" by (auto simp: idAt_def)
  then have q: "0 \<le> p" "p < int (List.length seq)" "x = rowsOf seq ! nat p" using k by (auto simp: knows_def trueTo_def follows_def)
  then have "nat p < List.length seq" by linarith
  then show ?thesis using q x(2) by simp
qed

lemma rowOf_idAt: "rowOf s p = None \<longleftrightarrow> idAt s p = None" by (simp add: idAt_def)

text \<open>One true answer: what the view knows stays true, and every row of the answer is known.\<close>

lemma settled_truly:
  assumes "worldDocumented w" "knows seq l" "i < List.length seq" "0 < n" "an_rows a = map Some (take n (drop i seq))"
    "an_First a = \<lparr>rc_N = int i, rc_Exact = True\<rparr>" "an_Total a = \<lparr>rc_N = int (List.length seq), rc_Exact = True\<rparr>" "an_Error a = []"
    "l' = settleList w expected (lv_asks l) positional a l"
  shows "knows seq l'" "n \<le> spineKept \<Longrightarrow> int i \<le> p \<Longrightarrow> p < int (i + n) \<Longrightarrow> p < int (List.length seq) \<Longrightarrow> idAt (lv_bones l') p \<noteq> None"
    "lv_walks l' = (lv_walks l \<or> positional \<and> int i \<noteq> expected)" "lv_declared l' = lv_declared l" "lv_items l' = lv_items l"
proof -
  let ?cg = "wd_counting w" and ?rs = "rowsOf (take n (drop i seq))"
  define s where "s = learn ?cg (an_Total a) (lv_bones l)"
  have cg: "countingDocumented ?cg" using assms(1) by (simp add: worldDocumented_def)
  have b: "lv_bones l' = place (int i) ?rs s" unfolding assms(9) s_def by (rule settleList_bones(1)[OF assms(1,5,6,8)])
  show "lv_walks l' = (lv_walks l \<or> positional \<and> int i \<noteq> expected)" "lv_declared l' = lv_declared l" "lv_items l' = lv_items l"
    unfolding assms(9) by (rule settleList_bones[OF assms(1,5,6,8)])+
  have ne: "?rs \<noteq> []" using assms(3,4) by simp
  have "trueTo (rowsOf seq, s)" unfolding s_def
    using moves_trueTo[OF moves.Counted cg, of "an_Total a" "rowsOf seq" "lv_bones l"] assms(2) by (simp add: knows_def countHolds_def assms(7))
  then have "trueTo (rowsOf seq, place (int i) ?rs s)"
    by (rule moves_trueTo[OF moves.Told[OF _ ne, of "int i"] cg, rotated 2]) (simp_all add: min_def)
  then show "knows seq l'" by (simp add: knows_def b)
  assume h: "n \<le> spineKept" "int i \<le> p" "p < int (i + n)" "p < int (List.length seq)"
  have sound: "soundRuns (bo_runs s)" using \<open>trueTo (rowsOf seq, s)\<close> by (simp add: trueTo_def)
  have len: "List.length ?rs = min n (List.length seq - i)" by simp
  have "rowOf (place (int i) ?rs s) p = Some (?rs ! nat (p - int i))"
    by (rule place_spec(4)[OF sound _ ne]) (use h len assms(3) in auto)
  then show "idAt (lv_bones l') p \<noteq> None" by (simp add: b idAt_def)
qed

text \<open>How far what is known reaches below a place.\<close>

definition frontier :: "int \<Rightarrow> 'v listview \<Rightarrow> int" where
  "frontier at l = (case lastBefore at (lv_bones l) of None \<Rightarrow> 0 | Some (q, v) \<Rightarrow> q + 1)"

lemma knows_sound: "knows seq l \<Longrightarrow> soundRuns (bo_runs (lv_bones l))" by (simp add: knows_def trueTo_def)

lemma frontier_reaches:
  assumes "knows seq l" "p < at" "idAt (lv_bones l) p \<noteq> None"
  shows "p < frontier at l"
proof -
  note L = lastBefore_spec[OF knows_sound[OF assms(1)], where at = at]
  show ?thesis
  proof (cases "lastBefore at (lv_bones l)")
    case None then show ?thesis using L(1) assms(2,3) by (simp add: rowOf_idAt)
  next
    case (Some qv)
    then obtain q v where q: "lastBefore at (lv_bones l) = Some (q, v)" by (cases qv) simp
    then have "\<not> q < p" using L(2)[OF q] assms(2,3) by (auto simp: rowOf_idAt)
    then show ?thesis using q by (simp add: frontier_def)
  qed
qed

lemma frontier_held:
  assumes "knows seq l" "lastBefore at (lv_bones l) = Some (q, v)"
  shows "0 \<le> q" "q < at" "idAt (lv_bones l) q = Some v" "frontier at l = q + 1" "q < int (List.length seq)" "v = Some (seq ! nat q)"
  using lastBefore_spec(2)[OF knows_sound[OF assms(1)] assms(2)] knows_idAt[OF assms(1)] assms(2) by (auto simp: frontier_def)

lemma frontier_full: "knows seq l \<Longrightarrow> 0 < at \<Longrightarrow> at \<le> frontier at l \<Longrightarrow> idAt (lv_bones l) (at - 1) \<noteq> None"
proof -
  assume k: "knows seq l" "0 < at" "at \<le> frontier at l"
  then obtain q v where q: "lastBefore at (lv_bones l) = Some (q, v)" by (auto simp: frontier_def split: option.splits)
  have "q = at - 1" using frontier_held(2,4)[OF k(1) q] k(3) by simp
  then show ?thesis using frontier_held(3)[OF k(1) q] by simp
qed

lemma spineHolds_all: "spineHolds at n l \<longleftrightarrow> (\<forall>p. at \<le> p \<and> p < at + n \<longrightarrow> idAt (lv_bones l) p \<noteq> None)"
proof -
  have "(\<forall>i < nat n. P (at + int i)) \<longleftrightarrow> (\<forall>p. at \<le> p \<and> p < at + n \<longrightarrow> P p)" for P :: "int \<Rightarrow> bool"
  proof (intro iffI allI impI)
    fix p assume h: "\<forall>i < nat n. P (at + int i)" "at \<le> p \<and> p < at + n"
    then have "P (at + int (nat (p - at)))" using h(1)[rule_format, of "nat (p - at)"] by simp
    then show "P p" using h(2) by simp
  qed auto
  note all = this[of "\<lambda>p. idAt (lv_bones l) p \<noteq> None"]
  have "spineHolds at n l \<longleftrightarrow> (\<forall>i < nat n. idAt (lv_bones l) (at + int i) \<noteq> None)" by (auto simp: spineHolds_def list_all_iff)
  then show ?thesis using all by simp
qed

text \<open>What a question comes to when a source that tells the truth is asked it.\<close>

lemma asked_truly:
  assumes "worldDocumented w" "answersTruly jumps seq data" "wd_Open w (lv_declared l) (lv_items l) = Inr data" "knows seq l"
    "0 \<le> at" "0 < n" "\<not> spineHolds at n l" "startsAt jumps seq (askFor at n l) i" "i < List.length seq" "0 < ak_Count (askFor at n l)"
  shows "knows seq (extent w at n l)" "lv_declared (extent w at n l) = lv_declared l" "lv_items (extent w at n l) = lv_items l"
    "ak_Count (askFor at n l) \<le> int spineKept \<Longrightarrow> int i \<le> p \<Longrightarrow> p < int i + ak_Count (askFor at n l) \<Longrightarrow> p < int (List.length seq) \<Longrightarrow>
       idAt (lv_bones (extent w at n l)) p \<noteq> None"
    "lv_walks (extent w at n l) = (lv_walks l \<or> ak_After (askFor at n l) = None \<and> int i \<noteq> at)"
proof -
  obtain a where a: "ds_Read data (askFor at n l) = Inr (Some a)" "an_rows a = map Some (take (nat (ak_Count (askFor at n l))) (drop i seq))"
    "an_First a = \<lparr>rc_N = int i, rc_Exact = True\<rparr>" "an_Total a = \<lparr>rc_N = int (List.length seq), rc_Exact = True\<rparr>" "an_Error a = []"
    using assms(2,8) by (auto simp: answersTruly_def)
  have e: "extent w at n l = settleList w at (lv_asks l) (ak_After (askFor at n l) = None) a l"
    using assms(3,5,6,7) a(1) by (simp add: extent_def sequence_def Let_def)
  have c: "0 < nat (ak_Count (askFor at n l))" using assms(10) by simp
  note T = settled_truly[OF assms(1,4,9) c a(2,3,4,5) e]
  show "knows seq (extent w at n l)" "lv_declared (extent w at n l) = lv_declared l" "lv_items (extent w at n l) = lv_items l"
    "lv_walks (extent w at n l) = (lv_walks l \<or> ak_After (askFor at n l) = None \<and> int i \<noteq> at)" by (rule T(1) T(3) T(4) T(5))+
  show "ak_Count (askFor at n l) \<le> int spineKept \<Longrightarrow> int i \<le> p \<Longrightarrow> p < int i + ak_Count (askFor at n l) \<Longrightarrow> p < int (List.length seq) \<Longrightarrow>
       idAt (lv_bones (extent w at n l)) p \<noteq> None"
    by (rule T(2)) (use assms(10) in simp_all)
qed

lemma extent_step:
  assumes "worldDocumented w" "answersTruly jumps seq data" "wd_Open w (lv_declared l) (lv_items l) = Inr data" "knows seq l"
    "0 \<le> at" "0 < n" "n \<le> int spineKept" "at + n \<le> int (List.length seq)" "\<not> spineHolds at n l"
  shows "knows seq (extent w at n l) \<and> lv_declared (extent w at n l) = lv_declared l \<and> lv_items (extent w at n l) = lv_items l
    \<and> (spineHolds at n (extent w at n l) \<or> lv_walks (extent w at n l)
        \<and> frontier at (extent w at n l) \<ge> min at (if lv_walks l \<and> 0 < frontier at l then frontier at l + int spineKept else 1))
    \<and> (idAt (lv_bones l) (at - 1) \<noteq> None \<or> at = 0 \<or> jumps \<and> \<not> lv_walks l \<longrightarrow> spineHolds at n (extent w at n l))"
proof -
  note asked = asked_truly[OF assms(1-6,9)]
  have kept: "0 < int spineKept" by (simp add: spineKept_def)
  show ?thesis
  proof (cases "idAt (lv_bones l) (at - 1)")
    case (Some v)
    have v: "0 < at" "v = Some (seq ! nat (at - 1))" "nat (at - 1) < List.length seq" using knows_idAt[OF assms(4) Some] by auto
    have scope: "askFor at n l = \<lparr>ak_Count = n, ak_From = 0, ak_After = v\<rparr>" using Some v by (simp add: askFor_def)
    have st: "startsAt jumps seq (askFor at n l) (nat at)" unfolding scope startsAt_def
      using v assms(5) by (auto intro!: exI[of _ "nat (at - 1)"])
    have i: "nat at < List.length seq" "0 < ak_Count (askFor at n l)" using assms(5,6,8) by (auto simp: scope)
    note A = asked[OF st i]
    have "spineHolds at n (extent w at n l)" unfolding spineHolds_all
      using A(4) assms(5,7,8) by (auto simp: scope)
    then show ?thesis using A(1-3) by simp
  next
    case None
    show ?thesis
    proof (cases "lv_walks l \<and> lastBefore at (lv_bones l) \<noteq> None")
      case True
      then obtain q v where q: "lastBefore at (lv_bones l) = Some (q, v)" by auto
      note F = frontier_held[OF assms(4) q]
      define c where "c = (let gap = at - q - 1 + n in if gap > n then (if gap > int spineKept then int spineKept else gap) else n)"
      have scope: "askFor at n l = \<lparr>ak_Count = c, ak_From = 0, ak_After = v\<rparr>" using None True q F(1,2) by (simp add: askFor_def c_def Let_def F(6))
      have st: "startsAt jumps seq (askFor at n l) (nat (q + 1))" unfolding scope startsAt_def
        using F(1,5,6) by (auto intro!: exI[of _ "nat q"])
      have "q \<noteq> at - 1" using None F(3) by auto
      then have c: "c = min (at - q - 1 + n) (int spineKept)" "0 < c" using F(2) assms(6,7) kept by (auto simp: c_def Let_def)
      have i: "nat (q + 1) < List.length seq" "0 < ak_Count (askFor at n l)" using F(1,2) assms(6,8) c(2) by (simp_all add: scope)
      note A = asked[OF st i]
      have walks: "lv_walks (extent w at n l)" using A(5) True by simp
      have known: "idAt (lv_bones (extent w at n l)) p \<noteq> None" if "q + 1 \<le> p" "p < q + 1 + c" "p < int (List.length seq)" for p
        using A(4)[of p] that c F(1) by (simp add: scope)
      have "spineHolds at n (extent w at n l) \<or> min at (q + 1 + int spineKept) \<le> frontier at (extent w at n l)"
      proof (cases "at - q - 1 + n \<le> int spineKept")
        case True
        then have "spineHolds at n (extent w at n l)" unfolding spineHolds_all using known c F(2) assms(8) by auto
        then show ?thesis ..
      next
        case False
        define p where "p = min (at - 1) (q + int spineKept)"
        have "idAt (lv_bones (extent w at n l)) p \<noteq> None" "p < at"
          using known[of p] c False F(2) \<open>q \<noteq> at - 1\<close> kept assms(6,8) by (auto simp: p_def)
        then show ?thesis using frontier_reaches[OF A(1)] by (fastforce simp: p_def)
      qed
      moreover have "at \<noteq> 0" using F(1,2) by simp
      ultimately show ?thesis using A(1-3) walks F(1,4) None True by auto
    next
      case False
      have scope: "askFor at n l = \<lparr>ak_Count = n, ak_From = at, ak_After = None\<rparr>" using None False by (auto simp: askFor_def split: option.splits)
      define i where "i = (if jumps then nat at else 0)"
      have st: "startsAt jumps seq (askFor at n l) i" using assms(5) by (simp add: startsAt_def scope i_def)
      have i: "i < List.length seq" "0 < ak_Count (askFor at n l)" using assms(5,6,8) by (auto simp: scope i_def)
      note A = asked[OF st i]
      have known: "idAt (lv_bones (extent w at n l)) p \<noteq> None" if "int i \<le> p" "p < int i + n" "p < int (List.length seq)" for p
        using A(4)[of p] that assms(7) by (simp add: scope)
      have f: "\<not> (lv_walks l \<and> 0 < frontier at l)" using False by (cases "lastBefore at (lv_bones l)") (auto simp: frontier_def)
      show ?thesis
      proof (cases "jumps \<or> at = 0")
        case True
        then have "int i = at" using assms(5) by (auto simp: i_def)
        then have "spineHolds at n (extent w at n l)" unfolding spineHolds_all using known assms(8) by auto
        then show ?thesis using A(1-3) by simp
      next
        case False
        then have "i = 0" "0 < at" using assms(5) by (auto simp: i_def)
        have "0 < int (List.length seq)" using \<open>0 < at\<close> assms(6,8) by linarith
        then have "idAt (lv_bones (extent w at n l)) 0 \<noteq> None" using known[of 0] \<open>i = 0\<close> assms(6) by simp
        then have "0 < frontier at (extent w at n l)" using frontier_reaches[OF A(1)] \<open>0 < at\<close> by blast
        then show ?thesis using A(1-3,5) f None False \<open>i = 0\<close> by (auto simp: scope)
      qed
    qed
  qed
qed

lemma extent_held: "spineHolds at n l \<Longrightarrow> 0 \<le> at \<Longrightarrow> extent w at n l = l" by (simp add: extent_def)


subsection \<open>Where the list and its comments part\<close>

text \<open>A list that is walking puts a silent answer in the wrong place: where the question went on after the nearest row
  held below the stretch and the answer does not say where it begins, its rows are put at the stretch all the same, so
  the list names at that position the row that stands right after the one it asked to go on from.\<close>

theorem walking_misplaces_a_silent_answer:
  assumes "worldDocumented w" "wd_Open w (lv_declared l) (lv_items l) = Inr data" "knows seq l" "distinct seq" "lv_walks l" "0 < n" "at < int (List.length seq)"
    "idAt (lv_bones l) (at - 1) = None" "lastBefore at (lv_bones l) = Some (q, v)" "\<not> spineHolds at n l" "0 \<le> at"
    "ds_Read data (askFor at n l) = Inr (Some a)" "an_rows a = map Some (take (nat (ak_Count (askFor at n l))) (drop (nat (q + 1)) seq))"
    "\<not> rc_Exact (an_First a)" "\<not> rc_Exact (an_begin a)" "an_Error a = []" "n \<le> 512"
  shows "ak_After (askFor at n l) = v \<and> v = Some (seq ! nat q) \<and> idAt (lv_bones (extent w at n l)) at = Some (Some (seq ! nat (q + 1)))
    \<and> seq ! nat (q + 1) \<noteq> seq ! nat at \<and> \<not> knows seq (extent w at n l)"
proof -
  note F = frontier_held[OF assms(3,9)]
  have q: "q \<noteq> at - 1" using F(3) assms(8) by auto
  define c where "c = ak_Count (askFor at n l)"
  have ask: "ak_After (askFor at n l) = v" "0 < c" "c \<le> int spineKept"
    using assms(5,6,8,9,17) F(1,2,6) q by (auto simp: askFor_def c_def Let_def spineKept_def)
  let ?xs = "take (nat c) (drop (nat (q + 1)) seq)"
  define s where "s = learn (wd_counting w) (an_Total a) (lv_bones l)"
  have e: "extent w at n l = settleList w at (lv_asks l) False a l"
    using assms(2,6,10,11,12) ask(1) F(6) by (simp add: extent_def sequence_def Let_def)
  have ne: "?xs \<noteq> []" using ask(2) F(1,2) assms(7) by simp
  have b: "lv_bones (extent w at n l) = place at (rowsOf ?xs) s"
    unfolding e s_def by (rule settleList_silent[OF assms(1) assms(13)[folded c_def] assms(14-16)])
  have sound: "soundRuns (bo_runs s)" using knows_sound[OF assms(3)] by (simp add: s_def)
  have len: "List.length (rowsOf ?xs) \<le> spineKept" "0 < List.length (rowsOf ?xs)" using ask(3) ne by auto
  have "rowOf (place at (rowsOf ?xs) s) at = Some (rowsOf ?xs ! nat (at - at))"
    by (rule place_spec(4)[OF sound assms(11)]) (use len ne in auto)
  moreover have "?xs ! 0 = seq ! nat (q + 1)" "0 < List.length ?xs" using ne ask(2) F(1,2) assms(7) by (simp_all)
  ultimately have id: "idAt (lv_bones (extent w at n l)) at = Some (Some (seq ! nat (q + 1)))" using ask(2) by (simp add: b idAt_def)
  have "nat (q + 1) \<noteq> nat at" "nat (q + 1) < List.length seq" "nat at < List.length seq" using q F(1,2) assms(7) by linarith+
  then have ne': "seq ! nat (q + 1) \<noteq> seq ! nat at" using assms(4) by (simp add: nth_eq_iff_index_eq)
  moreover have "\<not> knows seq (extent w at n l)" using knows_idAt[OF _ id] ne' by auto
  ultimately show ?thesis using ask(1) F(6) id by simp
qed

text \<open>Whatever learning, placing, resolving, settling and saying keep, an answer keeps.\<close>

lemma settleList_keeps:
  assumes "P l" "\<And>l b. P l \<Longrightarrow> P (l\<lparr>lv_bones := b\<rparr>)" "\<And>l b. P l \<Longrightarrow> P (l\<lparr>lv_walks := b\<rparr>)" "\<And>l. P l \<Longrightarrow> P (resolve w l)"
    "\<And>l. P l \<Longrightarrow> P (settledList w l)" "\<And>l m. P l \<Longrightarrow> P (say m l)"
  shows "P (settleList w e k p a l)"
  unfolding settleList_def Let_def by (auto split: if_split intro!: assms simp del: rowsOf_simps)

lemma current_keeps:
  assumes "lv_currentIndex l = i \<and> lv_chosen l = c" "0 \<le> i"
  shows "lv_currentIndex (resolve w l) = i \<and> lv_chosen (resolve w l) = c" "lv_currentIndex (settledList w l) = i \<and> lv_chosen (settledList w l) = c"
  using assms by (auto simp: resolve_def settledList_def split: option.splits)

lemma settleList_current:
  "lv_currentIndex l \<ge> 0 \<Longrightarrow> lv_currentID l \<noteq> None \<Longrightarrow> lv_currentIndex (settleList w e k p a l) = lv_currentIndex l \<and> lv_currentID (settleList w e k p a l) = lv_currentID l"
  "lv_currentIndex l \<ge> 0 \<Longrightarrow> lv_currentIndex (settleList w e k p a l) = lv_currentIndex l \<and> lv_chosen (settleList w e k p a l) = lv_chosen l"
proof -
  show "lv_currentIndex (settleList w e k p a l) = lv_currentIndex l \<and> lv_currentID (settleList w e k p a l) = lv_currentID l"
    if h: "lv_currentIndex l \<ge> 0" "lv_currentID l \<noteq> None"
    by (rule settleList_keeps[where P = "\<lambda>x. lv_currentIndex x = lv_currentIndex l \<and> lv_currentID x = lv_currentID l"])
       (use h in \<open>auto simp: resolve_def settledList_def\<close>)
  show "lv_currentIndex (settleList w e k p a l) = lv_currentIndex l \<and> lv_chosen (settleList w e k p a l) = lv_chosen l" if h: "lv_currentIndex l \<ge> 0"
    by (rule settleList_keeps[where P = "\<lambda>x. lv_currentIndex x = lv_currentIndex l \<and> lv_chosen x = lv_chosen l"])
       (simp_all add: current_keeps[OF _ h])
qed

lemma extent_current:
  "lv_currentIndex l \<ge> 0 \<Longrightarrow> lv_currentID l \<noteq> None \<Longrightarrow> lv_currentIndex (extent w at n l) = lv_currentIndex l \<and> lv_currentID (extent w at n l) = lv_currentID l"
  "lv_currentIndex l \<ge> 0 \<Longrightarrow> lv_currentIndex (extent w at n l) = lv_currentIndex l \<and> lv_chosen (extent w at n l) = lv_chosen l"
  by (auto simp: extent_def sequence_def Let_def settleList_current split: sum.splits option.splits)

text \<open>Moving the current row by position leaves the identity of the row it was: the list then answers one row as current by
  position and another by identity; and where it was moved to no row at all, the row it was is current and
  chosen again with the next answer that settles.\<close>

theorem moving_keeps_the_old_identity:
  assumes "lv_currentID l = Some v" "fst (CountRows w l) = n" "index \<noteq> lv_currentIndex l"
  shows "(0 \<le> index \<and> index < n \<longrightarrow> lv_currentIndex (SetCurrentIndex w index l) = index \<and> lv_currentID (SetCurrentIndex w index l) = Some v)
    \<and> (index = -1 \<and> 0 \<le> n \<and> posOf (id_Key (wd_ids w)) (Some v) (lv_bones (snd (CountRows w l))) = Some at \<and> 0 \<le> at \<and> lv_mode (snd (CountRows w l)) = SingleSelection \<longrightarrow>
        (let l1 = SetCurrentIndex w (-1) l; l2 = resolve w l1 in
         lv_currentIndex l1 = -1 \<and> nothingChosen (lv_chosen l1) \<and> lv_currentIndex l2 = at \<and> isChosen (wd_ids w) (Some v) (lv_chosen l2)))"
proof -
  obtain l1 where c: "CountRows w l = (n, l1)" using assms(2) by (cases "CountRows w l") auto
  have l1: "lv_currentIndex l1 = lv_currentIndex l" "lv_currentID l1 = Some v" using CountRows_keeps(3,4)[of w l] assms(1) c by simp_all
  have "lv_currentIndex (SetCurrentIndex w index l) = index \<and> lv_currentID (SetCurrentIndex w index l) = Some v" if "0 \<le> index" "index < n"
    using that c l1 assms(3) extent_current(1)[of "l1\<lparr>lv_currentIndex := index, lv_chosen := chooseNone\<rparr>" w index 1]
    by (auto simp: SetCurrentIndex_def Let_def split: option.splits)
  moreover have "isChosen (wd_ids w) (Some v) (only (wd_ids w) (Some v))" by (simp add: isChosen_keys only_def chosenKeys_choose)
  ultimately show ?thesis using c l1 assms(3)
    by (auto simp: SetCurrentIndex_def Let_def resolve_def nothingChosen_keys say_def)
qed

text \<open>A row made current before it has been named is never chosen: in a single-selection list whose source has yet to answer,
  making a row current leaves nothing chosen, and no answer that arrives afterwards chooses it.\<close>

theorem a_blank_row_is_never_chosen:
  assumes "fst (CountRows w l) = n" "0 \<le> index" "index < n" "index \<noteq> lv_currentIndex l" "lv_mode (snd (CountRows w l)) = SingleSelection"
    "idAt (lv_bones (extent w index 1 ((snd (CountRows w l))\<lparr>lv_currentIndex := index, lv_chosen := chooseNone\<rparr>))) index = None"
  shows "let l' = SetCurrentIndex w index l in lv_currentIndex l' = index \<and> nothingChosen (lv_chosen l')
    \<and> nothingChosen (lv_chosen (settleList w expected asked positional a l'))"
proof -
  obtain l1 where c: "CountRows w l = (n, l1)" using assms(1) by (cases "CountRows w l") auto
  have l1: "lv_currentIndex l1 = lv_currentIndex l" using CountRows_keeps(3)[of w l] c by simp
  let ?l = "l1\<lparr>lv_currentIndex := index, lv_chosen := chooseNone\<rparr>"
  have "lv_currentIndex (extent w index 1 ?l) = index" using extent_current(2)[of ?l w index 1] assms(2) by simp
  moreover have "SetCurrentIndex w index l = say (CurrentChanged index) (say SelectionChanged (extent w index 1 ?l))"
  proof -
    have mode: "lv_mode (l1\<lparr>lv_currentIndex := index\<rparr>) = SingleSelection" using assms(5) c by simp
    have none: "idAt (lv_bones (extent w index 1 ((l1\<lparr>lv_currentIndex := index\<rparr>)\<lparr>lv_chosen := chooseNone\<rparr>))) index = None" using assms(6) c by simp
    show ?thesis unfolding SetCurrentIndex_def c prod.case l1 Let_def using assms(2-4) mode none by simp
  qed
  moreover have "lv_chosen (extent w index 1 ?l) = chooseNone" using extent_current(2)[of ?l w index 1] assms(2) by simp
  ultimately show ?thesis using assms(2) by (simp add: Let_def settleList_current nothingChosen_keys)
qed

text \<open>A row asked for by identity is given up by the first answer that is not about it: while the list waits to be told
  where the row stands, any answer that settles and does not name it, such as a screenful of rows somewhere else,
  leaves nothing selected and says so, however surely the sequence holds the row further on.\<close>

theorem a_pending_row_is_given_up_early:
  assumes "worldDocumented w" "knows seq l" "i < List.length seq" "0 < m" "an_rows a = map Some (take m (drop i seq))"
    "an_First a = \<lparr>rc_N = int i, rc_Exact = True\<rparr>" "an_Total a = \<lparr>rc_N = int (List.length seq), rc_Exact = True\<rparr>" "an_Error a = []"
    "an_Stop a \<noteq> []" "lv_currentIndex l = -1" "lv_currentID l = Some v" "posOf (id_Key (wd_ids w)) (Some v) (lv_bones l) = None"
    "id_Key (wd_ids w) v \<notin> id_Key (wd_ids w) ` set (take m (drop i seq))"
  shows "let l' = settleList w expected (lv_asks l) positional a l in
    lv_currentID l' = None \<and> lv_currentIndex l' = -1 \<and> last (lv_said l') = CurrentChanged (-1)"
proof -
  let ?key = "id_Key (wd_ids w)" and ?rs = "rowsOf (take m (drop i seq))"
  define l' where "l' = settleList w expected (lv_asks l) positional a l"
  have b: "lv_bones l' = place (int i) ?rs (learn (wd_counting w) (an_Total a) (lv_bones l))"
    unfolding l'_def by (rule settleList_bones(1)[OF assms(1,5,6,8)])
  define s where "s = learn (wd_counting w) (an_Total a) (lv_bones l)"
  have sound: "soundRuns (bo_runs s)" using knows_sound[OF assms(2)] by (simp add: s_def)
  have ne: "?rs \<noteq> []" using assms(3,4) by simp
  note P = place_spec[OF sound _ ne, of "int i", simplified]
  have old: "posOf ?key (Some v) s = None" using assms(12) by (simp add: s_def posOf_def)
  have "posOf ?key (Some v) (place (int i) ?rs s) = None"
  proof (rule ccontr)
    assume "posOf ?key (Some v) (place (int i) ?rs s) \<noteq> None"
    then obtain p where "posOf ?key (Some v) (place (int i) ?rs s) = Some p" by blast
    then obtain u where u: "idAt (place (int i) ?rs s) p = Some (Some u)" "?key u = ?key v" using posOf_spec(1)[OF P(1)] by blast
    then obtain x where x: "rowOf (place (int i) ?rs s) p = Some x" "nm_id x = Some u" by (auto simp: idAt_def)
    show False
    proof (cases "int i \<le> p \<and> p < int i + int (List.length ?rs)")
      case True
      then have k: "nat (p - int i) < List.length (take m (drop i seq))" by simp linarith
      have "x = ?rs ! nat (p - int i)" using P(3)[OF x(1)] True by (simp split: if_splits)
      then have "u = take m (drop i seq) ! nat (p - int i)" using k x(2) by simp
      then have "u \<in> set (take m (drop i seq))" using k by (metis nth_mem)
      then show False using assms(13) u(2) by (metis imageI)
    next
      case False
      then have "idAt s p = Some (Some u)" using P(3)[OF x(1)] x(2) by (auto simp: idAt_def split: if_splits)
      then show False using posOf_spec(2)[OF sound old] u(2) by blast
    qed
  qed
  then have gone: "posOf ?key (Some v) (lv_bones l') = None" by (simp add: b s_def)
  define l3 where "l3 = (if positional \<and> int i \<noteq> expected then l\<lparr>lv_bones := s, lv_walks := True\<rparr> else l\<lparr>lv_bones := s\<rparr>)"
  have n: "map (\<lambda>v. \<lparr>nm_id = v, nm_deep = 0\<rparr>) (an_rows a) = ?rs" by (simp add: assms(5) rowsOf_def)
  have "l' = settledList w (say Untroubled (resolve w (l3\<lparr>lv_bones := place (int i) ?rs s\<rparr>)))"
    unfolding l'_def settleList_def Let_def n s_def[symmetric] l3_def using ne assms(6,8,9) by (simp add: s_def)
  moreover have "resolve w (l3\<lparr>lv_bones := place (int i) ?rs s\<rparr>) = l3\<lparr>lv_bones := place (int i) ?rs s\<rparr>"
    using assms(10,11) gone unfolding b s_def[symmetric] by (simp add: resolve_def l3_def)
  ultimately show ?thesis using assms(10,11) gone unfolding b s_def[symmetric] l'_def[symmetric]
    by (simp add: Let_def settledList_def l3_def say_def)
qed

subsection \<open>A world at hand\<close>

text \<open>Numbers for identities, with tallies for keys, and a source of given rows that may or may not jump and say where it begins.\<close>

definition tally :: "int \<Rightarrow> string" where "tally v = (if v < 0 then ''-'' else []) @ replicate (nat (abs v)) (CHR ''i'')"

definition numbers :: "int identities" where "numbers = \<lparr>id_Key = tally, id_Int = Some, id_NewInt = (\<lambda>i. i)\<rparr>"

definition heldRows :: "bool \<Rightarrow> bool \<Rightarrow> int list \<Rightarrow> int dataset" where
  "heldRows jumps says seq =
     \<lparr>ds_Count = \<lparr>rc_N = int (List.length seq), rc_Exact = True\<rparr>,
      ds_Read = (\<lambda>scope.
        let i = (case ak_After scope of None \<Rightarrow> if jumps then nat (ak_From scope) else 0 | Some v \<Rightarrow> Suc (List.length (takeWhile (\<lambda>x. x \<noteq> v) seq)));
            some = take (nat (ak_Count scope)) (drop i seq)
        in Inr (Some \<lparr>an_rows = map Some some, an_begin = \<lparr>rc_N = 0, rc_Exact = False\<rparr>,
             an_First = (if says then \<lparr>rc_N = int i, rc_Exact = True\<rparr> else \<lparr>rc_N = 0, rc_Exact = False\<rparr>),
             an_Total = \<lparr>rc_N = int (List.length seq), rc_Exact = True\<rparr>,
             an_Stop = (if i + List.length some < List.length seq then ''filled'' else ''exhausted''), an_Error = []\<rparr>))\<rparr>"

definition worldOf :: "int dataset \<Rightarrow> int world" where
  "worldOf data = \<lparr>wd_ids = numbers, wd_counting = documentedCounts, wd_Exactly = (\<lambda>n. \<lparr>rc_N = n, rc_Exact = True\<rparr>), wd_Open = (\<lambda>declared items. Inr data)\<rparr>"

lemma tally_inj: "inj tally"
proof (rule injI)
  fix v u assume t: "tally v = tally u"
  have h: "v < 0 \<longleftrightarrow> CHR ''-'' \<in> set (tally v)" "List.length (tally v) = (if v < 0 then 1 else 0) + nat (abs v)" for v by (auto simp: tally_def)
  have "v < 0 \<longleftrightarrow> u < 0" "nat (abs v) = nat (abs u)" using h[of v] h[of u] t by (auto split: if_splits)
  then show "v = u" by (auto simp: abs_if split: if_splits)
qed

lemma worldOf_simps [simp]: "wd_ids (worldOf data) = numbers" "wd_counting (worldOf data) = documentedCounts" "wd_Open (worldOf data) = (\<lambda>declared items. Inr data)"
  by (simp_all add: worldOf_def)

lemma worldOf_ok: "worldDocumented (worldOf data)" by (simp add: worldDocumented_def documentedCounts_ok) (simp add: worldOf_def)

lemma numbers_ok: "identitiesDocumented numbers" by (auto simp: identitiesDocumented_def numbers_def tally_inj)

lemma heldRows_ok:
  assumes "distinct seq"
  shows "answersTruly jumps seq (heldRows jumps True seq)"
proof -
  have pos: "List.length (takeWhile (\<lambda>x. x \<noteq> seq ! j) seq) = j" if "j < List.length seq" for j
  proof -
    have "takeWhile (\<lambda>x. x \<noteq> seq ! j) seq = take j seq"
      by (rule takeWhile_eq_take_P_nth) (use that assms in \<open>auto simp: nth_eq_iff_index_eq\<close>)
    then show ?thesis using that by simp
  qed
  show ?thesis by (auto simp: answersTruly_def startsAt_def heldRows_def Let_def pos split: option.splits)
qed

definition sixteen :: "int list" where "sixteen = [10, 11, 12, 13, 14, 15]"

definition firstKnown :: "int listview" where "firstKnown = NewListView\<lparr>lv_bones := place 0 (rowsOf [10]) emptySpine, lv_walks := True\<rparr>"

lemma knows_new: "knows seq (NewListView :: int listview)"
  by (simp add: knows_def NewListView_def emptySpine_def trueTo_def follows_def rowOf_def countHolds_def spineHeld_def heldIn_def)

lemma knows_first: "knows sixteen firstKnown"
proof -
  have "trueTo (rowsOf sixteen, emptySpine)" using knows_new[of sixteen] by (simp add: knows_def NewListView_def)
  then have "trueTo (rowsOf sixteen, place 0 (rowsOf [10]) emptySpine)"
    by (rule moves_trueTo[OF moves.Told documentedCounts_ok, rotated 3]) (simp_all add: sixteen_def rowsOf_def)
  then show ?thesis by (simp add: knows_def firstKnown_def)
qed



theorem walking_misplaces_a_silent_answer_witness:
  "idAt (lv_bones (extent (worldOf (heldRows False False sixteen)) 3 1 firstKnown)) 3 = Some (Some 11) \<and> sixteen ! 3 = 13"
proof -
  let ?data = "heldRows False False sixteen"
  have ask: "askFor 3 1 firstKnown = \<lparr>ak_Count = 3, ak_From = 0, ak_After = Some 10\<rparr>" by code_simp
  have facts: "idAt (lv_bones firstKnown) 2 = None" "lastBefore 3 (lv_bones firstKnown) = Some (0, Some 10)" "\<not> spineHolds 3 1 firstKnown" "lv_walks firstKnown"
    by code_simp+
  define a where "a = (case ds_Read ?data (askFor 3 1 firstKnown) of Inr (Some a) \<Rightarrow> a | _ \<Rightarrow> undefined)"
  have r: "ds_Read ?data (askFor 3 1 firstKnown) = Inr (Some a)" "an_rows a = map Some (take 3 (drop 1 sixteen))"
    "\<not> rc_Exact (an_First a)" "\<not> rc_Exact (an_begin a)" "an_Error a = []"
    by (simp_all add: a_def heldRows_def Let_def ask sixteen_def)
  show ?thesis using walking_misplaces_a_silent_answer[OF worldOf_ok _ knows_first _ facts(4) _ _ _ facts(2,3) _ r(1) _ r(3-5)] facts(1) r(2) ask
    by (simp add: sixteen_def)
qed

theorem moving_keeps_the_old_identity_witness:
  "lv_currentIndex (SetCurrentIndex (worldOf (heldRows True True sixteen)) 3 (NewListView\<lparr>lv_currentIndex := 0, lv_currentID := Some 10\<rparr>)) = 3
    \<and> lv_currentID (SetCurrentIndex (worldOf (heldRows True True sixteen)) 3 (NewListView\<lparr>lv_currentIndex := 0, lv_currentID := Some 10\<rparr>)) = Some 10"
proof -
  let ?l = "NewListView\<lparr>lv_currentIndex := 0, lv_currentID := Some 10\<rparr> :: int listview" and ?w = "worldOf (heldRows True True sixteen)"
  have c: "fst (CountRows ?w ?l) = 6"
    by (simp add: CountRows_def sequence_def Let_def heldRows_def learn_def NewListView_def emptySpine_def spineRows_def documentedCounts_def sixteen_def)
  show ?thesis using moving_keeps_the_old_identity[OF _ c, of 10 3] by simp
qed

definition notYet :: "int dataset" where "notYet = \<lparr>ds_Count = \<lparr>rc_N = 6, rc_Exact = True\<rparr>, ds_Read = (\<lambda>scope. Inr None)\<rparr>"

theorem a_blank_row_is_never_chosen_witness:
  "let l' = SetCurrentIndex (worldOf notYet) 2 NewListView;
       a = \<lparr>an_rows = map Some [10, 11, 12], an_begin = \<lparr>rc_N = 0, rc_Exact = True\<rparr>, an_First = \<lparr>rc_N = 0, rc_Exact = True\<rparr>,
            an_Total = \<lparr>rc_N = 6, rc_Exact = True\<rparr>, an_Stop = ''filled'', an_Error = []\<rparr>
   in lv_currentIndex l' = 2 \<and> nothingChosen (lv_chosen (settleList (worldOf notYet) 2 (lv_asks l') True a l'))"
proof -
  let ?l = "NewListView :: int listview"
  have c: "CountRows (worldOf notYet) ?l = (6, ?l\<lparr>lv_bones := \<lparr>bo_runs = [], bo_total = \<lparr>rc_N = 6, rc_Exact = True\<rparr>, bo_anchor = 0\<rparr>\<rparr>)"
    by (simp add: CountRows_def sequence_def Let_def notYet_def learn_def NewListView_def emptySpine_def spineRows_def documentedCounts_def)
  show ?thesis
    using a_blank_row_is_never_chosen[of "worldOf notYet" ?l 6 2, where expected = 2 and positional = True and asked = "lv_asks (SetCurrentIndex (worldOf notYet) 2 ?l)"
      and a = "\<lparr>an_rows = map Some [10, 11, 12], an_begin = \<lparr>rc_N = 0, rc_Exact = True\<rparr>, an_First = \<lparr>rc_N = 0, rc_Exact = True\<rparr>,
            an_Total = \<lparr>rc_N = 6, rc_Exact = True\<rparr>, an_Stop = ''filled'', an_Error = []\<rparr>"]
    by (simp add: c Let_def) (simp add: NewListView_def extent_def spineHolds_def idAt_def rowOf_def sequence_def notYet_def Let_def)
qed

theorem a_pending_row_is_given_up_early_witness:
  "let l' = settleList (worldOf (heldRows True True sixteen)) 0 0 True
         \<lparr>an_rows = map Some [10, 11], an_begin = \<lparr>rc_N = 0, rc_Exact = True\<rparr>, an_First = \<lparr>rc_N = 0, rc_Exact = True\<rparr>,
          an_Total = \<lparr>rc_N = 6, rc_Exact = True\<rparr>, an_Stop = ''filled'', an_Error = []\<rparr> (NewListView\<lparr>lv_currentID := Some 14\<rparr>)
   in lv_currentID l' = None \<and> last (lv_said l') = CurrentChanged (-1) \<and> 14 \<in> set sixteen"
proof -
  let ?l = "NewListView\<lparr>lv_currentID := Some 14\<rparr> :: int listview"
  have k: "knows sixteen ?l" using knows_new[of sixteen] by (simp add: knows_def)
  have e: "posOf tally (Some 14) (lv_bones ?l) = None" "tally 14 \<notin> tally ` set (take 2 (drop 0 sixteen))" "lv_asks ?l = 0" "lv_currentIndex ?l = -1"
    by (simp add: NewListView_def emptySpine_def posOf_def) (auto simp: inj_eq[OF tally_inj] sixteen_def NewListView_def)
  show ?thesis
    using a_pending_row_is_given_up_early[OF worldOf_ok[of "heldRows True True sixteen"] k, of 0 2
      "\<lparr>an_rows = map Some [10, 11], an_begin = \<lparr>rc_N = 0, rc_Exact = True\<rparr>, an_First = \<lparr>rc_N = 0, rc_Exact = True\<rparr>,
          an_Total = \<lparr>rc_N = 6, rc_Exact = True\<rparr>, an_Stop = ''filled'', an_Error = []\<rparr>" 14 0 True] e
    by (simp add: Let_def numbers_def sixteen_def)
qed

end
