(* ===== verification/AppSource.thy ===== *)
theory AppSource
  imports WireVocabulary "HOL-Library.AList"
begin

text \<open>
  A source whose records an application serves (\<open>source/application.go\<close>): sequences stated over it, the scopes asked for
  and still waiting, and what each statement of the application does to them. Scopes and sequences are numbers, in the
  order they were made; \<open>ap_log\<close> is what the readers were handed and told, and \<open>ap_sent\<close> what was written. An identity's
  key belongs to the module \<open>serval\<close> and is a parameter, as are the words and counts of \<open>lib\<close>. Locks are left out: each
  operation is one step, and a listener that reads again while it is being told does so in steps of its own before
  the telling ends.
\<close>

subsection \<open>State\<close>

record appScope =
  sp_set :: nat
  sp_extend :: bool
  sp_held :: "(string \<times> field list) list"
  sp_from :: u64
  sp_id :: u64
  sp_done :: bool

record appSet =
  se_descriptor :: DataSetDescriptor
  se_closed :: bool
  se_live :: "nat list"
  se_total :: count

text \<open>What a reader is handed: whether it takes places is \<open>sp_extend\<close>.\<close>

datatype handed =
    SinkOrdered
  | SinkRecord "data option" "field list"
  | SinkSubset "data option" "field list" totals
  | SinkPlace "data option" "field list"
  | SinkPlaced Complete
  | SinkDone Complete

datatype appEvent = Handed nat handed | Arrival | Telling | Noticed Stale

record appSource =
  ap_name :: string
  ap_connected :: bool
  ap_opening :: "nat list"
  ap_byID :: "u64 \<Rightarrow> nat option"
  ap_firing :: bool
  ap_again :: bool
  ap_sets :: "appSet list"
  ap_scopes :: "appScope list"
  ap_sent :: "string list"
  ap_log :: "appEvent list"

definition NewApplicationSource :: "string \<Rightarrow> bool \<Rightarrow> appSource" where
  "NewApplicationSource name connected =
     \<lparr>ap_name = name, ap_connected = connected, ap_opening = [], ap_byID = (\<lambda>i. None), ap_firing = False, ap_again = False, ap_sets = [],
      ap_scopes = [], ap_sent = [], ap_log = []\<rparr>"

definition logged :: "appEvent \<Rightarrow> appSource \<Rightarrow> appSource" where "logged e h = h\<lparr>ap_log := ap_log h @ [e]\<rparr>"

definition updScope :: "nat \<Rightarrow> (appScope \<Rightarrow> appScope) \<Rightarrow> appSource \<Rightarrow> appSource" where
  "updScope q f h = h\<lparr>ap_scopes := (ap_scopes h)[q := f (ap_scopes h ! q)]\<rparr>"

definition updSet :: "nat \<Rightarrow> (appSet \<Rightarrow> appSet) \<Rightarrow> appSource \<Rightarrow> appSource" where
  "updSet i f h = h\<lparr>ap_sets := (ap_sets h)[i := f (ap_sets h ! i)]\<rparr>"

definition writes :: "string \<Rightarrow> appSource \<Rightarrow> appSource" where "writes s h = h\<lparr>ap_sent := ap_sent h @ [s]\<rparr>"

subsection \<open>What an error says\<close>

text \<open>The text of an error: each verb of the format takes the next of the texts it was given.\<close>

fun formatted :: "string \<Rightarrow> string list \<Rightarrow> string" where
  "formatted [] as = []"
| "formatted (CHR ''%'' # v # cs) (a # as) = a @ formatted cs as"
| "formatted (c # cs) as = c # formatted cs as"

fun errorMessage :: "goError \<Rightarrow> string" where
  "errorMessage (Errorf fmt as) = formatted fmt as"
| "errorMessage (In what e) = what @ '': '' @ errorMessage e"

definition failed :: "string \<Rightarrow> Complete" where "failed why = emptyComplete\<lparr>c_Error := why\<rparr>"

subsection \<open>A scope ends\<close>

definition learnTotal :: "servalLib \<Rightarrow> nat \<Rightarrow> count \<Rightarrow> appSource \<Rightarrow> appSource" where
  "learnTotal lib i n h =
     (if totalNothing lib n then h
      else updSet i (\<lambda>s. if \<not> cExact (se_total s) \<or> cExact n then s\<lparr>se_total := n\<rparr> else s) h)"

definition askedScope :: "nat \<Rightarrow> appSource \<Rightarrow> appSource" where "askedScope q h = h\<lparr>ap_opening := ap_opening h @ [q]\<rparr>"

definition forgetScope :: "nat \<Rightarrow> appSource \<Rightarrow> appSource" where
  "forgetScope q h0 =
     (let h = h0\<lparr>ap_opening := remove1 q (ap_opening h0)\<rparr>;
          h = (if sp_id (ap_scopes h ! q) \<noteq> 0 then h\<lparr>ap_byID := (ap_byID h)(sp_id (ap_scopes h ! q) := None)\<rparr> else h)
      in updSet (sp_set (ap_scopes h ! q)) (\<lambda>s. s\<lparr>se_live := remove1 q (se_live s)\<rparr>) h)"

text \<open>An arrival: a round of telling starts, or one more is owed where one is under way. What the listeners do is
  steps of theirs; \<open>tellingEnds\<close> is the end of the round they were told in.\<close>

definition arrived :: "appSource \<Rightarrow> appSource" where
  "arrived h0 =
     (let h = logged Arrival h0 in
      if ap_firing h then h\<lparr>ap_again := True\<rparr> else logged Telling (h\<lparr>ap_firing := True\<rparr>))"

definition tellingEnds :: "appSource \<Rightarrow> appSource" where
  "tellingEnds h =
     (if \<not> ap_firing h then h
      else if ap_again h then logged Telling (h\<lparr>ap_again := False\<rparr>)
      else h\<lparr>ap_firing := False\<rparr>)"

definition finishWith :: "servalLib \<Rightarrow> nat \<Rightarrow> Complete \<Rightarrow> bool \<Rightarrow> appSource \<Rightarrow> appSource" where
  "finishWith lib q done0 answered h0 =
     (let s = ap_scopes h0 ! q in
      if sp_done s then h0
      else
        (let h = updScope q (\<lambda>s. s\<lparr>sp_done := True\<rparr>) h0;
             done = (if sp_from s \<noteq> 0 \<and> \<not> cExact (First done0) \<and> c_Error done0 = [] then done0\<lparr>First := exactly lib 0\<rparr> else done0);
             h = learnTotal lib (sp_set s) (Total done) h;
             h = forgetScope q h;
             h = logged (Handed q (SinkDone done)) h;
             h = (if sp_id s \<noteq> 0 then writes (''destroy '' @ formatUint (sp_id s) @ [char_of rNL] @ ''end'' @ [char_of rNL]) h else h)
         in if answered then arrived h else h))"

definition finish :: "servalLib \<Rightarrow> nat \<Rightarrow> Complete \<Rightarrow> appSource \<Rightarrow> appSource" where "finish lib q c = finishWith lib q c True"
definition hungUp :: "servalLib \<Rightarrow> nat \<Rightarrow> Complete \<Rightarrow> appSource \<Rightarrow> appSource" where "hungUp lib q c = finishWith lib q c False"

subsection \<open>Asking\<close>

definition OpenSet :: "DataSetDescriptor option \<Rightarrow> appSource \<Rightarrow> (string + nat) \<times> appSource" where
  "OpenSet descriptor h =
     (let d = (case descriptor of None \<Rightarrow> emptyDescriptor | Some d \<Rightarrow> d) in
      if \<not> ap_connected h then (Inl ''this source has no connection to ask'', h)
      else (Inr (List.length (ap_sets h)),
            h\<lparr>ap_sets := ap_sets h @ [\<lparr>se_descriptor = d\<lparr>Source := ap_name h\<rparr>, se_closed = False, se_live = [], se_total = \<lparr>cN = 0, cExact = False\<rparr>\<rparr>]\<rparr>))"

text \<open>The sink is \<open>None\<close> where there is none, and otherwise whether it takes places; \<open>refused\<close> is what the connection says of
  the write, empty where it took it.\<close>

definition ReadScope :: "servalLib \<Rightarrow> nat \<Rightarrow> Scope option \<Rightarrow> bool option \<Rightarrow> string \<Rightarrow> appSource \<Rightarrow> string \<times> appSource" where
  "ReadScope lib i scope out refused h0 =
     (case out of
        None \<Rightarrow> (''a scope needs somewhere to put the answer'', h0)
      | Some places \<Rightarrow>
          (let sc = (case scope of None \<Rightarrow> emptyScope | Some sc \<Rightarrow> sc) in
           if se_closed (ap_sets h0 ! i) then (''this data set has been closed'', h0)
           else
             (let q = List.length (ap_scopes h0);
                  h = h0\<lparr>ap_scopes := ap_scopes h0 @ [\<lparr>sp_set = i, sp_extend = places, sp_held = [], sp_from = From sc, sp_id = 0, sp_done = False\<rparr>]\<rparr>;
                  h = updSet i (\<lambda>s. s\<lparr>se_live := se_live s @ [q]\<rparr>) h;
                  h = askedScope q h;
                  stmt = ''q=new query '' @ EncodeDescriptor lib (se_descriptor (ap_sets h ! i)) @ '' '' @ EncodeScope sc;
                  stmt = (if places then stmt @ '' extend'' else stmt)
              in if refused \<noteq> [] then (refused, finish lib q (failed refused) h)
                 else ([], writes (stmt @ [char_of rNL] @ ''end'' @ [char_of rNL]) h))))"

definition CloseSet :: "servalLib \<Rightarrow> nat \<Rightarrow> appSource \<Rightarrow> appSource" where
  "CloseSet lib i h0 =
     (if se_closed (ap_sets h0 ! i) then h0
      else
        (let live = se_live (ap_sets h0 ! i);
             h = updSet i (\<lambda>s. s\<lparr>se_closed := True, se_live := []\<rparr>) h0
         in fold (\<lambda>q. hungUp lib q (failed ''this data set has been closed'')) live h))"

definition SetRecordCount :: "nat \<Rightarrow> appSource \<Rightarrow> count" where "SetRecordCount i h = se_total (ap_sets h ! i)"

subsection \<open>What the application says\<close>

text \<open>The first scope still waiting for its number.\<close>

definition unnamedScope :: "appSource \<Rightarrow> nat option" where
  "unnamedScope h = List.find (\<lambda>q. sp_id (ap_scopes h ! q) = 0) (ap_opening h)"

definition replyID :: "arg list \<Rightarrow> u64" where
  "replyID args = fold (\<lambda>a i. if a_name a = ''q'' then (case a_value a of Some (IntValue v) \<Rightarrow> v | _ \<Rightarrow> i) else i) args 0"

definition name1 :: "statement \<Rightarrow> appSource \<Rightarrow> bool \<times> appSource" where
  "name1 stmt h =
     (let i = replyID (st_args stmt) in
      if i = 0 then (False, h)
      else (case unnamedScope h of
              None \<Rightarrow> (False, h)
            | Some q \<Rightarrow> (True, (updScope q (\<lambda>s. s\<lparr>sp_id := i\<rparr>) h)\<lparr>ap_byID := (ap_byID h)(i := Some q)\<rparr>)))"

definition refusedBatch :: "servalLib \<Rightarrow> statement \<Rightarrow> appSource \<Rightarrow> bool \<times> appSource" where
  "refusedBatch lib stmt h =
     (case DecodeError stmt of
        Inl e \<Rightarrow> (False, h)
      | Inr why \<Rightarrow> (case unnamedScope h of None \<Rightarrow> (False, h) | Some q \<Rightarrow> (True, finish lib q (failed why) h)))"

definition staleNotice :: "servalLib \<Rightarrow> statement \<Rightarrow> appSource \<Rightarrow> bool \<times> appSource" where
  "staleNotice lib stmt h =
     (case ParseStale lib (st_args stmt) of
        Inl e \<Rightarrow> (False, h)
      | Inr n \<Rightarrow> if StaleSource n \<noteq> ap_name h then (False, h) else (True, arrived (logged (Noticed n) h)))"

definition addressed :: "statement \<Rightarrow> appSource \<Rightarrow> nat option" where
  "addressed stmt h =
     (case st_args stmt of
        [] \<Rightarrow> None
      | a # as \<Rightarrow> (if a_name a \<noteq> [] then None else (case a_value a of Some (IntValue i) \<Rightarrow> ap_byID h i | _ \<Rightarrow> None)))"

definition takePlace :: "servalLib \<Rightarrow> (data option \<Rightarrow> string) \<Rightarrow> nat \<Rightarrow> arg list \<Rightarrow> appSource \<Rightarrow> appSource" where
  "takePlace lib key q args h =
     (case ParsePlace lib args of
        Inl e \<Rightarrow> finish lib q (failed (errorMessage e)) h
      | Inr r \<Rightarrow>
          (let h = (if Ordered r then logged (Handed q SinkOrdered) h else h) in
           if \<not> sp_extend (ap_scopes h ! q) then h
           else
             (let h = (case ID r of
                         None \<Rightarrow> h
                       | Some v \<Rightarrow> logged (Handed q (SinkPlace (asData v) (r_Fields r)))
                           (updScope q (\<lambda>s. s\<lparr>sp_held := AList.update (key (asData v)) (r_Fields r) (sp_held s)\<rparr>) h))
              in case r_Complete r of None \<Rightarrow> h | Some c \<Rightarrow> logged (Handed q (SinkPlaced c)) h)))"

definition takeResult :: "servalLib \<Rightarrow> (data option \<Rightarrow> string) \<Rightarrow> nat \<Rightarrow> arg list \<Rightarrow> appSource \<Rightarrow> appSource" where
  "takeResult lib key q args h =
     (case ParseResult lib args of
        Inl e \<Rightarrow> finish lib q (failed (errorMessage e)) h
      | Inr r \<Rightarrow>
          (let h = (if Ordered r then logged (Handed q SinkOrdered) h else h);
               h = (case ID r of
                      None \<Rightarrow> h
                    | Some v \<Rightarrow>
                        (let s = ap_scopes h ! q;
                             was = (if sp_extend s then map_of (sp_held s) (key (asData v)) else None);
                             flds = (case was of Some f \<Rightarrow> f @ r_Fields r | None \<Rightarrow> r_Fields r);
                             h = (if was \<noteq> None then updScope q (\<lambda>s. s\<lparr>sp_held := AList.delete (key (asData v)) (sp_held s)\<rparr>) h else h)
                         in logged (Handed q (if Whole r then SinkRecord (asData v) flds else SinkSubset (asData v) flds (Has r))) h))
           in case r_Complete r of None \<Rightarrow> h | Some c \<Rightarrow> finish lib q c h))"

definition Inbound :: "servalLib \<Rightarrow> (data option \<Rightarrow> string) \<Rightarrow> statement \<Rightarrow> appSource \<Rightarrow> bool \<times> appSource" where
  "Inbound lib key stmt h =
     (if st_verb stmt = ''reply'' then name1 stmt h
      else if st_verb stmt = ''error'' then refusedBatch lib stmt h
      else if st_verb stmt = ''result'' then
        (case addressed stmt h of None \<Rightarrow> (False, h) | Some q \<Rightarrow> (True, takeResult lib key q (tl (st_args stmt)) h))
      else if st_verb stmt = ''place'' then
        (case addressed stmt h of None \<Rightarrow> (False, h) | Some q \<Rightarrow> (True, takePlace lib key q (tl (st_args stmt)) h))
      else if st_verb stmt = ''stale'' then staleNotice lib stmt h
      else (False, h))"

text \<open>A run of wire text, each statement in turn; one that does not parse does nothing.\<close>

definition Statements :: "servalLib \<Rightarrow> (data option \<Rightarrow> string) \<Rightarrow> string \<Rightarrow> appSource \<Rightarrow> appSource" where
  "Statements lib key src h =
     (case Parse src of
        Some (Inr (Script stmts)) \<Rightarrow> fold (\<lambda>stmt h. snd (Inbound lib key stmt h)) stmts h
      | _ \<Rightarrow> h)"

end
