(* ===== verification/AppSourceFacts.thy ===== *)
theory AppSourceFacts
  imports AppSource
begin

text \<open>
  What a source served by an application comes to: an invariant of every operation (\<open>appOK\<close>, with \<open>closedAreDone\<close> between
  operations), each reader told of its end once, answers matched with questions by their order as long as nothing that waits
  for a number is closed, and what happens when something is. Two sequences with a scope each (\<open>twoAsked\<close>) serve the examples.
\<close>

subsection \<open>What a reader was handed\<close>

fun handedTo :: "nat \<Rightarrow> appEvent list \<Rightarrow> handed list" where
  "handedTo q [] = []"
| "handedTo q (Handed p x # es) = (if p = q then x # handedTo q es else handedTo q es)"
| "handedTo q (e # es) = handedTo q es"

fun isDone :: "handed \<Rightarrow> bool" where
  "isDone (SinkDone c) = True"
| "isDone x = False"

lemma handedTo_append [simp]: "handedTo q (xs @ ys) = handedTo q xs @ handedTo q ys"
  by (induction q xs rule: handedTo.induct) auto

text \<open>An ended answer ends with its end, and has one; one that goes on has none.\<close>

definition endedOnce :: "bool \<Rightarrow> handed list \<Rightarrow> bool" where
  "endedOnce over xs \<longleftrightarrow> (if over then \<exists>ys c. xs = ys @ [SinkDone c] \<and> \<not> list_ex isDone ys else \<not> list_ex isDone xs)"

subsection \<open>What holds of a source whatever happens to it\<close>

definition waitingFor :: "nat \<Rightarrow> appSource \<Rightarrow> nat list" where
  "waitingFor i h = filter (\<lambda>q. sp_set (ap_scopes h ! q) = i) (ap_opening h)"

definition appOK :: "appSource \<Rightarrow> bool" where
  "appOK h \<longleftrightarrow>
     sorted_wrt (<) (ap_opening h)
     \<and> (\<forall>q. q \<in> set (ap_opening h) \<longleftrightarrow> q < List.length (ap_scopes h) \<and> \<not> sp_done (ap_scopes h ! q))
     \<and> (\<forall>i q. ap_byID h i = Some q \<longrightarrow> q \<in> set (ap_opening h) \<and> sp_id (ap_scopes h ! q) = i \<and> i \<noteq> 0)
     \<and> (\<forall>q < List.length (ap_scopes h). sp_set (ap_scopes h ! q) < List.length (ap_sets h))
     \<and> (\<forall>i < List.length (ap_sets h). se_live (ap_sets h ! i) = (if se_closed (ap_sets h ! i) then [] else waitingFor i h))
     \<and> (\<forall>q < List.length (ap_scopes h). endedOnce (sp_done (ap_scopes h ! q)) (handedTo q (ap_log h)))
     \<and> (\<forall>q \<ge> List.length (ap_scopes h). handedTo q (ap_log h) = [])"

lemma appOK_dest:
  assumes "appOK h"
  shows "sorted_wrt (<) (ap_opening h)" "distinct (ap_opening h)"
    "q \<in> set (ap_opening h) \<longleftrightarrow> q < List.length (ap_scopes h) \<and> \<not> sp_done (ap_scopes h ! q)"
    "ap_byID h i = Some q \<Longrightarrow> q \<in> set (ap_opening h) \<and> sp_id (ap_scopes h ! q) = i \<and> i \<noteq> 0"
    "q < List.length (ap_scopes h) \<Longrightarrow> sp_set (ap_scopes h ! q) < List.length (ap_sets h)"
    "i' < List.length (ap_sets h) \<Longrightarrow> se_live (ap_sets h ! i') = (if se_closed (ap_sets h ! i') then [] else waitingFor i' h)"
    "q < List.length (ap_scopes h) \<Longrightarrow> endedOnce (sp_done (ap_scopes h ! q)) (handedTo q (ap_log h))"
    "q \<ge> List.length (ap_scopes h) \<Longrightarrow> handedTo q (ap_log h) = []"
proof -
  show "sorted_wrt (<) (ap_opening h)" using assms by (simp add: appOK_def)
  then show "distinct (ap_opening h)" by (simp add: strict_sorted_iff)
qed (use assms in \<open>auto simp: appOK_def\<close>)

text \<open>What the small operations leave alone.\<close>

lemma small_keeps [simp]:
  "ap_scopes (logged e h) = ap_scopes h" "ap_sets (logged e h) = ap_sets h" "ap_opening (logged e h) = ap_opening h" "ap_byID (logged e h) = ap_byID h"
  "ap_log (logged e h) = ap_log h @ [e]" "ap_sent (logged e h) = ap_sent h" "ap_firing (logged e h) = ap_firing h" "ap_again (logged e h) = ap_again h"
  "ap_scopes (writes s h) = ap_scopes h" "ap_sets (writes s h) = ap_sets h" "ap_opening (writes s h) = ap_opening h" "ap_byID (writes s h) = ap_byID h"
  "ap_log (writes s h) = ap_log h" "ap_firing (writes s h) = ap_firing h" "ap_again (writes s h) = ap_again h"
  "ap_scopes (updSet i f h) = ap_scopes h" "ap_opening (updSet i f h) = ap_opening h" "ap_byID (updSet i f h) = ap_byID h" "ap_log (updSet i f h) = ap_log h"
  "ap_sent (updSet i f h) = ap_sent h" "ap_firing (updSet i f h) = ap_firing h" "ap_again (updSet i f h) = ap_again h"
  "ap_sets (updScope q g h) = ap_sets h" "ap_opening (updScope q g h) = ap_opening h" "ap_byID (updScope q g h) = ap_byID h" "ap_log (updScope q g h) = ap_log h"
  "ap_sent (updScope q g h) = ap_sent h" "ap_firing (updScope q g h) = ap_firing h" "ap_again (updScope q g h) = ap_again h"
  "List.length (ap_scopes (updScope q g h)) = List.length (ap_scopes h)" "List.length (ap_sets (updSet i f h)) = List.length (ap_sets h)"
  "q < List.length (ap_scopes h) \<Longrightarrow> ap_scopes (updScope q g h) ! p = (if p = q then g (ap_scopes h ! q) else ap_scopes h ! p)"
  "i < List.length (ap_sets h) \<Longrightarrow> ap_sets (updSet i f h) ! j = (if j = i then f (ap_sets h ! i) else ap_sets h ! j)"
  by (simp_all add: logged_def writes_def updSet_def updScope_def)

lemma arrived_keeps [simp]:
  "ap_scopes (arrived h) = ap_scopes h" "ap_sets (arrived h) = ap_sets h" "ap_opening (arrived h) = ap_opening h" "ap_byID (arrived h) = ap_byID h"
  "ap_sent (arrived h) = ap_sent h" "handedTo q (ap_log (arrived h)) = handedTo q (ap_log h)"
  by (simp_all add: arrived_def Let_def logged_def)

lemma learnTotal_keeps [simp]:
  "ap_scopes (learnTotal lib i n h) = ap_scopes h" "ap_opening (learnTotal lib i n h) = ap_opening h" "ap_byID (learnTotal lib i n h) = ap_byID h"
  "ap_log (learnTotal lib i n h) = ap_log h" "ap_sent (learnTotal lib i n h) = ap_sent h" "List.length (ap_sets (learnTotal lib i n h)) = List.length (ap_sets h)"
  "ap_firing (learnTotal lib i n h) = ap_firing h" "ap_again (learnTotal lib i n h) = ap_again h"
  "i < List.length (ap_sets h) \<Longrightarrow> se_live (ap_sets (learnTotal lib i n h) ! j) = se_live (ap_sets h ! j)"
  "i < List.length (ap_sets h) \<Longrightarrow> se_closed (ap_sets (learnTotal lib i n h) ! j) = se_closed (ap_sets h ! j)"
  by (simp_all add: learnTotal_def)

subsection \<open>An end\<close>

text \<open>What the end of a scope comes to.\<close>

lemma finishWith_effect:
  assumes "q < List.length (ap_scopes h)" "\<not> sp_done (ap_scopes h ! q)" "sp_set (ap_scopes h ! q) < List.length (ap_sets h)"
    "h' = finishWith lib q c answered h"
  shows "List.length (ap_scopes h') = List.length (ap_scopes h)" "ap_scopes h' ! p = (if p = q then (ap_scopes h ! q)\<lparr>sp_done := True\<rparr> else ap_scopes h ! p)"
    "ap_opening h' = remove1 q (ap_opening h)"
    "ap_byID h' = (if sp_id (ap_scopes h ! q) \<noteq> 0 then (ap_byID h)(sp_id (ap_scopes h ! q) := None) else ap_byID h)"
    "List.length (ap_sets h') = List.length (ap_sets h)" "se_closed (ap_sets h' ! i) = se_closed (ap_sets h ! i)"
    "se_live (ap_sets h' ! i) = (if i = sp_set (ap_scopes h ! q) then remove1 q (se_live (ap_sets h ! i)) else se_live (ap_sets h ! i))"
    "\<exists>c'. handedTo p (ap_log h') = handedTo p (ap_log h) @ (if p = q then [SinkDone c'] else [])"
  using assms(1-3) unfolding assms(4) by (auto simp: finishWith_def forgetScope_def Let_def)

lemma finishWith_again: "sp_done (ap_scopes h ! q) \<Longrightarrow> finishWith lib q c answered h = h" by (simp add: finishWith_def Let_def)

lemma finishWith_OK:
  assumes "appOK h" "q < List.length (ap_scopes h)"
  shows "appOK (finishWith lib q c answered h)"
proof (cases "sp_done (ap_scopes h ! q)")
  case True then show ?thesis using assms(1) by (simp add: finishWith_again)
next
  case False
  define h' where "h' = finishWith lib q c answered h"
  note D = appOK_dest[OF assms(1)]
  note E = finishWith_effect[OF assms(2) False D(5)[OF assms(2)] h'_def]
  have open': "set (ap_opening h') = set (ap_opening h) - {q}" unfolding E(3) using D(2) by simp
  have wait: "waitingFor i h' = (if i = sp_set (ap_scopes h ! q) then remove1 q (waitingFor i h) else waitingFor i h)" for i
  proof -
    have "filter (\<lambda>p. sp_set (ap_scopes h' ! p) = i) xs = filter (\<lambda>p. sp_set (ap_scopes h ! p) = i) xs" for xs by (rule filter_cong) (auto simp: E(2))
    then show ?thesis unfolding waitingFor_def E(3) using D(2) by (auto simp: filter_remove1 distinct_remove1_removeAll removeAll_filter_not_eq intro: filter_cong)
  qed
  have "sorted_wrt (<) (ap_opening h')" unfolding E(3) using D(1) by (simp add: sorted_wrt_filter distinct_remove1_removeAll[OF D(2)] removeAll_filter_not_eq)
  moreover have "p \<in> set (ap_opening h') \<longleftrightarrow> p < List.length (ap_scopes h') \<and> \<not> sp_done (ap_scopes h' ! p)" for p
    unfolding open' E(1,2) using D(3)[of p] by auto
  moreover have "ap_byID h' i = Some p \<Longrightarrow> p \<in> set (ap_opening h') \<and> sp_id (ap_scopes h' ! p) = i \<and> i \<noteq> 0" for i p
    unfolding open' E(2,4) using D(4)[of i p] by (auto split: if_splits)
  moreover have "p < List.length (ap_scopes h') \<Longrightarrow> sp_set (ap_scopes h' ! p) < List.length (ap_sets h')" for p
    unfolding E(1,2,5) using D(5) assms(2) by simp
  moreover have "i < List.length (ap_sets h') \<Longrightarrow> se_live (ap_sets h' ! i) = (if se_closed (ap_sets h' ! i) then [] else waitingFor i h')" for i
    unfolding E(5,6,7) wait using D(6)[of i] by auto
  moreover have "endedOnce (sp_done (ap_scopes h' ! p)) (handedTo p (ap_log h'))" if "p < List.length (ap_scopes h')" for p
    using E(8)[of p] D(7)[of p] that False unfolding E(1,2) endedOnce_def by (auto split: if_splits)
  moreover have "p \<ge> List.length (ap_scopes h') \<Longrightarrow> handedTo p (ap_log h') = []" for p
    using E(8)[of p] D(8)[of p] assms(2) unfolding E(1) by auto
  ultimately show ?thesis unfolding appOK_def h'_def by blast
qed

subsection \<open>Every operation\<close>

text \<open>Whatever leaves the scopes, the sequences and what readers were handed alone.\<close>

lemma appOK_same:
  assumes "appOK h" "ap_scopes h' = ap_scopes h" "ap_sets h' = ap_sets h" "ap_opening h' = ap_opening h" "ap_byID h' = ap_byID h"
    "\<And>q. handedTo q (ap_log h') = handedTo q (ap_log h)"
  shows "appOK h'"
  using assms(1) unfolding appOK_def waitingFor_def assms(2-6) .

lemma arrived_OK: "appOK h \<Longrightarrow> appOK (arrived h)" by (rule appOK_same) simp_all

lemma tellingEnds_keeps [simp]:
  "ap_scopes (tellingEnds h) = ap_scopes h" "ap_sets (tellingEnds h) = ap_sets h" "ap_opening (tellingEnds h) = ap_opening h" "ap_byID (tellingEnds h) = ap_byID h"
  "handedTo q (ap_log (tellingEnds h)) = handedTo q (ap_log h)" "ap_sent (tellingEnds h) = ap_sent h"
  by (simp_all add: tellingEnds_def logged_def)

lemma tellingEnds_OK: "appOK h \<Longrightarrow> appOK (tellingEnds h)" by (rule appOK_same) simp_all

lemma noticed_OK: "appOK h \<Longrightarrow> appOK (logged (Noticed n) h)" by (rule appOK_same) simp_all

text \<open>A reader still waiting may be handed anything but an end.\<close>

lemma handed_OK:
  assumes "appOK h" "q \<in> set (ap_opening h)" "\<not> isDone x"
  shows "appOK (logged (Handed q x) h)"
proof -
  note D = appOK_dest[OF assms(1)]
  have "endedOnce (sp_done (ap_scopes h ! p)) (handedTo p (ap_log h @ [Handed q x]))" if "p < List.length (ap_scopes h)" for p
    using D(7)[OF that] D(3)[of q] assms(2,3) by (auto simp: endedOnce_def)
  moreover have "handedTo p (ap_log h @ [Handed q x]) = []" if "p \<ge> List.length (ap_scopes h)" for p
    using D(8)[OF that] D(3)[of q] assms(2) that by auto
  ultimately show ?thesis using assms(1) unfolding appOK_def waitingFor_def small_keeps by blast
qed

text \<open>A scope may be given anything that is no end, no other sequence and, unless it is waited for by its number, no other number.\<close>

lemma updScope_OK:
  assumes "appOK h" "q < List.length (ap_scopes h)" "\<And>s. sp_set (f s) = sp_set s \<and> sp_done (f s) = sp_done s \<and> sp_id (f s) = sp_id s"
  shows "appOK (updScope q f h)"
proof -
  have "filter (\<lambda>p. sp_set (ap_scopes (updScope q f h) ! p) = i) xs = filter (\<lambda>p. sp_set (ap_scopes h ! p) = i) xs" for i xs
    by (rule filter_cong) (use assms(2,3) in auto)
  then have w: "waitingFor i (updScope q f h) = waitingFor i h" for i by (simp add: waitingFor_def)
  have same: "sp_set (ap_scopes (updScope q f h) ! p) = sp_set (ap_scopes h ! p)" "sp_done (ap_scopes (updScope q f h) ! p) = sp_done (ap_scopes h ! p)"
    "sp_id (ap_scopes (updScope q f h) ! p) = sp_id (ap_scopes h ! p)" for p using assms(2,3) by simp_all
  show ?thesis using assms(1) unfolding appOK_def w same small_keeps by blast
qed

lemma unnamed_spec: "unnamedScope h = Some q \<Longrightarrow> q \<in> set (ap_opening h) \<and> sp_id (ap_scopes h ! q) = 0"
  by (auto simp: unnamedScope_def find_Some_iff)

lemma name1_OK:
  assumes "appOK h"
  shows "appOK (snd (name1 stmt h))"
proof (cases "replyID (st_args stmt) = 0 \<or> unnamedScope h = None")
  case True then show ?thesis using assms by (auto simp: name1_def Let_def)
next
  case False
  define i where "i = replyID (st_args stmt)"
  obtain q where q: "unnamedScope h = Some q" using False by blast
  define h' where "h' = snd (name1 stmt h)"
  have h': "h' = (updScope q (\<lambda>s. s\<lparr>sp_id := i\<rparr>) h)\<lparr>ap_byID := (ap_byID h)(i := Some q)\<rparr>" and i: "i \<noteq> 0"
    using False q by (simp_all add: h'_def name1_def Let_def i_def)
  note D = appOK_dest[OF assms] and U = unnamed_spec[OF q]
  have len: "q < List.length (ap_scopes h)" using D(3)[of q] U by simp
  have sc: "ap_scopes h' ! p = (if p = q then (ap_scopes h ! q)\<lparr>sp_id := i\<rparr> else ap_scopes h ! p)" "List.length (ap_scopes h') = List.length (ap_scopes h)"
    "ap_opening h' = ap_opening h" "ap_sets h' = ap_sets h" "ap_log h' = ap_log h" "ap_byID h' = (ap_byID h)(i := Some q)" for p
    using len by (simp_all add: h')
  have "filter (\<lambda>p. sp_set (ap_scopes h' ! p) = k) xs = filter (\<lambda>p. sp_set (ap_scopes h ! p) = k) xs" for k xs by (rule filter_cong) (auto simp: sc)
  then have w: "waitingFor k h' = waitingFor k h" for k by (simp add: waitingFor_def sc(3))
  have same: "sp_set (ap_scopes h' ! p) = sp_set (ap_scopes h ! p)" "sp_done (ap_scopes h' ! p) = sp_done (ap_scopes h ! p)" for p by (simp_all add: sc(1))
  have byID: "ap_byID h' k = Some p \<longrightarrow> p \<in> set (ap_opening h') \<and> sp_id (ap_scopes h' ! p) = k \<and> k \<noteq> 0" for k p
    using D(4)[of k p] U i by (auto simp: sc split: if_splits)
  show ?thesis using assms byID unfolding h'_def[symmetric] appOK_def w same sc(2-5) by blast
qed

lemma finish_OK: "appOK h \<Longrightarrow> q \<in> set (ap_opening h) \<Longrightarrow> appOK (finish lib q c h)"
  using finishWith_OK appOK_dest(3) by (simp add: finish_def)

lemma refusedBatch_OK: "appOK h \<Longrightarrow> appOK (snd (refusedBatch lib stmt h))"
  using finish_OK unnamed_spec by (auto simp: refusedBatch_def split: sum.splits option.splits)

lemma addressed_open: "appOK h \<Longrightarrow> addressed stmt h = Some q \<Longrightarrow> q \<in> set (ap_opening h)"
  using appOK_dest(4) by (auto simp: addressed_def split: list.splits if_splits option.splits wvalue.splits)

lemma takePlace_OK:
  assumes "appOK h" "q \<in> set (ap_opening h)"
  shows "appOK (takePlace lib key q args h)"
proof (cases "ParsePlace lib args")
  case (Inl e) then show ?thesis using finish_OK[OF assms] by (simp add: takePlace_def)
next
  case (Inr r)
  define h1 where "h1 = (if Ordered r then logged (Handed q SinkOrdered) h else h)"
  have h1: "appOK h1" "q \<in> set (ap_opening h1)" using handed_OK[OF assms, of SinkOrdered] assms by (simp_all add: h1_def)
  define h2 where "h2 = (case ID r of None \<Rightarrow> h1 | Some v \<Rightarrow> logged (Handed q (SinkPlace (asData v) (r_Fields r)))
    (updScope q (\<lambda>s. s\<lparr>sp_held := AList.update (key (asData v)) (r_Fields r) (sp_held s)\<rparr>) h1))"
  have len: "q < List.length (ap_scopes h1)" using appOK_dest(3)[OF h1(1)] h1(2) by simp
  have h2: "appOK h2" "q \<in> set (ap_opening h2)"
    using h1 len by (auto simp: h2_def intro!: handed_OK updScope_OK split: option.splits)
  have "takePlace lib key q args h = (if \<not> sp_extend (ap_scopes h1 ! q) then h1 else (case r_Complete r of None \<Rightarrow> h2 | Some c \<Rightarrow> logged (Handed q (SinkPlaced c)) h2))"
    by (simp add: takePlace_def Inr Let_def h1_def[symmetric] h2_def[symmetric])
  then show ?thesis using h1 h2 by (auto intro!: handed_OK split: option.splits)
qed

lemma OpenSet_OK:
  assumes "appOK h"
  shows "appOK (snd (OpenSet d h))"
proof -
  note D = appOK_dest[OF assms]
  have none: "waitingFor (List.length (ap_sets h)) h = []" using D(3,5) by (fastforce simp: waitingFor_def filter_empty_conv)
  have w: "waitingFor k (h\<lparr>ap_sets := x\<rparr>) = waitingFor k h" for k x by (simp add: waitingFor_def)
  have D': "\<forall>i<List.length (ap_sets h). se_live (ap_sets h ! i) = (if se_closed (ap_sets h ! i) then [] else waitingFor i h)" using D(6) by blast
  show ?thesis using assms none D'
    by (auto simp: OpenSet_def Let_def appOK_def w nth_append less_Suc_eq)
qed

lemma asked_OK:
  assumes "appOK h" "i < List.length (ap_sets h)" "\<not> se_closed (ap_sets h ! i)" "q = List.length (ap_scopes h)"
    "h' = askedScope q (updSet i (\<lambda>s. s\<lparr>se_live := se_live s @ [q]\<rparr>)
       (h\<lparr>ap_scopes := ap_scopes h @ [\<lparr>sp_set = i, sp_extend = places, sp_held = [], sp_from = from0, sp_id = 0, sp_done = False\<rparr>]\<rparr>))"
  shows "appOK h'" "ap_opening h' = ap_opening h @ [q]" "List.length (ap_scopes h') = Suc q" "ap_byID h' = ap_byID h"
    "p < q \<Longrightarrow> ap_scopes h' ! p = ap_scopes h ! p" "sp_id (ap_scopes h' ! q) = 0" "sp_set (ap_scopes h' ! q) = i" "ap_sent h' = ap_sent h"
proof -
  note D = appOK_dest[OF assms(1)]
  let ?new = "\<lparr>sp_set = i, sp_extend = places, sp_held = [], sp_from = from0, sp_id = 0, sp_done = False\<rparr> :: appScope"
  have sc: "ap_scopes h' = ap_scopes h @ [?new]" "ap_opening h' = ap_opening h @ [q]" "ap_byID h' = ap_byID h" "ap_log h' = ap_log h"
    "List.length (ap_sets h') = List.length (ap_sets h)" "ap_sent h' = ap_sent h"
    unfolding assms(5) by (simp_all add: askedScope_def)
  have sets: "ap_sets h' ! j = (if j = i then (ap_sets h ! i)\<lparr>se_live := se_live (ap_sets h ! i) @ [q]\<rparr> else ap_sets h ! j)" for j
    unfolding assms(5) using assms(2) by (simp add: askedScope_def)
  have old: "p \<in> set (ap_opening h) \<Longrightarrow> p < q" for p using D(3)[of p] assms(4) by simp
  have "filter (\<lambda>p. sp_set ((ap_scopes h @ [?new]) ! p) = k) (ap_opening h) = filter (\<lambda>p. sp_set (ap_scopes h ! p) = k) (ap_opening h)" for k
    by (rule filter_cong) (use old assms(4) in \<open>auto simp: nth_append\<close>)
  then have w: "waitingFor k h' = waitingFor k h @ (if k = i then [q] else [])" for k
    using assms(4) by (simp add: waitingFor_def sc nth_append)
  have "sorted_wrt (<) (ap_opening h')" using D(1) old by (auto simp: sc sorted_wrt_append)
  moreover have "p \<in> set (ap_opening h') \<longleftrightarrow> p < List.length (ap_scopes h') \<and> \<not> sp_done (ap_scopes h' ! p)" for p
    using D(3)[of p] assms(4) by (auto simp: sc nth_append less_Suc_eq)
  moreover have "ap_byID h' k = Some p \<Longrightarrow> p \<in> set (ap_opening h') \<and> sp_id (ap_scopes h' ! p) = k \<and> k \<noteq> 0" for k p
    using D(4)[of k p] old[of p] assms(4) by (auto simp: sc nth_append)
  moreover have "p < List.length (ap_scopes h') \<Longrightarrow> sp_set (ap_scopes h' ! p) < List.length (ap_sets h')" for p
    using D(5)[of p] assms(2) by (auto simp: sc nth_append less_Suc_eq)
  moreover have "k < List.length (ap_sets h') \<Longrightarrow> se_live (ap_sets h' ! k) = (if se_closed (ap_sets h' ! k) then [] else waitingFor k h')" for k
    unfolding w sc(5) sets using D(6)[of k] assms(3) by auto
  moreover have "endedOnce (sp_done (ap_scopes h' ! p)) (handedTo p (ap_log h'))" if "p < List.length (ap_scopes h')" for p
    using D(7)[of p] D(8)[of p] that assms(4) by (auto simp: sc nth_append endedOnce_def less_Suc_eq)
  moreover have "p \<ge> List.length (ap_scopes h') \<Longrightarrow> handedTo p (ap_log h') = []" for p using D(8)[of p] by (simp add: sc)
  ultimately show "appOK h'" unfolding appOK_def by blast
  show "ap_opening h' = ap_opening h @ [q]" "List.length (ap_scopes h') = Suc q" "ap_byID h' = ap_byID h" "sp_id (ap_scopes h' ! q) = 0"
    "sp_set (ap_scopes h' ! q) = i" "p < q \<Longrightarrow> ap_scopes h' ! p = ap_scopes h ! p" "ap_sent h' = ap_sent h"
    using assms(4) by (simp_all add: sc nth_append)
qed

subsection \<open>Closing\<close>

text \<open>Nothing is asked, and no sequence is opened or closed.\<close>

definition onlyEnds :: "appSource \<Rightarrow> appSource \<Rightarrow> bool" where
  "onlyEnds h h' \<longleftrightarrow> List.length (ap_sets h') = List.length (ap_sets h) \<and> (\<forall>i. se_closed (ap_sets h' ! i) = se_closed (ap_sets h ! i))
     \<and> set (ap_opening h') \<subseteq> set (ap_opening h) \<and> (\<forall>p. sp_set (ap_scopes h' ! p) = sp_set (ap_scopes h ! p))"

definition closedAreDone :: "appSource \<Rightarrow> bool" where
  "closedAreDone h \<longleftrightarrow> (\<forall>i < List.length (ap_sets h). se_closed (ap_sets h ! i) \<longrightarrow> (\<forall>q \<in> set (ap_opening h). sp_set (ap_scopes h ! q) \<noteq> i))"

lemma onlyEnds_refl [simp]: "onlyEnds h h" by (simp add: onlyEnds_def)

lemma onlyEnds_trans: "onlyEnds h1 h2 \<Longrightarrow> onlyEnds h2 h3 \<Longrightarrow> onlyEnds h1 h3"
  unfolding onlyEnds_def by fastforce

lemma onlyEnds_closed: "onlyEnds h h' \<Longrightarrow> closedAreDone h \<Longrightarrow> closedAreDone h'"
  unfolding onlyEnds_def closedAreDone_def by (metis subset_iff)

lemma onlyEnds_small [simp]:
  "onlyEnds h (logged e h)" "onlyEnds h (writes t h)" "onlyEnds h (arrived h)" "onlyEnds h (tellingEnds h)"
  by (simp_all add: onlyEnds_def)

lemma onlyEnds_updScope: "q < List.length (ap_scopes h) \<Longrightarrow> (\<And>s. sp_set (f s) = sp_set s) \<Longrightarrow> onlyEnds h (updScope q f h)"
  by (simp add: onlyEnds_def)

lemma onlyEnds_finishWith:
  assumes "appOK h" "q < List.length (ap_scopes h)"
  shows "onlyEnds h (finishWith lib q c answered h)"
proof (cases "sp_done (ap_scopes h ! q)")
  case True then show ?thesis by (simp add: finishWith_again)
next
  case False
  note D = appOK_dest[OF assms(1)]
  note E = finishWith_effect[OF assms(2) False D(5)[OF assms(2)] refl]
  show ?thesis unfolding onlyEnds_def E(3,5,6) using E(2) set_remove1_subset[of q "ap_opening h"] by simp
qed

lemma onlyEnds_finish: "appOK h \<Longrightarrow> q \<in> set (ap_opening h) \<Longrightarrow> onlyEnds h (finish lib q c h)"
  using onlyEnds_finishWith appOK_dest(3) by (simp add: finish_def)

lemma onlyEnds_takePlace:
  assumes "appOK h" "q \<in> set (ap_opening h)"
  shows "onlyEnds h (takePlace lib key q args h)"
proof -
  have len: "q < List.length (ap_scopes h)" using appOK_dest(3)[OF assms(1)] assms(2) by simp
  show ?thesis using onlyEnds_finish[OF assms] len
    by (auto simp: takePlace_def Let_def onlyEnds_def split: sum.splits option.splits)
qed

text \<open>Nobody is given a number, and nobody but one stops waiting.\<close>

definition losesOnly :: "nat \<Rightarrow> appSource \<Rightarrow> appSource \<Rightarrow> bool" where
  "losesOnly q h h' \<longleftrightarrow> (\<forall>p. sp_id (ap_scopes h' ! p) = sp_id (ap_scopes h ! p))
     \<and> filter (\<lambda>p. p \<noteq> q) (ap_opening h') = filter (\<lambda>p. p \<noteq> q) (ap_opening h)"

text \<open>What is taken of a result before its end: its order and its record.\<close>

lemma recordTaken:
  assumes "appOK h" "q \<in> set (ap_opening h)" "ParseResult lib args = Inr r"
  shows "\<exists>h2. takeResult lib key q args h = (case r_Complete r of None \<Rightarrow> h2 | Some c \<Rightarrow> finish lib q c h2)
    \<and> appOK h2 \<and> q \<in> set (ap_opening h2) \<and> onlyEnds h h2 \<and> losesOnly q h h2"
proof -
  have len: "q < List.length (ap_scopes h)" using appOK_dest(3)[OF assms(1)] assms(2) by simp
  define h1 where "h1 = (if Ordered r then logged (Handed q SinkOrdered) h else h)"
  have h1: "appOK h1" "q \<in> set (ap_opening h1)" "onlyEnds h h1" "losesOnly q h h1" "q < List.length (ap_scopes h1)"
    using handed_OK[OF assms(1,2), of SinkOrdered] assms(1,2) len by (simp_all add: h1_def losesOnly_def)
  define h2 where "h2 = (case ID r of None \<Rightarrow> h1
    | Some v \<Rightarrow>
        (let s = ap_scopes h1 ! q;
             was = (if sp_extend s then map_of (sp_held s) (key (asData v)) else None);
             flds = (case was of Some f \<Rightarrow> f @ r_Fields r | None \<Rightarrow> r_Fields r);
             h = (if was \<noteq> None then updScope q (\<lambda>s. s\<lparr>sp_held := AList.delete (key (asData v)) (sp_held s)\<rparr>) h1 else h1)
         in logged (Handed q (if Whole r then SinkRecord (asData v) flds else SinkSubset (asData v) flds (Has r))) h))"
  have "appOK h2" "q \<in> set (ap_opening h2)" "onlyEnds h1 h2" "losesOnly q h1 h2"
    using h1 by (auto simp: h2_def Let_def onlyEnds_def losesOnly_def intro!: handed_OK updScope_OK split: option.splits)
  moreover have "takeResult lib key q args h = (case r_Complete r of None \<Rightarrow> h2 | Some c \<Rightarrow> finish lib q c h2)"
    unfolding takeResult_def assms(3) sum.case h1_def[symmetric] h2_def Let_def by (rule refl)
  moreover have "losesOnly q h h2" using h1(4) calculation(4) by (simp add: losesOnly_def)
  ultimately show ?thesis using onlyEnds_trans[OF h1(3)] by blast
qed

lemma takeResult_OK:
  assumes "appOK h" "q \<in> set (ap_opening h)"
  shows "appOK (takeResult lib key q args h)" "onlyEnds h (takeResult lib key q args h)"
proof -
  have "appOK (takeResult lib key q args h) \<and> onlyEnds h (takeResult lib key q args h)"
  proof (cases "ParseResult lib args")
    case (Inl e) then show ?thesis using finish_OK[OF assms] onlyEnds_finish[OF assms] by (simp add: takeResult_def)
  next
    case (Inr r)
    obtain h2 where h2: "takeResult lib key q args h = (case r_Complete r of None \<Rightarrow> h2 | Some c \<Rightarrow> finish lib q c h2)" "onlyEnds h h2" "appOK h2" "q \<in> set (ap_opening h2)"
      using recordTaken[OF assms Inr] by blast
    then show ?thesis using finish_OK[OF h2(3,4)] onlyEnds_trans[OF h2(2) onlyEnds_finish[OF h2(3,4)]] by (auto split: option.splits)
  qed
  then show "appOK (takeResult lib key q args h)" "onlyEnds h (takeResult lib key q args h)" by auto
qed

lemma onlyEnds_name1: "appOK h \<Longrightarrow> onlyEnds h (snd (name1 stmt h))"
proof -
  assume ok: "appOK h"
  have "q < List.length (ap_scopes h)" if "unnamedScope h = Some q" for q using appOK_dest(3)[OF ok] unnamed_spec[OF that] by simp
  then show ?thesis by (auto simp: name1_def Let_def onlyEnds_def split: option.splits)
qed

lemma Inbound_OK: "appOK h \<Longrightarrow> appOK (snd (Inbound lib key stmt h))"
  using name1_OK refusedBatch_OK takePlace_OK takeResult_OK(1) addressed_open arrived_OK noticed_OK
  by (auto simp: Inbound_def staleNotice_def split: option.splits sum.splits)

lemma onlyEnds_Inbound:
  assumes "appOK h"
  shows "onlyEnds h (snd (Inbound lib key stmt h))"
  using onlyEnds_name1[OF assms] onlyEnds_takePlace[OF assms] takeResult_OK(2)[OF assms] onlyEnds_finish[OF assms] addressed_open[OF assms] unnamed_spec
  by (auto simp: Inbound_def refusedBatch_def staleNotice_def intro!: onlyEnds_trans[OF onlyEnds_small(1) onlyEnds_small(3)] split: option.splits sum.splits)

text \<open>Several readers hung up on, one after the other.\<close>

lemma hungUp_all:
  assumes "appOK h" "\<forall>q \<in> set qs. q < List.length (ap_scopes h)" "h' = fold (\<lambda>q. hungUp lib q c) qs h"
  shows "appOK h'" "onlyEnds h h'" "set (ap_opening h') = set (ap_opening h) - set qs" "List.length (ap_scopes h') = List.length (ap_scopes h)"
    "ap_opening h' = filter (\<lambda>p. p \<notin> set qs) (ap_opening h)" "sp_id (ap_scopes h' ! p) = sp_id (ap_scopes h ! p)"
proof -
  have "appOK h' \<and> onlyEnds h h' \<and> List.length (ap_scopes h') = List.length (ap_scopes h) \<and> ap_opening h' = filter (\<lambda>p. p \<notin> set qs) (ap_opening h)
      \<and> (\<forall>p. sp_id (ap_scopes h' ! p) = sp_id (ap_scopes h ! p))"
    using assms
  proof (induction qs arbitrary: h)
    case (Cons q qs)
    have len: "q < List.length (ap_scopes h)" using Cons(3) by simp
    define h1 where "h1 = hungUp lib q c h"
    have h1: "appOK h1" "onlyEnds h h1" using finishWith_OK[OF Cons(2) len] onlyEnds_finishWith[OF Cons(2) len] by (simp_all add: h1_def hungUp_def)
    have eff: "List.length (ap_scopes h1) = List.length (ap_scopes h) \<and> ap_opening h1 = filter (\<lambda>p. p \<noteq> q) (ap_opening h) \<and> (\<forall>p. sp_id (ap_scopes h1 ! p) = sp_id (ap_scopes h ! p))"
    proof (cases "sp_done (ap_scopes h ! q)")
      case True
      then have "q \<notin> set (ap_opening h)" using appOK_dest(3)[OF Cons(2)] by simp
      then have "filter (\<lambda>p. p \<noteq> q) (ap_opening h) = ap_opening h" by (auto simp: filter_id_conv)
      then show ?thesis using True by (simp add: h1_def hungUp_def finishWith_again)
    next
      case False
      note E = finishWith_effect[OF len False appOK_dest(5)[OF Cons(2) len] refl, where lib = lib and c = c and answered = False, folded hungUp_def h1_def]
      have "remove1 q (ap_opening h) = filter (\<lambda>p. p \<noteq> q) (ap_opening h)"
        using appOK_dest(2)[OF Cons(2)] by (simp add: distinct_remove1_removeAll removeAll_filter_not_eq eq_commute)
      then show ?thesis using E(1-3) by auto
    qed
    have bound: "\<forall>q \<in> set qs. q < List.length (ap_scopes h1)" using Cons(3) eff by simp
    show ?case using Cons(1)[OF h1(1) bound] Cons(4) eff onlyEnds_trans[OF h1(2)] by (auto simp: h1_def[symmetric] intro: filter_cong)
  qed simp
  then show "appOK h'" "onlyEnds h h'" "set (ap_opening h') = set (ap_opening h) - set qs" "List.length (ap_scopes h') = List.length (ap_scopes h)"
    "ap_opening h' = filter (\<lambda>p. p \<notin> set qs) (ap_opening h)" "sp_id (ap_scopes h' ! p) = sp_id (ap_scopes h ! p)" by auto
qed

lemma CloseSet_effect:
  assumes "appOK h" "i < List.length (ap_sets h)" "\<not> se_closed (ap_sets h ! i)" "h' = CloseSet lib i h"
  shows "appOK h'" "ap_opening h' = filter (\<lambda>q. sp_set (ap_scopes h ! q) \<noteq> i) (ap_opening h)" "sp_id (ap_scopes h' ! p) = sp_id (ap_scopes h ! p)"
    "se_closed (ap_sets h' ! j) = (j = i \<or> se_closed (ap_sets h ! j))" "sp_set (ap_scopes h' ! p) = sp_set (ap_scopes h ! p)"
    "List.length (ap_scopes h') = List.length (ap_scopes h)" "List.length (ap_sets h') = List.length (ap_sets h)"
proof -
  note D = appOK_dest[OF assms(1)]
  let ?h = "updSet i (\<lambda>s. s\<lparr>se_closed := True, se_live := []\<rparr>) h"
  have w: "waitingFor k ?h = waitingFor k h" for k by (simp add: waitingFor_def)
  have live: "se_live (ap_sets h ! i) = waitingFor i h" using D(6)[OF assms(2)] assms(3) by simp
  have "\<forall>k < List.length (ap_sets h). se_live (ap_sets h ! k) = (if se_closed (ap_sets h ! k) then [] else waitingFor k h)" using D(6) by blast
  then have "\<forall>k < List.length (ap_sets ?h). se_live (ap_sets ?h ! k) = (if se_closed (ap_sets ?h ! k) then [] else waitingFor k ?h)"
    unfolding w using assms(2) by simp
  then have ok: "appOK ?h" using assms(1) unfolding appOK_def small_keeps by blast
  have h': "h' = fold (\<lambda>q. hungUp lib q (failed ''this data set has been closed'')) (waitingFor i h) ?h"
    using assms(3,4) by (simp add: CloseSet_def Let_def live)
  have bound: "\<forall>q \<in> set (waitingFor i h). q < List.length (ap_scopes ?h)" using D(3) by (auto simp: waitingFor_def)
  note H = hungUp_all[OF ok bound h']
  show "appOK h'" by (rule H(1))
  show "ap_opening h' = filter (\<lambda>q. sp_set (ap_scopes h ! q) \<noteq> i) (ap_opening h)" unfolding H(5) by (auto simp: waitingFor_def intro!: filter_cong)
  show "sp_id (ap_scopes h' ! p) = sp_id (ap_scopes h ! p)" using H(6) by simp
  show "se_closed (ap_sets h' ! j) = (j = i \<or> se_closed (ap_sets h ! j))" "List.length (ap_sets h') = List.length (ap_sets h)" "sp_set (ap_scopes h' ! p) = sp_set (ap_scopes h ! p)"
    using H(2) assms(2) by (simp_all add: onlyEnds_def)
  show "List.length (ap_scopes h') = List.length (ap_scopes h)" using H(4) by simp
qed

lemma CloseSet_closed:
  assumes "appOK h" "i < List.length (ap_sets h)" "closedAreDone h"
  shows "appOK (CloseSet lib i h)" "closedAreDone (CloseSet lib i h)"
proof -
  have "appOK (CloseSet lib i h) \<and> closedAreDone (CloseSet lib i h)"
  proof (cases "se_closed (ap_sets h ! i)")
    case True then show ?thesis using assms by (simp add: CloseSet_def)
  next
    case False
    note E = CloseSet_effect[OF assms(1,2) False refl]
    show ?thesis using E(1) assms(3) unfolding closedAreDone_def E(2,4,5,7) by auto
  qed
  then show "appOK (CloseSet lib i h)" "closedAreDone (CloseSet lib i h)" by auto
qed

lemma ReadScope_effect:
  assumes "appOK h" "closedAreDone h" "i < List.length (ap_sets h)" "h' = snd (ReadScope lib i sc out refused h)"
  shows "appOK h'" "closedAreDone h'"
    "fst (ReadScope lib i sc out refused h) = [] \<Longrightarrow> ap_opening h' = ap_opening h @ [List.length (ap_scopes h)] \<and> sp_id (ap_scopes h' ! List.length (ap_scopes h)) = 0
      \<and> (\<forall>p < List.length (ap_scopes h). ap_scopes h' ! p = ap_scopes h ! p)"
    "fst (ReadScope lib i sc out refused h) \<noteq> [] \<Longrightarrow> ap_opening h' = ap_opening h \<and> (\<forall>p < List.length (ap_scopes h). ap_scopes h' ! p = ap_scopes h ! p)"
proof -
  define q where "q = List.length (ap_scopes h)"
  note D = appOK_dest[OF assms(1)]
  have "appOK h' \<and> closedAreDone h' \<and> (fst (ReadScope lib i sc out refused h) = [] \<longrightarrow> ap_opening h' = ap_opening h @ [q] \<and> sp_id (ap_scopes h' ! q) = 0
      \<and> (\<forall>p < q. ap_scopes h' ! p = ap_scopes h ! p))
    \<and> (fst (ReadScope lib i sc out refused h) \<noteq> [] \<longrightarrow> ap_opening h' = ap_opening h \<and> (\<forall>p < q. ap_scopes h' ! p = ap_scopes h ! p))"
  proof (cases "out = None \<or> se_closed (ap_sets h ! i)")
    case True
    then show ?thesis using assms by (auto simp: ReadScope_def Let_def split: option.splits)
  next
    case False
    then obtain places where out: "out = Some places" and open': "\<not> se_closed (ap_sets h ! i)" by auto
    define h1 where "h1 = askedScope q (updSet i (\<lambda>s. s\<lparr>se_live := se_live s @ [q]\<rparr>)
       (h\<lparr>ap_scopes := ap_scopes h @ [\<lparr>sp_set = i, sp_extend = places, sp_held = [], sp_from = From (case sc of None \<Rightarrow> emptyScope | Some sc \<Rightarrow> sc), sp_id = 0, sp_done = False\<rparr>]\<rparr>))"
    note A = asked_OK[OF assms(1,3) open' q_def h1_def]
    have cl: "se_closed (ap_sets h1 ! j) = se_closed (ap_sets h ! j)" "List.length (ap_sets h1) = List.length (ap_sets h)" for j
      using assms(3) by (simp_all add: h1_def askedScope_def)
    have sets: "sp_set (ap_scopes h1 ! p) = sp_set (ap_scopes h ! p)" if "p \<in> set (ap_opening h)" for p using A(5)[of p] D(3)[of p] that by (simp add: q_def)
    have done1: "closedAreDone h1" using assms(2) open' A(7) sets unfolding closedAreDone_def cl A(2) by auto
    have q1: "q < List.length (ap_scopes h1)" "q \<in> set (ap_opening h1)" using A(2,3) by simp_all
    define w where "w = ''q=new query '' @ EncodeDescriptor lib (se_descriptor (ap_sets h1 ! i)) @ '' '' @ EncodeScope (case sc of None \<Rightarrow> emptyScope | Some sc \<Rightarrow> sc)"
    have h': "ReadScope lib i sc out refused h = (if refused \<noteq> [] then (refused, finish lib q (failed refused) h1)
        else ([], writes ((if places then w @ '' extend'' else w) @ [char_of rNL] @ ''end'' @ [char_of rNL]) h1))"
      using open' unfolding ReadScope_def out option.case Let_def q_def[symmetric] h1_def[symmetric] w_def by simp
    show ?thesis
    proof (cases "refused = []")
      case True
      then have e: "h' = writes ((if places then w @ '' extend'' else w) @ [char_of rNL] @ ''end'' @ [char_of rNL]) h1" using assms(4) h' by simp
      have "appOK h'" using A(1) unfolding e by (rule appOK_same) simp_all
      moreover have "closedAreDone h'" using done1 unfolding e by (rule onlyEnds_closed[rotated]) simp
      ultimately show ?thesis using A h' True by (simp add: e)
    next
      case False
      then have e: "h' = finish lib q (failed refused) h1" using assms(4) h' by simp
      have nd: "\<not> sp_done (ap_scopes h1 ! q)" using appOK_dest(3)[OF A(1)] q1 by simp
      note E = finishWith_effect[OF q1(1) nd appOK_dest(5)[OF A(1) q1(1)] refl, where lib = lib and c = "failed refused" and answered = True, folded finish_def e]
      have "q \<notin> set (ap_opening h)" using D(3)[of q] by (simp add: q_def)
      then have "ap_opening h' = ap_opening h" unfolding E(3) A(2) by (simp add: remove1_append)
      moreover have "p < q \<Longrightarrow> ap_scopes h' ! p = ap_scopes h ! p" for p using E(2)[of p] A(5)[of p] by simp
      ultimately show ?thesis using finish_OK[OF A(1) q1(2)] onlyEnds_closed[OF onlyEnds_finish[OF A(1) q1(2)] done1] False h' by (simp add: e)
    qed
  qed
  then show "appOK h'" "closedAreDone h'"
    "fst (ReadScope lib i sc out refused h) = [] \<Longrightarrow> ap_opening h' = ap_opening h @ [List.length (ap_scopes h)] \<and> sp_id (ap_scopes h' ! List.length (ap_scopes h)) = 0
      \<and> (\<forall>p < List.length (ap_scopes h). ap_scopes h' ! p = ap_scopes h ! p)"
    "fst (ReadScope lib i sc out refused h) \<noteq> [] \<Longrightarrow> ap_opening h' = ap_opening h \<and> (\<forall>p < List.length (ap_scopes h). ap_scopes h' ! p = ap_scopes h ! p)"
    unfolding q_def by blast+
qed

subsection \<open>Whatever happens\<close>

text \<open>What may happen to a source: a sequence is stated, a scope of one is asked for, one is closed, the application says
  something, a round of telling ends.\<close>

inductive happens :: "servalLib \<Rightarrow> (data option \<Rightarrow> string) \<Rightarrow> appSource \<Rightarrow> appSource \<Rightarrow> bool" for lib key where
  States: "happens lib key h (snd (OpenSet d h))"
| Reads: "i < List.length (ap_sets h) \<Longrightarrow> happens lib key h (snd (ReadScope lib i sc out refused h))"
| Closes: "i < List.length (ap_sets h) \<Longrightarrow> happens lib key h (CloseSet lib i h)"
| Hears: "happens lib key h (snd (Inbound lib key stmt h))"
| TellingEnds: "happens lib key h (tellingEnds h)"

lemma OpenSet_closed: "appOK h \<Longrightarrow> closedAreDone h \<Longrightarrow> closedAreDone (snd (OpenSet d h))"
  using appOK_dest(3,5) by (fastforce simp: OpenSet_def Let_def closedAreDone_def nth_append less_Suc_eq)

lemma happens_OK:
  assumes "happens lib key h h'" "appOK h \<and> closedAreDone h"
  shows "appOK h' \<and> closedAreDone h'"
  using assms
proof (cases rule: happens.cases)
  case (States d) then show ?thesis using assms(2) OpenSet_OK OpenSet_closed by simp
next
  case (Reads i sc out refused) then show ?thesis using assms(2) ReadScope_effect(1,2)[of h i h' lib sc out refused] by simp
next
  case (Closes i) then show ?thesis using assms(2) CloseSet_closed by simp
next
  case (Hears stmt) then show ?thesis using assms(2) Inbound_OK onlyEnds_closed[OF onlyEnds_Inbound] by simp
next
  case TellingEnds then show ?thesis using assms(2) tellingEnds_OK onlyEnds_closed[OF onlyEnds_small(4)] by simp
qed

lemma new_OK: "appOK (NewApplicationSource name connected)" "closedAreDone (NewApplicationSource name connected)"
  by (simp_all add: appOK_def closedAreDone_def NewApplicationSource_def waitingFor_def)

lemma reached_OK: "(happens lib key)\<^sup>*\<^sup>* (NewApplicationSource name connected) h \<Longrightarrow> appOK h \<and> closedAreDone h"
  by (induction rule: rtranclp_induct) (use new_OK happens_OK in blast)+

text \<open>C10. Every reader is answered once: whatever is asked, closed and said in whatever order, a scope is either still waiting
  or has been told of its end, once and as the last thing it was told; one that waits belongs to a sequence that is
  open, is let go when that is closed, and is what results under its number are handed to.\<close>

theorem every_reader_is_answered_once:
  assumes "(happens lib key)\<^sup>*\<^sup>* (NewApplicationSource name connected) h" "q < List.length (ap_scopes h)"
  shows "(if sp_done (ap_scopes h ! q)
      then (\<exists>xs c. handedTo q (ap_log h) = xs @ [SinkDone c] \<and> \<not> list_ex isDone xs) \<and> (\<forall>i. ap_byID h i \<noteq> Some q)
      else \<not> list_ex isDone (handedTo q (ap_log h)) \<and> \<not> se_closed (ap_sets h ! sp_set (ap_scopes h ! q))
        \<and> q \<in> set (se_live (ap_sets h ! sp_set (ap_scopes h ! q))) \<and> q \<in> set (ap_opening h))
    \<and> (\<forall>i. ap_byID h i = Some q \<longrightarrow> sp_id (ap_scopes h ! q) = i)"
proof -
  have ok: "appOK h" "closedAreDone h" using reached_OK[OF assms(1)] by blast+
  note D = appOK_dest[OF ok(1)]
  show ?thesis
  proof (cases "sp_done (ap_scopes h ! q)")
    case True
    then have "ap_byID h i \<noteq> Some q" for i using D(3)[of q] D(4)[of i q] by blast
    then show ?thesis using D(7)[OF assms(2)] D(4) True by (auto simp: endedOnce_def)
  next
    case False
    then have "q \<in> set (ap_opening h)" using D(3) assms(2) by blast
    moreover from this have "\<not> se_closed (ap_sets h ! sp_set (ap_scopes h ! q))" using ok(2) D(5)[OF assms(2)] by (auto simp: closedAreDone_def)
    ultimately show ?thesis using D(4) D(6)[OF D(5)[OF assms(2)]] D(7)[OF assms(2)] False by (auto simp: endedOnce_def waitingFor_def)
  qed
qed

subsection \<open>Which batch an answer answers\<close>

text \<open>The source with the scopes whose batches the application owes an answer, oldest first: it answers them in turn with a
  reply or an error, says results and notices in between, and no sequence is closed while a scope of it waits to be named.\<close>

inductive answersInTurn :: "servalLib \<Rightarrow> (data option \<Rightarrow> string) \<Rightarrow> appSource \<times> nat list \<Rightarrow> appSource \<times> nat list \<Rightarrow> bool" for lib key where
  Stated: "answersInTurn lib key (h, owed) (snd (OpenSet d h), owed)"
| Asked: "i < List.length (ap_sets h) \<Longrightarrow> ReadScope lib i sc out refused h = (err, h') \<Longrightarrow>
    answersInTurn lib key (h, owed) (h', if err = [] then owed @ [List.length (ap_scopes h)] else owed)"
| Named: "st_verb stmt = ''reply'' \<Longrightarrow> replyID (st_args stmt) \<noteq> 0 \<Longrightarrow> answersInTurn lib key (h, q # owed) (snd (Inbound lib key stmt h), owed)"
| Refused: "st_verb stmt = ''error'' \<Longrightarrow> answersInTurn lib key (h, q # owed) (snd (Inbound lib key stmt h), owed)"
| Said: "st_verb stmt \<in> {''result'', ''place'', ''stale''} \<Longrightarrow> answersInTurn lib key (h, owed) (snd (Inbound lib key stmt h), owed)"
| Closed: "i < List.length (ap_sets h) \<Longrightarrow> \<forall>q \<in> set (se_live (ap_sets h ! i)). sp_id (ap_scopes h ! q) \<noteq> 0 \<Longrightarrow>
    answersInTurn lib key (h, owed) (CloseSet lib i h, owed)"
| Quiet: "answersInTurn lib key (h, owed) (tellingEnds h, owed)"

text \<open>The scopes without a number are those owed an answer.\<close>

definition unnamedOnes :: "appSource \<Rightarrow> nat list" where "unnamedOnes h = filter (\<lambda>q. sp_id (ap_scopes h ! q) = 0) (ap_opening h)"

lemma unnamedScope_first: "unnamedScope h = (case unnamedOnes h of [] \<Rightarrow> None | q # qs \<Rightarrow> Some q)"
proof -
  have "List.find P xs = (case filter P xs of [] \<Rightarrow> None | x # y \<Rightarrow> Some x)" for P and xs :: "nat list" by (induction xs) auto
  then show ?thesis by (simp add: unnamedScope_def unnamedOnes_def)
qed

lemma happens_turn: "answersInTurn lib key (h, owed) (h', owed') \<Longrightarrow> happens lib key h h'"
  by (erule answersInTurn.cases) (auto intro: happens.intros, metis happens.Reads snd_conv)

lemma losesOnly_trans: "losesOnly q h1 h2 \<Longrightarrow> losesOnly q h2 h3 \<Longrightarrow> losesOnly q h1 h3" by (simp add: losesOnly_def)

lemma losesOnly_small [simp]: "losesOnly q h h" "losesOnly q h (logged e h)" "losesOnly q h (arrived h)" by (simp_all add: losesOnly_def)

lemma losesOnly_updScope: "q < List.length (ap_scopes h) \<Longrightarrow> (\<And>s. sp_id (f s) = sp_id s) \<Longrightarrow> losesOnly q h (updScope q f h)"
  by (simp add: losesOnly_def)

lemma losesOnly_finish:
  assumes "appOK h" "q \<in> set (ap_opening h)"
  shows "losesOnly q h (finish lib q c h)"
proof -
  have q: "q < List.length (ap_scopes h)" "\<not> sp_done (ap_scopes h ! q)" using appOK_dest(3)[OF assms(1)] assms(2) by blast+
  note E = finishWith_effect[OF q appOK_dest(5)[OF assms(1) q(1)] refl, where lib = lib and c = c and answered = True, folded finish_def]
  show ?thesis unfolding losesOnly_def E(3) using E(2) appOK_dest(2)[OF assms(1)] by (simp add: distinct_remove1_removeAll removeAll_filter_not_eq eq_commute)
qed

lemma losesOnly_takePlace:
  assumes "appOK h" "q \<in> set (ap_opening h)"
  shows "losesOnly q h (takePlace lib key q args h)"
proof -
  have len: "q < List.length (ap_scopes h)" using appOK_dest(3)[OF assms(1)] assms(2) by simp
  show ?thesis using losesOnly_finish[OF assms] len
    by (auto simp: takePlace_def Let_def losesOnly_def split: sum.splits option.splits)
qed

lemma losesOnly_takeResult:
  assumes "appOK h" "q \<in> set (ap_opening h)"
  shows "losesOnly q h (takeResult lib key q args h)"
proof (cases "ParseResult lib args")
  case (Inl e) then show ?thesis using losesOnly_finish[OF assms] by (simp add: takeResult_def)
next
  case (Inr r)
  obtain h2 where h2: "takeResult lib key q args h = (case r_Complete r of None \<Rightarrow> h2 | Some c \<Rightarrow> finish lib q c h2)" "losesOnly q h h2" "appOK h2" "q \<in> set (ap_opening h2)"
    using recordTaken[OF assms Inr] by blast
  then show ?thesis using losesOnly_trans[OF h2(2) losesOnly_finish[OF h2(3,4)]] by (auto split: option.splits)
qed

lemma losesOnly_unnamed:
  assumes "losesOnly q h h'" "sp_id (ap_scopes h ! q) \<noteq> 0"
  shows "unnamedOnes h' = unnamedOnes h"
proof -
  have "filter (\<lambda>p. sp_id (ap_scopes h ! p) = 0) xs = filter (\<lambda>p. sp_id (ap_scopes h ! p) = 0) (filter (\<lambda>p. p \<noteq> q) xs)" for xs
    using assms(2) by (auto simp: filter_filter intro!: filter_cong)
  note f = this
  have ids: "sp_id (ap_scopes h' ! p) = sp_id (ap_scopes h ! p)" for p using assms(1) by (simp add: losesOnly_def)
  have o: "filter (\<lambda>p. p \<noteq> q) (ap_opening h') = filter (\<lambda>p. p \<noteq> q) (ap_opening h)" using assms(1) by (simp add: losesOnly_def)
  show ?thesis unfolding unnamedOnes_def ids using f[of "ap_opening h'"] f[of "ap_opening h"] o by simp
qed

lemma losesOnly_first:
  assumes "losesOnly q h h'" "unnamedOnes h = q # qs" "q \<notin> set (ap_opening h')" "distinct (ap_opening h)"
  shows "unnamedOnes h' = qs"
proof -
  have "filter (\<lambda>p. p \<noteq> q) (ap_opening h') = ap_opening h'" using assms(3) by (auto simp: filter_id_conv)
  then have "unnamedOnes h' = filter (\<lambda>p. sp_id (ap_scopes h ! p) = 0) (filter (\<lambda>p. p \<noteq> q) (ap_opening h'))"
    using assms(1) unfolding unnamedOnes_def losesOnly_def by simp
  also have "\<dots> = filter (\<lambda>p. p \<noteq> q) (unnamedOnes h)"
    using assms(1) unfolding losesOnly_def unnamedOnes_def by (simp add: filter_filter conj_commute)
  also have "\<dots> = qs"
  proof -
    have "distinct (q # qs)" using assms(2,4) unfolding unnamedOnes_def by (metis distinct_filter)
    then show ?thesis unfolding assms(2) by (auto simp: filter_id_conv)
  qed
  finally show ?thesis .
qed

lemma addressed_named: "appOK h \<Longrightarrow> addressed stmt h = Some q \<Longrightarrow> sp_id (ap_scopes h ! q) \<noteq> 0"
  using appOK_dest(4) by (auto simp: addressed_def split: list.splits if_splits option.splits wvalue.splits)

lemma name1_first:
  assumes "appOK h" "unnamedOnes h = q # qs" "replyID (st_args stmt) \<noteq> 0" "h' = snd (name1 stmt h)"
  shows "unnamedOnes h' = qs" "ap_byID h' (replyID (st_args stmt)) = Some q" "ap_sent h' = ap_sent h" "ap_scopes h' ! p = (if p = q then (ap_scopes h ! q)\<lparr>sp_id := replyID (st_args stmt)\<rparr> else ap_scopes h ! p)"
    "ap_opening h' = ap_opening h"
proof -
  have u: "unnamedScope h = Some q" using assms(2) by (simp add: unnamedScope_first)
  have q: "q < List.length (ap_scopes h)" using unnamed_spec[OF u] appOK_dest(3)[OF assms(1)] by blast
  show o: "ap_opening h' = ap_opening h" and "ap_byID h' (replyID (st_args stmt)) = Some q" "ap_sent h' = ap_sent h"
    and sc: "\<And>p. ap_scopes h' ! p = (if p = q then (ap_scopes h ! q)\<lparr>sp_id := replyID (st_args stmt)\<rparr> else ap_scopes h ! p)"
    using assms(3,4) u q by (simp_all add: name1_def Let_def)
  have "unnamedOnes h' = filter (\<lambda>p. p \<noteq> q) (unnamedOnes h)"
    unfolding unnamedOnes_def o sc using assms(3) by (auto simp: filter_filter intro!: filter_cong)
  moreover have "distinct (q # qs)" using assms(2) appOK_dest(2)[OF assms(1)] unfolding unnamedOnes_def by (metis distinct_filter)
  ultimately show "unnamedOnes h' = qs" using assms(2) by (auto simp: filter_id_conv)
qed

lemma turn_owed:
  assumes "answersInTurn lib key a b" "appOK (fst a) \<and> closedAreDone (fst a) \<and> unnamedOnes (fst a) = snd a"
  shows "unnamedOnes (fst b) = snd b"
  using assms
proof (cases rule: answersInTurn.cases)
  case (Stated h owed d)
  then show ?thesis using assms(2) by (simp add: OpenSet_def Let_def unnamedOnes_def)
next
  case (Asked i h sc out refused err h' owed)
  have ok: "appOK h" "closedAreDone h" "unnamedOnes h = owed" using assms(2) Asked(1) by simp_all
  note E = ReadScope_effect[OF ok(1,2) Asked(3) refl, where sc = sc and lib = lib and out = out and refused = refused]
  have lt: "\<forall>p \<in> set (ap_opening h). p < List.length (ap_scopes h)" using appOK_dest(3)[OF ok(1)] by blast
  have old: "filter (\<lambda>p. sp_id (ap_scopes h' ! p) = 0) (ap_opening h) = owed" if "\<forall>p < List.length (ap_scopes h). ap_scopes h' ! p = ap_scopes h ! p"
    using ok(3) lt that unfolding unnamedOnes_def by (metis (mono_tags, lifting) filter_cong)
  show ?thesis
  proof (cases "err = []")
    case True
    then have "ap_opening h' = ap_opening h @ [List.length (ap_scopes h)]" "sp_id (ap_scopes h' ! List.length (ap_scopes h)) = 0"
      "\<forall>p < List.length (ap_scopes h). ap_scopes h' ! p = ap_scopes h ! p" using E(3) Asked(4) by simp_all
    then show ?thesis using old Asked(2) True by (simp add: unnamedOnes_def)
  next
    case False
    then have "ap_opening h' = ap_opening h" "\<forall>p < List.length (ap_scopes h). ap_scopes h' ! p = ap_scopes h ! p" using E(4) Asked(4) by simp_all
    then show ?thesis using old Asked(2) False by (simp add: unnamedOnes_def)
  qed
next
  case (Named stmt h q owed)
  then show ?thesis using assms(2) name1_first(1)[OF _ _ Named(4) refl, of h q owed] by (simp add: Inbound_def)
next
  case (Refused stmt h q owed)
  have ok: "appOK h" "unnamedOnes h = q # owed" using assms(2) Refused(1) by simp_all
  have u: "unnamedScope h = Some q" using ok(2) by (simp add: unnamedScope_first)
  have q: "q \<in> set (ap_opening h)" using unnamed_spec[OF u] by blast
  have e: "snd (Inbound lib key stmt h) = finish lib q (failed (errorText (st_args stmt))) h"
    using Refused(3) u by (simp add: Inbound_def refusedBatch_def DecodeError_def)
  have q': "q < List.length (ap_scopes h)" "\<not> sp_done (ap_scopes h ! q)" using appOK_dest(3)[OF ok(1)] q by blast+
  have "q \<notin> set (ap_opening (finish lib q (failed (errorText (st_args stmt))) h))"
    unfolding finish_def finishWith_effect(3)[OF q' appOK_dest(5)[OF ok(1) q'(1)] refl] using appOK_dest(2)[OF ok(1)] by simp
  then show ?thesis using losesOnly_first[OF losesOnly_finish[OF ok(1) q] ok(2) _ appOK_dest(2)[OF ok(1)]] Refused(2) e by simp
next
  case (Said stmt h owed)
  have ok: "appOK h" "unnamedOnes h = owed" using assms(2) Said(1) by simp_all
  have "unnamedOnes (snd (Inbound lib key stmt h)) = unnamedOnes h"
  proof (cases "addressed stmt h")
    case None
    then show ?thesis using Said(3) by (auto simp: Inbound_def staleNotice_def unnamedOnes_def split: sum.splits)
  next
    case (Some q)
    note L = losesOnly_unnamed[OF _ addressed_named[OF ok(1) Some]]
    show ?thesis using Said(3) Some L[OF losesOnly_takeResult[OF ok(1) addressed_open[OF ok(1) Some]]] L[OF losesOnly_takePlace[OF ok(1) addressed_open[OF ok(1) Some]]]
      by (auto simp: Inbound_def staleNotice_def unnamedOnes_def split: sum.splits)
  qed
  then show ?thesis using ok(2) Said(2) by simp
next
  case (Closed i h owed)
  have ok: "appOK h" "unnamedOnes h = owed" using assms(2) Closed(1) by simp_all
  show ?thesis
  proof (cases "se_closed (ap_sets h ! i)")
    case True then show ?thesis using ok(2) Closed(2) by (simp add: CloseSet_def)
  next
    case False
    note E = CloseSet_effect[OF ok(1) Closed(3) False refl, where lib = lib]
    have "\<forall>q \<in> set (waitingFor i h). sp_id (ap_scopes h ! q) \<noteq> 0" using Closed(4) appOK_dest(6)[OF ok(1) Closed(3)] False by simp
    then have "unnamedOnes (CloseSet lib i h) = unnamedOnes h"
      unfolding unnamedOnes_def E(2,3) filter_filter by (intro filter_cong) (auto simp: waitingFor_def)
    then show ?thesis using ok(2) Closed(2) by simp
  qed
next
  case (Quiet h owed) then show ?thesis using assms(2) by (simp add: unnamedOnes_def)
qed

lemma turns_owed:
  assumes "(answersInTurn lib key)\<^sup>*\<^sup>* (NewApplicationSource name connected, []) b"
  shows "appOK (fst b) \<and> closedAreDone (fst b) \<and> unnamedOnes (fst b) = snd b"
  using assms
proof (induction rule: rtranclp_induct)
  case base then show ?case using new_OK by (simp add: unnamedOnes_def NewApplicationSource_def)
next
  case (step b c)
  have "happens lib key (fst b) (fst c)" using happens_turn[of lib key "fst b" "snd b" "fst c" "snd c"] step(2) by simp
  then show ?case using happens_OK step(3) turn_owed[OF step(2)] by blast
qed

text \<open>C13. An answer goes to the question it answers: while the application answers its batches in turn, and no sequence is closed
  before its queries have their numbers, the number a reply brings goes to the scope the answered batch
  asked for and results under it to that scope's reader, and a refusal ends that scope.\<close>

theorem answers_find_their_question:
  assumes "(answersInTurn lib key)\<^sup>*\<^sup>* (NewApplicationSource name connected, []) (h, q # owed)"
  shows "(\<forall>stmt. st_verb stmt = ''reply'' \<and> replyID (st_args stmt) \<noteq> 0 \<longrightarrow>
      ap_byID (snd (Inbound lib key stmt h)) (replyID (st_args stmt)) = Some q \<and> sp_id (ap_scopes (snd (Inbound lib key stmt h)) ! q) = replyID (st_args stmt))
    \<and> (\<forall>stmt. st_verb stmt = ''error'' \<longrightarrow> sp_done (ap_scopes (snd (Inbound lib key stmt h)) ! q)
        \<and> (\<forall>p. p \<noteq> q \<longrightarrow> ap_scopes (snd (Inbound lib key stmt h)) ! p = ap_scopes h ! p))"
proof -
  have ok: "appOK h" "unnamedOnes h = q # owed" using turns_owed[OF assms] by simp_all
  have u: "unnamedScope h = Some q" using ok(2) by (simp add: unnamedScope_first)
  have q: "q \<in> set (ap_opening h)" using unnamed_spec[OF u] by blast
  have q': "q < List.length (ap_scopes h)" "\<not> sp_done (ap_scopes h ! q)" using appOK_dest(3)[OF ok(1)] q by blast+
  have "Inbound lib key stmt h = name1 stmt h" if "st_verb stmt = ''reply''" for stmt using that by (simp add: Inbound_def)
  moreover have "snd (Inbound lib key stmt h) = finish lib q (failed (errorText (st_args stmt))) h" if "st_verb stmt = ''error''" for stmt
    using that u by (simp add: Inbound_def refusedBatch_def DecodeError_def)
  ultimately show ?thesis
    using name1_first(2,4)[OF ok] finishWith_effect(2)[OF q' appOK_dest(5)[OF ok(1) q'(1)] refl, where lib = lib and answered = True, folded finish_def]
    by simp
qed

text \<open>C39. A sequence closed before its query has a number takes the next question's number with it: the reply to the closed
  query names the scope after it instead, so the records the application sends for the closed query are handed to a
  reader that asked something else, and the application is never told that the closed query may go.\<close>

theorem a_closed_scope_misnames_the_next:
  assumes "(happens lib key)\<^sup>*\<^sup>* (NewApplicationSource name connected) h" "i < List.length (ap_sets h)" "\<not> se_closed (ap_sets h ! i)"
    "unnamedOnes h = q1 # q2 # others" "sp_set (ap_scopes h ! q1) = i" "sp_set (ap_scopes h ! q2) \<noteq> i"
    "st_verb stmt = ''reply''" "replyID (st_args stmt) \<noteq> 0"
  shows "let h1 = CloseSet lib i h; h2 = snd (Inbound lib key stmt h1) in
    sp_done (ap_scopes h1 ! q1) \<and> ap_byID h2 (replyID (st_args stmt)) = Some q2 \<and> sp_id (ap_scopes h2 ! q2) = replyID (st_args stmt)
    \<and> sp_id (ap_scopes h2 ! q1) = 0"
proof -
  have ok: "appOK h" using reached_OK[OF assms(1)] by blast
  note E = CloseSet_effect[OF ok assms(2,3) refl, where lib = lib]
  have un: "unnamedOnes (CloseSet lib i h) = q2 # filter (\<lambda>q. sp_set (ap_scopes h ! q) \<noteq> i) others"
  proof -
    have "unnamedOnes (CloseSet lib i h) = filter (\<lambda>q. sp_set (ap_scopes h ! q) \<noteq> i) (unnamedOnes h)"
      unfolding unnamedOnes_def E(2,3) filter_filter by (rule filter_cong) auto
    then show ?thesis using assms(4-6) by simp
  qed
  have "q1 \<in> set (unnamedOnes h)" using assms(4) by simp
  then have q1: "q1 \<in> set (ap_opening h)" "sp_id (ap_scopes h ! q1) = 0" by (auto simp: unnamedOnes_def)
  then have "q1 < List.length (ap_scopes (CloseSet lib i h))" "q1 \<notin> set (ap_opening (CloseSet lib i h))"
    using appOK_dest(3)[OF ok] assms(5) E(2,6) by auto
  then have "sp_done (ap_scopes (CloseSet lib i h) ! q1)" using appOK_dest(3)[OF E(1)] by blast
  moreover have "q1 \<noteq> q2" using assms(5,6) by blast
  moreover have "Inbound lib key stmt (CloseSet lib i h) = name1 stmt (CloseSet lib i h)" using assms(7) by (simp add: Inbound_def)
  ultimately show ?thesis using name1_first(2,4)[OF E(1) un assms(8) refl] E(3) q1(2) by (simp add: Let_def)
qed

subsection \<open>Telling\<close>

text \<open>Whether an arrival has not been told of yet: none has been since the last round of telling began.\<close>

definition untold :: "appEvent list \<Rightarrow> bool" where
  "untold log = fold (\<lambda>e owed. case e of Arrival \<Rightarrow> True | Telling \<Rightarrow> False | _ \<Rightarrow> owed) log False"

lemma untold_simps [simp]: "untold [] = False" "untold (xs @ [e]) = (case e of Arrival \<Rightarrow> True | Telling \<Rightarrow> False | _ \<Rightarrow> untold xs)"
  "untold (xs @ [Arrival, Telling]) = False"
  by (simp_all add: untold_def split: appEvent.splits)

definition tellsOK :: "appSource \<Rightarrow> bool" where
  "tellsOK h \<longleftrightarrow> (untold (ap_log h) = ap_again h) \<and> (ap_again h \<longrightarrow> ap_firing h)"

lemma tells_small:
  "tellsOK h \<Longrightarrow> tellsOK (logged (Handed q x) h)" "tellsOK h \<Longrightarrow> tellsOK (logged (Noticed n) h)" "tellsOK h \<Longrightarrow> tellsOK (arrived h)"
  "tellsOK h \<Longrightarrow> tellsOK (tellingEnds h)" "tellsOK (writes t h) = tellsOK h" "tellsOK (updScope q f h) = tellsOK h" "tellsOK (updSet i g h) = tellsOK h"
  "tellsOK (learnTotal lib i c h) = tellsOK h" "tellsOK (forgetScope q h) = tellsOK h" "tellsOK (askedScope q h) = tellsOK h"
  "tellsOK (h\<lparr>ap_sets := a\<rparr>) = tellsOK h" "tellsOK (h\<lparr>ap_scopes := b\<rparr>) = tellsOK h" "tellsOK (h\<lparr>ap_byID := c'\<rparr>) = tellsOK h"
  by (auto simp: tellsOK_def arrived_def tellingEnds_def Let_def logged_def forgetScope_def askedScope_def updSet_def writes_def updScope_def learnTotal_def)

lemma tells_finishWith: "tellsOK h \<Longrightarrow> tellsOK (finishWith lib q c answered h)"
  by (auto simp: finishWith_def Let_def tells_small)

lemma tells_Close: "tellsOK h \<Longrightarrow> tellsOK (CloseSet lib i h)"
proof -
  have "tellsOK h \<Longrightarrow> tellsOK (fold (\<lambda>q. hungUp lib q c) qs h)" for qs c h
    by (induction qs arbitrary: h) (auto simp: hungUp_def tells_finishWith)
  then show "tellsOK h \<Longrightarrow> tellsOK (CloseSet lib i h)" by (simp add: CloseSet_def Let_def tells_small)
qed

lemma Close_untold: "untold (ap_log (CloseSet lib i h)) = untold (ap_log h) \<and> ap_firing (CloseSet lib i h) = ap_firing h"
proof -
  have one: "untold (ap_log (hungUp lib q c h)) = untold (ap_log h) \<and> ap_firing (hungUp lib q c h) = ap_firing h" for q c h
    by (auto simp: hungUp_def finishWith_def forgetScope_def Let_def)
  have "untold (ap_log (fold (\<lambda>q. hungUp lib q c) qs h)) = untold (ap_log h) \<and> ap_firing (fold (\<lambda>q. hungUp lib q c) qs h) = ap_firing h" for qs c h
    by (induction qs arbitrary: h) (simp_all add: one)
  then show ?thesis by (simp add: CloseSet_def Let_def)
qed

lemma tells_Inbound: "tellsOK h \<Longrightarrow> tellsOK (snd (Inbound lib key stmt h))"
proof -
  assume t: "tellsOK h"
  have f: "tellsOK h \<Longrightarrow> tellsOK (finish lib q c h)" for h q c by (simp add: finish_def tells_finishWith)
  have "tellsOK (takeResult lib key q args h)" for q args
    using t by (auto simp: takeResult_def Let_def intro!: f tells_small(1) simp: tells_small(6) split: sum.splits option.splits)
  moreover have "tellsOK (takePlace lib key q args h)" for q args
    using t by (auto simp: takePlace_def Let_def intro!: f tells_small(1) simp: tells_small(6) split: sum.splits option.splits)
  moreover have "tellsOK (snd (name1 stmt h))" using t by (simp add: name1_def Let_def tells_small split: option.splits)
  moreover have "tellsOK (snd (staleNotice lib stmt h))" using t by (auto simp: staleNotice_def intro!: tells_small(2,3) split: sum.splits)
  moreover have "tellsOK (snd (refusedBatch lib stmt h))" using t f by (auto simp: refusedBatch_def split: sum.splits option.splits)
  ultimately show ?thesis by (auto simp: Inbound_def t split: option.splits)
qed

lemma tells_happens: "happens lib key h h' \<Longrightarrow> tellsOK h \<Longrightarrow> tellsOK h'"
  by (erule happens.cases)
     (auto simp: OpenSet_def ReadScope_def finish_def Let_def tells_small tells_finishWith tells_Close tells_Inbound split: option.splits)


subsection \<open>A conversation at hand\<close>

definition fieldKey :: "data option \<Rightarrow> string" where "fieldKey v = EncodeValue (asWirePtr v)"

text \<open>Two sequences, a scope of each asked for.\<close>

definition twoAsked :: appSource where
  "twoAsked = snd (ReadScope spelled 1 None (Some False) [] (snd (ReadScope spelled 0 None (Some False) []
     (snd (OpenSet None (snd (OpenSet None (NewApplicationSource ''rows'' True))))))))"

definition named :: "u64 \<Rightarrow> statement" where "named i = Statement [] ''reply'' [] 0 [valueArg ''q'' (NewInt i)]"

definition oneRow :: "u64 \<Rightarrow> statement" where
  "oneRow i = Statement [] ''result'' [] 0 (Arg [] FlagNone (Some (NewInt i)) #
     [valueArg ''id'' (NewInt 42), valueArg ''record'' (BlockValue (Script [])), flagArg ''complete''])"

lemma two_length: "List.length (ap_sets (snd (OpenSet None (snd (OpenSet None (NewApplicationSource ''rows'' True)))))) = 2"
  by (simp add: OpenSet_def NewApplicationSource_def)

lemma ReadScope_sets: "List.length (ap_sets (snd (ReadScope lib i sc out refused h))) = List.length (ap_sets h)"
  by (auto simp: ReadScope_def Let_def finish_def finishWith_def forgetScope_def askedScope_def split: option.splits)

lemma two_happens: "(happens spelled fieldKey)\<^sup>*\<^sup>* (NewApplicationSource ''rows'' True) twoAsked"
proof -
  let ?h2 = "snd (OpenSet None (snd (OpenSet None (NewApplicationSource ''rows'' True))))"
  let ?h3 = "snd (ReadScope spelled 0 None (Some False) [] ?h2)"
  have "happens spelled fieldKey ?h2 ?h3" by (rule happens.Reads) (simp add: two_length)
  moreover have "happens spelled fieldKey ?h3 twoAsked" unfolding twoAsked_def by (rule happens.Reads) (simp add: ReadScope_sets two_length)
  ultimately show ?thesis using happens.States by (meson rtranclp.rtrancl_into_rtrancl rtranclp.rtrancl_refl)
qed

lemma two_facts: "ap_opening twoAsked = [0, 1]" "List.length (ap_scopes twoAsked) = 2" "sp_id (ap_scopes twoAsked ! 0) = 0" "sp_id (ap_scopes twoAsked ! 1) = 0"
  "sp_set (ap_scopes twoAsked ! 0) = 0" "sp_set (ap_scopes twoAsked ! 1) = 1" "\<not> se_closed (ap_sets twoAsked ! 0)" "List.length (ap_sets twoAsked) = 2"
  "\<not> sp_done (ap_scopes twoAsked ! 0)"
  by (simp_all add: twoAsked_def ReadScope_def OpenSet_def NewApplicationSource_def askedScope_def Let_def updSet_def writes_def)

lemma named_reply: "st_verb (named i) = ''reply''" "replyID (st_args (named i)) = i"
  by (simp_all add: named_def replyID_def valueArg_def NewInt_def)

theorem every_reader_is_answered_once_witness:
  "\<not> list_ex isDone (handedTo 0 (ap_log twoAsked)) \<and> 0 \<in> set (ap_opening twoAsked)
   \<and> (\<exists>xs c. handedTo 0 (ap_log (snd (Inbound spelled fieldKey (oneRow 7) (snd (Inbound spelled fieldKey (named 7) twoAsked))))) = xs @ [SinkDone c] \<and> \<not> list_ex isDone xs)"
proof -
  let ?h1 = "snd (Inbound spelled fieldKey (named 7) twoAsked)"
  let ?h2 = "snd (Inbound spelled fieldKey (oneRow 7) ?h1)"
  have r1: "(happens spelled fieldKey)\<^sup>*\<^sup>* (NewApplicationSource ''rows'' True) ?h1" using two_happens happens.Hears by (meson rtranclp.rtrancl_into_rtrancl)
  then have r2: "(happens spelled fieldKey)\<^sup>*\<^sup>* (NewApplicationSource ''rows'' True) ?h2" using happens.Hears by (meson rtranclp.rtrancl_into_rtrancl)
  have ok: "appOK twoAsked" "unnamedOnes twoAsked = [0, 1]" using reached_OK[OF two_happens] by (simp_all add: unnamedOnes_def two_facts two_facts(4)[unfolded One_nat_def])
  have n: "?h1 = snd (name1 (named 7) twoAsked)" by (simp add: Inbound_def named_reply)
  have i: "replyID (st_args (named 7)) \<noteq> 0" by (simp add: named_reply)
  note N = name1_first[OF ok i n]
  have q: "0 \<in> set (ap_opening ?h1)" unfolding N(5) by (simp add: two_facts)
  have ok1: "appOK ?h1" using reached_OK[OF r1] by blast
  have q': "0 < List.length (ap_scopes ?h1)" "\<not> sp_done (ap_scopes ?h1 ! 0)" using appOK_dest(3)[OF ok1] q by blast+
  obtain r where r: "ParseResult spelled (tl (st_args (oneRow 7))) = Inr r" "r_Complete r \<noteq> None"
  proof -
    have p: "ParseResult spelled (tl (st_args (oneRow 7))) = Inr \<lparr>Ordered = False, ID = Some (IntValue 42), r_Fields = [], Whole = True, Has = \<lparr>Named' = 0, Ordered' = 0\<rparr>,
      Place = False, r_Complete = Some emptyComplete\<rparr>" by code_simp
    show ?thesis by (rule that[OF p]) simp
  qed
  have adr: "addressed (oneRow 7) ?h1 = Some 0" using N(2) by (simp add: addressed_def oneRow_def NewInt_def named_reply)
  have e: "?h2 = takeResult spelled fieldKey 0 (tl (st_args (oneRow 7))) ?h1" using adr by (simp add: Inbound_def oneRow_def)
  obtain h' where h': "?h2 = finish spelled 0 (the (r_Complete r)) h'" "appOK h'" "0 \<in> set (ap_opening h')"
    using recordTaken[OF ok1 q r(1), of fieldKey] r(2) unfolding e by auto
  have q2: "0 < List.length (ap_scopes h')" "\<not> sp_done (ap_scopes h' ! 0)" using appOK_dest(3)[OF h'(2)] h'(3) by blast+
  note F = finishWith_effect[OF q2 appOK_dest(5)[OF h'(2) q2(1)] refl, where lib = spelled and c = "the (r_Complete r)" and answered = True, folded finish_def h'(1)]
  show ?thesis using every_reader_is_answered_once[OF two_happens, of 0] every_reader_is_answered_once[OF r2, of 0] F(1,2) q2 two_facts by simp
qed

theorem answers_find_their_question_witness:
  "ap_byID (snd (Inbound spelled fieldKey (named 7) twoAsked)) 7 = Some 0"
proof -
  let ?h1 = "snd (OpenSet None (NewApplicationSource ''rows'' True))"
  let ?h2 = "snd (OpenSet None ?h1)"
  let ?h3 = "snd (ReadScope spelled 0 None (Some False) [] ?h2)"
  note step = rtranclp.rtrancl_into_rtrancl[where r = "answersInTurn spelled fieldKey"]
  have s2: "(answersInTurn spelled fieldKey)\<^sup>*\<^sup>* (NewApplicationSource ''rows'' True, []) (?h2, [])"
    by (rule step[OF step[OF rtranclp.rtrancl_refl answersInTurn.Stated] answersInTurn.Stated])
  have e: "ReadScope spelled 0 None (Some False) [] ?h2 = ([], ?h3)" "List.length (ap_scopes ?h2) = 0" "ReadScope spelled 1 None (Some False) [] ?h3 = ([], twoAsked)"
    "List.length (ap_scopes ?h3) = 1"
    by (simp_all add: twoAsked_def ReadScope_def OpenSet_def NewApplicationSource_def askedScope_def Let_def updSet_def writes_def)
  have s3: "(answersInTurn spelled fieldKey)\<^sup>*\<^sup>* (NewApplicationSource ''rows'' True, []) (?h3, [0])"
    using step[OF s2 answersInTurn.Asked[OF _ e(1)]] two_length e(2) by simp
  have "(answersInTurn spelled fieldKey)\<^sup>*\<^sup>* (NewApplicationSource ''rows'' True, []) (twoAsked, [0, 1])"
    using step[OF s3 answersInTurn.Asked[OF _ e(3)]] two_length e(4) by (simp add: ReadScope_sets)
  then show ?thesis using answers_find_their_question[of spelled fieldKey "''rows''" True twoAsked 0 "[1]"] named_reply[of 7] by auto
qed

theorem a_closed_scope_misnames_the_next_witness:
  "let h2 = snd (Inbound spelled fieldKey (named 7) (CloseSet spelled 0 twoAsked)) in ap_byID h2 7 = Some 1 \<and> sp_id (ap_scopes h2 ! 1) = 7"
  using a_closed_scope_misnames_the_next[OF two_happens, of 0 0 1 "[]" "named 7"] two_facts named_reply[of 7] by (simp add: unnamedOnes_def Let_def)


end
