(* ===== verification/GoLines.thy ===== *)
theory GoLines
  imports GoText "HOL-Library.Sublist"
begin

text \<open>
  Text by lines and by words: \<open>bufio.Scanner\<close>, \<open>strings.Fields\<close> and \<open>strings.Index\<close>, and when trimming a text or
  cutting it into words gives back what was put in.
\<close>

subsection \<open>Reading a file by lines\<close>

text \<open>\<open>bufio.Scanner\<close> by lines: a line and its newline fit a buffer of 65536 bytes or reading stops there, and a carriage
  return before the newline is dropped.\<close>

definition dropCR :: "string \<Rightarrow> string" where
  "dropCR line = (if line \<noteq> [] \<and> last line = CHR 0x0D then butlast line else line)"

function scanLines :: "string \<Rightarrow> string list" where
  "scanLines s =
     (if s = [] then []
      else
        (let line = takeWhile (\<lambda>c. c \<noteq> CHR 0x0A) s; rest' = dropWhile (\<lambda>c. c \<noteq> CHR 0x0A) s in
         if List.length line \<ge> 65536 then []
         else dropCR line # (case rest' of [] \<Rightarrow> [] | nl # after \<Rightarrow> scanLines after)))"
  by pat_completeness auto
termination
proof (relation "measure List.length")
  fix s x line rest' :: string and a after
  assume "s \<noteq> []" "line = takeWhile (\<lambda>c. c \<noteq> CHR 0x0A) s" "rest' = dropWhile (\<lambda>c. c \<noteq> CHR 0x0A) s" "rest' = a # after"
  then have "List.length (a # after) \<le> List.length s" by (metis length_dropWhile_le)
  then show "(after, s) \<in> measure List.length" by simp
qed simp

declare scanLines.simps [simp del]

text \<open>\<open>strings.Fields\<close>, and \<open>strings.Index\<close> for a text that is there.\<close>

fun fieldsLoop :: "(rune \<times> string) list \<Rightarrow> string \<Rightarrow> string list" where
  "fieldsLoop [] word = (if word = [] then [] else [word])"
| "fieldsLoop ((r, bytes) # cs) word =
     (if isSpace r then (if word = [] then fieldsLoop cs [] else word # fieldsLoop cs []) else fieldsLoop cs (word @ bytes))"

definition fieldsOf :: "string \<Rightarrow> string list" where "fieldsOf s = fieldsLoop (utf8_chunks s) []"

fun indexOf :: "string \<Rightarrow> string \<Rightarrow> nat" where
  "indexOf sub [] = 0"
| "indexOf sub (c # cs) = (if prefix sub (c # cs) then 0 else Suc (indexOf sub cs))"

subsection \<open>Lines and words\<close>

definition NL :: char where "NL = CHR 0x0A"

lemma chunks_ascii: "ascii xs \<Longrightarrow> utf8_chunks (xs @ ys) = map (\<lambda>c. (of_char c, [c])) xs @ utf8_chunks ys"
proof (induction xs)
  case (Cons c xs)
  then have "of_char c < (0x80 :: nat)" "ascii xs" by (simp_all add: ascii_def)
  then show ?case using Cons decodeRune_1[of "of_char c" "xs @ ys"] by simp
qed simp

lemma chunks_bytes: "concat (map snd (utf8_chunks s)) = s"
proof (induction s rule: utf8_chunks.induct)
  case (2 c cs)
  have "utf8_chunks (c # cs) = (fst (decodeRune c cs), c # take (snd (decodeRune c cs) - 1) cs) # utf8_chunks (drop (snd (decodeRune c cs) - 1) cs)" by (simp add: Let_def)
  then show ?case using 2 by simp
qed simp

lemma chunks_Nil [simp]: "utf8_chunks s = [] \<longleftrightarrow> s = []" by (cases s) (simp_all add: Let_def)

text \<open>A text that begins and ends with no space is its own trimming.\<close>

definition trimmed :: "string \<Rightarrow> bool" where
  "trimmed s \<longleftrightarrow> s \<noteq> [] \<and> \<not> isSpace (fst (hd (utf8_chunks s))) \<and> \<not> isSpace (fst (last (utf8_chunks s)))"

lemma trimSpace_trimmed: "trimmed s \<Longrightarrow> trimSpace s = s"
proof -
  assume t: "trimmed s"
  let ?c = "utf8_chunks s" and ?P = "isSpace \<circ> fst"
  have ne: "?c \<noteq> []" using t by (simp add: trimmed_def)
  have keep: "dropWhile ?P xs = xs" if "xs \<noteq> []" "\<not> isSpace (fst (hd xs))" for xs :: "(rune \<times> string) list" using that by (cases xs) auto
  have a: "dropWhile ?P ?c = ?c" using keep[OF ne] t by (simp add: trimmed_def)
  have b: "dropWhile ?P (rev ?c) = rev ?c" using keep[of "rev ?c"] ne t by (simp add: trimmed_def hd_rev)
  show ?thesis unfolding trimSpace_def a b by (simp add: chunks_bytes)
qed

lemma trimSpace_space: "trimSpace (CHR '' '' # s) = trimSpace s"
proof -
  have "utf8_chunks (CHR '' '' # s) = (32, '' '') # utf8_chunks s" using chunks_ascii[of "'' ''" s] by (simp add: ascii_def)
  then show ?thesis by (simp add: trimSpace_def isSpace_def)
qed

text \<open>A word: letters without spaces.\<close>

definition wordy :: "string \<Rightarrow> bool" where "wordy w \<longleftrightarrow> ascii w \<and> w \<noteq> [] \<and> list_all (\<lambda>c. \<not> isSpace (of_char c)) w"

lemma wordy_loop: "ascii w \<Longrightarrow> list_all (\<lambda>c. \<not> isSpace (of_char c)) w \<Longrightarrow>
    fieldsLoop (map (\<lambda>c. (of_char c, [c])) w @ cs) acc = fieldsLoop cs (acc @ w)"
  by (induction w arbitrary: acc) (auto simp: ascii_def)

lemma fields_word: "wordy w \<Longrightarrow> fieldsOf (w @ CHR '' '' # s) = w # fieldsOf s"
proof -
  assume w: "wordy w"
  have "utf8_chunks (w @ CHR '' '' # s) = map (\<lambda>c. (of_char c, [c])) w @ (32, '' '') # utf8_chunks s"
    using chunks_ascii[of w "CHR '' '' # s"] chunks_ascii[of "'' ''" s] w by (simp add: wordy_def ascii_def)
  then show ?thesis using wordy_loop[of w "(32, '' '') # utf8_chunks s" "[]"] w by (simp add: fieldsOf_def wordy_def isSpace_def)
qed

lemma fields_last: "wordy w \<Longrightarrow> fieldsOf w = [w]"
  using wordy_loop[of w "[]" "[]"] chunks_ascii[of w "[]"] by (simp add: fieldsOf_def wordy_def)

end
