(* ===== verification/Admission.thy ===== *)
theory Admission
  imports GoLines
begin

text \<open>
  Who a desktop lets in (\<open>display/auth.go\<close>): the file of standing decisions, what is recorded in it, how it is read and edited,
  and the gate every connection passes. The file is its contents, \<open>None\<close> while there is none; it can always be written.
  What the user or a script answers is an argument of the gate.
\<close>

subsection \<open>Who is asking\<close>

datatype AuthDecision = AuthDenyOnce | AuthAllowOnce | AuthAllowApp | AuthAllowClient | AuthDenyApp | AuthDenyClient

definition allows :: "AuthDecision \<Rightarrow> bool" where
  "allows d \<longleftrightarrow> d = AuthAllowOnce \<or> d = AuthAllowApp \<or> d = AuthAllowClient"

record AuthRequest =
  rq_AppName :: string
  rq_Fingerprint :: string
  rq_RemoteAddr :: string
  rq_Local :: bool

text \<open>\<open>net.SplitHostPort\<close>, as far as the host goes.\<close>

definition hostOf :: "string \<Rightarrow> string option" where
  "hostOf hostport =
     (if CHR '':'' \<notin> set hostport then None
      else
        (let i = List.length hostport - 1 - List.length (takeWhile (\<lambda>c. c \<noteq> CHR '':'') (rev hostport)) in
         if hd hostport = CHR ''['' then
           (if CHR '']'' \<notin> set hostport then None
            else
              (let stop = List.length (takeWhile (\<lambda>c. c \<noteq> CHR '']'') hostport) in
               if stop + 1 \<noteq> i then None
               else if CHR ''['' \<in> set (drop 1 hostport) \<or> CHR '']'' \<in> set (drop (stop + 1) hostport) then None
               else Some (take (stop - 1) (drop 1 hostport))))
         else if CHR '':'' \<in> set (take i hostport) then None
         else if CHR ''['' \<in> set hostport \<or> CHR '']'' \<in> set hostport then None
         else Some (take i hostport)))"

definition identity :: "AuthRequest \<Rightarrow> string" where
  "identity r =
     (if rq_Fingerprint r \<noteq> [] then rq_Fingerprint r
      else if rq_RemoteAddr r \<noteq> [] then
        (case hostOf (rq_RemoteAddr r) of Some host \<Rightarrow> ''ip:'' @ host | None \<Rightarrow> ''ip:'' @ rq_RemoteAddr r)
      else [])"

subsection \<open>Standing decisions\<close>

record authRule =
  ar_verdict :: string
  ar_scope :: string
  ar_fp :: string
  ar_app :: string

definition parseAuthLine :: "string \<Rightarrow> authRule option" where
  "parseAuthLine line0 =
     (let line = trimSpace line0 in
      if line = [] \<or> prefix ''#'' line then None
      else
        (case fieldsOf line of
           verdict # scope # fp # others \<Rightarrow>
             (if verdict \<noteq> ''allow'' \<and> verdict \<noteq> ''deny'' then None
              else if scope = ''app'' then
                Some \<lparr>ar_verdict = verdict, ar_scope = scope, ar_fp = fp, ar_app = trimSpace (drop (indexOf fp line + List.length fp) line)\<rparr>
              else if scope \<noteq> ''client'' then None
              else Some \<lparr>ar_verdict = verdict, ar_scope = scope, ar_fp = fp, ar_app = []\<rparr>)
         | _ \<Rightarrow> None))"

type_synonym authFile = "string option"

definition rulesOf :: "authFile \<Rightarrow> authRule list" where
  "rulesOf f = (case f of None \<Rightarrow> [] | Some text \<Rightarrow> List.map_filter parseAuthLine (scanLines text))"

text \<open>What the loop of \<open>decide\<close> has seen: client denied, client allowed, app denied, app allowed.\<close>

type_synonym seen = "bool \<times> bool \<times> bool \<times> bool"

definition seeRule :: "string \<Rightarrow> string \<Rightarrow> authRule \<Rightarrow> seen \<Rightarrow> seen" where
  "seeRule i app r = (\<lambda>(denyClient, allowClient, denyApp, allowApp).
     if ar_fp r \<noteq> i then (denyClient, allowClient, denyApp, allowApp)
     else if ar_scope r = ''client'' \<and> ar_verdict r = ''deny'' then (True, allowClient, denyApp, allowApp)
     else if ar_scope r = ''client'' \<and> ar_verdict r = ''allow'' then (denyClient, True, denyApp, allowApp)
     else if ar_scope r = ''app'' \<and> ar_app r = app \<and> ar_verdict r = ''deny'' then (denyClient, allowClient, True, allowApp)
     else if ar_scope r = ''app'' \<and> ar_app r = app \<and> ar_verdict r = ''allow'' then (denyClient, allowClient, denyApp, True)
     else (denyClient, allowClient, denyApp, allowApp))"

definition decide :: "authFile \<Rightarrow> AuthRequest \<Rightarrow> bool option" where
  "decide f req =
     (if identity req = [] then None
      else
        (case fold (seeRule (identity req) (rq_AppName req)) (rulesOf f) (False, False, False, False) of
           (denyClient, allowClient, denyApp, allowApp) \<Rightarrow>
             if denyClient then Some False else if denyApp then Some False else if allowClient then Some True else if allowApp then Some True else None))"

definition allowsAllApps :: "authFile \<Rightarrow> AuthRequest \<Rightarrow> bool" where
  "allowsAllApps f req =
     (if identity req = [] then False
      else
        (case fold (\<lambda>r (allowClient, denyClient).
             if ar_fp r \<noteq> identity req \<or> ar_scope r \<noteq> ''client'' then (allowClient, denyClient)
             else if ar_verdict r = ''allow'' then (True, denyClient)
             else if ar_verdict r = ''deny'' then (allowClient, True) else (allowClient, denyClient)) (rulesOf f) (False, False) of
           (allowClient, denyClient) \<Rightarrow> allowClient \<and> \<not> denyClient))"

definition recordLine :: "string \<Rightarrow> string \<Rightarrow> AuthDecision \<Rightarrow> string option" where
  "recordLine i app d =
     (case d of
        AuthAllowApp \<Rightarrow> Some (''allow app '' @ i @ '' '' @ app)
      | AuthAllowClient \<Rightarrow> Some (''allow client '' @ i)
      | AuthDenyApp \<Rightarrow> Some (''deny app '' @ i @ '' '' @ app)
      | AuthDenyClient \<Rightarrow> Some (''deny client '' @ i)
      | _ \<Rightarrow> None)"

definition recordDecision :: "AuthRequest \<Rightarrow> AuthDecision \<Rightarrow> authFile \<Rightarrow> authFile" where
  "recordDecision req d f =
     (if identity req = [] then f
      else (case recordLine (identity req) (rq_AppName req) d of
              None \<Rightarrow> f
            | Some line \<Rightarrow> Some ((case f of None \<Rightarrow> [] | Some text \<Rightarrow> text) @ line @ [CHR 0x0A])))"

subsection \<open>Editing\<close>

definition keptLines :: "(authRule \<Rightarrow> bool) \<Rightarrow> authFile \<Rightarrow> string list" where
  "keptLines keep f =
     (case f of
        None \<Rightarrow> []
      | Some text \<Rightarrow> filter (\<lambda>line. case parseAuthLine line of Some r \<Rightarrow> keep r | None \<Rightarrow> True) (scanLines text))"

definition editRules :: "(authRule \<Rightarrow> bool) \<Rightarrow> string \<Rightarrow> authFile \<Rightarrow> authFile" where
  "editRules keep add f =
     (let out = keptLines keep f @ (if add \<noteq> [] then [add] else []) in
      Some (if out = [] then [] else join [CHR 0x0A] out @ [CHR 0x0A]))"

definition replaceRule :: "string \<Rightarrow> string \<Rightarrow> string \<Rightarrow> authFile \<Rightarrow> authFile" where
  "replaceRule i app rule f =
     (if i = [] then f
      else
        (let scope = (if app \<noteq> [] then ''app'' else ''client'');
             line = (if rule = ''allow'' \<or> rule = ''deny''
               then rule @ '' '' @ scope @ '' '' @ i @ (if app \<noteq> [] then '' '' @ app else []) else [])
         in editRules (\<lambda>r. ar_fp r \<noteq> i \<or> ar_scope r \<noteq> scope \<or> ar_app r \<noteq> app) line f))"

definition setClientRule :: "string \<Rightarrow> string \<Rightarrow> authFile \<Rightarrow> authFile" where "setClientRule i rule f = replaceRule i [] rule f"

definition setAppRule :: "string \<Rightarrow> string \<Rightarrow> string \<Rightarrow> authFile \<Rightarrow> authFile" where
  "setAppRule i app rule f = (if app = [] then f else replaceRule i app rule f)"

definition forgetClient :: "string \<Rightarrow> authFile \<Rightarrow> authFile" where
  "forgetClient i f = (if i = [] then f else editRules (\<lambda>r. ar_fp r \<noteq> i) [] f)"

definition forgetApp :: "string \<Rightarrow> string \<Rightarrow> authFile \<Rightarrow> authFile" where
  "forgetApp i app f = (if i = [] \<or> app = [] then f else editRules (\<lambda>r. ar_fp r \<noteq> i \<or> ar_scope r \<noteq> ''app'' \<or> ar_app r \<noteq> app) [] f)"

subsection \<open>The gate\<close>

record gate =
  gt_token :: string
  gt_promptLocal :: bool
  gt_preTrustedOnly :: bool
  gt_authorize :: "(AuthRequest \<Rightarrow> AuthDecision) option"
  gt_prompt :: "(AuthRequest \<Rightarrow> AuthDecision) option"

definition admit :: "gate \<Rightarrow> AuthRequest \<Rightarrow> string \<Rightarrow> authFile \<Rightarrow> bool \<times> authFile" where
  "admit g req token f =
     (if gt_token g \<noteq> [] \<and> token = gt_token g then (True, f)
      else if rq_Local req \<and> \<not> gt_promptLocal g then (True, f)
      else
        (case decide f req of
           Some allow \<Rightarrow> (allow, f)
         | None \<Rightarrow>
             if gt_preTrustedOnly g then (False, f)
             else
               (let d = (case gt_authorize g of Some ask \<Rightarrow> ask req | None \<Rightarrow> (case gt_prompt g of Some ask \<Rightarrow> ask req | None \<Rightarrow> AuthDenyOnce))
                in (allows d, recordDecision req d f))))"

subsection \<open>What the window shows\<close>

record authEntryApp =
  ea_name :: string
  ea_allow :: bool
  ea_deny :: bool

record authEntry =
  en_identity :: string
  en_allow :: bool
  en_deny :: bool
  en_apps :: "authEntryApp list"

definition appAllowed :: "authEntryApp \<Rightarrow> bool" where "appAllowed a \<longleftrightarrow> ea_allow a \<and> \<not> ea_deny a"

definition entryApp :: "authEntry \<Rightarrow> string \<Rightarrow> authEntryApp" where
  "entryApp e name = (case List.find (\<lambda>a. ea_name a = name) (en_apps e) of Some a \<Rightarrow> a | None \<Rightarrow> \<lparr>ea_name = name, ea_allow = False, ea_deny = False\<rparr>)"

text \<open>The entries so far, and the two maps to their places: from an identity to its entry, and from an identity, a zero byte and
  an app to the place among that entry's apps.\<close>

type_synonym entering = "authEntry list \<times> (string \<Rightarrow> nat option) \<times> (string \<Rightarrow> nat option)"

definition placeEntry :: "string \<Rightarrow> entering \<Rightarrow> entering" where
  "placeEntry ident = (\<lambda>(out, at, appAt).
     (case at ident of
        Some i \<Rightarrow> (out, at, appAt)
      | None \<Rightarrow> (out @ [\<lparr>en_identity = ident, en_allow = False, en_deny = False, en_apps = []\<rparr>], at(ident \<mapsto> List.length out), appAt)))"

definition placeApp :: "nat \<Rightarrow> string \<Rightarrow> string \<Rightarrow> entering \<Rightarrow> entering" where
  "placeApp i k app = (\<lambda>(out, at, appAt).
     (case appAt k of
        Some j \<Rightarrow> (out, at, appAt)
      | None \<Rightarrow> (out[i := (out ! i)\<lparr>en_apps := en_apps (out ! i) @ [\<lparr>ea_name = app, ea_allow = False, ea_deny = False\<rparr>]\<rparr>], at,
                 appAt(k \<mapsto> List.length (en_apps (out ! i))))))"

text \<open>A place the maps give is a place in the lists as long as no identity has a zero byte in it; Go panics where it is not, and
  nothing is claimed of that here.\<close>

definition enterRule :: "authRule \<Rightarrow> entering \<Rightarrow> entering" where
  "enterRule r st =
     (let (out, at, appAt) = placeEntry (ar_fp r) st; i = the (at (ar_fp r))
      in if ar_scope r = ''client'' \<and> ar_verdict r = ''allow'' then (out[i := (out ! i)\<lparr>en_allow := True\<rparr>], at, appAt)
         else if ar_scope r = ''client'' \<and> ar_verdict r = ''deny'' then (out[i := (out ! i)\<lparr>en_deny := True\<rparr>], at, appAt)
         else if ar_scope r = ''app'' \<and> ar_app r \<noteq> [] then
           (let k = ar_fp r @ [CHR 0x00] @ ar_app r;
                (out, at, appAt) = placeApp i k (ar_app r) (out, at, appAt); j = the (appAt k); e = out ! i; a = en_apps e ! j
            in (out[i := e\<lparr>en_apps := (en_apps e)[j := (if ar_verdict r = ''deny'' then a\<lparr>ea_deny := True\<rparr> else a\<lparr>ea_allow := True\<rparr>)]\<rparr>], at, appAt))
         else (out, at, appAt))"

definition entries :: "authFile \<Rightarrow> authEntry list" where
  "entries f = fst (fold enterRule (rulesOf f) ([], (\<lambda>i. None), (\<lambda>k. None)))"

end
