(* ===== verification/AdmissionFacts.thy ===== *)
theory AdmissionFacts
  imports Admission
begin

text \<open>
  The gate of a desktop (\<open>display/auth.go\<close>): a line is read back as it was written, what is recorded is remembered, what is set by hand
  replaces what was said, and what the window of connections shows is what the gate decides. A decision looks only at which rules
  are in the file (\<open>decide_said\<close>), never at their order.
\<close>

subsection \<open>A file of lines\<close>

definition lineOK :: "string \<Rightarrow> bool" where "lineOK l \<longleftrightarrow> List.length l < 65536 \<and> NL \<notin> set l \<and> CHR 0x0D \<notin> set l"

definition written :: "string list \<Rightarrow> string" where "written ls = concat (map (\<lambda>l. l @ [NL]) ls)"

text \<open>A file that holds these lines, each of a length that can be read, and nothing after them.\<close>

definition holds :: "string list \<Rightarrow> authFile \<Rightarrow> bool" where
  "holds ls f \<longleftrightarrow> list_all lineOK ls \<and> (case f of None \<Rightarrow> ls = [] | Some text \<Rightarrow> text = written ls)"

lemma scan_written: "list_all lineOK ls \<Longrightarrow> scanLines (written ls) = ls"
proof (induction ls)
  case Nil show ?case by (simp add: written_def scanLines.simps)
next
  case (Cons l ls)
  then have l: "lineOK l" and ls: "scanLines (written ls) = ls" by simp_all
  have all: "\<And>c. c \<in> set l \<Longrightarrow> c \<noteq> NL" using l by (auto simp: lineOK_def)
  have tw: "takeWhile (\<lambda>c. c \<noteq> NL) (l @ NL # written ls) = l" "dropWhile (\<lambda>c. c \<noteq> NL) (l @ NL # written ls) = NL # written ls"
    using takeWhile_append2[of l "\<lambda>c. c \<noteq> NL"] dropWhile_append2[of l "\<lambda>c. c \<noteq> NL"] all by simp_all
  have "l \<noteq> [] \<Longrightarrow> last l \<noteq> CHR 0x0D" using l last_in_set[of l] unfolding lineOK_def by metis
  then have cr: "dropCR l = l" by (auto simp: dropCR_def)
  have w: "written (l # ls) = l @ NL # written ls" by (simp add: written_def)
  show ?case unfolding w by (subst scanLines.simps) (use tw l ls cr in \<open>simp add: Let_def NL_def[symmetric] lineOK_def\<close>)
qed

lemma rules_held: "holds ls f \<Longrightarrow> rulesOf f = List.map_filter parseAuthLine ls"
  using scan_written by (auto simp: holds_def rulesOf_def split: option.splits)

lemma written_append: "written (xs @ ys) = written xs @ written ys" by (simp add: written_def)

lemma written_join: "out \<noteq> [] \<Longrightarrow> join [CHR 0x0A] out @ [CHR 0x0A] = written out"
proof (induction out rule: induct_list012)
  case (3 x y zs) then show ?case by (simp add: written_def NL_def)
qed (simp_all add: written_def NL_def)

lemma holds_edit:
  assumes "holds ls f" "add = [] \<or> lineOK add"
  shows "holds (filter (\<lambda>l. case parseAuthLine l of Some r \<Rightarrow> keep r | None \<Rightarrow> True) ls @ (if add \<noteq> [] then [add] else [])) (editRules keep add f)"
proof -
  have k: "keptLines keep f = filter (\<lambda>l. case parseAuthLine l of Some r \<Rightarrow> keep r | None \<Rightarrow> True) ls"
    using assms(1) scan_written by (auto simp: holds_def keptLines_def split: option.splits)
  have "list_all lineOK ls" using assms(1) by (simp add: holds_def)
  then show ?thesis using assms(2) written_join
    by (auto simp: holds_def editRules_def Let_def k list_all_iff written_def[of "[]"])
qed

lemma map_filter_filter: "List.map_filter g (filter P xs) = List.map_filter (\<lambda>x. if P x then g x else None) xs"
  by (induction xs) (auto simp: List.map_filter_simps split: option.splits)

lemma rules_edited:
  assumes "holds ls f" "add = [] \<or> lineOK add"
  shows "rulesOf (editRules keep add f) = filter keep (rulesOf f) @ (if add = [] then [] else case parseAuthLine add of None \<Rightarrow> [] | Some r \<Rightarrow> [r])"
proof -
  have "List.map_filter parseAuthLine (filter (\<lambda>l. case parseAuthLine l of Some r \<Rightarrow> keep r | None \<Rightarrow> True) ls) = filter keep (List.map_filter parseAuthLine ls)"
    by (induction ls) (auto simp: List.map_filter_simps split: option.splits)
  then show ?thesis unfolding rules_held[OF assms(1)] rules_held[OF holds_edit[OF assms]]
    by (auto simp: List.map_filter_def split: option.splits)
qed

lemma holds_record:
  assumes "holds ls f" "identity req \<noteq> []" "recordLine (identity req) (rq_AppName req) d = Some line" "line = join [NL] new" "list_all lineOK new" "new \<noteq> []"
  shows "holds (ls @ new) (recordDecision req d f)"
proof -
  have "line @ [CHR 0x0A] = written new" using written_join[OF assms(6)] assms(4) by (simp add: NL_def)
  then show ?thesis using assms by (auto simp: holds_def recordDecision_def written_append written_def[of "[]"] split: option.splits)
qed

subsection \<open>A line is read as it was written\<close>

text \<open>An identity as the gate makes them: a word with a colon in it.\<close>

definition plainIdentity :: "string \<Rightarrow> bool" where "plainIdentity i \<longleftrightarrow> wordy i \<and> CHR '':'' \<in> set i"

lemma indexOf_skip:
  assumes "plainIdentity i" "CHR '':'' \<notin> set w"
  shows "indexOf i (w @ CHR '' '' # s) = Suc (List.length w) + indexOf i s"
proof -
  have no: "\<not> prefix i (w @ CHR '' '' # s)" if "CHR '':'' \<notin> set w" for w
  proof
    assume "prefix i (w @ CHR '' '' # s)"
    then have "i = take (List.length i) (w @ CHR '' '' # s)" by (metis append_eq_conv_conj prefix_def)
    then have i: "i = take (List.length i) w @ take (List.length i - List.length w) (CHR '' '' # s)" by simp
    have sp: "CHR '' '' \<notin> set i" using assms(1) by (auto simp: plainIdentity_def wordy_def list_all_iff isSpace_def)
    show False
    proof (cases "List.length i \<le> List.length w")
      case True
      then have "i = take (List.length i) w" using i by simp
      then have "set i \<subseteq> set w" by (metis set_take_subset)
      then show False using assms(1) that by (auto simp: plainIdentity_def)
    next
      case False
      then have "List.length i - List.length w = Suc (List.length i - List.length w - 1)" by simp
      then have "CHR '' '' \<in> set (take (List.length i - List.length w) (CHR '' '' # s))" by (metis list.set_intros(1) take_Suc_Cons)
      then show False using i sp by (metis Un_iff set_append)
    qed
  qed
  from assms(2) show ?thesis
  proof (induction w)
    case Nil show ?case using no[of "[]"] by simp
  next
    case (Cons c w) then show ?case using no[of "c # w"] by simp
  qed
qed

lemma indexOf_here: "i \<noteq> [] \<Longrightarrow> indexOf i (i @ s) = 0" by (cases i) auto

text \<open>A name an application may give without it being read as anything else: with no line end in it and no space around it.\<close>

definition plainAppName :: "string \<Rightarrow> bool" where "plainAppName app \<longleftrightarrow> trimmed app \<and> NL \<notin> set app \<and> CHR 0x0D \<notin> set app"

lemma verdict_word: "v = ''allow'' \<or> v = ''deny'' \<Longrightarrow> wordy v \<and> CHR '':'' \<notin> set v \<and> v \<noteq> [] \<and> \<not> isSpace (of_char (hd v)) \<and> \<not> prefix ''#'' (v @ s)"
  by (auto simp: wordy_def ascii_def isSpace_def in_range_def)

lemma trimmed_line:
  assumes "wordy v" "trimmed s" "ascii m"
  shows "trimmed (v @ m @ s)"
proof -
  have a: "ascii (v @ m)" using assms(1,3) by (simp add: wordy_def ascii_def)
  obtain c v' where v: "v = c # v'" using assms(1) by (cases v) (auto simp: wordy_def)
  have "utf8_chunks (v @ m @ s) = map (\<lambda>c. (of_char c, [c])) (v @ m) @ utf8_chunks s" using chunks_ascii[OF a, of s] by simp
  then show ?thesis using assms v by (simp add: trimmed_def wordy_def last_append)
qed

lemma trimmed_word: "wordy w \<Longrightarrow> trimmed w"
proof -
  assume w: "wordy w"
  then have "utf8_chunks w = map (\<lambda>c. (of_char c, [c])) w" "w \<noteq> []" using chunks_ascii[of w "[]"] by (simp_all add: wordy_def)
  then show ?thesis using w hd_in_set[of w] last_in_set[of w] by (auto simp: trimmed_def wordy_def hd_map last_map list_all_iff)
qed

lemma parse_app_line:
  assumes "v = ''allow'' \<or> v = ''deny''" "plainIdentity i" "plainAppName app"
  shows "parseAuthLine (v @ '' app '' @ i @ '' '' @ app) = Some \<lparr>ar_verdict = v, ar_scope = ''app'', ar_fp = i, ar_app = app\<rparr>"
proof -
  let ?line = "v @ '' app '' @ i @ '' '' @ app"
  have i: "wordy i" "i \<noteq> []" using assms(2) by (auto simp: plainIdentity_def wordy_def)
  note V = verdict_word[OF assms(1)]
  have am: "ascii ('' app '' @ i @ '' '')" using i by (simp add: wordy_def ascii_def)
  have t: "trimSpace ?line = ?line" using trimSpace_trimmed[OF trimmed_line[OF _ _ am, of v app]] V assms(3) by (simp add: plainAppName_def)
  have w: "wordy ''app''" by (simp add: wordy_def ascii_def isSpace_def in_range_def)
  have f: "fieldsOf ?line = v # ''app'' # i # fieldsOf app"
    using fields_word[of v "''app '' @ i @ '' '' @ app"] fields_word[OF w, of "i @ '' '' @ app"] fields_word[OF i(1), of app] V by simp
  have "indexOf i ?line = List.length v + 5"
    using indexOf_skip[OF assms(2), of v "''app '' @ i @ '' '' @ app"] indexOf_skip[OF assms(2), of "''app''" "i @ '' '' @ app"] indexOf_here[OF i(2), of "'' '' @ app"] V by simp
  then have "drop (indexOf i ?line + List.length i) ?line = '' '' @ app"
    using drop_append[of "List.length v + (5 + List.length i)" v] by (simp add: ac_simps eval_nat_numeral)
  then have a: "trimSpace (drop (indexOf i ?line + List.length i) ?line) = app"
    using trimSpace_space[of app] trimSpace_trimmed[of app] assms(3) by (simp add: plainAppName_def)
  have n: "?line \<noteq> []" "\<not> prefix ''#'' ?line" using V[of "'' app '' @ i @ '' '' @ app"] by auto
  show ?thesis unfolding parseAuthLine_def t Let_def f using assms(1) a n by auto
qed

lemma parse_client_line:
  assumes "v = ''allow'' \<or> v = ''deny''" "plainIdentity i"
  shows "parseAuthLine (v @ '' client '' @ i) = Some \<lparr>ar_verdict = v, ar_scope = ''client'', ar_fp = i, ar_app = []\<rparr>"
proof -
  let ?line = "v @ '' client '' @ i"
  have i: "wordy i" using assms(2) by (simp add: plainIdentity_def)
  note V = verdict_word[OF assms(1)]
  have am: "ascii '' client ''" by (simp add: ascii_def)
  have t: "trimSpace ?line = ?line" using trimSpace_trimmed[OF trimmed_line[OF _ trimmed_word[OF i] am, of v]] V by simp
  have w: "wordy ''client''" by (simp add: wordy_def ascii_def isSpace_def in_range_def)
  have f: "fieldsOf ?line = [v, ''client'', i]"
    using fields_word[of v "''client '' @ i"] fields_word[OF w, of i] fields_last[OF i] V by simp
  have n: "?line \<noteq> []" "\<not> prefix ''#'' ?line" using V[of "'' client '' @ i"] by auto
  show ?thesis unfolding parseAuthLine_def t Let_def f using assms(1) n by auto
qed

subsection \<open>What the rules say\<close>

text \<open>Whether a rule of a kind is among the rules, whatever their order: this is all a decision looks at.\<close>

definition saidIn :: "authRule list \<Rightarrow> string \<Rightarrow> string \<Rightarrow> string \<Rightarrow> string \<Rightarrow> bool" where
  "saidIn rs i scope app v \<longleftrightarrow> list_ex (\<lambda>r. ar_fp r = i \<and> ar_scope r = scope \<and> ar_verdict r = v \<and> (scope = ''app'' \<longrightarrow> ar_app r = app)) rs"

definition decided :: "authRule list \<Rightarrow> string \<Rightarrow> string \<Rightarrow> bool option" where
  "decided rs i app =
     (if saidIn rs i ''client'' [] ''deny'' \<or> saidIn rs i ''app'' app ''deny'' then Some False
      else if saidIn rs i ''client'' [] ''allow'' \<or> saidIn rs i ''app'' app ''allow'' then Some True else None)"

lemma saidIn_simps [simp]:
  "\<not> saidIn [] i scope app v"
  "saidIn (r # rs) i scope app v \<longleftrightarrow> (ar_fp r = i \<and> ar_scope r = scope \<and> ar_verdict r = v \<and> (scope = ''app'' \<longrightarrow> ar_app r = app)) \<or> saidIn rs i scope app v"
  "saidIn (rs @ rs') i scope app v \<longleftrightarrow> saidIn rs i scope app v \<or> saidIn rs' i scope app v"
  by (simp_all add: saidIn_def)

lemma see_all: "fold (seeRule i app) rs (a, b, c, d) =
    (a \<or> saidIn rs i ''client'' [] ''deny'', b \<or> saidIn rs i ''client'' [] ''allow'', c \<or> saidIn rs i ''app'' app ''deny'', d \<or> saidIn rs i ''app'' app ''allow'')"
  by (induction rs arbitrary: a b c d) (auto simp: seeRule_def)

lemma decide_said: "identity req \<noteq> [] \<Longrightarrow> decide f req = decided (rulesOf f) (identity req) (rq_AppName req)"
  by (simp add: decide_def decided_def see_all)

lemma all_apps_fold: "fold (\<lambda>r (allowClient, denyClient).
             if ar_fp r \<noteq> i \<or> ar_scope r \<noteq> ''client'' then (allowClient, denyClient)
             else if ar_verdict r = ''allow'' then (True, denyClient)
             else if ar_verdict r = ''deny'' then (allowClient, True) else (allowClient, denyClient)) rs (a, b) =
    (a \<or> saidIn rs i ''client'' [] ''allow'', b \<or> saidIn rs i ''client'' [] ''deny'')"
  by (induction rs arbitrary: a b) auto

lemma all_apps_said: "identity req \<noteq> [] \<Longrightarrow> allowsAllApps f req \<longleftrightarrow>
    saidIn (rulesOf f) (identity req) ''client'' [] ''allow'' \<and> \<not> saidIn (rulesOf f) (identity req) ''client'' [] ''deny''"
  unfolding allowsAllApps_def all_apps_fold by simp

subsection \<open>What is recorded\<close>

lemma plain_identity_line: "plainIdentity i \<Longrightarrow> i \<noteq> [] \<and> NL \<notin> set i \<and> CHR 0x0D \<notin> set i"
  by (auto simp: plainIdentity_def wordy_def list_all_iff isSpace_def NL_def)

definition ruleLine :: "string \<Rightarrow> string \<Rightarrow> string \<Rightarrow> string" where
  "ruleLine v i app = (if app = [] then v @ '' client '' @ i else v @ '' app '' @ i @ '' '' @ app)"

lemma rule_line:
  assumes "v = ''allow'' \<or> v = ''deny''" "plainIdentity i" "app = [] \<or> plainAppName app" "List.length i + List.length app < 65000"
  shows "parseAuthLine (ruleLine v i app) = Some \<lparr>ar_verdict = v, ar_scope = (if app = [] then ''client'' else ''app''), ar_fp = i, ar_app = app\<rparr>"
    "lineOK (ruleLine v i app)" "ruleLine v i app \<noteq> []"
proof -
  have n: "plainAppName app" if "app \<noteq> []" using assms(3) that by simp
  show "parseAuthLine (ruleLine v i app) = Some \<lparr>ar_verdict = v, ar_scope = (if app = [] then ''client'' else ''app''), ar_fp = i, ar_app = app\<rparr>"
    using parse_client_line[OF assms(1,2)] parse_app_line[OF assms(1,2) n] by (simp add: ruleLine_def)
  show "lineOK (ruleLine v i app)" "ruleLine v i app \<noteq> []"
    using assms plain_identity_line[OF assms(2)] by (auto simp: ruleLine_def lineOK_def plainAppName_def NL_def)
qed

definition ruleOf :: "string \<Rightarrow> string \<Rightarrow> AuthDecision \<Rightarrow> authRule list" where
  "ruleOf i app d = (case d of
     AuthAllowApp \<Rightarrow> [\<lparr>ar_verdict = ''allow'', ar_scope = ''app'', ar_fp = i, ar_app = app\<rparr>]
   | AuthDenyApp \<Rightarrow> [\<lparr>ar_verdict = ''deny'', ar_scope = ''app'', ar_fp = i, ar_app = app\<rparr>]
   | AuthAllowClient \<Rightarrow> [\<lparr>ar_verdict = ''allow'', ar_scope = ''client'', ar_fp = i, ar_app = []\<rparr>]
   | AuthDenyClient \<Rightarrow> [\<lparr>ar_verdict = ''deny'', ar_scope = ''client'', ar_fp = i, ar_app = []\<rparr>]
   | _ \<Rightarrow> [])"

lemma rules_recorded:
  assumes "holds ls f" "plainIdentity (identity req)" "plainAppName (rq_AppName req)" "List.length (identity req) + List.length (rq_AppName req) < 65000"
  shows "rulesOf (recordDecision req d f) = rulesOf f @ ruleOf (identity req) (rq_AppName req) d"
proof -
  let ?i = "identity req" and ?a = "rq_AppName req"
  have ne: "?i \<noteq> []" "?a \<noteq> []" using assms(2,3) by (auto simp: plainIdentity_def wordy_def plainAppName_def trimmed_def)
  have app: "parseAuthLine (ruleLine v ?i ?a) = Some \<lparr>ar_verdict = v, ar_scope = ''app'', ar_fp = ?i, ar_app = ?a\<rparr>" "lineOK (ruleLine v ?i ?a)"
    if "v = ''allow'' \<or> v = ''deny''" for v using rule_line[OF that assms(2), of ?a] assms ne by simp_all
  have cl: "parseAuthLine (ruleLine v ?i []) = Some \<lparr>ar_verdict = v, ar_scope = ''client'', ar_fp = ?i, ar_app = []\<rparr>" "lineOK (ruleLine v ?i [])"
    if "v = ''allow'' \<or> v = ''deny''" for v using rule_line[OF that assms(2), of "[]"] assms ne by simp_all
  have rec: "rulesOf (recordDecision req d f) = rulesOf f @ [r]"
    if "recordLine ?i ?a d = Some l" "lineOK l" "parseAuthLine l = Some r" for l r
    using rules_held[OF holds_record[OF assms(1) ne(1) that(1), of "[l]"]] rules_held[OF assms(1)] that
    by (simp add: List.map_filter_def)
  show ?thesis
  proof (cases "recordLine ?i ?a d")
    case None
    then have "d = AuthDenyOnce \<or> d = AuthAllowOnce" by (cases d) (simp_all add: recordLine_def)
    then show ?thesis using None by (auto simp: recordDecision_def ruleOf_def)
  next
    case (Some l)
    then consider "d = AuthAllowApp" "l = ruleLine ''allow'' ?i ?a" | "d = AuthDenyApp" "l = ruleLine ''deny'' ?i ?a"
      | "d = AuthAllowClient" "l = ruleLine ''allow'' ?i []" | "d = AuthDenyClient" "l = ruleLine ''deny'' ?i []"
      using ne(2) by (cases d) (simp_all add: recordLine_def ruleLine_def)
    then show ?thesis using rec[OF Some] app cl by cases (simp_all add: ruleOf_def)
  qed
qed


definition aPeer :: "string \<Rightarrow> string \<Rightarrow> AuthRequest" where
  "aPeer fp app = \<lparr>rq_AppName = app, rq_Fingerprint = fp, rq_RemoteAddr = [], rq_Local = False\<rparr>"

lemma a_peer_plain: "plainIdentity ''sha256:aa''" "plainAppName ''edit''" "identity (aPeer ''sha256:aa'' app) = ''sha256:aa''" "rq_AppName (aPeer fp app) = app"
  by (simp_all add: plainIdentity_def wordy_def ascii_def isSpace_def in_range_def plainAppName_def trimmed_def aPeer_def identity_def decodeRune_def NL_def)


text \<open>C7. The name an application gives itself is written into the file as it came, and a name can hold a line end: one that goes on
  with an allowing line for its own identity is, however its question is answered for good about that application (never for
  this application as well), let in from then on under every name that is not refused by itself, and may change its name.
\<close>

theorem a_name_can_grant_itself_everything:
  assumes "holds ls f" "plainIdentity i" "plainAppName x" "List.length i + List.length x < 65000"
    and asks: "identity req = i" "rq_AppName req = x @ [NL] @ ''allow client '' @ i"
    and answer: "d = AuthDenyApp \<or> d = AuthAllowApp"
    and later: "identity req' = i" "decide f req' \<noteq> Some False" "rq_AppName req' \<noteq> x"
  shows "decide (recordDecision req d f) req' = Some True"
proof -
  define v where "v = (if d = AuthDenyApp then ''deny'' else ''allow'')"
  have v: "v = ''allow'' \<or> v = ''deny''" by (simp add: v_def)
  have ne: "i \<noteq> []" "x \<noteq> []" using assms(2,3) by (auto simp: plainIdentity_def wordy_def plainAppName_def trimmed_def)
  let ?new = "[ruleLine v i x, ruleLine ''allow'' i []]"
  have L: "recordLine i (rq_AppName req) d = Some (join [NL] ?new)"
    using answer ne by (auto simp: recordLine_def asks ruleLine_def v_def)
  have l1: "parseAuthLine (ruleLine v i x) = Some \<lparr>ar_verdict = v, ar_scope = ''app'', ar_fp = i, ar_app = x\<rparr>" "lineOK (ruleLine v i x)"
    using rule_line[OF v assms(2), of x] assms(3,4) ne by simp_all
  have l2: "parseAuthLine (ruleLine ''allow'' i []) = Some \<lparr>ar_verdict = ''allow'', ar_scope = ''client'', ar_fp = i, ar_app = []\<rparr>" "lineOK (ruleLine ''allow'' i [])"
    using rule_line[of "''allow''" i "[]"] assms(2,4) by simp_all
  have "holds (ls @ ?new) (recordDecision req d f)"
    using holds_record[OF assms(1), of req d "join [NL] ?new" ?new] asks ne L l1 l2 by simp
  then have R: "rulesOf (recordDecision req d f) = rulesOf f @
      [\<lparr>ar_verdict = v, ar_scope = ''app'', ar_fp = i, ar_app = x\<rparr>, \<lparr>ar_verdict = ''allow'', ar_scope = ''client'', ar_fp = i, ar_app = []\<rparr>]"
    using rules_held[OF assms(1)] by (simp add: rules_held l1 l2 List.map_filter_simps List.map_filter_def)
  have "identity req' \<noteq> []" using later ne by simp
  note D = decide_said[OF this]
  show ?thesis using later unfolding D R by (auto simp: decided_def split: if_splits)
qed

theorem a_name_can_grant_itself_everything_witness:
  "decide (recordDecision (aPeer ''sha256:aa'' (''edit'' @ [NL] @ ''allow client sha256:aa'')) AuthDenyApp None) (aPeer ''sha256:aa'' ''shell'') = Some True"
  using a_name_can_grant_itself_everything[where ls = "[]" and f = None and i = "''sha256:aa''" and x = "''edit''"
      and req = "aPeer ''sha256:aa'' (''edit'' @ [NL] @ ''allow client sha256:aa'')" and d = AuthDenyApp and req' = "aPeer ''sha256:aa'' ''shell''"]
    a_peer_plain
  by (simp add: holds_def decide_def rulesOf_def identity_def aPeer_def)

subsection \<open>What is set by hand\<close>

text \<open>The lines that are no rule: comments, and what another hand wrote.\<close>

definition asides :: "authFile \<Rightarrow> string list" where
  "asides f = (case f of None \<Rightarrow> [] | Some text \<Rightarrow> filter (\<lambda>l. parseAuthLine l = None) (scanLines text))"

lemma saidIn_filter: "saidIn (filter P rs) i scope app v \<longleftrightarrow>
    list_ex (\<lambda>r. P r \<and> ar_fp r = i \<and> ar_scope r = scope \<and> ar_verdict r = v \<and> (scope = ''app'' \<longrightarrow> ar_app r = app)) rs"
  by (induction rs) auto

lemma scan_held: "holds ls f \<Longrightarrow> (case f of None \<Rightarrow> [] | Some text \<Rightarrow> scanLines text) = ls"
  using scan_written by (auto simp: holds_def split: option.splits)

lemma asides_held: "holds ls f \<Longrightarrow> asides f = filter (\<lambda>l. parseAuthLine l = None) ls"
  using scan_held[of ls f] by (auto simp: asides_def split: option.splits)

text \<open>A rule about a client has no app: this is how a line is read.\<close>

lemma client_rule_app: "parseAuthLine l = Some r \<Longrightarrow> ar_scope r = ''client'' \<Longrightarrow> ar_app r = []"
  by (auto simp: parseAuthLine_def Let_def split: if_splits list.splits)

lemma rules_client_app: "r \<in> List.set (rulesOf f) \<Longrightarrow> ar_scope r = ''client'' \<Longrightarrow> ar_app r = []"
  by (auto simp: rulesOf_def map_filter_def client_rule_app split: option.splits if_splits)


lemma a_comment: "parseAuthLine ''# mine'' = None" by code_simp

lemma a_comment_file: "holds [''# mine'', ''allow app sha256:aa edit''] (Some (written [''# mine'', ''allow app sha256:aa edit'']))"
  by (simp add: holds_def lineOK_def NL_def)


subsection \<open>What the window shows\<close>

text \<open>A list without its repetitions, in the order of first appearance.\<close>

definition firsts :: "'a list \<Rightarrow> 'a list" where "firsts xs = rev (remdups (rev xs))"

lemma firsts_simps [simp]:
  "firsts [] = []" "firsts (xs @ [x]) = (if x \<in> List.set xs then firsts xs else firsts xs @ [x])"
  "List.set (firsts xs) = List.set xs" "distinct (firsts xs)"
  by (simp_all add: firsts_def)

text \<open>The entry an identity ought to have, and all of them.\<close>

definition namesFor :: "authRule list \<Rightarrow> string \<Rightarrow> string list" where
  "namesFor rs i = firsts (map ar_app (filter (\<lambda>r. ar_fp r = i \<and> ar_scope r = ''app'' \<and> ar_app r \<noteq> []) rs))"

definition appFor :: "authRule list \<Rightarrow> string \<Rightarrow> string \<Rightarrow> authEntryApp" where
  "appFor rs i a = \<lparr>ea_name = a, ea_allow = saidIn rs i ''app'' a ''allow'', ea_deny = saidIn rs i ''app'' a ''deny''\<rparr>"

definition entryFor :: "authRule list \<Rightarrow> string \<Rightarrow> authEntry" where
  "entryFor rs i = \<lparr>en_identity = i, en_allow = saidIn rs i ''client'' [] ''allow'', en_deny = saidIn rs i ''client'' [] ''deny'',
     en_apps = map (appFor rs i) (namesFor rs i)\<rparr>"

definition clientsIn :: "authRule list \<Rightarrow> string list" where "clientsIn rs = firsts (map ar_fp rs)"

text \<open>A map that gives the place of each member of a list.\<close>

definition indexes :: "('a \<Rightarrow> nat option) \<Rightarrow> 'a list \<Rightarrow> bool" where
  "indexes m xs \<longleftrightarrow> (\<forall>x k. m x = Some k \<longleftrightarrow> k < List.length xs \<and> xs ! k = x)"

lemma indexes_None: assumes "indexes m xs" shows "m x = None \<longleftrightarrow> x \<notin> List.set xs"
proof
  from assms have I: "m x = Some k \<longleftrightarrow> k < List.length xs \<and> xs ! k = x" for k by (simp add: indexes_def)
  show "m x = None \<Longrightarrow> x \<notin> List.set xs" using I by (auto simp: in_set_conv_nth)
  show "x \<notin> List.set xs \<Longrightarrow> m x = None" using I by (cases "m x") (auto simp: in_set_conv_nth)
qed

lemma indexes_place:
  assumes "indexes m xs" "x \<in> List.set xs"
  obtains k where "m x = Some k" "k < List.length xs" "xs ! k = x"
proof -
  obtain k where "k < List.length xs" "xs ! k = x" using assms(2) by (auto simp: in_set_conv_nth)
  moreover from this have "m x = Some k" using assms(1) by (simp add: indexes_def)
  ultimately show ?thesis using that by blast
qed

lemma indexes_new: "indexes m xs \<Longrightarrow> x \<notin> List.set xs \<Longrightarrow> indexes (m(x \<mapsto> List.length xs)) (xs @ [x])"
  by (auto simp: indexes_def nth_append less_Suc_eq split: if_splits)

lemma update_map: "distinct xs \<Longrightarrow> k < List.length xs \<Longrightarrow> (map g xs)[k := v] = map (g(xs ! k := v)) xs"
  by (rule nth_equalityI) (auto simp: nth_list_update nth_eq_iff_index_eq)

lemma zero_split: "CHR 0x00 \<notin> List.set i \<Longrightarrow> CHR 0x00 \<notin> List.set i' \<Longrightarrow> i @ CHR 0x00 # a = i' @ CHR 0x00 # a' \<longleftrightarrow> i = i' \<and> a = a'"
proof (induction i arbitrary: i')
  case Nil then show ?case by (cases i') auto
next
  case (Cons c i) then show ?case by (cases i') auto
qed

definition noted :: "authRule list \<Rightarrow> entering \<Rightarrow> bool" where
  "noted rs st \<longleftrightarrow> (case st of (out, at, appAt) \<Rightarrow>
     out = map (entryFor rs) (clientsIn rs) \<and> indexes at (clientsIn rs) \<and>
     (\<forall>i. CHR 0x00 \<notin> List.set i \<longrightarrow> indexes (\<lambda>a. appAt (i @ CHR 0x00 # a)) (namesFor rs i)))"

text \<open>A rule as a line gives it, and an identity with no zero byte in it.\<close>

definition plainRule :: "authRule \<Rightarrow> bool" where
  "plainRule r \<longleftrightarrow> (ar_verdict r = ''allow'' \<or> ar_verdict r = ''deny'') \<and> (ar_scope r = ''client'' \<or> ar_scope r = ''app'') \<and> CHR 0x00 \<notin> List.set (ar_fp r)"

lemma other_entry: "i \<noteq> ar_fp r \<Longrightarrow> entryFor (rs @ [r]) i = entryFor rs i \<and> namesFor (rs @ [r]) i = namesFor rs i"
  by (auto simp: entryFor_def namesFor_def appFor_def)

lemma said_absent: "ar_fp ` List.set rs \<inter> {i} = {} \<Longrightarrow> \<not> saidIn rs i scope app v"
  by (auto simp: saidIn_def list_ex_iff)

lemma new_entry: "i \<notin> ar_fp ` List.set rs \<Longrightarrow> entryFor rs i = \<lparr>en_identity = i, en_allow = False, en_deny = False, en_apps = []\<rparr>"
proof -
  assume i: "i \<notin> ar_fp ` List.set rs"
  then have "filter (\<lambda>r. ar_fp r = i \<and> ar_scope r = ''app'' \<and> ar_app r \<noteq> []) rs = []" by (auto simp: filter_empty_conv)
  then show ?thesis using i said_absent[of rs i] by (simp add: entryFor_def namesFor_def)
qed

lemma new_app: "a \<notin> List.set (namesFor rs i) \<Longrightarrow> a \<noteq> [] \<Longrightarrow> appFor rs i a = \<lparr>ea_name = a, ea_allow = False, ea_deny = False\<rparr>"
  by (auto simp: appFor_def namesFor_def saidIn_def list_ex_iff)

lemma names_new: "namesFor (rs @ [r]) (ar_fp r) =
    (if ar_scope r = ''app'' \<and> ar_app r \<noteq> [] \<and> ar_app r \<notin> List.set (namesFor rs (ar_fp r)) then namesFor rs (ar_fp r) @ [ar_app r] else namesFor rs (ar_fp r))"
  by (auto simp: namesFor_def)

lemma place_entry:
  assumes "noted rs (out, at, appAt)"
  obtains at' where "placeEntry (ar_fp r) (out, at, appAt) = (map (entryFor rs) (clientsIn (rs @ [r])), at', appAt)" "indexes at' (clientsIn (rs @ [r]))"
proof -
  have I: "out = map (entryFor rs) (clientsIn rs)" "indexes at (clientsIn rs)" using assms by (simp_all add: noted_def)
  show ?thesis
  proof (cases "at (ar_fp r)")
    case None
    then have new: "ar_fp r \<notin> List.set (clientsIn rs)" using indexes_None[OF I(2)] by blast
    then have "ar_fp r \<notin> ar_fp ` List.set rs" by (simp add: clientsIn_def)
    then have "placeEntry (ar_fp r) (out, at, appAt) = (map (entryFor rs) (clientsIn (rs @ [r])), at(ar_fp r \<mapsto> List.length (clientsIn rs)), appAt)"
      using None I(1) new_entry[of "ar_fp r" rs] by (simp add: placeEntry_def clientsIn_def)
    moreover have "indexes (at(ar_fp r \<mapsto> List.length (clientsIn rs))) (clientsIn (rs @ [r]))"
      using indexes_new[OF I(2) new] new by (simp add: clientsIn_def)
    ultimately show ?thesis using that by blast
  next
    case (Some k)
    then have "ar_fp r \<in> List.set (clientsIn rs)" using indexes_None[OF I(2)] by (metis option.simps(3))
    then have "clientsIn (rs @ [r]) = clientsIn rs" by (simp add: clientsIn_def)
    then show ?thesis using that[of at] Some I by (simp add: placeEntry_def)
  qed
qed

lemma place_app:
  assumes "indexes (\<lambda>a. appAt (i @ CHR 0x00 # a)) (namesFor rs i)" "a \<noteq> []" "k < List.length out" "out ! k = entryFor rs i"
  obtains m where "placeApp k (i @ CHR 0x00 # a) a (out, at, appAt) =
      (out[k := (entryFor rs i)\<lparr>en_apps := map (appFor rs i) (if a \<in> List.set (namesFor rs i) then namesFor rs i else namesFor rs i @ [a])\<rparr>], at, m)"
    "m = appAt \<or> (\<exists>n. m = appAt(i @ CHR 0x00 # a \<mapsto> n))"
    "indexes (\<lambda>a. m (i @ CHR 0x00 # a)) (if a \<in> List.set (namesFor rs i) then namesFor rs i else namesFor rs i @ [a])"
proof (cases "appAt (i @ CHR 0x00 # a)")
  case None
  then have new: "a \<notin> List.set (namesFor rs i)" using indexes_None[OF assms(1), of a] by simp
  have e: "indexes (\<lambda>a'. (appAt(i @ CHR 0x00 # a \<mapsto> List.length (namesFor rs i))) (i @ CHR 0x00 # a')) (namesFor rs i @ [a])"
    using indexes_new[OF assms(1) new] by (simp add: fun_upd_def)
  show ?thesis
    using that[of "appAt(i @ CHR 0x00 # a \<mapsto> List.length (namesFor rs i))"] None assms(4) new new_app[OF new assms(2)] e
    by (auto simp: placeApp_def entryFor_def simp del: fun_upd_apply)
next
  case (Some j)
  then have old: "a \<in> List.set (namesFor rs i)" using indexes_None[OF assms(1), of a] by (metis option.simps(3))
  have "out[k := entryFor rs i] = out" using assms(4) by (metis list_update_id)
  then show ?thesis using that[of appAt] Some old assms by (simp add: placeApp_def entryFor_def)
qed

lemma enter_rule:
  assumes "noted rs st" "plainRule r"
  shows "noted (rs @ [r]) (enterRule r st)"
proof -
  let ?i = "ar_fp r" and ?a = "ar_app r" and ?E = "entryFor rs" and ?ids = "clientsIn (rs @ [r])"
  obtain out at appAt where st: "st = (out, at, appAt)" by (cases st)
  obtain at' where P: "placeEntry ?i st = (map ?E ?ids, at', appAt)" "indexes at' ?ids"
    using place_entry[of rs out at appAt r] assms(1) st by blast
  have "?i \<in> List.set ?ids" by (simp add: clientsIn_def)
  from indexes_place[OF P(2) this] obtain k where k: "at' ?i = Some k" "k < List.length ?ids" "?ids ! k = ?i" .
  have dist: "distinct ?ids" by (simp add: clientsIn_def)
  have old: "map ?E ?ids ! k = ?E ?i" using k by simp
  have upd: "(map ?E ?ids)[k := v] = map (entryFor (rs @ [r])) ?ids" if "v = entryFor (rs @ [r]) ?i" for v
  proof -
    have "(map ?E ?ids)[k := v] = map (?E(?i := v)) ?ids" using update_map[OF dist k(2), of ?E v] k(3) by simp
    moreover have "(?E(?i := v)) i = entryFor (rs @ [r]) i" for i using that other_entry[of i r rs] by (cases "i = ?i") simp_all
    ultimately show ?thesis by simp
  qed
  have zero: "CHR 0x00 \<notin> List.set ?i" using assms(2) by (simp add: plainRule_def)
  have apps: "indexes (\<lambda>a. appAt (i @ CHR 0x00 # a)) (namesFor rs i)" if "CHR 0x00 \<notin> List.set i" for i
    using assms(1) st that by (simp add: noted_def)
  have same: "noted (rs @ [r]) (map (entryFor (rs @ [r])) ?ids, at', appAt)" if "namesFor (rs @ [r]) ?i = namesFor rs ?i"
  proof -
    have "indexes (\<lambda>a. appAt (i @ CHR 0x00 # a)) (namesFor (rs @ [r]) i)" if "CHR 0x00 \<notin> List.set i" for i
      using apps[OF that] other_entry[of i r rs] \<open>namesFor (rs @ [r]) ?i = namesFor rs ?i\<close> by (cases "i = ?i") auto
    then show ?thesis using P(2) by (simp add: noted_def)
  qed
  consider (client) "ar_scope r = ''client''" | (app) "ar_scope r = ''app''" "?a \<noteq> []" | (blank) "ar_scope r = ''app''" "?a = []"
    using assms(2) by (auto simp: plainRule_def)
  then show ?thesis
  proof cases
    case client
    then have n: "namesFor (rs @ [r]) ?i = namesFor rs ?i" by (simp add: names_new)
    have "enterRule r st = (map (entryFor (rs @ [r])) ?ids, at', appAt)"
    proof (cases "ar_verdict r = ''allow''")
      case True
      have "(?E ?i)\<lparr>en_allow := True\<rparr> = entryFor (rs @ [r]) ?i" using client True n by (auto simp: entryFor_def appFor_def)
      then show ?thesis using client True P(1) k(1) old upd by (simp add: enterRule_def)
    next
      case False
      then have v: "ar_verdict r = ''deny''" using assms(2) by (simp add: plainRule_def)
      have "(?E ?i)\<lparr>en_deny := True\<rparr> = entryFor (rs @ [r]) ?i" using client v n by (auto simp: entryFor_def appFor_def)
      then show ?thesis using client v P(1) k(1) old upd by (simp add: enterRule_def)
    qed
    then show ?thesis using same[OF n] by simp
  next
    case blank
    then have n: "namesFor (rs @ [r]) ?i = namesFor rs ?i" by (simp add: names_new)
    have "[] \<notin> List.set (namesFor rs ?i)" by (auto simp: namesFor_def)
    then have "?E ?i = entryFor (rs @ [r]) ?i" using blank n by (auto simp: entryFor_def appFor_def)
    then have "map ?E ?ids = map (entryFor (rs @ [r])) ?ids" using upd[of "?E ?i"] old by (metis list_update_id)
    then have "enterRule r st = (map (entryFor (rs @ [r])) ?ids, at', appAt)" using blank P(1) by (simp add: enterRule_def del: map_eq_conv)
    then show ?thesis using same[OF n] by simp
  next
    case app
    define names where "names = (if ?a \<in> List.set (namesFor rs ?i) then namesFor rs ?i else namesFor rs ?i @ [?a])"
    have long: "k < List.length (map ?E ?ids)" using k(2) by simp
    from place_app[OF apps[OF zero] app(2) long old, folded names_def] obtain m
      where M: "placeApp k (?i @ CHR 0x00 # ?a) ?a (map ?E ?ids, at', appAt) = ((map ?E ?ids)[k := (?E ?i)\<lparr>en_apps := map (appFor rs ?i) names\<rparr>], at', m)"
        "m = appAt \<or> (\<exists>n. m = appAt(?i @ CHR 0x00 # ?a \<mapsto> n))" "indexes (\<lambda>a. m (?i @ CHR 0x00 # a)) names" by blast
    have n: "namesFor (rs @ [r]) ?i = names" using app by (simp add: names_new names_def)
    have "?a \<in> List.set names" by (simp add: names_def)
    from indexes_place[OF M(3) this] obtain j where j: "m (?i @ CHR 0x00 # ?a) = Some j" "j < List.length names" "names ! j = ?a" .
    have dn: "distinct names" by (simp add: names_def namesFor_def)
    define w where "w = (if ar_verdict r = ''deny'' then (appFor rs ?i ?a)\<lparr>ea_deny := True\<rparr> else (appFor rs ?i ?a)\<lparr>ea_allow := True\<rparr>)"
    have w: "w = appFor (rs @ [r]) ?i ?a" using app assms(2) by (auto simp: w_def appFor_def plainRule_def)
    have "(map (appFor rs ?i) names)[j := w] = map ((appFor rs ?i)(?a := w)) names" using update_map[OF dn j(2), of "appFor rs ?i" w] j(3) by simp
    also have "\<dots> = map (appFor (rs @ [r]) ?i) names" by (rule map_cong) (auto simp: w appFor_def)
    finally have A: "(map (appFor rs ?i) names)[j := w] = map (appFor (rs @ [r]) ?i) (namesFor (rs @ [r]) ?i)" using n by simp
    have V: "(?E ?i)\<lparr>en_apps := map (appFor rs ?i) names\<rparr>\<lparr>en_apps := (map (appFor rs ?i) names)[j := w]\<rparr> = entryFor (rs @ [r]) ?i"
      unfolding A using app by (auto simp: entryFor_def)
    have K: "k < List.length ?ids" "map ?E ?ids ! k = ?E ?i" using k(2) old by simp_all
    have U: "(map ?E ?ids)[k := (?E ?i)\<lparr>en_apps := (map (appFor rs ?i) names)[j := w]\<rparr>] = map (entryFor (rs @ [r])) ?ids" using upd[OF V] by simp
    have S: "enterRule r st = (map (entryFor (rs @ [r])) ?ids, at', m)"
      using app P(1) k(1) K M(1) j U by (cases "ar_verdict r = ''deny''") (simp_all add: enterRule_def Let_def w_def)
    have "indexes (\<lambda>a. m (i @ CHR 0x00 # a)) (namesFor (rs @ [r]) i)" if i: "CHR 0x00 \<notin> List.set i" for i
    proof (cases "i = ?i")
      case True then show ?thesis using M(3) n by simp
    next
      case False
      then have "(\<lambda>a. m (i @ CHR 0x00 # a)) = (\<lambda>a. appAt (i @ CHR 0x00 # a))" using M(2) zero_split[OF i zero] by (auto simp: fun_upd_def)
      then show ?thesis using apps[OF i] False other_entry[of i r rs] by simp
    qed
    then show ?thesis using P(2) S by (simp add: noted_def)
  qed
qed

lemma entries_gathered: "list_all plainRule (rulesOf f) \<Longrightarrow> entries f = map (entryFor (rulesOf f)) (clientsIn (rulesOf f))"
proof -
  have "list_all plainRule rs \<Longrightarrow> noted rs (fold enterRule rs ([], \<lambda>i. None, \<lambda>k. None))" for rs
    by (induction rs rule: rev_induct) (auto simp: noted_def[of "[]"] clientsIn_def namesFor_def indexes_def intro: enter_rule)
  moreover assume "list_all plainRule (rulesOf f)"
  ultimately have "noted (rulesOf f) (fold enterRule (rulesOf f) ([], \<lambda>i. None, \<lambda>k. None))" by blast
  then show ?thesis by (cases "fold enterRule (rulesOf f) ([], \<lambda>i. None, \<lambda>k. None)") (auto simp: entries_def noted_def)
qed

lemma find_map_key: "(\<And>x. key (g x) = x) \<Longrightarrow> List.find (\<lambda>e. key e = i) (map g xs) = (if i \<in> List.set xs then Some (g i) else None)"
  by (induction xs) auto

text \<open>C8. The window of connections shows each client once, in the order the file first names them, and what it shows is what the
  gate decides: an app is let in or refused exactly as its client's entry and its own entry there say, denial before allowance,
  and asked about when they say nothing. No identity in the file has a zero byte in it, and the app has a name.
\<close>

theorem the_window_shows_what_is_decided:
  assumes "\<forall>r \<in> List.set (rulesOf f). CHR 0x00 \<notin> List.set (ar_fp r)" "identity req \<noteq> []" "rq_AppName req \<noteq> []"
  shows "distinct (map en_identity (entries f)) \<and>
    decide f req = (case List.find (\<lambda>e. en_identity e = identity req) (entries f) of
        None \<Rightarrow> None
      | Some e \<Rightarrow> if en_deny e \<or> ea_deny (entryApp e (rq_AppName req)) then Some False
                  else if en_allow e \<or> appAllowed (entryApp e (rq_AppName req)) then Some True else None)"
proof -
  let ?R = "rulesOf f" and ?i = "identity req" and ?a = "rq_AppName req"
  have form: "(ar_verdict r = ''allow'' \<or> ar_verdict r = ''deny'') \<and> (ar_scope r = ''client'' \<or> ar_scope r = ''app'')" if "parseAuthLine l = Some r" for l r
    using that by (auto simp: parseAuthLine_def Let_def split: if_splits list.splits)
  then have "list_all plainRule ?R" using assms(1)
    by (fastforce simp: list_all_iff plainRule_def rulesOf_def map_filter_def split: option.splits)
  note E = entries_gathered[OF this]
  have ids: "map en_identity (entries f) = clientsIn ?R" unfolding E by (rule nth_equalityI) (simp_all add: entryFor_def)
  have F: "List.find (\<lambda>e. en_identity e = ?i) (entries f) = (if ?i \<in> ar_fp ` List.set ?R then Some (entryFor ?R ?i) else None)"
    unfolding E using find_map_key[of en_identity "entryFor ?R" ?i "clientsIn ?R"] by (simp add: entryFor_def clientsIn_def)
  have A: "entryApp (entryFor ?R ?i) ?a = appFor ?R ?i ?a"
  proof (cases "?a \<in> List.set (namesFor ?R ?i)")
    case True then show ?thesis using find_map_key[of ea_name "appFor ?R ?i" ?a "namesFor ?R ?i"] by (simp add: entryApp_def entryFor_def appFor_def)
  next
    case False
    then show ?thesis using find_map_key[of ea_name "appFor ?R ?i" ?a "namesFor ?R ?i"] new_app[OF False assms(3)]
      by (simp add: entryApp_def entryFor_def appFor_def)
  qed
  have none: "decided ?R ?i ?a = None" if "?i \<notin> ar_fp ` List.set ?R" using that said_absent[of ?R ?i] by (simp add: decided_def)
  have shown: "decided ?R ?i ?a = (let e = entryFor ?R ?i; p = appFor ?R ?i ?a in
      if en_deny e \<or> ea_deny p then Some False else if en_allow e \<or> appAllowed p then Some True else None)"
    by (simp add: decided_def entryFor_def appFor_def appAllowed_def)
  have d: "distinct (map en_identity (entries f))" unfolding ids by (simp add: clientsIn_def)
  show ?thesis
  proof (cases "?i \<in> ar_fp ` List.set ?R")
    case True then show ?thesis using d F A shown decide_said[OF assms(2), of f] by (simp add: Let_def)
  next
    case False then show ?thesis using d F none decide_said[OF assms(2), of f] by simp
  qed
qed

theorem the_window_shows_what_is_decided_witness:
  "distinct (map en_identity (entries (Some (written [''allow app sha256:aa edit'']))))"
  using the_window_shows_what_is_decided[of "Some (written [''allow app sha256:aa edit''])" "aPeer ''sha256:aa'' ''edit''"]
    rules_held[of "[''allow app sha256:aa edit'']" "Some (written [''allow app sha256:aa edit''])"] parse_app_line[OF _ a_peer_plain(1,2), of "''allow''"] a_peer_plain
  by (simp add: holds_def lineOK_def NL_def List.map_filter_simps)

end
