(* ===== verification/KeyText.thy ===== *)
theory KeyText
  imports GoLines
begin

unbundle bit_operations_syntax

text \<open>
  How keys are written (\<open>core/keynames.go\<close>, \<open>core/keyhints.go\<close>) and keymaps with them (\<open>core/keymap_config.go\<close>): modifiers
  before a name, hints in parentheses that say where a line belongs, and the lines themselves.
\<close>

subsection \<open>Names of keys (\<open>core/keynames.go\<close>)\<close>

text \<open>\<open>KeyModifiers\<close>, one bit each.\<close>

type_synonym KeyModifiers = "64 word"

definition ShiftModifier :: KeyModifiers where "ShiftModifier = 2"
definition ControlModifier :: KeyModifiers where "ControlModifier = 4"
definition MegaModifier :: KeyModifiers where "MegaModifier = 8"
definition SuperModifier :: KeyModifiers where "SuperModifier = 16"
definition MicroModifier :: KeyModifiers where "MicroModifier = 32"
definition HyperModifier :: KeyModifiers where "HyperModifier = 64"
definition GlyphModifier :: KeyModifiers where "GlyphModifier = 128"

definition keyModifierPrefixes :: "(string \<times> KeyModifiers) list" where
  "keyModifierPrefixes = [(''C-'', ControlModifier), (''G-'', GlyphModifier), (''M-'', MegaModifier), (''m-'', MicroModifier),
     (''S-'', ShiftModifier), (''s-'', SuperModifier), (''H-'', HyperModifier)]"

definition modifierOf :: "string \<Rightarrow> (string \<times> KeyModifiers) option" where
  "modifierOf name = List.find (\<lambda>p. List.length (fst p) < List.length name \<and> prefix (fst p) name) keyModifierPrefixes"

lemma modifierOf_long: "modifierOf name = Some p \<Longrightarrow> List.length (fst p) = 2 \<and> 2 < List.length name"
  by (auto simp: modifierOf_def keyModifierPrefixes_def split: if_splits)

text \<open>\<open>parseKeyName\<close>: the modifiers, whether Control was a caret, and the name that is left.\<close>

function peelKey :: "KeyModifiers \<Rightarrow> bool \<Rightarrow> string \<Rightarrow> KeyModifiers \<times> bool \<times> string" where
  "peelKey mods caret name =
     (case modifierOf name of
        Some (p, m) \<Rightarrow> peelKey (mods OR m) caret (drop (List.length p) name)
      | None \<Rightarrow>
          (if List.length name > 1 \<and> hd name = CHR ''^'' then peelKey (mods OR ControlModifier) True (tl name)
           else (mods, caret, name)))"
  by pat_completeness auto
termination
  by (relation "measure (\<lambda>(_, _, name). List.length name)") (auto dest: modifierOf_long)

declare peelKey.simps [simp del]

definition parseKeyName :: "string \<Rightarrow> KeyModifiers \<times> bool \<times> string" where "parseKeyName key = peelKey 0 False key"

definition ParseKeyModifiers :: "string \<Rightarrow> KeyModifiers \<times> string" where
  "ParseKeyModifiers key = (case parseKeyName key of (mods, caret, name) \<Rightarrow> (mods, name))"

text \<open>\<open>strings.EqualFold\<close> of two texts of one byte: letters by their lower case, and bytes that are no text alike.\<close>

definition foldByte :: "char \<Rightarrow> nat" where
  "foldByte c = (let b = of_char c in if in_range 0x41 0x5A b then b + 32 else if b < 0x80 then b else 0x80)"

definition SameKey :: "string \<Rightarrow> string \<Rightarrow> bool" where
  "SameKey a b \<longleftrightarrow>
     (if a = b then a \<noteq> []
      else if a = [] \<or> b = [] then False
      else
        (case (parseKeyName a, parseKeyName b) of
           ((aMods, aCaret, aName), (bMods, bCaret, bName)) \<Rightarrow>
             if aMods \<noteq> bMods then False
             else if aName = bName then True
             else aMods AND ControlModifier \<noteq> 0 \<and> List.length aName = 1 \<and> List.length bName = 1 \<and> foldByte (hd aName) = foldByte (hd bName)))"

subsection \<open>Hints (\<open>core/keyhints.go\<close>)\<close>

text \<open>\<open>strings.ToLower\<close> of a word that is looked up among ASCII ones: the letters, and the two others whose lower case is one.\<close>

definition lowerRune :: "rune \<Rightarrow> rune" where
  "lowerRune r = (if in_range 0x41 0x5A r then r + 32 else if r = 0x212A then 0x6B else if r = 0x130 then 0x69 else r)"

definition toLower :: "string \<Rightarrow> string" where "toLower s = utf8 (map lowerRune (runes s))"

record KeymapEnvironment =
  env_OS :: string
  env_Graphical :: bool
  env_Desktop :: string

text \<open>What was detected when the process started stands in for what a host leaves out.\<close>

definition SetKeymapEnvironment :: "string \<Rightarrow> string \<Rightarrow> KeymapEnvironment \<Rightarrow> KeymapEnvironment" where
  "SetKeymapEnvironment os desktop env =
     (let env = (if env_OS env = [] then env\<lparr>env_OS := os\<rparr> else env)
      in if env_Desktop env = [] then env\<lparr>env_Desktop := desktop\<rparr> else env)"

definition unixLike :: "string list" where
  "unixLike = [''aix'', ''android'', ''darwin'', ''dragonfly'', ''freebsd'', ''illumos'', ''ios'', ''linux'', ''netbsd'', ''openbsd'', ''solaris'']"

definition desktopAliases :: "(string \<times> string) list" where
  "desktopAliases = [(''plasma'', ''kde''), (''kde-plasma'', ''kde''), (''x-cinnamon'', ''cinnamon''), (''gnome-flashback'', ''gnome''),
     (''gnome-classic'', ''gnome''), (''pop'', ''cosmic''), (''elementary'', ''pantheon'')]"

definition desktopNames :: "string list" where
  "desktopNames = [''kde'', ''gnome'', ''xfce'', ''cinnamon'', ''mate'', ''lxqt'', ''budgie'', ''pantheon'', ''deepin'', ''sway'', ''hyprland'',
     ''cosmic'', ''i3'', ''unity'', ''enlightenment'']"

definition desktopIs :: "KeymapEnvironment \<Rightarrow> string \<Rightarrow> bool" where
  "desktopIs e want = list_ex (\<lambda>t. let tok = trimSpace t in (case map_of desktopAliases tok of Some alias \<Rightarrow> alias | None \<Rightarrow> tok) = want)
     (splitOn CHR '':'' (env_Desktop e))"

definition hintTest :: "string \<Rightarrow> KeymapEnvironment \<Rightarrow> bool option" where
  "hintTest name e =
     (if name = ''mac'' then Some (env_OS e = ''darwin'')
      else if name = ''wnt'' then Some (env_OS e = ''windows'')
      else if name = ''linux'' then Some (env_OS e = ''linux'')
      else if name = ''unix'' then Some (env_OS e \<in> set unixLike)
      else if name = ''gfx'' then Some (env_Graphical e)
      else if name = ''con'' then Some (\<not> env_Graphical e)
      else if name \<in> set desktopNames then Some (desktopIs e name)
      else None)"

text \<open>The name in a hint, whether it requires, and whether it is negated.\<close>

definition hintForm :: "string \<Rightarrow> string \<times> bool \<times> bool" where
  "hintForm word =
     (if prefix ''only_'' word then (drop 5 word, True, False)
      else if prefix ''never_'' word then (drop 6 word, True, True)
      else if prefix ''non_'' word then (drop 4 word, False, True)
      else (word, False, False))"

text \<open>\<open>None\<close> where the word is no hint, and else its weight and whether the line is kept.\<close>

definition evalHint :: "string \<Rightarrow> KeymapEnvironment \<Rightarrow> (int \<times> bool) option" where
  "evalHint word0 env =
     (case hintForm (toLower (trimSpace word0)) of
        (name, requiring, negated) \<Rightarrow>
          (case hintTest name env of
             None \<Rightarrow> None
           | Some test \<Rightarrow>
               Some (if test \<noteq> negated then (1, True) else if requiring then (0, False) else (- 1, True))))"

lemma dropWhile_shorter: "List.length (dropWhile P cs) = Suc n \<Longrightarrow> n < Suc (List.length cs)"
  using length_dropWhile_le[of P cs] by simp

function hintLoop :: "KeymapEnvironment \<Rightarrow> string \<Rightarrow> string \<Rightarrow> int \<Rightarrow> bool \<Rightarrow> string \<times> int \<times> bool" where
  "hintLoop env raw out weight keep =
     (case raw of
        [] \<Rightarrow> (out, weight, keep)
      | c # cs \<Rightarrow>
          (if c \<noteq> CHR ''('' then hintLoop env cs (out @ [c]) weight keep
           else
             (case dropWhile (\<lambda>c. c \<noteq> CHR '')'') cs of
                [] \<Rightarrow> (out @ raw, weight, keep)
              | close # after \<Rightarrow>
                  (let word = takeWhile (\<lambda>c. c \<noteq> CHR '')'') cs in
                   case evalHint word env of
                     None \<Rightarrow> hintLoop env after (out @ [c] @ word @ [close]) weight keep
                   | Some (w, k) \<Rightarrow> hintLoop env after out (weight + w) (keep \<and> k)))))"
  by pat_completeness auto
termination
  by (relation "measure (\<lambda>(_, raw, _). List.length raw)") (auto dest!: arg_cong[where f = List.length] intro: dropWhile_shorter)

declare hintLoop.simps [simp del]

text \<open>The key as it is pressed, how far the binding is put forward, and whether it belongs here at all.\<close>

definition keyHints :: "string \<Rightarrow> KeymapEnvironment \<Rightarrow> string \<times> int \<times> bool" where
  "keyHints raw env = (case hintLoop env raw [] 0 True of (out, weight, keep) \<Rightarrow> (join '' '' (fieldsOf out), weight, keep))"

subsection \<open>Keymaps as text (\<open>core/keymap_config.go\<close>)\<close>

record Binding =
  bn_Key :: string
  bn_Commands :: "string list"

text \<open>A comment ends a value where it follows a space, a tab or nothing.\<close>

fun commentLoop :: "char option \<Rightarrow> string \<Rightarrow> string" where
  "commentLoop before [] = []"
| "commentLoop before (c # cs) =
     (if (c = CHR '';'' \<or> c = CHR ''#'') \<and> (before = None \<or> before = Some CHR '' '' \<or> before = Some CHR 0x09) then []
      else c # commentLoop (Some c) cs)"

definition stripKeymapComment :: "string \<Rightarrow> string" where "stripKeymapComment v = commentLoop None v"

definition stripKeymapQuotes :: "string \<Rightarrow> string" where
  "stripKeymapQuotes s =
     (if List.length s \<ge> 2 \<and> (hd s = CHR 0x22 \<or> hd s = CHR 0x27) \<and> last s = hd s then butlast (tl s) else s)"

definition trimCRs :: "string \<Rightarrow> string" where "trimCRs s = rev (dropWhile (\<lambda>c. c = CHR 0x0D) (rev s))"

fun keymapLines :: "string list \<Rightarrow> Binding list" where
  "keymapLines [] = []"
| "keymapLines (raw # raws) =
     (let line = trimSpace (trimCRs raw) in
      if line = [] \<or> hd line = CHR '';'' \<or> hd line = CHR ''#'' then keymapLines raws
      else if hd line = CHR ''['' then
        (if CHR '']'' \<in> set line \<and> toLower (trimSpace (takeWhile (\<lambda>c. c \<noteq> CHR '']'') (tl line))) \<noteq> ''mappings'' then []
         else keymapLines raws)
      else if CHR ''='' \<notin> set line then keymapLines raws
      else
        (let key = trimSpace (takeWhile (\<lambda>c. c \<noteq> CHR ''='') line) in
         if key = [] then keymapLines raws
         else
           (let cmd = stripKeymapQuotes (trimSpace (stripKeymapComment (tl (dropWhile (\<lambda>c. c \<noteq> CHR ''='') line))))
            in \<lparr>bn_Key = key, bn_Commands = [cmd]\<rparr> # keymapLines raws)))"

definition ParseKeymap :: "string \<Rightarrow> Binding list" where "ParseKeymap text = keymapLines (splitOn CHR 0x0A text)"

end
