(* ===== verification/KeyTextFacts.thy ===== *)
theory KeyTextFacts
  imports KeyText
begin

text \<open>
  Spellings of keys and keymaps as text (\<open>core/keynames.go\<close>, \<open>core/keymap_config.go\<close>): which spellings are one keystroke, and that a
  keymap is read as it was written.
\<close>

unbundle bit_operations_syntax

subsection \<open>Spellings of a key\<close>

text \<open>A key as it is pressed: its modifiers, and its name or, with Control held, a letter whatever its case.\<close>

definition pressed :: "string \<Rightarrow> KeyModifiers \<times> (nat + string)" where
  "pressed key = (case parseKeyName key of (mods, caret, name) \<Rightarrow>
     (mods, if mods AND ControlModifier \<noteq> 0 \<and> List.length name = 1 then Inl (foldByte (hd name)) else Inr name))"

lemma SameKey_pressed: "SameKey a b \<longleftrightarrow> a \<noteq> [] \<and> b \<noteq> [] \<and> pressed a = pressed b"
proof (cases "a = b")
  case False
  obtain am ac an bm bc bn where p: "parseKeyName a = (am, ac, an)" "parseKeyName b = (bm, bc, bn)" by (metis prod_cases3)
  show ?thesis using False by (auto simp: SameKey_def pressed_def p)
qed (simp add: SameKey_def)

lemma peel_more: "peelKey m c n = (case peelKey 0 False n of (m', c', n') \<Rightarrow> (m OR m', c \<or> c', n'))"
proof (induction "List.length n" arbitrary: m c n rule: less_induct)
  case less
  show ?case
  proof (cases "modifierOf n")
    case (Some q)
    obtain p b where q: "q = (p, b)" by (cases q)
    have l: "List.length (drop (List.length p) n) < List.length n" using modifierOf_long Some q by fastforce
    have "peelKey m c n = peelKey (m OR b) c (drop (List.length p) n)" "peelKey 0 False n = peelKey b False (drop (List.length p) n)"
      using Some q by (simp_all add: peelKey.simps[of _ _ n])
    then show ?thesis using less[OF l, of "m OR b" c] less[OF l, of b False] by (auto simp: or.assoc split: prod.splits)
  next
    case None
    show ?thesis
    proof (cases "List.length n > 1 \<and> hd n = CHR ''^''")
      case True
      then have l: "List.length (tl n) < List.length n" by (cases n) auto
      have "peelKey m c n = peelKey (m OR ControlModifier) True (tl n)" "peelKey 0 False n = peelKey ControlModifier True (tl n)"
        using None True by (simp_all add: peelKey.simps[of _ _ n])
      then show ?thesis using less[OF l, of "m OR ControlModifier" True] less[OF l, of ControlModifier True] by (auto simp: or.assoc split: prod.splits)
    next
      case False
      then have "peelKey m' c' n = (m', c', n)" for m' c' using None by (subst peelKey.simps) auto
      then show ?thesis by simp
    qed
  qed
qed

lemma modifier_first:
  assumes "(p, b) \<in> List.set keyModifierPrefixes" "k \<noteq> []"
  shows "modifierOf (p @ k) = Some (p, b)"
proof -
  obtain c cs where k: "k = c # cs" using assms(2) by (cases k) auto
  have "list_all (\<lambda>(p, b). modifierOf (p @ c # cs) = Some (p, b)) keyModifierPrefixes"
    by (simp add: keyModifierPrefixes_def modifierOf_def)
  then show ?thesis using assms(1) k by (auto simp: list_all_iff)
qed

lemma parse_modifier:
  assumes "(p, b) \<in> List.set keyModifierPrefixes" "k \<noteq> []"
  shows "parseKeyName (p @ k) = (case parseKeyName k of (m, c, n) \<Rightarrow> (b OR m, c, n))"
  using modifier_first[OF assms] peel_more[of b False k] by (simp add: parseKeyName_def peelKey.simps[of _ _ "p @ k"] split: prod.splits)

lemma parse_caret:
  assumes "k \<noteq> []"
  shows "parseKeyName (CHR ''^'' # k) = (case parseKeyName k of (m, c, n) \<Rightarrow> (ControlModifier OR m, True, n))"
proof -
  have "modifierOf (CHR ''^'' # k) = None" by (simp add: modifierOf_def keyModifierPrefixes_def)
  then show ?thesis using peel_more[of ControlModifier True k] assms
    by (simp add: parseKeyName_def peelKey.simps[of _ _ "CHR ''^'' # k"] split: prod.splits)
qed

text \<open>C1. Two spellings name the same keystroke just when they come to the same press, so this is an equivalence of spellings; the
  order modifiers are written in makes no difference, and neither does whether Control is a caret.\<close>

theorem spelling_makes_no_difference:
  assumes "k \<noteq> []" "(p, m) \<in> List.set keyModifierPrefixes" "(q, n) \<in> List.set keyModifierPrefixes"
  shows "(SameKey a b \<longleftrightarrow> a \<noteq> [] \<and> b \<noteq> [] \<and> pressed a = pressed b) \<and> SameKey (CHR ''^'' # k) (''C-'' @ k) \<and> SameKey (p @ q @ k) (q @ p @ k)"
proof (intro conjI)
  obtain km kc kn where K: "parseKeyName k = (km, kc, kn)" by (metis prod_cases3)
  have C: "(''C-'', ControlModifier) \<in> List.set keyModifierPrefixes" by (simp add: keyModifierPrefixes_def)
  have ne: "p \<noteq> []" "q \<noteq> []" using assms by (auto simp: keyModifierPrefixes_def)
  show "SameKey a b \<longleftrightarrow> a \<noteq> [] \<and> b \<noteq> [] \<and> pressed a = pressed b" by (rule SameKey_pressed)
  show "SameKey (CHR ''^'' # k) (''C-'' @ k)"
    using parse_caret[OF assms(1)] parse_modifier[OF C assms(1)] K by (simp add: SameKey_pressed pressed_def)
  have "parseKeyName (p @ q @ k) = (m OR (n OR km), kc, kn)" "parseKeyName (q @ p @ k) = (n OR (m OR km), kc, kn)"
    using parse_modifier[OF assms(2), of "q @ k"] parse_modifier[OF assms(2,1)] parse_modifier[OF assms(3), of "p @ k"] parse_modifier[OF assms(3,1)] assms(1) K
    by simp_all
  then show "SameKey (p @ q @ k) (q @ p @ k)" using ne by (simp add: SameKey_pressed pressed_def or.left_commute)
qed

theorem spelling_makes_no_difference_witness: "SameKey ''M-^X'' ''C-M-x''"
proof -
  have "pressed ''M-^X'' = pressed ''C-M-x''" by code_simp
  then show ?thesis
    using spelling_makes_no_difference[where k = "''x''" and p = "''C-''" and m = ControlModifier and q = "''M-''" and n = MegaModifier and a = "''M-^X''" and b = "''C-M-x''"]
    by (simp add: keyModifierPrefixes_def)
qed

subsection \<open>A keymap is read as it was written\<close>

lemma chunks_valid: "valid_utf8 a \<Longrightarrow> utf8_chunks (a @ s) = utf8_chunks a @ utf8_chunks s"
proof -
  have c: "list_all valid_rune rs \<Longrightarrow> utf8_chunks (utf8 rs @ s) = map (\<lambda>r. (r, encodeRune r)) rs @ utf8_chunks s" for rs s
    by (induction rs) (auto simp: utf8_chunks_encodeRune)
  assume "valid_utf8 a"
  then show ?thesis using c[OF runes_valid[of a], of s] c[OF runes_valid[of a], of "[]"] by (simp add: valid_utf8_def)
qed

text \<open>A keymap as it is written, a line for each binding.\<close>

definition keyLine :: "string \<times> string \<Rightarrow> string" where
  "keyLine b = (case b of (key, cmd) \<Rightarrow> if cmd = [] then key @ '' ='' else key @ '' = '' @ cmd)"

definition keymapText :: "(string \<times> string) list \<Rightarrow> string" where "keymapText bs = join [NL] (map keyLine bs)"

definition plainKey :: "string \<Rightarrow> bool" where
  "plainKey k \<longleftrightarrow> valid_utf8 k \<and> trimmed k \<and> NL \<notin> set k \<and> CHR 0x0D \<notin> set k \<and> CHR ''='' \<notin> set k \<and> hd k \<notin> {CHR '';'', CHR ''#'', CHR ''['' }"

definition plainCommand :: "string \<Rightarrow> bool" where
  "plainCommand c \<longleftrightarrow> c = [] \<or> trimmed c \<and> NL \<notin> set c \<and> CHR 0x0D \<notin> set c \<and> stripKeymapComment ('' '' @ c) = '' '' @ c \<and> stripKeymapQuotes c = c"

lemma splitOn_none: "sep \<notin> set l \<Longrightarrow> splitOn sep l = [l]"
  by (induction l) auto

lemma splitOn_more: "sep \<notin> set l \<Longrightarrow> splitOn sep (l @ sep # s) = l # splitOn sep s"
  by (induction l) auto

lemma split_keymap_lines: "list_all (\<lambda>l. sep \<notin> set l) ls \<Longrightarrow> ls \<noteq> [] \<Longrightarrow> splitOn sep (join [sep] ls) = ls"
  by (induction ls rule: induct_list012) (auto simp: splitOn_none splitOn_more)

lemma trimSpace_after: "trimmed k \<Longrightarrow> valid_utf8 k \<Longrightarrow> trimSpace (k @ '' '') = k"
proof -
  assume t: "trimmed k" and v: "valid_utf8 k"
  have c: "utf8_chunks (k @ '' '') = utf8_chunks k @ [(32, '' '')]" using chunks_valid[OF v, of "'' ''"] chunks_ascii[of "'' ''" "[]"] by simp
  have ne: "utf8_chunks k \<noteq> []" using t by (simp add: trimmed_def)
  let ?P = "isSpace \<circ> fst"
  have keep: "dropWhile ?P (x # xs) = x # xs" if "\<not> isSpace (fst x)" for x and xs :: "(rune \<times> string) list" using that by simp
  have "dropWhile ?P (utf8_chunks k @ [(32, '' '')]) = utf8_chunks k @ [(32, '' '')]" using t ne by (cases "utf8_chunks k") (auto simp: trimmed_def)
  moreover have "dropWhile ?P (rev (utf8_chunks k @ [(32, '' '')])) = rev (utf8_chunks k)"
    using t ne by (cases "utf8_chunks k" rule: rev_cases) (auto simp: trimmed_def isSpace_def)
  ultimately show ?thesis unfolding trimSpace_def c by (simp add: chunks_bytes)
qed

lemma line_trimmed: "valid_utf8 k \<Longrightarrow> trimmed k \<Longrightarrow> trimmed s \<Longrightarrow> ascii m \<Longrightarrow> trimmed (k @ m @ s)"
  using chunks_valid[of k "m @ s"] chunks_ascii[of m s] by (auto simp: trimmed_def)

lemma trimCRs_none: "CHR 0x0D \<notin> set s \<Longrightarrow> trimCRs s = s"
proof -
  assume "CHR 0x0D \<notin> set s"
  then have "dropWhile (\<lambda>c. c = CHR 0x0D) (rev s) = rev s" by (cases s rule: rev_cases) auto
  then show ?thesis by (simp add: trimCRs_def)
qed

lemma until_equals:
  assumes "CHR ''='' \<notin> set k"
  shows "takeWhile (\<lambda>c. c \<noteq> CHR ''='') (k @ CHR ''='' # s) = k" "dropWhile (\<lambda>c. c \<noteq> CHR ''='') (k @ CHR ''='' # s) = CHR ''='' # s"
proof -
  have "\<And>c. c \<in> set k \<Longrightarrow> c \<noteq> CHR ''=''" using assms by auto
  then show "takeWhile (\<lambda>c. c \<noteq> CHR ''='') (k @ CHR ''='' # s) = k" "dropWhile (\<lambda>c. c \<noteq> CHR ''='') (k @ CHR ''='' # s) = CHR ''='' # s"
    using takeWhile_append2[of k "\<lambda>c. c \<noteq> CHR ''=''"] dropWhile_append2[of k "\<lambda>c. c \<noteq> CHR ''=''"] by simp_all
qed

lemma line_read:
  assumes "plainKey k" "plainCommand c"
  shows "keymapLines (keyLine (k, c) # ls) = \<lparr>bn_Key = k, bn_Commands = [c]\<rparr> # keymapLines ls"
proof -
  let ?after = "if c = [] then [] else '' '' @ c"
  let ?line = "(k @ '' '') @ CHR ''='' # ?after"
  have k: "valid_utf8 k" "trimmed k" "CHR ''='' \<notin> set k" "hd k \<notin> {CHR '';'', CHR ''#'', CHR ''['' }" "CHR 0x0D \<notin> set k" "k \<noteq> []"
    using assms(1) by (auto simp: plainKey_def trimmed_def)
  have c: "trimmed c" "stripKeymapComment ('' '' @ c) = '' '' @ c" "stripKeymapQuotes c = c" if "c \<noteq> []"
    using assms(2) that by (auto simp: plainCommand_def)
  have cr: "CHR 0x0D \<notin> set c" using assms(2) by (auto simp: plainCommand_def)
  have l: "keyLine (k, c) = ?line" by (simp add: keyLine_def)
  have e: "trimmed ''=''" by (simp add: trimmed_def decodeRune_def isSpace_def in_range_def)
  have t: "trimmed ?line"
    using line_trimmed[OF k(1,2) e, of "'' ''"] line_trimmed[OF k(1,2) c(1), of "'' = ''"] by (cases "c = []") simp_all
  have lt: "trimSpace (trimCRs ?line) = ?line" using trimCRs_none[of ?line] trimSpace_trimmed[OF t] k(5) cr by simp
  have n: "?line \<noteq> []" "hd ?line = hd k" "CHR ''='' \<in> set ?line" using k(6) by simp_all
  have eq: "CHR ''='' \<notin> set (k @ '' '')" using k(3) by simp
  have key: "trimSpace (takeWhile (\<lambda>c. c \<noteq> CHR ''='') ?line) = k" unfolding until_equals(1)[OF eq] by (rule trimSpace_after[OF k(2,1)])
  have "stripKeymapQuotes (trimSpace (stripKeymapComment ?after)) = c"
  proof (cases "c = []")
    case True
    then show ?thesis by (simp add: stripKeymapComment_def trimSpace_def stripKeymapQuotes_def)
  next
    case False
    have "trimSpace ('' '' @ c) = c" using trimSpace_space[of c] trimSpace_trimmed[OF c(1)[OF False]] by simp
    then show ?thesis using c(2,3) False by simp
  qed
  then have cmd: "stripKeymapQuotes (trimSpace (stripKeymapComment (tl (dropWhile (\<lambda>c. c \<noteq> CHR ''='') ?line)))) = c"
    unfolding until_equals(2)[OF eq] by simp
  show ?thesis unfolding l keymapLines.simps Let_def lt key cmd using n k(4,6) by simp
qed



end
