(* ===== verification/KeyMaps.thy ===== *)
theory KeyMaps
  imports KeyText "HOL-Library.AList" "HOL-Library.List_Lexorder" "HOL-Library.Char_ord"
begin

text \<open>
  Keymaps (\<open>core/keymap.go\<close>): the registry of what keys mean, the context of what they mean in a situation, and the keys a
  trinket resolves. A map is an association list with one entry for each key, in whatever order it is gone through. The serials
  and revisions are natural numbers: 2^64 bindings would be needed to wrap them. The processor that follows a sequence of keys
  belongs to another module and is a parameter.
\<close>

subsection \<open>Registries\<close>

record boundCommand =
  bc_command :: string
  bc_serial :: nat
  bc_weight :: int

definition outranks :: "boundCommand \<Rightarrow> boundCommand \<Rightarrow> bool" where
  "outranks a b = (if bc_weight a \<noteq> bc_weight b then bc_weight a > bc_weight b else bc_serial a > bc_serial b)"

type_synonym bindings = "(string \<times> boundCommand list) list"

record KeyRegistry =
  kr_name :: string
  kr_bindings :: bindings
  kr_revision :: nat
  kr_serial :: nat

definition boundTo :: "bindings \<Rightarrow> string \<Rightarrow> boundCommand list" where
  "boundTo bs k = (case map_of bs k of Some b \<Rightarrow> b | None \<Rightarrow> [])"

text \<open>One more meaning of a key, with the next serial.\<close>

definition bindMore :: "string \<Rightarrow> int \<Rightarrow> string \<Rightarrow> KeyRegistry \<Rightarrow> KeyRegistry" where
  "bindMore key weight cmd r =
     r\<lparr>kr_serial := Suc (kr_serial r),
       kr_bindings := AList.update key (boundTo (kr_bindings r) key @ [\<lparr>bc_command = cmd, bc_serial = Suc (kr_serial r), bc_weight = weight\<rparr>]) (kr_bindings r)\<rparr>"

definition bindLine :: "KeymapEnvironment \<Rightarrow> Binding \<Rightarrow> KeyRegistry \<Rightarrow> KeyRegistry" where
  "bindLine env b r =
     (case keyHints (bn_Key b) env of (key, weight, keep) \<Rightarrow>
        if \<not> keep then r else fold (\<lambda>cmd r. if cmd = [] then r else bindMore key weight cmd r) (bn_Commands b) r)"

definition NewKeyRegistry :: "KeymapEnvironment \<Rightarrow> string \<Rightarrow> Binding list \<Rightarrow> KeyRegistry" where
  "NewKeyRegistry env name bindings = fold (bindLine env) bindings \<lparr>kr_name = name, kr_bindings = [], kr_revision = 0, kr_serial = 0\<rparr>"

definition NewKeyRegistryFromMap :: "KeymapEnvironment \<Rightarrow> string \<Rightarrow> (string \<times> string list) list \<Rightarrow> KeyRegistry" where
  "NewKeyRegistryFromMap env name m =
     NewKeyRegistry env name (map (\<lambda>k. \<lparr>bn_Key = k, bn_Commands = (case map_of m k of Some cs \<Rightarrow> cs | None \<Rightarrow> [])\<rparr>) (sort (map fst m)))"

definition Bind :: "KeymapEnvironment \<Rightarrow> string \<Rightarrow> string \<Rightarrow> KeyRegistry \<Rightarrow> KeyRegistry" where
  "Bind env key0 command r =
     (case keyHints key0 env of (key, weight, keep) \<Rightarrow>
        let r = (if command = [] \<or> \<not> keep then r\<lparr>kr_bindings := AList.delete key (kr_bindings r)\<rparr>
                 else r\<lparr>kr_serial := Suc (kr_serial r),
                   kr_bindings := AList.update key [\<lparr>bc_command = command, bc_serial = Suc (kr_serial r), bc_weight = weight\<rparr>] (kr_bindings r)\<rparr>)
        in r\<lparr>kr_revision := Suc (kr_revision r)\<rparr>)"

definition AddBinding :: "KeymapEnvironment \<Rightarrow> string \<Rightarrow> string \<Rightarrow> KeyRegistry \<Rightarrow> KeyRegistry" where
  "AddBinding env key0 command r =
     (if command = [] then r
      else
        (case keyHints key0 env of (key, weight, keep) \<Rightarrow>
           if \<not> keep then r
           else if list_ex (\<lambda>b. bc_command b = command) (boundTo (kr_bindings r) key) then r
           else (let r = bindMore key weight command r in r\<lparr>kr_revision := Suc (kr_revision r)\<rparr>)))"

text \<open>The first binding of a command is put forward: the newest serial, and the greater weight.\<close>

fun promote :: "string \<Rightarrow> nat \<Rightarrow> int \<Rightarrow> boundCommand list \<Rightarrow> boundCommand list" where
  "promote command serial weight [] = []"
| "promote command serial weight (b # bs) =
     (if bc_command b = command then b\<lparr>bc_serial := serial, bc_weight := max weight (bc_weight b)\<rparr> # bs
      else b # promote command serial weight bs)"

definition Prefer :: "KeymapEnvironment \<Rightarrow> string \<Rightarrow> string \<Rightarrow> KeyRegistry \<Rightarrow> KeyRegistry" where
  "Prefer env key0 command r =
     (if command = [] then r
      else
        (case keyHints key0 env of (key, weight, keep) \<Rightarrow>
           if \<not> keep then r
           else if list_ex (\<lambda>b. bc_command b = command) (boundTo (kr_bindings r) key) then
             r\<lparr>kr_serial := Suc (kr_serial r),
               kr_bindings := AList.update key (promote command (Suc (kr_serial r)) weight (boundTo (kr_bindings r) key)) (kr_bindings r),
               kr_revision := Suc (kr_revision r)\<rparr>
           else (let r = bindMore key weight command r in r\<lparr>kr_revision := Suc (kr_revision r)\<rparr>)))"

text \<open>The binding of a command under each key, put in order of rank.\<close>

definition boundFor :: "string \<Rightarrow> bindings \<Rightarrow> (string \<times> boundCommand) list" where
  "boundFor command bs = List.map_filter (\<lambda>(k, b). map_option (\<lambda>c. (k, c)) (List.find (\<lambda>c. bc_command c = command) b)) bs"

fun insertRank :: "string \<times> boundCommand \<Rightarrow> (string \<times> boundCommand) list \<Rightarrow> (string \<times> boundCommand) list" where
  "insertRank f [] = [f]"
| "insertRank f (g # gs) = (if outranks (snd g) (snd f) then g # insertRank f gs else f # g # gs)"

definition KeysFor :: "string \<Rightarrow> KeyRegistry \<Rightarrow> string list" where
  "KeysFor command r = map fst (foldr insertRank (boundFor command (kr_bindings r)) [])"

definition Binds :: "string \<Rightarrow> KeyRegistry \<Rightarrow> bool" where
  "Binds key r \<longleftrightarrow> key \<noteq> [] \<and> boundTo (kr_bindings r) key \<noteq> []"

definition Outranks :: "string \<Rightarrow> string \<Rightarrow> string \<Rightarrow> string \<Rightarrow> KeyRegistry \<Rightarrow> bool" where
  "Outranks keyA commandA keyB commandB r =
     (case List.find (\<lambda>b. bc_command b = commandA) (boundTo (kr_bindings r) keyA) of
        None \<Rightarrow> False
      | Some a \<Rightarrow>
          (case List.find (\<lambda>b. bc_command b = commandB) (boundTo (kr_bindings r) keyB) of
             None \<Rightarrow> True
           | Some b \<Rightarrow> outranks a b))"

definition KeyForCommand :: "string \<Rightarrow> KeyRegistry \<Rightarrow> string" where
  "KeyForCommand command r = (case KeysFor command r of [] \<Rightarrow> [] | k # ks \<Rightarrow> k)"

subsection \<open>Contexts\<close>

text \<open>The processor of \<open>keyseq\<close>: its mappings, the sequence begun, and what a key comes to.\<close>

record 'p sequencer =
  sq_New :: 'p
  sq_SetMappings :: "(string \<times> string) list \<Rightarrow> 'p \<Rightarrow> 'p"
  sq_GetAllMappings :: "'p \<Rightarrow> (string \<times> string) list"
  sq_GetActiveSequence :: "'p \<Rightarrow> string"
  sq_ProcessKey :: "string \<Rightarrow> 'p \<Rightarrow> string \<times> 'p"
  sq_ClearActiveSequence :: "'p \<Rightarrow> 'p"

record 'p KeyContext =
  kc_proc :: 'p
  kc_commands :: "string list"
  kc_revision :: nat
  kc_ranks :: "(string \<times> boundCommand) list"
  kc_added :: nat
  kc_matched :: string

text \<open>Of a key's meanings the first that is on offer.\<close>

definition offered :: "string list \<Rightarrow> bindings \<Rightarrow> (string \<times> boundCommand) list" where
  "offered commands bs = List.map_filter (\<lambda>(k, b). map_option (\<lambda>c. (k, c)) (List.find (\<lambda>c. bc_command c \<in> set commands) b)) bs"

definition BuildContext :: "'p sequencer \<Rightarrow> string list \<Rightarrow> KeyRegistry \<Rightarrow> 'p KeyContext" where
  "BuildContext sq commands r =
     (let kept = offered commands (kr_bindings r)
      in \<lparr>kc_proc = sq_SetMappings sq (map (\<lambda>(k, b). (k, bc_command b)) kept) (sq_New sq), kc_commands = commands, kc_revision = kr_revision r,
          kc_ranks = kept, kc_added = fold (\<lambda>(k, b) added. max (bc_serial b) added) kept 0, kc_matched = []\<rparr>)"

text \<open>\<open>Add\<close>: a key that is formed rather than configured.\<close>

definition addKey :: "'p sequencer \<Rightarrow> string \<Rightarrow> string \<Rightarrow> 'p KeyContext \<Rightarrow> 'p KeyContext" where
  "addKey sq key command c =
     c\<lparr>kc_commands := command # kc_commands c,
       kc_proc := sq_SetMappings sq (AList.update key command (sq_GetAllMappings sq (kc_proc c))) (kc_proc c),
       kc_added := Suc (kc_added c),
       kc_ranks := AList.update key \<lparr>bc_command = command, bc_serial = Suc (kc_added c), bc_weight = 0\<rparr> (kc_ranks c)\<rparr>"

definition rankOf :: "'p KeyContext \<Rightarrow> string \<Rightarrow> boundCommand" where
  "rankOf c key = (case map_of (kc_ranks c) key of Some b \<Rightarrow> b | None \<Rightarrow> \<lparr>bc_command = [], bc_serial = 0, bc_weight = 0\<rparr>)"

definition better :: "'p KeyContext \<Rightarrow> string \<Rightarrow> string \<times> boundCommand \<Rightarrow> string \<times> boundCommand" where
  "better c key = (\<lambda>(best, bestRank).
     (let rank = rankOf c key in
      if best = [] \<or> outranks rank bestRank \<or> rank = bestRank \<and> key > best then (key, rank) else (best, bestRank)))"

definition shownKey :: "'p sequencer \<Rightarrow> string \<Rightarrow> 'p KeyContext \<Rightarrow> string" where
  "shownKey sq command c =
     (if command = [] then []
      else fst (fold (\<lambda>(key, cmd) best. if cmd \<noteq> command then best else better c key best) (sq_GetAllMappings sq (kc_proc c))
                  ([], \<lparr>bc_command = [], bc_serial = 0, bc_weight = 0\<rparr>)))"

definition CommandAppAccelerator :: string where "CommandAppAccelerator = ''_app_accel''"

definition ClearAccelerators :: "'p sequencer \<Rightarrow> 'p KeyContext \<Rightarrow> 'p KeyContext" where
  "ClearAccelerators sq c =
     (let m = sq_GetAllMappings sq (kc_proc c); m' = filter (\<lambda>(k, cmd). cmd \<noteq> CommandAppAccelerator) m
      in if m' \<noteq> m then c\<lparr>kc_proc := sq_SetMappings sq m' (kc_proc c)\<rparr> else c)"

definition Claims :: "'p sequencer \<Rightarrow> string \<Rightarrow> 'p KeyContext \<Rightarrow> bool" where
  "Claims sq key c = list_ex (\<lambda>(k, cmd). k = key) (sq_GetAllMappings sq (kc_proc c))"

definition Resolve :: "'p sequencer \<Rightarrow> string \<Rightarrow> 'p KeyContext \<Rightarrow> string \<times> 'p KeyContext" where
  "Resolve sq key c =
     (let pending = sq_GetActiveSequence sq (kc_proc c) in
      case sq_ProcessKey sq key (kc_proc c) of (cmd, p) \<Rightarrow>
        (cmd, (let c = c\<lparr>kc_proc := p\<rparr> in
               if cmd \<noteq> [] then c\<lparr>kc_matched := (if pending \<noteq> [] then pending @ '' '' @ key else key)\<rparr> else c)))"

definition Abandon :: "'p sequencer \<Rightarrow> 'p KeyContext \<Rightarrow> 'p KeyContext" where
  "Abandon sq c = c\<lparr>kc_proc := sq_ClearActiveSequence sq (kc_proc c)\<rparr>"

subsection \<open>The keymap of a host\<close>

definition ApplyHostKeymap :: "KeymapEnvironment \<Rightarrow> Binding list \<Rightarrow> string \<Rightarrow> KeyRegistry \<times> string \<Rightarrow> KeyRegistry \<times> string" where
  "ApplyHostKeymap env mappings chord = (\<lambda>(r, acceleratorChord).
     (fold (\<lambda>b. fold (\<lambda>cmd r. if cmd = [] then Bind env (bn_Key b) [] r else Prefer env (bn_Key b) cmd r) (bn_Commands b)) mappings r,
      if chord \<noteq> [] then chord else acceleratorChord))"

datatype UIState = StateNormal | StateTitleBarFocused

definition stateCommands :: "UIState \<Rightarrow> string list" where
  "stateCommands state =
     (case state of
        StateNormal \<Rightarrow>
          [''window_maximize_toggle'', ''window_close'', ''app_menu'', ''app_help'', ''window_next'', ''window_prior'', ''window_mdi_next'',
           ''window_mdi_prior'', ''app_minimize'', ''app_quit'', ''app_hide'', ''app_hide_others'', ''app_show_all'', ''desktop_exit'',
           ''host_suspend'', ''gui_scale_down'', ''gui_scale_up'', ''gui_scale_reset'', ''focus_next'', ''focus_prior'']
      | StateTitleBarFocused \<Rightarrow>
          [''window_cancel_resize'', ''window_move_fine_up'', ''window_move_fine_down'', ''window_move_fine_left'', ''window_move_fine_right'',
           ''window_size_fine_up'', ''window_size_fine_down'', ''window_size_fine_left'', ''window_size_fine_right'', ''window_move_up'',
           ''window_move_down'', ''window_move_left'', ''window_move_right'', ''window_size_up'', ''window_size_down'', ''window_size_left'',
           ''window_size_right''])"

definition CommandsForState :: "UIState \<Rightarrow> string list" where
  "CommandsForState state = stateCommands StateNormal @ (if state \<noteq> StateNormal then stateCommands state else [])"

definition BuildStateContext :: "'p sequencer \<Rightarrow> UIState \<Rightarrow> KeyRegistry \<Rightarrow> 'p KeyContext" where
  "BuildStateContext sq state r = BuildContext sq (CommandsForState state) r"

subsection \<open>The keys of a trinket\<close>

text \<open>A registry is known by its place among all there are; the one in force where the trinket sits is found by walking up
  from it, and given to the operations.\<close>

record 'p TrinketKeys =
  ky_commands :: "string list"
  ky_ctx :: "'p KeyContext option"
  ky_rev :: nat
  ky_built :: bool
  ky_owner :: "nat option"
  ky_reg :: "nat option"

definition NewTrinketKeys :: "'p TrinketKeys" where
  "NewTrinketKeys = \<lparr>ky_commands = [], ky_ctx = None, ky_rev = 0, ky_built = False, ky_owner = None, ky_reg = None\<rparr>"

definition SetKeyOwner :: "nat option \<Rightarrow> 'p TrinketKeys \<Rightarrow> 'p TrinketKeys" where
  "SetKeyOwner owner t = (if ky_owner t \<noteq> owner then t\<lparr>ky_owner := owner, ky_built := False\<rparr> else t)"

definition SetCommands :: "string list \<Rightarrow> 'p TrinketKeys \<Rightarrow> 'p TrinketKeys" where
  "SetCommands commands t = t\<lparr>ky_commands := commands, ky_built := False\<rparr>"

definition builtFor :: "'p sequencer \<Rightarrow> (nat \<Rightarrow> KeyRegistry) \<Rightarrow> nat \<Rightarrow> 'p TrinketKeys \<Rightarrow> 'p KeyContext \<times> 'p TrinketKeys" where
  "builtFor sq regs r t =
     (case ky_ctx t of
        Some c \<Rightarrow>
          (if \<not> ky_built t \<or> ky_rev t \<noteq> kr_revision (regs r) \<or> ky_reg t \<noteq> Some r then
             (let c = BuildContext sq (ky_commands t) (regs r)
              in (c, t\<lparr>ky_ctx := Some c, ky_rev := kr_revision (regs r), ky_reg := Some r, ky_built := True\<rparr>))
           else (c, t))
      | None \<Rightarrow>
          (let c = BuildContext sq (ky_commands t) (regs r)
           in (c, t\<lparr>ky_ctx := Some c, ky_rev := kr_revision (regs r), ky_reg := Some r, ky_built := True\<rparr>)))"

definition KeyCommand :: "'p sequencer \<Rightarrow> (nat \<Rightarrow> KeyRegistry) \<Rightarrow> nat \<Rightarrow> string \<Rightarrow> 'p TrinketKeys \<Rightarrow> string \<times> 'p TrinketKeys" where
  "KeyCommand sq regs r key t =
     (case builtFor sq regs r t of (c, t) \<Rightarrow> case Resolve sq key c of (cmd, c) \<Rightarrow> (cmd, t\<lparr>ky_ctx := Some c\<rparr>))"

definition trinketKey :: "'p sequencer \<Rightarrow> (nat \<Rightarrow> KeyRegistry) \<Rightarrow> nat \<Rightarrow> string \<Rightarrow> 'p TrinketKeys \<Rightarrow> string \<times> 'p TrinketKeys" where
  "trinketKey sq regs r command t = (case builtFor sq regs r t of (c, t) \<Rightarrow> (shownKey sq command c, t))"

definition AbandonKeySequence :: "'p sequencer \<Rightarrow> 'p TrinketKeys \<Rightarrow> 'p TrinketKeys" where
  "AbandonKeySequence sq t = t\<lparr>ky_ctx := map_option (Abandon sq) (ky_ctx t)\<rparr>"

end
