(* ===== verification/KeyMapFacts.thy ===== *)
theory KeyMapFacts
  imports KeyMaps
begin

text \<open>
  What a registry of keys comes to (\<open>core/keymap.go\<close>): no two bindings have one serial whatever is done (\<open>regOK\<close>), so the keys of a
  command have one order; and a keymap that is said over again changes nothing, unless it says a thing twice.
\<close>

subsection \<open>What a registry keeps\<close>

lemma boundTo_simps [simp]:
  "boundTo (AList.update k v bs) k' = (if k' = k then v else boundTo bs k')"
  "boundTo (AList.delete k bs) k' = (if k' = k then [] else boundTo bs k')"
  "boundTo [] k' = []"
  by (simp_all add: boundTo_def update_conv' delete_conv')

text \<open>No two bindings came at the same time, and none after the last.\<close>

definition serialsOK :: "(string \<Rightarrow> boundCommand list) \<Rightarrow> nat \<Rightarrow> bool" where
  "serialsOK B n \<longleftrightarrow> (\<forall>k. distinct (map bc_serial (B k))) \<and> (\<forall>k. \<forall>b \<in> set (B k). bc_serial b \<le> n) \<and>
     (\<forall>k k'. \<forall>b \<in> set (B k). \<forall>b' \<in> set (B k'). bc_serial b = bc_serial b' \<longrightarrow> k = k')"

definition regOK :: "KeyRegistry \<Rightarrow> bool" where
  "regOK r \<longleftrightarrow> distinct (map fst (kr_bindings r)) \<and> serialsOK (boundTo (kr_bindings r)) (kr_serial r)"

lemma serialsOK_low: "serialsOK B n \<Longrightarrow> b \<in> set (B j) \<Longrightarrow> bc_serial b \<le> n"
  and serialsOK_one: "serialsOK B n \<Longrightarrow> b \<in> set (B j) \<Longrightarrow> b' \<in> set (B j') \<Longrightarrow> bc_serial b = bc_serial b' \<Longrightarrow> j = j'"
  unfolding serialsOK_def by blast+

lemma serialsOK_change:
  assumes "serialsOK B n" "distinct (map bc_serial v)" "\<forall>b \<in> set v. bc_serial b = Suc n \<or> bc_serial b \<in> bc_serial ` set (B k)"
  shows "serialsOK (\<lambda>k'. if k' = k then v else B k') (Suc n)"
proof -
  have low: "bc_serial b \<le> n" if "b \<in> set (B j)" for b j using serialsOK_low[OF assms(1) that] .
  have one: "j = j'" if "b \<in> set (B j)" "b' \<in> set (B j')" "bc_serial b = bc_serial b'" for b b' j j'
    using serialsOK_one[OF assms(1) that] .
  have v: "bc_serial b = Suc n \<or> (\<exists>b' \<in> set (B k). bc_serial b = bc_serial b')" if "b \<in> set v" for b using assms(3) that by (auto simp: image_iff)
  have apart: "j = k" if "b \<in> set v" "b' \<in> set (B j)" "bc_serial b = bc_serial b'" for b b' j
    using v[OF that(1)] low[OF that(2)] one[OF _ that(2), of _ k] that(3) by auto
  have d: "distinct (map bc_serial (B j))" for j using assms(1) by (simp add: serialsOK_def)
  have up: "bc_serial b \<le> Suc n" if "b \<in> set v" for b using v[OF that] low by fastforce
  show ?thesis unfolding serialsOK_def
  proof (intro conjI allI ballI impI)
    fix j show "distinct (map bc_serial (if j = k then v else B j))" using assms(2) d by simp
    fix b assume "b \<in> set (if j = k then v else B j)"
    then show "bc_serial b \<le> Suc n" using up low[of b j] by (auto split: if_splits intro: le_SucI)
  next
    fix j j' b b' assume "b \<in> set (if j = k then v else B j)" "b' \<in> set (if j' = k then v else B j')" "bc_serial b = bc_serial b'"
    then show "j = j'" using apart[of b b' j'] apart[of b' b j] one[of b j b' j'] by (auto split: if_splits)
  qed
qed

lemma serialsOK_less: "serialsOK B n \<Longrightarrow> serialsOK (\<lambda>k'. if k' = k then [] else B k') n"
  by (auto simp: serialsOK_def split: if_splits)

lemma fresh_serial: "serialsOK B n \<Longrightarrow> Suc n \<notin> bc_serial ` set (B k)"
  using serialsOK_low[of B n _ k] by fastforce

lemma boundTo_fun: "boundTo (AList.update k v bs) = (\<lambda>k'. if k' = k then v else boundTo bs k')"
  "boundTo (AList.delete k bs) = (\<lambda>k'. if k' = k then [] else boundTo bs k')" by (auto simp: fun_eq_iff)

lemma updated_OK:
  assumes "regOK r" "distinct (map bc_serial v)" "\<forall>b \<in> set v. bc_serial b = Suc (kr_serial r) \<or> bc_serial b \<in> bc_serial ` set (boundTo (kr_bindings r) k)"
  shows "regOK (r\<lparr>kr_serial := Suc (kr_serial r), kr_bindings := AList.update k v (kr_bindings r)\<rparr>)"
  using assms serialsOK_change[of "boundTo (kr_bindings r)" "kr_serial r" v k] by (simp add: regOK_def boundTo_fun distinct_update)

lemma bindMore_OK: "regOK r \<Longrightarrow> regOK (bindMore k w c r)"
  using fresh_serial[of "boundTo (kr_bindings r)" "kr_serial r" k]
  unfolding bindMore_def by (intro updated_OK) (auto simp: regOK_def serialsOK_def)

lemma promote_serials: "n \<notin> bc_serial ` set bs \<Longrightarrow> distinct (map bc_serial bs) \<Longrightarrow>
    distinct (map bc_serial (promote c n w bs)) \<and> (\<forall>b \<in> set (promote c n w bs). bc_serial b = n \<or> bc_serial b \<in> bc_serial ` set bs)"
  by (induction bs) auto

lemma revision_OK [simp]: "regOK (r\<lparr>kr_revision := n\<rparr>) = regOK r" by (simp add: regOK_def)

lemma Bind_OK: "regOK r \<Longrightarrow> regOK (Bind env k c r)"
proof -
  assume r: "regOK r"
  have "regOK (r\<lparr>kr_bindings := AList.delete key (kr_bindings r)\<rparr>)" for key
    using r serialsOK_less[of "boundTo (kr_bindings r)" "kr_serial r" key] by (simp add: regOK_def boundTo_fun distinct_delete)
  then show ?thesis using updated_OK[OF r] by (simp add: Bind_def Let_def split: prod.splits)
qed

lemma AddBinding_OK: "regOK r \<Longrightarrow> regOK (AddBinding env k c r)"
  by (simp add: AddBinding_def Let_def bindMore_OK split: prod.splits)

lemma Prefer_OK: "regOK r \<Longrightarrow> regOK (Prefer env k c r)"
proof -
  assume r: "regOK r"
  have "regOK (r\<lparr>kr_serial := Suc (kr_serial r), kr_bindings := AList.update key (promote c (Suc (kr_serial r)) w (boundTo (kr_bindings r) key)) (kr_bindings r)\<rparr>)" for key w
    using promote_serials[of "Suc (kr_serial r)" "boundTo (kr_bindings r) key" c w] fresh_serial[of "boundTo (kr_bindings r)" "kr_serial r" key] r
    by (intro updated_OK) (auto simp: regOK_def serialsOK_def)
  then have "regOK (r\<lparr>kr_serial := Suc (kr_serial r), kr_bindings := AList.update key (promote c (Suc (kr_serial r)) w (boundTo (kr_bindings r) key)) (kr_bindings r), kr_revision := n\<rparr>)" for key w n
    by (simp add: regOK_def)
  then show ?thesis using r by (simp add: Prefer_def Let_def bindMore_OK split: prod.splits)
qed

lemma fold_OK: "regOK r \<Longrightarrow> (\<And>x r. regOK r \<Longrightarrow> regOK (f x r)) \<Longrightarrow> regOK (fold f xs r)"
  by (induction xs arbitrary: r) auto

lemma New_OK: "regOK (NewKeyRegistry env name bs)"
proof -
  have "regOK (bindLine env b r)" if "regOK r" for b r
    using that by (auto simp: bindLine_def bindMore_OK intro!: fold_OK split: prod.splits)
  moreover have "regOK \<lparr>kr_name = name, kr_bindings = [], kr_revision = 0, kr_serial = 0\<rparr>" by (simp add: regOK_def serialsOK_def)
  ultimately show ?thesis unfolding NewKeyRegistry_def by (blast intro: fold_OK)
qed

text \<open>What may happen to a registry after it was built; the environment may be declared anew in between.\<close>

datatype edit = EBind string string | EAdd string string | EPrefer string string

definition runEdit :: "KeymapEnvironment \<times> edit \<Rightarrow> KeyRegistry \<Rightarrow> KeyRegistry" where
  "runEdit e = (case e of (env, EBind k c) \<Rightarrow> Bind env k c | (env, EAdd k c) \<Rightarrow> AddBinding env k c | (env, EPrefer k c) \<Rightarrow> Prefer env k c)"

lemma runEdit_OK: "regOK r \<Longrightarrow> regOK (runEdit e r)"
  by (auto simp: runEdit_def Bind_OK AddBinding_OK Prefer_OK split: prod.splits edit.splits)

definition edited :: "KeymapEnvironment \<Rightarrow> string \<Rightarrow> Binding list \<Rightarrow> (KeymapEnvironment \<times> edit) list \<Rightarrow> KeyRegistry" where
  "edited env name bs es = fold runEdit es (NewKeyRegistry env name bs)"

lemma edited_OK: "regOK (edited env name bs es)"
  unfolding edited_def by (intro fold_OK New_OK runEdit_OK)

subsection \<open>The keys of a command\<close>

text \<open>The binding of a command under a key.\<close>

definition bindingOf :: "bindings \<Rightarrow> string \<Rightarrow> string \<Rightarrow> boundCommand option" where
  "bindingOf bs command k = List.find (\<lambda>b. bc_command b = command) (boundTo bs k)"

lemma picked_map_of:
  "distinct (map fst bs) \<Longrightarrow> map_of (List.map_filter (\<lambda>(k, b). map_option (\<lambda>c. (k, c)) (List.find P b)) bs) k = List.find P (boundTo bs k)"
proof (induction bs)
  case (Cons x bs)
  obtain j b where x: "x = (j, b)" by (cases x)
  have "boundTo bs j = []" using Cons.prems x by (simp add: boundTo_def x map_of_eq_None_iff[THEN iffD2])
  moreover have "boundTo (x # bs) k = (if k = j then b else boundTo bs k)" by (simp add: boundTo_def x)
  ultimately show ?case using Cons by (cases "List.find P b") (auto simp: x List.map_filter_simps)
qed (simp add: List.map_filter_simps boundTo_def)

lemma picked_distinct: "distinct (map fst bs) \<Longrightarrow> distinct (map fst (List.map_filter (\<lambda>(k, b). map_option (\<lambda>c. (k, c)) (List.find P b)) bs))"
proof (induction bs)
  case (Cons x bs)
  have "set (map fst (List.map_filter (\<lambda>(k, b). map_option (\<lambda>c. (k, c)) (List.find P b)) bs)) \<subseteq> set (map fst bs)"
    by (force simp: List.map_filter_def split: option.splits)
  then have "fst x \<notin> set (map fst (List.map_filter (\<lambda>(k, b). map_option (\<lambda>c. (k, c)) (List.find P b)) bs))" using Cons.prems by auto
  then show ?case using Cons by (cases x; cases "List.find P (snd x)") (simp_all add: List.map_filter_simps)
qed (simp add: List.map_filter_simps)

lemma outranks_linear: "bc_serial a \<noteq> bc_serial b \<Longrightarrow> \<not> outranks a b \<Longrightarrow> outranks b a"
  by (auto simp: outranks_def split: if_splits)

lemma outranks_trans: "outranks a b \<Longrightarrow> outranks b c \<Longrightarrow> outranks a c"
  by (auto simp: outranks_def split: if_splits)

lemma sorted_distinct: "sorted_wrt P xs \<Longrightarrow> (\<And>a. \<not> P a a) \<Longrightarrow> distinct xs"
  by (induction xs) auto

lemma insertRank_set [simp]: "set (insertRank f gs) = insert f (set gs)"
  by (induction gs) auto

lemma insertRank_sorted:
  "sorted_wrt (\<lambda>f g. outranks (snd f) (snd g)) gs \<Longrightarrow> (\<forall>g \<in> set gs. bc_serial (snd g) \<noteq> bc_serial (snd f)) \<Longrightarrow>
    sorted_wrt (\<lambda>f g. outranks (snd f) (snd g)) (insertRank f gs)"
proof (induction gs)
  case (Cons g gs)
  then show ?case using outranks_linear[of "snd g" "snd f"] outranks_trans by auto
qed simp

lemma ranked_spec:
  assumes "distinct (map fst xs)" "\<forall>f \<in> set xs. \<forall>g \<in> set xs. bc_serial (snd f) = bc_serial (snd g) \<longrightarrow> fst f = fst g"
  shows "set (foldr insertRank xs []) = set xs \<and> sorted_wrt (\<lambda>f g. outranks (snd f) (snd g)) (foldr insertRank xs [])"
  using assms
proof (induction xs)
  case (Cons f xs)
  have p: "distinct (map fst xs)" using Cons.prems(1) by simp
  have q: "\<forall>f \<in> set xs. \<forall>g \<in> set xs. bc_serial (snd f) = bc_serial (snd g) \<longrightarrow> fst f = fst g" using Cons.prems(2) by (meson list.set_intros(2))
  have ih: "set (foldr insertRank xs []) = set xs" "sorted_wrt (\<lambda>f g. outranks (snd f) (snd g)) (foldr insertRank xs [])" using Cons.IH[OF p q] by blast+
  have "bc_serial (snd g) \<noteq> bc_serial (snd f)" if "g \<in> set xs" for g
  proof
    assume "bc_serial (snd g) = bc_serial (snd f)"
    then have "fst g = fst f" using Cons.prems(2) that by (meson list.set_intros)
    moreover have "fst g \<in> fst ` set xs" using that by simp
    ultimately show False using Cons.prems(1) by simp
  qed
  then have "\<forall>g \<in> set (foldr insertRank xs []). bc_serial (snd g) \<noteq> bc_serial (snd f)" using ih(1) by simp
  then show ?case using insertRank_sorted[OF ih(2)] ih(1) by simp
qed simp

text \<open>The rank a key has for a command.\<close>

definition rankFor :: "bindings \<Rightarrow> string \<Rightarrow> string \<Rightarrow> boundCommand" where "rankFor bs command k = the (bindingOf bs command k)"

lemma bindingOf_in: "bindingOf bs command k = Some b \<Longrightarrow> b \<in> set (boundTo bs k) \<and> bc_command b = command"
  by (auto simp: bindingOf_def find_Some_iff)

lemma bindingOf_some: "(\<exists>b. bindingOf bs command k = Some b) \<longleftrightarrow> command \<in> bc_command ` set (boundTo bs k)"
proof -
  have "bindingOf bs command k = None \<longleftrightarrow> command \<notin> bc_command ` set (boundTo bs k)" by (auto simp: bindingOf_def find_None_iff)
  then show ?thesis by (metis not_None_eq)
qed


subsection \<open>Saying a keymap over again\<close>

text \<open>The lines of a keymap that are bound here, one for each meaning: its key, weight and command.\<close>

definition meanings :: "KeymapEnvironment \<Rightarrow> Binding list \<Rightarrow> (string \<times> int \<times> string) list" where
  "meanings env bs = concat (map (\<lambda>b. case keyHints (bn_Key b) env of (k, w, keep) \<Rightarrow>
     if keep then map (\<lambda>c. (k, w, c)) (filter (\<lambda>c. c \<noteq> []) (bn_Commands b)) else []) bs)"

definition preferKey :: "string \<times> int \<times> string \<Rightarrow> KeyRegistry \<Rightarrow> KeyRegistry" where
  "preferKey = (\<lambda>(key, weight, command) r.
     if list_ex (\<lambda>b. bc_command b = command) (boundTo (kr_bindings r) key) then
       r\<lparr>kr_serial := Suc (kr_serial r),
         kr_bindings := AList.update key (promote command (Suc (kr_serial r)) weight (boundTo (kr_bindings r) key)) (kr_bindings r),
         kr_revision := Suc (kr_revision r)\<rparr>
     else (let r = bindMore key weight command r in r\<lparr>kr_revision := Suc (kr_revision r)\<rparr>))"

lemma bindLine_meanings: "fold (bindLine env) bs r = fold (\<lambda>(k, w, c). bindMore k w c) (meanings env bs) r"
proof (induction bs arbitrary: r)
  case (Cons b bs)
  have "fold (\<lambda>cmd r. if cmd = [] then r else bindMore k w cmd r) cs r = fold (\<lambda>(k, w, c). bindMore k w c) (map (\<lambda>c. (k, w, c)) (filter (\<lambda>c. c \<noteq> []) cs)) r"
    for k w cs r by (induction cs arbitrary: r) auto
  then have "bindLine env b r = fold (\<lambda>(k, w, c). bindMore k w c) (meanings env [b]) r"
    by (simp add: bindLine_def meanings_def split: prod.splits)
  then show ?case using Cons by (simp add: meanings_def)
qed (simp add: meanings_def)

lemma apply_meanings:
  assumes "\<forall>b \<in> set bs. [] \<notin> set (bn_Commands b)"
  shows "fold (\<lambda>b. fold (\<lambda>cmd r. if cmd = [] then Bind env (bn_Key b) [] r else Prefer env (bn_Key b) cmd r) (bn_Commands b)) bs r = fold preferKey (meanings env bs) r"
  using assms
proof (induction bs arbitrary: r)
  case (Cons b bs)
  obtain k w keep where h: "keyHints (bn_Key b) env = (k, w, keep)" by (metis prod_cases3)
  have P: "Prefer env (bn_Key b) c r = (if keep then preferKey (k, w, c) r else r)" if "c \<noteq> []" for c r
    using that h by (simp add: Prefer_def preferKey_def)
  have "[] \<notin> set cs \<Longrightarrow> fold (\<lambda>cmd r. if cmd = [] then Bind env (bn_Key b) [] r else Prefer env (bn_Key b) cmd r) cs r =
      fold preferKey (if keep then map (\<lambda>c. (k, w, c)) (filter (\<lambda>c. c \<noteq> []) cs) else []) r" for cs r
    by (induction cs arbitrary: r) (auto simp: P)
  then have "fold (\<lambda>cmd r. if cmd = [] then Bind env (bn_Key b) [] r else Prefer env (bn_Key b) cmd r) (bn_Commands b) r = fold preferKey (meanings env [b]) r"
    using Cons.prems h by (simp add: meanings_def)
  then show ?case using Cons by (simp add: meanings_def)
qed (simp add: meanings_def)

text \<open>The bindings of a key where the meaning in place \<open>i\<close> came at \<open>f i\<close>.\<close>

definition table :: "(nat \<Rightarrow> nat) \<Rightarrow> (string \<times> int \<times> string) list \<Rightarrow> string \<Rightarrow> boundCommand list" where
  "table f ps k = map (\<lambda>(i, _, w, c). \<lparr>bc_command = c, bc_serial = f i, bc_weight = w\<rparr>) (filter (\<lambda>(i, k', _). k' = k) (enumerate 0 ps))"

lemma bound_table:
  "boundTo (kr_bindings (fold (\<lambda>(k, w, c). bindMore k w c) ps \<lparr>kr_name = name, kr_bindings = [], kr_revision = 0, kr_serial = 0\<rparr>)) = table Suc ps \<and>
   kr_serial (fold (\<lambda>(k, w, c). bindMore k w c) ps \<lparr>kr_name = name, kr_bindings = [], kr_revision = 0, kr_serial = 0\<rparr>) = List.length ps"
proof (induction ps rule: rev_induct)
  case Nil show ?case by (simp add: table_def fun_eq_iff)
next
  case (snoc p ps) then show ?case by (cases p) (auto simp: fun_eq_iff bindMore_def table_def enumerate_append_eq)
qed

lemma promote_one: "distinct (map bc_command bs) \<Longrightarrow>
    promote c n w bs = map (\<lambda>b. if bc_command b = c then b\<lparr>bc_serial := n, bc_weight := max w (bc_weight b)\<rparr> else b) bs"
proof (induction bs)
  case (Cons b bs)
  have "bc_command b = c \<Longrightarrow> map (\<lambda>b. if bc_command b = c then b\<lparr>bc_serial := n, bc_weight := max w (bc_weight b)\<rparr> else b) bs = bs"
    using Cons.prems by (intro map_idI) (auto simp: image_iff)
  then show ?case using Cons by simp
qed simp

lemma enumerate_same:
  assumes "distinct (map (\<lambda>(k, w, c). (k, c)) ps)" "(i, k, w, c) \<in> set (enumerate 0 ps)" "(j, k, w', c) \<in> set (enumerate 0 ps)"
  shows "i = j"
proof -
  have "i < List.length ps" "ps ! i = (k, w, c)" "j < List.length ps" "ps ! j = (k, w', c)" using assms(2,3) by (simp_all add: in_set_enumerate_eq)
  then show ?thesis using nth_eq_iff_index_eq[OF assms(1), of i j] by simp
qed

lemma table_commands: "distinct (map (\<lambda>(k, w, c). (k, c)) ps) \<Longrightarrow> distinct (map bc_command (table f ps k))"
proof -
  assume d: "distinct (map (\<lambda>(k, w, c). (k, c)) ps)"
  have "distinct (filter (\<lambda>(i, k', _). k' = k) (enumerate 0 ps))" by (simp add: distinct_enumerate)
  moreover have "inj_on (\<lambda>(i, k', w, c). c) (set (filter (\<lambda>(i, k', _). k' = k) (enumerate 0 ps)))"
  proof (rule inj_onI)
    fix x y assume xy: "x \<in> set (filter (\<lambda>(i, k', _). k' = k) (enumerate 0 ps))" "y \<in> set (filter (\<lambda>(i, k', _). k' = k) (enumerate 0 ps))"
      "(case x of (i, k', w, c) \<Rightarrow> c) = (case y of (i, k', w, c) \<Rightarrow> c)"
    obtain i w c where x: "x = (i, k, w, c)" using xy(1) by auto
    obtain j w' where y: "y = (j, k, w', c)" using xy(2,3) x by auto
    have "i = j" using enumerate_same[OF d, of i k w c j w'] xy(1,2) x y by simp
    then show "x = y" using xy(1,2) x y by (auto simp: in_set_enumerate_eq)
  qed
  ultimately have "distinct (map (\<lambda>(i, k', w, c). c) (filter (\<lambda>(i, k', _). k' = k) (enumerate 0 ps)))" by (simp add: distinct_map)
  moreover have "map bc_command (table f ps k) = map (\<lambda>(i, k', w, c). c) (filter (\<lambda>(i, k', _). k' = k) (enumerate 0 ps))" by (simp add: table_def split_def)
  ultimately show ?thesis by simp
qed

lemma prefer_table:
  assumes d: "distinct (map (\<lambda>(k, w, c). (k, c)) ps)" and j: "j < List.length ps" "ps ! j = (k, w, c)"
    and r: "boundTo (kr_bindings r) = table f ps"
  shows "boundTo (kr_bindings (preferKey (k, w, c) r)) = table (f(j := Suc (kr_serial r))) ps \<and>
    map fst (kr_bindings (preferKey (k, w, c) r)) = map fst (kr_bindings r) \<and> kr_serial (preferKey (k, w, c) r) = Suc (kr_serial r)"
proof -
  let ?n = "Suc (kr_serial r)"
  have mem: "(j, k, w, c) \<in> set (enumerate 0 ps)" using j by (simp add: in_set_enumerate_eq)
  have here: "i = j \<longleftrightarrow> c' = c" "i = j \<Longrightarrow> w' = w" if "(i, k, w', c') \<in> set (enumerate 0 ps)" for i w' c'
    using enumerate_same[OF d, of i k w' c j w] that mem by (auto simp: in_set_enumerate_eq)
  have ex: "\<lparr>bc_command = c, bc_serial = f j, bc_weight = w\<rparr> \<in> set (table f ps k)" using mem by (force simp: table_def)
  then have l: "list_ex (\<lambda>b. bc_command b = c) (boundTo (kr_bindings r) k)" using r unfolding list_ex_iff by (metis boundCommand.select_convs(1))
  have p: "promote c ?n w (table f ps k) = table (f(j := ?n)) ps k"
    unfolding promote_one[OF table_commands[OF d]] unfolding table_def map_map
  proof (rule map_cong[OF refl])
    fix x assume x: "x \<in> set (filter (\<lambda>(i, k', _). k' = k) (enumerate 0 ps))"
    obtain i w' c' where e: "x = (i, k, w', c')" using x by auto
    have m: "(i, k, w', c') \<in> set (enumerate 0 ps)" using x e by simp
    show "((\<lambda>b. if bc_command b = c then b\<lparr>bc_serial := ?n, bc_weight := max w (bc_weight b)\<rparr> else b) \<circ> (\<lambda>(i, _, w, c). \<lparr>bc_command = c, bc_serial = f i, bc_weight = w\<rparr>)) x =
        (case x of (i, _, w, c) \<Rightarrow> \<lparr>bc_command = c, bc_serial = (f(j := ?n)) i, bc_weight = w\<rparr>)"
      using here[OF m] e by (cases "i = j") simp_all
  qed
  have o: "table (f(j := ?n)) ps k' = table f ps k'" if "k' \<noteq> k" for k'
    unfolding table_def using that j by (intro map_cong) (auto simp: in_set_enumerate_eq)
  have "k \<in> set (map fst (kr_bindings r))" using l by (force simp: boundTo_def split: option.splits dest: map_of_SomeD)
  then show ?thesis using l p o r by (auto simp: preferKey_def fun_eq_iff update_keys)
qed

lemma prefers_table:
  assumes d: "distinct (map (\<lambda>(k, w, c). (k, c)) ps)" and r: "boundTo (kr_bindings r) = table Suc ps" "kr_serial r = List.length ps" and "n \<le> List.length ps"
  shows "boundTo (kr_bindings (fold preferKey (take n ps) r)) = table (\<lambda>i. if i < n then List.length ps + Suc i else Suc i) ps \<and>
    map fst (kr_bindings (fold preferKey (take n ps) r)) = map fst (kr_bindings r) \<and> kr_serial (fold preferKey (take n ps) r) = List.length ps + n"
  using assms(4)
proof (induction n)
  case 0 then show ?case using r by simp
next
  case (Suc n)
  obtain k w c where p: "ps ! n = (k, w, c)" by (metis prod_cases3)
  have t: "take (Suc n) ps = take n ps @ [(k, w, c)]" using Suc.prems p by (simp add: take_Suc_conv_app_nth)
  have f: "(\<lambda>i. if i < n then List.length ps + Suc i else Suc i)(n := Suc (List.length ps + n)) = (\<lambda>i. if i < Suc n then List.length ps + Suc i else Suc i)"
    by (auto simp: fun_eq_iff)
  show ?case using Suc prefer_table[OF d, of n k w c "fold preferKey (take n ps) r"] p t f by simp
qed

lemma alist_listed: "distinct (map fst bs) \<Longrightarrow> bs = map (\<lambda>k. (k, boundTo bs k)) (map fst bs)"
proof (rule nth_equalityI)
  fix i assume d: "distinct (map fst bs)" and i: "i < List.length bs"
  obtain k b where x: "bs ! i = (k, b)" by (cases "bs ! i")
  then have "map_of bs k = Some b" using d i by (metis map_of_is_SomeI nth_mem)
  then show "bs ! i = map (\<lambda>k. (k, boundTo bs k)) (map fst bs) ! i" using i x by (simp add: boundTo_def)
qed simp

definition later :: "nat \<Rightarrow> boundCommand \<Rightarrow> boundCommand" where "later n b = b\<lparr>bc_serial := n + bc_serial b\<rparr>"

lemma later_simps [simp]: "bc_command (later n b) = bc_command b" "outranks (later n a) (later n b) = outranks a b"
  by (simp_all add: later_def outranks_def)

definition allLater :: "nat \<Rightarrow> bindings \<Rightarrow> bindings" where "allLater n bs = map (\<lambda>(k, b). (k, map (later n) b)) bs"

lemma later_ranked: "foldr insertRank (map (\<lambda>(k, b). (k, later n b)) xs) [] = map (\<lambda>(k, b). (k, later n b)) (foldr insertRank xs [])"
proof -
  have "insertRank (k, later n b) (map (\<lambda>(k, b). (k, later n b)) gs) = map (\<lambda>(k, b). (k, later n b)) (insertRank (k, b) gs)" for k b gs
    by (induction gs) (auto split: prod.splits)
  then show ?thesis by (induction xs) (auto split: prod.splits)
qed

lemma later_keys: "kr_bindings r' = allLater n (kr_bindings r) \<Longrightarrow> KeysFor command r' = KeysFor command r"
proof -
  assume r: "kr_bindings r' = allLater n (kr_bindings r)"
  have "List.find (\<lambda>c. bc_command c = command) (map (later n) b) = map_option (later n) (List.find (\<lambda>c. bc_command c = command) b)" for b
    by (induction b) auto
  then have "boundFor command (allLater n bs) = map (\<lambda>(k, b). (k, later n b)) (boundFor command bs)" for bs
    by (induction bs) (auto simp: boundFor_def allLater_def List.map_filter_simps option.map_comp comp_def split: prod.splits option.splits)
  then have "KeysFor command r' = map fst (map (\<lambda>(k, b). (k, later n b)) (foldr insertRank (boundFor command (kr_bindings r)) []))"
    unfolding KeysFor_def r later_ranked[symmetric] by (simp only:)
  then show ?thesis by (simp add: KeysFor_def split_def comp_def)
qed

text \<open>C6. Restating a whole keymap lands back on it: applied again to the registry that was built from it, a keymap that blanks
  nothing and says nothing twice gives every key the meanings it had in the order it had them, and every command the same keys in
  the same order, so nothing that is advertised changes.
\<close>

theorem restating_changes_nothing:
  assumes "\<forall>b \<in> set bs. [] \<notin> set (bn_Commands b)" "distinct (map (\<lambda>(k, w, c). (k, c)) (meanings env bs))"
    and "R = NewKeyRegistry env name bs" "ApplyHostKeymap env bs [] (R, chord) = (R', chord')"
  shows "chord' = chord \<and> map bc_command (boundTo (kr_bindings R') k) = map bc_command (boundTo (kr_bindings R) k) \<and> KeysFor command R' = KeysFor command R"
proof -
  let ?ps = "meanings env bs" and ?n = "List.length (meanings env bs)"
  have R: "boundTo (kr_bindings R) = table Suc ?ps" "kr_serial R = ?n"
    using bound_table[where ps = ?ps] unfolding assms(3) NewKeyRegistry_def bindLine_meanings by simp_all
  have R': "R' = fold preferKey ?ps R" "chord' = chord" using assms(4) apply_meanings[OF assms(1), of env R] by (simp_all add: ApplyHostKeymap_def)
  have B: "boundTo (kr_bindings R') = table (\<lambda>i. if i < ?n then ?n + Suc i else Suc i) ?ps" "map fst (kr_bindings R') = map fst (kr_bindings R)"
    using prefers_table[OF assms(2) R order.refl] R'(1) by simp_all
  have each: "boundTo (kr_bindings R') k = map (later ?n) (boundTo (kr_bindings R) k)" for k
    unfolding B(1) R(1) table_def map_map by (rule map_cong) (auto simp: later_def in_set_enumerate_eq)
  have d: "distinct (map fst (kr_bindings R))" using New_OK[of env name bs] assms(3) by (simp add: regOK_def)
  have "kr_bindings R' = map (\<lambda>k. (k, boundTo (kr_bindings R') k)) (map fst (kr_bindings R'))" using alist_listed[of "kr_bindings R'"] d B(2) by simp
  also have "\<dots> = map (\<lambda>k. (k, map (later ?n) (boundTo (kr_bindings R) k))) (map fst (kr_bindings R))" using each B(2) by simp
  also have "\<dots> = allLater ?n (map (\<lambda>k. (k, boundTo (kr_bindings R) k)) (map fst (kr_bindings R)))" by (simp add: allLater_def)
  also have "\<dots> = allLater ?n (kr_bindings R)" using alist_listed[OF d] by simp
  finally have "KeysFor command R' = KeysFor command R" by (rule later_keys)
  then show ?thesis using each R'(2) by (simp add: comp_def)
qed

definition plainEnv :: KeymapEnvironment where "plainEnv = \<lparr>env_OS = ''linux'', env_Graphical = False, env_Desktop = []\<rparr>"

definition keyTable :: "Binding list" where
  "keyTable = [\<lparr>bn_Key = ''^Q'', bn_Commands = [''quit'']\<rparr>, \<lparr>bn_Key = ''(mac) s-q'', bn_Commands = [''quit'', ''close'']\<rparr>]"

lemma keyTable_meanings: "meanings plainEnv keyTable = [(''^Q'', 0, ''quit''), (''s-q'', - 1, ''quit''), (''s-q'', - 1, ''close'')]"
  by code_simp

theorem restating_changes_nothing_witness:
  "KeysFor ''quit'' (fst (ApplyHostKeymap plainEnv keyTable [] (NewKeyRegistry plainEnv [] keyTable, ''M-*''))) = KeysFor ''quit'' (NewKeyRegistry plainEnv [] keyTable)"
proof -
  have b: "\<forall>b \<in> set keyTable. [] \<notin> set (bn_Commands b)" by (simp add: keyTable_def)
  have d: "distinct (map (\<lambda>(k, w, c). (k, c)) (meanings plainEnv keyTable))" by (simp add: keyTable_meanings)
  show ?thesis using restating_changes_nothing[OF b d refl, of "[]" "''M-*''"]
    by (cases "ApplyHostKeymap plainEnv keyTable [] (NewKeyRegistry plainEnv [] keyTable, ''M-*'')") simp
qed

text \<open>A line said twice in one table keeps the place it was first said at, while the same lines applied to a registry advertise the
  one said last: the same text means two things on the two sides.\<close>

lemma a_repeated_line_stays_where_it_was:
  "KeyForCommand ''x'' (NewKeyRegistry plainEnv [] (map (\<lambda>k. \<lparr>bn_Key = k, bn_Commands = [''x'']\<rparr>) [''A'', ''B'', ''A''])) = ''B''"
  "KeyForCommand ''x'' (fst (ApplyHostKeymap plainEnv (map (\<lambda>k. \<lparr>bn_Key = k, bn_Commands = [''x'']\<rparr>) [''A'', ''B'', ''A'']) [] (NewKeyRegistry plainEnv [] [], []))) = ''A''"
  by code_simp+

text \<open>A blank command unbinds its key wherever the line belongs: one that is only for a Mac unbinds it everywhere.\<close>

lemma a_blank_unbinds_everywhere:
  "Binds ''^W'' (fst (ApplyHostKeymap plainEnv [\<lparr>bn_Key = ''(only_mac) ^W'', bn_Commands = [[]]\<rparr>] []
     (NewKeyRegistry plainEnv [] [\<lparr>bn_Key = ''^W'', bn_Commands = [''window_close'']\<rparr>], []))) = False"
  by code_simp

end
