(* ===== verification/KeyContextFacts.thy ===== *)
theory KeyContextFacts
  imports KeyMapFacts
begin

text \<open>
  What keys mean in a situation (\<open>core/keymap.go\<close>): the key a context shows is the best of those it offers, whatever order its map is
  gone through in (\<open>advertised\<close>), and a trinket that keeps a context for as long as its registry's revision stands (locale
  \<open>revisioned\<close>) never shows what a fresh one would not.
\<close>

subsection \<open>Contexts\<close>

text \<open>The processor as it is documented: its mappings are those it was last given, a key or a sequence abandoned changes none.\<close>

definition sequencesDocumented :: "'p sequencer \<Rightarrow> bool" where
  "sequencesDocumented sq \<longleftrightarrow>
     (\<forall>p. distinct (map fst (sq_GetAllMappings sq p))) \<and>
     (\<forall>m p. map_of (sq_GetAllMappings sq (sq_SetMappings sq m p)) = map_of m) \<and>
     (\<forall>k p. map_of (sq_GetAllMappings sq (snd (sq_ProcessKey sq k p))) = map_of (sq_GetAllMappings sq p)) \<and>
     (\<forall>p. map_of (sq_GetAllMappings sq (sq_ClearActiveSequence sq p)) = map_of (sq_GetAllMappings sq p))"

text \<open>What a key means in a situation that offers these commands.\<close>

definition meaningOf :: "string list \<Rightarrow> KeyRegistry \<Rightarrow> string \<Rightarrow> boundCommand option" where
  "meaningOf commands r k = List.find (\<lambda>b. bc_command b \<in> set commands) (boundTo (kr_bindings r) k)"

text \<open>A context that offers what a registry means by these commands, however far it is through a sequence.\<close>

definition offers :: "'p sequencer \<Rightarrow> string list \<Rightarrow> KeyRegistry \<Rightarrow> 'p KeyContext \<Rightarrow> bool" where
  "offers sq commands r c \<longleftrightarrow> (\<forall>k. map_of (kc_ranks c) k = meaningOf commands r k) \<and>
     (\<forall>k. map_of (sq_GetAllMappings sq (kc_proc c)) k = map_option bc_command (meaningOf commands r k))"

lemma map_of_named: "map_of (map (\<lambda>(k, b). (k, f b)) xs) k = map_option f (map_of xs k)"
  by (induction xs) auto

lemma built_offers: "sequencesDocumented sq \<Longrightarrow> regOK r \<Longrightarrow> offers sq commands r (BuildContext sq commands r)"
  using picked_map_of[of "kr_bindings r" "\<lambda>c. bc_command c \<in> set commands"]
  by (simp add: offers_def BuildContext_def Let_def sequencesDocumented_def offered_def meaningOf_def regOK_def map_of_named)

lemma shown_fold:
  fixes rank :: "string \<Rightarrow> boundCommand"
  assumes "distinct (map fst m)" "[] \<notin> set (map fst m)"
    and inj: "\<And>k k'. (k, command) \<in> set m \<Longrightarrow> (k', command) \<in> set m \<Longrightarrow> bc_serial (rank k) = bc_serial (rank k') \<Longrightarrow> k = k'"
  defines "step \<equiv> \<lambda>(key, cmd) (best, bestRank). if cmd \<noteq> command then (best, bestRank)
      else if best = [] \<or> outranks (rank key) bestRank \<or> rank key = bestRank \<and> key > best then (key, rank key) else (best, bestRank)"
  shows "case fold step m ([], z) of (best, bestRank) \<Rightarrow>
    (if \<exists>k. (k, command) \<in> set m then (best, command) \<in> set m \<and> bestRank = rank best \<and> (\<forall>k. (k, command) \<in> set m \<and> k \<noteq> best \<longrightarrow> outranks (rank best) (rank k))
     else best = [])"
  using assms(1-3)
proof (induction m rule: rev_induct)
  case (snoc x m)
  obtain key cmd where x: "x = (key, cmd)" by (cases x)
  obtain best br where f: "fold step m ([], z) = (best, br)" by (metis surj_pair)
  have ih: "case fold step m ([], z) of (best, bestRank) \<Rightarrow>
    (if \<exists>k. (k, command) \<in> set m then (best, command) \<in> set m \<and> bestRank = rank best \<and> (\<forall>k. (k, command) \<in> set m \<and> k \<noteq> best \<longrightarrow> outranks (rank best) (rank k))
     else best = [])"
    using snoc.prems by (intro snoc.IH) auto
  show ?case
  proof (cases "cmd = command")
    case False then show ?thesis using ih f x by (auto simp: step_def)
  next
    case True
    show ?thesis
    proof (cases "\<exists>k. (k, command) \<in> set m")
      case none: False then show ?thesis using ih f x True by (auto simp: step_def)
    next
      case some: True
      then have b: "(best, command) \<in> set m" "br = rank best" "\<And>k. (k, command) \<in> set m \<Longrightarrow> k \<noteq> best \<Longrightarrow> outranks (rank best) (rank k)"
        using ih f by auto
      have ne: "best \<noteq> []" "key \<noteq> best" using b(1) snoc.prems(1,2) x by force+
      have s: "bc_serial (rank key) \<noteq> bc_serial (rank best)" using snoc.prems(3)[of key best] b(1) x True ne by auto
      then have r: "rank key \<noteq> rank best" by auto
      show ?thesis
      proof (cases "outranks (rank key) (rank best)")
        case True
        then have "outranks (rank key) (rank k)" if "(k, command) \<in> set m" for k using b(3)[OF that] outranks_trans by (cases "k = best") blast+
        then show ?thesis using True f x \<open>cmd = command\<close> b by (auto simp: step_def)
      next
        case False
        then have "outranks (rank best) (rank key)" using outranks_linear s by blast
        then show ?thesis using False f x \<open>cmd = command\<close> b ne r by (auto simp: step_def)
      qed
    qed
  qed
qed simp

text \<open>What a context shows for a command is settled by what it offers.\<close>

definition advertised :: "string list \<Rightarrow> KeyRegistry \<Rightarrow> string \<Rightarrow> string \<Rightarrow> bool" where
  "advertised commands r command k \<longleftrightarrow>
     (if \<exists>j b. meaningOf commands r j = Some b \<and> bc_command b = command then
        (\<exists>b. meaningOf commands r k = Some b \<and> bc_command b = command \<and>
          (\<forall>j c. meaningOf commands r j = Some c \<and> bc_command c = command \<and> j \<noteq> k \<longrightarrow> outranks b c))
      else k = [])"

lemma advertised_unique: "advertised commands r command k \<Longrightarrow> advertised commands r command k' \<Longrightarrow> k = k'"
proof -
  assume a: "advertised commands r command k" "advertised commands r command k'"
  have asym: "outranks a b \<Longrightarrow> \<not> outranks b a" for a b by (auto simp: outranks_def split: if_splits)
  show ?thesis
  proof (cases "\<exists>j b. meaningOf commands r j = Some b \<and> bc_command b = command")
    case True
    have best: "\<exists>b. meaningOf commands r k = Some b \<and> bc_command b = command \<and>
        (\<forall>j c. meaningOf commands r j = Some c \<and> bc_command c = command \<and> j \<noteq> k \<longrightarrow> outranks b c)" if "advertised commands r command k" for k
      using that True unfolding advertised_def by (simp only: if_True)
    obtain b where b: "meaningOf commands r k = Some b" "bc_command b = command"
      "\<And>j c. meaningOf commands r j = Some c \<Longrightarrow> bc_command c = command \<Longrightarrow> j \<noteq> k \<Longrightarrow> outranks b c" using best[OF a(1)] by blast
    obtain b' where b': "meaningOf commands r k' = Some b'" "bc_command b' = command"
      "\<And>j c. meaningOf commands r j = Some c \<Longrightarrow> bc_command c = command \<Longrightarrow> j \<noteq> k' \<Longrightarrow> outranks b' c" using best[OF a(2)] by blast
    show ?thesis using b(3)[OF b'(1,2)] b'(3)[OF b(1,2)] asym by blast
  next
    case False then show ?thesis using a unfolding advertised_def by (simp only: if_False)
  qed
qed

lemma meaning_bound: "meaningOf commands r k = Some b \<Longrightarrow> b \<in> set (boundTo (kr_bindings r) k) \<and> bc_command b \<in> set commands"
  by (auto simp: meaningOf_def find_Some_iff)

lemma shown_advertised:
  assumes sq: "sequencesDocumented sq" and r: "regOK r" "boundTo (kr_bindings r) [] = []" and c: "offers sq commands r c" and command: "command \<noteq> []"
  shows "advertised commands r command (shownKey sq command c)"
proof -
  let ?m = "sq_GetAllMappings sq (kc_proc c)" and ?z = "\<lparr>bc_command = [], bc_serial = 0, bc_weight = 0\<rparr>"
  have d: "distinct (map fst ?m)" using sq by (simp add: sequencesDocumented_def)
  have mem: "(k, command) \<in> set ?m \<longleftrightarrow> (\<exists>b. meaningOf commands r k = Some b \<and> bc_command b = command)" for k
    using c map_of_eq_Some_iff[OF d, of k command] by (simp add: offers_def)
  have rank: "rankOf c k = b" if "meaningOf commands r k = Some b" for k b using c that by (simp add: offers_def rankOf_def)
  have none: "meaningOf commands r [] = None" using r(2) by (simp add: meaningOf_def)
  have named: "[] \<notin> set (map fst ?m)"
    using c none map_of_eq_None_iff[of ?m "[]"] by (simp add: offers_def)
  have inj: "k = k'" if "(k, command) \<in> set ?m" "(k', command) \<in> set ?m" "bc_serial (rankOf c k) = bc_serial (rankOf c k')" for k k'
  proof -
    note two = that
    obtain b b' where b: "meaningOf commands r k = Some b" "meaningOf commands r k' = Some b'" using mem[of k] mem[of k'] two(1,2) by blast
    have "bc_serial b = bc_serial b'" using rank[OF b(1)] rank[OF b(2)] two(3) by simp
    moreover have "serialsOK (boundTo (kr_bindings r)) (kr_serial r)" using r(1) by (simp add: regOK_def)
    ultimately show ?thesis using serialsOK_one meaning_bound[OF b(1)] meaning_bound[OF b(2)] by blast
  qed
  have step: "(\<lambda>(key, cmd) best. if cmd \<noteq> command then best else better c key best) =
      (\<lambda>(key, cmd) (best, bestRank). if cmd \<noteq> command then (best, bestRank)
        else if best = [] \<or> outranks (rankOf c key) bestRank \<or> rankOf c key = bestRank \<and> key > best then (key, rankOf c key) else (best, bestRank))"
    by (auto simp: fun_eq_iff better_def Let_def)
  obtain best br where f: "fold (\<lambda>(key, cmd) best. if cmd \<noteq> command then best else better c key best) ?m ([], ?z) = (best, br)" by (rule prod.exhaust)
  have shown: "shownKey sq command c = best" using f command by (simp add: shownKey_def)
  have spec: "if \<exists>k. (k, command) \<in> set ?m then (best, command) \<in> set ?m \<and> br = rankOf c best \<and>
      (\<forall>k. (k, command) \<in> set ?m \<and> k \<noteq> best \<longrightarrow> outranks (rankOf c best) (rankOf c k)) else best = []"
    using shown_fold[where rank = "rankOf c" and m = ?m and command = command and z = ?z, OF d named inj] unfolding f[unfolded step] prod.case .
  show ?thesis
  proof (cases "\<exists>k. (k, command) \<in> set ?m")
    case False
    then have "\<not> (\<exists>j b. meaningOf commands r j = Some b \<and> bc_command b = command)" "best = []" using mem spec by auto
    then show ?thesis unfolding shown advertised_def by (simp only: if_False)
  next
    case True
    then have s: "(best, command) \<in> set ?m" "\<And>k. (k, command) \<in> set ?m \<Longrightarrow> k \<noteq> best \<Longrightarrow> outranks (rankOf c best) (rankOf c k)" using spec by auto
    obtain b where b: "meaningOf commands r best = Some b" "bc_command b = command" using s(1) mem by auto
    have "outranks b c'" if "meaningOf commands r j = Some c'" "bc_command c' = command" "j \<noteq> best" for j c'
      using s(2)[of j] that mem rank[OF b(1)] rank[OF that(1)] by auto
    then show ?thesis unfolding shown advertised_def using b by auto
  qed
qed

text \<open>C3. A key is never advertised that does not run its command: whatever became of a registry, the key a context shows for a command
  is one that means it here, that is, of the meanings of that key the first on offer, and is what the processor is given for
  that key; no other key that means it here ranks above it, and none is shown just when no key means it here. The processor is as
  documented, and no line of the keymap is all hints, which would bind the key without a name.
\<close>

theorem the_key_shown_is_the_key_that_runs:
  assumes "sequencesDocumented sq" "command \<noteq> []" "R = edited env name bs es" "boundTo (kr_bindings R) [] = []"
    and "k = shownKey sq command (BuildContext sq commands R)"
  shows "if \<exists>j b. meaningOf commands R j = Some b \<and> bc_command b = command
     then map_of (sq_GetAllMappings sq (kc_proc (BuildContext sq commands R))) k = Some command \<and>
       (\<exists>b. meaningOf commands R k = Some b \<and> bc_command b = command \<and>
         (\<forall>j c. meaningOf commands R j = Some c \<and> bc_command c = command \<and> j \<noteq> k \<longrightarrow> outranks b c))
     else k = []"
proof -
  have r: "regOK R" using assms(3) edited_OK by simp
  note o = built_offers[OF assms(1) r, of commands]
  have a: "advertised commands R command k" unfolding assms(5) by (rule shown_advertised[OF assms(1) r assms(4) o assms(2)])
  show ?thesis
  proof (cases "\<exists>j b. meaningOf commands R j = Some b \<and> bc_command b = command")
    case True
    then obtain b where b: "meaningOf commands R k = Some b" "bc_command b = command"
      "\<forall>j c. meaningOf commands R j = Some c \<and> bc_command c = command \<and> j \<noteq> k \<longrightarrow> outranks b c"
      using a unfolding advertised_def by (simp only: if_True) blast
    then have "map_of (sq_GetAllMappings sq (kc_proc (BuildContext sq commands R))) k = Some command" using o by (simp add: offers_def)
    then show ?thesis using True b by (simp only: if_True) blast
  next
    case False then show ?thesis using a unfolding advertised_def by (simp only: if_False)
  qed
qed

text \<open>A processor of single keys.\<close>

definition singleKeys :: "(string \<times> string) list sequencer" where
  "singleKeys = \<lparr>sq_New = [], sq_SetMappings = (\<lambda>m p. AList.clearjunk m), sq_GetAllMappings = AList.clearjunk, sq_GetActiveSequence = (\<lambda>p. []),
     sq_ProcessKey = (\<lambda>k p. (case map_of p k of Some c \<Rightarrow> c | None \<Rightarrow> [], p)), sq_ClearActiveSequence = (\<lambda>p. p)\<rparr>"

lemma singleKeys_documented: "sequencesDocumented singleKeys"
  by (simp add: sequencesDocumented_def singleKeys_def distinct_clearjunk map_of_clearjunk)

lemma keyTable_built: "kr_bindings (edited plainEnv [] keyTable []) =
    [(''^Q'', [\<lparr>bc_command = ''quit'', bc_serial = 1, bc_weight = 0\<rparr>]),
     (''s-q'', [\<lparr>bc_command = ''quit'', bc_serial = 2, bc_weight = - 1\<rparr>, \<lparr>bc_command = ''close'', bc_serial = 3, bc_weight = - 1\<rparr>])]"
  unfolding edited_def by code_simp

theorem the_key_shown_is_the_key_that_runs_witness:
  "map_of (sq_GetAllMappings singleKeys (kc_proc (BuildContext singleKeys [''close'', ''quit''] (edited plainEnv [] keyTable []))))
     (shownKey singleKeys ''quit'' (BuildContext singleKeys [''close'', ''quit''] (edited plainEnv [] keyTable []))) = Some ''quit''"
proof -
  let ?R = "edited plainEnv [] keyTable []"
  have n: "boundTo (kr_bindings ?R) [] = []" by (simp add: keyTable_built boundTo_def)
  have m: "\<exists>j b. meaningOf [''close'', ''quit''] ?R j = Some b \<and> bc_command b = ''quit''"
    by (rule exI[of _ "''^Q''"]) (simp add: meaningOf_def boundTo_def keyTable_built)
  show ?thesis using the_key_shown_is_the_key_that_runs[OF singleKeys_documented, of "''quit''" ?R plainEnv "[]" keyTable "[]", OF _ refl n refl, of "[''close'', ''quit'']"] m
    by (simp only: if_True) blast
qed

subsection \<open>The keys of a trinket are never stale\<close>

text \<open>What is counted by its revisions: a change that is not counted changes nothing. What was made at one revision holds while
  the revision stands.\<close>

locale revisioned =
  fixes rev :: "'r \<Rightarrow> nat" and changed :: "'r \<Rightarrow> 'r \<Rightarrow> bool"
  assumes counted: "changed a b \<Longrightarrow> rev a < rev b \<or> b = a"
begin

lemma onward: "changed\<^sup>*\<^sup>* a b \<Longrightarrow> rev a < rev b \<or> b = a"
  by (induction rule: rtranclp_induct) (use counted less_trans in blast)+

lemma same_revision: "changed\<^sup>*\<^sup>* a b \<Longrightarrow> rev a = rev b \<Longrightarrow> b = a"
  using onward by fastforce

end

definition editing :: "KeyRegistry \<Rightarrow> KeyRegistry \<Rightarrow> bool" where "editing a b \<longleftrightarrow> (\<exists>e. b = runEdit e a)"

interpretation edits_counted: revisioned kr_revision editing
proof
  fix a b assume "editing a b"
  then obtain e where "b = runEdit e a" by (auto simp: editing_def)
  then show "kr_revision a < kr_revision b \<or> b = a"
    by (auto simp: runEdit_def Bind_def AddBinding_def Prefer_def bindMore_def Let_def split: prod.splits edit.splits if_splits)
qed

text \<open>What may happen to registries and to the keys of one trinket. The registry in force is wherever the focus has gone.\<close>

datatype keysStep = Edits nat "KeymapEnvironment \<times> edit" | Declares "string list" | Owned "nat option" | Presses nat string | Asks nat string | Drops

fun runKeys :: "'p sequencer \<Rightarrow> keysStep \<Rightarrow> (nat \<Rightarrow> KeyRegistry) \<times> 'p TrinketKeys \<Rightarrow> (nat \<Rightarrow> KeyRegistry) \<times> 'p TrinketKeys" where
  "runKeys sq (Edits i e) (regs, t) = (regs(i := runEdit e (regs i)), t)"
| "runKeys sq (Declares cs) (regs, t) = (regs, SetCommands cs t)"
| "runKeys sq (Owned owner) (regs, t) = (regs, SetKeyOwner owner t)"
| "runKeys sq (Presses r key) (regs, t) = (regs, snd (KeyCommand sq regs r key t))"
| "runKeys sq (Asks r command) (regs, t) = (regs, snd (trinketKey sq regs r command t))"
| "runKeys sq Drops (regs, t) = (regs, AbandonKeySequence sq t)"

definition upToDate :: "'p sequencer \<Rightarrow> (nat \<Rightarrow> KeyRegistry) \<times> 'p TrinketKeys \<Rightarrow> bool" where
  "upToDate sq st \<longleftrightarrow> (case st of (regs, t) \<Rightarrow> (\<forall>i. regOK (regs i)) \<and>
     (ky_built t \<longrightarrow> (\<exists>c R r. ky_ctx t = Some c \<and> ky_reg t = Some R \<and> ky_rev t = kr_revision r \<and> editing\<^sup>*\<^sup>* r (regs R) \<and> offers sq (ky_commands t) r c)))"

lemma resolved_offers: "sequencesDocumented sq \<Longrightarrow> offers sq cs r c \<Longrightarrow> offers sq cs r (snd (Resolve sq key c))"
  by (auto simp: offers_def Resolve_def sequencesDocumented_def Let_def split: prod.splits) (metis snd_conv)+

lemma abandoned_offers: "sequencesDocumented sq \<Longrightarrow> offers sq cs r c \<Longrightarrow> offers sq cs r (Abandon sq c)"
  by (simp add: offers_def Abandon_def sequencesDocumented_def)

lemma builtFor_upToDate:
  assumes sq: "sequencesDocumented sq" and t: "upToDate sq (regs, t)" and b: "builtFor sq regs R t = (c, t')"
  shows "upToDate sq (regs, t') \<and> offers sq (ky_commands t) (regs R) c \<and> ky_ctx t' = Some c \<and> ky_built t' \<and> ky_reg t' = Some R \<and>
    ky_rev t' = kr_revision (regs R) \<and> ky_commands t' = ky_commands t"
proof -
  have ok: "\<forall>i. regOK (regs i)" using t by (simp add: upToDate_def)
  have fresh: "offers sq (ky_commands t) (regs R) (BuildContext sq (ky_commands t) (regs R))" using built_offers[OF sq] ok by blast
  show ?thesis
  proof (cases "ky_ctx t = None \<or> \<not> ky_built t \<or> ky_rev t \<noteq> kr_revision (regs R) \<or> ky_reg t \<noteq> Some R")
    case True
    then have "c = BuildContext sq (ky_commands t) (regs R)" "t' = t\<lparr>ky_ctx := Some c, ky_rev := kr_revision (regs R), ky_reg := Some R, ky_built := True\<rparr>"
      using b by (auto simp: builtFor_def Let_def split: option.splits)
    then show ?thesis using fresh ok by (auto simp: upToDate_def)
  next
    case False
    then have e: "ky_ctx t = Some c" "t' = t" using b by (auto simp: builtFor_def split: option.splits if_splits)
    obtain r where r: "ky_rev t = kr_revision r" "editing\<^sup>*\<^sup>* r (regs R)" "offers sq (ky_commands t) r c" using t False e by (auto simp: upToDate_def)
    then have "regs R = r" using edits_counted.same_revision False by metis
    then show ?thesis using r e t False by auto
  qed
qed

lemma runKeys_upToDate: "sequencesDocumented sq \<Longrightarrow> upToDate sq st \<Longrightarrow> upToDate sq (runKeys sq s st)"
proof -
  assume sq: "sequencesDocumented sq" and st: "upToDate sq st"
  obtain regs t where e: "st = (regs, t)" by (cases st)
  show ?thesis
  proof (cases s)
    case (Edits i x)
    have keep: "editing\<^sup>*\<^sup>* r (regs j) \<Longrightarrow> editing\<^sup>*\<^sup>* r ((regs(i := runEdit x (regs i))) j)" for r j
    proof -
      have "editing (regs i) (runEdit x (regs i))" unfolding editing_def by blast
      then show "editing\<^sup>*\<^sup>* r (regs j) \<Longrightarrow> editing\<^sup>*\<^sup>* r ((regs(i := runEdit x (regs i))) j)"
        using rtranclp.rtrancl_into_rtrancl[of editing r "regs i" "runEdit x (regs i)"] by (cases "j = i") auto
    qed
    have ok: "\<forall>j. regOK ((regs(i := runEdit x (regs i))) j)" using st e by (simp add: upToDate_def runEdit_OK)
    have "\<exists>c R r. ky_ctx t = Some c \<and> ky_reg t = Some R \<and> ky_rev t = kr_revision r \<and> editing\<^sup>*\<^sup>* r ((regs(i := runEdit x (regs i))) R) \<and> offers sq (ky_commands t) r c"
      if built: "ky_built t"
    proof -
      obtain c R r where c: "ky_ctx t = Some c" "ky_reg t = Some R" "ky_rev t = kr_revision r" "editing\<^sup>*\<^sup>* r (regs R)" "offers sq (ky_commands t) r c"
        using st e built by (auto simp: upToDate_def)
      show ?thesis using c keep[OF c(4)] by blast
    qed
    then show ?thesis using ok Edits e unfolding upToDate_def by (simp only: runKeys.simps case_prod_conv) blast
  next
    case (Declares cs) then show ?thesis using st e by (simp add: upToDate_def SetCommands_def)
  next
    case (Owned x) then show ?thesis using st e by (auto simp: upToDate_def SetKeyOwner_def)
  next
    case (Presses R key)
    obtain c t' where b: "builtFor sq regs R t = (c, t')" by (metis surj_pair)
    note B = builtFor_upToDate[OF sq st[unfolded e] b]
    have "upToDate sq (regs, t'\<lparr>ky_ctx := Some (snd (Resolve sq key c))\<rparr>)"
      using B resolved_offers[OF sq, of "ky_commands t" "regs R" c key] by (auto simp: upToDate_def)
    then show ?thesis using Presses e b by (cases "Resolve sq key c") (simp add: KeyCommand_def)
  next
    case (Asks R command)
    obtain c t' where b: "builtFor sq regs R t = (c, t')" by (metis surj_pair)
    then show ?thesis using builtFor_upToDate[OF sq st[unfolded e] b] Asks e by (simp add: trinketKey_def)
  next
    case Drops
    show ?thesis using st abandoned_offers[OF sq] unfolding Drops e by (force simp: upToDate_def AbandonKeySequence_def)
  qed
qed

text \<open>C4. A trinket never advertises a key by a keymap that has moved on: however registries were edited, keys pressed, sequences begun
  and dropped, commands declared and keymaps taken over in between, what it shows for a command is what a context built for it at
  that moment, from the registry in force, would show.
\<close>

theorem a_trinket_shows_no_stale_key:
  assumes "sequencesDocumented sq" "\<forall>i. \<exists>env name bs es. regs i = edited env name bs es" "command \<noteq> []"
    and "fold (runKeys sq) steps (regs, NewTrinketKeys) = (regs', t)" "boundTo (kr_bindings (regs' R)) [] = []"
  shows "fst (trinketKey sq regs' R command t) = shownKey sq command (BuildContext sq (ky_commands t) (regs' R))"
proof -
  have "regOK (regs i)" for i using assms(2) edited_OK by metis
  then have "upToDate sq (regs, NewTrinketKeys)" by (simp add: upToDate_def NewTrinketKeys_def)
  then have "upToDate sq (fold (runKeys sq) steps (regs, NewTrinketKeys))"
    by (induction steps arbitrary: regs rule: rev_induct) (simp_all add: runKeys_upToDate[OF assms(1)])
  then have u: "upToDate sq (regs', t)" using assms(4) by simp
  obtain c t' where b: "builtFor sq regs' R t = (c, t')" by (metis surj_pair)
  have r: "regOK (regs' R)" using u by (simp add: upToDate_def)
  have "offers sq (ky_commands t) (regs' R) c" using builtFor_upToDate[OF assms(1) u b] by blast
  then have "advertised (ky_commands t) (regs' R) command (shownKey sq command c)" by (rule shown_advertised[OF assms(1) r assms(5) _ assms(3)])
  moreover have "advertised (ky_commands t) (regs' R) command (shownKey sq command (BuildContext sq (ky_commands t) (regs' R)))"
    by (rule shown_advertised[OF assms(1) r assms(5) built_offers[OF assms(1) r] assms(3)])
  ultimately show ?thesis using advertised_unique b by (simp add: trinketKey_def)
qed

definition reboundTable :: KeyRegistry where "reboundTable = runEdit (plainEnv, EBind ''F4'' ''quit'') (edited plainEnv [] keyTable [])"

lemma reboundTable_named: "boundTo (kr_bindings reboundTable) [] = []"
  unfolding reboundTable_def edited_def by code_simp

definition askedOnce :: "(string \<times> string) list TrinketKeys" where
  "askedOnce = snd (trinketKey singleKeys (\<lambda>i. edited plainEnv [] keyTable []) 0 ''quit'' (SetCommands [''quit''] NewTrinketKeys))"

theorem a_trinket_shows_no_stale_key_witness:
  "fst (trinketKey singleKeys (\<lambda>i. if i = 0 then reboundTable else edited plainEnv [] keyTable []) 0 ''quit'' askedOnce) =
   shownKey singleKeys ''quit'' (BuildContext singleKeys (ky_commands askedOnce) reboundTable)"
proof -
  let ?R = "edited plainEnv [] keyTable []"
  have f: "fold (runKeys singleKeys) [Declares [''quit''], Asks 0 ''quit'', Edits 0 (plainEnv, EBind ''F4'' ''quit'')] (\<lambda>i. ?R, NewTrinketKeys) =
      (\<lambda>i. if i = 0 then reboundTable else ?R, askedOnce)"
    by (auto simp: askedOnce_def reboundTable_def fun_eq_iff)
  have e: "\<forall>i::nat. \<exists>env name bs es. ?R = edited env name bs es" by blast
  show ?thesis using a_trinket_shows_no_stale_key[OF singleKeys_documented e _ f, of "''quit''" 0] reboundTable_named by simp
qed

end
