(* ===== verification/Spec2Isabelle.thy ===== *)
theory Spec2Isabelle
  imports Conversations Refusals WindowQuits LayoutGridFacts ListRowsFacts AppSourceFacts AdmissionFacts KeyTextFacts KeyContextFacts
begin

text \<open>
  A verification library for KittyTK, a toolkit whose applications and displays are separate programs that talk over a wire.

  The program. An application states what it wants in a small text language: \<open>new\<close>, \<open>set\<close>, \<open>ask\<close>, \<open>do\<close>, \<open>sub\<close>, queries over
  sources of records, and templates. The package \<open>wire\<close> parses and writes that language, cuts a stream into statements and reads
  each kind of message: events, replies, refusals, answers, change notices, queries, results, places and the describe stream. On
  the display's side \<open>protocol/session.go\<close> carries out the statements of one connection on objects made by the types of
  \<open>protocol/registry.go\<close>; a trinket's types are registered in \<open>objects/trinkets\<close>. What a person does comes back as events where
  the connection subscribed to them, and what the display needs decided goes out as a question with a deadline
  (\<open>protocol/decisions.go\<close>). Which connections there are at all is settled at the gate (\<open>display/auth.go\<close>). What is shown is
  laid out by \<open>layout\<close>, held in windows that close and quit by asking (\<open>objects/window\<close>, \<open>objects/trinkets/desktop.go\<close>), and
  read in stretches from sources that may know their places or not (\<open>objects/trinkets/spine.go\<close>, \<open>listview.go\<close>), among them
  sources an application serves itself (\<open>source/application.go\<close>).

  The theories, in the order they build on each other. Names of definitions are the source's names, with a suffix where one
  clashes; a method is a function of the record of its receiver, and returns it updated.

  Base. \<open>Prelude\<close> has the machine integers and the collections of facts. \<open>GoText\<close> has strings as bytes, UTF-8, decimal numbers,
  \<open>TrimSpace\<close>, \<open>Split\<close>; \<open>GoFloat\<close> has \<open>float64\<close> as far as numbers are read and printed; \<open>GoLines\<close> reads text by lines and words.

  The language (\<open>wire/values.go\<close>, \<open>parser.go\<close>, \<open>encode.go\<close>). \<open>WireTypes\<close>, \<open>WireParser\<close>, \<open>WireEncode\<close>: a value, an argument and
  a statement as datatypes, the parser over a position in the text, the encoder. \<open>WireParserFacts\<close> shows that parsing returns on
  every text and reports an error inside it, \<open>WireRoundtrip\<close> that what is encoded is parsed back.

  Messages. \<open>WireScanner\<close> and \<open>WireMessages\<close> (\<open>wire/wire.go\<close>): frames of a stream, the handshake, replies and refusals, and the
  locales \<open>codec\<close> and \<open>framed_codec\<close> that say what every message promises: its statement is one line, parses, and reads back as
  what was said. \<open>WireEvent\<close> (\<open>event.go\<close>), \<open>WireQuery\<close>, \<open>WireResult\<close> (\<open>query.go\<close>), \<open>WireAnswer\<close> (\<open>answer.go\<close>, \<open>stale.go\<close>) and
  \<open>WireVocabulary\<close> (\<open>vocabulary.go\<close>, \<open>protocol/describe.go\<close>) interpret them. \<open>Serval\<close> and \<open>WireFields\<close> are what a query takes
  from the module serval, which is not in the repository: its words, counts and values are a parameter, and what is relied on is
  named as its documentation has it.

  Connections. \<open>BindContexts\<close> (the services of a connection: subscriptions, suppressions, handlers), \<open>Decisions\<close>
  (\<open>protocol/decisions.go\<close>: questions held open, with the locale \<open>asking\<close>), \<open>Registry\<close> and \<open>RegistryFactory\<close>
  (\<open>protocol/registry.go\<close>: types, their checks, objects made of them, with the locale \<open>registered_types\<close>), \<open>Sessions\<close>
  (\<open>protocol/session.go\<close>: every statement, over a factory of objects). \<open>SessionFacts\<close> has the contract \<open>well_mannered\<close> of a
  factory, a sublocale of what the registry gives, and the invariant of names; \<open>SessionTemplates\<close> what templates and aliases
  expand to; \<open>SessionWatch\<close> (locale \<open>watched\<close>) what a batch may let out. \<open>Trinkets\<close> is a display with checkboxes
  (\<open>objects/trinkets/checkbox.go\<close>, \<open>protocol_reg.go\<close>, \<open>trouble.go\<close>, \<open>display/display.go\<close>): the model on which all these locales
  are interpreted. \<open>Conversations\<close> and \<open>Refusals\<close> show what application and display say to each other through it.

  Windows. \<open>WindowClosing\<close> is closing, its questions and verdicts, and quitting; \<open>WindowFacts\<close> its invariants, over the locales
  \<open>shrinking\<close> and \<open>tidying\<close>; \<open>WindowQuits\<close> the properties of a desktop.

  Layout. \<open>LayoutRuns\<close> shares out a run (\<open>layout/layout.go\<close>, \<open>band.go\<close>); \<open>LayoutTracks\<close> makes spans fit (\<open>span.go\<close>);
  \<open>LayoutItems\<close> is what a child says of itself (\<open>core/align.go\<close>, \<open>units.go\<close>, \<open>direction.go\<close>, \<open>layout/inline.go\<close>); \<open>LayoutBox\<close>,
  \<open>LayoutBoxFacts\<close> are rows and columns (\<open>box.go\<close>), \<open>LayoutGrid\<close>, \<open>LayoutGridFacts\<close> grids (\<open>grid.go\<close>).

  Rows. \<open>Spine\<close>, \<open>SpineFacts\<close> keep the identities of rows in runs at their places (\<open>objects/trinkets/spine.go\<close>; locale \<open>positions\<close>,
  interpreted on the code's spine); \<open>ListRows\<close>, \<open>ListRowsFacts\<close> are a list's rows, selection and current row (\<open>listview.go\<close>,
  \<open>listsource.go\<close>, \<open>listselect.go\<close>, \<open>listchoice.go\<close>, \<open>listdrag.go\<close>); \<open>AppSource\<close>, \<open>AppSourceFacts\<close> a source that an application
  serves (\<open>source/application.go\<close>).

  Keys. \<open>KeyText\<close>, \<open>KeyTextFacts\<close> are spellings of keys, hints and keymaps as text (\<open>core/keynames.go\<close>, \<open>keyhints.go\<close>,
  \<open>keymap_config.go\<close>); \<open>KeyMaps\<close>, \<open>KeyMapFacts\<close>, \<open>KeyContextFacts\<close> the registry of what keys mean, the context of what they mean
  in a situation and the keys of a trinket (\<open>core/keymap.go\<close>; locale \<open>revisioned\<close>, interpreted on the registry). The processor of
  key sequences is of another module and a parameter.

  The gate. \<open>Admission\<close>, \<open>AdmissionFacts\<close> (\<open>display/auth.go\<close>): the file of standing decisions, how it is read, recorded in and
  edited, and what the window of connections makes of it.
\<close>

text \<open>
  What is shown. Round trips: every message that is framed is delivered and reads back as what was said, a script parses back to
  what was encoded. Invariants: every key of a session names a live object of its own; a closed window never opens again and has
  no open child; a spine never names a row at a place where it does not stand; every reader of an application's source is told of
  its end exactly once. Refinements and equivalences: subscriptions are a set of pairs, a selection is a set of rows, a template
  is its type with its properties written out, a name is accepted just when the describe stream lists it, the window of
  connections shows what the gate decides. Termination: parsing, closing and quitting. Liveness: no view waits forever, any
  stretch of a true source is reached, every arrival is told. Layout: a row or grid handed what it asks for keeps its children
  within it and apart. Keys: the key advertised for a command is the best of those that run it here, is never stale, and saying a
  keymap over changes nothing. The gate: what is decided for good is remembered and nobody else's standing changes.

  Where the code does other than it says, a theorem shows it on a concrete run: an application's name can write itself a
  permission, and closing a sequence early gives its reply to the next question. Others stand as theorems beside the properties:
  \<open>ListRowsFacts.walking_misplaces_a_silent_answer\<close>, \<open>ListRowsFacts.a_pending_row_is_given_up_early\<close>,
  \<open>SessionTemplates.self_template_never_returns\<close>, \<open>WindowQuits.quit_lost_to_its_question\<close>, \<open>LayoutGridFacts.grid_asks_for_too_little\<close>,
  \<open>LayoutBoxFacts.column_ignores_maximum\<close>, \<open>Refusals.older_verdict_decides_newer_refusal\<close>,
  \<open>KeyMapFacts.a_repeated_line_stays_where_it_was\<close> and \<open>KeyMapFacts.a_blank_unbinds_everywhere\<close>.

  Bounds and fuel. A parser, a close and a session that instantiates templates take fuel, since the code recurses on what it
  finds. The parser starts with more fuel than the text has bytes and never runs out (\<open>WireParserFacts\<close>). Closing takes fuel that
  grows with the windows and the depth of their tree (\<open>WindowQuits.closes_return\<close>). A session's fuel counts levels of templates;
  a result does not change with more of it, and a template that holds itself has none
  (\<open>SessionTemplates.self_template_never_returns\<close>). A spine keeps 512 rows, and a walk reaches row \<open>at\<close> within \<open>at/512 + 3\<close>
  questions. A scanner's line holds 65535 bytes. Everything else ends by structure or by a measure. Serials of queries and
  decisions are natural numbers where wrapping would take 2^64 of them, units of layout are unbounded integers, and integers that
  travel on the wire keep their 64 bits.

  Parameters. The module serval; the objects behind a factory, until the display with checkboxes provides them; what a person, a
  timer, a listener or a script answers; whether a peer is local; the widths a child measures for itself. A property that needs
  something of them says so in a hypothesis, and its witness has a concrete one.

  Not modelled. Drawing, hit testing, focus and gestures; styles, fonts and shaping of text; the hosts of a display (SDL, raster
  and terminal backends, pty drivers, configuration files); the window manager apart from closing and quitting; menus, docks,
  tabs, text editing and trees (a tree reads rows through the spine that is modelled here); what a list shows of a row's
  contents; properties of trinkets other than the checkbox; flex layouts, whose sizes are floating point products; the
  application's side of a connection, which buffers and waits in goroutines for the messages that are modelled; stores, bundles
  and certificates. Goroutines and locks appear as steps: an operation under a lock is one step and any order of steps is
  considered.
\<close>

end
